(* ===== verification/Prelude.thy ===== *)
theory Prelude
  imports Main "HOL-Library.Word"
begin

text \<open>
  Shared vocabulary of the development: the machine types of the C sources, the error codes and
  the return convention of the \<^verbatim>\<open>mz\<close> library (\<^verbatim>\<open>include/mz.h\<close>), the C conversion from
  \<^verbatim>\<open>size_t\<close> to \<^verbatim>\<open>int\<close>, and generic lemmas on lists and words that every component uses.
  Byte buffers are lists of 8-bit words; a buffer and its \<^verbatim>\<open>size_t\<close> length are one list.
\<close>

unbundle bit_operations_syntax

section \<open>Machine types\<close>

type_synonym u8 = "8 word"
type_synonym u16 = "16 word"
type_synonym u32 = "32 word"
type_synonym u64 = "64 word"
type_synonym bytes = "u8 list"

text \<open>
  The allocator of the C library is an argument of the code that calls \<^verbatim>\<open>malloc\<close>:
  \<open>al n\<close> says whether a request for \<open>n\<close> bytes succeeds.
\<close>

type_synonym allocator = "nat \<Rightarrow> bool"

abbreviation al_ok :: allocator where "al_ok \<equiv> (\<lambda>_. True)"

named_theorems codec_simps "definitional equations of the codec models"
named_theorems bitlist "facts about bit lists and the words they come from"

section \<open>Error codes and returns of mz.h\<close>

datatype mz_err =
    MZ_ERR_MEMORY | MZ_ERR_DATA | MZ_ERR_PARAM | MZ_ERR_STREAM | MZ_ERR_CODEC | MZ_ERR_CRYPT

fun err_code :: "mz_err \<Rightarrow> int" where
  "err_code MZ_ERR_MEMORY = -1"
| "err_code MZ_ERR_DATA = -2"
| "err_code MZ_ERR_PARAM = -3"
| "err_code MZ_ERR_STREAM = -4"
| "err_code MZ_ERR_CODEC = -5"
| "err_code MZ_ERR_CRYPT = -6"

definition MZ_OK :: int where
  "MZ_OK = 0"

text \<open>
  Every public entry point returns an \<^verbatim>\<open>int\<close> and, through a pair of out pointers, a buffer.
  \<open>ret_out\<close> is None when the call leaves the caller's \<^verbatim>\<open>*result\<close> unset.
\<close>

record mz_ret =
  ret_code :: int
  ret_out :: "bytes option"

text \<open>The conversion \<^verbatim>\<open>(int)n\<close> of a \<^verbatim>\<open>size_t\<close>: the low 32 bits, read as two's complement.\<close>

definition c_int :: "nat \<Rightarrow> int" where
  "c_int n = sint (word_of_nat n :: u32)"

definition mz_ok :: "bytes \<Rightarrow> mz_ret" where
  "mz_ok out = \<lparr>ret_code = c_int (length out), ret_out = Some out\<rparr>"

definition mz_fail :: "mz_err \<Rightarrow> mz_ret" where
  "mz_fail e = \<lparr>ret_code = err_code e, ret_out = None\<rparr>"

text \<open>The result of an internal computation, delivered through the public convention.\<close>

definition mz_deliver :: "mz_err + bytes \<Rightarrow> mz_ret" where
  "mz_deliver r = (case r of Inl e \<Rightarrow> mz_fail e | Inr out \<Rightarrow> mz_ok out)"

lemma mz_deliver_simps [simp]:
  "mz_deliver (Inl e) = mz_fail e" "mz_deliver (Inr out) = mz_ok out"
  by (simp_all add: mz_deliver_def)

lemma mz_ret_sel [simp]:
  "ret_code (mz_ok out) = c_int (length out)" "ret_out (mz_ok out) = Some out"
  "ret_code (mz_fail e) = err_code e" "ret_out (mz_fail e) = None"
  by (simp_all add: mz_ok_def mz_fail_def)

lemma err_code_neg [simp]: "err_code e < 0" "err_code e \<le> 0" "err_code e \<noteq> 0"
  by (cases e; simp)+

lemma c_int_small: "n < 2 ^ 31 \<Longrightarrow> c_int n = int n"
  by (simp add: c_int_def signed_of_nat signed_take_bit_int_eq_self)

lemma c_int_eq: "c_int n = signed_take_bit 31 (int n)"
  by (simp add: c_int_def signed_of_nat)

lemma c_int_0 [simp]: "c_int 0 = 0"
  by (simp add: c_int_small)

lemma c_int_pos: "0 < n \<Longrightarrow> n < 2 ^ 31 \<Longrightarrow> 0 < c_int n"
  by (simp add: c_int_small)

lemma c_int_le: "c_int n \<le> int n"
proof -
  have "- (2 ^ 31) \<le> int n" by (rule order_trans [of _ 0]) simp_all
  then show ?thesis
    by (simp only: c_int_eq signed_take_bit_int_less_eq_self_iff)
qed

section \<open>Lists\<close>

lemma take_Suc_nth: "n < length xs \<Longrightarrow> take (Suc n) xs = take n xs @ [xs ! n]"
  by (simp add: take_Suc_conv_app_nth)

lemma take_plus: "take (m + n) xs = take m xs @ take n (drop m xs)"
  by (simp add: take_add)

lemma nth_drop_Cons: "n < length xs \<Longrightarrow> drop n xs = xs ! n # drop (Suc n) xs"
  by (simp add: Cons_nth_drop_Suc)

lemma nth_append_snoc [simp]: "(xs @ y # ys) ! length xs = y"
  by simp

lemma nth_append_length_add: "(xs @ ys) ! (length xs + k) = ys ! k"
  by simp

section \<open>Words and numbers\<close>

lemma unat_u8_less [simp]: "unat (b :: u8) < 256"
  using unsigned_less [of b] by simp

lemma unat_u8_le [simp]: "unat (b :: u8) \<le> 255"
  using unat_u8_less [of b] by linarith

lemma unat_u32_less [simp]: "unat (b :: u32) < 4294967296"
  using unsigned_less [of b] by simp

lemma unat_of_nat_u32 [simp]: "n < 4294967296 \<Longrightarrow> unat (word_of_nat n :: u32) = n"
  by (simp add: unat_of_nat)

lemma unat_of_nat_u8 [simp]: "n < 256 \<Longrightarrow> unat (word_of_nat n :: u8) = n"
  by (simp add: unat_of_nat)

lemma mod_pow2_Suc: "(x :: nat) mod 2 ^ Suc n = x mod 2 ^ n + of_bool (bit x n) * 2 ^ n"
proof -
  have "take_bit (Suc n) x = take_bit n x + of_bool (bit x n) * 2 ^ n"
    by (metis add.commute bit_take_bit_iff mult.commute of_bool_def push_bit_of_1
        take_bit_Suc_from_most mult_1 add.right_neutral)
  then show ?thesis by (simp add: take_bit_eq_mod)
qed

lemma bit_nat_less: "n < 2 ^ k \<Longrightarrow> bit n i \<Longrightarrow> i < k" for n :: nat
  by (metis bit_take_bit_iff take_bit_nat_eq_self_iff)

lemma or_disjoint_nat: "x < 2 ^ k \<Longrightarrow> (2 ^ k * y) OR x = 2 ^ k * y + x" for x y :: nat
proof -
  assume x: "x < 2 ^ k"
  have "(2 ^ k * y) AND x = 0"
  proof (rule bit_eqI)
    fix i
    have "\<not> (bit (push_bit k y) i \<and> bit x i)"
      using x by (auto simp: bit_push_bit_iff dest: bit_nat_less)
    then show "bit ((2 ^ k * y) AND x) i = bit (0 :: nat) i"
      by (simp add: bit_and_iff push_bit_eq_mult mult.commute)
  qed
  then show ?thesis
    by (simp add: disjunctive_add_eq_or)
qed

lemma push_or_nat: "x < 2 ^ k \<Longrightarrow> push_bit k y OR x = 2 ^ k * y + x" for x y :: nat
  using or_disjoint_nat [of x k y] by (simp add: push_bit_eq_mult mult.commute)

lemma xor_right_cancel: "a XOR b = c XOR b \<longleftrightarrow> a = c" for a b c :: "'a::len word"
  by (metis xor.assoc xor_self_eq xor.right_neutral)

lemma xor_left_cancel: "b XOR a = b XOR c \<longleftrightarrow> a = c" for a b c :: "'a::len word"
  by (metis xor_right_cancel xor.commute)

lemma drop_bit_of_nat: "n < 2 ^ LENGTH('a) \<Longrightarrow> drop_bit k (word_of_nat n :: 'a::len word) = word_of_nat (drop_bit k n)"
  using bit_nat_less [of n "LENGTH('a)"] by (intro bit_word_eqI) (auto simp: bit_simps)

text \<open>Values and shifts of 32 and 64-bit words.\<close>

lemma unat_u64_lt: "unat (x :: u64) < 2 ^ 64"
  using unsigned_less [of x] by simp

lemma u64_eqI: "unat a = unat b \<Longrightarrow> a = b" for a b :: u64
  by (simp add: word_unat_eq_iff)

lemma unat_drop: "unat (drop_bit i x) = unat x div 2 ^ i" for x :: u64
  unfolding unsigned_drop_bit_eq unfolding drop_bit_eq_div by (simp add: take_bit_nat_eq_self [OF unat_u64_lt])

lemma unat_u32_lt: "unat (x :: u32) < 2 ^ 32"
  using unsigned_less [of x] by simp

lemma sint_small:
  fixes x :: u64
  assumes "unat x < 2 ^ 63"
  shows "sint x = int (unat x)"
proof -
  have "int (unat x) < int (2 ^ 63)" using assms by (simp only: of_nat_less_iff)
  moreover have "- (2 ^ 63) \<le> int (unat x)" by (rule order.trans [of _ 0]) simp_all
  ultimately show ?thesis using signed_take_bit_int_eq_self [of 63 "uint x"] by (simp add: sint_uint)
qed

lemma sint_large:
  fixes x :: u64
  assumes "2 ^ 63 \<le> unat x"
  shows "sint x < 0"
proof (rule ccontr)
  assume "\<not> sint x < 0"
  then have "uint x = sint x" using uint_sint [of x] sint_less [of x] by (simp add: take_bit_int_eq_self)
  then have "uint x < 2 ^ 63" using sint_less [of x] by simp
  then have "int (unat x) < int (2 ^ 63)" by simp
  then have "unat x < 2 ^ 63" by (simp only: of_nat_less_iff)
  then show False using assms by simp
qed

end
