(* ===== verification/Bytes.thy ===== *)
theory Bytes
  imports Prelude
begin

text \<open>
  The little-endian and big-endian field encodings that the codecs and containers write by hand:
  \<^verbatim>\<open>write_le16\<close>, \<^verbatim>\<open>write_le32\<close>, \<^verbatim>\<open>write_be24\<close> and their readers in
  \<^verbatim>\<open>container/mz_core.c\<close>, and the same shifts written in line in the LZ77, DEFLATE and gzip code.
  The round trips follow; the \<open>_append\<close> forms let a reader
  parse a field at the front of a longer buffer.
\<close>

section \<open>Bits of words and numbers\<close>

lemma bit_unat_u8: "bit (unat (b :: u8)) n \<longleftrightarrow> n < 8 \<and> bit b n"
  by (auto simp: bit_unsigned_iff dest: bit_imp_le_length)

lemma nat_and_mask: "n AND 65535 = n mod 65536" "n AND 255 = n mod 256" for n :: nat
  using take_bit_eq_mask [of 16 n] take_bit_eq_mask [of 8 n]
  by (simp_all add: mask_eq_exp_minus_1 take_bit_eq_mod)

lemma ucast_and_255 [simp]: "(ucast (x AND 0xFF) :: u8) = ucast x" for x :: "'a::len word"
proof -
  have "(x AND 0xFF) = take_bit 8 x"
    by (simp add: take_bit_eq_mask mask_eq_exp_minus_1)
  then show ?thesis
    by (intro bit_word_eqI) (simp add: bit_simps)
qed

lemmas bit_field = bit_or_iff bit_push_bit_iff bit_drop_bit_eq o_def bit_unsigned_iff
  bit_take_bit_iff possible_bit_word

lemma bit_u8_len: "bit (b :: u8) i \<Longrightarrow> i < 8"
  using bit_imp_le_length [of b i] by simp

lemma bit_u32_len: "bit (b :: u32) i \<Longrightarrow> i < 32"
  using bit_imp_le_length [of b i] by simp

lemma uint_and_1: "uint (x AND 1 :: u8) = of_bool (odd x)"
  by (simp add: and_one_eq odd_iff_mod_2_eq_one flip: mod_2_eq_odd)

section \<open>Fields of a word type\<close>

definition write_le16 :: "u16 \<Rightarrow> bytes" where
  "write_le16 v = [ucast (v AND 0xFF), ucast (drop_bit 8 v AND 0xFF)]"

definition read_le16 :: "bytes \<Rightarrow> u16" where
  "read_le16 src = ucast (src ! 0) OR push_bit 8 (ucast (src ! 1))"

definition write_le32 :: "u32 \<Rightarrow> bytes" where
  "write_le32 v =
     [ucast (v AND 0xFF), ucast (drop_bit 8 v AND 0xFF),
      ucast (drop_bit 16 v AND 0xFF), ucast (drop_bit 24 v AND 0xFF)]"

definition read_le32 :: "bytes \<Rightarrow> u32" where
  "read_le32 src =
     ucast (src ! 0) OR push_bit 8 (ucast (src ! 1)) OR
     push_bit 16 (ucast (src ! 2)) OR push_bit 24 (ucast (src ! 3))"

definition write_be24 :: "u32 \<Rightarrow> bytes" where
  "write_be24 v =
     [ucast (drop_bit 16 v AND 0xFF), ucast (drop_bit 8 v AND 0xFF), ucast (v AND 0xFF)]"

definition read_be24 :: "bytes \<Rightarrow> u32" where
  "read_be24 src =
     push_bit 16 (ucast (src ! 0)) OR push_bit 8 (ucast (src ! 1)) OR ucast (src ! 2)"

lemma length_fields [simp]:
  "length (write_le16 v) = 2" "length (write_le32 w) = 4" "length (write_be24 w) = 3"
  by (simp_all add: write_le16_def write_le32_def write_be24_def)

lemma bytes_join16: "ucast (ucast v :: u8) OR push_bit 8 (ucast (ucast (drop_bit 8 v) :: u8)) = (v :: u16)"
proof (rule bit_word_eqI)
  fix i assume "i < LENGTH(16)"
  then consider "i < 8" | "8 \<le> i" "i - 8 < 8" by (simp; linarith)
  then show "bit (ucast (ucast v :: u8) OR push_bit 8 (ucast (ucast (drop_bit 8 v) :: u8)) :: u16) i
    = bit v i"
    using \<open>i < LENGTH(16)\<close> by cases (simp_all only: bit_field, auto)
qed

lemma read_write_le16: "read_le16 (write_le16 v) = v"
  using bytes_join16 [of v] by (simp add: read_le16_def write_le16_def del: push_bit_numeral)

lemma read_write_le32: "read_le32 (write_le32 v) = v"
proof (rule bit_word_eqI)
  fix i assume i: "i < LENGTH(32)"
  then consider "i < 8" | "8 \<le> i" "i - 8 < 8" | "16 \<le> i" "i - 16 < 8" | "24 \<le> i" "i - 24 < 8"
    by (simp; linarith)
  then have "bit (ucast (ucast v :: u8) OR push_bit 8 (ucast (ucast (drop_bit 8 v) :: u8)) OR
      push_bit 16 (ucast (ucast (drop_bit 16 v) :: u8)) OR
      push_bit 24 (ucast (ucast (drop_bit 24 v) :: u8)) :: u32) i = bit v i"
    using i by cases (simp_all only: bit_field, auto)
  then show "bit (read_le32 (write_le32 v)) i = bit v i"
    by (simp add: read_le32_def write_le32_def)
qed

lemma read_write_be24: "read_be24 (write_be24 v) = take_bit 24 v"
proof (rule bit_word_eqI)
  fix i assume i: "i < LENGTH(32)"
  then consider "i < 8" | "8 \<le> i" "i - 8 < 8" | "16 \<le> i" "i - 16 < 8" | "24 \<le> i"
    by (simp; linarith)
  then have "bit (push_bit 16 (ucast (ucast (drop_bit 16 v) :: u8)) OR
      push_bit 8 (ucast (ucast (drop_bit 8 v) :: u8)) OR ucast (ucast v :: u8) :: u32) i =
      bit (take_bit 24 v) i"
    using i by cases (simp_all only: bit_field, auto)
  then show "bit (read_be24 (write_be24 v)) i = bit (take_bit 24 v) i"
    by (simp add: read_be24_def write_be24_def)
qed

lemma read_le16_append: "read_le16 (write_le16 v @ rest) = v"
  using read_write_le16 [of v] by (simp add: read_le16_def write_le16_def)

lemma read_le32_append: "read_le32 (write_le32 v @ rest) = v"
  using read_write_le32 [of v] by (simp add: read_le32_def write_le32_def)

lemma read_be24_append: "read_be24 (write_be24 v @ rest) = take_bit 24 v"
  using read_write_be24 [of v] by (simp add: read_be24_def write_be24_def)

end
