(* ===== verification/Window.thy ===== *)
theory Window
  imports Prelude
begin

text \<open>
  The history that dictionary decoders copy from. \<open>lz_copy\<close> is the abstract meaning of a
  back reference: append \<open>n\<close> bytes, each the one \<open>off\<close> places before the end, so a
  reference may overlap what it produces. The locale \<open>history\<close> is the contract between a decoder
  and the store it copies from: the LZ77 decoder keeps a 64 KiB ring (\<^verbatim>\<open>win\<close>, \<^verbatim>\<open>wp\<close> in
  \<^verbatim>\<open>codec/mz_lz77.c\<close>), the inflate decoder reads its own output buffer
  (\<^verbatim>\<open>codec/mz_deflate.c\<close>). Both are interpreted in their own theories.
\<close>

section \<open>Back references\<close>

fun lz_copy :: "'a list \<Rightarrow> nat \<Rightarrow> nat \<Rightarrow> 'a list" where
  "lz_copy out off 0 = out"
| "lz_copy out off (Suc n) = lz_copy (out @ [out ! (length out - off)]) off n"

lemma length_lz_copy [simp]: "length (lz_copy out off n) = length out + n"
  by (induction n arbitrary: out) auto

text \<open>
  What a matcher has verified: the \<open>len\<close> bytes at \<open>pos\<close> repeat those \<open>off\<close> places earlier.
\<close>

definition match_at :: "'a list \<Rightarrow> nat \<Rightarrow> nat \<Rightarrow> nat \<Rightarrow> bool" where
  "match_at xs pos off len \<longleftrightarrow> 0 < off \<and> off \<le> pos \<and> pos + len \<le> length xs \<and>
     (\<forall>k<len. xs ! (pos - off + k) = xs ! (pos + k))"

lemma match_at_shorter: "match_at xs pos off len \<Longrightarrow> m \<le> len \<Longrightarrow> match_at xs pos off m"
  by (auto simp: match_at_def)

lemma lz_copy_match:
  "match_at xs pos off n \<Longrightarrow> lz_copy (take pos xs) off n = take (pos + n) xs"
proof (induction n arbitrary: pos)
  case 0
  then show ?case by simp
next
  case (Suc n)
  from Suc.prems have off: "0 < off" "off \<le> pos" and len: "pos + Suc n \<le> length xs"
    and same: "\<And>k. k < Suc n \<Longrightarrow> xs ! (pos - off + k) = xs ! (pos + k)"
    by (auto simp: match_at_def)
  have step: "xs ! (pos - off) = xs ! pos"
    using same [of 0] by simp
  have "match_at xs (Suc pos) off n"
    using off len same [of "Suc k" for k] by (auto simp: match_at_def Suc_diff_le)
  then have "lz_copy (take (Suc pos) xs) off n = take (Suc pos + n) xs"
    by (rule Suc.IH)
  moreover have "take pos xs @ [take pos xs ! (pos - off)] = take (Suc pos) xs"
    using off len step by (simp add: take_Suc_nth)
  ultimately show ?case
    using len by simp
qed

section \<open>Stores that hold the history\<close>

text \<open>Copying through a store: put the byte found \<open>off\<close> places back, \<open>n\<close> times.\<close>

fun win_copy :: "('a \<Rightarrow> 's \<Rightarrow> 's) \<Rightarrow> ('s \<Rightarrow> nat \<Rightarrow> 'a) \<Rightarrow> nat \<Rightarrow> nat \<Rightarrow> 's \<Rightarrow> 's" where
  "win_copy put look off 0 s = s"
| "win_copy put look off (Suc n) s = win_copy put look off n (put (look s off) s)"

locale history =
  fixes put :: "'a \<Rightarrow> 's \<Rightarrow> 's"
    and look :: "'s \<Rightarrow> nat \<Rightarrow> 'a"
    and hist :: "'s \<Rightarrow> 'a list"
    and good :: "'s \<Rightarrow> bool"
    and near :: "nat \<Rightarrow> bool"
  assumes hist_put: "good s \<Longrightarrow> hist (put b s) = hist s @ [b]"
    and good_put: "good s \<Longrightarrow> good (put b s)"
    and look_hist: "good s \<Longrightarrow> near k \<Longrightarrow> 0 < k \<Longrightarrow> k \<le> length (hist s) \<Longrightarrow>
      look s k = hist s ! (length (hist s) - k)"
begin

lemma copy_spec:
  assumes "good s" "near off" "0 < off" "off \<le> length (hist s)"
  shows "hist (win_copy put look off n s) = lz_copy (hist s) off n \<and>
    good (win_copy put look off n s)"
  using assms
proof (induction n arbitrary: s)
  case 0
  then show ?case by simp
next
  case (Suc n)
  let ?s = "put (look s off) s"
  have h: "hist ?s = hist s @ [hist s ! (length (hist s) - off)]"
    using Suc.prems by (simp add: hist_put look_hist)
  then have "off \<le> length (hist ?s)"
    using Suc.prems by simp
  then have "hist (win_copy put look off n ?s) = lz_copy (hist ?s) off n \<and>
      good (win_copy put look off n ?s)"
    using Suc.prems by (intro Suc.IH) (auto simp: good_put)
  then show ?case by (simp add: h)
qed

lemma copy_match:
  assumes "good s" "near off" "hist s = take pos xs" "match_at xs pos off n"
  shows "hist (win_copy put look off n s) = take (pos + n) xs"
    and "good (win_copy put look off n s)"
proof -
  have "0 < off" "off \<le> length (hist s)"
    using assms by (auto simp: match_at_def)
  then show "hist (win_copy put look off n s) = take (pos + n) xs"
    and "good (win_copy put look off n s)"
    using copy_spec [of s off n] assms by (auto simp: lz_copy_match)
qed

end

end
