(* ===== verification/Codec_Spec.thy ===== *)
theory Codec_Spec
  imports Prelude
begin

text \<open>
  The contract of a byte codec, the interface through which the dispatcher of
  \<^verbatim>\<open>codec/mz_main.c\<close>, the gzip frame and the containers use one: on the inputs it accepts,
  compression succeeds and decompression of what it wrote gives the input back. The parameter
  \<open>'p\<close> is what selects a compression effort (the level); decompression does not see it.
\<close>

locale byte_codec =
  fixes compress :: "allocator \<Rightarrow> bytes \<Rightarrow> 'p \<Rightarrow> mz_ret"
    and decompress :: "allocator \<Rightarrow> bytes \<Rightarrow> mz_ret"
    and fits :: "allocator \<Rightarrow> bytes \<Rightarrow> bool"
  assumes compress_total: "fits al xs \<Longrightarrow> \<exists>out. compress al xs p = mz_ok out"
    and decompress_compress:
      "fits al xs \<Longrightarrow> compress al xs p = mz_ok out \<Longrightarrow> decompress al out = mz_ok xs"
begin

lemma roundtrip:
  "fits al xs \<Longrightarrow> \<exists>out. compress al xs p = mz_ok out \<and> decompress al out = mz_ok xs"
  using compress_total decompress_compress by blast

text \<open>Two inputs never share a compressed form, whatever the efforts they were compressed with.\<close>

lemma compress_injective:
  assumes "fits al xs" "fits al ys" "compress al xs p = mz_ok out" "compress al ys q = mz_ok out"
  shows "xs = ys"
proof -
  have "mz_ok xs = mz_ok ys"
    using assms decompress_compress by metis
  then show ?thesis
    by (simp add: mz_ok_def)
qed

lemma recompress:
  assumes "fits al xs" "compress al xs p = mz_ok out"
  shows "\<exists>out'. compress al (the (ret_out (decompress al out))) q = mz_ok out' \<and>
    decompress al out' = decompress al out"
  using assms decompress_compress [OF assms] roundtrip [OF assms(1), of q] by auto

end

end
