(* ===== verification/Lz77.thy ===== *)
theory Lz77
  imports Bytes Window Codec_Spec
begin

text \<open>
  The LZ77 codec, \<^verbatim>\<open>codec/mz_lz77.c\<close>. The compressor keeps hash chains over input positions
  (\<open>lz_state\<close>, the C \<^verbatim>\<open>struct mz_state\<close>); \<open>mz_find\<close> walks a chain and returns a verified
  match; \<open>lz_step\<close> is one iteration of the main loop of \<^verbatim>\<open>mz_compress_lz77\<close> and \<open>lz_loop\<close>
  the loop. The decompressor (\<open>lz_dec\<close>) reads tokens against a 64 KiB ring. The round trip
  \<open>lz77_roundtrip\<close> does not depend on the quality of the hash: a chain entry is only ever used
  after the bytes it names have been compared.
  The remaining input of a C loop (\<^verbatim>\<open>in\<close>, \<^verbatim>\<open>ip\<close>, \<^verbatim>\<open>inlen\<close>) is the suffix of the
  byte list in the decoder and an index into the list in the compressor; the output buffer is the
  list of the bytes written so far, whose length is \<^verbatim>\<open>op\<close>.
\<close>

section \<open>Parameters\<close>

definition MZ_WSIZE :: nat where "MZ_WSIZE = 65536"
definition MZ_WMASK :: nat where "MZ_WMASK = 65535"
definition MZ_HASH_MASK :: nat where "MZ_HASH_MASK = 65535"
definition MZ_MAX_OFFSET_V1 :: nat where "MZ_MAX_OFFSET_V1 = 32767"
definition MZ_MAX_OFFSET_V2 :: nat where "MZ_MAX_OFFSET_V2 = 65535"
definition MZ_MIN_MATCH :: nat where "MZ_MIN_MATCH = 3"
definition MZ_MAX_MATCH_V1 :: nat where "MZ_MAX_MATCH_V1 = 258"
definition MZ_MAX_MATCH_V2 :: nat where "MZ_MAX_MATCH_V2 = 130"

lemmas lz_params [simp] = MZ_WSIZE_def MZ_WMASK_def MZ_HASH_MASK_def MZ_MAX_OFFSET_V1_def
  MZ_MAX_OFFSET_V2_def MZ_MIN_MATCH_def MZ_MAX_MATCH_V1_def MZ_MAX_MATCH_V2_def

record mz_level_cfg =
  chain_depth :: nat
  max_match :: nat
  max_dist :: nat
  cfg_use_lazy :: bool

definition level_cfgs :: "mz_level_cfg list" where
  "level_cfgs =
    [\<lparr>chain_depth = 4, max_match = 8, max_dist = 4096, cfg_use_lazy = False\<rparr>,
     \<lparr>chain_depth = 4, max_match = 8, max_dist = 4096, cfg_use_lazy = False\<rparr>,
     \<lparr>chain_depth = 16, max_match = 16, max_dist = 4096, cfg_use_lazy = False\<rparr>,
     \<lparr>chain_depth = 64, max_match = 32, max_dist = 4096, cfg_use_lazy = False\<rparr>,
     \<lparr>chain_depth = 128, max_match = 64, max_dist = 16384, cfg_use_lazy = True\<rparr>,
     \<lparr>chain_depth = 256, max_match = 64, max_dist = 16384, cfg_use_lazy = True\<rparr>,
     \<lparr>chain_depth = 512, max_match = 96, max_dist = 16384, cfg_use_lazy = True\<rparr>,
     \<lparr>chain_depth = 1024, max_match = 130, max_dist = 65535, cfg_use_lazy = True\<rparr>,
     \<lparr>chain_depth = 2048, max_match = 130, max_dist = 65535, cfg_use_lazy = True\<rparr>,
     \<lparr>chain_depth = 4096, max_match = 130, max_dist = 65535, cfg_use_lazy = True\<rparr>]"

definition level_cfg :: "int \<Rightarrow> mz_level_cfg" where
  "level_cfg level =
     (let idx = (if level < 1 then 1 else if level > 9 then 9 else level)
      in level_cfgs ! nat idx)"

definition mz_chain_depth :: "int \<Rightarrow> nat" where
  "mz_chain_depth level = chain_depth (level_cfg level)"

section \<open>Compressor state\<close>

record lz_state =
  st_win :: "nat \<Rightarrow> u8"
  st_win_pos :: nat
  st_chain :: "nat \<Rightarrow> u32"
  st_head :: "nat \<Rightarrow> u32"
  st_level :: int

definition mz_init :: "int \<Rightarrow> lz_state" where
  "mz_init level =
     \<lparr>st_win = (\<lambda>_. 0), st_win_pos = 0, st_chain = (\<lambda>_. 0), st_head = (\<lambda>_. - 1),
      st_level = level\<rparr>"

text \<open>\<^verbatim>\<open>MZ_HASH3\<close>: three bytes folded into 16 bits (int arithmetic, no overflow).\<close>

definition MZ_HASH3 :: "bytes \<Rightarrow> nat \<Rightarrow> nat" where
  "MZ_HASH3 data p =
     ((unat (data ! p) * 517) XOR (unat (data ! (p + 1)) * 131) XOR unat (data ! (p + 2)))
       AND MZ_HASH_MASK"

definition mz_insert :: "lz_state \<Rightarrow> nat \<Rightarrow> bytes \<Rightarrow> nat \<Rightarrow> lz_state" where
  "mz_insert s pos data limit =
     (if pos + 2 \<ge> limit then s
      else let h3 = MZ_HASH3 data pos; idx = pos AND MZ_WMASK
        in s\<lparr>st_chain := (st_chain s)(idx := st_head s h3),
             st_head := (st_head s)(h3 := word_of_nat pos)\<rparr>)"

section \<open>Match search\<close>

definition key3 :: "bytes \<Rightarrow> nat \<Rightarrow> u32" where
  "key3 data p =
     ucast (data ! p) OR push_bit 8 (ucast (data ! (p + 1))) OR
     push_bit 16 (ucast (data ! (p + 2)))"

text \<open>\<^verbatim>\<open>while (len < ml && data[idx + len] == data[pos + len]) len++\<close>, with \<^verbatim>\<open>ml\<close> an \<^verbatim>\<open>int\<close>.\<close>

function match_len :: "bytes \<Rightarrow> nat \<Rightarrow> nat \<Rightarrow> int \<Rightarrow> nat \<Rightarrow> nat" where
  "match_len data idx pos ml len =
     (if int len < ml \<and> data ! (idx + len) = data ! (pos + len)
      then match_len data idx pos ml (Suc len) else len)"
  by pat_completeness auto
termination
  by (relation "measure (\<lambda>(data, idx, pos, ml, len). nat (ml - int len))") auto

declare match_len.simps [simp del]

text \<open>The chain walk; the first argument counts the iterations \<^verbatim>\<open>max_chain\<close> still allows.\<close>

fun find_loop :: "nat \<Rightarrow> lz_state \<Rightarrow> nat \<Rightarrow> bytes \<Rightarrow> nat \<Rightarrow> nat \<Rightarrow> nat \<Rightarrow> u32 \<Rightarrow> nat \<Rightarrow> nat
    \<Rightarrow> nat \<times> nat" where
  "find_loop 0 s pos data limit max_len max_d idx best_len best_off = (best_len, best_off)"
| "find_loop (Suc c) s pos data limit max_len max_d idx best_len best_off =
     (if idx \<noteq> - 1 \<and> pos > unat idx \<and> pos - unat idx \<le> max_d then
        let next_idx = st_chain s (unat idx AND MZ_WMASK) in
        if key3 data (unat idx) = key3 data pos then
          let ml = (if c_int (limit - pos) > int max_len then int max_len else c_int (limit - pos));
              len = match_len data (unat idx) pos ml MZ_MIN_MATCH
          in if len > best_len then
               (if int len \<ge> ml then (len, pos - unat idx)
                else find_loop c s pos data limit max_len max_d next_idx len (pos - unat idx))
             else find_loop c s pos data limit max_len max_d next_idx best_len best_off
        else find_loop c s pos data limit max_len max_d next_idx best_len best_off
      else (best_len, best_off))"

definition mz_find :: "lz_state \<Rightarrow> nat \<Rightarrow> bytes \<Rightarrow> nat \<Rightarrow> bool \<Rightarrow> (nat \<times> nat) option" where
  "mz_find s pos data limit v2_mode =
     (if pos + 2 \<ge> limit then None
      else let idx = st_head s (MZ_HASH3 data pos);
               cfg = level_cfg (st_level s);
               max_d = (if v2_mode then min (max_dist cfg) MZ_MAX_OFFSET_V2
                        else min (max_dist cfg) MZ_MAX_OFFSET_V1);
               max_len = (if v2_mode then min (max_match cfg) MZ_MAX_MATCH_V2
                          else min (max_match cfg) MZ_MAX_MATCH_V1);
               (best_len, best_off) =
                 find_loop (mz_chain_depth (st_level s)) s pos data limit max_len max_d idx 0 0
           in if best_len \<ge> MZ_MIN_MATCH then Some (best_len, best_off) else None)"

section \<open>Token output\<close>

definition write_literal :: "u8 \<Rightarrow> bytes" where
  "write_literal val = (if val \<ge> 0x80 then [0xFF, val] else [val])"

definition write_match_v2 :: "nat \<Rightarrow> nat \<Rightarrow> bytes" where
  "write_match_v2 offset len =
     [word_of_nat (0x80 OR drop_bit 8 offset), word_of_nat (offset AND 0xFF),
      word_of_nat (push_bit 7 (drop_bit 15 offset AND 1) OR ((len - MZ_MIN_MATCH) AND 0x7F))]"

fun slide_and_insert :: "nat \<Rightarrow> lz_state \<Rightarrow> bytes \<Rightarrow> nat \<Rightarrow> nat \<Rightarrow> lz_state \<times> nat" where
  "slide_and_insert 0 s data ip inlen = (s, ip)"
| "slide_and_insert (Suc count) s data ip inlen =
     (if ip < inlen then
        let s' = s\<lparr>st_win := (st_win s)(st_win_pos s := data ! ip),
                   st_win_pos := (st_win_pos s + 1) AND MZ_WMASK\<rparr>
        in slide_and_insert count (mz_insert s' ip data inlen) data (ip + 1) inlen
      else (s, ip))"

declare slide_and_insert.simps [simp del]

section \<open>The main loop of mz_compress_lz77\<close>

text \<open>
  The lookahead of lazy matching: the current position is inserted (its value truncated to 16
  bits, as the source writes it), and the result says whether the next position matches longer.
\<close>

definition lz_lookahead :: "bool \<Rightarrow> lz_state \<Rightarrow> nat \<Rightarrow> bytes \<Rightarrow> nat \<Rightarrow> lz_state \<times> bool" where
  "lz_lookahead use_lazy s ip data match_l =
     (if use_lazy \<and> ip + 1 < length data \<and> ip + 2 < length data then
        let h3 = MZ_HASH3 data ip;
            idx = (ip AND MZ_WMASK) AND 0xFFFF;
            s' = s\<lparr>st_chain := (st_chain s)(idx := st_head s h3),
                   st_head := (st_head s)(h3 := word_of_nat (ip AND 0xFFFF))\<rparr>
        in (s', case mz_find s' (ip + 1) data (length data) True of
                  Some (next_len, next_off) \<Rightarrow> next_len > match_l + 1
                | None \<Rightarrow> False)
      else (s, False))"

text \<open>The two loops that fall back to literals; \<^verbatim>\<open>li\<close> counts up to a bound read each time round.\<close>

fun lit_run :: "nat \<Rightarrow> lz_state \<Rightarrow> bytes \<Rightarrow> nat \<Rightarrow> bytes \<Rightarrow> lz_state \<times> nat \<times> bytes" where
  "lit_run 0 s data ip out = (s, ip, out)"
| "lit_run (Suc k) s data ip out =
     (if ip < length data then
        let (s', ip') = slide_and_insert 1 s data ip (length data)
        in lit_run k s' data ip' (out @ write_literal (data ! ip))
      else (s, ip, out))"

lemma slide_and_insert_ip:
  "snd (slide_and_insert count s data ip inlen) = (if ip < inlen then min (ip + count) inlen else ip)"
  by (induction count s data ip inlen rule: slide_and_insert.induct)
    (auto simp: slide_and_insert.simps Let_def)

lemma slide_one: "ip < inlen \<Longrightarrow> slide_and_insert 1 s data ip inlen = (s', ip') \<Longrightarrow> ip' = Suc ip"
  using slide_and_insert_ip [of 1 s data ip inlen] by auto

lemma c_int_less_imp: "int li < c_int (n - ip) \<Longrightarrow> ip < n"
  by (cases "ip < n") auto

function lit_tail :: "nat \<Rightarrow> lz_state \<Rightarrow> bytes \<Rightarrow> nat \<Rightarrow> bytes \<Rightarrow> lz_state \<times> nat \<times> bytes" where
  "lit_tail li s data ip out =
     (if int li < c_int (length data - ip) then
        let (s', ip') = slide_and_insert 1 s data ip (length data)
        in lit_tail (Suc li) s' data ip' (out @ write_literal (data ! ip))
      else (s, ip, out))"
  by pat_completeness auto
termination
proof (relation "measure (\<lambda>(li, s, data, ip, out). length data - ip)", goal_cases)
  case (2 li s data ip out p s' ip')
  then have "ip < length data" using c_int_less_imp by fastforce
  with 2 have "ip' = Suc ip" by (metis slide_one)
  with \<open>ip < length data\<close> show ?case by simp
qed simp

declare lit_tail.simps [simp del]

definition emit_literal :: "bytes \<Rightarrow> nat \<Rightarrow> lz_state \<Rightarrow> nat \<Rightarrow> bytes \<Rightarrow> mz_err + lz_state \<times> nat \<times> bytes"
  where
  "emit_literal data max_out s ip out =
     (if length out + (if data ! ip \<ge> 0x80 then 2 else 1) > max_out then Inl MZ_ERR_STREAM
      else let (s', ip') = slide_and_insert 1 s data ip (length data)
           in Inr (s', ip', out @ write_literal (data ! ip)))"

text \<open>The clamped length of a match, then one of: literals to the end, literals, a match token.\<close>

definition emit_match :: "bytes \<Rightarrow> nat \<Rightarrow> lz_state \<Rightarrow> nat \<Rightarrow> bytes \<Rightarrow> nat \<Rightarrow> nat
    \<Rightarrow> mz_err + lz_state \<times> nat \<times> bytes" where
  "emit_match data max_out s ip out match_l match_off =
     (if length out + 3 > max_out then Inl MZ_ERR_STREAM
      else let len0 = (if match_l > MZ_MAX_MATCH_V2 then MZ_MAX_MATCH_V2 else match_l);
               len = (if len0 > length data - ip then length data - ip else len0)
           in if len < MZ_MIN_MATCH then Inr (lit_tail 0 s data ip out)
              else if drop_bit 8 match_off > 0x7E then Inr (lit_run len s data ip out)
              else let (s', ip') = slide_and_insert len s data ip (length data)
                   in Inr (s', ip', out @ write_match_v2 match_off len))"

definition lz_step :: "bytes \<Rightarrow> nat \<Rightarrow> bool \<Rightarrow> lz_state \<Rightarrow> nat \<Rightarrow> bytes
    \<Rightarrow> mz_err + lz_state \<times> nat \<times> bytes" where
  "lz_step data max_out use_lazy s ip out =
     (case mz_find s ip data (length data) True of
        Some (match_l, match_off) \<Rightarrow>
          (let (s', defer) = lz_lookahead use_lazy s ip data match_l
           in if defer then emit_literal data max_out s' ip out
              else emit_match data max_out s' ip out match_l match_off)
      | None \<Rightarrow> emit_literal data max_out s ip out)"

section \<open>Progress of the main loop\<close>

lemma match_len_ge: "len \<le> match_len data idx pos ml len"
proof (induction data idx pos ml len rule: match_len.induct)
  case (1 data idx pos ml len)
  then show ?case
    by (auto simp: match_len.simps [of data idx pos ml len])
qed

lemma mz_find_ge: "mz_find s pos data limit v2 = Some (l, off) \<Longrightarrow> 3 \<le> l"
  by (auto simp: mz_find_def Let_def split: if_splits prod.splits)

lemma lit_run_ip:
  "lit_run k s data ip out = (s', ip', out') \<Longrightarrow> ip \<le> length data \<Longrightarrow>
     ip' = min (ip + k) (length data)"
proof (induction k s data ip out arbitrary: s' ip' out' rule: lit_run.induct)
  case (1 s data ip out)
  then show ?case by simp
next
  case (2 k s data ip out)
  show ?case
  proof (cases "ip < length data")
    case True
    obtain s1 ip1 where s1: "slide_and_insert 1 s data ip (length data) = (s1, ip1)"
      by fastforce
    with True have ip1: "ip1 = Suc ip" by (rule slide_one)
    have "lit_run k s1 data ip1 (out @ write_literal (data ! ip)) = (s', ip', out')"
      using 2 True s1 by simp
    from "2.IH" [OF True s1 [symmetric] refl this] ip1 True show ?thesis by auto
  next
    case False
    with 2 show ?thesis by auto
  qed
qed

lemma lit_tail_ip:
  "lit_tail li s data ip out = (s', ip', out') \<Longrightarrow> ip \<le> length data \<Longrightarrow>
     ip \<le> ip' \<and> ip' \<le> length data \<and> (int li < c_int (length data - ip) \<longrightarrow> ip < ip')"
proof (induction li s data ip out arbitrary: s' ip' out' rule: lit_tail.induct)
  case (1 li s data ip out)
  show ?case
  proof (cases "int li < c_int (length data - ip)")
    case True
    obtain s1 ip1 where s1: "slide_and_insert 1 s data ip (length data) = (s1, ip1)"
      by fastforce
    from True have ip: "ip < length data" by (rule c_int_less_imp)
    then have "ip1 = Suc ip" using s1 by (rule slide_one)
    moreover have "lit_tail (Suc li) s1 data ip1 (out @ write_literal (data ! ip)) = (s', ip', out')"
      using 1 True s1 by (simp add: lit_tail.simps [of li])
    ultimately show ?thesis
      using "1.IH" [OF True s1 [symmetric] refl] ip by auto
  next
    case False
    with 1 show ?thesis by (simp add: lit_tail.simps [of li])
  qed
qed

lemma emit_literal_ip:
  "emit_literal data max_out s ip out = Inr (s', ip', out') \<Longrightarrow> ip < length data \<Longrightarrow> ip' = Suc ip"
  using slide_and_insert_ip [of 1 s data ip "length data"]
  by (auto simp: emit_literal_def Let_def split: if_splits prod.splits)

lemma emit_match_ip:
  assumes "emit_match data max_out s ip out l off = Inr (s', ip', out')"
    and ip: "ip < length data" and l: "3 \<le> l"
  shows "ip < ip' \<and> ip' \<le> length data"
proof -
  define len where "len = min (min l 130) (length data - ip)"
  have len: "(if (if l > MZ_MAX_MATCH_V2 then MZ_MAX_MATCH_V2 else l) > length data - ip
      then length data - ip else (if l > MZ_MAX_MATCH_V2 then MZ_MAX_MATCH_V2 else l)) = len"
    by (auto simp: len_def)
  consider (short) "len < 3" "lit_tail 0 s data ip out = (s', ip', out')"
    | (far) "3 \<le> len" "lit_run len s data ip out = (s', ip', out')"
    | (near) "3 \<le> len" "ip' = snd (slide_and_insert len s data ip (length data))"
    using assms(1) unfolding emit_match_def Let_def len
    by (auto simp: not_less split: if_splits prod.splits)
  then show ?thesis
  proof cases
    case short
    then have "length data - ip < 3" using l by (auto simp: len_def min_def split: if_splits)
    then have "int 0 < c_int (length data - ip)" using ip by (simp add: c_int_small)
    with lit_tail_ip [OF short(2)] ip show ?thesis by auto
  next
    case far
    with lit_run_ip [OF far(2)] ip show ?thesis by auto
  next
    case near
    with ip show ?thesis by (auto simp: slide_and_insert_ip)
  qed
qed

lemma lz_step_ip:
  assumes "lz_step data max_out lazy s ip out = Inr (s', ip', out')" "ip < length data"
  shows "ip < ip' \<and> ip' \<le> length data"
  using assms
  by (auto simp: lz_step_def Let_def split: option.splits prod.splits if_splits
      dest: emit_literal_ip mz_find_ge emit_match_ip)

function lz_loop :: "bytes \<Rightarrow> nat \<Rightarrow> bool \<Rightarrow> lz_state \<Rightarrow> nat \<Rightarrow> bytes \<Rightarrow> mz_err + bytes" where
  "lz_loop data max_out use_lazy s ip out =
     (if ip < length data then
        (case lz_step data max_out use_lazy s ip out of
           Inl e \<Rightarrow> Inl e
         | Inr (s', ip', out') \<Rightarrow> lz_loop data max_out use_lazy s' ip' out')
      else Inr out)"
  by pat_completeness auto
termination
  by (relation "measure (\<lambda>(data, max_out, lazy, s, ip, out). length data - ip)")
    (auto dest: lz_step_ip)

declare lz_loop.simps [simp del]

section \<open>Entry points of the compressor\<close>

definition lz_header :: "nat \<Rightarrow> bytes" where
  "lz_header inlen = [0x6D, 0x5A] @ write_le32 (word_of_nat inlen)"

definition mz_compress_lz77 :: "allocator \<Rightarrow> bytes option \<Rightarrow> int \<Rightarrow> mz_ret" where
  "mz_compress_lz77 al input level =
     (case input of
        None \<Rightarrow> mz_fail MZ_ERR_PARAM
      | Some data \<Rightarrow>
          if length data = 0 then mz_fail MZ_ERR_PARAM
          else let max_out = length data + length data + 20 in
            if \<not> al max_out then mz_fail MZ_ERR_MEMORY
            else let lv = (if level < 1 then 1 else if level > 9 then 9 else level);
                     s = mz_init lv
                 in mz_deliver (lz_loop data max_out (cfg_use_lazy (level_cfg (st_level s))) s 0
                      (lz_header (length data))))"

definition mz_max_compressed_size_lz77 :: "nat \<Rightarrow> nat" where
  "mz_max_compressed_size_lz77 inlen = inlen + inlen + 20"

section \<open>The decompressor\<close>

text \<open>
  The decoder's state: the output written, the ring \<^verbatim>\<open>win\<close> and its write position \<^verbatim>\<open>wp\<close>.
  The source re-checks \<^verbatim>\<open>op >= uncompsz\<close> before each literal; the loop guard has just
  established the opposite, so the re-check is not repeated here.
\<close>

record lz_dec =
  d_out :: bytes
  d_win :: "nat \<Rightarrow> u8"
  d_wp :: nat

definition lz_dec_init :: lz_dec where
  "lz_dec_init = \<lparr>d_out = [], d_win = (\<lambda>_. 0), d_wp = 0\<rparr>"

definition lz_put :: "u8 \<Rightarrow> lz_dec \<Rightarrow> lz_dec" where
  "lz_put b d =
     \<lparr>d_out = d_out d @ [b], d_win = (d_win d)(d_wp d := b), d_wp = (d_wp d + 1) AND MZ_WMASK\<rparr>"

definition lz_back :: "lz_dec \<Rightarrow> nat \<Rightarrow> u8" where
  "lz_back d offset = d_win d ((d_wp d + MZ_WSIZE - offset) mod MZ_WSIZE)"

text \<open>\<^verbatim>\<open>for (int i = 0; i < length && op < uncompsz; i++)\<close>.\<close>

fun lz_copy_loop :: "nat \<Rightarrow> nat \<Rightarrow> nat \<Rightarrow> lz_dec \<Rightarrow> lz_dec" where
  "lz_copy_loop uncompsz offset 0 d = d"
| "lz_copy_loop uncompsz offset (Suc n) d =
     (if length (d_out d) < uncompsz
      then lz_copy_loop uncompsz offset n (lz_put (lz_back d offset) d) else d)"

definition match_offset :: "bool \<Rightarrow> u8 \<Rightarrow> u8 \<Rightarrow> u8 \<Rightarrow> nat" where
  "match_offset is_v2 b0 b1 b2 =
     (if is_v2 then push_bit 8 (unat (b0 AND 0x7F)) OR unat b1 OR push_bit 15 (unat (drop_bit 7 b2 AND 1))
      else push_bit 8 (unat (b0 AND 0x7F)) OR unat b1)"

definition match_length :: "bool \<Rightarrow> u8 \<Rightarrow> nat" where
  "match_length is_v2 b2 =
     (if is_v2 then unat (b2 AND 0x7F) + MZ_MIN_MATCH else unat b2 + MZ_MIN_MATCH)"

fun lz_dec_loop :: "bool \<Rightarrow> nat \<Rightarrow> bytes \<Rightarrow> lz_dec \<Rightarrow> mz_err + bytes" where
  "lz_dec_loop is_v2 uncompsz [] d = Inr (d_out d)"
| "lz_dec_loop is_v2 uncompsz (b0 # rest) d =
     (if length (d_out d) < uncompsz then
        if b0 < 0x80 then lz_dec_loop is_v2 uncompsz rest (lz_put b0 d)
        else if b0 = 0xFF \<and> is_v2 \<or> b0 = 0x80 \<and> \<not> is_v2 then
          (case rest of
             [] \<Rightarrow> Inl MZ_ERR_DATA
           | val # rest' \<Rightarrow> lz_dec_loop is_v2 uncompsz rest' (lz_put val d))
        else
          (case rest of
             b1 # b2 # rest' \<Rightarrow>
               (let offset = match_offset is_v2 b0 b1 b2 in
                if \<not> is_v2 \<and> offset = 0 then Inr (d_out d)
                else lz_dec_loop is_v2 uncompsz rest'
                       (lz_copy_loop uncompsz offset (match_length is_v2 b2) d))
           | _ \<Rightarrow> Inl MZ_ERR_DATA)
      else Inr (d_out d))"

definition mz_decompress_lz77 :: "allocator \<Rightarrow> bytes option \<Rightarrow> mz_ret" where
  "mz_decompress_lz77 al input =
     (case input of
        None \<Rightarrow> mz_fail MZ_ERR_PARAM
      | Some data \<Rightarrow>
          if length data < 6 then mz_fail MZ_ERR_DATA
          else if data ! 0 = 0x4D \<and> data ! 1 = 0x5A \<or> data ! 0 = 0x6D \<and> data ! 1 = 0x5A then
            (let is_v2 = (data ! 0 = 0x6D);
                 uncompsz = unat (read_le32 (drop 2 data))
             in if \<not> al uncompsz then mz_fail MZ_ERR_MEMORY
                else mz_deliver (lz_dec_loop is_v2 uncompsz (drop 6 data) lz_dec_init))
          else mz_fail MZ_ERR_DATA)"

section \<open>The ring holds the history\<close>

definition ring_good :: "lz_dec \<Rightarrow> bool" where
  "ring_good d \<longleftrightarrow> d_wp d = length (d_out d) mod MZ_WSIZE \<and>
     (\<forall>k. 0 < k \<longrightarrow> k \<le> MZ_WSIZE \<longrightarrow> k \<le> length (d_out d) \<longrightarrow>
        d_win d ((length (d_out d) - k) mod MZ_WSIZE) = d_out d ! (length (d_out d) - k))"

lemma ring_good_init: "ring_good lz_dec_init"
  by (simp add: ring_good_def lz_dec_init_def)

lemma ring_good_put:
  assumes "ring_good d"
  shows "ring_good (lz_put b d)"
proof -
  let ?n = "length (d_out d)"
  from assms have wp: "d_wp d = ?n mod 65536"
    and old: "\<And>k. 0 < k \<Longrightarrow> k \<le> 65536 \<Longrightarrow> k \<le> ?n \<Longrightarrow>
      d_win d ((?n - k) mod 65536) = d_out d ! (?n - k)"
    by (auto simp: ring_good_def)
  have wp': "Suc (d_wp d) AND 65535 = Suc ?n mod 65536"
    by (simp add: wp nat_and_mask mod_Suc_eq)
  have "d_win (lz_put b d) ((Suc ?n - k) mod 65536) = d_out (lz_put b d) ! (Suc ?n - k)"
    if k: "0 < k" "k \<le> 65536" "k \<le> Suc ?n" for k
  proof (cases "k = 1")
    case True
    then show ?thesis by (simp add: lz_put_def wp)
  next
    case False
    with k obtain j where j: "k = Suc j" "0 < j" "j < 65536" "j \<le> ?n"
      by (cases k) auto
    have "(?n - j) mod 65536 \<noteq> ?n mod 65536"
    proof
      assume eq: "(?n - j) mod 65536 = ?n mod 65536"
      have "65536 dvd ?n - (?n - j)"
        using mod_eq_dvd_iff_nat [of "?n - j" ?n 65536] eq by auto
      with j show False by (auto dest: dvd_imp_le)
    qed
    moreover have "?n - j < ?n" using j by simp
    ultimately show ?thesis
      using old [of j] j by (simp add: lz_put_def wp nth_append)
  qed
  then show ?thesis
    unfolding ring_good_def by (simp add: lz_put_def wp')
qed

interpretation ring: history lz_put lz_back d_out ring_good "\<lambda>k. k \<le> MZ_WSIZE"
proof (unfold_locales, goal_cases)
  case (1 d b)
  then show ?case by (simp add: lz_put_def)
next
  case (2 d b)
  then show ?case by (rule ring_good_put)
next
  case (3 d k)
  have "(length (d_out d) mod 65536 + 65536 - k) mod 65536 = (length (d_out d) - k) mod 65536"
  proof -
    have "(length (d_out d) mod 65536 + 65536 - k) mod 65536
      = (length (d_out d) mod 65536 + (65536 - k)) mod 65536"
      using 3 by simp
    also have "\<dots> = (length (d_out d) + (65536 - k)) mod 65536"
      by (simp add: mod_add_left_eq)
    also have "\<dots> = (length (d_out d) - k + 65536) mod 65536"
      using 3 by simp
    finally show ?thesis by simp
  qed
  with 3 show ?case by (simp add: lz_back_def ring_good_def)
qed

lemma lz_copy_loop_win:
  assumes "length (d_out d) + n \<le> uncompsz"
  shows "lz_copy_loop uncompsz offset n d = win_copy lz_put lz_back offset n d"
  using assms
proof (induction n arbitrary: d)
  case (Suc n)
  have "length (d_out (lz_put (lz_back d offset) d)) = Suc (length (d_out d))"
    by (simp add: lz_put_def)
  with Suc show ?case by simp
qed simp

section \<open>Token bytes\<close>


lemma key3_bytes:
  "ucast (key3 data p) = data ! p"
  "ucast (drop_bit 8 (key3 data p)) = data ! (p + 1)"
  "ucast (drop_bit 16 (key3 data p)) = data ! (p + 2)"
proof -
  show "ucast (key3 data p) = data ! p"
    by (rule bit_word_eqI) (simp only: key3_def bit_field, auto)
  show "ucast (drop_bit 8 (key3 data p)) = data ! (p + 1)"
    by (rule bit_word_eqI) (simp only: key3_def bit_field, auto dest: bit_u8_len)
  show "ucast (drop_bit 16 (key3 data p)) = data ! (p + 2)"
    by (rule bit_word_eqI) (simp only: key3_def bit_field, auto dest: bit_u8_len)
qed

lemma unat_and_127: "unat (b AND 0x7F) = unat b mod 128" for b :: u8
proof -
  have "b AND 0x7F = take_bit 7 b"
    by (simp add: take_bit_eq_mask mask_eq_exp_minus_1)
  then show ?thesis by (simp only: unsigned_take_bit_eq) (simp add: take_bit_eq_mod)
qed

lemma token_bytes:
  assumes off: "drop_bit 8 off \<le> (0x7E :: nat)" and len: "3 \<le> len" "len \<le> 130"
  defines "b0 \<equiv> (word_of_nat (0x80 OR drop_bit 8 off) :: u8)"
    and "b1 \<equiv> (word_of_nat (off AND 0xFF) :: u8)"
    and "b2 \<equiv> (word_of_nat (push_bit 7 (drop_bit 15 off AND 1) OR ((len - 3) AND 0x7F)) :: u8)"
  shows "\<not> b0 < 0x80" "b0 \<noteq> 0xFF"
    "match_offset True b0 b1 b2 = off" "match_length True b2 = len"
proof -
  define h l where "h = off div 256" and "l = off mod 256"
  have h: "h \<le> 126" and l: "l < 256" and off_eq: "off = 256 * h + l"
    using off by (auto simp: h_def l_def drop_bit_eq_div)
  have "(0x80 OR h) = 128 + h"
    using or_disjoint_nat [of h 7 1] h by simp
  then have b0: "unat b0 = 128 + h"
    using h unat_of_nat_u8 [of "128 + h"] by (simp add: b0_def drop_bit_eq_div flip: h_def)
  have b1: "unat b1 = l"
    using l by (simp add: b1_def nat_and_mask flip: l_def)
  have "drop_bit 15 off = 0"
    using h l by (simp add: drop_bit_eq_div off_eq)
  moreover have "(len - 3) AND 0x7F = len - 3"
    using take_bit_eq_mask [of 7 "len - 3"] len by (simp add: mask_eq_exp_minus_1 take_bit_eq_mod)
  ultimately have b2: "unat b2 = len - 3"
    using len unat_of_nat_u8 [of "len - 3"] by (simp add: b2_def)
  show "\<not> b0 < 0x80" "b0 \<noteq> 0xFF"
    using b0 h by (auto simp: word_less_nat_alt)
  have "unat (drop_bit 7 b2 AND 1) = 0"
  proof -
    have "unat (drop_bit 7 b2) = 0"
      using b2 len by (simp only: unat_drop_bit_eq) (simp add: drop_bit_eq_div)
    then have "drop_bit 7 b2 = 0" by (simp only: unsigned_eq_0_iff)
    then show ?thesis by simp
  qed
  then show "match_offset True b0 b1 b2 = off"
    using b0 b1 h l off_eq push_or_nat [of l 8 h] by (simp add: match_offset_def unat_and_127)
  show "match_length True b2 = len"
    using b2 len by (simp add: match_length_def unat_and_127)
qed

section \<open>What the match search verifies\<close>

lemma match_len_spec:
  "k < match_len data idx pos ml len \<Longrightarrow> len \<le> k \<Longrightarrow> data ! (idx + k) = data ! (pos + k)"
proof (induction data idx pos ml len rule: match_len.induct)
  case (1 data idx pos ml len)
  then show ?case
    by (cases "k = len") (auto simp: match_len.simps [of data idx pos ml len] split: if_splits)
qed

lemma match_len_le: "int (match_len data idx pos ml len) \<le> max ml (int len)"
proof (induction data idx pos ml len rule: match_len.induct)
  case (1 data idx pos ml len)
  then show ?case
    by (auto simp: match_len.simps [of data idx pos ml len])
qed

lemma key3_same:
  assumes "key3 data idx = key3 data pos" "k < 3"
  shows "data ! (idx + k) = data ! (pos + k)"
proof -
  from \<open>k < 3\<close> consider "k = 0" | "k = 1" | "k = 2" by linarith
  then show ?thesis
    using key3_bytes [of data idx] key3_bytes [of data pos] assms(1) by cases auto
qed

lemma candidate_match:
  assumes key: "key3 data i = key3 data pos" and i: "i < pos" and pos: "pos + 2 < length data"
    and ml: "ml \<le> int max_len" "ml \<le> c_int (length data - pos)" and max_len: "3 \<le> max_len"
    and len: "len = match_len data i pos ml 3"
  shows "match_at data pos (pos - i) len \<and> len \<le> max_len \<and> 3 \<le> len"
proof -
  have "data ! (i + k) = data ! (pos + k)" if "k < len" for k
    using key3_same [OF key] match_len_spec [of k data i pos ml 3] that len
    by (cases "k < 3") auto
  moreover have "int len \<le> max ml 3"
    using match_len_le [of data i pos ml 3] len by simp
  moreover have "ml \<le> int (length data - pos)"
    using ml c_int_le [of "length data - pos"] by linarith
  ultimately show ?thesis
    using i pos ml max_len match_len_ge [of 3 data i pos ml] len by (auto simp: match_at_def)
qed

lemma find_loop_match:
  assumes "find_loop c s pos data (length data) max_len max_d idx bl bo = (l, off)"
    and "bl = 0 \<or> match_at data pos bo bl \<and> bl \<le> max_len"
    and "pos + 2 < length data" "3 \<le> max_len" "0 < l"
  shows "match_at data pos off l \<and> l \<le> max_len"
  using assms
proof (induction c arbitrary: idx bl bo)
  case 0
  then show ?case by auto
next
  case (Suc c)
  define ml where "ml = (if c_int (length data - pos) > int max_len then int max_len
    else c_int (length data - pos))"
  define len where "len = match_len data (unat idx) pos ml MZ_MIN_MATCH"
  show ?case
  proof (cases "idx \<noteq> - 1 \<and> pos > unat idx \<and> pos - unat idx \<le> max_d \<and>
      key3 data (unat idx) = key3 data pos \<and> len > bl")
    case True
    then have new: "match_at data pos (pos - unat idx) len \<and> len \<le> max_len \<and> 3 \<le> len"
      using Suc.prems by (intro candidate_match [where ml = ml]) (auto simp: ml_def len_def)
    show ?thesis
    proof (cases "int len \<ge> ml")
      case stop: True
      then have "(l, off) = (len, pos - unat idx)"
        using Suc.prems(1) True by (simp add: Let_def flip: ml_def len_def [unfolded lz_params])
      with new show ?thesis by simp
    next
      case False
      then have "find_loop c s pos data (length data) max_len max_d
          (st_chain s (unat idx AND MZ_WMASK)) len (pos - unat idx) = (l, off)"
        using Suc.prems(1) True by (simp add: Let_def flip: ml_def len_def [unfolded lz_params])
      from Suc.IH [OF this _ Suc.prems(3-5)] new show ?thesis by simp
    qed
  next
    case False
    then consider "bl = l \<and> bo = off"
      | "find_loop c s pos data (length data) max_len max_d
          (st_chain s (unat idx AND MZ_WMASK)) bl bo = (l, off)"
      using Suc.prems(1)
      by (auto simp: Let_def simp flip: ml_def len_def [unfolded lz_params] split: if_splits)
    then show ?thesis
      using Suc.IH [OF _ Suc.prems(2-5)] Suc.prems by cases auto
  qed
qed

lemma level_cfg_bounds: "3 \<le> max_match (level_cfg level)"
proof -
  have "\<forall>c \<in> set level_cfgs. 3 \<le> max_match c"
    by (simp add: level_cfgs_def)
  moreover have "level_cfg level \<in> set level_cfgs"
    unfolding level_cfg_def Let_def by (rule nth_mem) (simp add: level_cfgs_def nat_less_iff)
  ultimately show ?thesis by blast
qed

lemma mz_find_match:
  assumes "mz_find s pos data (length data) True = Some (l, off)"
  shows "match_at data pos off l \<and> 3 \<le> l \<and> l \<le> 130"
proof -
  obtain idx max_d c where f: "find_loop c s pos data (length data)
      (min (max_match (level_cfg (st_level s))) 130) max_d idx 0 0 = (l, off)"
    and l: "3 \<le> l" and pos: "pos + 2 < length data"
    using assms by (auto simp: mz_find_def Let_def split: if_splits prod.splits)
  have "match_at data pos off l \<and> l \<le> min (max_match (level_cfg (st_level s))) 130"
    using l pos level_cfg_bounds [of "st_level s"] by (intro find_loop_match [OF f]) auto
  with l show ?thesis by simp
qed

section \<open>Decoding what the compressor emits\<close>

text \<open>
  \<open>lz_decodes data seg ip ip'\<close>: from any good decoder state that has produced the first \<open>ip\<close>
  bytes, reading the tokens \<open>seg\<close> produces the first \<open>ip'\<close> bytes and goes on with the rest.
\<close>

definition lz_decodes :: "bytes \<Rightarrow> bytes \<Rightarrow> nat \<Rightarrow> nat \<Rightarrow> bool" where
  "lz_decodes data seg ip ip' \<longleftrightarrow>
     (\<forall>d rest. ring_good d \<longrightarrow> d_out d = take ip data \<longrightarrow>
        (\<exists>d'. ring_good d' \<and> d_out d' = take ip' data \<and>
           lz_dec_loop True (length data) (seg @ rest) d = lz_dec_loop True (length data) rest d'))"

lemma lz_decodes_Nil: "lz_decodes data [] ip ip"
  by (auto simp: lz_decodes_def)

lemma lz_decodes_append:
  assumes "lz_decodes data seg1 ip1 ip2" "lz_decodes data seg2 ip2 ip3"
  shows "lz_decodes data (seg1 @ seg2) ip1 ip3"
  unfolding lz_decodes_def
proof (intro allI impI)
  fix d rest assume "ring_good d" "d_out d = take ip1 data"
  then obtain d2 where d2: "ring_good d2" "d_out d2 = take ip2 data"
    "lz_dec_loop True (length data) (seg1 @ (seg2 @ rest)) d =
     lz_dec_loop True (length data) (seg2 @ rest) d2"
    using assms(1) unfolding lz_decodes_def by meson
  then obtain d3 where "ring_good d3" "d_out d3 = take ip3 data"
    "lz_dec_loop True (length data) (seg2 @ rest) d2 = lz_dec_loop True (length data) rest d3"
    using assms(2) unfolding lz_decodes_def by meson
  with d2 show "\<exists>d'. ring_good d' \<and> d_out d' = take ip3 data \<and>
      lz_dec_loop True (length data) ((seg1 @ seg2) @ rest) d = lz_dec_loop True (length data) rest d'"
    by auto
qed

lemma lz_decodes_literal:
  assumes ip: "ip < length data"
  shows "lz_decodes data (write_literal (data ! ip)) ip (Suc ip)"
  unfolding lz_decodes_def
proof (intro allI impI)
  fix d rest assume d: "ring_good d" "d_out d = take ip data"
  have "lz_dec_loop True (length data) (write_literal (data ! ip) @ rest) d =
      lz_dec_loop True (length data) rest (lz_put (data ! ip) d)"
    using ip d by (auto simp: write_literal_def not_le not_less)
  moreover have "d_out (lz_put (data ! ip) d) = take (Suc ip) data"
    using ip d by (simp add: lz_put_def take_Suc_nth)
  ultimately show "\<exists>d'. ring_good d' \<and> d_out d' = take (Suc ip) data \<and>
      lz_dec_loop True (length data) (write_literal (data ! ip) @ rest) d =
      lz_dec_loop True (length data) rest d'"
    using ring_good_put [OF d(1)] by blast
qed

lemma lz_decodes_match:
  assumes m: "match_at data ip off len" and off: "drop_bit 8 off \<le> 0x7E"
    and len: "3 \<le> len" "len \<le> 130"
  shows "lz_decodes data (write_match_v2 off len) ip (ip + len)"
  unfolding lz_decodes_def
proof (intro allI impI)
  fix d rest assume d: "ring_good d" "d_out d = take ip data"
  let ?d = "win_copy lz_put lz_back off len d"
  have bounds: "ip + len \<le> length data"
    using m by (simp add: match_at_def)
  then have room: "length (d_out d) < length data" "length (d_out d) + len \<le> length data"
    using d len by auto
  have near: "off \<le> MZ_WSIZE"
    using off by (simp add: drop_bit_eq_div)
  have "lz_dec_loop True (length data) (write_match_v2 off len @ rest) d =
      lz_dec_loop True (length data) rest (lz_copy_loop (length data) off len d)"
    using token_bytes [OF off len] room(1)
    by (simp add: write_match_v2_def Let_def)
  also have "lz_copy_loop (length data) off len d = ?d"
    using room(2) by (rule lz_copy_loop_win)
  finally show "\<exists>d'. ring_good d' \<and> d_out d' = take (ip + len) data \<and>
      lz_dec_loop True (length data) (write_match_v2 off len @ rest) d =
      lz_dec_loop True (length data) rest d'"
    using ring.copy_match [OF d(1) near d(2) m] by blast
qed

text \<open>
  What one stage of the compressor does to its output: the bytes it appends decode to the input it
  consumed, and there are at most two of them per input byte.
\<close>

definition lz_emits :: "bytes \<Rightarrow> nat \<Rightarrow> bytes \<Rightarrow> nat \<Rightarrow> bytes \<Rightarrow> bool" where
  "lz_emits data ip out ip' out' \<longleftrightarrow> ip \<le> ip' \<and>
     (\<exists>seg. out' = out @ seg \<and> lz_decodes data seg ip ip' \<and> length seg \<le> 2 * (ip' - ip))"

lemma lz_emits_refl: "lz_emits data ip out ip out"
  by (auto simp: lz_emits_def intro: lz_decodes_Nil)

lemma lz_emits_trans:
  assumes "lz_emits data ip1 out1 ip2 out2" "lz_emits data ip2 out2 ip3 out3"
  shows "lz_emits data ip1 out1 ip3 out3"
proof -
  from assms obtain seg1 seg2 where "ip1 \<le> ip2" "ip2 \<le> ip3" "out2 = out1 @ seg1" "out3 = out2 @ seg2"
    "lz_decodes data seg1 ip1 ip2" "lz_decodes data seg2 ip2 ip3"
    "length seg1 \<le> 2 * (ip2 - ip1)" "length seg2 \<le> 2 * (ip3 - ip2)"
    by (auto simp: lz_emits_def)
  then show ?thesis
    unfolding lz_emits_def by (auto intro!: exI [of _ "seg1 @ seg2"] lz_decodes_append)
qed

lemma lz_emits_literal:
  "ip < length data \<Longrightarrow> lz_emits data ip out (Suc ip) (out @ write_literal (data ! ip))"
  using lz_decodes_literal [of ip data] by (auto simp: lz_emits_def write_literal_def)

lemma lz_emits_length: "lz_emits data ip out ip' out' \<Longrightarrow> length out' \<le> length out + 2 * (ip' - ip)"
  by (auto simp: lz_emits_def)

lemma lit_run_emits:
  "lit_run k s data ip out = (s', ip', out') \<Longrightarrow> lz_emits data ip out ip' out'"
proof (induction k s data ip out arbitrary: s' ip' out' rule: lit_run.induct)
  case (1 s data ip out)
  then show ?case by (simp add: lz_emits_refl)
next
  case (2 k s data ip out)
  show ?case
  proof (cases "ip < length data")
    case True
    obtain s1 ip1 where s1: "slide_and_insert 1 s data ip (length data) = (s1, ip1)"
      by fastforce
    with True have "ip1 = Suc ip" by (rule slide_one)
    moreover have "lit_run k s1 data ip1 (out @ write_literal (data ! ip)) = (s', ip', out')"
      using 2 True s1 by simp
    ultimately show ?thesis
      using "2.IH" [OF True s1 [symmetric] refl] lz_emits_literal [OF True] lz_emits_trans by blast
  next
    case False
    with 2 show ?thesis by (auto intro: lz_emits_refl)
  qed
qed

lemma lit_tail_emits:
  "lit_tail li s data ip out = (s', ip', out') \<Longrightarrow> lz_emits data ip out ip' out'"
proof (induction li s data ip out arbitrary: s' ip' out' rule: lit_tail.induct)
  case (1 li s data ip out)
  show ?case
  proof (cases "int li < c_int (length data - ip)")
    case True
    obtain s1 ip1 where s1: "slide_and_insert 1 s data ip (length data) = (s1, ip1)"
      by fastforce
    from True have ip: "ip < length data" by (rule c_int_less_imp)
    then have "ip1 = Suc ip" using s1 by (rule slide_one)
    moreover have "lit_tail (Suc li) s1 data ip1 (out @ write_literal (data ! ip)) = (s', ip', out')"
      using 1 True s1 by (simp add: lit_tail.simps [of li])
    ultimately show ?thesis
      using "1.IH" [OF True s1 [symmetric] refl] lz_emits_literal [OF ip] lz_emits_trans by blast
  next
    case False
    with 1 show ?thesis by (auto simp: lit_tail.simps [of li] intro: lz_emits_refl)
  qed
qed

lemma emit_literal_emits:
  assumes ip: "ip < length data" and room: "length out + 2 \<le> max_out"
  shows "\<exists>s' out'. emit_literal data max_out s ip out = Inr (s', Suc ip, out') \<and>
    lz_emits data ip out (Suc ip) out'"
proof -
  obtain s1 ip1 where s1: "slide_and_insert 1 s data ip (length data) = (s1, ip1)"
    by fastforce
  with ip have "ip1 = Suc ip" by (rule slide_one)
  then show ?thesis
    using s1 room lz_emits_literal [OF ip] by (auto simp: emit_literal_def)
qed

lemma emit_match_emits:
  assumes ip: "ip < length data" and room: "length out + 3 \<le> max_out"
    and m: "match_at data ip off l" "3 \<le> l" "l \<le> 130"
  shows "\<exists>s' ip' out'. emit_match data max_out s ip out l off = Inr (s', ip', out') \<and>
    lz_emits data ip out ip' out'"
proof -
  have l: "l \<le> length data - ip"
    using m by (auto simp: match_at_def)
  have len: "emit_match data max_out s ip out l off =
      (if drop_bit 8 off > 0x7E then Inr (lit_run l s data ip out)
       else let (s', ip') = slide_and_insert l s data ip (length data)
            in Inr (s', ip', out @ write_match_v2 off l))"
    using room m l by (simp add: emit_match_def Let_def)
  show ?thesis
  proof (cases "drop_bit 8 off > 0x7E")
    case True
    obtain s' ip' out' where r: "lit_run l s data ip out = (s', ip', out')"
      by (metis prod_cases3)
    with True len lit_run_emits [OF r] show ?thesis by auto
  next
    case False
    obtain s' ip' where r: "slide_and_insert l s data ip (length data) = (s', ip')"
      by fastforce
    then have "ip' = ip + l"
      using slide_and_insert_ip [of l s data ip "length data"] ip l by auto
    moreover have "lz_emits data ip out (ip + l) (out @ write_match_v2 off l)"
      using lz_decodes_match [of data ip off l] m False
      by (auto simp: lz_emits_def write_match_v2_def)
    ultimately show ?thesis using False r len by auto
  qed
qed

lemma lz_step_emits:
  assumes ip: "ip < length data" and room: "length out + 3 \<le> max_out"
  shows "\<exists>s' ip' out'. lz_step data max_out lazy s ip out = Inr (s', ip', out') \<and>
    lz_emits data ip out ip' out'"
proof (cases "mz_find s ip data (length data) True")
  case None
  with emit_literal_emits [OF ip, of out max_out s] room show ?thesis
    by (auto simp: lz_step_def)
next
  case (Some p)
  then obtain l off where f: "mz_find s ip data (length data) True = Some (l, off)"
    by (cases p) auto
  obtain s1 defer1 where la: "lz_lookahead lazy s ip data l = (s1, defer1)"
    by fastforce
  have m: "match_at data ip off l" "3 \<le> l" "l \<le> 130"
    using mz_find_match [OF f] by auto
  show ?thesis
    using emit_literal_emits [OF ip, of out max_out s1] emit_match_emits [OF ip room m, of s1] room f la
    by (cases defer1) (auto simp: lz_step_def)
qed

lemma lz_loop_emits:
  assumes "length out \<le> 2 * ip + 6" "max_out = length data + length data + 20" "ip \<le> length data"
  shows "\<exists>out'. lz_loop data max_out lazy s ip out = Inr out' \<and> lz_emits data ip out (length data) out'"
  using assms
proof (induction data max_out lazy s ip out rule: lz_loop.induct)
  case (1 data max_out lazy s ip out)
  show ?case
  proof (cases "ip < length data")
    case True
    then have room: "length out + 3 \<le> max_out"
      using 1 by simp
    obtain s' ip' out' where st: "lz_step data max_out lazy s ip out = Inr (s', ip', out')"
      and em: "lz_emits data ip out ip' out'"
      using lz_step_emits [OF True room] by blast
    have ip': "ip < ip'" "ip' \<le> length data"
      using lz_step_ip [OF st True] by auto
    then have "length out' \<le> 2 * ip' + 6"
      using lz_emits_length [OF em] "1.prems" by auto
    then obtain out'' where "lz_loop data max_out lazy s' ip' out' = Inr out''"
      "lz_emits data ip' out' (length data) out''"
      using "1.IH" [OF True st refl refl] "1.prems" ip' by blast
    with em st True show ?thesis
      by (auto simp: lz_loop.simps [of data max_out lazy s ip] intro: lz_emits_trans)
  next
    case False
    then have "lz_loop data max_out lazy s ip out = Inr out"
      by (subst lz_loop.simps) simp
    moreover have "ip = length data" using False "1.prems" by simp
    ultimately show ?thesis using lz_emits_refl by auto
  qed
qed

section \<open>Properties of the codec\<close>

lemma compress_lz77_shape:
  assumes "data \<noteq> []" "al (length data + length data + 20)"
  shows "\<exists>seg. mz_compress_lz77 al (Some data) level = mz_ok (lz_header (length data) @ seg) \<and>
    lz_decodes data seg 0 (length data) \<and> length seg \<le> 2 * length data"
proof -
  define lv where "lv = (if level < 1 then 1 else if level > 9 then 9 else level)"
  define s where "s = mz_init lv"
  have "length (lz_header (length data)) \<le> 2 * 0 + 6"
    by (simp add: lz_header_def)
  then obtain out where "lz_loop data (length data + length data + 20)
      (cfg_use_lazy (level_cfg (st_level s))) s 0 (lz_header (length data)) = Inr out"
    "lz_emits data 0 (lz_header (length data)) (length data) out"
    using lz_loop_emits by blast
  with assms show ?thesis
    unfolding mz_compress_lz77_def
    by (auto simp: Let_def lz_emits_def simp flip: s_def lv_def)
qed

lemma decompress_lz77_header:
  assumes "length data < 2 ^ 32" "al (length data)" "lz_decodes data seg 0 (length data)"
  shows "mz_decompress_lz77 al (Some (lz_header (length data) @ seg)) = mz_ok data"
proof -
  have out: "d_out lz_dec_init = take 0 data"
    by (simp add: lz_dec_init_def)
  obtain d' where d': "d_out d' = take (length data) data"
    "lz_dec_loop True (length data) (seg @ []) lz_dec_init = lz_dec_loop True (length data) [] d'"
    using assms(3) ring_good_init out unfolding lz_decodes_def by blast
  have "unat (read_le32 (write_le32 (word_of_nat (length data)) @ seg)) = length data"
    using assms(1) by (simp add: read_le32_append)
  with d' assms show ?thesis
    by (simp add: mz_decompress_lz77_def lz_header_def Let_def)
qed
definition lz_fits :: "allocator \<Rightarrow> bytes \<Rightarrow> bool" where
  "lz_fits al data \<longleftrightarrow> data \<noteq> [] \<and> length data < 2 ^ 32 \<and>
     al (length data + length data + 20) \<and> al (length data)"

interpretation lz: byte_codec "\<lambda>al data. mz_compress_lz77 al (Some data)"
    "\<lambda>al out. mz_decompress_lz77 al (Some out)" lz_fits
proof (unfold_locales, goal_cases)
  case (1 al xs p)
  then show ?case using compress_lz77_shape [of xs al p] by (auto simp: lz_fits_def)
next
  case (2 al xs p out)
  then have "\<exists>seg. out = lz_header (length xs) @ seg \<and> lz_decodes xs seg 0 (length xs)"
    using compress_lz77_shape [of xs al p] by (auto simp: lz_fits_def mz_ok_def)
  with 2 show ?case
    using decompress_lz77_header [of xs al] by (auto simp: lz_fits_def)
qed

text \<open>
  C3. LZ77 round trip: for every level, every non-empty input below 4 GiB is compressed without
  error and the decompressor returns exactly that input.
\<close>

theorem lz77_roundtrip:
  assumes "data \<noteq> []" "length data < 2 ^ 32"
    and "al (length data + length data + 20)" "al (length data)"
  shows "\<exists>out. mz_compress_lz77 al (Some data) level = mz_ok out \<and>
    mz_decompress_lz77 al (Some out) = mz_ok data"
  using assms by (intro lz.roundtrip) (simp add: lz_fits_def)

theorem lz77_roundtrip_witness:
  "\<exists>out. mz_compress_lz77 (\<lambda>n. n < 1000) (Some [97, 98, 97, 98, 97, 98, 200]) 6 = mz_ok out \<and>
    mz_decompress_lz77 (\<lambda>n. n < 1000) (Some out) = mz_ok [97, 98, 97, 98, 97, 98, 200]"
  by (rule lz77_roundtrip) simp_all

text \<open>
  The output buffer of the compressor is never too small: the stream error of the writer is
  unreachable and the result is within \<^verbatim>\<open>mz_max_compressed_size_lz77\<close>.
\<close>

theorem lz77_compressed_size:
  assumes "data \<noteq> []" "al (length data + length data + 20)"
  shows "\<exists>out. mz_compress_lz77 al (Some data) level = mz_ok out \<and>
    length out \<le> mz_max_compressed_size_lz77 (length data)"
proof -
  have "length (lz_header (length data)) = 6"
    by (simp add: lz_header_def)
  with compress_lz77_shape [of data al level] assms show ?thesis
    by (force simp: mz_max_compressed_size_lz77_def)
qed

theorem lz77_compressed_size_witness:
  "\<exists>out. mz_compress_lz77 (\<lambda>n. n = 26) (Some [200, 201, 202]) 9 = mz_ok out \<and>
    length out \<le> mz_max_compressed_size_lz77 (length [200, 201, 202 :: u8])"
  by (rule lz77_compressed_size) simp_all

text \<open>The decoder never writes past the buffer it allocated from the header's size.\<close>

lemma lz_copy_loop_bound:
  "length (d_out d) \<le> uncompsz \<Longrightarrow> length (d_out (lz_copy_loop uncompsz offset n d)) \<le> uncompsz"
  by (induction uncompsz offset n d rule: lz_copy_loop.induct) (auto simp: lz_put_def)

lemma lz_dec_loop_bound:
  "lz_dec_loop is_v2 uncompsz rest d = Inr out \<Longrightarrow> length (d_out d) \<le> uncompsz \<Longrightarrow>
     length out \<le> uncompsz"
proof (induction is_v2 uncompsz rest d arbitrary: out rule: lz_dec_loop.induct)
  case (1 is_v2 uncompsz d)
  then show ?case by simp
next
  case (2 is_v2 uncompsz b0 rest d)
  have put: "length (d_out (lz_put b d)) \<le> uncompsz" if "length (d_out d) < uncompsz" for b
    using that by (simp add: lz_put_def)
  show ?case
  proof (cases "length (d_out d) < uncompsz")
    case room: True
    note step = "2.prems"(1) [simplified lz_dec_loop.simps(2) room if_True]
    consider (lit) "b0 < 0x80" | (esc) "\<not> b0 < 0x80" "b0 = 0xFF \<and> is_v2 \<or> b0 = 0x80 \<and> \<not> is_v2"
      | (tok) "\<not> b0 < 0x80" "\<not> (b0 = 0xFF \<and> is_v2 \<or> b0 = 0x80 \<and> \<not> is_v2)"
      by blast
    then show ?thesis
    proof cases
      case lit
      with "2.IH"(1) room put step show ?thesis by simp
    next
      case esc
      then obtain val rest' where rest: "rest = val # rest'"
        using step by (cases rest) auto
      from esc step rest have "lz_dec_loop is_v2 uncompsz rest' (lz_put val d) = Inr out"
        by auto
      with "2.IH"(2) room put esc rest show ?thesis by blast
    next
      case tok
      then obtain b1 b2 rest' where rest: "rest = b1 # b2 # rest'"
        using step by (cases rest; cases "tl rest") auto
      let ?off = "match_offset is_v2 b0 b1 b2"
      show ?thesis
      proof (cases "\<not> is_v2 \<and> ?off = 0")
        case True
        then have "out = d_out d" using step tok rest by (auto simp: Let_def)
        with room show ?thesis by simp
      next
        case False
        then have "lz_dec_loop is_v2 uncompsz rest'
            (lz_copy_loop uncompsz ?off (match_length is_v2 b2) d) = Inr out"
          using step tok rest by (auto simp: Let_def)
        moreover have "length (d_out (lz_copy_loop uncompsz ?off (match_length is_v2 b2) d)) \<le> uncompsz"
          using room by (intro lz_copy_loop_bound) simp
        ultimately show ?thesis
          using "2.IH"(3) [OF room tok rest refl refl False] by blast
      qed
    qed
  next
    case False
    with 2 show ?thesis by simp
  qed
qed

text \<open>
  C33. Decoder bounds, on arbitrary and hostile input: whatever bytes are given, a successful
  decompression is never longer than the size in the header, the size of its allocation.
\<close>

theorem decompress_lz77_bounded:
  assumes "ret_out (mz_decompress_lz77 al (Some data)) = Some out"
  shows "al (unat (read_le32 (drop 2 data))) \<and> length out \<le> unat (read_le32 (drop 2 data))"
proof -
  obtain is_v2 where "lz_dec_loop is_v2 (unat (read_le32 (drop 2 data))) (drop 6 data) lz_dec_init = Inr out"
    and "al (unat (read_le32 (drop 2 data)))"
    using assms by (auto simp: mz_decompress_lz77_def Let_def mz_deliver_def split: if_splits sum.splits)
  then show ?thesis
    using lz_dec_loop_bound by (simp add: lz_dec_init_def)
qed

theorem decompress_lz77_bounded_witness:
  "ret_out (mz_decompress_lz77 (\<lambda>_. True) (Some [0x6D, 0x5A, 3, 0, 0, 0, 97, 98, 99])) =
     Some [97, 98, 99] \<and>
   length [97, 98, 99 :: u8] \<le> unat (read_le32 (drop 2 [0x6D, 0x5A, 3, 0, 0, 0, 97, 98, 99]))"
proof -
  have r: "ret_out (mz_decompress_lz77 (\<lambda>_. True) (Some [0x6D, 0x5A, 3, 0, 0, 0, 97, 98, 99])) =
      Some [97, 98, 99]"
    by (simp add: mz_decompress_lz77_def read_le32_def lz_put_def lz_dec_init_def)
  from decompress_lz77_bounded [OF r] r show ?thesis by blast
qed

end
