(* ===== verification/Checksum.thy ===== *)
theory Checksum
  imports Bytes
begin

text \<open>
  CRC-32 and Adler-32, \<^verbatim>\<open>codec/mz_hash.c\<close>. The table driven CRC step is proved equal to eight
  steps of the polynomial division, and the delayed reduction of Adler-32 to the definition that
  reduces after every byte: the block length \<open>MZ_ADLER_NMAX\<close> is small enough that no 32-bit sum
  wraps. The table of the C code is built on the first call and cached; the cache is not part of
  the model, the table is.
\<close>

section \<open>CRC-32\<close>

definition CRC32_POLY :: u32 where "CRC32_POLY = 0xEDB88320"

text \<open>One turn of the inner loop of \<^verbatim>\<open>crc32_init_table\<close>.\<close>

definition crc32_bit :: "u32 \<Rightarrow> u32" where
  "crc32_bit crc =
     (if crc AND 1 \<noteq> 0 then drop_bit 1 crc XOR CRC32_POLY else drop_bit 1 crc)"

definition crc32_init_table :: "u32 list" where
  "crc32_init_table = map (\<lambda>i. (crc32_bit ^^ 8) (word_of_nat i)) [0..<256]"

fun crc32_loop :: "u32 \<Rightarrow> bytes \<Rightarrow> u32" where
  "crc32_loop crc [] = crc"
| "crc32_loop crc (b # p) =
     crc32_loop (crc32_init_table ! unat ((crc XOR ucast b) AND 0xFF) XOR drop_bit 8 crc) p"

definition mz_crc32 :: "bytes \<Rightarrow> u32" where
  "mz_crc32 data = crc32_loop 0xFFFFFFFF data XOR 0xFFFFFFFF"

definition mz_crc32_init :: u32 where
  "mz_crc32_init = 0xFFFFFFFF"

definition mz_crc32_update :: "u32 \<Rightarrow> bytes \<Rightarrow> u32" where
  "mz_crc32_update crc data = crc32_loop crc data"

definition mz_crc32_final :: "u32 \<Rightarrow> u32" where
  "mz_crc32_final crc = crc XOR 0xFFFFFFFF"

text \<open>The reference: feed each byte, low bit first, through the polynomial division.\<close>

definition crc32_byte :: "u32 \<Rightarrow> u8 \<Rightarrow> u32" where
  "crc32_byte crc b = (crc32_bit ^^ 8) (crc XOR ucast b)"

definition crc32_reference :: "bytes \<Rightarrow> u32" where
  "crc32_reference data = NOT (foldl crc32_byte (NOT 0) data)"

lemma crc32_bit_alt: "crc32_bit crc = drop_bit 1 crc XOR (if bit crc 0 then CRC32_POLY else 0)"
  by (simp add: crc32_bit_def bit_0 and_one_eq odd_iff_mod_2_eq_one)

lemma crc32_bit_xor: "crc32_bit (a XOR b) = crc32_bit a XOR crc32_bit b"
  by (simp add: crc32_bit_alt drop_bit_xor bit_xor_iff xor.assoc xor.commute xor.left_commute)

lemma crc32_bits_xor: "(crc32_bit ^^ n) (a XOR b) = (crc32_bit ^^ n) a XOR (crc32_bit ^^ n) b"
  by (induction n) (simp_all add: crc32_bit_xor)

lemma crc32_bits_shift: "(\<And>i. i < n \<Longrightarrow> \<not> bit a i) \<Longrightarrow> (crc32_bit ^^ n) a = drop_bit n a"
proof (induction n)
  case (Suc n)
  then have "(crc32_bit ^^ n) a = drop_bit n a" and "\<not> bit a n" by auto
  then have "(crc32_bit ^^ Suc n) a = crc32_bit (drop_bit n a)" and "\<not> bit (drop_bit n a) 0"
    by (auto simp: bit_drop_bit_eq)
  then have "(crc32_bit ^^ Suc n) a = drop_bit 1 (drop_bit n a)"
    by (simp only: crc32_bit_alt) simp
  then show ?case by (simp only: drop_bit_drop_bit) simp
qed simp

lemma crc32_table_step:
  "crc32_init_table ! unat ((crc XOR ucast b) AND 0xFF) XOR drop_bit 8 crc = crc32_byte crc b"
proof -
  define x where "x = crc XOR (ucast b :: u32)"
  have low: "x AND 0xFF = take_bit 8 x"
    by (simp add: take_bit_eq_mask mask_eq_exp_minus_1)
  have small: "unat (take_bit 8 x) < 256"
    by (simp only: unsigned_take_bit_eq) (simp add: take_bit_eq_mod)
  have "x = take_bit 8 x XOR push_bit 8 (drop_bit 8 x)"
    by (rule bit_word_eqI) (auto simp: bit_simps)
  then have "(crc32_bit ^^ 8) x = (crc32_bit ^^ 8) (take_bit 8 x) XOR
      (crc32_bit ^^ 8) (push_bit 8 (drop_bit 8 x))"
    by (metis crc32_bits_xor)
  also have "(crc32_bit ^^ 8) (push_bit 8 (drop_bit 8 x)) = drop_bit 8 x"
  proof (subst crc32_bits_shift)
    show "drop_bit 8 (push_bit 8 (drop_bit 8 x)) = drop_bit 8 x"
      by (rule bit_word_eqI) (auto simp: bit_simps dest: bit_u32_len)
  qed (simp add: bit_simps)
  also have "drop_bit 8 x = drop_bit 8 crc"
    by (rule bit_word_eqI) (auto simp: x_def bit_simps dest: bit_u8_len)
  finally have "(crc32_bit ^^ 8) x = (crc32_bit ^^ 8) (take_bit 8 x) XOR drop_bit 8 crc" .
  moreover have "crc32_init_table ! unat (take_bit 8 x) = (crc32_bit ^^ 8) (take_bit 8 x)"
    using small by (simp add: crc32_init_table_def)
  ultimately show ?thesis
    unfolding crc32_byte_def low by (simp flip: x_def add: low)
qed

lemma crc32_loop_foldl: "crc32_loop crc data = foldl crc32_byte crc data"
  by (induction crc data rule: crc32_loop.induct) (simp_all add: crc32_table_step del: One_nat_def)

text \<open>
  C4. The table driven CRC-32 equals the bitwise polynomial division on every input, and the
  incremental interface agrees with the one-shot one however the input is cut.
\<close>

theorem crc32_correct:
  "mz_crc32 data = crc32_reference data \<and>
   mz_crc32_final (mz_crc32_update (mz_crc32_update mz_crc32_init xs) ys) = mz_crc32 (xs @ ys)"
proof
  have ones: "0xFFFFFFFF = (NOT 0 :: u32)" by simp
  show "mz_crc32 data = crc32_reference data"
    unfolding mz_crc32_def crc32_reference_def crc32_loop_foldl ones
    by (rule bit_word_eqI) (simp add: bit_simps)
  show "mz_crc32_final (mz_crc32_update (mz_crc32_update mz_crc32_init xs) ys) = mz_crc32 (xs @ ys)"
    by (simp add: mz_crc32_final_def mz_crc32_update_def mz_crc32_init_def mz_crc32_def
        crc32_loop_foldl)
qed

section \<open>What CRC-32 detects\<close>

lemma crc32_bit_inject: "crc32_bit a = crc32_bit b \<longleftrightarrow> a = b"
proof
  assume eq: "crc32_bit a = crc32_bit b"
  have top: "bit (crc32_bit x) 31 = bit x 0" for x
    by (auto simp: crc32_bit_alt bit_xor_iff bit_drop_bit_eq CRC32_POLY_def dest: bit_u32_len)
  from top [of a] top [of b] eq have 0: "bit a 0 = bit b 0" by simp
  with eq have "drop_bit 1 a = drop_bit 1 b"
    by (simp only: crc32_bit_alt xor_right_cancel)
  have "bit a i = bit b i" for i
  proof (cases i)
    case (Suc j)
    have "bit (drop_bit 1 a) j = bit (drop_bit 1 b) j"
      by (simp only: \<open>drop_bit 1 a = drop_bit 1 b\<close>)
    then show ?thesis by (simp only: bit_drop_bit_eq o_def Suc) simp
  qed (use 0 in simp)
  then show "a = b" by (simp add: bit_eq_iff)
qed simp

lemma crc32_bits_inject: "(crc32_bit ^^ n) a = (crc32_bit ^^ n) b \<longleftrightarrow> a = b"
  by (induction n) (simp_all add: crc32_bit_inject)

lemma foldl_crc32_inject: "foldl crc32_byte a data = foldl crc32_byte b data \<longleftrightarrow> a = b"
proof (induction data arbitrary: a b)
  case (Cons c data)
  have "crc32_byte a c = crc32_byte b c \<longleftrightarrow> a = b"
    unfolding crc32_byte_def crc32_bits_inject by (auto simp: xor_right_cancel)
  with Cons show ?case by simp
qed simp

text \<open>The little-endian word of up to four bytes, which the CRC register absorbs as a whole.\<close>

fun le_word :: "bytes \<Rightarrow> u32" where
  "le_word [] = 0"
| "le_word (b # bs) = ucast b XOR push_bit 8 (le_word bs)"

lemma le_word_snoc: "le_word (bs @ [b]) = le_word bs XOR push_bit (8 * length bs) (ucast b)"
proof (induction bs)
  case (Cons c bs)
  then show ?case
    by (simp only: append_Cons le_word.simps push_bit_xor push_bit_push_bit xor.assoc length_Cons
        mult_Suc_right)
qed simp

lemma crc32_absorb:
  "length bs \<le> 4 \<Longrightarrow>
     foldl crc32_byte crc bs = (crc32_bit ^^ (8 * length bs)) (crc XOR le_word bs)"
proof (induction bs rule: rev_induct)
  case (snoc b bs)
  let ?n = "8 * length bs" and ?y = "crc XOR le_word bs"
  have "(crc32_bit ^^ ?n) (push_bit ?n (ucast b)) = drop_bit ?n (push_bit ?n (ucast b))"
    by (rule crc32_bits_shift) (simp add: bit_push_bit_iff)
  also have "\<dots> = ucast b"
    using snoc.prems by (intro bit_word_eqI) (auto simp: bit_simps dest: bit_u8_len)
  finally have b: "(crc32_bit ^^ ?n) (push_bit ?n (ucast b)) = ucast b" .
  have "foldl crc32_byte crc (bs @ [b]) = (crc32_bit ^^ 8) ((crc32_bit ^^ ?n) ?y XOR ucast b)"
    using snoc by (simp add: crc32_byte_def [of _ b] del: funpow.simps)
  also have "\<dots> = (crc32_bit ^^ 8) ((crc32_bit ^^ ?n) (?y XOR push_bit ?n (ucast b)))"
    by (simp only: crc32_bits_xor [of ?n] b)
  also have "\<dots> = (crc32_bit ^^ (8 + ?n)) (crc XOR le_word (bs @ [b]))"
    by (simp only: funpow_add comp_def le_word_snoc xor.assoc)
  finally show ?case by (simp add: add.commute del: funpow.simps)
qed simp

lemma le_word_low: "ucast (le_word (b # bs)) = b"
proof (rule bit_word_eqI)
  fix i assume "i < LENGTH(8)"
  then show "bit (ucast (le_word (b # bs)) :: u8) i = bit b i"
    by (simp only: le_word.simps bit_xor_iff bit_field) auto
qed

lemma le_word_bit: "bit (le_word xs) i \<Longrightarrow> i < 8 * length xs"
proof (induction xs arbitrary: i)
  case (Cons x xs)
  then have "bit x i \<or> (8 \<le> i \<and> bit (le_word xs) (i - 8))"
    by (auto simp only: le_word.simps bit_xor_iff bit_field)
  then show ?case
    using Cons.IH [of "i - 8"] by (auto dest: bit_u8_len)
qed simp

lemma le_word_high: "length bs \<le> 3 \<Longrightarrow> drop_bit 8 (le_word (b # bs)) = le_word bs"
proof (rule bit_word_eqI)
  fix i assume "length bs \<le> 3" "i < LENGTH(32)"
  then show "bit (drop_bit 8 (le_word (b # bs))) i = bit (le_word bs) i"
    using le_word_bit [of bs i]
    by (simp only: le_word.simps bit_xor_iff bit_field) (auto dest: bit_u8_len)
qed

lemma le_word_inject:
  "length xs = length ys \<Longrightarrow> length ys \<le> 4 \<Longrightarrow> le_word xs = le_word ys \<Longrightarrow> xs = ys"
proof (induction xs ys rule: list_induct2)
  case (Cons x xs y ys)
  then have "x = y" by (metis le_word_low)
  moreover have "le_word xs = le_word ys"
    using Cons le_word_high [of xs x] le_word_high [of ys y] by simp
  ultimately show ?case using Cons by simp
qed simp

text \<open>
  CRC-32 detects every corruption confined to four consecutive bytes, at any place of a message
  of any length: two messages that differ only there never have the same checksum.
\<close>

theorem crc32_detects_burst:
  assumes "length xs = length ys" "length ys \<le> 4" "xs \<noteq> ys"
  shows "mz_crc32 (pre @ xs @ post) \<noteq> mz_crc32 (pre @ ys @ post)"
proof
  assume "mz_crc32 (pre @ xs @ post) = mz_crc32 (pre @ ys @ post)"
  then have "foldl crc32_byte (foldl crc32_byte 0xFFFFFFFF pre) xs =
      foldl crc32_byte (foldl crc32_byte 0xFFFFFFFF pre) ys"
    unfolding mz_crc32_def crc32_loop_foldl xor_right_cancel foldl_append foldl_crc32_inject .
  then have "le_word xs = le_word ys"
    using assms by (simp only: crc32_absorb crc32_bits_inject xor_left_cancel)
  with assms le_word_inject show False by blast
qed

theorem crc32_detects_burst_witness:
  "mz_crc32 ([104, 101] @ [108, 108] @ [111]) \<noteq> mz_crc32 ([104, 101] @ [109, 109] @ [111])"
  by (rule crc32_detects_burst) simp_all

section \<open>Adler-32\<close>

definition MZ_ADLER_BASE :: nat where "MZ_ADLER_BASE = 65521"
definition MZ_ADLER_NMAX :: nat where "MZ_ADLER_NMAX = 5552"

fun adler_inner :: "u32 \<Rightarrow> u32 \<Rightarrow> bytes \<Rightarrow> u32 \<times> u32" where
  "adler_inner s1 s2 [] = (s1, s2)"
| "adler_inner s1 s2 (b # p) = (let s1' = s1 + ucast b in adler_inner s1' (s2 + s1') p)"

function adler_blocks :: "u32 \<Rightarrow> u32 \<Rightarrow> bytes \<Rightarrow> u32 \<times> u32" where
  "adler_blocks s1 s2 p =
     (if p \<noteq> [] then
        let block = (if length p > MZ_ADLER_NMAX then MZ_ADLER_NMAX else length p);
            (t1, t2) = adler_inner s1 s2 (take block p)
        in adler_blocks (t1 mod word_of_nat MZ_ADLER_BASE) (t2 mod word_of_nat MZ_ADLER_BASE)
             (drop block p)
      else (s1, s2))"
  by pat_completeness auto
termination
  by (relation "measure (\<lambda>(s1, s2, p). length p)") (auto simp: MZ_ADLER_NMAX_def split: if_splits)

declare adler_blocks.simps [simp del]

definition mz_adler32 :: "bytes \<Rightarrow> u32" where
  "mz_adler32 data = (let (s1, s2) = adler_blocks 1 0 data in push_bit 16 s2 OR s1)"

definition mz_adler32_init :: u32 where
  "mz_adler32_init = 1"

definition mz_adler32_update :: "u32 \<Rightarrow> bytes \<Rightarrow> u32" where
  "mz_adler32_update adler data =
     (let (s1, s2) = adler_blocks (adler AND 0xFFFF) (drop_bit 16 adler AND 0xFFFF) data
      in push_bit 16 s2 OR s1)"

definition mz_adler32_final :: "u32 \<Rightarrow> u32" where
  "mz_adler32_final adler = adler"

text \<open>
  The reference works on unbounded numbers: \<open>adler_sum\<close> without reduction, as one block does, and
  \<open>adler_step\<close> with a reduction after each byte, as RFC 1950 defines it.
\<close>

fun adler_sum :: "nat \<Rightarrow> nat \<Rightarrow> bytes \<Rightarrow> nat \<times> nat" where
  "adler_sum a b [] = (a, b)"
| "adler_sum a b (x # p) = adler_sum (a + unat x) (b + (a + unat x)) p"

definition adler_step :: "nat \<times> nat \<Rightarrow> u8 \<Rightarrow> nat \<times> nat" where
  "adler_step s x = (let a = (fst s + unat x) mod 65521 in (a, (snd s + a) mod 65521))"

definition adler_reference :: "bytes \<Rightarrow> u32" where
  "adler_reference data =
     (let (a, b) = foldl adler_step (1, 0) data in word_of_nat (b * 65536 + a))"

lemma adler_sum_bound:
  "adler_sum a b p = (a', b') \<Longrightarrow>
     a' \<le> a + 255 * length p \<and> 2 * b' \<le> 2 * b + 2 * (length p * a) + 255 * (length p * Suc (length p))"
proof (induction p arbitrary: a b)
  case (Cons x p)
  have x: "unat x \<le> 255" by simp
  then have "length p * unat x \<le> length p * 255" by simp
  moreover have "a' \<le> a + unat x + 255 * length p"
    "2 * b' \<le> 2 * (b + (a + unat x)) + 2 * (length p * (a + unat x)) + 255 * (length p * Suc (length p))"
    using Cons.IH [of "a + unat x" "b + (a + unat x)"] Cons.prems by simp_all
  ultimately show ?case using x
    unfolding length_Cons distrib_left mult_Suc mult_Suc_right by linarith
qed simp

lemma adler_inner_sum:
  "adler_sum a b p = (a', b') \<Longrightarrow>
    adler_inner (word_of_nat a) (word_of_nat b) p = (word_of_nat a', word_of_nat b')"
proof (induction p arbitrary: a b)
  case (Cons x p)
  from Cons.IH [of "a + unat x" "b + (a + unat x)"] Cons.prems show ?case
    by (simp add: Let_def)
qed simp

lemma adler_sum_mod:
  "adler_sum a b p = (a', b') \<Longrightarrow>
    foldl adler_step (a mod 65521, b mod 65521) p = (a' mod 65521, b' mod 65521)"
proof (induction p arbitrary: a b)
  case (Cons x p)
  have "adler_step (a mod 65521, b mod 65521) x =
      ((a + unat x) mod 65521, (b + (a + unat x)) mod 65521)"
    by (simp add: adler_step_def Let_def mod_simps)
  with Cons show ?case by simp
qed simp

lemma adler_block_bound:
  assumes "a < 65536" "b < 65536" "length p \<le> 5552" "adler_sum a b p = (a', b')"
  shows "a' < 2 ^ 32 \<and> b' < 2 ^ 32"
proof -
  have "length p * a \<le> 5552 * 65535"
    using assms by (intro mult_le_mono) simp_all
  moreover have "length p * Suc (length p) \<le> 5552 * 5553"
    using assms by (intro mult_le_mono) simp_all
  moreover note adler_sum_bound [OF assms(4), THEN conjunct1] adler_sum_bound [OF assms(4), THEN conjunct2]
  ultimately show ?thesis using assms(1-3) by (intro conjI; simp)
qed

lemma adler_blocks_reference:
  "a < 65536 \<Longrightarrow> b < 65536 \<Longrightarrow> p \<noteq> [] \<or> (a < 65521 \<and> b < 65521) \<Longrightarrow>
   \<exists>a' b'. adler_blocks (word_of_nat a) (word_of_nat b) p = (word_of_nat a', word_of_nat b') \<and>
     foldl adler_step (a mod 65521, b mod 65521) p = (a', b') \<and> a' < 65521 \<and> b' < 65521"
proof (induction "length p" arbitrary: a b p rule: less_induct)
  case less
  show ?case
  proof (cases "p = []")
    case False
    define n where "n = (if length p > MZ_ADLER_NMAX then MZ_ADLER_NMAX else length p)"
    have n: "0 < n" "n \<le> 5552" using False by (auto simp: n_def MZ_ADLER_NMAX_def)
    obtain a1 b1 where sum: "adler_sum a b (take n p) = (a1, b1)" by fastforce
    have bound: "a1 < 2 ^ 32" "b1 < 2 ^ 32"
      using adler_block_bound [OF less.prems(1,2) _ sum] n by auto
    have red: "word_of_nat x mod word_of_nat MZ_ADLER_BASE = (word_of_nat (x mod 65521) :: u32)"
      if "x < 2 ^ 32" for x
      using that by (simp add: MZ_ADLER_BASE_def word_arith_nat_defs(7) unat_of_nat)
    have step: "adler_blocks (word_of_nat a) (word_of_nat b) p =
        adler_blocks (word_of_nat (a1 mod 65521)) (word_of_nat (b1 mod 65521)) (drop n p)"
      using False adler_inner_sum [OF sum] bound
      by (subst adler_blocks.simps) (simp add: red flip: n_def)
    have "foldl adler_step (a mod 65521, b mod 65521) p =
        foldl adler_step (a1 mod 65521, b1 mod 65521) (drop n p)"
      using adler_sum_mod [OF sum]
      by (subst append_take_drop_id [of n p, symmetric], subst foldl_append) simp
    moreover have "\<exists>a' b'. adler_blocks (word_of_nat (a1 mod 65521)) (word_of_nat (b1 mod 65521))
          (drop n p) = (word_of_nat a', word_of_nat b') \<and>
        foldl adler_step (a1 mod 65521 mod 65521, b1 mod 65521 mod 65521) (drop n p) = (a', b') \<and>
        a' < 65521 \<and> b' < 65521"
      using False n by (intro less.hyps) (auto intro: less_trans [OF mod_less_divisor])
    ultimately show ?thesis by (simp add: step)
  qed (use less.prems in \<open>simp add: adler_blocks.simps\<close>)
qed

definition adler_pack :: "nat \<Rightarrow> nat \<Rightarrow> u32" where
  "adler_pack a b = push_bit 16 (word_of_nat b) OR word_of_nat a"

lemma adler_pack_parts:
  assumes "a < 65536" "b < 65536"
  shows "adler_pack a b AND 0xFFFF = word_of_nat a" "drop_bit 16 (adler_pack a b) AND 0xFFFF = word_of_nat b"
    "adler_pack a b = word_of_nat (b * 65536 + a)"
proof -
  have p: "adler_pack a b = word_of_nat (b * 65536 + a)"
    using push_or_nat [of a 16 b] assms
    by (simp add: adler_pack_def mult.commute flip: of_nat_push_bit of_nat_or_eq)
  show "adler_pack a b = word_of_nat (b * 65536 + a)" by (fact p)
  have m: "w AND 0xFFFF = take_bit 16 w" for w :: u32
    by (simp add: take_bit_eq_mask mask_eq_exp_minus_1)
  show "adler_pack a b AND 0xFFFF = word_of_nat a"
    unfolding p m using assms
    by (intro word_unat_eq_iff [THEN iffD2], simp only: unsigned_take_bit_eq)
      (simp add: unat_of_nat take_bit_eq_mod del: of_nat_add of_nat_mult)
  show "drop_bit 16 (adler_pack a b) AND 0xFFFF = word_of_nat b"
    unfolding p m using assms
    by (intro word_unat_eq_iff [THEN iffD2], simp only: unsigned_take_bit_eq unsigned_drop_bit_eq)
      (simp add: unat_of_nat take_bit_eq_mod drop_bit_eq_div del: of_nat_add of_nat_mult)
qed

text \<open>
  Adler-32 with its reduction once per block of 5552 bytes equals the definition of RFC 1950,
  reduced after every byte, on every input (no 32-bit sum wraps within a block), and updates
  compose: cutting the input anywhere gives the one-shot checksum.
\<close>

theorem adler32_correct:
  "mz_adler32 data = adler_reference data \<and>
   mz_adler32_final (mz_adler32_update (mz_adler32_update mz_adler32_init xs) ys) = mz_adler32 (xs @ ys)"
proof
  have one: "\<exists>a b. adler_blocks 1 0 p = (word_of_nat a, word_of_nat b) \<and>
      foldl adler_step (1, 0) p = (a, b) \<and> a < 65521 \<and> b < 65521" for p
    using adler_blocks_reference [of 1 0 p] by simp
  have eq: "mz_adler32 p = adler_reference p" for p
  proof -
    from one [of p] obtain a b where "adler_blocks 1 0 p = (word_of_nat a, word_of_nat b)"
      "foldl adler_step (1, 0) p = (a, b)" "a < 65521" "b < 65521" by blast
    then show ?thesis
      using adler_pack_parts(3) [of a b] by (simp add: mz_adler32_def adler_reference_def adler_pack_def)
  qed
  show "mz_adler32 data = adler_reference data" by (rule eq)
  have upd: "mz_adler32_update (adler_pack a b) p =
      (case foldl adler_step (a, b) p of (a', b') \<Rightarrow> adler_pack a' b') \<and>
      (case foldl adler_step (a, b) p of (a', b') \<Rightarrow> a' < 65521 \<and> b' < 65521)"
    if "a < 65521" "b < 65521" for a b p
    using adler_blocks_reference [of a b p] adler_pack_parts(1,2) [of a b] that
    by (auto simp: mz_adler32_update_def adler_pack_def [of a' b' for a' b', symmetric])
  have init: "mz_adler32_init = adler_pack 1 0" by (simp add: mz_adler32_init_def adler_pack_def)
  obtain a b where ab: "foldl adler_step (1, 0) xs = (a, b)" by fastforce
  obtain c d where cd: "foldl adler_step (a, b) ys = (c, d)" by fastforce
  have "mz_adler32_update mz_adler32_init xs = adler_pack a b" "a < 65521" "b < 65521"
    using upd [of 1 0 xs] ab by (auto simp: init)
  moreover from this have "mz_adler32_update (adler_pack a b) ys = adler_pack c d" "c < 65521" "d < 65521"
    using upd [of a b ys] cd by auto
  ultimately show "mz_adler32_final (mz_adler32_update (mz_adler32_update mz_adler32_init xs) ys) = mz_adler32 (xs @ ys)"
    using ab cd adler_pack_parts(3) [of c d] by (simp add: mz_adler32_final_def eq adler_reference_def)
qed

end
