(* ===== verification/Huf_Heap.thy ===== *)
theory Huf_Heap
  imports Bytes "HOL-Library.Multiset"
begin

text \<open>
  The binary min-heap of \<^verbatim>\<open>codec/mz_huf.c\<close> (\<^verbatim>\<open>heap_sift_up\<close>, \<^verbatim>\<open>heap_sift_down\<close>,
  \<^verbatim>\<open>heap_push\<close>, \<^verbatim>\<open>heap_pop\<close>), kept in an array whose live part is a list. The locale
  \<open>priority_queue\<close> is what the tree construction relies on; it is interpreted on the heap.
\<close>

section \<open>The interface\<close>

locale priority_queue =
  fixes push :: "'q \<Rightarrow> 'e \<Rightarrow> 'q"
    and pop :: "'q \<Rightarrow> 'e \<times> 'q"
    and key :: "'e \<Rightarrow> 'k::linorder"
    and content :: "'q \<Rightarrow> 'e multiset"
    and inv :: "'q \<Rightarrow> bool"
  assumes push: "inv q \<Longrightarrow> inv (push q e) \<and> content (push q e) = add_mset e (content q)"
    and pop: "inv q \<Longrightarrow> content q \<noteq> {#} \<Longrightarrow> pop q = (e, q') \<Longrightarrow>
      inv q' \<and> content q = add_mset e (content q') \<and> (\<forall>x\<in>#content q. key e \<le> key x)"
begin

text \<open>One round of a merge: take the two least elements, put a new one back.\<close>

lemma merge_round:
  assumes "inv q" "1 < size (content q)" "pop q = (a, q1)" "pop q1 = (b, q2)"
  shows "content q = content q2 + {#a, b#} \<and> inv (push q2 c) \<and>
    content (push q2 c) = add_mset c (content q2) \<and> key a \<le> key b \<and>
    (\<forall>x\<in>#content q2. key b \<le> key x)"
proof -
  have 1: "inv q1" "content q = add_mset a (content q1)" "\<forall>x\<in>#content q. key a \<le> key x"
    using pop [OF assms(1) _ assms(3)] assms(2) by fastforce+
  then have "content q1 \<noteq> {#}" using assms(2) by auto
  then have 2: "inv q2" "content q1 = add_mset b (content q2)" "\<forall>x\<in>#content q1. key b \<le> key x"
    using pop [OF 1(1) _ assms(4)] by auto
  with 1 push [OF 2(1)] show ?thesis by auto
qed

lemma merge_round_size:
  assumes "inv q" "1 < size (content q)" "pop q = (a, q1)" "pop q1 = (b, q2)"
  shows "size (content (push q2 c)) = size (content q) - 1"
  using merge_round [OF assms] by simp

end

section \<open>The heap in an array\<close>

record huf_heap =
  h_freq :: u32
  h_node :: int

definition swap_at :: "'a list \<Rightarrow> nat \<Rightarrow> nat \<Rightarrow> 'a list" where
  "swap_at xs i j = xs[i := xs ! j, j := xs ! i]"

function heap_sift_up :: "huf_heap list \<Rightarrow> nat \<Rightarrow> huf_heap list" where
  "heap_sift_up heap i =
     (if i > 0 then
        let p = (i - 1) div 2
        in if h_freq (heap ! p) \<le> h_freq (heap ! i) then heap
           else heap_sift_up (swap_at heap p i) p
      else heap)"
  by pat_completeness auto
termination
  by (relation "measure snd") auto

declare heap_sift_up.simps [simp del]

text \<open>The child to continue with, or the node itself.\<close>

definition heap_smallest :: "huf_heap list \<Rightarrow> nat \<Rightarrow> nat \<Rightarrow> nat" where
  "heap_smallest heap n i =
     (let l = 2 * i + 1; r = 2 * i + 2;
          s = (if l < n \<and> h_freq (heap ! l) < h_freq (heap ! i) then l else i)
      in if r < n \<and> h_freq (heap ! r) < h_freq (heap ! s) then r else s)"

function heap_sift_down :: "huf_heap list \<Rightarrow> nat \<Rightarrow> nat \<Rightarrow> huf_heap list" where
  "heap_sift_down heap n i =
     (let s = heap_smallest heap n i
      in if s = i then heap else heap_sift_down (swap_at heap i s) n s)"
  by pat_completeness auto
termination
  by (relation "measure (\<lambda>(heap, n, i). n - i)")
    (auto simp: heap_smallest_def Let_def split: if_splits)

declare heap_sift_down.simps [simp del]

text \<open>The array holds exactly the live entries; \<^verbatim>\<open>*n\<close> is the length of the list.\<close>

definition heap_push :: "huf_heap list \<Rightarrow> u32 \<Rightarrow> int \<Rightarrow> huf_heap list" where
  "heap_push heap freq node_idx =
     heap_sift_up (heap @ [\<lparr>h_freq = freq, h_node = node_idx\<rparr>]) (length heap)"

definition heap_pop :: "huf_heap list \<Rightarrow> huf_heap \<times> huf_heap list" where
  "heap_pop heap =
     (let n = length heap - 1; heap' = heap[0 := heap ! n]
      in (heap ! 0, heap_sift_down (take n heap') n 0))"

section \<open>The heap order\<close>

definition heap_ordered :: "huf_heap list \<Rightarrow> bool" where
  "heap_ordered h \<longleftrightarrow> (\<forall>j. 0 < j \<and> j < length h \<longrightarrow> h_freq (h ! ((j - 1) div 2)) \<le> h_freq (h ! j))"

text \<open>The order fails at most between \<open>i\<close> and its parent, or between \<open>i\<close> and its children.\<close>

definition up_hole :: "huf_heap list \<Rightarrow> nat \<Rightarrow> bool" where
  "up_hole h i \<longleftrightarrow>
     (\<forall>j. 0 < j \<and> j < length h \<and> j \<noteq> i \<longrightarrow> h_freq (h ! ((j - 1) div 2)) \<le> h_freq (h ! j)) \<and>
     (\<forall>j. 0 < j \<and> j < length h \<and> (j - 1) div 2 = i \<and> 0 < i \<longrightarrow>
        h_freq (h ! ((i - 1) div 2)) \<le> h_freq (h ! j))"

definition down_hole :: "huf_heap list \<Rightarrow> nat \<Rightarrow> bool" where
  "down_hole h i \<longleftrightarrow>
     (\<forall>j. 0 < j \<and> j < length h \<and> (j - 1) div 2 \<noteq> i \<longrightarrow>
        h_freq (h ! ((j - 1) div 2)) \<le> h_freq (h ! j)) \<and>
     (\<forall>j. 0 < j \<and> j < length h \<and> (j - 1) div 2 = i \<and> 0 < i \<longrightarrow>
        h_freq (h ! ((i - 1) div 2)) \<le> h_freq (h ! j))"

lemma length_swap_at [simp]: "length (swap_at xs i j) = length xs"
  by (simp add: swap_at_def)

lemma nth_swap_at:
  "i < length xs \<Longrightarrow> j < length xs \<Longrightarrow>
    swap_at xs i j ! k = (if k = j then xs ! i else if k = i then xs ! j else xs ! k)"
  by (auto simp: swap_at_def nth_list_update)

lemma mset_swap_at: "i < length xs \<Longrightarrow> j < length xs \<Longrightarrow> mset (swap_at xs i j) = mset xs"
  by (simp add: swap_at_def mset_swap)

lemma length_heap_sift_up [simp]: "length (heap_sift_up h i) = length h"
  by (induction h i rule: heap_sift_up.induct) (subst heap_sift_up.simps, simp add: Let_def)

lemma length_heap_sift_down [simp]: "length (heap_sift_down h n i) = length h"
  by (induction h n i rule: heap_sift_down.induct) (subst heap_sift_down.simps, simp add: Let_def)

lemma mset_heap_sift_up: "i < length h \<Longrightarrow> mset (heap_sift_up h i) = mset h"
proof (induction h i rule: heap_sift_up.induct)
  case (1 h i)
  then show ?case
    by (subst heap_sift_up.simps) (auto simp: Let_def mset_swap_at)
qed

lemma heap_smallest_less: "i < n \<Longrightarrow> heap_smallest h n i < n"
  by (auto simp: heap_smallest_def Let_def)

lemma mset_heap_sift_down: "n = length h \<Longrightarrow> i < n \<Longrightarrow> mset (heap_sift_down h n i) = mset h"
proof (induction h n i rule: heap_sift_down.induct)
  case (1 h n i)
  then show ?case
    using heap_smallest_less [of i n h]
    by (subst heap_sift_down.simps) (auto simp: Let_def mset_swap_at)
qed

lemma up_hole_step:
  assumes "up_hole h i" "0 < i" "i < length h" "\<not> h_freq (h ! ((i - 1) div 2)) \<le> h_freq (h ! i)"
  shows "up_hole (swap_at h ((i - 1) div 2) i) ((i - 1) div 2)"
proof -
  let ?p = "(i - 1) div 2"
  have p: "?p < i" "?p < length h" using assms by linarith+
  have lt: "h_freq (h ! i) \<le> h_freq (h ! ?p)" using assms by simp
  have above: "h_freq (h ! ((?p - 1) div 2)) \<le> h_freq (h ! ?p)" if "0 < ?p"
    using assms p that by (auto simp: up_hole_def)
  show ?thesis
    unfolding up_hole_def length_swap_at
  proof (intro conjI allI impI; elim conjE)
    fix j assume j: "0 < j" "j < length h" "j \<noteq> ?p"
    have ord: "h_freq (h ! ((j - 1) div 2)) \<le> h_freq (h ! j)" if "j \<noteq> i"
      using assms j that by (auto simp: up_hole_def)
    have down: "h_freq (h ! ?p) \<le> h_freq (h ! j)" if "(j - 1) div 2 = i"
      using assms j that by (auto simp: up_hole_def)
    show "h_freq (swap_at h ?p i ! ((j - 1) div 2)) \<le> h_freq (swap_at h ?p i ! j)"
      using ord down lt j p assms(3) by (auto simp: nth_swap_at intro: order_trans)
  next
    fix j assume j: "0 < j" "j < length h" "(j - 1) div 2 = ?p" "0 < ?p"
    have ord: "h_freq (h ! ?p) \<le> h_freq (h ! j)" if "j \<noteq> i"
      using assms j that by (auto simp: up_hole_def)
    show "h_freq (swap_at h ?p i ! ((?p - 1) div 2)) \<le> h_freq (swap_at h ?p i ! j)"
    proof -
      have q: "(?p - 1) div 2 < ?p" using j(4) by linarith
      then have "j \<noteq> ?p" using j(3) by auto
      with q have q: "(?p - 1) div 2 < ?p" "j \<noteq> ?p" by auto
      then have "swap_at h ?p i ! ((?p - 1) div 2) = h ! ((?p - 1) div 2)"
        using p assms(3) by (simp add: nth_swap_at)
      moreover have "swap_at h ?p i ! j = (if j = i then h ! ?p else h ! j)"
        using p assms(3) j q by (auto simp: nth_swap_at)
      ultimately show ?thesis
        using ord above [OF j(4)] order_trans [OF above [OF j(4)]] by auto
    qed
  qed
qed

lemma heap_ordered_sift_up: "up_hole h i \<Longrightarrow> i < length h \<Longrightarrow> heap_ordered (heap_sift_up h i)"
proof (induction h i rule: heap_sift_up.induct)
  case (1 h i)
  show ?case
  proof (cases "0 < i \<and> \<not> h_freq (h ! ((i - 1) div 2)) \<le> h_freq (h ! i)")
    case True
    then have "heap_ordered (heap_sift_up (swap_at h ((i - 1) div 2) i) ((i - 1) div 2))"
      using 1 up_hole_step [of h i] by auto
    then show ?thesis using True by (subst heap_sift_up.simps) (simp add: Let_def)
  next
    case False
    then have "heap_ordered h" using 1 unfolding heap_ordered_def up_hole_def by metis
    then show ?thesis using False by (subst heap_sift_up.simps) (auto simp: Let_def)
  qed
qed


lemma heap_smallest_cases:
  obtains (stay) "heap_smallest h n i = i"
      "2 * i + 1 < n \<longrightarrow> h_freq (h ! i) \<le> h_freq (h ! (2 * i + 1))"
      "2 * i + 2 < n \<longrightarrow> h_freq (h ! i) \<le> h_freq (h ! (2 * i + 2))"
    | (move) s where "heap_smallest h n i = s" "s < n" "0 < s" "(s - 1) div 2 = i" "i < s"
      "h_freq (h ! s) \<le> h_freq (h ! i)"
      "\<forall>j. 0 < j \<and> j < n \<and> (j - 1) div 2 = i \<longrightarrow> h_freq (h ! s) \<le> h_freq (h ! j)"
proof (cases "heap_smallest h n i = i")
  case True
  then show ?thesis
    by (intro stay) (auto simp: heap_smallest_def Let_def split: if_splits)
next
  case False
  let ?l = "2 * i + 1" and ?r = "2 * i + 2"
  have child: "j = ?l \<or> j = ?r" if "0 < j" "(j - 1) div 2 = i" for j
    using that by linarith
  consider (left) "heap_smallest h n i = ?l" "?l < n" "h_freq (h ! ?l) < h_freq (h ! i)"
      "?r < n \<Longrightarrow> h_freq (h ! ?l) \<le> h_freq (h ! ?r)"
    | (right) "heap_smallest h n i = ?r" "?r < n" "h_freq (h ! ?r) < h_freq (h ! i)"
      "h_freq (h ! ?r) \<le> h_freq (h ! ?l)"
    using False unfolding heap_smallest_def Let_def
    by (cases "?l < n \<and> h_freq (h ! ?l) < h_freq (h ! i)"; cases "?r < n") (force split: if_splits)+
  then show ?thesis
  proof cases
    case left
    show ?thesis
      by (rule move [of ?l]) (use left in \<open>auto dest!: child\<close>)
  next
    case right
    show ?thesis
      by (rule move [of ?r]) (use right in \<open>auto dest!: child\<close>)
  qed
qed

lemma down_hole_step:
  assumes "down_hole h i" "s < length h" "0 < s" "(s - 1) div 2 = i" "i < s"
    and "h_freq (h ! s) \<le> h_freq (h ! i)"
    and least: "\<forall>j. 0 < j \<and> j < length h \<and> (j - 1) div 2 = i \<longrightarrow> h_freq (h ! s) \<le> h_freq (h ! j)"
  shows "down_hole (swap_at h i s) s"
  unfolding down_hole_def length_swap_at
proof (intro conjI allI impI; elim conjE)
  fix j assume j: "0 < j" "j < length h" "(j - 1) div 2 \<noteq> s"
  have ord: "h_freq (h ! ((j - 1) div 2)) \<le> h_freq (h ! j)" if "(j - 1) div 2 \<noteq> i"
    using assms(1) j that by (auto simp: down_hole_def)
  have top: "h_freq (h ! ((i - 1) div 2)) \<le> h_freq (h ! s)" if "0 < i"
    using assms that by (auto simp: down_hole_def)
  have "j = s \<longleftrightarrow> (j = s \<and> (j - 1) div 2 = i)" using assms(4) by auto
  then show "h_freq (swap_at h i s ! ((j - 1) div 2)) \<le> h_freq (swap_at h i s ! j)"
    using assms j least ord top by (auto simp: nth_swap_at)
next
  fix j assume j: "0 < j" "j < length h" "(j - 1) div 2 = s"
  have "h_freq (h ! s) \<le> h_freq (h ! j)"
    using assms j by (auto simp: down_hole_def)
  moreover have "j \<noteq> s" "j \<noteq> i" using j assms(5) by linarith+
  ultimately show "h_freq (swap_at h i s ! ((s - 1) div 2)) \<le> h_freq (swap_at h i s ! j)"
    using assms(2-5) by (auto simp: nth_swap_at)
qed

lemma heap_ordered_sift_down:
  "down_hole h i \<Longrightarrow> n = length h \<Longrightarrow> i < n \<Longrightarrow> heap_ordered (heap_sift_down h n i)"
proof (induction h n i rule: heap_sift_down.induct)
  case (1 h n i)
  show ?case
  proof (cases rule: heap_smallest_cases [where h = h and n = n and i = i])
    case stay
    have "h_freq (h ! i) \<le> h_freq (h ! j)" if "0 < j" "j < n" "(j - 1) div 2 = i" for j
    proof -
      have "j = 2 * i + 1 \<or> j = 2 * i + 2" using that by linarith
      then show ?thesis using stay that by auto
    qed
    then have "heap_ordered h"
      using 1 unfolding heap_ordered_def down_hole_def by metis
    then show ?thesis using stay by (subst heap_sift_down.simps) simp
  next
    case (move s)
    then have "heap_ordered (heap_sift_down (swap_at h i s) n s)"
      using 1 by (intro 1) (auto intro!: down_hole_step)
    then show ?thesis using move by (subst heap_sift_down.simps) simp
  qed
qed

lemma heap_ordered_min: "heap_ordered h \<Longrightarrow> i < length h \<Longrightarrow> h_freq (h ! 0) \<le> h_freq (h ! i)"
proof (induction i rule: less_induct)
  case (less i)
  show ?case
  proof (cases "i = 0")
    case False
    then have "(i - 1) div 2 < i" by linarith
    with less have "h_freq (h ! 0) \<le> h_freq (h ! ((i - 1) div 2))" by simp
    also have "\<dots> \<le> h_freq (h ! i)" using less False by (auto simp: heap_ordered_def)
    finally show ?thesis .
  qed simp
qed

lemma heap_push_correct:
  "mset (heap_push h f v) = add_mset \<lparr>h_freq = f, h_node = v\<rparr> (mset h)"
  "heap_ordered h \<Longrightarrow> heap_ordered (heap_push h f v)"
proof -
  show "mset (heap_push h f v) = add_mset \<lparr>h_freq = f, h_node = v\<rparr> (mset h)"
    by (simp add: heap_push_def mset_heap_sift_up)
  assume ord: "heap_ordered h"
  have "up_hole (h @ [\<lparr>h_freq = f, h_node = v\<rparr>]) (length h)"
    unfolding up_hole_def
  proof (intro conjI allI impI; elim conjE)
    fix j assume j: "0 < j" "j < length (h @ [\<lparr>h_freq = f, h_node = v\<rparr>])" "j \<noteq> length h"
    then have "(j - 1) div 2 < length h" by simp
    with j ord show "h_freq ((h @ [\<lparr>h_freq = f, h_node = v\<rparr>]) ! ((j - 1) div 2)) \<le>
        h_freq ((h @ [\<lparr>h_freq = f, h_node = v\<rparr>]) ! j)"
      by (auto simp: heap_ordered_def nth_append)
  next
    fix j assume "0 < j" "j < length (h @ [\<lparr>h_freq = f, h_node = v\<rparr>])" "(j - 1) div 2 = length h"
    then have False by simp
    then show "h_freq ((h @ [\<lparr>h_freq = f, h_node = v\<rparr>]) ! ((length h - 1) div 2)) \<le>
        h_freq ((h @ [\<lparr>h_freq = f, h_node = v\<rparr>]) ! j)" ..
  qed
  then show "heap_ordered (heap_push h f v)"
    unfolding heap_push_def by (intro heap_ordered_sift_up) simp_all
qed

lemma heap_pop_correct:
  assumes "h \<noteq> []" "heap_ordered h" "heap_pop h = (m, h')"
  shows "mset h = add_mset m (mset h') \<and> heap_ordered h' \<and> (\<forall>x\<in>set h. h_freq m \<le> h_freq x)"
proof -
  define n where "n = length h - 1"
  have h: "length h = Suc n" using assms by (cases h) (simp_all add: n_def)
  let ?t = "take n (h[0 := h ! n])"
  have m: "m = h ! 0" and h': "h' = heap_sift_down ?t n 0"
    using assms(3) by (auto simp: heap_pop_def Let_def n_def)
  have min: "\<forall>x\<in>set h. h_freq m \<le> h_freq x"
    using heap_ordered_min [OF assms(2)] by (auto simp: m in_set_conv_nth)
  show ?thesis
  proof (cases "n = 0")
    case True
    then have "h = [h ! 0]" using h by (cases h) auto
    moreover have "h' = []"
      using h' True by (subst (asm) heap_sift_down.simps) (simp add: heap_smallest_def)
    ultimately show ?thesis using m min by (metis add_mset_add_single empty_neutral(1) heap_ordered_def
      list.size(3) mset.simps(1) mset.simps(2) not_less_zero)
  next
    case False
    have len: "length ?t = n" using h by simp
    have "h = h ! 0 # tl h" using h by (cases h) auto
    have split: "h = (h ! 0 # take (n - 1) (tl h)) @ [h ! n]"
      using h False by (cases h) (auto simp: nth_Cons' intro: nth_equalityI simp flip: take_Suc_nth)
    have "?t = h ! n # take (n - 1) (tl h)"
      using h False by (cases h; cases n) auto
    then have "mset h = add_mset m (mset ?t)"
      by (subst split) (simp add: m)
    moreover have "mset h' = mset ?t"
      unfolding h' using len False by (intro mset_heap_sift_down) auto
    moreover have "down_hole ?t 0"
      using assms(2) h False unfolding down_hole_def heap_ordered_def
      by (auto simp: nth_list_update)
    then have "heap_ordered h'"
      unfolding h' using len False by (intro heap_ordered_sift_down) auto
    ultimately show ?thesis using min by simp
  qed
qed

interpretation pq: priority_queue "\<lambda>h e. heap_push h (h_freq e) (h_node e)" heap_pop h_freq mset
    heap_ordered
proof (unfold_locales, goal_cases)
  case (1 q e)
  then show ?case using heap_push_correct [of q "h_freq e" "h_node e"] by simp
next
  case (2 q e q')
  then have "mset q = add_mset e (mset q') \<and> heap_ordered q' \<and> (\<forall>x\<in>set q. h_freq e \<le> h_freq x)"
    using heap_pop_correct [of q e q'] by simp
  then show ?case by simp (metis set_mset_add_mset_insert set_mset_mset insertI2)
qed

end
