(* ===== verification/Bitstream.thy ===== *)
theory Bitstream
  imports Bytes
begin

text \<open>
  Bit streams, most significant bit first: the meaning of a byte buffer as a list of bits, the
  writer \<^verbatim>\<open>struct bit_writer\<close> and the reader \<^verbatim>\<open>struct bit_reader\<close> of
  \<^verbatim>\<open>codec/mz_huf.c\<close>, and the contract \<open>bit_source\<close> that a decoder needs of a reader. The writer
  appends exactly the bits it is given; the reader yields exactly the bits of its buffer.
\<close>

section \<open>Bit lists, most significant bit first\<close>

definition word_bits :: "'a::len word \<Rightarrow> nat \<Rightarrow> bool list" where
  "word_bits w n = map (bit w) (rev [0..<n])"

definition byte_bits :: "u8 \<Rightarrow> bool list" where
  "byte_bits b = word_bits b 8"

definition stream_bits :: "bytes \<Rightarrow> bool list" where
  "stream_bits bs = concat (map byte_bits bs)"

definition msb_val :: "bool list \<Rightarrow> nat" where
  "msb_val bs = foldl (\<lambda>a b. 2 * a + of_bool b) 0 bs"

lemma length_word_bits [simp]: "length (word_bits w n) = n"
  by (simp add: word_bits_def)

lemma length_byte_bits [simp]: "length (byte_bits b) = 8"
  by (simp add: byte_bits_def)

lemma length_stream_bits [simp]: "length (stream_bits bs) = 8 * length bs"
  by (induction bs) (simp_all add: stream_bits_def)

lemma stream_bits_simps [simp]:
  "stream_bits [] = []" "stream_bits (b # bs) = byte_bits b @ stream_bits bs"
  "stream_bits (xs @ ys) = stream_bits xs @ stream_bits ys"
  by (simp_all add: stream_bits_def)

lemma word_bits_0 [simp]: "word_bits w 0 = []"
  by (simp add: word_bits_def)

lemma word_bits_Suc: "word_bits w (Suc n) = bit w n # word_bits w n"
  by (simp add: word_bits_def)

lemma nth_word_bits: "i < n \<Longrightarrow> word_bits w n ! i = bit w (n - Suc i)"
  by (simp add: word_bits_def rev_nth)

lemma word_bits_snoc: "word_bits w (Suc n) = word_bits (drop_bit 1 w) n @ [bit w 0]"
  by (rule nth_equalityI)
    (auto simp: nth_word_bits nth_append bit_drop_bit_eq Suc_diff_Suc less_Suc_eq)

lemma msb_val_Nil [simp]: "msb_val [] = 0"
  by (simp add: msb_val_def)

lemma msb_val_snoc: "msb_val (bs @ [b]) = 2 * msb_val bs + of_bool b"
  by (simp add: msb_val_def)

lemma msb_val_append: "msb_val (xs @ ys) = msb_val xs * 2 ^ length ys + msb_val ys"
proof (induction ys rule: rev_induct)
  case (snoc y ys)
  then show ?case
    by (simp add: msb_val_snoc algebra_simps flip: append_assoc)
qed simp

lemma msb_val_Cons: "msb_val (b # bs) = of_bool b * 2 ^ length bs + msb_val bs"
  using msb_val_append [of "[b]" bs] by (simp add: msb_val_def)

lemma msb_val_less: "msb_val bs < 2 ^ length bs"
  by (induction bs rule: rev_induct) (auto simp: msb_val_snoc)

lemma msb_val_word_bits: "msb_val (word_bits w n) = unat (take_bit n w)"
proof (induction n)
  case (Suc n)
  then show ?case
    by (simp add: word_bits_Suc msb_val_Cons unsigned_take_bit_eq take_bit_Suc_from_most
        bit_unsigned_iff) 
qed simp

lemma msb_val_inject:
  "length xs = length ys \<Longrightarrow> msb_val xs = msb_val ys \<longleftrightarrow> xs = ys"
proof (induction xs ys rule: list_induct2)
  case (Cons x xs y ys)
  then show ?case
    using msb_val_less [of xs] msb_val_less [of ys] by (auto simp: msb_val_Cons split: if_splits)
qed simp

definition nat_bits :: "nat \<Rightarrow> nat \<Rightarrow> bool list" where
  "nat_bits c n = map (bit c) (rev [0..<n])"

lemma length_nat_bits [simp]: "length (nat_bits c n) = n"
  by (simp add: nat_bits_def)

lemma nat_bits_Suc: "nat_bits c (Suc n) = bit c n # nat_bits c n"
  by (simp add: nat_bits_def)

lemma msb_val_nat_bits: "msb_val (nat_bits c n) = c mod 2 ^ n"
proof (induction n)
  case (Suc n)
  then show ?case
    by (simp only: nat_bits_Suc msb_val_Cons mod_pow2_Suc length_nat_bits)
qed (simp add: nat_bits_def)

lemma word_bits_unat: "word_bits w n = nat_bits (unat w) n"
  by (simp add: word_bits_def nat_bits_def bit_unsigned_iff)

lemma nat_bits_take: "k \<le> n \<Longrightarrow> take k (nat_bits c n) = nat_bits (c div 2 ^ (n - k)) k"
  by (rule nth_equalityI) (auto simp: nat_bits_def rev_nth bit_iff_odd simp flip: drop_bit_eq_div bit_drop_bit_eq)

lemma nat_bits_msb_val: "nat_bits (msb_val bs) (length bs) = bs"
  by (subst msb_val_inject [symmetric]) (simp_all add: msb_val_nat_bits msb_val_less)

lemma nat_bits_inject: "a < 2 ^ n \<Longrightarrow> b < 2 ^ n \<Longrightarrow> nat_bits a n = nat_bits b n \<longleftrightarrow> a = b"
  by (metis mod_less msb_val_nat_bits)


lemma nat_bits_zero: "nat_bits 0 n = replicate n False"
  by (rule nth_equalityI) (simp_all add: nat_bits_def)

section \<open>The writer of mz_huf.c\<close>

text \<open>
  \<open>bw_buf\<close> is the part of the caller's buffer that the writer has initialised: it clears a byte
  when it enters it.
\<close>

record bit_writer =
  bw_buf :: bytes
  bw_cap :: nat
  bw_byte_pos :: nat
  bw_bit_pos :: nat

definition bw_init :: "nat \<Rightarrow> bit_writer" where
  "bw_init cap =
     \<lparr>bw_buf = (if cap > 0 then [0] else []), bw_cap = cap, bw_byte_pos = 0, bw_bit_pos = 0\<rparr>"

definition bw_put :: "bit_writer \<Rightarrow> u32 \<Rightarrow> bit_writer" where
  "bw_put bw b =
     (let bw = bw\<lparr>bw_buf := (bw_buf bw)[bw_byte_pos bw :=
                   bw_buf bw ! bw_byte_pos bw OR ucast (push_bit (7 - bw_bit_pos bw) b)],
                  bw_bit_pos := bw_bit_pos bw + 1\<rparr>
      in if bw_bit_pos bw \<ge> 8 then
           let bw = bw\<lparr>bw_bit_pos := 0, bw_byte_pos := bw_byte_pos bw + 1\<rparr>
           in if bw_byte_pos bw < bw_cap bw then bw\<lparr>bw_buf := bw_buf bw @ [0]\<rparr> else bw
         else bw)"

fun bw_write_bits :: "bit_writer \<Rightarrow> u32 \<Rightarrow> nat \<Rightarrow> bit_writer option" where
  "bw_write_bits bw code 0 = Some bw"
| "bw_write_bits bw code (Suc i) =
     (if bw_byte_pos bw \<ge> bw_cap bw then None
      else bw_write_bits (bw_put bw (drop_bit i code AND 1)) code i)"

definition bw_bytes_used :: "bit_writer \<Rightarrow> nat" where
  "bw_bytes_used bw = bw_byte_pos bw + (if bw_bit_pos bw > 0 then 1 else 0)"

definition bw_pos :: "bit_writer \<Rightarrow> nat" where
  "bw_pos bw = 8 * bw_byte_pos bw + bw_bit_pos bw"

definition bw_good :: "bit_writer \<Rightarrow> bool" where
  "bw_good bw \<longleftrightarrow> bw_bit_pos bw < 8 \<and> bw_byte_pos bw \<le> bw_cap bw \<and>
     (bw_byte_pos bw = bw_cap bw \<longrightarrow> bw_bit_pos bw = 0) \<and>
     length (bw_buf bw) = (if bw_byte_pos bw < bw_cap bw then bw_byte_pos bw + 1 else bw_cap bw) \<and>
     (\<forall>i<length (stream_bits (bw_buf bw)). bw_pos bw \<le> i \<longrightarrow> \<not> stream_bits (bw_buf bw) ! i)"

text \<open>The bits written so far.\<close>

definition bw_bits :: "bit_writer \<Rightarrow> bool list" where
  "bw_bits bw = take (bw_pos bw) (stream_bits (bw_buf bw))"

lemma stream_bits_nth: "j < 8 \<Longrightarrow> i < length bs \<Longrightarrow> stream_bits bs ! (8 * i + j) = bit (bs ! i) (7 - j)"
proof (induction bs arbitrary: i)
  case (Cons b bs)
  then show ?case
    by (cases i) (simp_all add: nth_append byte_bits_def nth_word_bits)
qed simp

lemma bw_good_init: "bw_good (bw_init cap)" "bw_bits (bw_init cap) = []"
  by (auto simp: bw_good_def bw_init_def bw_bits_def bw_pos_def byte_bits_def nth_word_bits)

lemma bw_cap_put: "bw_cap (bw_put bw b) = bw_cap bw"
  by (simp add: bw_put_def Let_def)


lemma stream_bits_or_bit:
  assumes k: "k < length buf" and j: "j < 8"
  shows "stream_bits (buf[k := buf ! k OR ucast (push_bit (7 - j) (drop_bit i (code :: u32) AND 1))]) =
    (stream_bits buf)[8 * k + j := stream_bits buf ! (8 * k + j) \<or> bit code i]"
proof (rule nth_equalityI)
  fix n assume "n < length (stream_bits (buf[k := buf ! k OR
    ucast (push_bit (7 - j) (drop_bit i code AND 1))]))"
  then obtain q r where n: "n = 8 * q + r" "r < 8" "q < length buf"
    by (intro that [of "n div 8" "n mod 8"]) auto
  have same: "8 * q + r = 8 * k + j \<longleftrightarrow> q = k \<and> r = j"
    using n j by (auto dest: arg_cong [where f = "\<lambda>x. x div 8"] arg_cong [where f = "\<lambda>x. x mod 8"])
  have one: "bit (ucast (push_bit (7 - j) (drop_bit i code AND 1)) :: u8) (7 - r) \<longleftrightarrow>
      r = j \<and> bit code i"
    using n j by (auto simp: bit_simps and_one_eq bit_1_iff bit_iff_odd_drop_bit [of code])
  show "stream_bits (buf[k := buf ! k OR ucast (push_bit (7 - j) (drop_bit i code AND 1))]) ! n =
      (stream_bits buf)[8 * k + j := stream_bits buf ! (8 * k + j) \<or> bit code i] ! n"
    using n k j one by (auto simp: nth_list_update same stream_bits_nth bit_or_iff)
qed simp

lemma bw_put_bits:
  assumes "bw_good bw" "bw_byte_pos bw < bw_cap bw"
  shows "bw_good (bw_put bw (drop_bit i code AND 1)) \<and>
    bw_bits (bw_put bw (drop_bit i code AND 1)) = bw_bits bw @ [bit code i]"
proof -
  let ?buf = "(bw_buf bw)[bw_byte_pos bw := bw_buf bw ! bw_byte_pos bw OR
      ucast (push_bit (7 - bw_bit_pos bw) (drop_bit i code AND 1))]"
  let ?p = "bw_pos bw"
  have len: "bw_byte_pos bw < length (bw_buf bw)" and pos: "bw_bit_pos bw < 8"
    and clear: "\<And>i. i < length (stream_bits (bw_buf bw)) \<Longrightarrow> ?p \<le> i \<Longrightarrow> \<not> stream_bits (bw_buf bw) ! i"
    using assms by (auto simp: bw_good_def)
  have p: "?p < length (stream_bits (bw_buf bw))"
    using len pos by (simp add: bw_pos_def)
  have buf: "stream_bits ?buf = (stream_bits (bw_buf bw))[?p := bit code i]"
    using clear [of ?p] p stream_bits_or_bit [OF len pos] by (simp add: bw_pos_def)
  have take: "take (Suc ?p) (stream_bits ?buf) = bw_bits bw @ [bit code i]"
    using p by (simp only: buf bw_bits_def) (simp add: take_Suc_nth)
  have later: "\<not> stream_bits ?buf ! m" if "m < length (stream_bits (bw_buf bw))" "Suc ?p \<le> m" for m
    using that clear [of m] by (simp only: buf) simp
  show ?thesis
  proof (cases "bw_bit_pos bw = 7")
    case True
    have zero: "\<not> stream_bits [0] ! j" if "j < 8" for j
      using that by (simp add: byte_bits_def nth_word_bits)
    from True assms p take later show ?thesis
      by (auto simp: bw_put_def Let_def bw_good_def bw_pos_def bw_bits_def nth_append zero
          less_Suc_eq_le simp del: stream_bits_simps(2))
  next
    case False
    with pos assms take later show ?thesis
      by (auto simp: bw_put_def Let_def bw_good_def bw_pos_def bw_bits_def)
  qed
qed

lemma bw_write_bits_correct:
  "bw_good bw \<Longrightarrow> bw_write_bits bw code n = Some bw' \<Longrightarrow>
    bw_good bw' \<and> bw_bits bw' = bw_bits bw @ word_bits code n \<and> bw_cap bw' = bw_cap bw"
proof (induction n arbitrary: bw)
  case (Suc i)
  then show ?case
    using bw_put_bits [of bw i code] by (auto simp: word_bits_Suc bw_cap_put split: if_splits)
qed simp

lemma bw_write_bits_space:
  "bw_good bw \<Longrightarrow> bw_pos bw + n \<le> 8 * bw_cap bw \<Longrightarrow> \<exists>bw'. bw_write_bits bw code n = Some bw'"
proof (induction n arbitrary: bw)
  case (Suc i)
  have "bw_byte_pos bw < bw_cap bw" using Suc.prems by (auto simp: bw_pos_def bw_good_def)
  moreover have "bw_pos (bw_put bw b) = Suc (bw_pos bw)" for b
    using Suc.prems by (auto simp: bw_put_def Let_def bw_pos_def bw_good_def)
  ultimately show ?case
    using Suc bw_put_bits [of bw i code] by (auto simp: bw_cap_put)
qed simp

text \<open>What the caller keeps: the used bytes, the written bits followed by zero padding.\<close>

definition bw_result :: "bit_writer \<Rightarrow> bytes" where
  "bw_result bw = take (bw_bytes_used bw) (bw_buf bw)"

lemma stream_bits_take: "stream_bits (take n bs) = take (8 * n) (stream_bits bs)"
  by (induction bs arbitrary: n) (auto simp: take_Cons split: nat.split)

lemma bw_result_bits:
  assumes "bw_good bw"
  shows "\<exists>pad. stream_bits (bw_result bw) = bw_bits bw @ replicate pad False \<and> pad < 8 \<and>
    length (bw_result bw) = bw_bytes_used bw"
proof -
  have used: "bw_bytes_used bw \<le> length (bw_buf bw)" "bw_pos bw \<le> 8 * bw_bytes_used bw"
    "8 * bw_bytes_used bw < bw_pos bw + 8"
    using assms by (auto simp: bw_bytes_used_def bw_good_def bw_pos_def)
  have "stream_bits (bw_result bw) = take (8 * bw_bytes_used bw) (stream_bits (bw_buf bw))"
    by (simp add: bw_result_def stream_bits_take)
  also have "\<dots> = bw_bits bw @ take (8 * bw_bytes_used bw - bw_pos bw) (drop (bw_pos bw) (stream_bits (bw_buf bw)))"
    using used by (simp add: bw_bits_def flip: take_plus)
  also have "take (8 * bw_bytes_used bw - bw_pos bw) (drop (bw_pos bw) (stream_bits (bw_buf bw))) =
      replicate (8 * bw_bytes_used bw - bw_pos bw) False"
    using assms used by (intro nth_equalityI) (auto simp: bw_good_def)
  finally show ?thesis
    using used by (auto simp: bw_result_def)
qed

section \<open>What a decoder needs of a bit reader\<close>

locale bit_source =
  fixes fill :: "'s \<Rightarrow> nat \<Rightarrow> bool \<times> 's"
    and peek :: "'s \<Rightarrow> nat \<Rightarrow> nat"
    and consume :: "'s \<Rightarrow> nat \<Rightarrow> 's"
    and bits :: "'s \<Rightarrow> bool list"
    and avail :: "'s \<Rightarrow> nat"
    and good :: "'s \<Rightarrow> bool"
    and request :: nat
  assumes fill: "good s \<Longrightarrow> n \<le> request \<Longrightarrow> fill s n = (ok, s') \<Longrightarrow>
      good s' \<and> bits s' = bits s \<and> (ok \<longleftrightarrow> n \<le> length (bits s)) \<and> (ok \<longrightarrow> n \<le> avail s')"
    and peek: "good s \<Longrightarrow> n \<le> avail s \<Longrightarrow> peek s n = msb_val (take n (bits s))"
    and consume: "good s \<Longrightarrow> n \<le> avail s \<Longrightarrow>
      good (consume s n) \<and> bits (consume s n) = drop n (bits s)"
begin

lemma fill_fst: "good s \<Longrightarrow> n \<le> request \<Longrightarrow> fst (fill s n) \<longleftrightarrow> n \<le> length (bits s)"
  using fill [of s n] by (cases "fill s n") auto

lemma fill_snd: "good s \<Longrightarrow> n \<le> request \<Longrightarrow> good (snd (fill s n)) \<and> bits (snd (fill s n)) = bits s"
  using fill [of s n] by (cases "fill s n") auto

lemma fill_avail: "good s \<Longrightarrow> n \<le> request \<Longrightarrow> n \<le> length (bits s) \<Longrightarrow> n \<le> avail (snd (fill s n))"
  using fill [of s n] by (cases "fill s n") auto

text \<open>Reading a single bit takes the head of the stream.\<close>

lemma next_bit:
  assumes "good s" "1 \<le> request" "bits s = b # rest"
  shows "fst (fill s 1)" "peek (snd (fill s 1)) 1 = of_bool b"
    "good (consume (snd (fill s 1)) 1)" "bits (consume (snd (fill s 1)) 1) = rest"
proof -
  let ?s = "snd (fill s 1)"
  have s: "good ?s" "bits ?s = b # rest" "1 \<le> avail ?s"
    using fill_snd [OF assms(1,2)] fill_avail [OF assms(1,2)] assms(3) by auto
  show "fst (fill s 1)"
    using fill_fst [OF assms(1,2)] assms(3) by simp
  show "peek ?s 1 = of_bool b"
    using peek [OF s(1,3)] s(2) by (simp add: msb_val_def)
  show "good (consume ?s 1)" "bits (consume ?s 1) = rest"
    using consume [OF s(1,3)] s(2) by simp_all
qed

lemma next_bit_eof:
  assumes "good s" "1 \<le> request" "bits s = []"
  shows "\<not> fst (fill s 1)"
  using fill_fst [OF assms(1,2)] assms(3) by simp

text \<open>Looking \<open>n\<close> bits ahead and consuming a code word that is a prefix of the stream.\<close>

lemma lookahead:
  assumes "good s" "n \<le> request" "bits s = w @ rest" "length w \<le> n" "n \<le> length (bits s)"
  shows "peek (snd (fill s n)) n = msb_val (w @ take (n - length w) rest)"
    and "good (consume (snd (fill s n)) (length w))"
    and "bits (consume (snd (fill s n)) (length w)) = rest"
proof -
  let ?s = "snd (fill s n)"
  have s: "good ?s" "bits ?s = w @ rest" "n \<le> avail ?s"
    using fill_snd [OF assms(1,2)] fill_avail [OF assms(1,2)] assms(3,5) by auto
  show "peek ?s n = msb_val (w @ take (n - length w) rest)"
    using peek [OF s(1,3)] s(2) assms(4) by simp
  show "good (consume ?s (length w))" "bits (consume ?s (length w)) = rest"
    using consume [OF s(1), of "length w"] s assms(4) by simp_all
qed

end

section \<open>The reader of mz_huf.c\<close>

record bit_reader =
  br_buf :: bytes
  br_byte_pos :: nat
  br_hold :: u32
  br_hold_bits :: nat

definition br_init :: "bytes \<Rightarrow> bit_reader" where
  "br_init buf = \<lparr>br_buf = buf, br_byte_pos = 0, br_hold = 0, br_hold_bits = 0\<rparr>"

function br_fill :: "bit_reader \<Rightarrow> nat \<Rightarrow> bool \<times> bit_reader" where
  "br_fill br n =
     (if br_hold_bits br < n then
        if br_byte_pos br \<ge> length (br_buf br) then (False, br)
        else br_fill (br\<lparr>br_hold := push_bit 8 (br_hold br) OR ucast (br_buf br ! br_byte_pos br),
                         br_hold_bits := br_hold_bits br + 8,
                         br_byte_pos := br_byte_pos br + 1\<rparr>) n
      else (True, br))"
  by pat_completeness auto
termination
  by (relation "measure (\<lambda>(br, n). length (br_buf br) - br_byte_pos br)") auto

declare br_fill.simps [simp del]

definition br_peek :: "bit_reader \<Rightarrow> nat \<Rightarrow> u32" where
  "br_peek br n = drop_bit (br_hold_bits br - n) (br_hold br)"

definition br_consume :: "bit_reader \<Rightarrow> nat \<Rightarrow> bit_reader" where
  "br_consume br n =
     (let hb = br_hold_bits br - n
      in br\<lparr>br_hold_bits := hb, br_hold := br_hold br AND (push_bit hb 1 - 1)\<rparr>)"

definition br_bits :: "bit_reader \<Rightarrow> bool list" where
  "br_bits br = word_bits (br_hold br) (br_hold_bits br) @ stream_bits (drop (br_byte_pos br) (br_buf br))"

definition br_good :: "bit_reader \<Rightarrow> bool" where
  "br_good br \<longleftrightarrow> br_hold_bits br \<le> 24 \<and> br_hold br = take_bit (br_hold_bits br) (br_hold br)"

lemma br_good_init: "br_good (br_init buf)" "br_bits (br_init buf) = stream_bits buf"
  by (simp_all add: br_good_def br_init_def br_bits_def)

lemma word_bits_push:
  assumes "n + 8 \<le> 32"
  shows "word_bits (push_bit 8 (h :: u32) OR ucast (b :: u8)) (n + 8) = word_bits h n @ byte_bits b"
proof (rule nth_equalityI)
  fix i assume "i < length (word_bits (push_bit 8 h OR ucast b) (n + 8))"
  then show "word_bits (push_bit 8 h OR ucast b) (n + 8) ! i = (word_bits h n @ byte_bits b) ! i"
    using assms
    by (auto simp: nth_word_bits nth_append byte_bits_def bit_or_iff bit_push_bit_iff bit_unsigned_iff
        Suc_diff_le dest: bit_u8_len)
qed simp

lemma br_fill_correct:
  "br_good br \<Longrightarrow> n \<le> 17 \<Longrightarrow> br_fill br n = (ok, br') \<Longrightarrow>
    br_good br' \<and> br_bits br' = br_bits br \<and> (ok \<longleftrightarrow> n \<le> length (br_bits br)) \<and>
    (ok \<longrightarrow> n \<le> br_hold_bits br')"
proof (induction br n rule: br_fill.induct)
  case (1 br n)
  show ?case
  proof (cases "br_hold_bits br < n \<and> br_byte_pos br < length (br_buf br)")
    case True
    let ?br = "br\<lparr>br_hold := push_bit 8 (br_hold br) OR ucast (br_buf br ! br_byte_pos br),
                  br_hold_bits := br_hold_bits br + 8, br_byte_pos := br_byte_pos br + 1\<rparr>"
    have "drop (br_byte_pos br) (br_buf br) =
        br_buf br ! br_byte_pos br # drop (Suc (br_byte_pos br)) (br_buf br)"
      using True by (simp add: nth_drop_Cons)
    then have bits: "br_bits ?br = br_bits br"
      using True 1 word_bits_push [of "br_hold_bits br"] by (simp add: br_bits_def)
    have "br_hold ?br = take_bit (br_hold_bits ?br) (br_hold ?br)"
    proof (rule bit_word_eqI)
      fix i assume "i < LENGTH(32)"
      have "br_hold br = take_bit (br_hold_bits br) (br_hold br)" using 1 by (simp add: br_good_def)
      then have "bit (br_hold br) j \<Longrightarrow> j < br_hold_bits br" for j
        by (metis bit_take_bit_iff)
      from this [of "i - 8"] show "bit (br_hold ?br) i = bit (take_bit (br_hold_bits ?br) (br_hold ?br)) i"
        using bit_u8_len [of "br_buf br ! br_byte_pos br" i]
        by (auto simp: bit_take_bit_iff bit_or_iff bit_push_bit_iff bit_unsigned_iff)
    qed
    then have "br_good ?br" using 1 True by (auto simp: br_good_def)
    moreover have "br_fill br n = br_fill ?br n"
      using True by (simp add: br_fill.simps [of br])
    ultimately show ?thesis using 1 True bits by simp
  next
    case False
    then show ?thesis using 1 by (auto simp: br_fill.simps [of br n] br_bits_def split: if_splits)
  qed
qed

lemma br_peek_correct:
  assumes "br_good br" "n \<le> br_hold_bits br"
  shows "unat (br_peek br n) = msb_val (take n (br_bits br))"
proof -
  let ?h = "br_hold_bits br"
  have "take n (br_bits br) = word_bits (drop_bit (?h - n) (br_hold br)) n"
    using assms by (intro nth_equalityI) (auto simp: br_bits_def nth_append nth_word_bits bit_drop_bit_eq)
  moreover have "take_bit n (drop_bit (?h - n) (br_hold br)) = drop_bit (?h - n) (br_hold br)"
  proof -
    have "take_bit n (drop_bit (?h - n) (br_hold br)) = drop_bit (?h - n) (take_bit ?h (br_hold br))"
      using assms by (simp add: drop_bit_take_bit)
    then show ?thesis using assms by (simp add: br_good_def)
  qed
  ultimately show ?thesis by (simp add: br_peek_def msb_val_word_bits)
qed

lemma br_consume_correct:
  assumes "br_good br" "n \<le> br_hold_bits br"
  shows "br_good (br_consume br n) \<and> br_bits (br_consume br n) = drop n (br_bits br)"
proof -
  let ?h = "br_hold_bits br - n"
  have mask: "x AND (push_bit ?h 1 - 1) = take_bit ?h x" for x :: u32
    by (simp add: take_bit_eq_mask mask_eq_exp_minus_1 push_bit_of_1)
  have "br_consume br n = br\<lparr>br_hold_bits := ?h, br_hold := take_bit ?h (br_hold br)\<rparr>"
    by (simp only: br_consume_def Let_def mask)
  moreover
  have "word_bits (take_bit ?h (br_hold br)) ?h = drop n (word_bits (br_hold br) (br_hold_bits br))"
    using assms by (intro nth_equalityI) (auto simp: nth_word_bits bit_take_bit_iff)
  ultimately show ?thesis
    using assms by (auto simp: br_good_def br_bits_def)
qed

interpretation br: bit_source br_fill "\<lambda>br n. unat (br_peek br n)" br_consume br_bits
    br_hold_bits br_good 17
  by unfold_locales (use br_fill_correct br_peek_correct br_consume_correct in blast)+

end
