(* ===== verification/Prefix_Code.thy ===== *)
theory Prefix_Code
  imports Bitstream "HOL-Library.Sublist"
begin

text \<open>
  Canonical prefix codes, the mathematics shared by the Huffman coder (\<^verbatim>\<open>codec/mz_huf.c\<close>) and
  the DEFLATE decoder. A list of code lengths in increasing order determines the codes: each is the
  successor of the previous one, shifted to its length. When the Kraft sum of the lengths fits,
  no code overflows its length and no code word is a prefix of another; when it is full, every bit
  string starts with a code word, and the tree of all prefixes has twice as many nodes as leaves,
  less one.
\<close>

section \<open>Codes from lengths\<close>

fun canon_codes :: "nat \<Rightarrow> nat \<Rightarrow> nat list \<Rightarrow> nat list" where
  "canon_codes code prev [] = []"
| "canon_codes code prev (len # lens) =
     (let c = code * 2 ^ (len - prev) in c # canon_codes (c + 1) len lens)"

definition kraft :: "nat \<Rightarrow> nat list \<Rightarrow> nat" where
  "kraft L lens = sum_list (map (\<lambda>l. 2 ^ (L - l)) lens)"

definition code_words :: "nat list \<Rightarrow> bool list list" where
  "code_words lens = map2 nat_bits (canon_codes 0 0 lens) lens"

lemma length_canon_codes [simp]: "length (canon_codes code prev lens) = length lens"
  by (induction lens arbitrary: code prev) (simp_all add: Let_def)

lemma length_code_words [simp]: "length (code_words lens) = length lens"
  by (simp add: code_words_def)

lemma kraft_simps [simp]:
  "kraft L [] = 0" "kraft L (l # ls) = 2 ^ (L - l) + kraft L ls"
  "kraft L (xs @ ys) = kraft L xs + kraft L ys"
  by (simp_all add: kraft_def)

lemma kraft_take_le: "i \<le> j \<Longrightarrow> kraft L (take i ls) \<le> kraft L (take j ls)"
  using take_plus [of i "j - i" ls] by simp

lemma kraft_take_Suc: "k < length ls \<Longrightarrow> kraft L (take (Suc k) ls) = kraft L (take k ls) + 2 ^ (L - ls ! k)"
  by (simp add: take_Suc_nth)

text \<open>The position of each code on the scale of the longest code length.\<close>

lemma canon_codes_position:
  assumes "sorted_wrt (\<le>) (prev # lens)" "\<forall>l\<in>set lens. l \<le> L" "prev \<le> L" "k < length lens"
  shows "canon_codes code prev lens ! k * 2 ^ (L - lens ! k) =
    code * 2 ^ (L - prev) + kraft L (take k lens)"
  using assms
proof (induction lens arbitrary: code prev k)
  case (Cons len lens)
  let ?c = "code * 2 ^ (len - prev)"
  have c: "?c * 2 ^ (L - len) = code * 2 ^ (L - prev)"
    using Cons.prems by (simp add: mult.assoc flip: power_add)
  show ?case
  proof (cases k)
    case 0
    then show ?thesis using c by (simp add: Let_def)
  next
    case (Suc m)
    have "canon_codes (?c + 1) len lens ! m * 2 ^ (L - lens ! m) =
        (?c + 1) * 2 ^ (L - len) + kraft L (take m lens)"
      using Cons.prems Suc by (intro Cons.IH) auto
    also have "(?c + 1) * 2 ^ (L - len) = code * 2 ^ (L - prev) + 2 ^ (L - len)"
      by (simp add: distrib_right c)
    finally show ?thesis
      using Suc by (simp add: Let_def)
  qed
qed simp

text \<open>Prefixes as intervals: a word of length \<open>n\<close> covers \<open>2 ^ (L - n)\<close> values of length \<open>L\<close>.\<close>

lemma prefix_iff_val:
  "length w \<le> length v \<Longrightarrow> prefix w v \<longleftrightarrow> msb_val v div 2 ^ (length v - length w) = msb_val w"
proof -
  assume len: "length w \<le> length v"
  define u r where "u = take (length w) v" and "r = drop (length w) v"
  have v: "v = u @ r" "length u = length w" "length r = length v - length w"
    using len by (simp_all add: u_def r_def)
  have "msb_val v div 2 ^ length r = msb_val u"
    using msb_val_less [of r] by (simp add: v(1) msb_val_append)
  then have "msb_val v div 2 ^ (length v - length w) = msb_val w \<longleftrightarrow> u = w"
    using v(2) by (simp add: msb_val_inject flip: v(3))
  also have "\<dots> \<longleftrightarrow> prefix w v"
    using len by (auto simp: u_def prefix_def) (metis append_take_drop_id)
  finally show ?thesis by simp
qed

lemma prefix_iff_interval:
  assumes "length w \<le> length v" "length v \<le> L"
  shows "prefix w v \<longleftrightarrow> msb_val w * 2 ^ (L - length w) \<le> msb_val v * 2 ^ (L - length v) \<and>
    msb_val v * 2 ^ (L - length v) < msb_val w * 2 ^ (L - length w) + 2 ^ (L - length w)"
proof -
  let ?d = "length v - length w" and ?e = "L - length v"
  have split: "(2 :: nat) ^ (L - length w) = 2 ^ ?d * 2 ^ ?e"
    using assms by (simp flip: power_add)
  have "prefix w v \<longleftrightarrow> msb_val w * 2 ^ ?d \<le> msb_val v \<and> msb_val v < (msb_val w + 1) * 2 ^ ?d"
  proof -
    have pos: "(0 :: nat) < 2 ^ ?d" by simp
    have "msb_val v div 2 ^ ?d = msb_val w \<longleftrightarrow>
        msb_val w \<le> msb_val v div 2 ^ ?d \<and> msb_val v div 2 ^ ?d < msb_val w + 1"
      by auto
    then show ?thesis
      by (simp only: prefix_iff_val [OF assms(1)] less_eq_div_iff_mult_less_eq [OF pos]
          div_less_iff_less_mult [OF pos])
  qed
  also have "\<dots> \<longleftrightarrow> msb_val w * 2 ^ ?d * 2 ^ ?e \<le> msb_val v * 2 ^ ?e \<and>
      msb_val v * 2 ^ ?e < (msb_val w + 1) * 2 ^ ?d * 2 ^ ?e"
    by simp
  finally show ?thesis by (simp add: split algebra_simps)
qed


section \<open>Canonical codes are prefix free and, when the Kraft sum is full, complete\<close>

definition lens_ok :: "nat \<Rightarrow> nat list \<Rightarrow> bool" where
  "lens_ok L lens \<longleftrightarrow> sorted lens \<and> (\<forall>l\<in>set lens. l \<le> L) \<and> kraft L lens \<le> 2 ^ L"

lemma canon_code_position:
  "lens_ok L lens \<Longrightarrow> k < length lens \<Longrightarrow>
    canon_codes 0 0 lens ! k * 2 ^ (L - lens ! k) = kraft L (take k lens)"
  using canon_codes_position [of 0 lens L k 0] by (auto simp: lens_ok_def)

lemma canon_code_less:
  assumes "lens_ok L lens" "k < length lens"
  shows "canon_codes 0 0 lens ! k < 2 ^ (lens ! k)"
proof -
  have "lens ! k \<le> L" using assms by (auto simp: lens_ok_def)
  have "kraft L (take (Suc k) lens) \<le> kraft L (take (length lens) lens)"
    using assms by (intro kraft_take_le) simp
  then have "kraft L (take k lens) + 2 ^ (L - lens ! k) \<le> 2 ^ L"
    using assms by (simp add: kraft_take_Suc lens_ok_def)
  then have "(canon_codes 0 0 lens ! k + 1) * 2 ^ (L - lens ! k) \<le> 2 ^ lens ! k * 2 ^ (L - lens ! k)"
    using canon_code_position [OF assms] \<open>lens ! k \<le> L\<close> by (simp add: algebra_simps flip: power_add)
  then show ?thesis by (simp only: mult_le_cancel2) simp
qed

lemma nth_code_words:
  "k < length lens \<Longrightarrow> code_words lens ! k = nat_bits (canon_codes 0 0 lens ! k) (lens ! k)"
  by (simp add: code_words_def)

lemma code_word_length: "k < length lens \<Longrightarrow> length (code_words lens ! k) = lens ! k"
  by (simp add: nth_code_words)

lemma code_word_interval:
  assumes "lens_ok L lens" "k < length lens"
  shows "msb_val (code_words lens ! k) * 2 ^ (L - length (code_words lens ! k)) = kraft L (take k lens)"
  using canon_code_position [OF assms] canon_code_less [OF assms] assms
  by (simp add: nth_code_words msb_val_nat_bits)

lemma code_words_less_not_prefix:
  assumes ok: "lens_ok L lens" and ij: "i < j" "j < length lens"
  shows "\<not> prefix (code_words lens ! i) (code_words lens ! j)"
proof -
  have le: "lens ! i \<le> lens ! j" "lens ! j \<le> L"
    using ok ij by (auto simp: lens_ok_def sorted_iff_nth_mono)
  have "kraft L (take i lens) + 2 ^ (L - lens ! i) \<le> kraft L (take j lens)"
    using kraft_take_le [of "Suc i" j L lens] ij by (simp add: kraft_take_Suc)
  then show ?thesis
    using prefix_iff_interval [of "code_words lens ! i" "code_words lens ! j" L] le ij
      code_word_interval [OF ok] by (simp add: code_word_length)
qed

lemma code_words_prefix_free:
  assumes ok: "lens_ok L lens" and ij: "i \<noteq> j" "i < length lens" "j < length lens"
  shows "\<not> prefix (code_words lens ! i) (code_words lens ! j)"
proof (cases "i < j")
  case True
  then show ?thesis using code_words_less_not_prefix [OF ok] ij by simp
next
  case False
  with ij have "j < i" by simp
  then have le: "lens ! j \<le> lens ! i" using ok ij by (auto simp: lens_ok_def sorted_iff_nth_mono)
  show ?thesis
  proof
    assume p: "prefix (code_words lens ! i) (code_words lens ! j)"
    then have "lens ! i \<le> lens ! j" using ij by (auto simp: code_word_length dest!: prefix_length_le)
    from p obtain zs where zs: "code_words lens ! j = code_words lens ! i @ zs"
      by (auto simp: prefix_def)
    with le \<open>lens ! i \<le> lens ! j\<close> ij have "zs = []"
      using code_word_length [OF ij(2)] code_word_length [OF ij(3)] zs by simp
    with zs have "code_words lens ! i = code_words lens ! j" by simp
    then show False using code_words_less_not_prefix [OF ok \<open>j < i\<close> ij(2)] by simp
  qed
qed

lemma distinct_code_words: "lens_ok L lens \<Longrightarrow> distinct (code_words lens)"
  using code_words_prefix_free by (fastforce simp: distinct_conv_nth)

lemma kraft_locate:
  "x < kraft L lens \<Longrightarrow> \<exists>k<length lens. kraft L (take k lens) \<le> x \<and> x < kraft L (take (Suc k) lens)"
proof (induction lens rule: rev_induct)
  case (snoc l lens)
  show ?case
  proof (cases "x < kraft L lens")
    case True
    with snoc.IH obtain k where "k < length lens" "kraft L (take k lens) \<le> x"
      "x < kraft L (take (Suc k) lens)" by blast
    then show ?thesis by (intro exI [of _ k]) simp
  next
    case False
    with snoc.prems show ?thesis by (intro exI [of _ "length lens"]) simp
  qed
qed simp

lemma code_words_complete:
  assumes ok: "lens_ok L lens" and full: "kraft L lens = 2 ^ L" and len: "length v = L"
  shows "\<exists>k<length lens. prefix (code_words lens ! k) v"
proof -
  have "msb_val v < kraft L lens" using msb_val_less [of v] full len by simp
  then obtain k where k: "k < length lens" "kraft L (take k lens) \<le> msb_val v"
      "msb_val v < kraft L (take (Suc k) lens)"
    using kraft_locate by blast
  have "lens ! k \<le> L" using ok k by (auto simp: lens_ok_def)
  then have "prefix (code_words lens ! k) v"
    using prefix_iff_interval [of "code_words lens ! k" v L] code_word_interval [OF ok k(1)] k len
    by (simp add: code_word_length kraft_take_Suc)
  with k show ?thesis by blast
qed


section \<open>The nodes of a code tree\<close>

text \<open>The addresses of the nodes: all prefixes of the code words, inner nodes the proper ones.\<close>

definition code_prefixes :: "bool list set \<Rightarrow> bool list set" where
  "code_prefixes W = {p. \<exists>w\<in>W. prefix p w}"

definition inner_prefixes :: "bool list set \<Rightarrow> bool list set" where
  "inner_prefixes W = {p. \<exists>w\<in>W. strict_prefix p w}"

lemma finite_code_prefixes: "finite W \<Longrightarrow> finite (code_prefixes W)"
proof -
  assume "finite W"
  moreover have "code_prefixes W = (\<Union>w\<in>W. set (prefixes w))"
    by (auto simp: code_prefixes_def)
  ultimately show ?thesis by simp
qed

definition prefix_free :: "bool list set \<Rightarrow> bool" where
  "prefix_free W \<longleftrightarrow> (\<forall>u\<in>W. \<forall>v\<in>W. prefix u v \<longrightarrow> u = v)"

definition complete_code :: "nat \<Rightarrow> bool list set \<Rightarrow> bool" where
  "complete_code L W \<longleftrightarrow> (\<forall>v. length v = L \<longrightarrow> (\<exists>w\<in>W. prefix w v))"

lemma inner_extend:
  assumes free: "prefix_free W" and comp: "complete_code L W" and L: "\<forall>w\<in>W. length w \<le> L"
    and p: "p \<in> inner_prefixes W"
  shows "p @ [b] \<in> code_prefixes W"
proof -
  obtain w where w: "w \<in> W" "strict_prefix p w" using p by (auto simp: inner_prefixes_def)
  then have "length p < L" using L prefix_length_less by fastforce
  then have "length (p @ [b] @ replicate (L - Suc (length p)) False) = L" by simp
  then obtain u where u: "u \<in> W" "prefix u (p @ [b] @ replicate (L - Suc (length p)) False)"
    using comp by (metis complete_code_def)
  have "\<not> prefix u p"
  proof
    assume "prefix u p"
    with w(2) have "strict_prefix u w" by (rule prefix_order.le_less_trans [rotated])
    with w(1) u(1) free show False by (auto simp: prefix_free_def strict_prefix_def)
  qed
  then have "prefix (p @ [b]) u"
    using u(2) by (metis append.assoc append_Cons append_Nil prefix_append prefix_same_cases prefixI prefix_snoc)
  with u(1) show ?thesis by (auto simp: code_prefixes_def)
qed

lemma card_code_prefixes:
  assumes fin: "finite W" and free: "prefix_free W" and ne: "W \<noteq> {}"
    and ext: "\<And>p b. p \<in> inner_prefixes W \<Longrightarrow> p @ [b] \<in> code_prefixes W"
  shows "card (code_prefixes W) + 1 = 2 * card W"
proof -
  let ?T = "code_prefixes W" and ?I = "inner_prefixes W"
  have finT: "finite ?T" using finite_code_prefixes fin by blast
  have split: "?T = W \<union> ?I" "W \<inter> ?I = {}"
    using free by (auto simp: code_prefixes_def inner_prefixes_def prefix_free_def
        strict_prefix_def)
  have finI: "finite ?I" using finT split by simp
  have "?T = insert [] ((\<lambda>p. p @ [False]) ` ?I \<union> (\<lambda>p. p @ [True]) ` ?I)"
  proof (intro equalityI subsetI)
    fix q assume q: "q \<in> ?T"
    show "q \<in> insert [] ((\<lambda>p. p @ [False]) ` ?I \<union> (\<lambda>p. p @ [True]) ` ?I)"
    proof (cases q rule: rev_cases)
      case (snoc p b)
      with q have "p \<in> ?I" by (auto simp: code_prefixes_def inner_prefixes_def strict_prefix_def prefix_def)
      with snoc show ?thesis by (cases b) auto
    qed simp
  next
    fix q assume "q \<in> insert [] ((\<lambda>p. p @ [False]) ` ?I \<union> (\<lambda>p. p @ [True]) ` ?I)"
    then show "q \<in> ?T" using ext ne by (auto simp: code_prefixes_def)
  qed
  then have "card ?T = Suc (card ((\<lambda>p. p @ [False]) ` ?I \<union> (\<lambda>p. p @ [True]) ` ?I))"
    using finI by (subst card_insert_disjoint [symmetric]) auto
  also have "card ((\<lambda>p. p @ [False]) ` ?I \<union> (\<lambda>p. p @ [True]) ` ?I) = card ?I + card ?I"
    using finI by (subst card_Un_disjoint) (auto simp: card_image inj_on_def)
  finally have "card ?T = Suc (2 * card ?I)" by simp
  moreover have "card ?T = card W + card ?I"
    using fin finI split by (simp add: card_Un_disjoint)
  ultimately show ?thesis by simp
qed

lemma code_wordE:
  assumes "w \<in> set (code_words lens)"
  obtains k where "k < length lens" "w = code_words lens ! k" "length w = lens ! k"
  using assms by (metis code_word_length in_set_conv_nth length_code_words)

lemma prefix_free_code_words: "lens_ok L lens \<Longrightarrow> prefix_free (set (code_words lens))"
  unfolding prefix_free_def
proof (intro ballI impI)
  fix u v assume ok: "lens_ok L lens" and uv: "u \<in> set (code_words lens)" "v \<in> set (code_words lens)"
    and p: "prefix u v"
  obtain i where i: "i < length lens" "u = code_words lens ! i" using uv(1) by (rule code_wordE)
  obtain j where j: "j < length lens" "v = code_words lens ! j" using uv(2) by (rule code_wordE)
  show "u = v" using code_words_prefix_free [OF ok, of i j] p i j by (cases "i = j") auto
qed

lemma card_code_words_prefixes:
  assumes ok: "lens_ok L lens" and full: "kraft L lens = 2 ^ L"
  shows "card (code_prefixes (set (code_words lens))) + 1 = 2 * length lens"
proof -
  let ?W = "set (code_words lens)"
  have "complete_code L ?W"
    using code_words_complete [OF ok full]
    unfolding complete_code_def by (metis length_code_words nth_mem)
  moreover have "\<forall>w\<in>?W. length w \<le> L"
    using ok by (auto simp: lens_ok_def elim!: code_wordE)
  moreover have "?W \<noteq> {}"
  proof -
    have "lens \<noteq> []" using full by auto
    then show ?thesis by (metis length_0_conv length_code_words set_empty)
  qed
  ultimately have "card (code_prefixes ?W) + 1 = 2 * card ?W"
    using prefix_free_code_words [OF ok] by (intro card_code_prefixes inner_extend) auto
  then show ?thesis
    using distinct_code_words [OF ok] by (simp add: distinct_card)
qed

end
