(* ===== verification/Huffman.thy ===== *)
theory Huffman
  imports Huf_Heap Prefix_Code
begin

text \<open>
  The Huffman coder of \<^verbatim>\<open>codec/mz_huf.c\<close>: the tree built with the heap, the code lengths read off
  it, the canonical codes, the encoder, and the decoder with its ten-bit lookup table and the tree
  it rebuilds from the code lengths in the header. Node arrays are lists that grow as the C code
  fills \<^verbatim>\<open>nodes\<close>; \<open>int\<close> fields keep -1 for an absent child or symbol.
\<close>

definition MAX_SYMBOLS :: nat where "MAX_SYMBOLS = 256"
definition MAX_CODE_LEN :: nat where "MAX_CODE_LEN = 32"

section \<open>Tree construction\<close>

record huf_node =
  n_sym :: int
  n_freq :: u32
  n_left :: int
  n_right :: int

definition leaf_node :: "nat \<Rightarrow> u32 \<Rightarrow> huf_node" where
  "leaf_node i f = \<lparr>n_sym = int i, n_freq = f, n_left = -1, n_right = -1\<rparr>"

fun huf_leaves :: "nat list \<Rightarrow> u32 list \<Rightarrow> huf_node list \<Rightarrow> huf_heap list
    \<Rightarrow> huf_node list \<times> huf_heap list" where
  "huf_leaves [] freqs nodes heap = (nodes, heap)"
| "huf_leaves (i # is) freqs nodes heap =
     (if freqs ! i > 0 then
        huf_leaves is freqs (nodes @ [leaf_node i (freqs ! i)])
          (heap_push heap (freqs ! i) (int (length nodes)))
      else huf_leaves is freqs nodes heap)"

lemma length_heap_push [simp]: "length (heap_push h f v) = Suc (length h)"
  by (simp add: heap_push_def)

lemma length_heap_pop: "heap_pop h = (m, h') \<Longrightarrow> length h' = length h - 1"
  by (auto simp: heap_pop_def Let_def)

function huf_merge :: "huf_node list \<Rightarrow> huf_heap list \<Rightarrow> huf_node list" where
  "huf_merge nodes heap =
     (if length heap > 1 then
        let (a, heap) = heap_pop heap;
            (b, heap) = heap_pop heap;
            node = \<lparr>n_sym = -1, n_freq = h_freq a + h_freq b, n_left = h_node a, n_right = h_node b\<rparr>
        in huf_merge (nodes @ [node]) (heap_push heap (n_freq node) (int (length nodes)))
      else nodes)"
  by pat_completeness auto
termination
proof (relation "measure (\<lambda>(nodes, heap). length heap)", goal_cases)
  case (2 nodes heap x a h1 y b h2 node)
  then show ?case
    using length_heap_pop [of heap a h1] length_heap_pop [of h1 b h2] by simp
qed simp

declare huf_merge.simps [simp del]

text \<open>None is the return value 0; otherwise the filled part of \<^verbatim>\<open>nodes\<close>.\<close>

definition build_tree :: "u32 list \<Rightarrow> huf_node list option" where
  "build_tree freqs =
     (let (nodes, heap) = huf_leaves [0..<MAX_SYMBOLS] freqs [] []
      in if length heap = 0 then None
         else if length heap = 1 then
           Some (nodes @ [\<lparr>n_sym = -1, n_freq = freqs ! nat (n_sym (nodes ! 0)), n_left = 0, n_right = -1\<rparr>])
         else Some (huf_merge nodes heap))"

text \<open>The recursion of \<^verbatim>\<open>calc_lengths\<close> goes to smaller indices; the fuel bounds its depth.\<close>

fun calc_lengths :: "nat \<Rightarrow> huf_node list \<Rightarrow> int \<Rightarrow> nat \<Rightarrow> nat list \<Rightarrow> nat list" where
  "calc_lengths 0 nodes idx depth lengths = lengths"
| "calc_lengths (Suc fuel) nodes idx depth lengths =
     (let node = nodes ! nat idx in
      if n_sym node \<ge> 0 then lengths[nat (n_sym node) := (if depth > 0 then depth else 1)]
      else
        let lengths = (if n_left node \<ge> 0 then calc_lengths fuel nodes (n_left node) (depth + 1) lengths
                       else lengths)
        in if n_right node \<ge> 0 then calc_lengths fuel nodes (n_right node) (depth + 1) lengths
           else lengths)"

section \<open>Canonical codes\<close>

datatype sym_len = Sym_Len (sl_sym: nat) (sl_len: nat)

text \<open>The order of \<^verbatim>\<open>sl_cmp\<close>: by length, then by symbol.\<close>

definition sl_cmp :: "sym_len \<Rightarrow> sym_len \<Rightarrow> int" where
  "sl_cmp a b =
     (if sl_len a \<noteq> sl_len b then int (sl_len a) - int (sl_len b) else int (sl_sym a) - int (sl_sym b))"

instantiation sym_len :: linorder
begin

definition less_eq_sym_len :: "sym_len \<Rightarrow> sym_len \<Rightarrow> bool" where
  "less_eq_sym_len a b \<longleftrightarrow> sl_cmp a b \<le> 0"

definition less_sym_len :: "sym_len \<Rightarrow> sym_len \<Rightarrow> bool" where
  "less_sym_len a b \<longleftrightarrow> sl_cmp a b < 0"

instance
  by standard
    (auto simp: less_eq_sym_len_def less_sym_len_def sl_cmp_def sym_len.expand split: if_splits)

end

text \<open>\<^verbatim>\<open>qsort\<close> with \<^verbatim>\<open>sl_cmp\<close>: the entries are distinct, so the sorted array is unique.\<close>

definition sorted_syms :: "(nat \<Rightarrow> bool) \<Rightarrow> nat list \<Rightarrow> sym_len list" where
  "sorted_syms keep lengths =
     sort (map (\<lambda>i. Sym_Len i (lengths ! i)) (filter (\<lambda>i. keep (lengths ! i)) [0..<MAX_SYMBOLS]))"

fun assign_codes :: "u32 \<Rightarrow> nat \<Rightarrow> sym_len list \<Rightarrow> u32 list \<Rightarrow> nat list \<Rightarrow> u32 list \<times> nat list" where
  "assign_codes code prev_len [] codes code_lens = (codes, code_lens)"
| "assign_codes code prev_len (Sym_Len s len # ss) codes code_lens =
     (let code = push_bit (len - prev_len) code
      in assign_codes (code + 1) len ss (codes[s := code]) (code_lens[s := len]))"

definition make_canonical :: "nat list \<Rightarrow> u32 list \<times> nat list" where
  "make_canonical lengths =
     assign_codes 0 0 (sorted_syms (\<lambda>l. l > 0) lengths)
       (replicate MAX_SYMBOLS 0) (replicate MAX_SYMBOLS 0)"

section \<open>Compression\<close>

fun count_freqs :: "bytes \<Rightarrow> u32 list \<Rightarrow> u32 list" where
  "count_freqs [] freqs = freqs"
| "count_freqs (b # bs) freqs = count_freqs bs (freqs[unat b := freqs ! unat b + 1])"

definition huf_lengths :: "huf_node list \<Rightarrow> nat list" where
  "huf_lengths nodes =
     (if length nodes = 1 \<and> n_sym (nodes ! 0) \<ge> 0
      then (replicate MAX_SYMBOLS 0)[nat (n_sym (nodes ! 0)) := 1]
      else calc_lengths (length nodes) nodes (int (length nodes) - 1) 0 (replicate MAX_SYMBOLS 0))"

fun huf_write :: "u32 list \<Rightarrow> nat list \<Rightarrow> bit_writer \<Rightarrow> bytes \<Rightarrow> bit_writer option" where
  "huf_write codes code_lens bw [] = Some bw"
| "huf_write codes code_lens bw (b # bs) =
     (case bw_write_bits bw (codes ! unat b) (code_lens ! unat b) of
        None \<Rightarrow> None
      | Some bw \<Rightarrow> huf_write codes code_lens bw bs)"

definition huf_header :: "nat list \<Rightarrow> bytes" where
  "huf_header code_lens =
     [word_of_nat (MAX_SYMBOLS AND 0xFF), word_of_nat (drop_bit 8 MAX_SYMBOLS AND 0xFF)] @
     map word_of_nat code_lens"

text \<open>
  \<open>max_out\<close> is the value of \<^verbatim>\<open>*outlen\<close> on entry; \<open>ret_out\<close> is the buffer up to
  \<^verbatim>\<open>*outlen\<close> on exit, None when the call fails before it sets it. An incompressible
  input comes back unchanged, together with \<open>MZ_ERR_DATA\<close>.
\<close>

definition mz_huf_compress :: "bytes \<Rightarrow> nat \<Rightarrow> mz_ret" where
  "mz_huf_compress data max_out =
     (if data = [] then mz_fail MZ_ERR_PARAM
      else
        case build_tree (count_freqs data (replicate MAX_SYMBOLS 0)) of
          None \<Rightarrow> mz_fail MZ_ERR_DATA
        | Some nodes \<Rightarrow>
            let (codes, code_lens) = make_canonical (huf_lengths nodes)
            in if 2 + MAX_SYMBOLS > max_out then mz_fail MZ_ERR_STREAM
               else
                 (case huf_write codes code_lens (bw_init (max_out - (2 + MAX_SYMBOLS))) data of
                    None \<Rightarrow> mz_fail MZ_ERR_STREAM
                  | Some bw \<Rightarrow>
                      let out = huf_header code_lens @ bw_result bw
                      in if length out \<ge> length data
                         then \<lparr>ret_code = err_code MZ_ERR_DATA, ret_out = Some data\<rparr>
                         else \<lparr>ret_code = MZ_OK, ret_out = Some out\<rparr>))"

section \<open>Decoding tables\<close>

definition DECODE_TABLE_BITS :: nat where "DECODE_TABLE_BITS = 10"
definition DECODE_TABLE_SIZE :: nat where "DECODE_TABLE_SIZE = 1024"

record decode_entry =
  e_sym :: int
  e_len :: nat

fun fill_entries :: "u32 \<Rightarrow> nat \<Rightarrow> decode_entry \<Rightarrow> nat list \<Rightarrow> decode_entry list \<Rightarrow> decode_entry list" where
  "fill_entries code shift e [] table = table"
| "fill_entries code shift e (j # js) table =
     (let idx = unat (push_bit shift code OR word_of_nat j)
      in fill_entries code shift e js (if idx < DECODE_TABLE_SIZE then table[idx := e] else table))"

fun fill_table :: "u32 list \<Rightarrow> nat list \<Rightarrow> sym_len list \<Rightarrow> decode_entry list \<Rightarrow> decode_entry list" where
  "fill_table codes lens [] table = table"
| "fill_table codes lens (s # ss) table =
     (let shift = DECODE_TABLE_BITS - lens ! sl_sym s
      in fill_table codes lens ss
           (fill_entries (codes ! sl_sym s) shift
              \<lparr>e_sym = int (sl_sym s), e_len = lens ! sl_sym s\<rparr> [0..<2 ^ shift] table))"

definition build_decode_table :: "u32 list \<Rightarrow> nat list \<Rightarrow> decode_entry list" where
  "build_decode_table codes lens =
     fill_table codes lens (sorted_syms (\<lambda>l. l > 0 \<and> l \<le> DECODE_TABLE_BITS) lens)
       (replicate DECODE_TABLE_SIZE \<lparr>e_sym = 0, e_len = 0\<rparr>)"

text \<open>The tree rebuilt from the codes; \<open>trie_add\<close> is the loop over the bits of one code.\<close>

definition trie_node :: huf_node where
  "trie_node = \<lparr>n_sym = -1, n_freq = 0, n_left = -1, n_right = -1\<rparr>"

definition trie_child :: "huf_node \<Rightarrow> bool \<Rightarrow> int" where
  "trie_child node b = (if b then n_right node else n_left node)"

definition trie_set_child :: "huf_node \<Rightarrow> bool \<Rightarrow> int \<Rightarrow> huf_node" where
  "trie_set_child node b c = (if b then node\<lparr>n_right := c\<rparr> else node\<lparr>n_left := c\<rparr>)"

definition MAX_NODES :: nat where "MAX_NODES = 512"

fun trie_path :: "u32 \<Rightarrow> nat \<Rightarrow> huf_node list \<Rightarrow> nat \<Rightarrow> (huf_node list \<times> nat) option" where
  "trie_path code 0 nodes idx = Some (nodes, idx)"
| "trie_path code (Suc b) nodes idx =
     (let bt = (drop_bit b code AND 1 \<noteq> 0) in
      if trie_child (nodes ! idx) bt < 0 then
        if length nodes \<ge> MAX_NODES then None
        else
          let nid = length nodes;
              nodes = nodes @ [trie_node];
              nodes = nodes[idx := trie_set_child (nodes ! idx) bt (int nid)]
          in trie_path code b nodes nid
      else trie_path code b nodes (nat (trie_child (nodes ! idx) bt)))"

fun trie_build :: "u32 list \<Rightarrow> nat list \<Rightarrow> sym_len list \<Rightarrow> huf_node list \<Rightarrow> huf_node list option" where
  "trie_build codes clens [] nodes = Some nodes"
| "trie_build codes clens (s # ss) nodes =
     (case trie_path (codes ! sl_sym s) (clens ! sl_sym s) nodes 0 of
        None \<Rightarrow> None
      | Some (nodes, idx) \<Rightarrow>
          trie_build codes clens ss (nodes[idx := (nodes ! idx)\<lparr>n_sym := int (sl_sym s)\<rparr>]))"

text \<open>The walk through the tree reads one bit per node; the fuel is the number of bits left.\<close>

fun tree_walk :: "nat \<Rightarrow> bit_reader \<Rightarrow> huf_node list \<Rightarrow> int \<Rightarrow> int \<times> bit_reader" where
  "tree_walk fuel br nodes idx =
     (if idx \<ge> 0 \<and> n_sym (nodes ! nat idx) < 0 then
        (case fuel of
           0 \<Rightarrow> (-1, br)
         | Suc fuel \<Rightarrow>
             (case br_fill br 1 of
                (False, br) \<Rightarrow> (-1, br)
              | (True, br) \<Rightarrow>
                  let bt = br_peek br 1; br = br_consume br 1
                  in tree_walk fuel br nodes
                       (if bt = 0 then n_left (nodes ! nat idx) else n_right (nodes ! nat idx))))
      else if idx < 0 then (-1, br) else (n_sym (nodes ! nat idx), br))"

definition br_left :: "bit_reader \<Rightarrow> nat" where
  "br_left br = br_hold_bits br + 8 * (length (br_buf br) - br_byte_pos br)"

definition decode_sym :: "bit_reader \<Rightarrow> decode_entry list \<Rightarrow> huf_node list \<Rightarrow> int \<Rightarrow> int \<times> bit_reader" where
  "decode_sym br table nodes root_idx =
     (let (ok, br) = br_fill br DECODE_TABLE_BITS;
          key = unat (br_peek br DECODE_TABLE_BITS)
      in if ok \<and> key < DECODE_TABLE_SIZE \<and> e_len (table ! key) > 0
         then (e_sym (table ! key), br_consume br (e_len (table ! key)))
         else tree_walk (br_left br) br nodes root_idx)"

fun huf_decode :: "nat \<Rightarrow> bit_reader \<Rightarrow> decode_entry list \<Rightarrow> huf_node list \<Rightarrow> int \<Rightarrow> bytes" where
  "huf_decode 0 br table nodes root = []"
| "huf_decode (Suc room) br table nodes root =
     (case decode_sym br table nodes root of
        (s, br) \<Rightarrow> if s < 0 then [] else word_of_int s # huf_decode room br table nodes root)"

section \<open>Decompression\<close>

definition huf_read_lens :: "bytes \<Rightarrow> nat list" where
  "huf_read_lens bs = map (\<lambda>b. if unat b \<le> MAX_CODE_LEN then unat b else 0) bs"

text \<open>\<open>room\<close> is the value of \<^verbatim>\<open>*outlen\<close> on entry.\<close>

definition mz_huf_decompress :: "bytes \<Rightarrow> nat \<Rightarrow> mz_ret" where
  "mz_huf_decompress data room =
     (if length data < 2 + MAX_SYMBOLS then mz_fail MZ_ERR_DATA
      else if (unat (data ! 0) OR push_bit 8 (unat (data ! 1))) \<noteq> MAX_SYMBOLS then mz_fail MZ_ERR_DATA
      else
        let code_lens = huf_read_lens (take MAX_SYMBOLS (drop 2 data));
            sorted = sorted_syms (\<lambda>l. l > 0) code_lens;
            (codes, clens) = assign_codes 0 0 sorted (replicate MAX_SYMBOLS 0) (replicate MAX_SYMBOLS 0);
            tree = (if sorted = [] then Some ([], -1)
                    else map_option (\<lambda>nodes. (nodes, 0)) (trie_build codes clens sorted [trie_node]))
        in case tree of
             None \<Rightarrow> mz_fail MZ_ERR_DATA
           | Some (nodes, root) \<Rightarrow>
               \<lparr>ret_code = MZ_OK,
                ret_out = Some (huf_decode room (br_init (drop (2 + MAX_SYMBOLS) data))
                                  (build_decode_table codes clens) nodes root)\<rparr>)"

declare tree_walk.simps [simp del]

end
