(* ===== verification/Huffman_Tree.thy ===== *)
theory Huffman_Tree
  imports Huffman
begin

text \<open>
  The code lengths that \<^verbatim>\<open>build_tree\<close> and \<^verbatim>\<open>calc_lengths\<close> of
  \<^verbatim>\<open>codec/mz_huf.c\<close> produce are those of a binary tree whose leaves are exactly the bytes that
  occur in the input: a used byte has a positive length, an unused one length 0, and the Kraft sum
  of the lengths is full (or there is a single symbol of length 1).
\<close>

section \<open>The tree in the node array\<close>

datatype htree = HLeaf nat | HNode htree htree

fun tree_at :: "huf_node list \<Rightarrow> nat \<Rightarrow> htree \<Rightarrow> bool" where
  "tree_at nodes i (HLeaf s) \<longleftrightarrow> i < length nodes \<and> n_sym (nodes ! i) = int s"
| "tree_at nodes i (HNode l r) \<longleftrightarrow> i < length nodes \<and> n_sym (nodes ! i) = -1 \<and>
     (\<exists>a b. n_left (nodes ! i) = int a \<and> n_right (nodes ! i) = int b \<and> a < i \<and> b < i \<and>
        tree_at nodes a l \<and> tree_at nodes b r)"

fun leaf_depths :: "nat \<Rightarrow> htree \<Rightarrow> (nat \<times> nat) list" where
  "leaf_depths d (HLeaf s) = [(s, d)]"
| "leaf_depths d (HNode l r) = leaf_depths (Suc d) l @ leaf_depths (Suc d) r"

definition leaves :: "htree \<Rightarrow> nat multiset" where
  "leaves t = mset (map fst (leaf_depths 0 t))"

lemma leaf_depths_syms: "map fst (leaf_depths d t) = map fst (leaf_depths 0 t)"
proof (induction t arbitrary: d)
  case (HNode l r)
  from HNode(1) [of "Suc d"] HNode(1) [of "Suc 0"] HNode(2) [of "Suc d"] HNode(2) [of "Suc 0"]
  show ?case by simp
qed simp

lemma leaves_simps [simp]: "leaves (HLeaf s) = {#s#}" "leaves (HNode l r) = leaves l + leaves r"
  unfolding leaves_def leaf_depths.simps map_append mset_append
  by (simp_all only: leaf_depths_syms [of "Suc 0"]) simp

lemma tree_at_append: "tree_at nodes i t \<Longrightarrow> tree_at (nodes @ extra) i t"
proof (induction t arbitrary: i)
  case (HNode l r)
  then show ?case by (auto simp: nth_append)
qed (simp add: nth_append)

lemma calc_lengths_tree:
  "tree_at nodes i t \<Longrightarrow> i < fuel \<Longrightarrow>
    calc_lengths fuel nodes (int i) d lengths =
      foldl (\<lambda>ls (s, k). ls[s := if k > 0 then k else 1]) lengths (leaf_depths d t)"
proof (induction t arbitrary: i d lengths fuel)
  case (HLeaf s)
  then show ?case by (cases fuel) (auto simp: Let_def)
next
  case (HNode l r)
  then obtain f where f: "fuel = Suc f" by (cases fuel) auto
  from HNode.prems obtain a b where ab: "n_sym (nodes ! i) = -1" "n_left (nodes ! i) = int a"
    "n_right (nodes ! i) = int b" "a < i" "b < i" "tree_at nodes a l" "tree_at nodes b r" by auto
  with HNode.IH(1) [of a f "Suc d"] HNode.IH(2) [of b f "Suc d"] HNode.prems f
  show ?case by (simp add: Let_def)
qed

lemma kraft_leaf_depths:
  "\<forall>(s, k)\<in>set (leaf_depths d t). k \<le> L \<Longrightarrow> kraft L (map snd (leaf_depths d t)) = 2 ^ (L - d)"
proof (induction t arbitrary: d)
  case (HNode l r)
  have "d < L"
  proof -
    have "\<exists>s k. (s, k) \<in> set (leaf_depths e t) \<and> e \<le> k" for e t
      by (induction t arbitrary: e) (auto dest: Suc_leD; meson Suc_leD)+
    then obtain s k where "(s, k) \<in> set (leaf_depths (Suc d) l)" "Suc d \<le> k" by blast
    then show ?thesis using HNode.prems by force
  qed
  then have "(2 :: nat) ^ (L - d) = 2 ^ (L - Suc d) + 2 ^ (L - Suc d)"
    by (metis Suc_diff_Suc mult_2 power_Suc)
  then show ?case using HNode by simp
qed simp

section \<open>The merge loop builds one tree over all symbols\<close>

definition forest :: "huf_node list \<Rightarrow> (huf_heap \<times> htree) multiset \<Rightarrow> huf_heap list \<Rightarrow> bool" where
  "forest nodes F heap \<longleftrightarrow> image_mset fst F = mset heap \<and>
     (\<forall>(x, t)\<in>#F. 0 \<le> h_node x \<and> tree_at nodes (nat (h_node x)) t)"

definition forest_leaves :: "(huf_heap \<times> htree) multiset \<Rightarrow> nat multiset" where
  "forest_leaves F = (\<Sum>(x, t)\<in>#F. leaves t)"

lemma forest_split:
  assumes "image_mset fst F = M + {#a, b#}"
  obtains G t u where "F = G + {#(a, t), (b, u)#}" "image_mset fst G = M"
proof -
  have "image_mset fst F = add_mset a (add_mset b M)" using assms by simp
  then obtain G1 x where 1: "F = add_mset x G1" "fst x = a" "image_mset fst G1 = add_mset b M"
    by (auto dest: msed_map_invR)
  then obtain G y where "G1 = add_mset y G" "fst y = b" "image_mset fst G = M"
    by (auto dest: msed_map_invR)
  with 1 that [of G "snd x" "snd y"] show thesis by (cases x; cases y) simp
qed

lemma huf_merge_tree:
  assumes inv: "\<And>G a t b u n. \<lbrakk>I (G + {#(a, t), (b, u)#}); h_freq a \<le> h_freq b;
      \<forall>(x, v)\<in>#G. h_freq b \<le> h_freq x\<rbrakk> \<Longrightarrow>
      I (add_mset (\<lparr>h_freq = h_freq a + h_freq b, h_node = n\<rparr>, HNode t u) G)"
  shows "heap_ordered heap \<Longrightarrow> 2 \<le> length heap \<Longrightarrow> forest nodes F heap \<Longrightarrow> I F \<Longrightarrow>
    \<exists>x t. tree_at (huf_merge nodes heap) (length (huf_merge nodes heap) - 1) t \<and>
      leaves t = forest_leaves F \<and> I {#(x, t)#}"
proof (induction "length heap" arbitrary: nodes heap F rule: less_induct)
  case less
  obtain a h1 where a: "heap_pop heap = (a, h1)" by fastforce
  obtain b h2 where b: "heap_pop h1 = (b, h2)" by fastforce
  let ?c = "\<lparr>h_freq = h_freq a + h_freq b, h_node = int (length nodes)\<rparr>"
  let ?node = "\<lparr>n_sym = -1, n_freq = h_freq a + h_freq b, n_left = h_node a, n_right = h_node b\<rparr>"
  let ?nodes = "nodes @ [?node]" and ?heap = "heap_push h2 (h_freq ?c) (h_node ?c)"
  have round: "mset heap = mset h2 + {#a, b#}" "heap_ordered ?heap" "mset ?heap = add_mset ?c (mset h2)"
    and least: "h_freq a \<le> h_freq b" "\<forall>x\<in>set h2. h_freq b \<le> h_freq x"
    using pq.merge_round [of heap a h1 b h2 ?c] less.prems a b by auto
  obtain G t u where F: "F = G + {#(a, t), (b, u)#}" "image_mset fst G = mset h2"
    using less.prems(3) round(1) forest_split [of F "mset h2" a b] by (metis forest_def)
  let ?F = "add_mset (?c, HNode t u) G"
  have ab: "0 \<le> h_node a" "tree_at nodes (nat (h_node a)) t" "0 \<le> h_node b" "tree_at nodes (nat (h_node b)) u"
    using less.prems(3) F by (auto simp: forest_def)
  have lt: "tree_at nodes i x \<Longrightarrow> i < length nodes" for i x by (cases x) auto
  have new: "tree_at ?nodes (length nodes) (HNode t u)"
    using ab lt [OF ab(2)] lt [OF ab(4)]
    unfolding tree_at.simps
    by (intro conjI exI [of _ "nat (h_node a)"] exI [of _ "nat (h_node b)"] tree_at_append) simp_all
  have F': "forest ?nodes ?F ?heap" "forest_leaves ?F = forest_leaves F"
    using less.prems(3) F round(3) new by (auto simp: forest_def forest_leaves_def tree_at_append)
  have "set_mset (image_mset fst G) = set h2" using F(2) by simp
  then have I': "I ?F"
    using least less.prems(4) F(1) by (intro inv) force+
  have step: "huf_merge nodes heap = huf_merge ?nodes ?heap"
    using less.prems a b by (subst huf_merge.simps) (simp add: Let_def)
  have len: "length ?heap = length heap - 1"
    using length_heap_pop [OF a] length_heap_pop [OF b] less.prems(2) by simp
  show ?case
  proof (cases "length heap = 2")
    case True
    then have "h2 = []" using len by simp
    then have "G = {#}" using F by simp
    moreover have "huf_merge ?nodes ?heap = ?nodes"
      using len True by (subst huf_merge.simps) simp
    ultimately show ?thesis
      using new F' I' by (intro exI [of _ ?c] exI [of _ "HNode t u"])
        (simp add: step forest_leaves_def del: tree_at.simps)
  next
    case False
    then show ?thesis
      using less.hyps [of ?heap ?nodes ?F] less.prems len round F' I' step by simp
  qed
qed


section \<open>Weights and the depth of the tree\<close>

fun fib :: "nat \<Rightarrow> nat" where
  "fib 0 = 0"
| "fib (Suc 0) = 1"
| "fib (Suc (Suc n)) = fib (Suc n) + fib n"

lemma fib_pos: "0 < fib (Suc n)"
  by (induction n rule: fib.induct) auto

lemma fib_mono: "m \<le> n \<Longrightarrow> fib m \<le> fib n"
proof -
  have "fib k \<le> fib (Suc k)" for k by (cases k) auto
  then show "m \<le> n \<Longrightarrow> fib m \<le> fib n" using lift_Suc_mono_le [of fib m n] by blast
qed

fun height :: "htree \<Rightarrow> nat" where
  "height (HLeaf s) = 0"
| "height (HNode l r) = Suc (max (height l) (height r))"

definition weight :: "(nat \<Rightarrow> nat) \<Rightarrow> htree \<Rightarrow> nat" where
  "weight f t = (\<Sum>i\<in>#leaves t. f i)"

lemma weight_simps [simp]:
  "weight f (HLeaf s) = f s" "weight f (HNode l r) = weight f l + weight f r"
  by (simp_all add: weight_def)

text \<open>A tree and all its subtrees weigh at least a Fibonacci number of their height.\<close>

fun fib_heavy :: "(nat \<Rightarrow> nat) \<Rightarrow> htree \<Rightarrow> bool" where
  "fib_heavy f (HLeaf s) \<longleftrightarrow> 0 < f s"
| "fib_heavy f (HNode l r) \<longleftrightarrow> fib_heavy f l \<and> fib_heavy f r \<and>
     fib (height (HNode l r) + 2) \<le> weight f (HNode l r)"

fun kids :: "(nat \<Rightarrow> nat) \<Rightarrow> htree \<Rightarrow> nat" where
  "kids f (HLeaf s) = 0"
| "kids f (HNode l r) = max (weight f l) (weight f r)"

lemma fib_heavy_weight: "fib_heavy f t \<Longrightarrow> fib (height t + 2) \<le> weight f t"
  by (cases t) auto

lemma fib_heavy_kids:
  assumes "fib_heavy f t" "height t = Suc h"
  shows "fib (h + 2) \<le> kids f t"
proof (cases t)
  case (HNode l r)
  with assms have "fib (height l + 2) \<le> weight f l" "fib (height r + 2) \<le> weight f r" "h = max (height l) (height r)"
    by (auto dest: fib_heavy_weight)
  with HNode show ?thesis by (auto simp: max_def)
qed (use assms in simp)

lemma fib_heavy_join:
  assumes "fib_heavy f t" "fib_heavy f u" "kids f t \<le> weight f u" "kids f u \<le> weight f t"
  shows "fib_heavy f (HNode t u)"
proof -
  have half: "fib (Suc (height x) + 2) \<le> weight f x + weight f y"
    if "fib_heavy f x" "fib_heavy f y" "kids f x \<le> weight f y" for x y
  proof (cases "height x")
    case 0
    have "0 < weight f y"
      using fib_heavy_weight [OF that(2)] fib_pos [of "height y"] by (simp add: numeral_eq_Suc)
    moreover have "0 < weight f x" using that(1) 0 by (cases x) auto
    ultimately show ?thesis using 0 by (simp add: numeral_eq_Suc)
  next
    case (Suc h)
    then have "fib (h + 2) \<le> weight f y" using fib_heavy_kids [OF that(1)] that(3) by fastforce
    then show ?thesis using fib_heavy_weight [OF that(1)] Suc by (simp add: numeral_eq_Suc)
  qed
  show ?thesis
    using assms half [of t u] half [of u t] by (auto simp: max_def add.commute)
qed

definition huffman_ok :: "(nat \<Rightarrow> nat) \<Rightarrow> (huf_heap \<times> htree) multiset \<Rightarrow> bool" where
  "huffman_ok f F \<longleftrightarrow> (\<forall>(x, t)\<in>#F. unat (h_freq x) = weight f t \<and> fib_heavy f t) \<and>
     (\<forall>(x, t)\<in>#F. \<forall>(y, u)\<in>#F. kids f t \<le> weight f u) \<and>
     (\<Sum>i\<in>#forest_leaves F. f i) < 2 ^ 32"

lemma forest_weight: "(\<Sum>i\<in>#forest_leaves F. f i) = (\<Sum>(x, t)\<in>#F. weight f t)"
  by (induction F) (auto simp: forest_leaves_def weight_def)

lemma huffman_ok_merge:
  assumes ok: "huffman_ok f (G + {#(a, t), (b, u)#})"
    and le: "h_freq a \<le> h_freq b" "\<forall>(x, v)\<in>#G. h_freq b \<le> h_freq x"
  shows "huffman_ok f (add_mset (\<lparr>h_freq = h_freq a + h_freq b, h_node = n\<rparr>, HNode t u) G)"
proof -
  have w: "unat (h_freq a) = weight f t" "unat (h_freq b) = weight f u" "fib_heavy f t" "fib_heavy f u"
    and G: "\<forall>(x, v)\<in>#G. unat (h_freq x) = weight f v \<and> fib_heavy f v"
    and k: "kids f t \<le> weight f u" "kids f u \<le> weight f t" "\<forall>(x, v)\<in>#G. kids f v \<le> weight f t"
      "\<forall>(x, v)\<in>#G. \<forall>(y, v')\<in>#G. kids f v \<le> weight f v'"
    and total: "(\<Sum>i\<in>#forest_leaves (G + {#(a, t), (b, u)#}). f i) < 2 ^ 32"
    using ok by (auto simp: huffman_ok_def)
  have "weight f t + weight f u < 2 ^ 32"
    using total by (simp add: forest_weight)
  then have sum: "unat (h_freq a + h_freq b) = weight f t + weight f u"
    using w by (simp add: unat_word_ariths(1))
  have tu: "weight f t \<le> weight f u" using le(1) w by (simp add: word_le_nat_alt)
  have uG: "weight f u \<le> weight f v" if "(x, v) \<in># G" for x v
    using le(2) that G w(2) by (force simp: word_le_nat_alt)
  have new: "kids f (HNode t u) = weight f u" using tu by (simp add: max_def)
  have "fib_heavy f (HNode t u)" using fib_heavy_join w k by blast
  moreover have "kids f (HNode t u) \<le> weight f v" if "(x, v) \<in># G" for x v
    using uG [OF that] new by simp
  moreover have "kids f v \<le> weight f (HNode t u)" if "(x, v) \<in># G" for x v
    using k(3) that by (auto intro: trans_le_add1)
  moreover have "kids f (HNode t u) \<le> weight f (HNode t u)" using new by simp
  moreover have "(\<Sum>i\<in>#forest_leaves (add_mset (\<lparr>h_freq = h_freq a + h_freq b, h_node = n\<rparr>, HNode t u) G). f i)
      < 2 ^ 32"
    using total by (simp add: forest_weight add.commute add.left_commute)
  ultimately show ?thesis
    using sum G k(4) unfolding huffman_ok_def
    by (auto simp del: fib_heavy.simps kids.simps)
qed

section \<open>The leaves, and the whole tree\<close>

definition leafy :: "u32 list \<Rightarrow> (huf_heap \<times> htree) multiset \<Rightarrow> bool" where
  "leafy freqs F \<longleftrightarrow> (\<forall>(x, t)\<in>#F. \<exists>i. t = HLeaf i \<and> h_freq x = freqs ! i \<and> 0 < freqs ! i)"

lemma leafy_huffman_ok:
  "leafy freqs F \<Longrightarrow> (\<Sum>i\<in>#forest_leaves F. unat (freqs ! i)) < 2 ^ 32 \<Longrightarrow>
    huffman_ok (\<lambda>i. unat (freqs ! i)) F"
  by (fastforce simp: leafy_def huffman_ok_def word_less_nat_alt)

lemma huf_leaves_forest:
  "heap_ordered heap \<Longrightarrow> forest nodes F heap \<Longrightarrow> leafy freqs F \<Longrightarrow> huf_leaves is freqs nodes heap = (nodes', heap') \<Longrightarrow>
    \<exists>F'. forest nodes' F' heap' \<and> heap_ordered heap' \<and> leafy freqs F' \<and>
      forest_leaves F' = forest_leaves F + mset (filter (\<lambda>i. freqs ! i > 0) is) \<and>
      length heap' = length heap + length (filter (\<lambda>i. freqs ! i > 0) is)"
proof (induction "is" arbitrary: nodes heap F)
  case (Cons i js)
  show ?case
  proof (cases "freqs ! i > 0")
    case True
    let ?x = "\<lparr>h_freq = freqs ! i, h_node = int (length nodes)\<rparr>"
    let ?nodes = "nodes @ [leaf_node i (freqs ! i)]" and ?heap = "heap_push heap (freqs ! i) (int (length nodes))"
    let ?F = "add_mset (?x, HLeaf i) F"
    have push: "heap_ordered ?heap" "mset ?heap = add_mset ?x (mset heap)"
      using pq.push [of heap ?x] Cons.prems by auto
    have "forest ?nodes ?F ?heap"
      using Cons.prems push by (auto simp: forest_def tree_at_append leaf_node_def)
    moreover have "forest_leaves ?F = forest_leaves F + {#i#}"
      by (simp add: forest_leaves_def)
    moreover have "leafy freqs ?F" using Cons.prems(3) True by (auto simp: leafy_def)
    moreover have "huf_leaves js freqs ?nodes ?heap = (nodes', heap')"
      using Cons.prems True by simp
    ultimately show ?thesis
      using Cons.IH [of ?heap ?nodes ?F] push True by auto
  qed (use Cons in auto)
qed auto

definition used_syms :: "u32 list \<Rightarrow> nat list" where
  "used_syms freqs = filter (\<lambda>i. freqs ! i > 0) [0..<MAX_SYMBOLS]"

lemma build_tree_shape:
  "used_syms freqs = [] \<Longrightarrow> build_tree freqs = None"
  "2 \<le> length (used_syms freqs) \<Longrightarrow> (\<Sum>i\<leftarrow>used_syms freqs. unat (freqs ! i)) < 2 ^ 32 \<Longrightarrow>
     \<exists>nodes t. build_tree freqs = Some nodes \<and> 1 < length nodes \<and>
       tree_at nodes (length nodes - 1) t \<and> leaves t = mset (used_syms freqs) \<and>
       fib_heavy (\<lambda>i. unat (freqs ! i)) t"
proof -
  obtain nodes heap where l: "huf_leaves [0..<MAX_SYMBOLS] freqs [] [] = (nodes, heap)" by fastforce
  have "forest [] {#} []" "heap_ordered []" "leafy freqs {#}"
    by (simp_all add: forest_def heap_ordered_def leafy_def)
  then obtain F where F: "forest nodes F heap" "heap_ordered heap" "forest_leaves F = mset (used_syms freqs)"
      "length heap = length (used_syms freqs)" "leafy freqs F"
    using huf_leaves_forest [of "[]" "[]" "{#}", OF _ _ _ l] by (auto simp: forest_leaves_def used_syms_def)
  show "used_syms freqs = [] \<Longrightarrow> build_tree freqs = None"
    using F by (simp add: build_tree_def l)
  let ?f = "\<lambda>i. unat (freqs ! i)"
  assume two: "2 \<le> length (used_syms freqs)" and total: "(\<Sum>i\<leftarrow>used_syms freqs. ?f i) < 2 ^ 32"
  have "huffman_ok ?f F"
    using leafy_huffman_ok [OF F(5)] total F(3) by (simp add: sum_mset_sum_list flip: mset_map)
  moreover have "2 \<le> length heap" using two F(4) by simp
  ultimately obtain x t where t: "tree_at (huf_merge nodes heap) (length (huf_merge nodes heap) - 1) t"
      "leaves t = forest_leaves F" "huffman_ok ?f {#(x, t)#}"
    using huf_merge_tree [where I = "huffman_ok ?f", OF huffman_ok_merge F(2) _ F(1)] by blast
  then have "fib_heavy ?f t" by (simp add: huffman_ok_def)
  moreover note t(1,2)
  moreover have "1 < length (huf_merge nodes heap)"
  proof (rule ccontr)
    assume "\<not> ?thesis"
    then obtain s where "t = HLeaf s" using t(1) by (cases t) auto
    then have "length (used_syms freqs) = 1" using t(2) F(3) by (metis leaves_simps(1) size_mset size_single)
    then show False using two by simp
  qed
  moreover have "build_tree freqs = Some (huf_merge nodes heap)"
    using two F(4) by (auto simp: build_tree_def l)
  ultimately show "\<exists>nodes t. build_tree freqs = Some nodes \<and> 1 < length nodes \<and>
     tree_at nodes (length nodes - 1) t \<and> leaves t = mset (used_syms freqs) \<and> fib_heavy ?f t"
    using F(3) by auto
qed

lemma huf_leaves_one:
  "filter (\<lambda>i. freqs ! i > 0) is = [s] \<Longrightarrow>
    huf_leaves is freqs [] [] = ([leaf_node s (freqs ! s)], heap_push [] (freqs ! s) 0)"
proof (induction "is")
  case (Cons i js)
  have none: "filter (\<lambda>i. freqs ! i > 0) ks = [] \<Longrightarrow> huf_leaves ks freqs nodes heap = (nodes, heap)"
    for ks nodes heap by (induction ks) (auto split: if_splits)
  show ?case using Cons none by (auto split: if_splits)
qed simp

lemma build_tree_one:
  "used_syms freqs = [s] \<Longrightarrow> \<exists>nodes. build_tree freqs = Some nodes \<and>
    huf_lengths nodes = (replicate MAX_SYMBOLS 0)[s := 1]"
  using huf_leaves_one [of freqs "[0..<MAX_SYMBOLS]" s] length_heap_push [of "[]" "freqs ! s" 0]
  by (auto simp add: used_syms_def build_tree_def huf_lengths_def leaf_node_def nth_append simp flip: length_0_conv simp del: length_heap_push)

lemma foldl_update_lengths:
  assumes "distinct (map fst us)" "\<forall>(s, k)\<in>set us. s < length ls \<and> 0 < k"
  shows "length (foldl (\<lambda>ls (s, k). ls[s := if k > 0 then k else 1]) ls us) = length ls \<and>
    (\<forall>i<length ls. foldl (\<lambda>ls (s, k). ls[s := if k > 0 then k else 1]) ls us ! i =
      (case map_of us i of None \<Rightarrow> ls ! i | Some k \<Rightarrow> k))"
  using assms
proof (induction us arbitrary: ls)
  case (Cons u us)
  obtain s k where u: "u = (s, k)" by fastforce
  have "map_of us s = None" using Cons.prems u by (auto simp: map_of_eq_None_iff)
  then show ?case
    using Cons.IH [of "ls[s := k]"] Cons.prems u by (auto simp: nth_list_update split: option.splits)
qed simp


lemma count_freqs_nth:
  "length freqs = MAX_SYMBOLS \<Longrightarrow> length (count_freqs data freqs) = MAX_SYMBOLS \<and>
    (\<forall>i<MAX_SYMBOLS. count_freqs data freqs ! i =
       freqs ! i + word_of_nat (length (filter (\<lambda>b. unat b = i) data)))"
proof (induction data arbitrary: freqs)
  case (Cons b bs)
  then show ?case
    using Cons.IH [of "freqs[unat b := freqs ! unat b + 1]"]
    by (auto simp: nth_list_update MAX_SYMBOLS_def algebra_simps)
qed simp

lemma used_syms_data:
  assumes "length data < 2 ^ 32"
  shows "used_syms (count_freqs data (replicate MAX_SYMBOLS 0)) =
    filter (\<lambda>i. i \<in> unat ` set data) [0..<MAX_SYMBOLS]"
  unfolding used_syms_def
proof (rule filter_cong [OF refl])
  fix i assume "i \<in> set [0..<MAX_SYMBOLS]"
  then have i: "i < MAX_SYMBOLS" by simp
  let ?n = "length (filter (\<lambda>b. unat b = i) data)"
  have "?n < 2 ^ 32" using assms length_filter_le [of "\<lambda>b. unat b = i" data] by linarith
  then have "word_of_nat ?n > (0 :: u32) \<longleftrightarrow> 0 < ?n"
    by (simp add: word_less_nat_alt unat_of_nat)
  also have "0 < ?n \<longleftrightarrow> i \<in> unat ` set data"
    by (auto simp: length_greater_0_conv filter_empty_conv)
  finally show "count_freqs data (replicate MAX_SYMBOLS 0) ! i > 0 \<longleftrightarrow> i \<in> unat ` set data"
    using count_freqs_nth [of "replicate MAX_SYMBOLS 0" data] i by simp
qed

lemma kraft_mset: "mset xs = mset ys \<Longrightarrow> kraft L xs = kraft L ys"
  unfolding kraft_def by (metis mset_map sum_mset_sum_list)

text \<open>The array of lengths filled from a list of symbols with their depths.\<close>

definition fill_lengths :: "(nat \<times> nat) list \<Rightarrow> nat list \<Rightarrow> nat list" where
  "fill_lengths us ls = foldl (\<lambda>ls (s, k). ls[s := if k > 0 then k else 1]) ls us"

lemma fill_lengths_nth:
  assumes "distinct (map fst us)" "\<forall>(s, k)\<in>set us. s < n \<and> 0 < k"
  shows "length (fill_lengths us (replicate n 0)) = n"
    and "i < n \<Longrightarrow> 0 < fill_lengths us (replicate n 0) ! i \<longleftrightarrow> i \<in> fst ` set us"
    and "(s, k) \<in> set us \<Longrightarrow> fill_lengths us (replicate n 0) ! s = k"
proof -
  let ?ls = "fill_lengths us (replicate n 0)"
  have nth: "length ?ls = n" "i < n \<Longrightarrow> ?ls ! i = (case map_of us i of None \<Rightarrow> 0 | Some k \<Rightarrow> k)" for i
    using foldl_update_lengths [OF assms(1), of "replicate n 0"] assms(2)
    by (auto simp: fill_lengths_def split: option.splits)
  show "length ?ls = n" by (fact nth(1))
  show "(s, k) \<in> set us \<Longrightarrow> ?ls ! s = k"
    using nth(2) [of s] assms by (auto simp: map_of_eq_Some_iff)
  show "0 < ?ls ! i \<longleftrightarrow> i \<in> fst ` set us" if "i < n"
  proof (cases "map_of us i")
    case None
    then have "i \<notin> fst ` set us" by (simp add: map_of_eq_None_iff)
    then show ?thesis using nth(2) [OF that] None by simp
  next
    case (Some k)
    then have "(i, k) \<in> set us" by (rule map_of_SomeD)
    then have "0 < k" "i \<in> fst ` set us" using assms(2) by force+
    then show ?thesis using nth(2) [OF that] Some by simp
  qed
qed

lemma filter_positive: "length ls = n \<Longrightarrow>
  filter (\<lambda>l. 0 < l) ls = map (\<lambda>i. ls ! i) (filter (\<lambda>i. 0 < ls ! i) [0..<n])" for ls :: "nat list"
proof -
  assume "length ls = n"
  then have "ls = map (\<lambda>i. ls ! i) [0..<n]" by (metis map_nth)
  then have "filter (\<lambda>l. 0 < l) ls = filter (\<lambda>l. 0 < l) (map (\<lambda>i. ls ! i) [0..<n])" by simp
  then show ?thesis by (simp add: filter_map comp_def)
qed

lemma fill_lengths_mset:
  assumes "distinct (map fst us)" "\<forall>(s, k)\<in>set us. s < n \<and> 0 < k"
  shows "mset (filter (\<lambda>l. 0 < l) (fill_lengths us (replicate n 0))) = mset (map snd us)"
proof -
  let ?ls = "fill_lengths us (replicate n 0)"
  have "filter (\<lambda>i. 0 < ?ls ! i) [0..<n] = filter (\<lambda>i. i \<in> fst ` set us) [0..<n]"
    using fill_lengths_nth(2) [OF assms] by (intro filter_cong) auto
  moreover have "mset (filter (\<lambda>i. i \<in> fst ` set us) [0..<n]) = mset (map fst us)"
    using assms by (intro set_eq_iff_mset_eq_distinct [THEN iffD1]) auto
  ultimately have "mset (filter (\<lambda>l. 0 < l) ?ls) = image_mset (\<lambda>i. ?ls ! i) (mset (map fst us))"
    using filter_positive [OF fill_lengths_nth(1) [OF assms]] by (simp only: mset_map)
  also have "\<dots> = mset (map (\<lambda>u. ?ls ! fst u) us)"
    by (simp add: multiset.map_comp comp_def)
  also have "map (\<lambda>u. ?ls ! fst u) us = map snd us"
    using fill_lengths_nth(3) [OF assms] by (intro map_cong) auto
  finally show ?thesis .
qed

text \<open>What canonical coding needs of the lengths of a tree.\<close>

definition tree_lengths :: "nat set \<Rightarrow> nat list \<Rightarrow> bool" where
  "tree_lengths U ls \<longleftrightarrow> length ls = MAX_SYMBOLS \<and> (\<forall>i<MAX_SYMBOLS. 0 < ls ! i \<longleftrightarrow> i \<in> U) \<and>
     (\<forall>L. (\<forall>l\<in>set ls. l \<le> L) \<longrightarrow> kraft L (filter (\<lambda>l. 0 < l) ls) = 2 ^ L \<or> filter (\<lambda>l. 0 < l) ls = [1])"

lemma leaf_depths_pos: "(s, k) \<in> set (leaf_depths d t) \<Longrightarrow> 0 < d \<Longrightarrow> 0 < k"
  by (induction t arbitrary: d) auto

lemma tree_lengths_of_tree:
  assumes syms: "leaves t = mset (filter (\<lambda>i. i \<in> U) [0..<MAX_SYMBOLS])" and node: "t = HNode l r"
  shows "tree_lengths U (fill_lengths (leaf_depths 0 t) (replicate MAX_SYMBOLS 0))"
proof -
  define us where "us = leaf_depths 0 t"
  let ?ls = "fill_lengths us (replicate MAX_SYMBOLS 0)"
  have ms: "mset (map fst us) = mset (filter (\<lambda>i. i \<in> U) [0..<MAX_SYMBOLS])"
    using syms by (simp add: us_def leaves_def)
  then have dist: "distinct (map fst us)"
    by (metis distinct_filter distinct_upt mset_eq_imp_distinct_iff)
  have set: "fst ` set us = {i. i < MAX_SYMBOLS \<and> i \<in> U}"
    using mset_eq_setD [OF ms] by auto
  have pos: "\<forall>(s, k)\<in>set us. s < MAX_SYMBOLS \<and> 0 < k"
  proof (rule ballI, clarify, rule conjI)
    fix s k assume sk: "(s, k) \<in> set us"
    then have "s \<in> fst ` set us" by force
    then show "s < MAX_SYMBOLS" using set by simp
    show "0 < k" using sk leaf_depths_pos [of s k "Suc 0"] by (auto simp: us_def node)
  qed
  note fill = fill_lengths_nth [OF dist pos] fill_lengths_mset [OF dist pos]
  have "kraft L (filter (\<lambda>l. 0 < l) ?ls) = 2 ^ L" if L: "\<forall>l\<in>set ?ls. l \<le> L" for L
  proof -
    have "k \<le> L" if "(s, k) \<in> set us" for s k
    proof -
      have "s < length ?ls" using pos that fill(1) by auto
      then have "?ls ! s \<in> set ?ls" by (rule nth_mem)
      then show ?thesis using fill(3) [OF that] L by auto
    qed
    then have "kraft L (map snd us) = 2 ^ L"
      using kraft_leaf_depths [of 0 t L] by (auto simp: us_def)
    then show ?thesis using kraft_mset [OF fill(4)] by simp
  qed
  then show ?thesis
    using fill(1,2) set by (auto simp: tree_lengths_def us_def)
qed

lemma tree_lengths_single:
  assumes "filter (\<lambda>i. i \<in> U) [0..<MAX_SYMBOLS] = [s]"
  shows "tree_lengths U ((replicate MAX_SYMBOLS 0)[s := 1])"
proof -
  have "i < MAX_SYMBOLS \<Longrightarrow> i \<in> U \<longleftrightarrow> i = s" for i
    using arg_cong [OF assms, of set] by auto
  moreover have "s < MAX_SYMBOLS" using arg_cong [OF assms, of set] by auto
  moreover have "filter (\<lambda>l. 0 < l) ((replicate n (0 :: nat))[s := 1]) = [1]" if "s < n" for n s
    using that by (simp add: upd_conv_take_nth_drop)
  ultimately show ?thesis by (auto simp: tree_lengths_def nth_list_update)
qed

text \<open>The frequencies of the used symbols add up to the length of the input.\<close>

lemma sum_counts:
  "\<forall>b\<in>set data. unat b < n \<Longrightarrow>
    (\<Sum>i\<leftarrow>[0..<n]. length (filter (\<lambda>b. unat b = i) data)) = length (data :: bytes)"
proof (induction data)
  case (Cons b data)
  have "(\<Sum>i\<leftarrow>[0..<n]. length (filter (\<lambda>c. unat c = i) (b # data))) =
      (\<Sum>i\<leftarrow>[0..<n]. (if unat b = i then 1 else 0) + length (filter (\<lambda>c. unat c = i) data))"
    by (intro arg_cong [where f = sum_list] map_cong) auto
  also have "\<dots> = (\<Sum>i\<leftarrow>[0..<n]. if unat b = i then 1 else 0) + length data"
    using Cons by (simp only: sum_list_addf) simp
  also have "(\<Sum>i\<leftarrow>[0..<n]. if unat b = i then 1 else 0) = (1 :: nat)"
    using Cons.prems by (subst sum_list_distinct_conv_sum_set) auto
  finally show ?case by simp
qed simp

lemma sum_used_freqs:
  assumes "length data < 2 ^ 32"
  defines "freqs \<equiv> count_freqs data (replicate MAX_SYMBOLS 0)"
  shows "(\<Sum>i\<leftarrow>used_syms freqs. unat (freqs ! i)) = length data"
proof -
  have f: "unat (freqs ! i) = length (filter (\<lambda>b. unat b = i) data)" if "i < MAX_SYMBOLS" for i
  proof -
    have "length (filter (\<lambda>b. unat b = i) data) < 2 ^ 32"
      using assms(1) length_filter_le [of "\<lambda>b. unat b = i" data] by linarith
    then show ?thesis
      using count_freqs_nth [of "replicate MAX_SYMBOLS 0" data] that by (simp add: freqs_def unat_of_nat)
  qed
  have "(\<Sum>i\<leftarrow>used_syms freqs. unat (freqs ! i)) = (\<Sum>i\<leftarrow>[0..<MAX_SYMBOLS]. unat (freqs ! i))"
    unfolding used_syms_def by (rule sum_list_map_filter) (simp add: word_less_nat_alt)
  also have "\<dots> = (\<Sum>i\<leftarrow>[0..<MAX_SYMBOLS]. length (filter (\<lambda>b. unat b = i) data))"
    using f by (intro arg_cong [where f = sum_list] map_cong) auto
  also have "\<dots> = length data" by (rule sum_counts) (simp add: MAX_SYMBOLS_def)
  finally show ?thesis .
qed

lemma leaf_depths_height: "(s, k) \<in> set (leaf_depths d t) \<Longrightarrow> k \<le> d + height t"
proof (induction t arbitrary: d)
  case (HNode l r)
  then have "k \<le> Suc d + height l \<or> k \<le> Suc d + height r"
    using HNode.IH(1) [of "Suc d"] HNode.IH(2) [of "Suc d"] by auto
  then show ?case by (auto simp: max_def)
qed simp

lemma fill_lengths_depth:
  "k \<in> set (fill_lengths us ls) \<Longrightarrow> k \<in> set ls \<or> k = 1 \<or> k \<in> snd ` set us"
proof (induction us arbitrary: ls)
  case (Cons u us)
  then show ?case
    by (cases u) (force simp: fill_lengths_def dest!: set_update_subset_insert [THEN subsetD] split: if_splits)
qed (simp add: fill_lengths_def)

lemma huf_tree_lengths:
  assumes data: "data \<noteq> []" "length data < 2 ^ 32"
  shows "\<exists>nodes. build_tree (count_freqs data (replicate MAX_SYMBOLS 0)) = Some nodes \<and>
    tree_lengths (unat ` set data) (huf_lengths nodes) \<and>
    (\<forall>l\<in>set (huf_lengths nodes). l \<le> 1 \<or> fib (l + 2) \<le> length data)"
proof -
  let ?freqs = "count_freqs data (replicate MAX_SYMBOLS 0)"
  let ?used = "filter (\<lambda>i. i \<in> unat ` set data) [0..<MAX_SYMBOLS]"
  have used: "used_syms ?freqs = ?used" by (rule used_syms_data [OF data(2)])
  have mem: "unat (hd data) \<in> set ?used" using data by (auto simp: MAX_SYMBOLS_def)
  consider (one) s where "?used = [s]" | (many) "2 \<le> length ?used"
  proof (cases ?used)
    case Nil
    then show ?thesis using mem by simp
  next
    case (Cons s ss)
    then show ?thesis using one many by (cases ss) auto
  qed
  then show ?thesis
  proof cases
    case one
    then obtain nodes where "build_tree ?freqs = Some nodes" "huf_lengths nodes = (replicate MAX_SYMBOLS 0)[s := 1]"
      using build_tree_one [of ?freqs s] used by auto
    moreover have "\<forall>l\<in>set ((replicate MAX_SYMBOLS 0)[s := 1]). l \<le> (1 :: nat)"
    proof
      fix l :: nat assume "l \<in> set ((replicate MAX_SYMBOLS 0)[s := 1])"
      then have "l \<in> insert 1 (set (replicate MAX_SYMBOLS 0))"
        using set_update_subset_insert by (rule subsetD [rotated])
      then show "l \<le> 1" by auto
    qed
    ultimately show ?thesis using tree_lengths_single [OF one] by auto
  next
    case many
    let ?f = "\<lambda>i. unat (?freqs ! i)"
    have total: "(\<Sum>i\<leftarrow>used_syms ?freqs. ?f i) = length data" by (rule sum_used_freqs [OF data(2)])
    obtain nodes t where t: "build_tree ?freqs = Some nodes" "1 < length nodes"
        "tree_at nodes (length nodes - 1) t" "leaves t = mset ?used" "fib_heavy ?f t"
      using build_tree_shape(2) [of ?freqs, unfolded total] data(2) many unfolding used by blast
    have lens: "huf_lengths nodes = fill_lengths (leaf_depths 0 t) (replicate MAX_SYMBOLS 0)"
      using calc_lengths_tree [OF t(3), of "length nodes" 0] t(2)
      by (simp add: huf_lengths_def fill_lengths_def of_nat_diff)
    have "weight ?f t = length data"
      using total unfolding weight_def t(4) used by (metis mset_map sum_mset_sum_list)
    then have "fib (height t + 2) \<le> length data" using fib_heavy_weight [OF t(5)] by simp
    moreover have "l \<le> 1 \<or> l \<le> height t" if "l \<in> set (huf_lengths nodes)" for l
      using fill_lengths_depth [OF that [unfolded lens]] leaf_depths_height [of _ _ 0 t] by fastforce
    ultimately have "\<forall>l\<in>set (huf_lengths nodes). l \<le> 1 \<or> fib (l + 2) \<le> length data"
      by (meson add_le_mono1 fib_mono le_trans)
    moreover have "2 \<le> size (leaves t)" using many by (simp only: t(4) size_mset)
    then obtain l r where "t = HNode l r" by (cases t) auto
    then have "tree_lengths (unat ` set data) (huf_lengths nodes)"
      unfolding lens by (intro tree_lengths_of_tree [OF t(4)])
    ultimately show ?thesis using t(1) by blast
  qed
qed

end
