(* ===== verification/Huffman_Code.thy ===== *)
theory Huffman_Code
  imports Huffman_Tree
begin

text \<open>
  The codes that \<^verbatim>\<open>make_canonical\<close> assigns (and the decoder recomputes from the header) are the
  canonical code words of \<open>Prefix_Code\<close>: on lengths up to \<^verbatim>\<open>MAX_CODE_LEN\<close> no 32-bit shift
  loses a bit, the words are prefix free, and the tree of their prefixes fits the 512 nodes of the
  decoder.
\<close>

section \<open>The sorted symbols\<close>

lemma set_sorted_syms:
  "set (sorted_syms keep ls) = {Sym_Len i (ls ! i) | i. i < MAX_SYMBOLS \<and> keep (ls ! i)}"
  by (auto simp: sorted_syms_def)

lemma sorted_syms_mset: "mset (sorted_syms keep ls) =
    mset (map (\<lambda>i. Sym_Len i (ls ! i)) (filter (\<lambda>i. keep (ls ! i)) [0..<MAX_SYMBOLS]))"
  by (simp add: sorted_syms_def)

lemma sl_le_len: "a \<le> b \<Longrightarrow> sl_len a \<le> sl_len b"
  by (auto simp: less_eq_sym_len_def sl_cmp_def split: if_splits)

lemma sorted_syms_sorted: "sorted (map sl_len (sorted_syms keep ls))"
proof -
  have "sorted (sorted_syms keep ls)" by (simp add: sorted_syms_def)
  then show ?thesis
    by (metis (no_types, lifting) sl_le_len sorted_map sorted_wrt_mono_rel)
qed

lemma sorted_syms_distinct: "distinct (map sl_sym (sorted_syms keep ls))"
proof -
  have "mset (map sl_sym (sorted_syms keep ls)) = mset (filter (\<lambda>i. keep (ls ! i)) [0..<MAX_SYMBOLS])"
    by (simp only: mset_map sorted_syms_mset) (simp add: multiset.map_comp comp_def)
  then show ?thesis by (metis distinct_filter distinct_upt mset_eq_imp_distinct_iff)
qed

lemma sorted_syms_lens:
  "length ls = MAX_SYMBOLS \<Longrightarrow> mset (map sl_len (sorted_syms (\<lambda>l. 0 < l) ls)) = mset (filter (\<lambda>l. 0 < l) ls)"
  using filter_positive [of ls MAX_SYMBOLS]
  by (simp only: mset_map sorted_syms_mset) (simp add: multiset.map_comp comp_def)

section \<open>The codes of the C loop are the canonical code words\<close>

lemma assign_codes_canon:
  "distinct (map sl_sym ss) \<Longrightarrow> \<forall>s\<in>set ss. sl_sym s < length codes \<and> sl_sym s < length cl \<Longrightarrow>
    assign_codes (word_of_nat c) prev ss codes cl = (codes', cl') \<Longrightarrow>
    length codes' = length codes \<and> length cl' = length cl \<and>
    (\<forall>k<length ss. codes' ! sl_sym (ss ! k) = word_of_nat (canon_codes c prev (map sl_len ss) ! k) \<and>
       cl' ! sl_sym (ss ! k) = sl_len (ss ! k)) \<and>
    (\<forall>i. i \<notin> sl_sym ` set ss \<longrightarrow> codes' ! i = codes ! i \<and> cl' ! i = cl ! i)"
proof (induction ss arbitrary: c prev codes cl)
  case (Cons s ss)
  obtain a len where s: "s = Sym_Len a len" by (cases s)
  let ?c = "c * 2 ^ (len - prev)"
  have push: "push_bit (len - prev) (word_of_nat c :: u32) = word_of_nat ?c"
    by (simp add: push_bit_eq_mult)
  have "assign_codes (word_of_nat (?c + 1)) len ss (codes[a := word_of_nat ?c]) (cl[a := len]) = (codes', cl')"
    using Cons.prems(3) by (simp only: s assign_codes.simps Let_def push) (simp add: add.commute)
  from Cons.IH [OF _ _ this] Cons.prems(1,2) s
  have IH: "length codes' = length codes \<and> length cl' = length cl"
    "\<And>k. k < length ss \<Longrightarrow> codes' ! sl_sym (ss ! k) =
       word_of_nat (canon_codes (?c + 1) len (map sl_len ss) ! k) \<and> cl' ! sl_sym (ss ! k) = sl_len (ss ! k)"
    "\<And>i. i \<notin> sl_sym ` set ss \<Longrightarrow> codes' ! i = codes[a := word_of_nat ?c] ! i \<and> cl' ! i = cl[a := len] ! i"
    by auto
  have a: "a < length codes" "a < length cl" "a \<notin> sl_sym ` set ss"
    using Cons.prems(1,2) s by auto
  show ?case
  proof (intro conjI allI impI)
    fix k assume k: "k < length (s # ss)"
    show "codes' ! sl_sym ((s # ss) ! k) = word_of_nat (canon_codes c prev (map sl_len (s # ss)) ! k)"
      using IH(2) IH(3) [OF a(3)] a k by (cases k) (simp_all add: s Let_def)
    show "cl' ! sl_sym ((s # ss) ! k) = sl_len ((s # ss) ! k)"
      using IH(2) IH(3) [OF a(3)] a k by (cases k) (simp_all add: s)
  next
    fix i assume "i \<notin> sl_sym ` set (s # ss)"
    then show "codes' ! i = codes ! i" "cl' ! i = cl ! i" using IH(3) [of i] s by auto
  qed (use IH(1) in auto)
qed simp

text \<open>A code table: the word of each symbol, as the encoder writes it.\<close>

definition huf_word :: "u32 list \<Rightarrow> nat list \<Rightarrow> nat \<Rightarrow> bool list" where
  "huf_word codes lens s = word_bits (codes ! s) (lens ! s)"

definition code_table :: "nat set \<Rightarrow> u32 list \<Rightarrow> nat list \<Rightarrow> bool" where
  "code_table U codes lens \<longleftrightarrow> length codes = MAX_SYMBOLS \<and> length lens = MAX_SYMBOLS \<and>
     (\<forall>s<MAX_SYMBOLS. s \<in> U \<longleftrightarrow> 0 < lens ! s) \<and> U \<subseteq> {0..<MAX_SYMBOLS} \<and>
     (\<forall>s\<in>U. lens ! s \<le> MAX_CODE_LEN \<and> unat (codes ! s) < 2 ^ (lens ! s)) \<and>
     (\<forall>s\<in>U. \<forall>t\<in>U. prefix (huf_word codes lens s) (huf_word codes lens t) \<longrightarrow> s = t) \<and>
     card (code_prefixes (huf_word codes lens ` U)) \<le> 511"

lemma tree_lengths_lens_ok:
  assumes "tree_lengths U ls" "\<forall>l\<in>set ls. l \<le> MAX_CODE_LEN"
  defines "lens \<equiv> map sl_len (sorted_syms (\<lambda>l. 0 < l) ls)"
  shows "lens_ok MAX_CODE_LEN lens" "kraft MAX_CODE_LEN lens = 2 ^ MAX_CODE_LEN \<or> lens = [1]"
    "length lens \<le> MAX_SYMBOLS"
proof -
  have m: "mset lens = mset (filter (\<lambda>l. 0 < l) ls)"
    using assms(1) sorted_syms_lens [of ls] by (simp add: lens_def tree_lengths_def)
  have len: "length ls = MAX_SYMBOLS" using assms(1) by (simp add: tree_lengths_def)
  show k: "kraft MAX_CODE_LEN lens = 2 ^ MAX_CODE_LEN \<or> lens = [1]"
  proof (cases "filter (\<lambda>l. 0 < l) ls = [1]")
    case True
    then have "mset lens = {#1#}" using m by simp
    then show ?thesis by (cases lens) auto
  next
    case False
    then show ?thesis using assms(1,2) kraft_mset [OF m] by (auto simp: tree_lengths_def)
  qed
  have "set lens \<subseteq> set ls" using mset_eq_setD [OF m] by auto
  then show "lens_ok MAX_CODE_LEN lens"
    using assms(2) k sorted_syms_sorted [of "\<lambda>l. 0 < l" ls]
    by (auto simp: lens_ok_def lens_def MAX_CODE_LEN_def)
  show "length lens \<le> MAX_SYMBOLS"
    using mset_eq_length [OF m] length_filter_le [of "\<lambda>l. 0 < l" ls] len by simp
qed

lemma make_canonical_assigned:
  assumes tl: "tree_lengths U ls" and U: "U \<subseteq> {0..<MAX_SYMBOLS}"
    and mc: "make_canonical ls = (codes, clens)"
  defines "ss \<equiv> sorted_syms (\<lambda>l. 0 < l) ls"
  shows "length codes = MAX_SYMBOLS" "clens = ls" "sl_sym ` set ss = U"
    "k < length ss \<Longrightarrow> codes ! sl_sym (ss ! k) = word_of_nat (canon_codes 0 0 (map sl_len ss) ! k) \<and>
       ls ! sl_sym (ss ! k) = sl_len (ss ! k)"
proof -
  have ls: "length ls = MAX_SYMBOLS" "\<And>i. i < MAX_SYMBOLS \<Longrightarrow> 0 < ls ! i \<longleftrightarrow> i \<in> U"
    using tl by (auto simp: tree_lengths_def)
  have set: "set ss = {Sym_Len i (ls ! i) | i. i \<in> U}"
    using U ls(2) by (auto simp: ss_def set_sorted_syms)
  then show syms: "sl_sym ` set ss = U" by force
  have eq: "assign_codes (word_of_nat 0) 0 ss (replicate MAX_SYMBOLS 0) (replicate MAX_SYMBOLS 0) = (codes, clens)"
    using mc by (simp add: make_canonical_def ss_def)
  have pre: "\<forall>s\<in>set ss. sl_sym s < length (replicate MAX_SYMBOLS (0 :: u32)) \<and>
      sl_sym s < length (replicate MAX_SYMBOLS (0 :: nat))"
    using set U by auto
  have dist: "distinct (map sl_sym ss)" unfolding ss_def by (rule sorted_syms_distinct)
  note ac = assign_codes_canon [OF dist pre eq, unfolded syms]
  show "length codes = MAX_SYMBOLS" using ac by simp
  have "clens ! i = ls ! i" if "i < MAX_SYMBOLS" for i
  proof (cases "i \<in> U")
    case True
    then obtain k where k: "k < length ss" "i = sl_sym (ss ! k)"
      using syms by (auto simp: in_set_conv_nth)
    then have "ss ! k \<in> set ss" by simp
    then have "sl_len (ss ! k) = ls ! i" using set k(2) by auto
    then show ?thesis using ac k by simp
  next
    case False
    then show ?thesis using ac ls(2) [OF that] that by simp
  qed
  then show clens: "clens = ls" using ac ls(1) by (intro nth_equalityI) auto
  show "codes ! sl_sym (ss ! k) = word_of_nat (canon_codes 0 0 (map sl_len ss) ! k) \<and>
      ls ! sl_sym (ss ! k) = sl_len (ss ! k)" if "k < length ss"
    using ac that clens by simp
qed

lemma make_canonical_words:
  assumes tl: "tree_lengths U ls" and le: "\<forall>l\<in>set ls. l \<le> MAX_CODE_LEN" and U: "U \<subseteq> {0..<MAX_SYMBOLS}"
    and mc: "make_canonical ls = (codes, clens)"
  defines "ss \<equiv> sorted_syms (\<lambda>l. 0 < l) ls"
  assumes k: "k < length ss"
  shows "huf_word codes ls (sl_sym (ss ! k)) = code_words (map sl_len ss) ! k"
    and "unat (codes ! sl_sym (ss ! k)) < 2 ^ (ls ! sl_sym (ss ! k))"
proof -
  let ?lens = "map sl_len ss"
  note ac = make_canonical_assigned(4) [OF tl U mc k [unfolded ss_def], folded ss_def]
  have ok: "lens_ok MAX_CODE_LEN ?lens" unfolding ss_def by (rule tree_lengths_lens_ok [OF tl le])
  have kl: "k < length ?lens" "?lens ! k = sl_len (ss ! k)" using k by simp_all
  have lt: "canon_codes 0 0 ?lens ! k < 2 ^ (?lens ! k)" using canon_code_less [OF ok kl(1)] .
  have "sl_len (ss ! k) \<le> 32" using ok k by (simp add: lens_ok_def MAX_CODE_LEN_def)
  then have "?lens ! k \<le> 32" using kl(2) by simp
  then have "(2 :: nat) ^ (?lens ! k) \<le> 2 ^ 32" by (intro power_increasing) auto
  then have un: "unat (codes ! sl_sym (ss ! k)) = canon_codes 0 0 ?lens ! k"
    using lt ac by (simp add: unat_of_nat)
  show "huf_word codes ls (sl_sym (ss ! k)) = code_words ?lens ! k"
    using ac kl un by (simp add: huf_word_def word_bits_unat nth_code_words)
  show "unat (codes ! sl_sym (ss ! k)) < 2 ^ (ls ! sl_sym (ss ! k))"
    using un lt ac kl by simp
qed

lemma card_code_words_le:
  assumes "lens_ok L lens" "kraft L lens = 2 ^ L \<or> lens = [1]" "length lens \<le> 256"
  shows "card (code_prefixes (set (code_words lens))) \<le> 511"
proof (cases "kraft L lens = 2 ^ L")
  case True
  then show ?thesis using card_code_words_prefixes [OF assms(1)] assms(3) by simp
next
  case False
  then have "lens = [1]" using assms(2) by simp
  then have "code_words lens = [[False]]" by (simp add: code_words_def nat_bits_def)
  then have "code_prefixes (set (code_words lens)) = {[], [False]}"
    by (auto simp: code_prefixes_def prefix_Cons)
  then show ?thesis by simp
qed

lemma make_canonical_table:
  assumes tl: "tree_lengths U ls" and le: "\<forall>l\<in>set ls. l \<le> MAX_CODE_LEN" and U: "U \<subseteq> {0..<MAX_SYMBOLS}"
    and mc: "make_canonical ls = (codes, clens)"
  shows "clens = ls \<and> code_table U codes ls"
proof -
  define ss where "ss = sorted_syms (\<lambda>l. 0 < l) ls"
  let ?lens = "map sl_len ss"
  note ac = make_canonical_assigned [OF tl U mc, folded ss_def]
  note words = make_canonical_words [OF tl le U mc, folded ss_def]
  note ok = tree_lengths_lens_ok [OF tl le, folded ss_def]
  have ls: "length ls = MAX_SYMBOLS" "\<And>i. i < MAX_SYMBOLS \<Longrightarrow> 0 < ls ! i \<longleftrightarrow> i \<in> U"
    using tl by (auto simp: tree_lengths_def)
  have pick: "\<exists>k<length ss. s = sl_sym (ss ! k)" if "s \<in> U" for s
    using that ac(3) by (auto simp: in_set_conv_nth)
  have "set ss = (!) ss ` {0..<length ss}" by (simp add: nth_image)
  then have "huf_word codes ls ` U = (\<lambda>k. huf_word codes ls (sl_sym (ss ! k))) ` {0..<length ss}"
    by (simp only: ac(3) [symmetric] image_image)
  also have "\<dots> = (\<lambda>k. code_words ?lens ! k) ` {0..<length (code_words ?lens)}"
    using words(1) by (intro image_cong) auto
  also have "\<dots> = set (code_words ?lens)" by (simp add: nth_image)
  finally have all: "huf_word codes ls ` U = set (code_words ?lens)" .
  have free: "s = t" if st: "s \<in> U" "t \<in> U" "prefix (huf_word codes ls s) (huf_word codes ls t)" for s t
  proof -
    obtain i where i: "i < length ss" "s = sl_sym (ss ! i)" using pick st(1) by blast
    obtain j where j: "j < length ss" "t = sl_sym (ss ! j)" using pick st(2) by blast
    show ?thesis
      using code_words_prefix_free [OF ok(1), of i j] st(3) words(1) i j by (cases "i = j") auto
  qed
  have bound: "unat (codes ! s) < 2 ^ (ls ! s)" if "s \<in> U" for s
    using pick [OF that] words(2) by blast
  have "ls ! s \<le> MAX_CODE_LEN" if "s \<in> U" for s
    using le U ls(1) that by (auto intro!: nth_mem)
  then have "code_table U codes ls"
    unfolding code_table_def
    using ac(1) ls U bound free card_code_words_le [OF ok(1,2)] ok(3) all
    by (simp add: MAX_SYMBOLS_def)
  with ac(2) show ?thesis by simp
qed

end
