(* ===== verification/Huffman_Trie.thy ===== *)
theory Huffman_Trie
  imports Huffman_Code
begin

text \<open>
  The tree that \<^verbatim>\<open>mz_huf_decompress\<close> rebuilds from the canonical codes, in an array of at most
  512 nodes. Each node is identified with its path from the root; after all codes are added the
  paths are exactly the prefixes of the code words and the symbols sit at their ends.
\<close>

section \<open>The rebuilt tree\<close>

text \<open>\<open>addr ! k\<close> is the path from the root to node \<open>k\<close>; paths and nodes determine each other.\<close>

definition trie_ok :: "huf_node list \<Rightarrow> bool list list \<Rightarrow> bool" where
  "trie_ok nodes addr \<longleftrightarrow> length addr = length nodes \<and> distinct addr \<and>
     (\<forall>p b. p @ [b] \<in> set addr \<longrightarrow> p \<in> set addr) \<and>
     (\<forall>k<length nodes. \<forall>b.
        (\<forall>j<length nodes. addr ! j = addr ! k @ [b] \<longrightarrow> trie_child (nodes ! k) b = int j) \<and>
        (addr ! k @ [b] \<notin> set addr \<longrightarrow> trie_child (nodes ! k) b = -1))"

definition paths_below :: "bool list \<Rightarrow> bool list \<Rightarrow> bool list set" where
  "paths_below p w = {p @ q | q. prefix q w}"

lemma paths_below_Nil: "paths_below p [] = {p}"
  by (auto simp: paths_below_def)

lemma paths_below_Cons: "paths_below p (b # w) = insert p (paths_below (p @ [b]) w)"
  by (auto simp: paths_below_def prefix_Cons)

lemma trie_ok_init: "trie_ok [trie_node] [[]]"
  by (auto simp: trie_ok_def trie_node_def trie_child_def)

lemma trie_child_set: "trie_child (trie_set_child nd b c) b' = (if b' = b then c else trie_child nd b')"
  by (auto simp: trie_child_def trie_set_child_def)

lemma n_sym_set_child [simp]: "n_sym (trie_set_child nd b c) = n_sym nd"
  by (simp add: trie_set_child_def)

lemma trie_ok_extend:
  assumes ok: "trie_ok nodes addr" and k: "k < length nodes" and new: "addr ! k @ [b] \<notin> set addr"
  defines "nodes' \<equiv> (nodes @ [trie_node])[k := trie_set_child (nodes ! k) b (int (length nodes))]"
  shows "trie_ok nodes' (addr @ [addr ! k @ [b]])"
proof -
  let ?n = "length nodes" and ?new = "addr ! k @ [b]"
  have len: "length addr = ?n" and dist: "distinct addr"
    and closed: "\<And>p b. p @ [b] \<in> set addr \<Longrightarrow> p \<in> set addr"
    and child: "\<And>i b j. i < ?n \<Longrightarrow> j < ?n \<Longrightarrow> addr ! j = addr ! i @ [b] \<Longrightarrow> trie_child (nodes ! i) b = int j"
    and nochild: "\<And>i b. i < ?n \<Longrightarrow> addr ! i @ [b] \<notin> set addr \<Longrightarrow> trie_child (nodes ! i) b = -1"
    using ok by (auto simp: trie_ok_def)
  have kn: "nodes' ! i = (if i = k then trie_set_child (nodes ! k) b (int ?n)
      else if i = ?n then trie_node else nodes ! i)" if "i \<le> ?n" for i
    using that k by (auto simp: nodes'_def nth_list_update nth_append)
  have an: "(addr @ [?new]) ! i = (if i = ?n then ?new else addr ! i)" if "i \<le> ?n" for i
    using that len by (auto simp: nth_append)
  have mem: "i < ?n \<Longrightarrow> addr ! i \<in> set addr" for i using len by simp
  have inj: "addr ! i @ [c] = ?new \<longleftrightarrow> i = k \<and> c = b" if "i < ?n" for i c
    using that k dist len by (auto simp: nth_eq_iff_index_eq)
  have notfrom: "?new @ [c] \<notin> set (addr @ [?new])" for c
    using new closed [of ?new c] by auto
  show ?thesis
    unfolding trie_ok_def
  proof (intro conjI allI impI)
    show "length (addr @ [?new]) = length nodes'" using len by (simp add: nodes'_def)
    show "distinct (addr @ [?new])" using dist new by simp
    show "p \<in> set (addr @ [?new])" if "p @ [c] \<in> set (addr @ [?new])" for p c
      using that closed [of p c] mem [OF k] by auto
  next
    fix i c j assume i: "i < length nodes'" and j: "j < length nodes'"
      and eq: "(addr @ [?new]) ! j = (addr @ [?new]) ! i @ [c]"
    have le: "i \<le> ?n" "j \<le> ?n" using i j by (auto simp: nodes'_def)
    have "i \<noteq> ?n"
    proof
      assume "i = ?n"
      then have "?new @ [c] = (addr @ [?new]) ! j" using eq by (simp add: an)
      also have "\<dots> \<in> set (addr @ [?new])" using le len by (intro nth_mem) simp
      finally show False using notfrom [of c] by simp
    qed
    then have "i < ?n" using le by simp
    have ch: "trie_child (nodes' ! i) c = (if i = k \<and> c = b then int ?n else trie_child (nodes ! i) c)"
      using \<open>i < ?n\<close> by (simp add: kn trie_child_set)
    show "trie_child (nodes' ! i) c = int j"
    proof (cases "j = ?n")
      case True
      then have "addr ! i @ [c] = ?new" using eq \<open>i < ?n\<close> by (simp add: an)
      then show ?thesis using inj [OF \<open>i < ?n\<close>, of c] ch True by simp
    next
      case False
      then have j: "j < ?n" "addr ! j = addr ! i @ [c]" using le eq \<open>i < ?n\<close> by (simp_all add: an)
      have "\<not> (i = k \<and> c = b)"
      proof
        assume "i = k \<and> c = b"
        then have "?new \<in> set addr" using mem [OF j(1)] by (simp only: j(2))
        with new show False ..
      qed
      then show ?thesis unfolding ch using child [OF \<open>i < ?n\<close> j] by (simp only: if_False)
    qed
  next
    fix i c assume i: "i < length nodes'" and no: "(addr @ [?new]) ! i @ [c] \<notin> set (addr @ [?new])"
    have le: "i \<le> ?n" using i by (auto simp: nodes'_def)
    show "trie_child (nodes' ! i) c = -1"
    proof (cases "i = ?n")
      case True
      then show ?thesis using k by (simp add: kn trie_node_def trie_child_def)
    next
      case False
      then have "i < ?n" using le by simp
      then show ?thesis
        using no le False inj [OF \<open>i < ?n\<close>, of c] nochild [OF \<open>i < ?n\<close>, of c]
        by (auto simp: kn an trie_child_set split: if_splits)
    qed
  qed
qed

lemma paths_below_here: "p \<in> paths_below p w"
  by (force simp: paths_below_def)

lemma finite_paths_below: "finite (paths_below p w)"
proof -
  have "paths_below p w = (\<lambda>r. p @ r) ` set (prefixes w)" by (auto simp: paths_below_def)
  then show ?thesis by simp
qed

lemma trie_room:
  assumes "trie_ok nodes addr" "p \<notin> set addr" "card (set addr \<union> paths_below p w) \<le> n"
  shows "length nodes < n"
proof -
  have "card (set addr) < card (set addr \<union> paths_below p w)"
    using assms(2) paths_below_here [of p w] finite_paths_below [of p w]
    by (intro psubset_card_mono) auto
  then show ?thesis using assms by (simp add: trie_ok_def distinct_card)
qed

lemma trie_path_correct:
  "trie_ok nodes addr \<Longrightarrow> idx < length nodes \<Longrightarrow>
    card (set addr \<union> paths_below (addr ! idx) (word_bits code n)) \<le> MAX_NODES \<Longrightarrow>
    \<exists>nodes' idx' more. trie_path code n nodes idx = Some (nodes', idx') \<and>
      trie_ok nodes' (addr @ more) \<and> idx' < length nodes' \<and>
      (addr @ more) ! idx' = addr ! idx @ word_bits code n \<and>
      set (addr @ more) = set addr \<union> paths_below (addr ! idx) (word_bits code n) \<and>
      (\<forall>k<length nodes. n_sym (nodes' ! k) = n_sym (nodes ! k)) \<and>
      (\<forall>k. length nodes \<le> k \<and> k < length nodes' \<longrightarrow> n_sym (nodes' ! k) = -1)"
proof (induction n arbitrary: nodes addr idx)
  case 0
  have "addr ! idx \<in> set addr" using 0 by (auto simp: trie_ok_def)
  then show ?case
    using 0 by (intro exI [of _ nodes] exI [of _ idx] exI [of _ "[]"]) (auto simp: paths_below_Nil)
next
  case (Suc n)
  let ?b = "bit code n" and ?w = "word_bits code n"
  let ?p = "addr ! idx"
  have bt: "(drop_bit n code AND 1 \<noteq> 0) = ?b"
    by (simp add: and_one_eq bit_iff_odd_drop_bit odd_iff_mod_2_eq_one)
  have len: "length addr = length nodes" and pin: "?p \<in> set addr"
    using Suc.prems by (auto simp: trie_ok_def)
  have below: "set addr \<union> paths_below ?p (word_bits code (Suc n)) = set addr \<union> paths_below (?p @ [?b]) ?w"
    using pin by (auto simp: word_bits_Suc paths_below_Cons)
  show ?case
  proof (cases "?p @ [?b] \<in> set addr")
    case True
    then obtain j where j: "j < length nodes" "addr ! j = ?p @ [?b]"
      using len by (metis in_set_conv_nth)
    then have "trie_child (nodes ! idx) ?b = int j"
      using Suc.prems by (auto simp: trie_ok_def)
    then have "trie_path code (Suc n) nodes idx = trie_path code n nodes j"
      by (simp only: trie_path.simps Let_def bt) simp
    then show ?thesis
      using Suc.IH [OF Suc.prems(1) j(1)] Suc.prems(3) below by (simp add: j(2) word_bits_Suc)
  next
    case False
    let ?nodes = "(nodes @ [trie_node])[idx := trie_set_child (nodes ! idx) ?b (int (length nodes))]"
    let ?addr = "addr @ [?p @ [?b]]"
    have ok: "trie_ok ?nodes ?addr" using trie_ok_extend [OF Suc.prems(1,2) False] .
    have small: "\<not> length nodes \<ge> MAX_NODES"
      using trie_room [OF Suc.prems(1) False, of ?w MAX_NODES] Suc.prems(3) below by simp
    have neg: "trie_child (nodes ! idx) ?b < 0"
      using Suc.prems False by (auto simp: trie_ok_def)
    have step: "trie_path code (Suc n) nodes idx = trie_path code n ?nodes (length nodes)"
      using small neg Suc.prems(2) by (simp only: trie_path.simps Let_def bt) (simp add: nth_append)
    have at: "?addr ! length nodes = ?p @ [?b]" using len by (metis nth_append_length)
    have set: "set ?addr \<union> paths_below (?p @ [?b]) ?w = set addr \<union> paths_below (?p @ [?b]) ?w"
      using paths_below_here [of "?p @ [?b]" ?w] by auto
    from Suc.IH [OF ok, of "length nodes"] Suc.prems(3) at set below obtain nodes' idx' extra where
      IH: "trie_path code n ?nodes (length nodes) = Some (nodes', idx')" "trie_ok nodes' (?addr @ extra)"
        "idx' < length nodes'" "(?addr @ extra) ! idx' = (?p @ [?b]) @ ?w"
        "set (?addr @ extra) = set ?addr \<union> paths_below (?p @ [?b]) ?w"
        "\<forall>k<length ?nodes. n_sym (nodes' ! k) = n_sym (?nodes ! k)"
        "\<forall>k. length ?nodes \<le> k \<and> k < length nodes' \<longrightarrow> n_sym (nodes' ! k) = -1"
      by auto
    have syms: "n_sym (?nodes ! k) = (if k = length nodes then -1 else n_sym (nodes ! k))"
      if "k \<le> length nodes" for k
      using that Suc.prems(2) by (auto simp: nth_list_update nth_append trie_node_def)
    show ?thesis
    proof (intro exI [of _ nodes'] exI [of _ idx'] exI [of _ "(?p @ [?b]) # extra"] conjI)
      show "trie_path code (Suc n) nodes idx = Some (nodes', idx')" using step IH(1) by simp
      show "set (addr @ (?p @ [?b]) # extra) = set addr \<union> paths_below ?p (word_bits code (Suc n))"
        using IH(5) set below by simp
      show "\<forall>k<length nodes. n_sym (nodes' ! k) = n_sym (nodes ! k)"
        using IH(6) syms by auto
      show "\<forall>k. length nodes \<le> k \<and> k < length nodes' \<longrightarrow> n_sym (nodes' ! k) = -1"
        using IH(6,7) syms by (metis (no_types, lifting) Suc_leI le_eq_less_or_eq length_append_singleton
            length_list_update less_Suc_eq order_refl)
    qed (use IH in \<open>simp_all add: word_bits_Suc\<close>)
  qed
qed


section \<open>The tree holds the code words\<close>

text \<open>All words of \<open>A\<close> have been added: their paths are nodes, and exactly their ends carry symbols.\<close>

definition trie_holds :: "(nat \<Rightarrow> bool list) \<Rightarrow> nat set \<Rightarrow> huf_node list \<Rightarrow> bool list list \<Rightarrow> bool" where
  "trie_holds w A nodes addr \<longleftrightarrow> trie_ok nodes addr \<and> nodes \<noteq> [] \<and> addr ! 0 = [] \<and>
     set addr = insert [] (code_prefixes (w ` A)) \<and>
     (\<forall>k<length nodes. (\<forall>s\<in>A. addr ! k = w s \<longrightarrow> n_sym (nodes ! k) = int s) \<and>
        (addr ! k \<notin> w ` A \<longrightarrow> n_sym (nodes ! k) = -1))"

lemma trie_ok_set_sym: "trie_ok (nodes[k := (nodes ! k)\<lparr>n_sym := x\<rparr>]) addr \<longleftrightarrow> trie_ok nodes addr"
proof -
  have "trie_child (nodes[k := (nodes ! k)\<lparr>n_sym := x\<rparr>] ! i) b = trie_child (nodes ! i) b" for i b
    by (cases "k < length nodes"; cases "i = k")
      (simp_all add: trie_child_def nth_list_update list_update_beyond)
  then show ?thesis by (simp add: trie_ok_def)
qed

lemma trie_holds_add:
  assumes holds: "trie_holds w A nodes addr" and inj: "\<forall>t\<in>A. w t \<noteq> w s"
    and word: "w s = word_bits (codes ! s) (clens ! s)"
    and room: "card (insert [] (code_prefixes (w ` insert s A))) \<le> MAX_NODES"
  shows "\<exists>nodes1 idx addr'. trie_path (codes ! s) (clens ! s) nodes 0 = Some (nodes1, idx) \<and>
    trie_holds w (insert s A) (nodes1[idx := (nodes1 ! idx)\<lparr>n_sym := int s\<rparr>]) addr'"
proof -
  have ok: "trie_ok nodes addr" and ne: "0 < length nodes" and root: "addr ! 0 = []"
    and set: "set addr = insert [] (code_prefixes (w ` A))"
    using holds by (auto simp: trie_holds_def)
  have paths: "set addr \<union> paths_below [] (w s) = insert [] (code_prefixes (w ` insert s A))"
    by (auto simp: set paths_below_def code_prefixes_def)
  obtain nodes1 idx extra where tp: "trie_path (codes ! s) (clens ! s) nodes 0 = Some (nodes1, idx)"
      "trie_ok nodes1 (addr @ extra)" "idx < length nodes1" "(addr @ extra) ! idx = w s"
      "set (addr @ extra) = insert [] (code_prefixes (w ` insert s A))"
      "\<forall>k<length nodes. n_sym (nodes1 ! k) = n_sym (nodes ! k)"
      "\<forall>k. length nodes \<le> k \<and> k < length nodes1 \<longrightarrow> n_sym (nodes1 ! k) = -1"
    using trie_path_correct [OF ok ne, of "codes ! s" "clens ! s"] paths room
    by (auto simp: root simp flip: word)
  have len: "length addr = length nodes" "length (addr @ extra) = length nodes1"
    and dist: "distinct (addr @ extra)"
    using ok tp(2) by (auto simp: trie_ok_def)
  have uniq: "(addr @ extra) ! k = w s \<longleftrightarrow> k = idx" if "k < length nodes1" for k
    using that tp(3,4) nth_eq_iff_index_eq [OF dist, of k idx] len(2) by simp
  let ?nodes = "nodes1[idx := (nodes1 ! idx)\<lparr>n_sym := int s\<rparr>]"
  have sym: "n_sym (?nodes ! k) = (if k = idx then int s
      else if k < length nodes then n_sym (nodes ! k) else -1)" if "k < length nodes1" for k
    using that tp(6,7) by (auto simp: nth_list_update)
  have old: "t \<in> A \<Longrightarrow> (addr @ extra) ! k = w t \<Longrightarrow> k < length nodes1 \<Longrightarrow> k < length nodes" for t k
  proof (rule ccontr)
    assume t: "t \<in> A" "(addr @ extra) ! k = w t" "k < length nodes1" "\<not> k < length nodes"
    have "w t \<in> set addr" using t(1) by (auto simp: set code_prefixes_def)
    then obtain i where "i < length nodes" "addr ! i = w t" using len by (metis in_set_conv_nth)
    then have "(addr @ extra) ! i = (addr @ extra) ! k" using t(2) len by (simp add: nth_append)
    then have "i = k"
      using nth_eq_iff_index_eq [OF dist, of i k] \<open>i < length nodes\<close> t(3,4) len by simp
    then show False using \<open>i < length nodes\<close> t(4) by simp
  qed
  have "trie_holds w (insert s A) ?nodes (addr @ extra)"
    unfolding trie_holds_def trie_ok_set_sym
  proof (intro conjI allI impI ballI)
    show "(addr @ extra) ! 0 = []" using root ne len by (simp add: nth_append)
    show "?nodes \<noteq> []" using tp(3) by auto
  next
    fix k t assume k: "k < length ?nodes" "t \<in> insert s A" "(addr @ extra) ! k = w t"
    show "n_sym (?nodes ! k) = int t"
    proof (cases "t = s")
      case True
      then show ?thesis using k uniq [of k] sym [of k] by simp
    next
      case False
      then have "t \<in> A" "k \<noteq> idx" "k < length nodes" using k inj tp(4) old by auto
      then show ?thesis using k sym [of k] holds len by (auto simp: trie_holds_def nth_append)
    qed
  next
    fix k assume k: "k < length ?nodes" "(addr @ extra) ! k \<notin> w ` insert s A"
    then show "n_sym (?nodes ! k) = -1"
      using sym [of k] tp(4) holds len by (auto simp: trie_holds_def nth_append)
  qed (use tp in auto)
  then show ?thesis using tp(1) by blast
qed

lemma trie_build_holds:
  "trie_holds w A nodes addr \<Longrightarrow> distinct (map sl_sym ss) \<Longrightarrow> sl_sym ` set ss \<inter> A = {} \<Longrightarrow>
    inj_on w (A \<union> sl_sym ` set ss) \<Longrightarrow> \<forall>s\<in>set ss. w (sl_sym s) = word_bits (codes ! sl_sym s) (clens ! sl_sym s) \<Longrightarrow>
    card (insert [] (code_prefixes (w ` (A \<union> sl_sym ` set ss)))) \<le> MAX_NODES \<Longrightarrow>
    finite (A \<union> sl_sym ` set ss) \<Longrightarrow>
    \<exists>nodes' addr'. trie_build codes clens ss nodes = Some nodes' \<and>
      trie_holds w (A \<union> sl_sym ` set ss) nodes' addr'"
proof (induction ss arbitrary: A nodes addr)
  case (Cons s ss)
  let ?s = "sl_sym s"
  have "card (insert [] (code_prefixes (w ` insert ?s A))) \<le>
      card (insert [] (code_prefixes (w ` (A \<union> sl_sym ` set (s # ss)))))"
  proof (rule card_mono)
    show "finite (insert [] (code_prefixes (w ` (A \<union> sl_sym ` set (s # ss)))))"
      using Cons.prems(7) by (intro finite.insertI finite_code_prefixes finite_imageI)
  qed (auto simp: code_prefixes_def)
  moreover have "\<forall>t\<in>A. w t \<noteq> w ?s"
    using Cons.prems(3,4) by (auto simp: inj_on_def)
  ultimately obtain nodes1 idx addr' where 1: "trie_path (codes ! ?s) (clens ! ?s) nodes 0 = Some (nodes1, idx)"
    "trie_holds w (insert ?s A) (nodes1[idx := (nodes1 ! idx)\<lparr>n_sym := int ?s\<rparr>]) addr'"
    using trie_holds_add [OF Cons.prems(1), of ?s codes clens] Cons.prems(5,6) by auto
  have eq: "insert ?s A \<union> sl_sym ` set ss = A \<union> sl_sym ` set (s # ss)" by auto
  show ?case
    using Cons.IH [OF 1(2)] Cons.prems(2-7) 1(1) unfolding eq by auto
qed auto

section \<open>Hostile headers\<close>

definition trie_bounded :: "huf_node list \<Rightarrow> bool" where
  "trie_bounded nodes \<longleftrightarrow> length nodes \<le> MAX_NODES \<and> nodes \<noteq> [] \<and>
     (\<forall>nd\<in>set nodes. \<forall>b. trie_child nd b < int (length nodes))"

lemma trie_path_bounded:
  "trie_bounded nodes \<Longrightarrow> idx < length nodes \<Longrightarrow> trie_path code n nodes idx = Some (nodes', idx') \<Longrightarrow>
    trie_bounded nodes' \<and> idx' < length nodes'"
proof (induction n arbitrary: nodes idx)
  case (Suc n)
  let ?b = "drop_bit n code AND 1 \<noteq> 0"
  let ?new = "(nodes @ [trie_node])[idx := trie_set_child (nodes ! idx) ?b (int (length nodes))]"
  show ?case
  proof (cases "trie_child (nodes ! idx) ?b < 0")
    case True
    then have room: "length nodes < MAX_NODES" and path: "trie_path code n ?new (length nodes) = Some (nodes', idx')"
      using Suc.prems by (auto simp: Let_def nth_append split: if_splits)
    have "\<forall>nd\<in>set nodes. \<forall>b. trie_child nd b < int (Suc (length nodes))"
    proof (intro ballI allI)
      fix nd b assume "nd \<in> set nodes"
      then have "trie_child nd b < int (length nodes)" using Suc.prems(1) by (auto simp: trie_bounded_def)
      then show "trie_child nd b < int (Suc (length nodes))" by simp
    qed
    moreover have "trie_child (trie_set_child (nodes ! idx) ?b (int (length nodes))) b < int (Suc (length nodes))" for b
      using calculation nth_mem [OF Suc.prems(2)] by (simp add: trie_child_set)
    moreover have "trie_child trie_node b < int (Suc (length nodes))" for b
      by (simp add: trie_child_def trie_node_def)
    moreover have "set ?new \<subseteq> insert (trie_set_child (nodes ! idx) ?b (int (length nodes))) (insert trie_node (set nodes))"
      using set_update_subset_insert by fastforce
    ultimately have "trie_bounded ?new"
      using room unfolding trie_bounded_def by auto
    then show ?thesis using Suc.IH [OF _ _ path] by simp
  next
    case False
    then have "trie_path code n nodes (nat (trie_child (nodes ! idx) ?b)) = Some (nodes', idx')"
      using Suc.prems by (simp add: Let_def)
    moreover have "trie_child (nodes ! idx) ?b < int (length nodes)"
      using Suc.prems(1) nth_mem [OF Suc.prems(2)] by (simp add: trie_bounded_def)
    then have "nat (trie_child (nodes ! idx) ?b) < length nodes" using False by linarith
    ultimately show ?thesis using Suc.IH [OF Suc.prems(1)] by blast
  qed
qed simp

lemma trie_bounded_set_sym:
  "trie_bounded nodes \<Longrightarrow> trie_bounded (nodes[k := (nodes ! k)\<lparr>n_sym := x\<rparr>])"
proof (cases "k < length nodes")
  case True
  assume b: "trie_bounded nodes"
  have "set (nodes[k := (nodes ! k)\<lparr>n_sym := x\<rparr>]) \<subseteq> insert ((nodes ! k)\<lparr>n_sym := x\<rparr>) (set nodes)"
    by (rule set_update_subset_insert)
  moreover have "trie_child ((nodes ! k)\<lparr>n_sym := x\<rparr>) c = trie_child (nodes ! k) c" for c
    by (simp add: trie_child_def)
  ultimately show ?thesis using b nth_mem [OF True] by (auto simp: trie_bounded_def)
qed (simp add: list_update_beyond)

lemma trie_build_bounded:
  "trie_bounded nodes \<Longrightarrow> trie_build codes clens ss nodes = Some nodes' \<Longrightarrow> trie_bounded nodes'"
proof (induction ss arbitrary: nodes)
  case (Cons s ss)
  then obtain nodes1 idx where "trie_path (codes ! sl_sym s) (clens ! sl_sym s) nodes 0 = Some (nodes1, idx)"
    "trie_build codes clens ss (nodes1[idx := (nodes1 ! idx)\<lparr>n_sym := int (sl_sym s)\<rparr>]) = Some nodes'"
    by (auto split: option.splits)
  moreover have "0 < length nodes" using Cons.prems(1) by (simp add: trie_bounded_def)
  ultimately show ?case
    using Cons.IH trie_path_bounded [OF Cons.prems(1)] trie_bounded_set_sym by blast
qed simp

lemma length_huf_decode: "length (huf_decode room br table nodes root) \<le> room"
  by (induction room arbitrary: br) (auto split: prod.split)

lemma huf_decompress_length: "ret_out (mz_huf_decompress data room) = Some out \<Longrightarrow> length out \<le> room"
  unfolding mz_huf_decompress_def Let_def
  by (auto simp: length_huf_decode split: if_splits option.splits prod.splits)

text \<open>
  Safety on hostile input: whatever codes and lengths a header leads to, the tree that the
  decoder rebuilds never outgrows its 512 nodes, and every child index it stores is a node of it.
\<close>

theorem huffman_tree_safe:
  assumes "trie_build codes clens ss [trie_node] = Some nodes"
  shows "length nodes \<le> MAX_NODES \<and> (\<forall>nd\<in>set nodes. \<forall>b. trie_child nd b < int (length nodes))"
proof -
  have "trie_bounded [trie_node]"
    by (simp add: trie_bounded_def MAX_NODES_def trie_child_def trie_node_def)
  then show ?thesis
    using trie_build_bounded [OF _ assms] by (simp add: trie_bounded_def)
qed

theorem huffman_tree_safe_witness:
  "\<exists>nodes. trie_build [1, 1] [1, 2] [Sym_Len 0 1, Sym_Len 1 2] [trie_node] = Some nodes \<and>
    length nodes \<le> MAX_NODES \<and> list_all (\<lambda>nd. trie_child nd True < int (length nodes)) nodes"
proof -
  obtain nodes where n: "trie_build [1, 1] [1, 2] [Sym_Len 0 1, Sym_Len 1 2] [trie_node] = Some nodes"
    by (auto simp: MAX_NODES_def trie_node_def trie_child_def trie_set_child_def numeral_2_eq_2 Let_def)
  with huffman_tree_safe [OF n] show ?thesis by (auto simp: list_all_iff)
qed

end
