(* ===== verification/Huffman_Decode.thy ===== *)
theory Huffman_Decode
  imports Huffman_Trie
begin

text \<open>
  \<^verbatim>\<open>decode_sym\<close> of \<^verbatim>\<open>codec/mz_huf.c\<close> returns the one symbol whose code word the stream
  starts with, whether the ten-bit table or the tree finds it, and consumes exactly that word; so
  decoding inverts the encoder.
\<close>

section \<open>Walking the tree\<close>

lemma length_br_bits: "br_good br \<Longrightarrow> br_left br = length (br_bits br)"
  by (simp add: br_left_def br_bits_def)

lemma trie_holds_root: "trie_holds w A nodes addr \<Longrightarrow> 0 < length nodes \<and> addr ! 0 = []"
  by (simp add: trie_holds_def)

lemma tree_walk_word:
  assumes holds: "trie_holds w A nodes addr" and s: "s \<in> A"
    and free: "\<forall>s\<in>A. \<forall>t\<in>A. prefix (w s) (w t) \<longrightarrow> s = t"
  shows "br_good br \<Longrightarrow> br_bits br = u @ rest \<Longrightarrow> length u \<le> fuel \<Longrightarrow> k < length nodes \<Longrightarrow>
    w s = addr ! k @ u \<Longrightarrow>
    \<exists>br'. tree_walk fuel br nodes (int k) = (int s, br') \<and> br_good br' \<and> br_bits br' = rest"
proof (induction u arbitrary: br fuel k)
  case Nil
  then have "n_sym (nodes ! k) = int s" using holds s by (auto simp: trie_holds_def)
  then show ?case using Nil by (simp add: tree_walk.simps [of fuel br])
next
  case (Cons b u)
  have ok: "trie_ok nodes addr" using holds by (simp add: trie_holds_def)
  then have len: "length addr = length nodes" by (simp add: trie_ok_def)
  obtain f where f: "fuel = Suc f" using Cons.prems(3) by (cases fuel) auto
  have "addr ! k \<notin> w ` A"
  proof
    assume "addr ! k \<in> w ` A"
    then obtain t where "t \<in> A" "addr ! k = w t" by auto
    then show False using free s Cons.prems(5) by (metis append_self_conv list.distinct(1) prefixI)
  qed
  then have inner: "n_sym (nodes ! k) = -1" using holds Cons.prems(4) by (simp add: trie_holds_def)
  have "addr ! k @ [b] \<in> set addr"
  proof -
    have "prefix (addr ! k @ [b]) (w s)" using Cons.prems(5) by (simp add: prefix_def)
    then show ?thesis using holds s by (auto simp: trie_holds_def code_prefixes_def)
  qed
  then obtain j where j: "j < length nodes" "addr ! j = addr ! k @ [b]"
    using len by (metis in_set_conv_nth)
  then have child: "trie_child (nodes ! k) b = int j"
    using ok Cons.prems(4) by (auto simp: trie_ok_def)
  obtain ok1 br1 where fill: "br_fill br 1 = (ok1, br1)" by fastforce
  from br.next_bit [OF Cons.prems(1), of b "u @ rest"] fill Cons.prems(2)
  have nb: "ok1" "unat (br_peek br1 1) = of_bool b" "br_good (br_consume br1 1)"
    "br_bits (br_consume br1 1) = u @ rest"
    by auto
  have "br_peek br1 1 = 0 \<longleftrightarrow> \<not> b" using nb(2) by (simp add: unat_eq_0 flip: unat_eq_zero)
  then have "tree_walk fuel br nodes (int k) = tree_walk f (br_consume br1 1) nodes (int j)"
    using inner fill nb(1) child f
    by (subst tree_walk.simps) (auto simp: Let_def trie_child_def)
  then show ?case
    using Cons.IH [OF nb(3,4), of f j] j Cons.prems(3,5) f by simp
qed

section \<open>The lookup table\<close>

definition entry_for :: "u32 list \<Rightarrow> nat list \<Rightarrow> nat \<Rightarrow> nat \<Rightarrow> bool" where
  "entry_for codes lens s key \<longleftrightarrow> key div 2 ^ (DECODE_TABLE_BITS - lens ! s) = unat (codes ! s)"

lemma fill_entries_nth:
  assumes "unat code < 2 ^ (32 - shift)" "shift < 32" "length table = DECODE_TABLE_SIZE"
  shows "\<forall>j\<in>set js. j < 2 ^ shift \<Longrightarrow> length (fill_entries code shift e js table) = DECODE_TABLE_SIZE \<and>
    (\<forall>key<DECODE_TABLE_SIZE. fill_entries code shift e js table ! key =
       (if key div 2 ^ shift = unat code \<and> key mod 2 ^ shift \<in> set js then e else table ! key))"
  using assms(3)
proof (induction js arbitrary: table)
  case (Cons j js)
  have j: "j < 2 ^ shift" using Cons.prems by simp
  have fits: "unat code * 2 ^ shift + j < 2 ^ 32"
  proof -
    have "(unat code + 1) * 2 ^ shift \<le> 2 ^ (32 - shift) * 2 ^ shift"
      by (intro mult_le_mono1) (use assms(1) in simp)
    then show ?thesis using j assms(2) by (simp add: algebra_simps flip: power_add)
  qed
  have "word_of_nat (push_bit shift (unat code) OR j) = push_bit shift code OR word_of_nat j"
    by (simp add: of_nat_or_eq of_nat_push_bit)
  then have "push_bit shift code OR word_of_nat j = word_of_nat (unat code * 2 ^ shift + j)"
    using push_or_nat [OF j, of "unat code"] by (simp only: mult.commute)
  then have idx: "unat (push_bit shift code OR word_of_nat j) = unat code * 2 ^ shift + j"
    using fits by (simp add: unat_of_nat del: of_nat_add of_nat_mult)
  have key: "key = unat code * 2 ^ shift + j \<longleftrightarrow> key div 2 ^ shift = unat code \<and> key mod 2 ^ shift = j" for key
    using j div_mult_mod_eq [of key "2 ^ shift"] by auto
  let ?i = "unat code * 2 ^ shift + j"
  define table' where "table' = (if ?i < DECODE_TABLE_SIZE then table[?i := e] else table)"
  have tab: "length table' = DECODE_TABLE_SIZE"
    "table' ! k = (if k = ?i then e else table ! k)" if "k < DECODE_TABLE_SIZE" for k
    using Cons.prems that by (auto simp: table'_def)
  have eq: "fill_entries code shift e (j # js) table = fill_entries code shift e js table'"
    by (simp only: fill_entries.simps Let_def idx table'_def)
  have len: "length table' = DECODE_TABLE_SIZE" using Cons.prems by (auto simp: table'_def)
  show ?case
    unfolding eq
  proof (intro conjI allI impI)
    show "length (fill_entries code shift e js table') = DECODE_TABLE_SIZE"
      using Cons.IH [OF _ len] Cons.prems by simp
    fix k assume k: "k < DECODE_TABLE_SIZE"
    have "fill_entries code shift e js table' ! k =
        (if k div 2 ^ shift = unat code \<and> k mod 2 ^ shift \<in> set js then e else table' ! k)"
      using Cons.IH [OF _ len] Cons.prems k by simp
    then show "fill_entries code shift e js table' ! k =
        (if k div 2 ^ shift = unat code \<and> k mod 2 ^ shift \<in> set (j # js) then e else table ! k)"
      using tab(2) [OF k] key [of k] by auto
  qed
qed simp


lemma foldl_pick:
  "foldl (\<lambda>e s. if P s then g s else e) e0 us = e0 \<or>
    (\<exists>s\<in>set us. P s \<and> foldl (\<lambda>e s. if P s then g s else e) e0 us = g s)"
  by (induction us rule: rev_induct) auto

lemma fill_table_nth:
  assumes key: "key < DECODE_TABLE_SIZE"
  shows "\<forall>s\<in>set ss. unat (codes ! sl_sym s) < 2 ^ (lens ! sl_sym s) \<and> lens ! sl_sym s \<le> DECODE_TABLE_BITS \<Longrightarrow>
    length table = DECODE_TABLE_SIZE \<Longrightarrow>
    fill_table codes lens ss table ! key =
      foldl (\<lambda>e s. if entry_for codes lens (sl_sym s) key
        then \<lparr>e_sym = int (sl_sym s), e_len = lens ! sl_sym s\<rparr> else e) (table ! key) ss"
proof (induction ss arbitrary: table)
  case (Cons s ss)
  let ?len = "lens ! sl_sym s" and ?e = "\<lparr>e_sym = int (sl_sym s), e_len = lens ! sl_sym s\<rparr>"
  define sh where "sh = DECODE_TABLE_BITS - ?len"
  have len: "unat (codes ! sl_sym s) < 2 ^ ?len" "?len \<le> DECODE_TABLE_BITS" using Cons.prems by auto
  have "(2 :: nat) ^ ?len \<le> 2 ^ (32 - sh)"
    by (intro power_increasing) (use len(2) in \<open>auto simp: sh_def DECODE_TABLE_BITS_def\<close>)
  then have "unat (codes ! sl_sym s) < 2 ^ (32 - sh)" using len(1) by (rule less_le_trans [rotated])
  moreover have "sh < 32" by (simp add: sh_def DECODE_TABLE_BITS_def)
  ultimately have "length (fill_entries (codes ! sl_sym s) sh ?e [0..<2 ^ sh] table) = DECODE_TABLE_SIZE \<and>
      fill_entries (codes ! sl_sym s) sh ?e [0..<2 ^ sh] table ! key =
        (if entry_for codes lens (sl_sym s) key then ?e else table ! key)"
    using fill_entries_nth [of "codes ! sl_sym s" sh table "[0..<2 ^ sh]" ?e] Cons.prems key
    by (auto simp: entry_for_def simp flip: sh_def)
  then show ?case
    using Cons.IH [of "fill_entries (codes ! sl_sym s) sh ?e [0..<2 ^ sh] table"] Cons.prems
    by (simp add: Let_def flip: sh_def)
qed simp

lemma entry_for_prefix:
  assumes "key < DECODE_TABLE_SIZE" "lens ! s \<le> DECODE_TABLE_BITS" "unat (codes ! s) < 2 ^ (lens ! s)"
  shows "entry_for codes lens s key \<longleftrightarrow> prefix (huf_word codes lens s) (nat_bits key DECODE_TABLE_BITS)"
  using assms prefix_iff_val [of "huf_word codes lens s" "nat_bits key DECODE_TABLE_BITS"]
  by (auto simp: entry_for_def huf_word_def word_bits_unat msb_val_nat_bits DECODE_TABLE_BITS_def
      DECODE_TABLE_SIZE_def)

lemma decode_table_entry:
  assumes ct: "code_table U codes lens" and key: "key < DECODE_TABLE_SIZE"
  defines "e \<equiv> build_decode_table codes lens ! key"
  shows "(0 < e_len e \<longrightarrow> (\<exists>s\<in>U. e = \<lparr>e_sym = int s, e_len = lens ! s\<rparr> \<and>
      prefix (huf_word codes lens s) (nat_bits key DECODE_TABLE_BITS)))"
proof -
  let ?ss = "sorted_syms (\<lambda>l. l > 0 \<and> l \<le> DECODE_TABLE_BITS) lens"
  let ?f = "\<lambda>s. \<lparr>e_sym = int (sl_sym s), e_len = lens ! sl_sym s\<rparr>"
  have mem: "sl_sym s \<in> U \<and> lens ! sl_sym s \<le> DECODE_TABLE_BITS \<and>
      unat (codes ! sl_sym s) < 2 ^ (lens ! sl_sym s)" if "s \<in> set ?ss" for s
    using that ct by (auto simp: set_sorted_syms code_table_def)
  have "e = foldl (\<lambda>e s. if entry_for codes lens (sl_sym s) key then ?f s else e)
      (replicate DECODE_TABLE_SIZE \<lparr>e_sym = 0, e_len = 0\<rparr> ! key) ?ss"
    unfolding e_def build_decode_table_def by (rule fill_table_nth [OF key]) (use mem in auto)
  then have "e = foldl (\<lambda>e s. if entry_for codes lens (sl_sym s) key then ?f s else e) \<lparr>e_sym = 0, e_len = 0\<rparr> ?ss"
    using key by simp
  then have "e = \<lparr>e_sym = 0, e_len = 0\<rparr> \<or>
      (\<exists>s\<in>set ?ss. entry_for codes lens (sl_sym s) key \<and> e = ?f s)"
    using foldl_pick [of "\<lambda>s. entry_for codes lens (sl_sym s) key" ?f "\<lparr>e_sym = 0, e_len = 0\<rparr>" ?ss]
    by (simp only:)
  then show ?thesis
  proof
    assume "\<exists>s\<in>set ?ss. entry_for codes lens (sl_sym s) key \<and> e = ?f s"
    then obtain s where s: "s \<in> set ?ss" "entry_for codes lens (sl_sym s) key" "e = ?f s" by blast
    then show ?thesis using mem [OF s(1)] entry_for_prefix [OF key, of lens "sl_sym s" codes] by auto
  qed simp
qed

section \<open>Decoding one symbol\<close>

definition decoder_for :: "nat set \<Rightarrow> u32 list \<Rightarrow> nat list \<Rightarrow> huf_node list \<Rightarrow> bool" where
  "decoder_for U codes lens nodes \<longleftrightarrow> code_table U codes lens \<and>
     (\<exists>addr. trie_holds (huf_word codes lens) U nodes addr)"

lemma prefix_comparable: "prefix u xs \<Longrightarrow> prefix v xs \<Longrightarrow> prefix u v \<or> prefix v u"
  by (rule prefix_same_cases)

lemma decode_sym_word:
  assumes dec: "decoder_for U codes lens nodes" and s: "s \<in> U"
    and br: "br_good br" "br_bits br = huf_word codes lens s @ rest"
  shows "\<exists>br'. decode_sym br (build_decode_table codes lens) nodes 0 = (int s, br') \<and> br_good br' \<and>
    br_bits br' = rest"
proof -
  let ?w = "huf_word codes lens" and ?table = "build_decode_table codes lens"
  have ct: "code_table U codes lens" using dec by (simp add: decoder_for_def)
  obtain addr where holds: "trie_holds ?w U nodes addr" using dec by (auto simp: decoder_for_def)
  have free: "\<forall>s\<in>U. \<forall>t\<in>U. prefix (?w s) (?w t) \<longrightarrow> s = t" using ct by (simp add: code_table_def)
  obtain ok br1 where fill: "br_fill br DECODE_TABLE_BITS = (ok, br1)" by fastforce
  have f: "br_good br1" "br_bits br1 = br_bits br" "ok \<longleftrightarrow> DECODE_TABLE_BITS \<le> length (br_bits br)"
    "ok \<longrightarrow> DECODE_TABLE_BITS \<le> br_hold_bits br1"
    using br.fill [OF br(1) _ fill] by (auto simp: DECODE_TABLE_BITS_def)
  define key where "key = unat (br_peek br1 DECODE_TABLE_BITS)"
  show ?thesis
  proof (cases "ok \<and> key < DECODE_TABLE_SIZE \<and> 0 < e_len (?table ! key)")
    case True
    then obtain t where t: "t \<in> U" "?table ! key = \<lparr>e_sym = int t, e_len = lens ! t\<rparr>"
        "prefix (?w t) (nat_bits key DECODE_TABLE_BITS)"
      using decode_table_entry [OF ct, of key] by auto
    have val: "key = msb_val (take DECODE_TABLE_BITS (br_bits br))"
      using br.peek [OF f(1)] f True by (simp add: key_def)
    have "nat_bits key DECODE_TABLE_BITS = take DECODE_TABLE_BITS (br_bits br)"
    proof -
      have "length (take DECODE_TABLE_BITS (br_bits br)) = DECODE_TABLE_BITS" using f(3) True by simp
      then show ?thesis
        using nat_bits_msb_val [of "take DECODE_TABLE_BITS (br_bits br)"] val by metis
    qed
    then have "prefix (?w t) (br_bits br)"
      using t(3) by (metis prefix_order.trans take_is_prefix)
    moreover have "prefix (?w s) (br_bits br)" using br(2) by simp
    ultimately have "t = s" using prefix_comparable free s t(1) by blast
    have len: "length (?w s) = lens ! s" by (simp add: huf_word_def)
    have "length (?w t) \<le> DECODE_TABLE_BITS" using prefix_length_le [OF t(3)] by simp
    then have "lens ! s \<le> br_hold_bits br1" using f(4) True \<open>t = s\<close> len by simp
    then have "br_good (br_consume br1 (lens ! s)) \<and> br_bits (br_consume br1 (lens ! s)) = rest"
      using br.consume [OF f(1), of "lens ! s"] f(2) br(2) len by simp
    moreover have "decode_sym br ?table nodes 0 = (int s, br_consume br1 (lens ! s))"
      using True t(2) \<open>t = s\<close> fill by (simp add: decode_sym_def flip: key_def)
    ultimately show ?thesis by blast
  next
    case False
    have "decode_sym br ?table nodes 0 = tree_walk (br_left br1) br1 nodes 0"
      using False fill by (auto simp: decode_sym_def simp flip: key_def)
    moreover have "\<exists>br'. tree_walk (br_left br1) br1 nodes (int 0) = (int s, br') \<and> br_good br' \<and> br_bits br' = rest"
      using f(1,2) br(2) trie_holds_root [OF holds]
      by (intro tree_walk_word [OF holds s free, of br1 "?w s"]) (auto simp: length_br_bits)
    ultimately show ?thesis by simp
  qed
qed

lemma huf_decode_words:
  assumes dec: "decoder_for (unat ` U) codes lens nodes"
  shows "set data \<subseteq> U \<Longrightarrow> br_good br \<Longrightarrow>
    br_bits br = concat (map (\<lambda>b. huf_word codes lens (unat b)) data) @ rest \<Longrightarrow>
    \<exists>extra. huf_decode room br (build_decode_table codes lens) nodes 0 = take room data @ extra \<and>
      (room \<le> length data \<longrightarrow> extra = [])"
proof (induction data arbitrary: br room)
  case (Cons b data)
  show ?case
  proof (cases room)
    case (Suc r)
    obtain br' where br': "decode_sym br (build_decode_table codes lens) nodes 0 = (int (unat b), br')"
        "br_good br'" "br_bits br' = concat (map (\<lambda>b. huf_word codes lens (unat b)) data) @ rest"
      using decode_sym_word [OF dec, of "unat b" br] Cons.prems by auto
    have "word_of_int (int (unat b)) = b" by simp
    then show ?thesis
      using Cons.IH [OF _ br'(2,3), of r] Cons.prems br'(1) Suc by auto
  qed simp
qed auto

end
