(* ===== verification/Huffman_Roundtrip.thy ===== *)
theory Huffman_Roundtrip
  imports Huffman_Decode
begin

text \<open>
  The Huffman stage of \<^verbatim>\<open>codec/mz_huf.c\<close> end to end: what \<^verbatim>\<open>mz_huf_compress\<close> writes,
  \<^verbatim>\<open>mz_huf_decompress\<close> reads back.
\<close>

section \<open>The round trip\<close>

lemma huf_write_words:
  "bw_good bw \<Longrightarrow> huf_write codes lens bw data = Some bw' \<Longrightarrow>
    bw_good bw' \<and> bw_bits bw' = bw_bits bw @ concat (map (\<lambda>b. huf_word codes lens (unat b)) data)"
proof (induction data arbitrary: bw)
  case (Cons b data)
  then show ?case
    using bw_write_bits_correct [of bw "codes ! unat b" "lens ! unat b"]
    by (auto simp: huf_word_def split: option.splits)
qed simp

lemma huf_write_space:
  "bw_good bw \<Longrightarrow> \<forall>b\<in>set data. lens ! unat b \<le> L \<Longrightarrow> bw_pos bw + L * length data \<le> 8 * bw_cap bw \<Longrightarrow>
    \<exists>bw'. huf_write codes lens bw data = Some bw'"
proof (induction data arbitrary: bw)
  case (Cons b data)
  have "bw_pos bw + lens ! unat b \<le> 8 * bw_cap bw" using Cons.prems by simp
  then obtain bw1 where bw1: "bw_write_bits bw (codes ! unat b) (lens ! unat b) = Some bw1"
    using bw_write_bits_space [OF Cons.prems(1)] by blast
  have g: "bw_good bw1" "bw_cap bw1 = bw_cap bw" "bw_bits bw1 = bw_bits bw @ word_bits (codes ! unat b) (lens ! unat b)"
    using bw_write_bits_correct [OF Cons.prems(1) bw1] by auto
  have pos: "length (bw_bits w) = bw_pos w" if "bw_good w" for w
    using that by (auto simp: bw_bits_def bw_good_def bw_pos_def)
  have "bw_pos bw1 = bw_pos bw + lens ! unat b"
    using g(3) pos [OF g(1)] pos [OF Cons.prems(1)] by (metis length_append length_word_bits)
  then show ?case using Cons.IH [OF g(1)] Cons.prems bw1 g(2) by simp
qed simp

lemma code_table_free: "code_table U codes lens \<Longrightarrow> s \<in> U \<Longrightarrow> t \<in> U \<Longrightarrow>
    prefix (huf_word codes lens s) (huf_word codes lens t) \<Longrightarrow> s = t"
  by (auto simp: code_table_def)

text \<open>The decoder's tables, built from the lengths alone, decode the encoder's words.\<close>

lemma decoder_tables:
  assumes ct: "code_table U codes ls" and ne: "U \<noteq> {}"
    and ss: "ss = sorted_syms (\<lambda>l. l > 0) ls" 
  shows "\<exists>nodes. trie_build codes ls ss [trie_node] = Some nodes \<and> decoder_for U codes ls nodes"
proof -
  let ?w = "huf_word codes ls"
  have U: "U \<subseteq> {0..<MAX_SYMBOLS}" "\<And>i. i < MAX_SYMBOLS \<Longrightarrow> i \<in> U \<longleftrightarrow> 0 < ls ! i"
    using ct by (auto simp: code_table_def)
  have set: "sl_sym ` set ss = U"
    using U by (force simp: ss set_sorted_syms)
  have fin: "finite U" using U(1) finite_subset by blast
  have inj: "inj_on ?w U" using code_table_free [OF ct] by (auto simp: inj_on_def)
  have card: "card (insert [] (code_prefixes (?w ` U))) \<le> MAX_NODES"
  proof -
    have "card (insert [] (code_prefixes (?w ` U))) \<le> Suc (card (code_prefixes (?w ` U)))"
      by (rule card_insert_le_m1) simp_all
    then show ?thesis using ct by (simp add: code_table_def MAX_NODES_def)
  qed
  have "trie_holds ?w {} [trie_node] [[]]"
    using trie_ok_init by (simp add: trie_holds_def code_prefixes_def trie_node_def)
  then obtain nodes addr where "trie_build codes ls ss [trie_node] = Some nodes"
      "trie_holds ?w U nodes addr"
    using trie_build_holds [of ?w "{}" "[trie_node]" "[[]]" ss codes ls] sorted_syms_distinct set inj card fin
    by (auto simp: ss huf_word_def)
  then show ?thesis using ct by (auto simp: decoder_for_def)
qed

lemma huf_header_parts:
  assumes "length ls = MAX_SYMBOLS" "\<forall>l\<in>set ls. l \<le> MAX_CODE_LEN"
  shows "length (huf_header ls) = 258"
    and "huf_read_lens (take MAX_SYMBOLS (drop 2 (huf_header ls @ xs))) = ls"
    and "(unat ((huf_header ls @ xs) ! 0) OR push_bit 8 (unat ((huf_header ls @ xs) ! 1))) = MAX_SYMBOLS"
    and "drop (2 + MAX_SYMBOLS) (huf_header ls @ xs) = xs"
proof -
  show "length (huf_header ls) = 258" using assms by (simp add: huf_header_def MAX_SYMBOLS_def)
  have "huf_read_lens (map word_of_nat ls) = ls"
    unfolding huf_read_lens_def map_map
    by (rule map_idI) (use assms(2) in \<open>auto simp: MAX_CODE_LEN_def\<close>)
  then show "huf_read_lens (take MAX_SYMBOLS (drop 2 (huf_header ls @ xs))) = ls"
    using assms(1) by (simp add: huf_header_def)
  show "(unat ((huf_header ls @ xs) ! 0) OR push_bit 8 (unat ((huf_header ls @ xs) ! 1))) = MAX_SYMBOLS"
    by (simp add: huf_header_def MAX_SYMBOLS_def)
  show "drop (2 + MAX_SYMBOLS) (huf_header ls @ xs) = xs"
    using assms(1) by (simp add: huf_header_def)
qed

text \<open>The lengths the encoder works with.\<close>

definition huf_code_lens :: "bytes \<Rightarrow> nat list" where
  "huf_code_lens data =
     (case build_tree (count_freqs data (replicate MAX_SYMBOLS 0)) of
        None \<Rightarrow> replicate MAX_SYMBOLS 0 | Some nodes \<Rightarrow> huf_lengths nodes)"

lemma huf_compress_cases:
  assumes data: "data \<noteq> []" "length data < 2 ^ 32" and le: "\<forall>l\<in>set (huf_code_lens data). l \<le> MAX_CODE_LEN"
  obtains codes where "make_canonical (huf_code_lens data) = (codes, huf_code_lens data)"
    "code_table (unat ` set data) codes (huf_code_lens data)"
    "mz_huf_compress data max_out =
      (if 2 + MAX_SYMBOLS > max_out then mz_fail MZ_ERR_STREAM
       else case huf_write codes (huf_code_lens data) (bw_init (max_out - (2 + MAX_SYMBOLS))) data of
          None \<Rightarrow> mz_fail MZ_ERR_STREAM
        | Some bw \<Rightarrow>
            if length (huf_header (huf_code_lens data) @ bw_result bw) \<ge> length data
            then \<lparr>ret_code = err_code MZ_ERR_DATA, ret_out = Some data\<rparr>
            else \<lparr>ret_code = MZ_OK, ret_out = Some (huf_header (huf_code_lens data) @ bw_result bw)\<rparr>)"
proof -
  obtain nodes where nodes: "build_tree (count_freqs data (replicate MAX_SYMBOLS 0)) = Some nodes"
      "tree_lengths (unat ` set data) (huf_lengths nodes)"
    using huf_tree_lengths [OF data] by blast
  have lens: "huf_code_lens data = huf_lengths nodes" using nodes(1) by (simp add: huf_code_lens_def)
  obtain codes clens where mc: "make_canonical (huf_lengths nodes) = (codes, clens)" by fastforce
  have "clens = huf_lengths nodes \<and> code_table (unat ` set data) codes (huf_lengths nodes)"
    using nodes(2) le mc by (intro make_canonical_table) (auto simp: lens MAX_SYMBOLS_def)
  then show thesis
    using that [of codes] mc nodes(1) data(1)
    by (simp add: lens mz_huf_compress_def Let_def split: option.splits)
qed

lemma huf_roundtrip_lens:
  assumes data: "length data < 2 ^ 32" and le: "\<forall>l\<in>set (huf_code_lens data). l \<le> MAX_CODE_LEN"
    and comp: "mz_huf_compress data max_out = \<lparr>ret_code = MZ_OK, ret_out = Some out\<rparr>"
    and room: "length data \<le> room"
  shows "\<exists>extra. mz_huf_decompress out room = \<lparr>ret_code = MZ_OK, ret_out = Some (data @ extra)\<rparr> \<and>
    (room = length data \<longrightarrow> extra = [])"
proof -
  let ?ls = "huf_code_lens data"
  have ne: "data \<noteq> []" using comp by (auto simp: mz_huf_compress_def mz_fail_def)
  obtain codes where mc: "make_canonical ?ls = (codes, ?ls)" and ct: "code_table (unat ` set data) codes ?ls"
    and eq: "mz_huf_compress data max_out =
      (if 2 + MAX_SYMBOLS > max_out then mz_fail MZ_ERR_STREAM
       else case huf_write codes ?ls (bw_init (max_out - (2 + MAX_SYMBOLS))) data of
          None \<Rightarrow> mz_fail MZ_ERR_STREAM
        | Some bw \<Rightarrow>
            if length (huf_header ?ls @ bw_result bw) \<ge> length data
            then \<lparr>ret_code = err_code MZ_ERR_DATA, ret_out = Some data\<rparr>
            else \<lparr>ret_code = MZ_OK, ret_out = Some (huf_header ?ls @ bw_result bw)\<rparr>)"
    by (rule huf_compress_cases [OF ne data le, of max_out])
  obtain bw where bw: "huf_write codes ?ls (bw_init (max_out - (2 + MAX_SYMBOLS))) data = Some bw"
      "out = huf_header ?ls @ bw_result bw"
    using comp eq by (auto simp: mz_fail_def MZ_OK_def split: if_splits option.splits)
  have "bw_good bw" "bw_bits bw = concat (map (\<lambda>b. huf_word codes ?ls (unat b)) data)"
    using huf_write_words [OF bw_good_init(1) bw(1)] bw_good_init(2) by auto
  then obtain pad where pad: "stream_bits (bw_result bw) =
      concat (map (\<lambda>b. huf_word codes ?ls (unat b)) data) @ replicate pad False"
    using bw_result_bits [of bw] by auto
  define ss where "ss = sorted_syms (\<lambda>l. l > 0) ?ls"
  obtain nodes where nodes: "trie_build codes ?ls ss [trie_node] = Some nodes"
      "decoder_for (unat ` set data) codes ?ls nodes"
    using decoder_tables [OF ct _ ss_def] ne by auto
  have "ss \<noteq> []"
  proof -
    have "unat (hd data) \<in> unat ` set data" using ne by simp
    moreover have "unat (hd data) < MAX_SYMBOLS" by (simp add: MAX_SYMBOLS_def)
    ultimately have "unat (hd data) < MAX_SYMBOLS" "0 < ?ls ! unat (hd data)"
      using ct by (auto simp: code_table_def)
    then have "Sym_Len (unat (hd data)) (?ls ! unat (hd data)) \<in> set ss"
      unfolding ss_def set_sorted_syms by blast
    then show ?thesis by auto
  qed
  have len: "length ?ls = MAX_SYMBOLS" using ct by (simp add: code_table_def)
  note header = huf_header_parts [OF len le]
  have ac: "assign_codes 0 0 ss (replicate MAX_SYMBOLS 0) (replicate MAX_SYMBOLS 0) = (codes, ?ls)"
    using mc by (simp add: make_canonical_def ss_def)
  have "mz_huf_decompress out room = \<lparr>ret_code = MZ_OK, ret_out =
      Some (huf_decode room (br_init (bw_result bw)) (build_decode_table codes ?ls) nodes 0)\<rparr>"
    using header \<open>ss \<noteq> []\<close> ac nodes(1)
    by (simp add: mz_huf_decompress_def Let_def bw(2) MAX_SYMBOLS_def flip: ss_def del: append_Cons)
  moreover obtain extra where
    "huf_decode room (br_init (bw_result bw)) (build_decode_table codes ?ls) nodes 0 = take room data @ extra"
    "room \<le> length data \<longrightarrow> extra = []"
    using huf_decode_words [OF nodes(2) order_refl br_good_init(1), of "bw_result bw" "replicate pad False" room]
      br_good_init(2) [of "bw_result bw"] pad by auto
  ultimately show ?thesis using room by auto
qed


lemma huf_compress_lens:
  assumes data: "data \<noteq> []" "length data < 2 ^ 32" and le: "\<forall>l\<in>set (huf_code_lens data). l \<le> MAX_CODE_LEN"
    and room: "258 + 4 * length data \<le> max_out"
  shows "(\<exists>out. mz_huf_compress data max_out = \<lparr>ret_code = MZ_OK, ret_out = Some out\<rparr> \<and> length out < length data) \<or>
    mz_huf_compress data max_out = \<lparr>ret_code = err_code MZ_ERR_DATA, ret_out = Some data\<rparr>"
proof -
  let ?ls = "huf_code_lens data"
  obtain codes where ct: "code_table (unat ` set data) codes ?ls"
    and eq: "mz_huf_compress data max_out =
      (if 2 + MAX_SYMBOLS > max_out then mz_fail MZ_ERR_STREAM
       else case huf_write codes ?ls (bw_init (max_out - (2 + MAX_SYMBOLS))) data of
          None \<Rightarrow> mz_fail MZ_ERR_STREAM
        | Some bw \<Rightarrow>
            if length (huf_header ?ls @ bw_result bw) \<ge> length data
            then \<lparr>ret_code = err_code MZ_ERR_DATA, ret_out = Some data\<rparr>
            else \<lparr>ret_code = MZ_OK, ret_out = Some (huf_header ?ls @ bw_result bw)\<rparr>)"
    by (rule huf_compress_cases [OF data le, of max_out])
  have "\<forall>b\<in>set data. ?ls ! unat b \<le> 32"
    using ct by (auto simp: code_table_def MAX_CODE_LEN_def)
  moreover have "bw_pos (bw_init n) + 32 * length data \<le> 8 * bw_cap (bw_init n)" if "4 * length data \<le> n" for n
    using that by (simp add: bw_init_def bw_pos_def)
  ultimately obtain bw where "huf_write codes ?ls (bw_init (max_out - (2 + MAX_SYMBOLS))) data = Some bw"
    using huf_write_space [OF bw_good_init(1), of data ?ls 32 "max_out - (2 + MAX_SYMBOLS)" codes] room
    by (auto simp: MAX_SYMBOLS_def)
  then show ?thesis using eq room by (auto simp: MAX_SYMBOLS_def)
qed

section \<open>Depth and the 32-bit limit\<close>

lemma fib_plus_5: "fib (n + 5) = 5 * fib (n + 1) + 3 * fib n" "fib (n + 6) = 8 * fib (n + 1) + 5 * fib n"
  by (simp_all add: eval_nat_numeral)

lemma fib_35: "fib 35 = 9227465"
  using fib_plus_5 [of 0] fib_plus_5 [of 5] fib_plus_5 [of 10] fib_plus_5 [of 15] fib_plus_5 [of 20]
    fib_plus_5 [of 25] fib_plus_5(1) [of 30] by simp

lemma huf_code_lens_depth:
  assumes "data \<noteq> []" "length data < 9227465"
  shows "\<forall>l\<in>set (huf_code_lens data). l \<le> MAX_CODE_LEN"
proof
  fix l assume l: "l \<in> set (huf_code_lens data)"
  have "length data < 2 ^ 32" using assms(2) by simp
  then obtain nodes where "build_tree (count_freqs data (replicate MAX_SYMBOLS 0)) = Some nodes"
      "\<forall>l\<in>set (huf_lengths nodes). l \<le> 1 \<or> fib (l + 2) \<le> length data"
    using huf_tree_lengths [OF assms(1)] by blast
  with l have "l \<le> 1 \<or> fib (l + 2) < fib 35"
    using assms(2) by (auto simp: huf_code_lens_def fib_35)
  then show "l \<le> MAX_CODE_LEN"
    using fib_mono [of 35 "l + 2"] by (fastforce simp: MAX_CODE_LEN_def not_less)
qed

text \<open>
  C2. Code lengths stay encodable: for every input shorter than the 35th Fibonacci number
  (9,227,465 bytes) no code that \<^verbatim>\<open>mz_huf.c\<close> assigns is longer than the 32 bits that its
  header and its \<^verbatim>\<open>unsigned\<close> codes can hold.
\<close>

theorem huffman_code_depth:
  assumes "data \<noteq> []" "length data < 9227465"
    and "build_tree (count_freqs data (replicate MAX_SYMBOLS 0)) = Some nodes"
  shows "\<forall>l\<in>set (huf_lengths nodes). l \<le> MAX_CODE_LEN"
  using huf_code_lens_depth [OF assms(1,2)] assms(3) by (simp add: huf_code_lens_def)

lemma huf_roundtrip_room:
  assumes "length data < 9227465"
    and "mz_huf_compress data max_out = \<lparr>ret_code = MZ_OK, ret_out = Some out\<rparr>"
    and "length data \<le> room"
  shows "\<exists>extra. mz_huf_decompress out room = \<lparr>ret_code = MZ_OK, ret_out = Some (data @ extra)\<rparr> \<and>
    (room = length data \<longrightarrow> extra = [])"
proof -
  have "data \<noteq> []" using assms(2) by (auto simp: mz_huf_compress_def mz_fail_def)
  then show ?thesis
    using huf_roundtrip_lens [OF _ huf_code_lens_depth assms(2,3)] assms(1) by simp
qed

text \<open>
  C1. Huffman round trip: whenever the compressor reports success, decompressing its output into a
  buffer of the original size gives the original bytes, and into a larger buffer the original bytes
  followed at most by what the padding bits decode to.
\<close>

theorem huffman_roundtrip:
  assumes "length data < 9227465"
    and "mz_huf_compress data max_out = \<lparr>ret_code = MZ_OK, ret_out = Some out\<rparr>"
    and "length data \<le> room"
  shows "\<exists>extra. mz_huf_decompress out room = \<lparr>ret_code = MZ_OK, ret_out = Some (data @ extra)\<rparr> \<and>
    (room = length data \<longrightarrow> extra = [])"
  using huf_roundtrip_room [OF assms] .

text \<open>
  Given room for four bytes per symbol, the Huffman compressor never fails: it either returns a
  strictly shorter encoding, or the data error together with the input itself.
\<close>

theorem huffman_compress_total:
  assumes "data \<noteq> []" "length data < 9227465" "258 + 4 * length data \<le> max_out"
  shows "(\<exists>out. mz_huf_compress data max_out = \<lparr>ret_code = MZ_OK, ret_out = Some out\<rparr> \<and>
      length out < length data) \<or>
    mz_huf_compress data max_out = \<lparr>ret_code = err_code MZ_ERR_DATA, ret_out = Some data\<rparr>"
  using huf_compress_lens [OF assms(1) _ huf_code_lens_depth [OF assms(1,2)] assms(3)] assms(2) by simp

theorem huffman_compress_total_witness:
  "(\<exists>out. mz_huf_compress [1, 2, 1] 1000 = \<lparr>ret_code = MZ_OK, ret_out = Some out\<rparr> \<and>
      length out < length [1 :: u8, 2, 1]) \<or>
    mz_huf_compress [1, 2, 1] 1000 = \<lparr>ret_code = err_code MZ_ERR_DATA, ret_out = Some [1, 2, 1]\<rparr>"
  by (rule huffman_compress_total) simp_all

text \<open>A run of one byte costs one bit per byte, which the witness below uses.\<close>

lemma bw_bits_length: "bw_good bw \<Longrightarrow> length (bw_bits bw) = bw_pos bw"
  by (auto simp: bw_bits_def bw_good_def bw_pos_def)

lemma huf_code_lens_run:
  assumes "0 < n" "n < 2 ^ 32"
  shows "huf_code_lens (replicate n b) = (replicate MAX_SYMBOLS 0)[unat b := 1]"
proof -
  have b: "unat b < MAX_SYMBOLS" by (simp add: MAX_SYMBOLS_def)
  have "used_syms (count_freqs (replicate n b) (replicate MAX_SYMBOLS 0)) =
      filter (\<lambda>i. i = unat b) [0..<MAX_SYMBOLS]"
    using used_syms_data [of "replicate n b"] assms by (simp add: set_replicate_conv_if)
  also have "filter (\<lambda>i. i = k) [0..<m] = [k]" if "k < m" for k m :: nat
    using that by (induction m) (auto simp: less_Suc_eq filter_empty_conv)
  note this [OF b]
  finally show ?thesis
    using build_tree_one [of "count_freqs (replicate n b) (replicate MAX_SYMBOLS 0)" "unat b"]
    by (auto simp: huf_code_lens_def)
qed

lemma huf_compress_run:
  assumes "n < 9227465" "258 + (n + 7) div 8 < n" "258 + 4 * n \<le> max_out"
  shows "\<exists>out. mz_huf_compress (replicate n b) max_out = \<lparr>ret_code = MZ_OK, ret_out = Some out\<rparr>"
proof -
  let ?data = "replicate n b" and ?cap = "max_out - (2 + MAX_SYMBOLS)"
  have n: "?data \<noteq> []" "length ?data < 2 ^ 32" using assms by auto
  have ls: "huf_code_lens ?data = (replicate MAX_SYMBOLS 0)[unat b := 1]"
    using huf_code_lens_run [of n b] assms by simp
  let ?ls = "huf_code_lens ?data"
  have b: "?ls ! unat b = 1" by (simp add: ls MAX_SYMBOLS_def)
  obtain codes where
    eq: "mz_huf_compress ?data max_out =
      (if 2 + MAX_SYMBOLS > max_out then mz_fail MZ_ERR_STREAM
       else case huf_write codes ?ls (bw_init ?cap) ?data of
          None \<Rightarrow> mz_fail MZ_ERR_STREAM
        | Some bw \<Rightarrow>
            if length (huf_header ?ls @ bw_result bw) \<ge> length ?data
            then \<lparr>ret_code = err_code MZ_ERR_DATA, ret_out = Some ?data\<rparr>
            else \<lparr>ret_code = MZ_OK, ret_out = Some (huf_header ?ls @ bw_result bw)\<rparr>)"
    using huf_compress_cases [OF n huf_code_lens_depth, of max_out] assms(1) n(1) by force
  have "n \<le> 8 * ?cap" using assms(3) unfolding MAX_SYMBOLS_def by linarith
  then have "bw_pos (bw_init ?cap) + 1 * length ?data \<le> 8 * bw_cap (bw_init ?cap)"
    by (simp add: bw_init_def bw_pos_def)
  then obtain bw where bw: "huf_write codes ?ls (bw_init ?cap) ?data = Some bw"
    using huf_write_space [OF bw_good_init(1), of ?data ?ls 1 ?cap codes] b by auto
  have good: "bw_good bw" "bw_bits bw = concat (map (\<lambda>b. huf_word codes ?ls (unat b)) ?data)"
    using huf_write_words [OF bw_good_init(1) bw] bw_good_init(2) by auto
  then have "bw_pos bw = n"
    using bw_bits_length [OF good(1)] b by (simp add: length_concat huf_word_def sum_list_replicate)
  then have "bw_bytes_used bw \<le> (n + 7) div 8"
    using good(1) by (auto simp: bw_bytes_used_def bw_pos_def)
  moreover have "length (bw_result bw) = bw_bytes_used bw" using bw_result_bits [OF good(1)] by auto
  moreover have "length (huf_header ?ls) = 258" by (simp add: huf_header_def ls MAX_SYMBOLS_def)
  ultimately show ?thesis using eq bw assms by (simp add: MAX_SYMBOLS_def)
qed

theorem huffman_roundtrip_witness:
  "\<exists>out extra. mz_huf_compress (replicate 400 7) 5000 = \<lparr>ret_code = MZ_OK, ret_out = Some out\<rparr> \<and>
    mz_huf_decompress out 500 = \<lparr>ret_code = MZ_OK, ret_out = Some (replicate 400 7 @ extra)\<rparr>"
proof -
  obtain out where out: "mz_huf_compress (replicate 400 7) 5000 = \<lparr>ret_code = MZ_OK, ret_out = Some out\<rparr>"
    using huf_compress_run [of 400 5000 7] by auto
  with huffman_roundtrip [OF _ this, of 500] show ?thesis by auto
qed

theorem huffman_code_depth_witness:
  "\<exists>nodes. build_tree (count_freqs [5, 5, 9] (replicate MAX_SYMBOLS 0)) = Some nodes \<and>
    list_all (\<lambda>l. l \<le> MAX_CODE_LEN) (huf_lengths nodes)"
proof -
  obtain nodes where "build_tree (count_freqs [5, 5, 9] (replicate MAX_SYMBOLS 0)) = Some nodes"
    using huf_tree_lengths [of "[5, 5, 9]"] by auto
  with huffman_code_depth [OF _ _ this] show ?thesis by (simp add: list_all_iff)
qed

end
