(* ===== verification/Deflate.thy ===== *)
theory Deflate
  imports Window Codec_Spec Prefix_Code
begin

text \<open>
  DEFLATE, \<^verbatim>\<open>codec/mz_deflate.c\<close>: the least-significant-bit-first reader (its C functions
  \<^verbatim>\<open>br_init\<close>, \<^verbatim>\<open>br_bit\<close>, \<^verbatim>\<open>br_bits\<close>, \<^verbatim>\<open>br_align\<close> carry the prefix \<open>dbr\<close>
  here), the decoding tables of counts and symbols, inflate for stored, fixed and dynamic blocks,
  and the compressor, which writes stored blocks. Every loop of the decoder is shown to terminate:
  each round reads at least one bit. Accesses outside an array are the outcome \<open>Undefined\<close>.
\<close>

section \<open>Bit reader, least significant bit first\<close>

record mz_bit_reader =
  dr_data :: bytes
  dr_byte_pos :: nat
  dr_bit_pos :: nat

definition dbr_init :: "bytes \<Rightarrow> mz_bit_reader" where
  "dbr_init data = \<lparr>dr_data = data, dr_byte_pos = 0, dr_bit_pos = 0\<rparr>"

definition dbr_bit :: "mz_bit_reader \<Rightarrow> int \<times> mz_bit_reader" where
  "dbr_bit br =
     (if dr_byte_pos br \<ge> length (dr_data br) then (-1, br)
      else
        let b = drop_bit (dr_bit_pos br) (dr_data br ! dr_byte_pos br) AND 1;
            br = br\<lparr>dr_bit_pos := dr_bit_pos br + 1\<rparr>;
            br = (if dr_bit_pos br \<ge> 8
                  then br\<lparr>dr_bit_pos := 0, dr_byte_pos := dr_byte_pos br + 1\<rparr> else br)
        in (uint b, br))"

text \<open>The loop of \<^verbatim>\<open>br_bits\<close>: \<open>i\<close> bits are in \<open>val\<close>, \<open>n\<close> are still to come.\<close>

fun dbr_bits_loop :: "nat \<Rightarrow> nat \<Rightarrow> u32 \<Rightarrow> mz_bit_reader \<Rightarrow> u32 \<times> mz_bit_reader" where
  "dbr_bits_loop i 0 val br = (val, br)"
| "dbr_bits_loop i (Suc n) val br =
     (case dbr_bit br of
        (b, br) \<Rightarrow> if b < 0 then (0, br)
          else dbr_bits_loop (Suc i) n (val OR push_bit i (word_of_int b)) br)"

definition dbr_bits :: "mz_bit_reader \<Rightarrow> nat \<Rightarrow> nat \<times> mz_bit_reader" where
  "dbr_bits br n = (case dbr_bits_loop 0 n 0 br of (v, br) \<Rightarrow> (unat v, br))"

definition dbr_align :: "mz_bit_reader \<Rightarrow> mz_bit_reader" where
  "dbr_align br =
     (if dr_bit_pos br > 0 then br\<lparr>dr_bit_pos := 0, dr_byte_pos := dr_byte_pos br + 1\<rparr> else br)"

text \<open>A measure of the bits still to be read: every bit that is read decreases it.\<close>

definition dbr_left :: "mz_bit_reader \<Rightarrow> nat" where
  "dbr_left br = 9 * (length (dr_data br) - dr_byte_pos br) - min (dr_bit_pos br) 8"

lemma dbr_bit_left:
  "dbr_bit br = (b, br') \<Longrightarrow> dbr_left br' \<le> dbr_left br \<and> (0 \<le> b \<longrightarrow> dbr_left br' < dbr_left br)"
  by (auto simp: dbr_bit_def dbr_left_def Let_def split: if_splits)

section \<open>Huffman tables of counts and symbols\<close>

definition MZ_MAX_HUFF_BITS :: nat where "MZ_MAX_HUFF_BITS = 15"
definition MZ_MAX_HUFF_SYMBOLS :: nat where "MZ_MAX_HUFF_SYMBOLS = 288"

record mz_huff_table =
  ht_counts :: "nat list"
  ht_symbols :: "nat list"

fun huff_count :: "nat list \<Rightarrow> nat list \<Rightarrow> nat list option" where
  "huff_count [] counts = Some counts"
| "huff_count (l # ls) counts =
     (if l > MZ_MAX_HUFF_BITS then None else huff_count ls (counts[l := counts ! l + 1]))"

text \<open>The check for an over-subscribed code, over the given list of lengths.\<close>

fun huff_left :: "nat list \<Rightarrow> nat list \<Rightarrow> int \<Rightarrow> int option" where
  "huff_left counts [] left = Some left"
| "huff_left counts (len # lens) left =
     (let left = left * 2 - int (counts ! len)
      in if left < 0 then None else huff_left counts lens left)"

fun huff_offsets :: "nat list \<Rightarrow> nat list \<Rightarrow> nat \<Rightarrow> nat list \<Rightarrow> nat list" where
  "huff_offsets counts [] off offsets = offsets"
| "huff_offsets counts (len # lens) off offsets =
     huff_offsets counts lens (off + counts ! len) (offsets[len := off])"

fun huff_place :: "nat list \<Rightarrow> nat list \<Rightarrow> nat list \<Rightarrow> nat list \<Rightarrow> nat list" where
  "huff_place lengths [] offsets symbols = symbols"
| "huff_place lengths (s # syms) offsets symbols =
     (if lengths ! s > 0 then
        let o1 = offsets ! (lengths ! s)
        in huff_place lengths syms (offsets[lengths ! s := o1 + 1]) (symbols[o1 := s])
      else huff_place lengths syms offsets symbols)"

text \<open>
  None is the return value -1. \<open>symbols\<close> starts as the contents of the caller's uninitialised
  array; the decoder only reads the slots that were filled.
\<close>

definition huff_build :: "nat list \<Rightarrow> nat list \<Rightarrow> (int \<times> mz_huff_table) option" where
  "huff_build symbols lengths =
     (case huff_count lengths (replicate (MZ_MAX_HUFF_BITS + 1) 0) of
        None \<Rightarrow> None
      | Some counts \<Rightarrow>
          let counts = counts[0 := 0];
              lens = [1..<MZ_MAX_HUFF_BITS + 1]
          in case huff_left counts lens 1 of
               None \<Rightarrow> None
             | Some left \<Rightarrow>
                 let offsets = huff_offsets counts lens 0 (replicate (MZ_MAX_HUFF_BITS + 1) 0);
                     symbols = huff_place lengths [0..<length lengths] offsets symbols
                 in Some (left, \<lparr>ht_counts = counts, ht_symbols = symbols\<rparr>))"

fun huff_decode_loop :: "nat \<Rightarrow> nat \<Rightarrow> int \<Rightarrow> int \<Rightarrow> int \<Rightarrow> mz_bit_reader \<Rightarrow> mz_huff_table
    \<Rightarrow> int \<times> mz_bit_reader" where
  "huff_decode_loop 0 len code first index br ht = (-1, br)"
| "huff_decode_loop (Suc n) len code first index br ht =
     (case dbr_bit br of
        (b, br) \<Rightarrow>
          if b < 0 then (-1, br)
          else
            let code = code OR b; count = int (ht_counts ht ! len)
            in if code - first < count then (int (ht_symbols ht ! nat (index + (code - first))), br)
               else huff_decode_loop n (Suc len) (code * 2) ((first + count) * 2) (index + count) br ht)"

definition huff_decode :: "mz_bit_reader \<Rightarrow> mz_huff_table \<Rightarrow> int \<times> mz_bit_reader" where
  "huff_decode br ht = huff_decode_loop MZ_MAX_HUFF_BITS 1 0 0 0 br ht"

section \<open>Length and distance tables\<close>

definition s_length_base :: "nat list" where
  "s_length_base =
     [3,4,5,6,7,8,9,10,11,13,15,17,19,23,27,31,35,43,51,59,67,83,99,115,131,163,195,227,258]"

definition s_length_extra :: "nat list" where
  "s_length_extra = [0,0,0,0,0,0,0,0,1,1,1,1,2,2,2,2,3,3,3,3,4,4,4,4,5,5,5,5,0]"

definition s_dist_base :: "nat list" where
  "s_dist_base =
     [1,2,3,4,5,7,9,13,17,25,33,49,65,97,129,193,257,385,513,769,1025,1537,2049,3073,
      4097,6145,8193,12289,16385,24577]"

definition s_dist_extra :: "nat list" where
  "s_dist_extra = [0,0,0,0,1,1,2,2,3,3,4,4,5,5,6,6,7,7,8,8,9,9,10,10,11,11,12,12,13,13]"

definition s_code_order :: "nat list" where
  "s_code_order = [16,17,18,0,8,7,9,6,10,5,11,4,12,3,13,2,14,1,15]"

section \<open>Inflate\<close>

text \<open>
  A step either completes, returns an error code, or leaves the C standard: \<open>Undefined\<close> is an
  access outside an array.
\<close>

datatype 'a outcome = Done 'a | Fail mz_err | Undefined

text \<open>The output buffer: its contents (\<^verbatim>\<open>out[0..out_pos)\<close>) and \<^verbatim>\<open>out_cap\<close>.\<close>

record inf_state =
  is_br :: mz_bit_reader
  is_out :: bytes
  is_cap :: nat

definition inf_stored :: "allocator \<Rightarrow> inf_state \<Rightarrow> inf_state outcome" where
  "inf_stored al s =
     (let br = dbr_align (is_br s); data = dr_data br; p = dr_byte_pos br in
      if p + 4 > length data then Fail MZ_ERR_DATA
      else
        let len = ucast (data ! p) OR push_bit 8 (ucast (data ! (p + 1))) :: u16;
            nlen = ucast (data ! (p + 2)) OR push_bit 8 (ucast (data ! (p + 3))) :: u16;
            p = p + 4; n = unat len
        in if NOT len \<noteq> nlen then Fail MZ_ERR_DATA
           else
             let cap = (if length (is_out s) + n > is_cap s then (is_cap s + n) * 2 else is_cap s)
             in if length (is_out s) + n > is_cap s \<and> \<not> al cap then Fail MZ_ERR_MEMORY
                else if p + n > length data then Fail MZ_ERR_DATA
                else Done \<lparr>is_br = br\<lparr>dr_byte_pos := p + n\<rparr>,
                           is_out = is_out s @ take n (drop p data), is_cap = cap\<rparr>)"

fun inf_copy :: "nat \<Rightarrow> nat \<Rightarrow> bytes \<Rightarrow> bytes" where
  "inf_copy 0 dist out = out"
| "inf_copy (Suc n) dist out = inf_copy n dist (out @ [out ! (length out - dist)])"

text \<open>The code lengths of a dynamic block; an array is its list, \<^verbatim>\<open>dist_lengths\<close> has 30 entries.\<close>

definition put_length :: "nat \<Rightarrow> nat \<Rightarrow> nat \<Rightarrow> nat list \<times> nat list \<Rightarrow> (nat list \<times> nat list) option" where
  "put_length hlit pos v a =
     (case a of (lit, dist) \<Rightarrow>
        if pos < hlit then (if pos < length lit then Some (lit[pos := v], dist) else None)
        else if pos - hlit < length dist then Some (lit, dist[pos - hlit := v]) else None)"

fun put_lengths :: "nat \<Rightarrow> nat \<Rightarrow> nat \<Rightarrow> nat \<Rightarrow> nat \<Rightarrow> nat list \<times> nat list
    \<Rightarrow> (nat \<times> nat list \<times> nat list) option" where
  "put_lengths 0 hlit tot pos v a = Some (pos, a)"
| "put_lengths (Suc rep) hlit tot pos v a =
     (if pos < tot then
        (case put_length hlit pos v a of
           None \<Rightarrow> None
         | Some a \<Rightarrow> put_lengths rep hlit tot (pos + 1) v a)
      else Some (pos, a))"

lemma huff_decode_loop_left:
  "huff_decode_loop n len code first index br ht = (s, br') \<Longrightarrow>
    dbr_left br' \<le> dbr_left br \<and> (0 \<le> s \<longrightarrow> dbr_left br' < dbr_left br)"
proof (induction n arbitrary: len code first index br)
  case (Suc n)
  obtain b br1 where b: "dbr_bit br = (b, br1)" by fastforce
  note left = dbr_bit_left [OF b]
  show ?case
    using Suc.prems b left Suc.IH [of "Suc len" "(code OR b) * 2" "(first + int (ht_counts ht ! len)) * 2"
        "index + int (ht_counts ht ! len)" br1]
    by (auto simp: Let_def split: if_splits)
qed simp

lemma huff_decode_left:
  "huff_decode br ht = (s, br') \<Longrightarrow> dbr_left br' \<le> dbr_left br \<and> (0 \<le> s \<longrightarrow> dbr_left br' < dbr_left br)"
  using huff_decode_loop_left by (simp add: huff_decode_def)

lemma dbr_bits_left: "dbr_bits br n = (v, br') \<Longrightarrow> dbr_left br' \<le> dbr_left br"
proof -
  have "dbr_bits_loop i n w br = (x, br') \<Longrightarrow> dbr_left br' \<le> dbr_left br" for i w x
  proof (induction n arbitrary: i w br)
    case (Suc n)
    obtain b br1 where b: "dbr_bit br = (b, br1)" by fastforce
    then show ?case
      using Suc.prems Suc.IH [of "Suc i" "w OR push_bit i (word_of_int b)" br1] dbr_bit_left [OF b]
      by (auto split: if_splits)
  qed simp
  then show "dbr_bits br n = (v, br') \<Longrightarrow> dbr_left br' \<le> dbr_left br"
    by (auto simp: dbr_bits_def split: prod.splits)
qed

function inf_lengths :: "mz_huff_table \<Rightarrow> nat \<Rightarrow> nat \<Rightarrow> nat \<Rightarrow> nat list \<times> nat list \<Rightarrow> mz_bit_reader
    \<Rightarrow> (mz_bit_reader \<times> nat list \<times> nat list) outcome" where
  "inf_lengths ht hlit tot pos a br =
     (if pos < tot then
        (case huff_decode br ht of
           (s, br) \<Rightarrow>
             if s < 0 then Fail MZ_ERR_DATA
             else if s < 16 then
               (case put_length hlit pos (nat s) a of
                  None \<Rightarrow> Undefined
                | Some a \<Rightarrow> inf_lengths ht hlit tot (pos + 1) a br)
             else if s = 16 then
               if pos = 0 then Fail MZ_ERR_DATA
               else
                 let (rep, br) = dbr_bits br 2;
                     prev = (if pos - 1 < hlit then fst a ! (pos - 1) else snd a ! (pos - 1 - hlit))
                 in (case put_lengths (rep + 3) hlit tot pos prev a of
                       None \<Rightarrow> Undefined
                     | Some (pos', a) \<Rightarrow> inf_lengths ht hlit tot pos' a br)
             else if s = 17 then
               let (rep, br) = dbr_bits br 3; pos' = pos + (rep + 3)
               in if pos' > tot then Fail MZ_ERR_DATA else inf_lengths ht hlit tot pos' a br
             else if s = 18 then
               let (rep, br) = dbr_bits br 7; pos' = pos + (rep + 11)
               in if pos' > tot then Fail MZ_ERR_DATA else inf_lengths ht hlit tot pos' a br
             else inf_lengths ht hlit tot pos a br)
      else Done (br, a))"
  by pat_completeness auto
termination
  by (relation "measure (\<lambda>(ht, hlit, tot, pos, a, br). dbr_left br)")
    (fastforce dest: huff_decode_left [OF sym] dbr_bits_left [OF sym])+

declare inf_lengths.simps [simp del]

text \<open>The loop that decodes the symbols of a block; it returns the value of \<^verbatim>\<open>bfinal\<close>'s test.\<close>

function inf_symbols :: "allocator \<Rightarrow> mz_huff_table \<Rightarrow> mz_huff_table \<Rightarrow> inf_state \<Rightarrow> inf_state outcome" where
  "inf_symbols al lit_ht dist_ht st =
     (case huff_decode (is_br st) lit_ht of
        (s, br) \<Rightarrow>
          if s < 0 then Fail MZ_ERR_DATA
          else if s < 256 then
            let grow = (length (is_out st) \<ge> is_cap st);
                cap = (if grow then is_cap st * 2 + 1024 else is_cap st)
            in if grow \<and> \<not> al cap then Fail MZ_ERR_MEMORY
               else inf_symbols al lit_ht dist_ht
                      \<lparr>is_br = br, is_out = is_out st @ [word_of_int s], is_cap = cap\<rparr>
          else if s = 256 then Done (st\<lparr>is_br := br\<rparr>)
          else
            let li = nat (s - 257) in
            if li \<ge> 29 then Fail MZ_ERR_DATA
            else
              let (extra, br) = dbr_bits br (s_length_extra ! li);
                  len = s_length_base ! li + extra;
                  (dsym, br) = huff_decode br dist_ht
              in if dsym < 0 \<or> dsym \<ge> 30 then Fail MZ_ERR_DATA
                 else
                   let (extra, br) = dbr_bits br (s_dist_extra ! nat dsym);
                       dist = s_dist_base ! nat dsym + extra
                   in if dist > length (is_out st) then Fail MZ_ERR_DATA
                      else
                        let grow = (length (is_out st) + len > is_cap st);
                            cap = (if grow then (is_cap st + len) * 2 else is_cap st)
                        in if grow \<and> \<not> al cap then Fail MZ_ERR_MEMORY
                           else inf_symbols al lit_ht dist_ht
                                  \<lparr>is_br = br, is_out = inf_copy len dist (is_out st), is_cap = cap\<rparr>)"
  by pat_completeness auto
termination
  by (relation "measure (\<lambda>(al, lit_ht, dist_ht, st). dbr_left (is_br st))")
    (fastforce dest: huff_decode_left [OF sym] dbr_bits_left [OF sym])+

declare inf_symbols.simps [simp del]

section \<open>Blocks\<close>

definition fixed_lit_lengths :: "nat list" where
  "fixed_lit_lengths =
     map (\<lambda>i. if i \<le> 143 then 8 else if i \<le> 255 then 9 else if i \<le> 279 then 7 else 8) [0..<288]"

definition fixed_dist_lengths :: "nat list" where
  "fixed_dist_lengths = replicate 30 5"

fun inf_code_lengths :: "nat list \<Rightarrow> mz_bit_reader \<Rightarrow> nat list \<Rightarrow> nat list \<times> mz_bit_reader" where
  "inf_code_lengths [] br lengths = (lengths, br)"
| "inf_code_lengths (i # order) br lengths =
     (case dbr_bits br 3 of (v, br) \<Rightarrow> inf_code_lengths order br (lengths[i := v]))"

text \<open>
  The tables of a dynamic block. The arrays hold \<open>hdist\<close> up to 32 while \<^verbatim>\<open>dist_lengths\<close> has
  30 entries, so reading or writing beyond is \<open>Undefined\<close>. \<open>sy\<close> is the uninitialised
  \<^verbatim>\<open>symbols\<close> array.
\<close>

definition inf_dynamic :: "nat list \<Rightarrow> mz_bit_reader
    \<Rightarrow> (mz_bit_reader \<times> mz_huff_table \<times> mz_huff_table) outcome" where
  "inf_dynamic sy br =
     (let (v1, br) = dbr_bits br 5; hlit = v1 + 257;
          (v2, br) = dbr_bits br 5; hdist = v2 + 1;
          (v3, br) = dbr_bits br 4; hclen = v3 + 4;
          (code_lengths, br) = inf_code_lengths (take hclen s_code_order) br (replicate 19 0)
      in case huff_build sy code_lengths of
           None \<Rightarrow> Fail MZ_ERR_DATA
         | Some (_, code_ht) \<Rightarrow>
             (case inf_lengths code_ht hlit (hlit + hdist) 0 (replicate 288 0, replicate 30 0) br of
                Fail e \<Rightarrow> Fail e
              | Undefined \<Rightarrow> Undefined
              | Done (br, lit_lengths, dist_lengths) \<Rightarrow>
                  (case huff_build sy (take hlit lit_lengths) of
                     None \<Rightarrow> Fail MZ_ERR_DATA
                   | Some (_, lit_ht) \<Rightarrow>
                       if hdist > length dist_lengths then Undefined
                       else
                         case huff_build sy (take hdist dist_lengths) of
                           None \<Rightarrow> Fail MZ_ERR_DATA
                         | Some (_, dist_ht) \<Rightarrow> Done (br, lit_ht, dist_ht))))"

text \<open>\<^verbatim>\<open>inflate_block\<close>: the flag returned says whether this was the final block.\<close>

definition inflate_block :: "nat list \<Rightarrow> allocator \<Rightarrow> inf_state \<Rightarrow> (bool \<times> inf_state) outcome" where
  "inflate_block sy al st =
     (case dbr_bit (is_br st) of
        (bfinal, br) \<Rightarrow>
          if bfinal < 0 then Fail MZ_ERR_DATA
          else
            let (btype, br) = dbr_bits br 2; st = st\<lparr>is_br := br\<rparr>;
                finish = (\<lambda>r. case r of Done st \<Rightarrow> Done (bfinal \<noteq> 0, st) | Fail e \<Rightarrow> Fail e
                                      | Undefined \<Rightarrow> Undefined)
            in if btype = 0 then finish (inf_stored al st)
               else if btype = 1 then
                 (case (huff_build sy fixed_lit_lengths, huff_build sy fixed_dist_lengths) of
                    (Some (_, lit_ht), Some (_, dist_ht)) \<Rightarrow> finish (inf_symbols al lit_ht dist_ht st)
                  | _ \<Rightarrow> Undefined)
               else if btype = 2 then
                 (case inf_dynamic sy br of
                    Done (br, lit_ht, dist_ht) \<Rightarrow> finish (inf_symbols al lit_ht dist_ht (st\<lparr>is_br := br\<rparr>))
                  | Fail e \<Rightarrow> Fail e
                  | Undefined \<Rightarrow> Undefined)
               else Fail MZ_ERR_DATA)"

lemma dbr_align_left: "dbr_left (dbr_align br) \<le> dbr_left br"
  by (auto simp: dbr_align_def dbr_left_def)

lemma inf_stored_left: "inf_stored al st = Done st' \<Longrightarrow> dbr_left (is_br st') \<le> dbr_left (is_br st)"
proof -
  have "dbr_left (br\<lparr>dr_byte_pos := dr_byte_pos br + k\<rparr>) \<le> dbr_left br" for br k
    by (simp add: dbr_left_def)
  moreover assume "inf_stored al st = Done st'"
  then obtain k where "is_br st' = (dbr_align (is_br st))\<lparr>dr_byte_pos := dr_byte_pos (dbr_align (is_br st)) + k\<rparr>"
    by (auto simp: inf_stored_def Let_def add.assoc split: if_splits)
  ultimately show ?thesis using dbr_align_left [of "is_br st"] le_trans by metis
qed

lemma inf_symbols_left: "inf_symbols al lit_ht dist_ht st = Done st' \<Longrightarrow> dbr_left (is_br st') \<le> dbr_left (is_br st)"
proof (induction "dbr_left (is_br st)" arbitrary: st rule: less_induct)
  case less
  obtain s br where d: "huff_decode (is_br st) lit_ht = (s, br)" by fastforce
  have next_block: "dbr_left (is_br st') \<le> dbr_left (is_br st)"
    if "inf_symbols al lit_ht dist_ht st1 = Done st'" "dbr_left (is_br st1) \<le> dbr_left br" "0 \<le> s" for st1
    using less.hyps [of st1] that huff_decode_left [OF d] by simp
  note prem = less.prems [unfolded inf_symbols.simps [of al lit_ht dist_ht st] d prod.case]
  consider (err) "s < 0" | (lit) "0 \<le> s" "s < 256" | (eob) "s = 256" | (copy) "0 \<le> s" "\<not> s < 256" "s \<noteq> 256" by linarith
  then show ?case
  proof cases
    case copy
    let ?li = "nat (s - 257)"
    obtain e1 br1 where e1: "dbr_bits br (s_length_extra ! ?li) = (e1, br1)" by fastforce
    obtain ds br2 where ds: "huff_decode br1 dist_ht = (ds, br2)" by fastforce
    obtain e2 br3 where e2: "dbr_bits br2 (s_dist_extra ! nat ds) = (e2, br3)" by fastforce
    have "dbr_left br3 \<le> dbr_left br"
      using dbr_bits_left [OF e1] huff_decode_left [OF ds] dbr_bits_left [OF e2] by linarith
    moreover obtain out cap where "inf_symbols al lit_ht dist_ht \<lparr>is_br = br3, is_out = out, is_cap = cap\<rparr> = Done st'"
      using prem copy by (auto simp: e1 ds e2 Let_def split: if_splits)
    ultimately show ?thesis using next_block copy by simp
  next
    case lit
    then obtain out cap where "inf_symbols al lit_ht dist_ht \<lparr>is_br = br, is_out = out, is_cap = cap\<rparr> = Done st'"
      using prem by (auto simp: Let_def split: if_splits)
    then show ?thesis using next_block lit by simp
  next
    case eob
    then show ?thesis using prem huff_decode_left [OF d] by auto
  qed (use prem in simp)
qed

lemma inf_code_lengths_left:
  "inf_code_lengths order br lengths = (lengths', br') \<Longrightarrow> dbr_left br' \<le> dbr_left br"
  by (induction order arbitrary: br lengths) (fastforce dest: dbr_bits_left split: prod.splits)+

lemma inf_lengths_left: "inf_lengths ht hlit tot pos a br = Done (br', a') \<Longrightarrow> dbr_left br' \<le> dbr_left br"
proof (induction "dbr_left br" arbitrary: pos a br rule: less_induct)
  case less
  obtain s br1 where d: "huff_decode br ht = (s, br1)" by fastforce
  obtain r2 br2 where r2: "dbr_bits br1 2 = (r2, br2)" by fastforce
  obtain r3 br3 where r3: "dbr_bits br1 3 = (r3, br3)" by fastforce
  obtain r7 br7 where r7: "dbr_bits br1 7 = (r7, br7)" by fastforce
  have step: "dbr_left br' \<le> dbr_left br"
    if "inf_lengths ht hlit tot pos1 a1 br0 = Done (br', a')" "\<not> s < 0" "dbr_left br0 \<le> dbr_left br1"
    for pos1 a1 br0
    using less.hyps [of br0 pos1 a1] that huff_decode_left [OF d] by fastforce
  show ?case
    using less.prems step dbr_bits_left [OF r2] dbr_bits_left [OF r3] dbr_bits_left [OF r7]
    by (subst (asm) inf_lengths.simps)
      (auto simp: d r2 r3 r7 Let_def split: if_splits option.splits)
qed

lemma inf_dynamic_left: "inf_dynamic sy br = Done (br', h1, h2) \<Longrightarrow> dbr_left br' \<le> dbr_left br"
  by (auto simp: inf_dynamic_def Let_def split: prod.splits option.splits outcome.splits if_splits
      dest!: dbr_bits_left inf_code_lengths_left inf_lengths_left)

lemma inflate_block_left:
  assumes "inflate_block sy al st = Done (fin, st')"
  shows "dbr_left (is_br st') < dbr_left (is_br st)"
proof -
  obtain b br where b: "dbr_bit (is_br st) = (b, br)" by fastforce
  obtain t br1 where t: "dbr_bits br 2 = (t, br1)" by fastforce
  have "0 \<le> b" using assms b by (auto simp: inflate_block_def split: if_splits)
  then have "dbr_left br1 < dbr_left (is_br st)"
    using dbr_bit_left [OF b] dbr_bits_left [OF t] by auto
  moreover have "dbr_left (is_br st') \<le> dbr_left br1"
    using assms \<open>0 \<le> b\<close>
    by (auto simp: inflate_block_def b t Let_def split: if_splits outcome.splits option.splits
        dest!: inf_stored_left inf_symbols_left inf_dynamic_left)
  ultimately show ?thesis by simp
qed

function inflate_loop :: "nat list \<Rightarrow> allocator \<Rightarrow> inf_state \<Rightarrow> bytes outcome" where
  "inflate_loop sy al st =
     (case inflate_block sy al st of
        Done (fin, st) \<Rightarrow> if fin then Done (is_out st) else inflate_loop sy al st
      | Fail e \<Rightarrow> Fail e
      | Undefined \<Rightarrow> Undefined)"
  by pat_completeness auto
termination
  by (relation "measure (\<lambda>(sy, al, st). dbr_left (is_br st))") (auto dest: inflate_block_left)

declare inflate_loop.simps [simp del]

section \<open>The codec\<close>

definition deflate_max_out :: "nat \<Rightarrow> nat" where
  "deflate_max_out inlen = inlen + (inlen + 65534) div 65535 * 5 + 1"

function deflate_blocks :: "bytes \<Rightarrow> bytes" where
  "deflate_blocks data =
     (if data \<noteq> [] then
        let block_len = (if length data > 65535 then 65535 else length data);
            is_final = (block_len \<ge> length data);
            nlen = NOT (word_of_nat block_len :: u16)
        in [if is_final then 0x01 else 0x00] @
           [word_of_nat (block_len AND 0xFF), word_of_nat (drop_bit 8 block_len AND 0xFF)] @
           [ucast (nlen AND 0xFF), ucast (drop_bit 8 nlen AND 0xFF)] @
           take block_len data @ deflate_blocks (drop block_len data)
      else [])"
  by pat_completeness auto
termination by (relation "measure length") auto

declare deflate_blocks.simps [simp del]

definition deflate_out :: "bytes \<Rightarrow> bytes" where
  "deflate_out data = deflate_blocks data @ (if data = [] then [0x01, 0x00, 0x00, 0xFF, 0xFF] else [])"

text \<open>
  None: the call has no defined behaviour, because it writes past the \<^verbatim>\<open>max_out\<close> bytes it
  allocated.
\<close>

definition mz_deflate_compress :: "allocator \<Rightarrow> bytes option \<Rightarrow> mz_ret option" where
  "mz_deflate_compress al input =
     (case input of
        None \<Rightarrow> Some (mz_fail MZ_ERR_PARAM)
      | Some data \<Rightarrow>
          if \<not> al (deflate_max_out (length data)) then Some (mz_fail MZ_ERR_MEMORY)
          else if length (deflate_out data) > deflate_max_out (length data) then None
          else Some (mz_ok (deflate_out data)))"

text \<open>None: the call has no defined behaviour.\<close>

definition mz_deflate_decompress :: "nat list \<Rightarrow> allocator \<Rightarrow> bytes option \<Rightarrow> mz_ret option" where
  "mz_deflate_decompress sy al input =
     (case input of
        None \<Rightarrow> Some (mz_fail MZ_ERR_PARAM)
      | Some data \<Rightarrow>
          if data = [] then Some (mz_fail MZ_ERR_DATA)
          else
            let out_cap = length data * 4 + 1024 in
            if \<not> al out_cap then Some (mz_fail MZ_ERR_MEMORY)
            else
              case inflate_loop sy al \<lparr>is_br = dbr_init data, is_out = [], is_cap = out_cap\<rparr> of
                Done out \<Rightarrow> Some (mz_ok out)
              | Fail e \<Rightarrow> Some (mz_fail e)
              | Undefined \<Rightarrow> None)"

end
