(* ===== verification/Deflate_Stored.thy ===== *)
theory Deflate_Stored
  imports Deflate
begin

text \<open>
  The stored-block side of \<^verbatim>\<open>codec/mz_deflate.c\<close>: the output buffer never holds more than its
  capacity, the compressor's output has the announced size, and inflate reads back what the
  compressor wrote. \<open>inf_copy\<close> is the \<open>history\<close> copy on the output itself.
\<close>

section \<open>Copies and the output buffer\<close>

interpretation out_hist: history "\<lambda>b out. out @ [b]" "\<lambda>out k. out ! (length out - k)" "\<lambda>out. out"
    "\<lambda>_. True" "\<lambda>_. True"
  by unfold_locales simp_all

lemma inf_copy_win: "inf_copy n dist out = win_copy (\<lambda>b out. out @ [b]) (\<lambda>out k. out ! (length out - k)) dist n out"
  by (induction n arbitrary: out) simp_all

lemma inf_copy_spec: "0 < dist \<Longrightarrow> dist \<le> length out \<Longrightarrow> inf_copy n dist out = lz_copy out dist n"
  using out_hist.copy_spec [where s = out and off = dist and n = n] by (simp add: inf_copy_win)

lemma length_inf_copy [simp]: "length (inf_copy n dist out) = length out + n"
  by (induction n arbitrary: out) simp_all

definition out_fits :: "inf_state \<Rightarrow> bool" where
  "out_fits st \<longleftrightarrow> length (is_out st) \<le> is_cap st"

lemma inf_stored_fits: "out_fits st \<Longrightarrow> inf_stored al st = Done st' \<Longrightarrow> out_fits st'"
  by (auto simp: inf_stored_def out_fits_def Let_def split: if_splits)

lemma inf_symbols_fits: "out_fits st \<Longrightarrow> inf_symbols al lit_ht dist_ht st = Done st' \<Longrightarrow> out_fits st'"
proof (induction "dbr_left (is_br st)" arbitrary: st rule: less_induct)
  case less
  obtain s br where d: "huff_decode (is_br st) lit_ht = (s, br)" by fastforce
  note prem = less.prems(2) [unfolded inf_symbols.simps [of al lit_ht dist_ht st] d prod.case]
  have fits: "length (is_out st) \<le> is_cap st" using less.prems(1) by (simp add: out_fits_def)
  consider (err) "s < 0" | (lit) "0 \<le> s" "s < 256" | (eob) "s = 256" | (copy) "0 \<le> s" "\<not> s < 256" "s \<noteq> 256"
    by linarith
  then show ?case
  proof cases
    case lit
    define cap where "cap = (if length (is_out st) \<ge> is_cap st then is_cap st * 2 + 1024 else is_cap st)"
    let ?st = "\<lparr>is_br = br, is_out = is_out st @ [word_of_int s], is_cap = cap\<rparr>"
    have "inf_symbols al lit_ht dist_ht ?st = Done st'"
      using prem lit by (auto simp: Let_def cap_def split: if_splits)
    moreover have "out_fits ?st" using fits by (auto simp: out_fits_def cap_def)
    ultimately show ?thesis using less.hyps [of ?st] huff_decode_left [OF d] lit by simp
  next
    case copy
    let ?li = "nat (s - 257)"
    obtain e1 br1 where e1: "dbr_bits br (s_length_extra ! ?li) = (e1, br1)" by fastforce
    obtain ds br2 where ds: "huff_decode br1 dist_ht = (ds, br2)" by fastforce
    obtain e2 br3 where e2: "dbr_bits br2 (s_dist_extra ! nat ds) = (e2, br3)" by fastforce
    have left: "dbr_left br3 < dbr_left (is_br st)"
      using dbr_bits_left [OF e1] huff_decode_left [OF ds] dbr_bits_left [OF e2] huff_decode_left [OF d] copy
      by linarith
    define len where "len = s_length_base ! ?li + e1"
    define cap where "cap = (if length (is_out st) + len > is_cap st then (is_cap st + len) * 2 else is_cap st)"
    let ?st = "\<lparr>is_br = br3, is_out = inf_copy len (s_dist_base ! nat ds + e2) (is_out st), is_cap = cap\<rparr>"
    have "inf_symbols al lit_ht dist_ht ?st = Done st'"
      using prem copy by (auto simp: e1 ds e2 Let_def cap_def len_def split: if_splits)
    moreover have "out_fits ?st" using fits by (auto simp: out_fits_def cap_def)
    ultimately show ?thesis using less.hyps [of ?st] left by simp
  qed (use prem less.prems in \<open>auto simp: out_fits_def\<close>)
qed

lemma inflate_block_fits:
  assumes "out_fits st" "inflate_block sy al st = Done (fin, st')"
  shows "out_fits st'"
proof -
  obtain b br where b: "dbr_bit (is_br st) = (b, br)" by fastforce
  obtain t br1 where t: "dbr_bits br 2 = (t, br1)" by fastforce
  have "out_fits (st\<lparr>is_br := x\<rparr>)" for x using assms(1) by (simp add: out_fits_def)
  then show ?thesis
    using assms(2)
    by (auto simp: inflate_block_def b t Let_def split: if_splits outcome.splits option.splits
        dest!: inf_stored_fits [rotated] inf_symbols_fits [rotated])
qed

lemma inflate_loop_fits:
  "out_fits st \<Longrightarrow> inflate_loop sy al st = Done out \<Longrightarrow> \<exists>st'. out_fits st' \<and> is_out st' = out"
proof (induction "dbr_left (is_br st)" arbitrary: st rule: less_induct)
  case less
  note prem = less.prems(2) [unfolded inflate_loop.simps [of sy al st]]
  show ?case
  proof (cases "inflate_block sy al st")
    case (Done r)
    obtain fin st1 where r: "r = (fin, st1)" by fastforce
    show ?thesis
    proof (cases fin)
      case True
      then show ?thesis using prem Done r inflate_block_fits [OF less.prems(1), of sy al] by auto
    next
      case False
      then show ?thesis
        using less.hyps [of st1] prem Done r inflate_block_fits [OF less.prems(1), of sy al]
          inflate_block_left [of sy al st] by auto
    qed
  qed (use prem in auto)
qed

section \<open>Stored blocks\<close>

lemma dbr_bit_head:
  assumes "dr_data br = pre @ b # rest" "dr_byte_pos br = length pre" "dr_bit_pos br < 7"
  shows "dbr_bit br = (of_bool (bit b (dr_bit_pos br)), br\<lparr>dr_bit_pos := dr_bit_pos br + 1\<rparr>)"
  using assms by (simp add: dbr_bit_def Let_def uint_and_1 bit_iff_odd_drop_bit [of b])

lemma of_nat_mod_256: "(word_of_nat (n mod 256) :: u8) = word_of_nat n"
  by (simp add: word_unat_eq_iff unat_of_nat)

lemma ucast_of_nat_u16: "(ucast (word_of_nat n :: u16) :: u8) = word_of_nat n"
  by (intro bit_word_eqI) (simp add: bit_simps)

lemma drop_bit_u16: "n < 65536 \<Longrightarrow> drop_bit k (word_of_nat n :: u16) = word_of_nat (drop_bit k n)"
  using bit_nat_less [of n 16] by (intro bit_word_eqI) (auto simp: bit_simps)

lemma stored_len:
  assumes "n < 65536"
  shows "(ucast (word_of_nat (n AND 0xFF) :: u8) OR push_bit 8 (ucast (word_of_nat (drop_bit 8 n AND 0xFF) :: u8)) :: u16) =
    word_of_nat n"
proof -
  have "(word_of_nat (n AND 0xFF) :: u8) = ucast (word_of_nat n :: u16)"
    by (simp only: nat_and_mask of_nat_mod_256 ucast_of_nat_u16)
  moreover have "(word_of_nat (drop_bit 8 n AND 0xFF) :: u8) = ucast (drop_bit 8 (word_of_nat n :: u16))"
    using assms by (simp only: nat_and_mask of_nat_mod_256) (simp add: drop_bit_u16 ucast_of_nat_u16)
  ultimately show ?thesis using bytes_join16 [of "word_of_nat n"] by simp
qed

lemma stored_nlen:
  "(ucast (ucast (v AND 0xFF) :: u8) OR push_bit 8 (ucast (ucast (drop_bit 8 v AND 0xFF) :: u8)) :: u16) = v"
  using bytes_join16 [of v] by simp

lemma block_head:
  assumes "dr_data br = pre @ (if fin then 1 else 0) # rest" "dr_byte_pos br = length pre" "dr_bit_pos br = 0"
  shows "dbr_bit br = (of_bool fin, br\<lparr>dr_bit_pos := 1\<rparr>)"
    and "dbr_bits (br\<lparr>dr_bit_pos := 1\<rparr>) 2 = (0, br\<lparr>dr_bit_pos := 3\<rparr>)"
  using assms
  by (auto simp: dbr_bits_def numeral_2_eq_2 dbr_bit_head [of _ pre _ rest] bit_1_iff)

definition stored_head :: "nat \<Rightarrow> bytes" where
  "stored_head n =
     (let nlen = NOT (word_of_nat n :: u16)
      in [word_of_nat (n AND 0xFF), word_of_nat (drop_bit 8 n AND 0xFF)] @
         [ucast (nlen AND 0xFF), ucast (drop_bit 8 nlen AND 0xFF)])"

lemma length_stored_head [simp]: "length (stored_head n) = 4"
  by (simp add: stored_head_def Let_def)

lemma inf_stored_block:
  assumes d: "dr_data (is_br st) = pre @ [h] @ stored_head (length pay) @ pay @ rest"
    and pos: "dr_byte_pos (is_br st) = length pre" "0 < dr_bit_pos (is_br st)"
    and n: "length pay < 65536" and cap: "length (is_out st) + length pay \<le> is_cap st"
  shows "inf_stored al st = Done \<lparr>
    is_br = (is_br st)\<lparr>dr_bit_pos := 0, dr_byte_pos := length pre + 5 + length pay\<rparr>,
    is_out = is_out st @ pay, is_cap = is_cap st\<rparr>"
proof -
  define v :: u16 where "v = word_of_nat (length pay)"
  have v: "unat v = length pay" using n by (simp add: v_def unat_of_nat)
  have hd: "stored_head (length pay) = [word_of_nat (length pay AND 0xFF), word_of_nat (drop_bit 8 (length pay) AND 0xFF),
      ucast (NOT v AND 0xFF), ucast (drop_bit 8 (NOT v) AND 0xFF)]"
    by (simp add: stored_head_def v_def Let_def)
  have at: "dr_data (is_br st) ! (length pre + 1 + k) = stored_head (length pay) ! k" if "k < 4" for k
    using that by (simp add: d nth_append)
  note at' = at [of 0] at [of 1] at [of 2] at [of 3]
  show ?thesis
    using pos cap at' stored_len [OF n] stored_nlen [of "NOT v"]
    by (simp add: inf_stored_def dbr_align_def Let_def hd d v_def [symmetric] v numeral_eq_Suc)
qed


lemma inflate_stored_block:
  assumes d: "dr_data (is_br st) = pre @ [if fin then 1 else 0] @ stored_head (length pay) @ pay @ rest"
    and pos: "dr_byte_pos (is_br st) = length pre" "dr_bit_pos (is_br st) = 0"
    and n: "length pay < 65536" and cap: "length (is_out st) + length pay \<le> is_cap st"
  shows "inflate_block sy al st = Done (fin, \<lparr>
    is_br = (is_br st)\<lparr>dr_bit_pos := 0, dr_byte_pos := length pre + 5 + length pay\<rparr>,
    is_out = is_out st @ pay, is_cap = is_cap st\<rparr>)"
proof -
  have d': "dr_data (is_br st) = pre @ (if fin then 1 else 0) # (stored_head (length pay) @ pay @ rest)"
    using d by simp
  define st3 where "st3 = st\<lparr>is_br := (is_br st)\<lparr>dr_bit_pos := 3\<rparr>\<rparr>"
  have "inf_stored al st3 = Done \<lparr>
    is_br = (is_br st3)\<lparr>dr_bit_pos := 0, dr_byte_pos := length pre + 5 + length pay\<rparr>,
    is_out = is_out st3 @ pay, is_cap = is_cap st3\<rparr>"
    by (rule inf_stored_block [OF _ _ _ n]) (use d pos cap in \<open>simp_all add: st3_def\<close>)
  then show ?thesis
    using block_head [OF d' pos] by (simp add: inflate_block_def st3_def)
qed

lemma deflate_blocks_step:
  "data \<noteq> [] \<Longrightarrow> deflate_blocks data =
     [if length data \<le> 65535 then 1 else 0] @ stored_head (length (take 65535 data)) @ take 65535 data @
     deflate_blocks (drop 65535 data)"
  by (subst deflate_blocks.simps) (auto simp: stored_head_def Let_def min_def deflate_blocks.simps [of "[]"])

lemma inflate_deflate_blocks:
  "dr_data (is_br st) = pre @ deflate_blocks data \<Longrightarrow> dr_byte_pos (is_br st) = length pre \<Longrightarrow>
    dr_bit_pos (is_br st) = 0 \<Longrightarrow> data \<noteq> [] \<Longrightarrow> length (is_out st) + length data \<le> is_cap st \<Longrightarrow>
    inflate_loop sy al st = Done (is_out st @ data)"
proof (induction "length data" arbitrary: data pre st rule: less_induct)
  case less
  define pay where "pay = take 65535 data"
  define fin where "fin = (length data \<le> 65535)"
  define st' where "st' = \<lparr>is_br = (is_br st)\<lparr>dr_bit_pos := 0, dr_byte_pos := length pre + 5 + length pay\<rparr>,
    is_out = is_out st @ pay, is_cap = is_cap st\<rparr>"
  have d: "dr_data (is_br st) = pre @ [if fin then 1 else 0] @ stored_head (length pay) @ pay @
      deflate_blocks (drop 65535 data)"
    using less.prems deflate_blocks_step [of data] by (simp add: pay_def fin_def)
  have "inflate_block sy al st = Done (fin, st')"
    unfolding st'_def by (rule inflate_stored_block [OF d]) (use less.prems in \<open>auto simp: pay_def\<close>)
  then have step: "inflate_loop sy al st = (if fin then Done (is_out st') else inflate_loop sy al st')"
    by (simp add: inflate_loop.simps [of sy al st])
  show ?case
  proof (cases fin)
    case True
    then show ?thesis using step by (simp add: st'_def pay_def fin_def)
  next
    case False
    then have long: "65535 < length data" by (simp add: fin_def)
    have "inflate_loop sy al st' = Done (is_out st' @ drop 65535 data)"
      using less.prems long
      by (intro less.hyps [of _ _ "pre @ [if fin then 1 else 0] @ stored_head (length pay) @ pay"])
        (auto simp: st'_def d, auto simp: pay_def)
    then show ?thesis using step False by (simp add: st'_def pay_def)
  qed
qed

lemma length_deflate_blocks:
  "length (deflate_blocks data) = length data + (length data + 65534) div 65535 * 5"
proof (induction "length data" arbitrary: data rule: less_induct)
  case less
  show ?case
  proof (cases "data = []")
    case True
    then show ?thesis by (simp add: deflate_blocks.simps)
  next
    case False
    then have "length (deflate_blocks data) = 5 + min (length data) 65535 + length (deflate_blocks (drop 65535 data))"
      by (simp add: deflate_blocks_step)
    also have "\<dots> = 5 + min (length data) 65535 + (length data - 65535 + (length data - 65535 + 65534) div 65535 * 5)"
      using less.hyps [of "drop 65535 data"] False by simp
    also have "\<dots> = length data + (length data + 65534) div 65535 * 5"
    proof (cases "length data \<le> 65535")
      case True
      then have "0 < length data" "length data \<le> 65535" using False by auto
      then have "(length data + 65534) div 65535 = 1" by (intro div_nat_eqI) (auto simp: Suc_le_eq)
      then show ?thesis using True by simp
    next
      case False
      then have "length data + 65534 = 65535 + (length data - 65535 + 65534)" by simp
      then have "(length data + 65534) div 65535 = 1 + (length data - 65535 + 65534) div 65535"
        by (metis div_add_self1 zero_neq_numeral add.commute)
      then show ?thesis using False by simp
    qed
    finally show ?thesis .
  qed
qed

text \<open>What the codec needs of the allocator, and an input that is not empty.\<close>

definition deflate_fits :: "allocator \<Rightarrow> bytes \<Rightarrow> bool" where
  "deflate_fits al xs \<longleftrightarrow> xs \<noteq> [] \<and> al (deflate_max_out (length xs)) \<and> al (length (deflate_out xs) * 4 + 1024)"

lemma deflate_compress_out:
  "deflate_fits al xs \<Longrightarrow> mz_deflate_compress al (Some xs) = Some (mz_ok (deflate_out xs))"
  by (simp add: deflate_fits_def mz_deflate_compress_def deflate_out_def deflate_max_out_def length_deflate_blocks)

lemma inflate_deflate:
  assumes "deflate_fits al xs"
  shows "mz_deflate_decompress sy al (Some (deflate_out xs)) = Some (mz_ok xs)"
proof -
  have ne: "xs \<noteq> []" and out: "deflate_out xs = deflate_blocks xs"
    using assms by (simp_all add: deflate_fits_def deflate_out_def)
  have "length xs \<le> length (deflate_blocks xs)" "deflate_blocks xs \<noteq> []"
    using ne deflate_blocks_step [of xs] by (simp_all add: length_deflate_blocks)
  then show ?thesis
    using inflate_deflate_blocks [of "\<lparr>is_br = dbr_init (deflate_blocks xs), is_out = [],
        is_cap = length (deflate_blocks xs) * 4 + 1024\<rparr>" "[]" xs sy al] ne assms out
    by (simp add: mz_deflate_decompress_def dbr_init_def deflate_fits_def)
qed

interpretation df: byte_codec "\<lambda>al xs (_ :: unit). the (mz_deflate_compress al (Some xs))"
    "\<lambda>al xs. the (mz_deflate_decompress sy al (Some xs))" deflate_fits
  for sy
  by unfold_locales (auto simp: deflate_compress_out inflate_deflate mz_ok_def)

text \<open>
  C37. Deflate round trip. On an input that is not empty and with memory for the two buffers,
  \<^verbatim>\<open>mz_deflate_compress\<close> succeeds within the buffer it allocated, and \<^verbatim>\<open>mz_deflate_decompress\<close>
  gives the input back, whatever the decoder's uninitialised arrays contain.
\<close>

theorem deflate_roundtrip:
  assumes "data \<noteq> []" "al (deflate_max_out (length data))" "al (length (deflate_out data) * 4 + 1024)"
  shows "\<exists>out. mz_deflate_compress al (Some data) = Some (mz_ok out) \<and>
    length out < deflate_max_out (length data) \<and>
    mz_deflate_decompress sy al (Some out) = Some (mz_ok data)"
proof -
  have fits: "deflate_fits al data" using assms by (simp add: deflate_fits_def)
  moreover have "length (deflate_out data) < deflate_max_out (length data)"
    using assms by (simp add: deflate_out_def deflate_max_out_def length_deflate_blocks)
  ultimately show ?thesis using deflate_compress_out inflate_deflate by blast
qed

theorem deflate_roundtrip_witness:
  "\<exists>out. mz_deflate_compress (\<lambda>n. n < 2000) (Some [1, 2, 3]) = Some (mz_ok out) \<and>
    mz_deflate_decompress [] (\<lambda>n. n < 2000) (Some out) = Some (mz_ok [1, 2, 3])"
proof -
  have "length (deflate_out [1, 2, 3]) = 8" by (simp add: deflate_out_def length_deflate_blocks)
  then show ?thesis
    using deflate_roundtrip [of "[1, 2, 3]" "\<lambda>n. n < 2000" "[]"] by (auto simp: deflate_max_out_def)
qed

text \<open>
  Deflate buffer bound. The compressor stays within the \<^verbatim>\<open>max_out\<close> bytes it allocated on
  every input but the empty one, where it allocates one byte and writes the five bytes of an empty
  stored block: a heap overflow.
\<close>

theorem deflate_compress_overflow:
  "mz_deflate_compress al (Some data) = None \<longleftrightarrow> data = [] \<and> al 1"
  by (auto simp: mz_deflate_compress_def deflate_out_def deflate_max_out_def length_deflate_blocks)

end
