(* ===== verification/Deflate_Huffman.thy ===== *)
theory Deflate_Huffman
  imports Deflate
begin

text \<open>
  The Huffman side of \<^verbatim>\<open>codec/mz_deflate.c\<close>. \<open>dbr_stream\<close> is the sequence of bits still to be read.
  \<open>level_lens\<close>, \<open>level_off\<close> and \<open>level_first\<close> are, for given numbers of codes per length, the sorted
  lengths, the index of the first symbol of a length and its first code; the table that
  \<^verbatim>\<open>huff_build\<close> makes holds exactly these, and the loop of \<^verbatim>\<open>huff_decode\<close> reads exactly the
  canonical code words.
\<close>

section \<open>The bits still to be read\<close>

definition lsb_bits :: "bytes \<Rightarrow> bool list" where
  "lsb_bits bs = concat (map (\<lambda>b. map (bit b) [0..<8]) bs)"

definition dbr_stream :: "mz_bit_reader \<Rightarrow> bool list" where
  "dbr_stream br = drop (8 * dr_byte_pos br + dr_bit_pos br) (lsb_bits (dr_data br))"

definition dbr_good :: "mz_bit_reader \<Rightarrow> bool" where
  "dbr_good br \<longleftrightarrow> dr_bit_pos br < 8"

lemma length_lsb_bits [simp]: "length (lsb_bits bs) = 8 * length bs"
  by (induction bs) (simp_all add: lsb_bits_def)

lemma nth_lsb_bits: "j < 8 \<Longrightarrow> i < length bs \<Longrightarrow> lsb_bits bs ! (8 * i + j) = bit (bs ! i) j"
proof (induction bs arbitrary: i)
  case (Cons b bs)
  then show ?case
    by (cases i) (simp_all add: lsb_bits_def nth_append)
qed simp

lemma dbr_bit_eof: "dbr_good br \<Longrightarrow> dbr_stream br = [] \<longleftrightarrow> length (dr_data br) \<le> dr_byte_pos br"
  by (auto simp: dbr_stream_def dbr_good_def)

lemma dbr_bit_Nil: "dbr_good br \<Longrightarrow> dbr_stream br = [] \<Longrightarrow> dbr_bit br = (-1, br)"
  by (simp add: dbr_bit_eof dbr_bit_def)

lemma dbr_bit_Cons:
  assumes good: "dbr_good br" and s: "dbr_stream br = b # bs"
  shows "\<exists>br'. dbr_bit br = (of_bool b, br') \<and> dbr_stream br' = bs \<and> dbr_good br'"
proof -
  have pos: "dr_byte_pos br < length (dr_data br)"
    using dbr_bit_eof [OF good] s by simp
  have j: "dr_bit_pos br < 8" using good by (simp add: dbr_good_def)
  let ?k = "8 * dr_byte_pos br + dr_bit_pos br"
  have k: "?k < length (lsb_bits (dr_data br))" using pos j by simp
  have "drop ?k (lsb_bits (dr_data br)) = bit (dr_data br ! dr_byte_pos br) (dr_bit_pos br) # drop (Suc ?k) (lsb_bits (dr_data br))"
    using Cons_nth_drop_Suc [OF k] nth_lsb_bits [OF j pos] by simp
  then have "b = bit (dr_data br ! dr_byte_pos br) (dr_bit_pos br)" "bs = drop (Suc ?k) (lsb_bits (dr_data br))"
    using s by (simp_all add: dbr_stream_def)
  moreover have "fst (dbr_bit br) = of_bool (bit (dr_data br ! dr_byte_pos br) (dr_bit_pos br))"
    using pos by (simp add: dbr_bit_def Let_def uint_and_1 bit_iff_odd_drop_bit [of "dr_data br ! dr_byte_pos br"])
  moreover have "dbr_stream (snd (dbr_bit br)) = drop (Suc ?k) (lsb_bits (dr_data br)) \<and> dbr_good (snd (dbr_bit br))"
    using pos j by (auto simp: dbr_bit_def Let_def dbr_stream_def dbr_good_def le_less_Suc_eq numeral_eq_Suc)
  ultimately show ?thesis by (intro exI [of _ "snd (dbr_bit br)"]) (simp add: prod_eq_iff)
qed

section \<open>Canonical lengths by level\<close>

definition level_lens :: "(nat \<Rightarrow> nat) \<Rightarrow> nat \<Rightarrow> nat list" where
  "level_lens c m = concat (map (\<lambda>l. replicate (c l) l) [1..<m])"

definition level_off :: "(nat \<Rightarrow> nat) \<Rightarrow> nat \<Rightarrow> nat" where
  "level_off c m = (\<Sum>l\<leftarrow>[1..<m]. c l)"

fun level_first :: "(nat \<Rightarrow> nat) \<Rightarrow> nat \<Rightarrow> nat" where
  "level_first c 0 = 0"
| "level_first c (Suc l) = (if l = 0 then 0 else 2 * (level_first c l + c l))"

lemma level_lens_Suc: "0 < l \<Longrightarrow> level_lens c (Suc l) = level_lens c l @ replicate (c l) l"
  by (simp add: level_lens_def)

lemma level_off_Suc: "0 < l \<Longrightarrow> level_off c (Suc l) = level_off c l + c l"
  by (simp add: level_off_def)

lemma length_level_lens [simp]: "length (level_lens c m) = level_off c m"
  by (induction m) (auto simp: level_lens_def level_off_def)

lemma level_lens_prefix: "l \<le> m \<Longrightarrow> \<exists>r. level_lens c m = level_lens c l @ r"
proof (induction rule: dec_induct)
  case (step k)
  then show ?case by (cases "k = 0") (auto simp: level_lens_Suc, simp add: level_lens_def)
qed simp

lemma take_level:
  assumes "0 < l" "l < m" "i \<le> c l"
  shows "take (level_off c l + i) (level_lens c m) = level_lens c l @ replicate i l"
proof -
  obtain r where "level_lens c m = level_lens c l @ replicate (c l) l @ r"
    using level_lens_prefix [of "Suc l" m c] assms by (auto simp: level_lens_Suc)
  then show ?thesis using assms by simp
qed

lemma nth_level:
  assumes "0 < l" "l < m" "i < c l"
  shows "level_lens c m ! (level_off c l + i) = l"
proof -
  obtain r where "level_lens c m = level_lens c l @ replicate (c l) l @ r"
    using level_lens_prefix [of "Suc l" m c] assms by (auto simp: level_lens_Suc)
  then show ?thesis using assms by (simp add: nth_append)
qed

lemma level_of:
  "k < level_off c m \<Longrightarrow> \<exists>l i. 0 < l \<and> l < m \<and> i < c l \<and> k = level_off c l + i"
proof (induction m)
  case (Suc m)
  show ?case
  proof (cases "k < level_off c m")
    case True
    then show ?thesis using Suc.IH by (metis less_SucI)
  next
    case False
    then have "0 < m" using Suc.prems by (cases m) (auto simp: level_off_def)
    then show ?thesis
      using False Suc.prems by (intro exI [of _ m] exI [of _ "k - level_off c m"]) (auto simp: level_off_Suc)
  qed
qed (simp add: level_off_def)

lemma kraft_level: "0 < l \<Longrightarrow> l \<le> Suc L \<Longrightarrow> 2 * kraft L (level_lens c l) = level_first c l * 2 ^ (Suc L - l)"
proof (induction l)
  case (Suc l)
  show ?case
  proof (cases "l = 0")
    case True
    then show ?thesis by (simp add: level_lens_def)
  next
    case False
    have rep: "kraft L (replicate n l) = n * 2 ^ (L - l)" for n by (simp add: kraft_def sum_list_replicate)
    have "(2 :: nat) ^ (Suc L - l) = 2 * 2 ^ (L - l)" using Suc.prems by (simp add: Suc_diff_le)
    then show ?thesis
      using Suc False by (simp add: level_lens_Suc rep algebra_simps)
  qed
qed simp


section \<open>Decoding one symbol\<close>

lemma level_code:
  assumes ok: "lens_ok 15 (level_lens c 16)" and l: "0 < l" "l < 16" "i < c l"
  shows "msb_val (code_words (level_lens c 16) ! (level_off c l + i)) = level_first c l + i"
    and "length (code_words (level_lens c 16) ! (level_off c l + i)) = l"
proof -
  let ?k = "level_off c l + i" and ?lens = "level_lens c 16"
  obtain r where r: "level_lens c 16 = level_lens c l @ replicate (c l) l @ r"
    using level_lens_prefix [of "Suc l" 16 c] l by (auto simp: level_lens_Suc)
  have k: "?k < length ?lens" using l arg_cong [OF r, of length] by simp
  have len: "?lens ! ?k = l" using nth_level [of l 16 i c] l by simp
  show cl: "length (code_words ?lens ! ?k) = l" using code_word_length k len by simp
  have e: "(2 :: nat) ^ (16 - l) = 2 * 2 ^ (15 - l)" using l by (simp flip: power_Suc)
  have "2 * (msb_val (code_words ?lens ! ?k) * 2 ^ (15 - l)) = 2 * kraft 15 (take ?k ?lens)"
    using code_word_interval [OF ok k] cl by simp
  also have "\<dots> = 2 * kraft 15 (level_lens c l) + 2 * (i * 2 ^ (15 - l))"
    using take_level [of l 16 i c] l by (simp add: kraft_def sum_list_replicate)
  also have "\<dots> = (level_first c l + i) * 2 ^ (16 - l)"
    using kraft_level [of l 15 c] l by (simp add: algebra_simps e)
  also have "\<dots> = 2 * ((level_first c l + i) * 2 ^ (15 - l))"
    by (simp add: e)
  finally show "msb_val (code_words ?lens ! ?k) = level_first c l + i" by simp
qed

lemma code_word_eqI:
  assumes ok: "lens_ok 15 (level_lens c 16)" and l: "0 < l" "l < 16" "i < c l"
    and w: "length w = l" "msb_val w = level_first c l + i"
  shows "code_words (level_lens c 16) ! (level_off c l + i) = w"
  using level_code [OF ok l] w msb_val_inject by metis

lemma or_of_bool_int: "(2 * x :: int) OR of_bool b = 2 * x + of_bool b"
  by (cases b) (simp_all add: or_one_eq)

definition table_holds :: "mz_huff_table \<Rightarrow> (nat \<Rightarrow> nat) \<Rightarrow> nat list \<Rightarrow> bool" where
  "table_holds ht c syms \<longleftrightarrow> lens_ok 15 (level_lens c 16) \<and> length syms = level_off c 16 \<and>
     (\<forall>l. 0 < l \<and> l < 16 \<longrightarrow> ht_counts ht ! l = c l) \<and> (\<forall>k<length syms. ht_symbols ht ! k = syms ! k)"

lemma huff_decode_loop_words:
  assumes ht: "table_holds ht c syms"
  shows "n + Suc (length w) = 16 \<Longrightarrow> dbr_good br \<Longrightarrow> level_first c (Suc (length w)) \<le> 2 * msb_val w \<Longrightarrow>
    huff_decode_loop n (Suc (length w)) (2 * int (msb_val w)) (int (level_first c (Suc (length w))))
      (int (level_off c (Suc (length w)))) br ht = (s, br') \<Longrightarrow>
    (\<exists>k<length syms. w @ dbr_stream br = code_words (level_lens c 16) ! k @ dbr_stream br' \<and>
        s = int (syms ! k) \<and> dbr_good br') \<or>
    s = -1 \<and> (\<forall>k<length syms. length w < level_lens c 16 ! k \<longrightarrow>
        \<not> prefix (code_words (level_lens c 16) ! k) (w @ dbr_stream br))"
proof (induction n arbitrary: w br)
  case 0
  have "level_lens c 16 ! k < 16" if "k < length syms" for k
    using level_of [of k c 16] nth_level ht that by (fastforce simp: table_holds_def)
  then show ?case using 0 by fastforce
next
  case (Suc n)
  let ?l = "Suc (length w)" and ?cw = "\<lambda>k. code_words (level_lens c 16) ! k"
  have ok: "lens_ok 15 (level_lens c 16)" and ns: "length syms = level_off c 16"
    and cnt: "ht_counts ht ! ?l = c ?l" and sy: "\<And>k. k < length syms \<Longrightarrow> ht_symbols ht ! k = syms ! k"
    using ht Suc.prems by (auto simp: table_holds_def)
  have l: "0 < ?l" "?l < 16" using Suc.prems by auto
  show ?case
  proof (cases "dbr_stream br")
    case Nil
    then have "s = -1" using Suc.prems dbr_bit_Nil [OF Suc.prems(2) Nil] by simp
    moreover have "\<not> prefix (?cw k) w" if "k < length syms" "length w < level_lens c 16 ! k" for k
      using that code_word_length [of k "level_lens c 16"] ns by (auto dest!: prefix_length_le)
    ultimately show ?thesis using Nil by simp
  next
    case (Cons b bs)
    then obtain br1 where br1: "dbr_bit br = (of_bool b, br1)" "dbr_stream br1 = bs" "dbr_good br1"
      using dbr_bit_Cons [OF Suc.prems(2)] by blast
    let ?w = "w @ [b]"
    have v: "2 * int (msb_val w) OR of_bool b = int (msb_val ?w)"
      by (simp add: or_of_bool_int msb_val_snoc)
    have ge: "level_first c ?l \<le> msb_val ?w" using Suc.prems(3) by (simp add: msb_val_snoc)
    define F where "F = level_first c ?l"
    define off where "off = level_off c ?l"
    have nb: "\<not> (of_bool b :: int) < 0" by simp
    have step: "(if int (msb_val ?w) - int F < int (c ?l)
        then (int (ht_symbols ht ! nat (int off + (int (msb_val ?w) - int F))), br1)
        else huff_decode_loop n (Suc ?l) (int (msb_val ?w) * 2) ((int F + int (c ?l)) * 2) (int off + int (c ?l)) br1 ht)
        = (s, br')"
      using Suc.prems(4) unfolding F_def [symmetric] off_def [symmetric] huff_decode_loop.simps br1 prod.case Let_def v cnt
        if_not_P [OF nb] .
    show ?thesis
    proof (cases "msb_val ?w - level_first c ?l < c ?l")
      case True
      define i where "i = msb_val ?w - level_first c ?l"
      have i: "i < c ?l" "msb_val ?w = level_first c ?l + i" using True ge by (auto simp: i_def)
      have cw: "?cw (level_off c ?l + i) = ?w" by (rule code_word_eqI [OF ok l i(1)]) (use i in simp_all)
      have "level_off c ?l + i < length syms"
        using level_off_Suc [of ?l c] i ns length_level_lens [of c 16] level_lens_prefix [of "Suc ?l" 16 c] l
        by (metis (no_types, lifting) Suc_leI add_less_cancel_left length_append length_level_lens order_less_le_trans le_add1)
      moreover have "s = int (ht_symbols ht ! (off + i)) \<and> br' = br1"
        using step i by (simp add: F_def [symmetric] nat_add_distrib del: level_first.simps)
      ultimately show ?thesis
        using br1 cw sy Cons
        by (intro disjI1 exI [of _ "level_off c ?l + i"]) (auto simp: off_def [symmetric] simp del: level_first.simps)
    next
      case False
      have nlt: "\<not> int (msb_val ?w) - int F < int (c ?l)"
        using False ge unfolding F_def by linarith
      have next_first: "level_first c (Suc ?l) = 2 * (level_first c ?l + c ?l)" by simp
      have "huff_decode_loop n (Suc (length ?w)) (2 * int (msb_val ?w)) (int (level_first c (Suc (length ?w))))
          (int (level_off c (Suc (length ?w)))) br1 ht = (s, br')"
        using step [unfolded if_not_P [OF nlt]] next_first
        by (simp add: level_off_Suc F_def [symmetric] off_def [symmetric] algebra_simps del: level_first.simps)
      moreover have "level_first c (Suc (length ?w)) \<le> 2 * msb_val ?w" using False ge by simp
      ultimately have IH: "(\<exists>k<length syms. ?w @ bs = ?cw k @ dbr_stream br' \<and> s = int (syms ! k) \<and> dbr_good br') \<or>
          s = -1 \<and> (\<forall>k<length syms. length ?w < level_lens c 16 ! k \<longrightarrow> \<not> prefix (?cw k) (?w @ bs))"
        using Suc.IH [of ?w br1] Suc.prems(1) br1 by simp
      have "\<not> prefix (?cw k) (?w @ bs)" if k: "k < length syms" "level_lens c 16 ! k = ?l" for k
      proof
        assume "prefix (?cw k) (?w @ bs)"
        then obtain zs where "?w @ bs = ?cw k @ zs" by (auto elim: prefixE)
        moreover have "length ?w = length (?cw k)" using k ns by (simp add: code_word_length)
        ultimately have "?cw k = ?w" using append_eq_append_conv [of ?w "?cw k" bs zs] by simp
        moreover obtain l' i where "0 < l'" "l' < 16" "i < c l'" "k = level_off c l' + i"
          using level_of [of k c 16] k ns by auto
        moreover from this have "l' = ?l" using nth_level [of l' 16 i c] k by simp
        ultimately show False using level_code(1) [OF ok, of ?l i] False by simp
      qed
      then show ?thesis using IH Cons by (auto simp: less_Suc_eq_le le_less)
    qed
  qed
qed


section \<open>Building the table\<close>

definition len_count :: "nat list \<Rightarrow> nat \<Rightarrow> nat" where
  "len_count lengths l = (if l = 0 then 0 else count_list lengths l)"

text \<open>The symbols in the order of their codes: by length, then by number.\<close>

definition huff_order :: "nat list \<Rightarrow> nat list" where
  "huff_order lengths =
     concat (map (\<lambda>l. filter (\<lambda>s. lengths ! s = l) [0..<length lengths]) [1..<MZ_MAX_HUFF_BITS + 1])"

lemma huff_count_some:
  "huff_count ls cs = Some cs' \<Longrightarrow> length cs = 16 \<Longrightarrow>
    length cs' = 16 \<and> (\<forall>l\<in>set ls. l \<le> 15) \<and> (\<forall>l<16. cs' ! l = cs ! l + count_list ls l)"
proof (induction ls cs rule: huff_count.induct)
  case (2 l ls counts)
  then have l: "l \<le> 15" and "huff_count ls (counts[l := counts ! l + 1]) = Some cs'"
    by (auto simp: MZ_MAX_HUFF_BITS_def split: if_splits)
  then show ?case using 2 by (auto simp: nth_list_update MZ_MAX_HUFF_BITS_def)
qed simp

lemma huff_left_append:
  "huff_left counts (xs @ ys) left =
    (case huff_left counts xs left of None \<Rightarrow> None | Some left \<Rightarrow> huff_left counts ys left)"
  by (induction xs arbitrary: left) (auto simp: Let_def)

lemma kraft_double: "\<forall>l\<in>set ls. l \<le> L \<Longrightarrow> kraft (Suc L) ls = 2 * kraft L ls"
  by (induction ls) (auto simp: Suc_diff_le)

lemma set_level_lens: "l \<in> set (level_lens c m) \<Longrightarrow> 0 < l \<and> l < m"
  by (auto simp: level_lens_def split: if_splits)

lemma huff_left_some:
  assumes c: "\<forall>l. 0 < l \<and> l < 16 \<longrightarrow> counts ! l = c l"
  shows "huff_left counts [1..<Suc m] 1 = Some left \<Longrightarrow> m < 16 \<Longrightarrow>
    0 \<le> left \<and> left = 2 ^ m - int (kraft m (level_lens c (Suc m)))"
proof (induction m arbitrary: left)
  case 0
  then show ?case by (simp add: level_lens_def)
next
  case (Suc m)
  obtain l0 where l0: "huff_left counts [1..<Suc m] 1 = Some l0"
    using Suc.prems by (auto simp: huff_left_append split: option.splits)
  then have left: "left = l0 * 2 - int (counts ! Suc m)" "0 \<le> left"
    using Suc.prems by (auto simp: huff_left_append Let_def split: if_splits)
  have "kraft (Suc m) (level_lens c (Suc m)) = 2 * kraft m (level_lens c (Suc m))"
    by (rule kraft_double) (auto dest: set_level_lens)
  moreover have "kraft (Suc m) (replicate n (Suc m)) = n" for n by (simp add: kraft_def sum_list_replicate)
  ultimately show ?case
    using Suc.IH [OF l0] Suc.prems(2) left c by (simp add: level_lens_Suc [of "Suc m"])
qed

lemma huff_offsets_frame: "l \<notin> set xs \<Longrightarrow> huff_offsets counts xs off offs ! l = offs ! l"
  by (induction xs arbitrary: off offs) auto

lemma length_huff_offsets [simp]: "length (huff_offsets counts xs off offs) = length offs"
  by (induction xs arbitrary: off offs) auto

lemma huff_offsets_nth:
  assumes c: "\<forall>l. 0 < l \<and> l < 16 \<longrightarrow> counts ! l = c l"
  shows "length offs = 16 \<Longrightarrow> m \<le> 16 \<Longrightarrow> 0 < k \<Longrightarrow> k \<le> l \<Longrightarrow> l < m \<Longrightarrow>
    huff_offsets counts [k..<m] (level_off c k) offs ! l = level_off c l"
proof (induction "m - k" arbitrary: k offs)
  case (Suc d)
  have k: "[k..<m] = k # [Suc k..<m]" using Suc by (simp add: upt_conv_Cons)
  have off: "level_off c k + counts ! k = level_off c (Suc k)"
    using c Suc.prems by (simp add: level_off_Suc)
  have "huff_offsets counts [k..<m] (level_off c k) offs =
      huff_offsets counts [Suc k..<m] (level_off c (Suc k)) (offs[k := level_off c k])"
    by (simp only: k huff_offsets.simps off)
  then show ?case
    using Suc.hyps(1) [of "Suc k" "offs[k := level_off c k]"] Suc.hyps(2) Suc.prems
    by (cases "l = k") (auto simp: huff_offsets_frame)
qed simp

text \<open>Where the symbols of one length go: from the offset of the length on, in order.\<close>

lemma huff_place_nth:
  "(\<forall>l l'. 0 < l \<and> l < l' \<and> l' < 16 \<longrightarrow>
      offs ! l + length (filter (\<lambda>s. lengths ! s = l) ss) \<le> offs ! l') \<Longrightarrow>
   (\<forall>l. 0 < l \<and> l < 16 \<longrightarrow> offs ! l + length (filter (\<lambda>s. lengths ! s = l) ss) \<le> length sy) \<Longrightarrow>
   length offs = 16 \<Longrightarrow> (\<forall>s\<in>set ss. lengths ! s < 16) \<Longrightarrow>
   (\<forall>l i. 0 < l \<and> l < 16 \<and> i < length (filter (\<lambda>s. lengths ! s = l) ss) \<longrightarrow>
      huff_place lengths ss offs sy ! (offs ! l + i) = filter (\<lambda>s. lengths ! s = l) ss ! i) \<and>
   (\<forall>p. (\<forall>l. 0 < l \<and> l < 16 \<longrightarrow> p < offs ! l \<or> offs ! l + length (filter (\<lambda>s. lengths ! s = l) ss) \<le> p) \<longrightarrow>
      huff_place lengths ss offs sy ! p = sy ! p)"
proof (induction ss arbitrary: offs sy)
  case (Cons s ss)
  let ?n = "\<lambda>l. length (filter (\<lambda>s. lengths ! s = l) ss)"
  show ?case
  proof (cases "lengths ! s = 0")
    case True
    then show ?thesis using Cons by simp
  next
    case False
    define l0 o0 where "l0 = lengths ! s" and "o0 = offs ! l0"
    have l0: "0 < l0" "l0 < 16" using False Cons.prems by (auto simp: l0_def)
    let ?offs = "offs[l0 := o0 + 1]" and ?sy = "sy[o0 := s]"
    have place: "huff_place lengths (s # ss) offs sy = huff_place lengths ss ?offs ?sy"
      using l0 by (simp add: l0_def o0_def Let_def)
    have o': "?offs ! l = (if l = l0 then o0 + 1 else offs ! l)" if "l < 16" for l
      using that l0 Cons.prems(3) by simp
    have cnt: "length (filter (\<lambda>s. lengths ! s = l) (s # ss)) = (if l = l0 then Suc (?n l) else ?n l)" for l
      by (auto simp: l0_def)
    have sep: "offs ! l + (if l = l0 then Suc (?n l) else ?n l) \<le> offs ! l'" if "0 < l" "l < l'" "l' < 16" for l l'
      using Cons.prems(1) that unfolding cnt by blast
    have fit: "offs ! l + (if l = l0 then Suc (?n l) else ?n l) \<le> length sy" if "0 < l" "l < 16" for l
      using Cons.prems(2) that unfolding cnt by blast
    have IH: "(\<forall>l i. 0 < l \<and> l < 16 \<and> i < ?n l \<longrightarrow>
        huff_place lengths ss ?offs ?sy ! (?offs ! l + i) = filter (\<lambda>s. lengths ! s = l) ss ! i) \<and>
      (\<forall>p. (\<forall>l. 0 < l \<and> l < 16 \<longrightarrow> p < ?offs ! l \<or> ?offs ! l + ?n l \<le> p) \<longrightarrow>
        huff_place lengths ss ?offs ?sy ! p = ?sy ! p)"
    proof (rule Cons.IH)
      show "\<forall>l l'. 0 < l \<and> l < l' \<and> l' < 16 \<longrightarrow> ?offs ! l + ?n l \<le> ?offs ! l'"
        using sep o' o0_def by (smt (verit) Suc_eq_plus1 add_Suc add_Suc_right add_leE le_Suc_eq less_trans nat_le_linear)
      show "\<forall>l. 0 < l \<and> l < 16 \<longrightarrow> ?offs ! l + ?n l \<le> length ?sy"
      proof (intro allI impI, elim conjE)
        fix l :: nat assume "0 < l" "l < 16"
        then show "?offs ! l + ?n l \<le> length ?sy"
          using fit [of l] o' [of l] by (simp add: o0_def split: if_splits)
      qed
    qed (use Cons.prems in auto)
    have here: "huff_place lengths ss ?offs ?sy ! o0 = s"
    proof -
      have "o0 < ?offs ! l \<or> ?offs ! l + ?n l \<le> o0" if "0 < l" "l < 16" for l
        using that o' [of l] sep [of l l0] sep [of l0 l] l0 o0_def by (cases l l0 rule: linorder_cases) auto
      then have "huff_place lengths ss ?offs ?sy ! o0 = ?sy ! o0" using IH by blast
      then show ?thesis using fit [of l0] l0 o0_def by simp
    qed
    have A: "huff_place lengths ss ?offs ?sy ! (offs ! l + i) = filter (\<lambda>s. lengths ! s = l) (s # ss) ! i"
      if l: "0 < l" "l < 16" and i: "i < length (filter (\<lambda>s. lengths ! s = l) (s # ss))" for l i
    proof (cases "l = l0")
      case True
      then have f: "filter (\<lambda>s. lengths ! s = l) (s # ss) = s # filter (\<lambda>s. lengths ! s = l) ss"
        by (simp add: l0_def)
      show ?thesis
      proof (cases i)
        case 0
        then show ?thesis using here True f by (simp add: o0_def)
      next
        case (Suc j)
        then have "j < ?n l" using i f by simp
        then have "huff_place lengths ss ?offs ?sy ! (?offs ! l + j) = filter (\<lambda>s. lengths ! s = l) ss ! j"
          using IH l by blast
        then show ?thesis using Suc True f o' [of l] l by (simp add: o0_def)
      qed
    next
      case False
      then have f: "filter (\<lambda>s. lengths ! s = l) (s # ss) = filter (\<lambda>s. lengths ! s = l) ss"
        by (auto simp: l0_def)
      then have "huff_place lengths ss ?offs ?sy ! (?offs ! l + i) = filter (\<lambda>s. lengths ! s = l) ss ! i"
        using IH l i by metis
      then show ?thesis using f False o' [of l] l by simp
    qed
    have B: "huff_place lengths ss ?offs ?sy ! p = sy ! p"
      if p: "\<forall>l. 0 < l \<and> l < 16 \<longrightarrow> p < offs ! l \<or> offs ! l + length (filter (\<lambda>s. lengths ! s = l) (s # ss)) \<le> p" for p
    proof -
      have "p < ?offs ! l \<or> ?offs ! l + ?n l \<le> p" if "0 < l" "l < 16" for l
        using p that o' [of l] unfolding cnt o0_def by (auto split: if_splits)
      then have "huff_place lengths ss ?offs ?sy ! p = ?sy ! p" using IH by blast
      moreover have "p \<noteq> o0" using p l0 unfolding cnt o0_def by auto
      ultimately show ?thesis by simp
    qed
    show ?thesis unfolding place using A B by blast
  qed
qed simp


lemma sum_count_list: "(\<Sum>l\<leftarrow>[1..<m]. count_list ls l) \<le> length ls"
proof (induction ls)
  case (Cons x xs)
  have "(\<Sum>l\<leftarrow>[1..<m]. count_list (x # xs) l) = (\<Sum>l\<leftarrow>[1..<m]. count_list xs l) + (\<Sum>l\<leftarrow>[1..<m]. if x = l then 1 else 0)"
    by (simp add: sum_list_addf [symmetric] if_distrib [of "\<lambda>n. _ + n"] cong: if_cong)
  also have "(\<Sum>l\<leftarrow>[1..<m]. if x = l then 1 else 0) \<le> (1 :: nat)"
    by (simp add: interv_sum_list_conv_sum_set_nat)
  finally show ?case using Cons by simp
qed simp

lemma length_filter_count: "length (filter (\<lambda>s. ls ! s = l) [0..<length ls]) = count_list ls l"
proof -
  have "count_list (map ((!) ls) [0..<length ls]) l = length (filter (\<lambda>s. ls ! s = l) [0..<length ls])"
    by (simp only: count_list_eq_length_filter filter_map o_def length_map eq_commute [of l])
  then show ?thesis by (simp add: map_nth)
qed

lemma level_off_count: "level_off (len_count lengths) m = (\<Sum>l\<leftarrow>[1..<m]. count_list lengths l)"
  unfolding level_off_def by (intro arg_cong [of _ _ sum_list] map_cong) (auto simp: len_count_def)

definition order_upto :: "nat list \<Rightarrow> nat \<Rightarrow> nat list" where
  "order_upto lengths m = concat (map (\<lambda>l. filter (\<lambda>s. lengths ! s = l) [0..<length lengths]) [1..<m])"

lemma order_upto_Suc:
  "0 < l \<Longrightarrow> order_upto lengths (Suc l) = order_upto lengths l @ filter (\<lambda>s. lengths ! s = l) [0..<length lengths]"
  by (simp add: order_upto_def)

lemma length_order_upto: "length (order_upto lengths m) = level_off (len_count lengths) m"
  by (simp add: order_upto_def level_off_count length_concat o_def length_filter_count)

lemma order_upto_prefix: "l \<le> m \<Longrightarrow> \<exists>r. order_upto lengths m = order_upto lengths l @ r"
proof (induction rule: dec_induct)
  case (step k)
  then show ?case by (cases "k = 0") (auto simp: order_upto_Suc, simp add: order_upto_def)
qed simp

lemma map_order_upto: "map ((!) lengths) (order_upto lengths m) = level_lens (len_count lengths) m"
proof (induction m)
  case (Suc m)
  have "map ((!) lengths) (filter (\<lambda>s. lengths ! s = l) ss) = replicate (length (filter (\<lambda>s. lengths ! s = l) ss)) l" for l ss
    by (induction ss) auto
  then show ?case
    using Suc by (cases "m = 0")
      (simp_all add: order_upto_Suc level_lens_Suc length_filter_count len_count_def, simp add: order_upto_def level_lens_def)
qed (simp add: order_upto_def level_lens_def)

lemma nth_order_upto:
  assumes "0 < l" "l < m" "i < count_list lengths l"
  shows "order_upto lengths m ! (level_off (len_count lengths) l + i) = filter (\<lambda>s. lengths ! s = l) [0..<length lengths] ! i"
proof -
  obtain r where "order_upto lengths m = order_upto lengths l @ filter (\<lambda>s. lengths ! s = l) [0..<length lengths] @ r"
    using order_upto_prefix [of "Suc l" m lengths] assms by (auto simp: order_upto_Suc)
  then show ?thesis using assms by (simp add: nth_append length_order_upto length_filter_count)
qed

lemma huff_order_upto: "huff_order lengths = order_upto lengths 16"
  by (simp add: huff_order_def order_upto_def MZ_MAX_HUFF_BITS_def)

lemma level_off_mono: "l \<le> m \<Longrightarrow> level_off c l \<le> level_off c m"
  using level_lens_prefix [of l m c] by (metis le_add1 length_append length_level_lens)

lemma sorted_level_lens: "sorted (level_lens c m)"
proof (induction m)
  case (Suc m)
  then show ?case
    by (cases "m = 0") (auto simp: level_lens_Suc sorted_append dest: set_level_lens, simp add: level_lens_def)
qed (simp add: level_lens_def)

lemma huff_build_holds:
  assumes b: "huff_build sy lengths = Some (left, ht)" and sy: "length lengths \<le> length sy"
  shows "table_holds ht (len_count lengths) (huff_order lengths)"
    and "left = 2 ^ 15 - int (kraft 15 (map ((!) lengths) (huff_order lengths)))"
proof -
  let ?c = "len_count lengths"
  obtain cs where cs: "huff_count lengths (replicate (MZ_MAX_HUFF_BITS + 1) 0) = Some cs"
    using b by (auto simp: huff_build_def split: option.splits)
  note cs' = huff_count_some [OF cs]
  have lens: "\<forall>l\<in>set lengths. l \<le> 15" and c: "\<forall>l. 0 < l \<and> l < 16 \<longrightarrow> cs[0 := 0] ! l = ?c l"
    using cs' by (simp_all add: MZ_MAX_HUFF_BITS_def len_count_def)
  define L where "L = [1..<MZ_MAX_HUFF_BITS + 1]"
  have L: "L = [1..<Suc 15]" "L = [1..<16]" by (simp_all only: L_def MZ_MAX_HUFF_BITS_def) simp_all
  define offs where "offs = huff_offsets (cs[0 := 0]) [1..<16] 0 (replicate 16 0)"
  have "huff_left (cs[0 := 0]) L 1 = Some left \<and>
      ht = \<lparr>ht_counts = cs[0 := 0],
        ht_symbols = huff_place lengths [0..<length lengths] (huff_offsets (cs[0 := 0]) L 0 (replicate (MZ_MAX_HUFF_BITS + 1) 0)) sy\<rparr>"
    using b unfolding huff_build_def cs option.case Let_def L_def [symmetric] by (auto split: option.splits)
  then have left: "huff_left (cs[0 := 0]) [1..<Suc 15] 1 = Some left"
    and ht: "ht = \<lparr>ht_counts = cs[0 := 0], ht_symbols = huff_place lengths [0..<length lengths] offs sy\<rparr>"
    unfolding offs_def L(2) [symmetric] L(1) [symmetric] by (simp_all add: MZ_MAX_HUFF_BITS_def)
  note kr = huff_left_some [OF c left]
  then show "left = 2 ^ 15 - int (kraft 15 (map ((!) lengths) (huff_order lengths)))"
    by (simp add: huff_order_upto map_order_upto)
  have off: "offs ! l = level_off ?c l" if "0 < l" "l < 16" for l
    using huff_offsets_nth [OF c, of "replicate 16 0" 16 1 l] that by (simp add: offs_def level_off_def)
  have sep: "level_off ?c l + count_list lengths l \<le> level_off ?c m" if "0 < l" "l < m" for l m
    using level_off_mono [of "Suc l" m ?c] that by (simp add: level_off_Suc len_count_def)
  have tot: "level_off ?c 16 \<le> length sy"
    using sum_count_list [of lengths 16] sy by (simp add: level_off_count)
  have place: "ht_symbols ht ! (level_off ?c l + i) = filter (\<lambda>s. lengths ! s = l) [0..<length lengths] ! i"
    if "0 < l" "l < 16" "i < count_list lengths l" for l i
  proof -
    have "\<forall>l l'. 0 < l \<and> l < l' \<and> l' < 16 \<longrightarrow>
        offs ! l + length (filter (\<lambda>s. lengths ! s = l) [0..<length lengths]) \<le> offs ! l'"
      using off sep by (simp add: length_filter_count)
    moreover have "\<forall>l. 0 < l \<and> l < 16 \<longrightarrow>
        offs ! l + length (filter (\<lambda>s. lengths ! s = l) [0..<length lengths]) \<le> length sy"
    proof (intro allI impI)
      fix l :: nat assume l: "0 < l \<and> l < 16"
      then have "level_off ?c l + count_list lengths l \<le> length sy"
        using sep [of l 16] tot by linarith
      then show "offs ! l + length (filter (\<lambda>s. lengths ! s = l) [0..<length lengths]) \<le> length sy"
        using off l by (simp only: length_filter_count)
    qed
    moreover have "\<forall>s\<in>set [0..<length lengths]. lengths ! s < 16"
    proof
      fix s assume "s \<in> set [0..<length lengths]"
      then have "lengths ! s \<in> set lengths" by simp
      then show "lengths ! s < 16" using lens by fastforce
    qed
    ultimately have "huff_place lengths [0..<length lengths] offs sy ! (offs ! l + i) =
        filter (\<lambda>s. lengths ! s = l) [0..<length lengths] ! i"
      using huff_place_nth [of offs lengths "[0..<length lengths]" sy] that
      by (simp only: length_filter_count) (simp add: offs_def)
    then show ?thesis using off that by (simp add: ht)
  qed
  show "table_holds ht ?c (huff_order lengths)"
    unfolding table_holds_def
  proof (intro conjI allI impI)
    have "kraft 15 (level_lens ?c 16) \<le> 2 ^ 15" using kr by simp
    then show "lens_ok 15 (level_lens ?c 16)"
      by (auto simp: lens_ok_def sorted_level_lens dest: set_level_lens)
    show "ht_symbols ht ! k = huff_order lengths ! k" if "k < length (huff_order lengths)" for k
      using level_of [of k ?c 16] that place nth_order_upto
      by (auto simp: huff_order_upto length_order_upto len_count_def)
  qed (use c in \<open>auto simp: ht huff_order_upto length_order_upto\<close>)
qed

text \<open>
  C36. Equivalence with canonical codes. Whenever \<^verbatim>\<open>huff_build\<close> accepts an array of code
  lengths, \<^verbatim>\<open>huff_decode\<close> on the table it made reads one canonical code word of these lengths
  (\<open>code_words\<close>, a prefix free code) off the front of the bit stream and returns its symbol, and it
  returns -1 exactly when no code word stands there.
\<close>

theorem huff_decode_canonical:
  assumes "huff_build sy lengths = Some (left, ht)" "length lengths \<le> length sy"
    and "dbr_good br" "huff_decode br ht = (s, br')"
  shows "(\<exists>k<length (huff_order lengths).
      dbr_stream br = code_words (map ((!) lengths) (huff_order lengths)) ! k @ dbr_stream br' \<and>
      s = int (huff_order lengths ! k)) \<or>
    s = -1 \<and> (\<forall>k<length (huff_order lengths).
      \<not> prefix (code_words (map ((!) lengths) (huff_order lengths)) ! k) (dbr_stream br))"
proof -
  have ht: "table_holds ht (len_count lengths) (huff_order lengths)"
    using huff_build_holds assms by blast
  have pos: "0 < level_lens (len_count lengths) 16 ! k" if "k < length (huff_order lengths)" for k
    using level_of [of k "len_count lengths" 16] that nth_level
    by (fastforce simp: huff_order_upto length_order_upto)
  show ?thesis
    using huff_decode_loop_words [OF ht, of 15 "[]" br s br'] assms pos
    by (auto simp: huff_decode_def MZ_MAX_HUFF_BITS_def level_off_def huff_order_upto map_order_upto)
qed

theorem huff_decode_canonical_witness:
  "huff_decode (dbr_init [0x03]) \<lparr>ht_counts = [0,1,2,0,0,0,0,0,0,0,0,0,0,0,0,0], ht_symbols = [1, 0, 2]\<rparr> = (2, \<lparr>dr_data = [0x03], dr_byte_pos = 0, dr_bit_pos = 2\<rparr>) \<and>
   (\<exists>k<length (huff_order [2,1,2]). dbr_stream (dbr_init [0x03]) =
      code_words (map ((!) [2,1,2]) (huff_order [2,1,2])) ! k @
        dbr_stream \<lparr>dr_data = [0x03], dr_byte_pos = 0, dr_bit_pos = 2\<rparr> \<and> 2 = int (huff_order [2,1,2] ! k))"
proof -
  have d: "huff_decode (dbr_init [0x03]) \<lparr>ht_counts = [0,1,2,0,0,0,0,0,0,0,0,0,0,0,0,0], ht_symbols = [1, 0, 2]\<rparr> = (2, \<lparr>dr_data = [0x03], dr_byte_pos = 0, dr_bit_pos = 2\<rparr>)"
    by code_simp
  have b: "huff_build [0,0,0] [2,1,2] = Some (0, \<lparr>ht_counts = [0,1,2,0,0,0,0,0,0,0,0,0,0,0,0,0], ht_symbols = [1, 0, 2]\<rparr>)"
    by code_simp
  show ?thesis
    using huff_decode_canonical [OF b _ _ d] d by (simp add: dbr_good_def dbr_init_def)
qed

end
