(* ===== verification/Deflate_Safety.thy ===== *)
theory Deflate_Safety
  imports Deflate_Huffman
begin

text \<open>
  Which inputs take \<^verbatim>\<open>codec/mz_deflate.c\<close> outside the C standard: the array accesses of a
  block are all in bounds, except those of the distance code lengths when the header announces more
  than the 30 entries of their array.
\<close>

lemma dbr_bits_less:
  assumes "dbr_bits br n = (v, br')"
  shows "v < 2 ^ n"
proof -
  have "(\<forall>k\<ge>i. \<not> bit w k) \<Longrightarrow> dbr_bits_loop i n w br = (x, br') \<Longrightarrow> (\<forall>k\<ge>i + n. \<not> bit x k)" for i w x br
  proof (induction n arbitrary: i w br)
    case (Suc n)
    obtain b br1 where b: "dbr_bit br = (b, br1)" by fastforce
    show ?case
    proof (cases "b < 0")
      case False
      then have "b = 0 \<or> b = 1"
        using b by (auto simp: dbr_bit_def Let_def uint_and_1 split: if_splits)
      then have "\<forall>k\<ge>Suc i. \<not> bit (w OR push_bit i (word_of_int b)) k"
        using Suc.prems(1) by (auto simp: bit_simps bit_1_iff)
      then show ?thesis using Suc.IH Suc.prems(2) b False by fastforce
    qed (use Suc.prems b in auto)
  qed simp
  note bits = this
  obtain x br2 where l: "dbr_bits_loop 0 n 0 br = (x, br2)" by fastforce
  then have "br2 = br'" and x: "v = unat x" "\<forall>k\<ge>n. \<not> bit x k"
    using assms bits [of 0 0 br x] by (auto simp: dbr_bits_def)
  have "take_bit n x = x"
    by (intro bit_eqI) (use x(2) in \<open>auto simp: bit_take_bit_iff intro: ccontr\<close>)
  then show ?thesis using x(1) by (metis take_bit_nat_less_exp unsigned_take_bit_eq)
qed

lemma put_length_some:
  assumes "pos < tot" "hlit \<le> length lit" "tot - hlit \<le> length dist" 
  shows "\<exists>lit' dist'. put_length hlit pos v (lit, dist) = Some (lit', dist') \<and> length lit' = length lit \<and> length dist' = length dist"
  using assms by (auto simp: put_length_def)

lemma put_lengths_some:
  assumes "hlit \<le> length lit" "tot - hlit \<le> length dist" 
  shows "\<exists>pos' lit' dist'. put_lengths rep hlit tot pos v (lit, dist) = Some (pos', lit', dist') \<and>
    length lit' = length lit \<and> length dist' = length dist"
  using assms
proof (induction rep arbitrary: pos lit dist)
  case (Suc rep)
  show ?case
  proof (cases "pos < tot")
    case True
    then obtain lit' dist' where *: "put_length hlit pos v (lit, dist) = Some (lit', dist')"
      "length lit' = length lit" "length dist' = length dist"
      using put_length_some Suc.prems by blast
    then show ?thesis using Suc.IH [of lit' dist' "pos + 1"] Suc.prems True by auto
  qed simp
qed simp

lemma inf_lengths_defined:
  assumes "hlit \<le> length (fst a)" "tot - hlit \<le> length (snd a)"
  shows "inf_lengths ht hlit tot pos a br \<noteq> Undefined \<and>
    (inf_lengths ht hlit tot pos a br = Done (br', a') \<longrightarrow>
      length (fst a') = length (fst a) \<and> length (snd a') = length (snd a))"
  using assms
proof (induction "dbr_left br" arbitrary: pos a br rule: less_induct)
  case less
  obtain s br1 where d: "huff_decode br ht = (s, br1)" by fastforce
  obtain r2 br2 where r2: "dbr_bits br1 2 = (r2, br2)" by fastforce
  obtain r3 br3 where r3: "dbr_bits br1 3 = (r3, br3)" by fastforce
  obtain r7 br7 where r7: "dbr_bits br1 7 = (r7, br7)" by fastforce
  obtain lit dist where a: "a = (lit, dist)" by fastforce
  have step: "inf_lengths ht hlit tot pos1 (lit1, dist1) br0 \<noteq> Undefined \<and>
      (inf_lengths ht hlit tot pos1 (lit1, dist1) br0 = Done (br', a') \<longrightarrow>
        length (fst a') = length (fst a) \<and> length (snd a') = length (snd a))"
    if "\<not> s < 0" "dbr_left br0 \<le> dbr_left br1" "length lit1 = length lit" "length dist1 = length dist" for pos1 lit1 dist1 br0
    using less.hyps [of br0 "(lit1, dist1)" pos1] less.prems that huff_decode_left [OF d] a by auto
  have same: "inf_lengths ht hlit tot pos1 a br0 \<noteq> Undefined \<and>
      (inf_lengths ht hlit tot pos1 a br0 = Done (br', a') \<longrightarrow>
        length (fst a') = length (fst a) \<and> length (snd a') = length (snd a))"
    if "\<not> s < 0" "dbr_left br0 \<le> dbr_left br1" for pos1 br0
    using step [of br0 lit dist pos1] that a by simp
  note left = dbr_bits_left [OF r2] dbr_bits_left [OF r3] dbr_bits_left [OF r7]
  show ?case
  proof (cases "pos < tot \<and> \<not> s < 0")
    case True
    consider "s < 16" | "s = 16" | "s = 17" | "s = 18" | "18 < s" by linarith
    then show ?thesis
    proof cases
      case 1
      obtain lit' dist' where "put_length hlit pos (nat s) a = Some (lit', dist')" "length lit' = length lit" "length dist' = length dist"
        using put_length_some [of pos tot hlit lit dist "nat s"] True less.prems a by auto
      then show ?thesis
        using step [OF _ order_refl, of lit' dist' "Suc pos"] True 1
        by (simp add: inf_lengths.simps [of ht hlit tot pos a br] d)
    next
      case 2
      define prev where "prev = (if pos - 1 < hlit then fst a ! (pos - 1) else snd a ! (pos - 1 - hlit))"
      obtain pos' lit' dist' where "put_lengths (r2 + 3) hlit tot pos prev a = Some (pos', lit', dist')"
        "length lit' = length lit" "length dist' = length dist"
        using put_lengths_some [of hlit lit tot dist] less.prems a by fastforce
      moreover have "inf_lengths ht hlit tot pos a br = (if pos = 0 then Fail MZ_ERR_DATA
          else case put_lengths (r2 + 3) hlit tot pos prev a of None \<Rightarrow> Undefined
               | Some (pos', a) \<Rightarrow> inf_lengths ht hlit tot pos' a br2)"
        using True 2 unfolding inf_lengths.simps [of ht hlit tot pos a br] d r2 prod.case Let_def prev_def by simp
      ultimately show ?thesis
        using step [of br2 lit' dist' pos'] True left by simp
    next
      case 3
      then show ?thesis using same True left by (simp add: inf_lengths.simps [of ht hlit tot pos a br] d r3 Let_def)
    next
      case 4
      then show ?thesis using same True left by (simp add: inf_lengths.simps [of ht hlit tot pos a br] d r7 Let_def)
    next
      case 5
      then show ?thesis
        using same [OF _ order_refl, of pos] True by (simp add: inf_lengths.simps [of ht hlit tot pos a br] d)
    qed
  next
    case False
    then show ?thesis by (auto simp: inf_lengths.simps [of ht hlit tot pos a br] d)
  qed
qed


lemma inf_dynamic_defined:
  assumes "fst (dbr_bits (snd (dbr_bits br 5)) 5) < 30"
  shows "inf_dynamic sy br \<noteq> Undefined"
proof -
  obtain v1 br1 where v1: "dbr_bits br 5 = (v1, br1)" by fastforce
  obtain v2 br2 where v2: "dbr_bits br1 5 = (v2, br2)" by fastforce
  obtain v3 br3 where v3: "dbr_bits br2 4 = (v3, br3)" by fastforce
  obtain cl br4 where cl: "inf_code_lengths (take (v3 + 4) s_code_order) br3 (replicate 19 0) = (cl, br4)" by fastforce
  have hlit: "v1 + 257 \<le> 288" using dbr_bits_less [OF v1] by simp
  have hdist: "v2 + 1 \<le> 30" using assms v1 v2 by simp
  have L: "inf_lengths ht (v1 + 257) (v1 + 257 + (v2 + 1)) 0 (replicate 288 0, replicate 30 0) br4 \<noteq> Undefined \<and>
    (inf_lengths ht (v1 + 257) (v1 + 257 + (v2 + 1)) 0 (replicate 288 0, replicate 30 0) br4 = Done (br', a') \<longrightarrow>
      length (fst a') = 288 \<and> length (snd a') = 30)" for ht br' a'
    using inf_lengths_defined [of "v1 + 257" "(replicate 288 0, replicate 30 0)" "v1 + 257 + (v2 + 1)"] hlit hdist by simp
  show ?thesis
  proof (cases "huff_build sy cl")
    case (Some r)
    obtain l ht where r: "r = (l, ht)" by fastforce
    show ?thesis
    proof (cases "inf_lengths ht (v1 + 257) (v1 + 257 + (v2 + 1)) 0 (replicate 288 0, replicate 30 0) br4")
      case (Done p)
      obtain br5 lit dist where p: "p = (br5, lit, dist)" by (cases p) auto
      have "length dist = 30" using L [of ht br5 "(lit, dist)"] Done p by simp
      then show ?thesis
        using Some r Done p hdist by (auto simp: inf_dynamic_def v1 v2 v3 cl Let_def split: option.splits)
    next
      case Undefined
      then show ?thesis using L by blast
    qed (use Some r in \<open>simp add: inf_dynamic_def v1 v2 v3 cl Let_def\<close>)
  qed (simp add: inf_dynamic_def v1 v2 v3 cl Let_def)
qed

lemma huff_build_None:
  "huff_build sy lengths = None \<longleftrightarrow> (case huff_count lengths (replicate 16 0) of None \<Rightarrow> True
     | Some cs \<Rightarrow> huff_left (cs[0 := 0]) [1..<16] 1 = None)"
  by (auto simp: huff_build_def Let_def MZ_MAX_HUFF_BITS_def numeral_eq_Suc split: option.splits)

lemma fixed_lit_counts:
  "huff_count fixed_lit_lengths (replicate 16 0) = Some [0,0,0,0,0,0,0,24,152,112,0,0,0,0,0,0]"
  by code_simp

lemma fixed_dist_counts:
  "huff_count fixed_dist_lengths (replicate 16 0) = Some [0,0,0,0,0,30,0,0,0,0,0,0,0,0,0,0]"
  by code_simp

lemma fixed_tables_build:
  "\<exists>l1 lit_ht l2 dist_ht. huff_build sy fixed_lit_lengths = Some (l1, lit_ht) \<and> huff_build sy fixed_dist_lengths = Some (l2, dist_ht)"
proof -
  have "huff_build sy fixed_lit_lengths \<noteq> None" "huff_build sy fixed_dist_lengths \<noteq> None"
    unfolding huff_build_None fixed_lit_counts fixed_dist_counts option.case by code_simp+
  then show ?thesis by auto
qed

lemma inf_symbols_defined: "inf_symbols al lit_ht dist_ht st \<noteq> Undefined"
proof (induction "dbr_left (is_br st)" arbitrary: st rule: less_induct)
  case less
  obtain s br where d: "huff_decode (is_br st) lit_ht = (s, br)" by fastforce
  obtain e1 br1 where e1: "dbr_bits br (s_length_extra ! nat (s - 257)) = (e1, br1)" by fastforce
  obtain ds br2 where ds: "huff_decode br1 dist_ht = (ds, br2)" by fastforce
  obtain e2 br3 where e2: "dbr_bits br2 (s_dist_extra ! nat ds) = (e2, br3)" by fastforce
  have left: "dbr_left br3 \<le> dbr_left br" "0 \<le> s \<Longrightarrow> dbr_left br < dbr_left (is_br st)"
    using dbr_bits_left [OF e1] huff_decode_left [OF ds] dbr_bits_left [OF e2] huff_decode_left [OF d] by linarith+
  have IH: "inf_symbols al lit_ht dist_ht \<lparr>is_br = b, is_out = out, is_cap = cap\<rparr> \<noteq> Undefined"
    if "0 \<le> s" "dbr_left b \<le> dbr_left br" for b out cap
    using less.hyps [of "\<lparr>is_br = b, is_out = out, is_cap = cap\<rparr>"] left that by fastforce
  note eq = inf_symbols.simps [of al lit_ht dist_ht st, unfolded d prod.case]
  consider (err) "s < 0" | (lit) "0 \<le> s" "s < 256" | (eob) "s = 256" | (copy) "0 \<le> s" "\<not> s < 256" "s \<noteq> 256"
    by linarith
  then show ?case
  proof cases
    case lit
    then show ?thesis unfolding eq using IH by (auto simp: Let_def)
  next
    case copy
    then show ?thesis unfolding eq using IH left by (auto simp: e1 ds e2 Let_def)
  qed (auto simp: eq)
qed


lemma inf_stored_defined: "inf_stored al st \<noteq> Undefined"
  by (simp add: inf_stored_def Let_def)

lemma finish_undefined:
  "(case r of Done st \<Rightarrow> Done (f, st) | Fail e \<Rightarrow> Fail e | Undefined \<Rightarrow> Undefined) = Undefined \<longleftrightarrow> r = Undefined"
  by (cases r) auto

text \<open>
  The only undefined behaviour of a block of inflate. If decoding a block leaves the C standard,
  the block is a dynamic one whose header announces more than 30 distance codes (HDIST at least 30):
  the fixed tables, the literal lengths, the copies from the output and the stored blocks are
  always in bounds. The witness is a stream of ten bytes on which it happens, so the case is
  reachable from the input.
\<close>

theorem inflate_block_undefined:
  "inflate_block sy al st = Undefined \<Longrightarrow>
    fst (dbr_bits (snd (dbr_bit (is_br st))) 2) = 2 \<and>
    30 \<le> fst (dbr_bits (snd (dbr_bits (snd (dbr_bits (snd (dbr_bit (is_br st))) 2)) 5)) 5)"
proof -
  assume u: "inflate_block sy al st = Undefined"
  obtain b br where b: "dbr_bit (is_br st) = (b, br)" by fastforce
  obtain t br1 where t: "dbr_bits br 2 = (t, br1)" by fastforce
  obtain l1 lit_ht l2 dist_ht where fixed: "huff_build sy fixed_lit_lengths = Some (l1, lit_ht)"
    "huff_build sy fixed_dist_lengths = Some (l2, dist_ht)"
    using fixed_tables_build by blast
  have "t = 2 \<and> inf_dynamic sy br1 = Undefined"
  proof (cases "t = 2")
    case True
    then show ?thesis
      using u unfolding inflate_block_def b t prod.case Let_def
      by (auto simp: finish_undefined inf_symbols_defined split: if_splits outcome.splits prod.splits)
  next
    case False
    then show ?thesis
      using u unfolding inflate_block_def b t prod.case Let_def fixed option.case
      by (simp add: finish_undefined inf_symbols_defined inf_stored_defined split: if_splits)
  qed
  then show ?thesis using inf_dynamic_defined [of br1 sy] b t by fastforce
qed

text \<open>
  A stream with one dynamic block: 257 literal codes of length zero, then 32 distance codes, of
  length zero too. The decoder stores them all in \<^verbatim>\<open>dist_lengths[30]\<close>.
\<close>

definition hostile_stream :: bytes where
  "hostile_stream = [5, 31, 128, 228, 63, 27, 0, 0, 0, 0]"

theorem inflate_block_undefined_witness:
  "inflate_block (replicate 288 0) (\<lambda>_. True) \<lparr>is_br = dbr_init hostile_stream, is_out = [], is_cap = 1064\<rparr> = Undefined \<and>
    30 \<le> fst (dbr_bits \<lparr>dr_data = hostile_stream, dr_byte_pos = 1, dr_bit_pos = 0\<rparr> 5)"
proof -
  have u: "inflate_block (replicate 288 0) (\<lambda>_. True) \<lparr>is_br = dbr_init hostile_stream, is_out = [], is_cap = 1064\<rparr> = Undefined"
    by code_simp
  have "snd (dbr_bits (snd (dbr_bits (snd (dbr_bit (dbr_init hostile_stream))) 2)) 5) =
      \<lparr>dr_data = hostile_stream, dr_byte_pos = 1, dr_bit_pos = 0\<rparr>"
    by code_simp
  then show ?thesis using inflate_block_undefined [OF u] u by simp
qed

end
