(* ===== verification/Ans.thy ===== *)
theory Ans
  imports Bytes
begin

text \<open>
  The table based asymmetric numeral system, \<^verbatim>\<open>codec/mz_ans.c\<close>: normalisation of the
  frequencies to powers of two, the spread of the symbols over the 256 states, the bit writer and
  reader, the encoder (which runs backwards over the input) and the decoder. Arrays are lists;
  \<open>slot\<close> is a function of its two indices. Frequencies and states fit their C types, so they are
  naturals; the raw counts are 32-bit, where a product wraps around.
\<close>

definition ANS_L :: nat where "ANS_L = 256"

section \<open>Normalisation\<close>

text \<open>
  \<^verbatim>\<open>while ((p << 1) <= v && (p << 1) <= ANS_L) p <<= 1\<close>, started with 1: the conjunct \<open>0 < p\<close> only
  makes the recursion well founded.
\<close>

function pow2_below :: "nat \<Rightarrow> nat \<Rightarrow> nat" where
  "pow2_below v p = (if 0 < p \<and> p * 2 \<le> v \<and> p * 2 \<le> ANS_L then pow2_below v (p * 2) else p)"
  by pat_completeness auto
termination by (relation "measure (\<lambda>(v, p). ANS_L - p)") auto

declare pow2_below.simps [simp del]

text \<open>The product \<^verbatim>\<open>raw[i] * ANS_L\<close> is one of 32-bit unsigned integers.\<close>

definition round_freq :: "nat \<Rightarrow> u32 \<Rightarrow> nat" where
  "round_freq tot raw =
     (if raw = 0 then 0
      else
        let v = unat (raw * word_of_nat ANS_L) div tot;
            v = (if v = 0 then 1 else v)
        in pow2_below v 1)"

text \<open>The four passes over the table; each returns the table, \<open>diff\<close> and \<open>changed\<close>.\<close>

fun pass_double :: "nat list \<Rightarrow> int \<Rightarrow> nat list \<times> int \<times> bool" where
  "pass_double [] diff = ([], diff, False)"
| "pass_double (n # ns) diff =
     (if diff > 0 \<and> n > 0 \<and> n * 2 \<le> ANS_L then
        (case pass_double ns (diff - int n) of (ns, d, c) \<Rightarrow> (n * 2 # ns, d, True))
      else (case pass_double ns diff of (ns, d, c) \<Rightarrow> (n # ns, d, c)))"

fun pass_incr :: "nat list \<Rightarrow> int \<Rightarrow> nat list \<times> int \<times> bool" where
  "pass_incr [] diff = ([], diff, False)"
| "pass_incr (n # ns) diff =
     (if diff > 0 \<and> n > 0 \<and> n < ANS_L then
        (case pass_incr ns (diff - 1) of (ns, d, c) \<Rightarrow> ((n + 1) # ns, d, True))
      else (case pass_incr ns diff of (ns, d, c) \<Rightarrow> (n # ns, d, c)))"

text \<open>These two run from the last entry down, so over the reversed table.\<close>

fun pass_halve :: "nat list \<Rightarrow> int \<Rightarrow> nat list \<times> int \<times> bool" where
  "pass_halve [] diff = ([], diff, False)"
| "pass_halve (n # ns) diff =
     (if diff < 0 \<and> n > 1 \<and> n mod 2 = 0 then
        (case pass_halve ns (diff + int (n div 2)) of (ns, d, c) \<Rightarrow> (n div 2 # ns, d, True))
      else (case pass_halve ns diff of (ns, d, c) \<Rightarrow> (n # ns, d, c)))"

fun pass_decr :: "nat list \<Rightarrow> int \<Rightarrow> nat list \<times> int \<times> bool" where
  "pass_decr [] diff = ([], diff, False)"
| "pass_decr (n # ns) diff =
     (if diff < 0 \<and> n > 1 then
        (case pass_decr ns (diff + 1) of (ns, d, c) \<Rightarrow> ((n - 1) # ns, d, True))
      else (case pass_decr ns diff of (ns, d, c) \<Rightarrow> (n # ns, d, c)))"

definition adjust_step :: "nat list \<Rightarrow> int \<Rightarrow> nat list \<times> bool" where
  "adjust_step norm diff =
     (if diff > 0 then
        let (norm, diff, c1) = pass_double norm diff;
            (norm, diff, c2) = pass_incr norm diff
        in (norm, c1 \<or> c2)
      else
        let (norm, diff, c1) = pass_halve (rev norm) diff;
            (norm, diff, c2) = pass_decr norm diff
        in (rev norm, c1 \<or> c2))"

text \<open>The loop bounded by \<^verbatim>\<open>safety\<close>.\<close>

fun adjust :: "nat \<Rightarrow> nat list \<Rightarrow> nat list" where
  "adjust 0 norm = norm"
| "adjust (Suc safety) norm =
     (let diff = int ANS_L - int (sum_list norm) in
      if diff = 0 then norm
      else case adjust_step norm diff of
        (norm, changed) \<Rightarrow> if changed then adjust safety norm else norm)"

text \<open>\<^verbatim>\<open>while (p < norm[i] && p < ANS_L) p <<= 1\<close>, started with 1.\<close>

function pow2_above :: "nat \<Rightarrow> nat \<Rightarrow> nat" where
  "pow2_above n p = (if 0 < p \<and> p < n \<and> p < ANS_L then pow2_above n (p * 2) else p)"
  by pat_completeness auto
termination by (relation "measure (\<lambda>(n, p). ANS_L - p)") auto

declare pow2_above.simps [simp del]

definition force_pow2 :: "nat \<Rightarrow> nat" where
  "force_pow2 n = (if n > 0 \<and> n AND (n - 1) \<noteq> 0 then pow2_above n 1 else n)"

definition normalise_freqs :: "u32 list \<Rightarrow> mz_err + nat list" where
  "normalise_freqs raw =
     (let tot = (\<Sum>r\<leftarrow>raw. unat r); used = length (filter (\<lambda>r. r > 0) raw) in
      if tot = 0 then Inl MZ_ERR_DATA
      else if used = 1 then Inr (map (\<lambda>r. if r > 0 then ANS_L else 0) raw)
      else Inr (map force_pow2 (adjust 10000 (map (round_freq tot) raw))))"

section \<open>Tables\<close>

function nb_loop :: "nat \<Rightarrow> nat \<Rightarrow> nat" where
  "nb_loop f nb = (if 0 < f \<and> f * 2 \<le> ANS_L then nb_loop (f * 2) (nb + 1) else nb)"
  by pat_completeness auto
termination by (relation "measure (\<lambda>(f, nb). ANS_L - f)") auto

declare nb_loop.simps [simp del]

definition compute_nb :: "nat \<Rightarrow> nat" where
  "compute_nb f = (if f \<ge> ANS_L then 0 else nb_loop f 0)"

text \<open>One insertion into the sorted part of \<^verbatim>\<open>order\<close>, which is kept back to front.\<close>

fun ins_sym :: "nat list \<Rightarrow> nat \<Rightarrow> nat list \<Rightarrow> nat list" where
  "ins_sym norm k [] = [k]"
| "ins_sym norm k (j # rest) =
     (if compute_nb (norm ! j) > compute_nb (norm ! k) then k # j # rest
      else if compute_nb (norm ! j) = compute_nb (norm ! k) \<and> j < k then k # j # rest
      else j # ins_sym norm k rest)"

definition sort_syms_by_nb :: "nat list \<Rightarrow> nat list" where
  "sort_syms_by_nb norm =
     rev (foldl (\<lambda>order k. ins_sym norm k order) [] (filter (\<lambda>i. norm ! i > 0) [0..<256]))"

record ans_tables =
  t_norm :: "nat list"
  t_symbol :: "nat list"
  t_rank_tab :: "nat list"
  t_nb_bits :: "nat list"
  t_base :: "nat list"
  t_slot :: "nat \<Rightarrow> nat \<Rightarrow> nat"

text \<open>
  The search for a free state. It wraps around, so if 256 probes find none it never returns:
  None.
\<close>

fun find_free :: "nat \<Rightarrow> nat list \<Rightarrow> nat \<Rightarrow> nat option" where
  "find_free 0 symbol pos = None"
| "find_free (Suc k) symbol pos =
     (if symbol ! pos \<noteq> 0xFF then find_free k symbol ((pos + 1) AND (ANS_L - 1)) else Some pos)"

definition ANS_STEP :: nat where
  "ANS_STEP = (drop_bit 1 ANS_L + drop_bit 3 ANS_L + 3) OR 1"

definition place_one :: "nat \<Rightarrow> nat \<Rightarrow> nat \<Rightarrow> nat \<Rightarrow> ans_tables \<Rightarrow> ans_tables" where
  "place_one s nb i pos t =
     t\<lparr>t_symbol := (t_symbol t)[pos := s],
       t_slot := (t_slot t)(s := (t_slot t s)(i := pos)),
       t_rank_tab := (t_rank_tab t)[pos := i],
       t_nb_bits := (t_nb_bits t)[pos := nb],
       t_base := (t_base t)[pos := push_bit nb i]\<rparr>"

text \<open>The loop over the \<open>f\<close> slots of one symbol: \<open>n\<close> are left, \<open>i\<close> is the next.\<close>

fun place_sym :: "nat \<Rightarrow> nat \<Rightarrow> nat \<Rightarrow> nat \<Rightarrow> nat \<Rightarrow> ans_tables \<Rightarrow> (nat \<times> ans_tables) option" where
  "place_sym 0 i s nb pos t = Some (pos, t)"
| "place_sym (Suc n) i s nb pos t =
     (case find_free 256 (t_symbol t) pos of
        None \<Rightarrow> None
      | Some pos \<Rightarrow>
          place_sym n (i + 1) s nb ((pos + ANS_STEP) AND (ANS_L - 1)) (place_one s nb i pos t))"

fun place_syms :: "nat list \<Rightarrow> nat list \<Rightarrow> nat \<Rightarrow> ans_tables \<Rightarrow> ans_tables option" where
  "place_syms norm [] pos t = Some t"
| "place_syms norm (s # order) pos t =
     (case place_sym (norm ! s) 0 s (compute_nb (norm ! s)) pos t of
        None \<Rightarrow> None
      | Some (pos, t) \<Rightarrow> place_syms norm order pos t)"

definition norm_valid :: "nat list \<Rightarrow> bool" where
  "norm_valid norm \<longleftrightarrow>
     list_all (\<lambda>f. f \<le> ANS_L \<and> (f = 0 \<or> f AND (f - 1) = 0)) norm \<and> sum_list norm = ANS_L"

definition ans_empty :: "nat list \<Rightarrow> ans_tables" where
  "ans_empty norm =
     \<lparr>t_norm = norm, t_symbol = replicate 256 0xFF, t_rank_tab = replicate 256 0,
      t_nb_bits = replicate 256 0, t_base = replicate 256 0, t_slot = (\<lambda>_ _. 0)\<rparr>"

text \<open>None: the call does not return.\<close>

definition build_tables :: "nat list \<Rightarrow> (mz_err + ans_tables) option" where
  "build_tables norm =
     (if \<not> norm_valid norm then Some (Inl MZ_ERR_DATA)
      else map_option Inr (place_syms norm (sort_syms_by_nb norm) 0 (ans_empty norm)))"

section \<open>Bit streams\<close>

record ans_bs =
  bs_buf :: bytes
  bs_cap :: nat
  bs_container :: u32
  bs_count :: nat

definition bs_init :: "nat \<Rightarrow> ans_bs" where
  "bs_init cap = \<lparr>bs_buf = [], bs_cap = cap, bs_container = 0, bs_count = 0\<rparr>"

function bs_emit :: "ans_bs \<Rightarrow> ans_bs option" where
  "bs_emit b =
     (if bs_count b \<ge> 8 then
        if length (bs_buf b) \<ge> bs_cap b then None
        else bs_emit (b\<lparr>bs_buf := bs_buf b @ [ucast (bs_container b AND 0xFF)],
                        bs_container := drop_bit 8 (bs_container b), bs_count := bs_count b - 8\<rparr>)
      else Some b)"
  by pat_completeness auto
termination by (relation "measure bs_count") auto

declare bs_emit.simps [simp del]

definition bs_put :: "ans_bs \<Rightarrow> nat \<Rightarrow> nat \<Rightarrow> mz_err + ans_bs" where
  "bs_put b v n =
     (if n = 0 then Inr b
      else if n > 32 then Inl MZ_ERR_PARAM
      else
        let b = b\<lparr>bs_container := push_bit n (bs_container b) OR (word_of_nat v AND mask n),
                  bs_count := bs_count b + n\<rparr>
        in case bs_emit b of None \<Rightarrow> Inl MZ_ERR_STREAM | Some b \<Rightarrow> Inr b)"

definition bs_flush :: "ans_bs \<Rightarrow> mz_err + ans_bs" where
  "bs_flush b =
     (if bs_count b = 0 then Inr b
      else if length (bs_buf b) \<ge> bs_cap b then Inl MZ_ERR_STREAM
      else Inr (b\<lparr>bs_buf := bs_buf b @ [ucast (bs_container b AND 0xFF)],
                  bs_container := 0, bs_count := 0\<rparr>))"

text \<open>The reader: the buffer and \<^verbatim>\<open>bit_pos\<close> (its C functions \<^verbatim>\<open>br_get\<close>, \<^verbatim>\<open>br_get_n\<close>).\<close>

definition abr_get :: "bytes \<Rightarrow> nat \<Rightarrow> (nat \<times> nat) option" where
  "abr_get buf bit_pos =
     (if drop_bit 3 bit_pos \<ge> length buf then None
      else Some (unat (drop_bit (bit_pos AND 7) (buf ! drop_bit 3 bit_pos) AND 1), bit_pos + 1))"

fun abr_get_n :: "bytes \<Rightarrow> nat \<Rightarrow> nat \<Rightarrow> nat \<Rightarrow> nat \<Rightarrow> (nat \<times> nat) option" where
  "abr_get_n buf i 0 v bit_pos = Some (v, bit_pos)"
| "abr_get_n buf i (Suc n) v bit_pos =
     (case abr_get buf bit_pos of
        None \<Rightarrow> None
      | Some (b, bit_pos) \<Rightarrow> abr_get_n buf (Suc i) n (v OR push_bit i b) bit_pos)"

section \<open>Encoder\<close>

function renorm :: "nat \<Rightarrow> nat \<Rightarrow> ans_bs \<Rightarrow> mz_err + nat \<times> ans_bs" where
  "renorm threshold state b =
     (if 0 < state \<and> state \<ge> threshold then
        (case bs_put b (state AND 1) 1 of
           Inl e \<Rightarrow> Inl e
         | Inr b \<Rightarrow> renorm threshold (drop_bit 1 state) b)
      else Inr (state, b))"
  by pat_completeness auto
termination by (relation "measure (\<lambda>(th, state, b). state)") (auto simp: drop_bit_eq_div)

declare renorm.simps [simp del]

fun tans_encode :: "ans_tables \<Rightarrow> bytes \<Rightarrow> nat \<Rightarrow> ans_bs \<Rightarrow> mz_err + nat \<times> ans_bs" where
  "tans_encode t [] state b = Inr (state, b)"
| "tans_encode t (x # xs) state b =
     (let s = unat x; f = t_norm t ! s in
      if f = 0 then Inl MZ_ERR_DATA
      else
        let nb = compute_nb f in
        case renorm (push_bit nb f) state b of
          Inl e \<Rightarrow> Inl e
        | Inr (state, b) \<Rightarrow>
            let r = drop_bit nb state; bits = state AND (push_bit nb 1 - 1) in
            if r \<ge> f then Inl MZ_ERR_DATA
            else
              let state = t_slot t s r in
              if state \<ge> ANS_L then Inl MZ_ERR_DATA
              else (case bs_put b bits nb of
                      Inl e \<Rightarrow> Inl e
                    | Inr b \<Rightarrow> tans_encode t xs state b))"

definition ans_freqs :: "bytes \<Rightarrow> u32 list" where
  "ans_freqs data = fold (\<lambda>x freqs. freqs[unat x := freqs ! unat x + 1]) data (replicate 256 0)"

definition norm_header :: "nat list \<Rightarrow> bytes" where
  "norm_header norm =
     concat (map (\<lambda>f. [word_of_nat (f AND 0xFF), word_of_nat (drop_bit 8 f AND 0xFF)]) norm)"

definition ANS_TABLES_SIZE :: nat where
  "ANS_TABLES_SIZE = 256 * 2 + 256 + 256 + 256 + 256 * 2 + 256 * 256"

text \<open>None: the call does not return. The input pointers are not null.\<close>

definition mz_tans_compress :: "allocator \<Rightarrow> bytes \<Rightarrow> nat \<Rightarrow> mz_ret option" where
  "mz_tans_compress al data max_out =
     (if data = [] then Some (mz_fail MZ_ERR_PARAM)
      else case normalise_freqs (ans_freqs data) of
        Inl e \<Rightarrow> Some (mz_fail e)
      | Inr norm \<Rightarrow>
          if \<not> al ANS_TABLES_SIZE then Some (mz_fail MZ_ERR_MEMORY)
          else case build_tables norm of
            None \<Rightarrow> None
          | Some (Inl e) \<Rightarrow> Some (mz_fail e)
          | Some (Inr tab) \<Rightarrow>
              if 520 > max_out then Some (mz_fail MZ_ERR_STREAM)
              else case tans_encode tab (rev data) ANS_L (bs_init (max_out - 520)) of
                Inl e \<Rightarrow> Some (mz_fail e)
              | Inr (state, b) \<Rightarrow>
                  (case bs_flush b of
                     Inl e \<Rightarrow> Some (mz_fail e)
                   | Inr b \<Rightarrow>
                       Some \<lparr>ret_code = MZ_OK,
                             ret_out = Some (norm_header norm @ write_le32 (word_of_nat state) @
                               write_le32 (word_of_nat (length (bs_buf b) * 8)) @ bs_buf b)\<rparr>))"

section \<open>Decoder\<close>

fun tans_decode :: "ans_tables \<Rightarrow> bytes \<Rightarrow> nat \<Rightarrow> nat \<Rightarrow> nat \<Rightarrow> mz_err + bytes" where
  "tans_decode t buf 0 state bit_pos = Inr []"
| "tans_decode t buf (Suc n) state bit_pos =
     (let s = t_symbol t ! state in
      if t_norm t ! s = 0 then Inl MZ_ERR_DATA
      else
        let nb = t_nb_bits t ! state in
        case abr_get_n buf 0 nb 0 bit_pos of
          None \<Rightarrow> Inl MZ_ERR_DATA
        | Some (bits, bit_pos) \<Rightarrow>
            let m = push_bit nb 1 - 1; new_state = (state - (state AND m)) + bits in
            if new_state \<ge> ANS_L then Inl MZ_ERR_DATA
            else (case tans_decode t buf n new_state bit_pos of
                    Inl e \<Rightarrow> Inl e
                  | Inr out \<Rightarrow> Inr (word_of_nat s # out)))"

fun read_norm :: "nat \<Rightarrow> bytes \<Rightarrow> nat list" where
  "read_norm 0 src = []"
| "read_norm (Suc n) src = (unat (src ! 0) OR push_bit 8 (unat (src ! 1))) # read_norm n (drop 2 src)"

definition mz_tans_decompress :: "allocator \<Rightarrow> bytes \<Rightarrow> nat \<Rightarrow> mz_ret option" where
  "mz_tans_decompress al data olen =
     (if length data < 520 then Some (mz_fail MZ_ERR_DATA)
      else
        let norm = read_norm 256 data in
        if \<not> al ANS_TABLES_SIZE then Some (mz_fail MZ_ERR_MEMORY)
        else case build_tables norm of
          None \<Rightarrow> None
        | Some (Inl e) \<Rightarrow> Some (mz_fail e)
        | Some (Inr tab) \<Rightarrow>
            let state = unat (read_le32 (drop 512 data)) in
            if state \<ge> ANS_L then Some (mz_fail MZ_ERR_DATA)
            else case tans_decode tab (drop 520 data) olen state 0 of
              Inl e \<Rightarrow> Some (mz_fail e)
            | Inr out \<Rightarrow> Some \<lparr>ret_code = MZ_OK, ret_out = Some out\<rparr>)"

end
