(* ===== verification/Ans_Spread.thy ===== *)
theory Ans_Spread
  imports Ans "HOL-Library.Multiset"
begin

text \<open>
  The tables of \<^verbatim>\<open>build_tables\<close> in closed form: the step 163 is odd, so the slots handed out are
  the states \<open>spread k = 163 k mod 256\<close> without a collision, unless the symbol 255 occurs, whose
  slots look free to the search. Either way the search ends.
\<close>

section \<open>The spread\<close>

definition spread :: "nat \<Rightarrow> nat" where
  "spread k = (163 * k) mod 256"

lemma ANS_STEP_163: "ANS_STEP = 163"
  by (simp add: ANS_STEP_def ANS_L_def)

lemma and_255_mod: "n AND 255 = n mod 256" for n :: nat
  by (fact nat_and_mask(2))

lemma spread_less [simp]: "spread k < 256"
  by (simp add: spread_def)

lemma spread_Suc: "(spread k + ANS_STEP) AND (ANS_L - 1) = spread (Suc k)"
  by (simp add: ANS_L_def and_255_mod ANS_STEP_163 spread_def mod_add_left_eq mod_add_right_eq add.commute)

lemma spread_inverse: "j < 256 \<Longrightarrow> (11 * spread j) mod 256 = j"
proof -
  assume "j < 256"
  have "(11 * spread j) mod 256 = (11 * 163 * j) mod 256"
    by (simp add: spread_def mod_mult_right_eq mult.assoc)
  also have "\<dots> = (1 * j + 256 * (7 * j)) mod 256" by simp
  also have "\<dots> = j" using \<open>j < 256\<close> by (simp only: mod_mult_self2) simp
  finally show ?thesis .
qed

lemma spread_inj: "j < 256 \<Longrightarrow> k < 256 \<Longrightarrow> spread j = spread k \<longleftrightarrow> j = k"
  by (metis spread_inverse)

lemma spread_surj: "x < 256 \<Longrightarrow> \<exists>k<256. spread k = x"
proof -
  assume "x < 256"
  have "(163 * (11 * x)) mod 256 = (1 * x + 256 * (7 * x)) mod 256" by simp
  also have "\<dots> = x" using \<open>x < 256\<close> by (simp only: mod_mult_self2) simp
  finally have "spread ((11 * x) mod 256) = x" by (simp add: spread_def mod_mult_right_eq)
  then show ?thesis by (intro exI [of _ "(11 * x) mod 256"]) simp
qed

lemma find_free_here: "symbol ! pos = 0xFF \<Longrightarrow> find_free 256 symbol pos = Some pos"
  using find_free.simps(2) [of 255 symbol pos] by simp

text \<open>
  The slots in the order they are handed out, each a symbol and its rank. The \<open>k\<close>-th slot is
  the state \<open>163 k mod 256\<close>.
\<close>

definition slot_seq :: "nat list \<Rightarrow> nat list \<Rightarrow> (nat \<times> nat) list" where
  "slot_seq norm order = concat (map (\<lambda>s. map (Pair s) [0..<norm ! s]) order)"

definition tab_upto :: "nat list \<Rightarrow> (nat \<times> nat) list \<Rightarrow> nat \<Rightarrow> ans_tables \<Rightarrow> bool" where
  "tab_upto norm seq k t \<longleftrightarrow>
     t_norm t = norm \<and> length (t_symbol t) = 256 \<and> length (t_rank_tab t) = 256 \<and> length (t_nb_bits t) = 256 \<and>
     length (t_base t) = 256 \<and> (\<forall>j<256. k \<le> j \<longrightarrow> t_symbol t ! spread j = 0xFF) \<and>
     (\<forall>j<k. case seq ! j of (s, i) \<Rightarrow>
        t_symbol t ! spread j = s \<and> t_rank_tab t ! spread j = i \<and> t_slot t s i = spread j \<and>
        t_nb_bits t ! spread j = compute_nb (norm ! s) \<and>
        t_base t ! spread j = push_bit (compute_nb (norm ! s)) i)"

lemma tab_upto_empty: "tab_upto norm seq 0 (ans_empty norm)"
  by (simp add: tab_upto_def ans_empty_def)

lemma tab_upto_place:
  assumes t: "tab_upto norm seq k t" and k: "k < length seq" "length seq \<le> 256" "distinct seq"
    and sk: "seq ! k = (s, i)"
  shows "tab_upto norm seq (Suc k) (place_one s (compute_nb (norm ! s)) i (spread k) t)"
proof -
  let ?t = "place_one s (compute_nb (norm ! s)) i (spread k) t"
  have ne: "spread k \<noteq> spread j" if "j < 256" "j \<noteq> k" for j
    using spread_inj that k by auto
  have new: "seq ! j \<noteq> (s, i)" if "j < k" for j
    using nth_eq_iff_index_eq [OF k(3), of j k] that k(1) sk by auto
  have "case seq ! j of (s', i') \<Rightarrow>
        t_symbol ?t ! spread j = s' \<and> t_rank_tab ?t ! spread j = i' \<and> t_slot ?t s' i' = spread j \<and>
        t_nb_bits ?t ! spread j = compute_nb (norm ! s') \<and>
        t_base ?t ! spread j = push_bit (compute_nb (norm ! s')) i'" if j: "j < Suc k" for j
  proof (cases "j = k")
    case True
    then show ?thesis using t sk by (simp add: tab_upto_def place_one_def)
  next
    case False
    then have jk: "j < k" "j < 256" using j k by auto
    obtain s' i' where s': "seq ! j = (s', i')" by fastforce
    then show ?thesis
      using t new [OF jk(1)] ne [OF jk(2) False] jk by (auto simp: tab_upto_def place_one_def)
  qed
  then show ?thesis
    using t ne by (auto simp: tab_upto_def place_one_def)
qed

lemma place_sym_spread:
  assumes seq: "length seq \<le> 256" "distinct seq" and s: "s \<noteq> 0xFF"
  shows "tab_upto norm seq k t \<Longrightarrow> k + n \<le> length seq \<Longrightarrow> (\<forall>m<n. seq ! (k + m) = (s, i + m)) \<Longrightarrow>
    \<exists>t'. place_sym n i s (compute_nb (norm ! s)) (spread k) t = Some (spread (k + n), t') \<and>
      tab_upto norm seq (k + n) t'"
proof (induction n arbitrary: i k t)
  case (Suc n)
  have sk: "seq ! k = (s, i)" and k: "k < length seq" using Suc.prems by auto
  have free: "find_free 256 (t_symbol t) (spread k) = Some (spread k)"
    using Suc.prems(1) k seq by (intro find_free_here) (auto simp: tab_upto_def)
  have "tab_upto norm seq (Suc k) (place_one s (compute_nb (norm ! s)) i (spread k) t)"
    by (rule tab_upto_place [OF Suc.prems(1) k seq sk])
  moreover have "\<forall>m<n. seq ! (Suc k + m) = (s, Suc i + m)"
    using Suc.prems(3) by (metis Suc_less_eq add_Suc_shift)
  ultimately show ?case
    using Suc.IH [of "Suc k" _ "Suc i"] Suc.prems(2) by (simp add: free spread_Suc [unfolded One_nat_def])
qed simp

lemma slot_seq_simps [simp]:
  "slot_seq norm [] = []" "slot_seq norm (s # order) = map (Pair s) [0..<norm ! s] @ slot_seq norm order"
  by (simp_all add: slot_seq_def)

lemma slot_seq_append [simp]: "slot_seq norm (xs @ ys) = slot_seq norm xs @ slot_seq norm ys"
  by (simp add: slot_seq_def)

lemma place_syms_spread:
  assumes seq: "length (slot_seq norm order) \<le> 256" "distinct (slot_seq norm order)" and ff: "0xFF \<notin> set order"
  shows "order = done_syms @ todo \<Longrightarrow> tab_upto norm (slot_seq norm order) (length (slot_seq norm done_syms)) t \<Longrightarrow>
    \<exists>t'. place_syms norm todo (spread (length (slot_seq norm done_syms))) t = Some t' \<and>
      tab_upto norm (slot_seq norm order) (length (slot_seq norm order)) t'"
proof (induction todo arbitrary: done_syms t)
  case (Cons s todo)
  let ?k = "length (slot_seq norm done_syms)"
  have "s \<noteq> 0xFF" using ff Cons.prems(1) by auto
  have "\<forall>m<norm ! s. slot_seq norm order ! (?k + m) = (s, 0 + m)"
    using Cons.prems(1) by (simp add: nth_append)
  then obtain t' where t': "place_sym (norm ! s) 0 s (compute_nb (norm ! s)) (spread ?k) t = Some (spread (?k + norm ! s), t')"
    "tab_upto norm (slot_seq norm order) (?k + norm ! s) t'"
    using place_sym_spread [OF seq \<open>s \<noteq> 0xFF\<close> Cons.prems(2), of "norm ! s" 0] Cons.prems(1) by auto
  then show ?case
    using Cons.IH [of "done_syms @ [s]" t'] Cons.prems(1) by simp
qed simp

section \<open>The order of the symbols\<close>

lemma mset_ins_sym [simp]: "mset (ins_sym norm k order) = add_mset k (mset order)"
  by (induction order) auto

lemma mset_sort_syms: "mset (sort_syms_by_nb norm) = mset (filter (\<lambda>i. norm ! i > 0) [0..<256])"
proof -
  have "mset (foldl (\<lambda>order k. ins_sym norm k order) acc xs) = mset acc + mset xs" for acc xs
    by (induction xs arbitrary: acc) auto
  then show ?thesis by (simp add: sort_syms_by_nb_def)
qed

lemma set_sort_syms: "set (sort_syms_by_nb norm) = {i. i < 256 \<and> norm ! i > 0}"
  using arg_cong [OF mset_sort_syms, of set_mset norm] by auto

lemma distinct_sort_syms: "distinct (sort_syms_by_nb norm)"
proof -
  have "distinct (filter (\<lambda>i. norm ! i > 0) [0..<256])" by simp
  then show ?thesis by (metis mset_sort_syms mset_eq_imp_distinct_iff)
qed

lemma length_slot_seq: "length (slot_seq norm order) = (\<Sum>s\<leftarrow>order. norm ! s)"
  by (induction order) auto

lemma set_slot_seq: "set (slot_seq norm order) = {(s, i). s \<in> set order \<and> i < norm ! s}"
  by (auto simp: slot_seq_def)

lemma distinct_slot_seq: "distinct order \<Longrightarrow> distinct (slot_seq norm order)"
  by (induction order) (auto simp: distinct_map inj_on_def set_slot_seq)

lemma sum_sort_syms:
  assumes "length norm = 256"
  shows "(\<Sum>s\<leftarrow>sort_syms_by_nb norm. norm ! s) = sum_list norm"
proof -
  have "(\<Sum>s\<leftarrow>sort_syms_by_nb norm. norm ! s) = (\<Sum>s\<leftarrow>filter (\<lambda>i. norm ! i > 0) [0..<256]. norm ! s)"
  proof -
    have "mset (map ((!) norm) (sort_syms_by_nb norm)) = mset (map ((!) norm) (filter (\<lambda>i. norm ! i > 0) [0..<256]))"
      by (simp only: mset_map mset_sort_syms)
    then show ?thesis by (metis sum_mset_sum_list)
  qed
  also have "\<dots> = (\<Sum>s\<leftarrow>[0..<256]. norm ! s)"
    by (induction "[0..<256::nat]" rule: rev_induct) (auto simp: sum_list_filter_le_nat intro!: sum_list_map_filter)
  also have "\<dots> = sum_list norm" using assms by (metis map_nth)
  finally show ?thesis .
qed

lemma length_slot_seq_valid:
  "norm_valid norm \<Longrightarrow> length norm = 256 \<Longrightarrow> length (slot_seq norm (sort_syms_by_nb norm)) = 256"
  by (simp add: length_slot_seq sum_sort_syms norm_valid_def ANS_L_def)

lemma build_tables_spread:
  assumes n: "norm_valid norm" "length norm = 256" "norm ! 255 = 0"
  shows "\<exists>t. build_tables norm = Some (Inr t) \<and> tab_upto norm (slot_seq norm (sort_syms_by_nb norm)) 256 t"
proof -
  let ?order = "sort_syms_by_nb norm"
  have "255 \<notin> set ?order" using n by (simp add: set_sort_syms)
  moreover have "spread 0 = 0" by (simp add: spread_def)
  ultimately show ?thesis
    using place_syms_spread [of norm ?order "[]" ?order "ans_empty norm"] tab_upto_empty n
    by (auto simp: build_tables_def length_slot_seq_valid distinct_slot_seq distinct_sort_syms)
qed

section \<open>The search for a free state ends\<close>

lemma find_free_None:
  "find_free k symbol pos = None \<Longrightarrow> pos < 256 \<Longrightarrow> m < k \<Longrightarrow> symbol ! ((pos + m) mod 256) \<noteq> 0xFF"
proof (induction k arbitrary: pos m)
  case (Suc k)
  from Suc.prems have here: "symbol ! pos \<noteq> 0xFF"
    and rest: "find_free k symbol ((pos + 1) mod 256) = None"
    by (auto simp: ANS_L_def and_255_mod split: if_splits)
  show ?case
  proof (cases m)
    case (Suc m')
    have "symbol ! (((pos + 1) mod 256 + m') mod 256) \<noteq> 0xFF"
      using Suc.IH [OF rest] Suc.prems(3) Suc by simp
    then show ?thesis using Suc by (simp add: mod_add_left_eq)
  qed (use here Suc.prems in simp)
qed simp

lemma find_free_less: "find_free k symbol pos = Some p \<Longrightarrow> pos < 256 \<Longrightarrow> p < 256 \<and> symbol ! p = 0xFF"
  by (induction k arbitrary: pos) (auto simp: ANS_L_def and_255_mod split: if_splits)

lemma find_free_some:
  assumes "pos < 256" "p < 256" "symbol ! p = 0xFF"
  shows "\<exists>q. find_free 256 symbol pos = Some q"
proof (rule ccontr)
  assume "\<nexists>q. find_free 256 symbol pos = Some q"
  then have "symbol ! ((pos + (p + 256 - pos) mod 256) mod 256) \<noteq> 0xFF"
    using assms by (intro find_free_None) auto
  moreover have "(pos + (p + 256 - pos) mod 256) mod 256 = p"
    using assms by (simp add: mod_add_right_eq)
  ultimately show False using assms by simp
qed

definition free_states :: "ans_tables \<Rightarrow> nat set" where
  "free_states t = {p. p < 256 \<and> t_symbol t ! p = 0xFF}"

lemma place_sym_ends:
  "n \<le> card (free_states t) \<Longrightarrow> pos < 256 \<Longrightarrow> length (t_symbol t) = 256 \<Longrightarrow>
    \<exists>pos' t'. place_sym n i s nb pos t = Some (pos', t') \<and> pos' < 256 \<and> length (t_symbol t') = 256 \<and>
      card (free_states t) \<le> card (free_states t') + n"
proof (induction n arbitrary: i pos t)
  case (Suc n)
  have fin: "finite (free_states t)" for t by (simp add: free_states_def)
  have "free_states t \<noteq> {}" using Suc.prems(1) by auto
  then obtain x where "x < 256" "t_symbol t ! x = 0xFF" by (auto simp: free_states_def)
  then obtain q where q: "find_free 256 (t_symbol t) pos = Some q"
    using find_free_some [of pos x "t_symbol t"] Suc.prems(2) by blast
  let ?t = "place_one s nb i q t"
  have "free_states t \<subseteq> insert q (free_states ?t)"
    by (auto simp: free_states_def place_one_def nth_list_update)
  then have c: "card (free_states t) \<le> Suc (card (free_states ?t))"
    using card_mono [of "insert q (free_states ?t)" "free_states t"] card_insert_le_m1 fin
    by (metis card_insert_if finite_insert le_SucI le_trans)
  have "\<exists>pos' t'. place_sym n (Suc i) s nb ((q + ANS_STEP) mod 256) ?t = Some (pos', t') \<and> pos' < 256 \<and>
      length (t_symbol t') = 256 \<and> card (free_states ?t) \<le> card (free_states t') + n"
    using Suc.prems c by (intro Suc.IH) (auto simp: place_one_def)
  then show ?case using q c by (auto simp: ANS_L_def and_255_mod)
qed auto

lemma place_syms_ends:
  "(\<Sum>s\<leftarrow>order. norm ! s) \<le> card (free_states t) \<Longrightarrow> pos < 256 \<Longrightarrow> length (t_symbol t) = 256 \<Longrightarrow>
    place_syms norm order pos t \<noteq> None"
proof (induction order arbitrary: pos t)
  case (Cons s order)
  then obtain pos' t' where "place_sym (norm ! s) 0 s (compute_nb (norm ! s)) pos t = Some (pos', t')" "pos' < 256"
    "length (t_symbol t') = 256" "card (free_states t) \<le> card (free_states t') + norm ! s"
    using place_sym_ends [of "norm ! s" t pos 0 s "compute_nb (norm ! s)"] by auto
  then show ?case using Cons.IH [of t' pos'] Cons.prems by auto
qed simp

lemma build_tables_ends:
  assumes "length norm = 256"
  shows "build_tables norm \<noteq> None"
proof (cases "norm_valid norm")
  case True
  have "free_states (ans_empty norm) = {..<256}" by (auto simp: free_states_def ans_empty_def)
  then show ?thesis
    using place_syms_ends [of norm "sort_syms_by_nb norm" "ans_empty norm" 0] True assms
    by (simp add: build_tables_def sum_sort_syms norm_valid_def ANS_L_def) (simp add: ans_empty_def)
qed (simp add: build_tables_def)

end
