(* ===== verification/Ans_Codec.thy ===== *)
theory Ans_Codec
  imports Ans_Spread
begin

text \<open>
  What \<^verbatim>\<open>codec/mz_ans.c\<close> guarantees and what it does not: termination, the shape of the
  frequencies, the round trip of runs, and the failure of the general round trip.
\<close>

section \<open>Powers of two\<close>

lemma pow2_above_pow: "j \<le> 8 \<Longrightarrow> \<exists>k\<le>8. pow2_above n (2 ^ j) = 2 ^ k"
proof (induction "8 - j" arbitrary: j)
  case 0
  then show ?case by (subst pow2_above.simps) (auto simp: ANS_L_def)
next
  case (Suc d)
  then have "\<exists>k\<le>8. pow2_above n (2 ^ Suc j) = 2 ^ k" using Suc.hyps(1) [of "Suc j"] by simp
  then show ?case
    using Suc.prems by (subst pow2_above.simps) (auto simp: mult.commute)
qed

lemma and_pred_pow2: "0 < n \<Longrightarrow> n AND (n - 1) = 0 \<Longrightarrow> \<exists>k. n = 2 ^ k" for n :: nat
proof (induction n rule: less_induct)
  case (less n)
  obtain m where m: "n = 2 * m \<or> n = Suc (2 * m)" by (metis Suc_eq_plus1 oddE evenE)
  show ?case
  proof (cases "even n")
    case False
    then have "n = Suc (2 * m)" using m by auto
    then have "m = 0" using less.prems(2) by (subst (asm) and_rec) simp
    then show ?thesis using \<open>n = Suc (2 * m)\<close> by (intro exI [of _ 0]) simp
  next
    case True
    then have n: "n = 2 * m" "0 < m" using m less.prems(1) by auto
    have "(n - 1) div 2 = m - 1" using n by simp
    then have "m AND (m - 1) = 0" using less.prems(2) n by (subst (asm) and_rec) simp
    then obtain k where "m = 2 ^ k" using less.IH [of m] n by auto
    then show ?thesis using n by (intro exI [of _ "Suc k"]) simp
  qed
qed

lemma force_pow2_pow: "n \<le> 256 \<Longrightarrow> force_pow2 n = 0 \<or> (\<exists>k\<le>8. force_pow2 n = 2 ^ k)"
proof -
  assume n: "n \<le> 256"
  have "\<exists>k\<le>8. n = 2 ^ k" if pos: "0 < n" and a: "n AND (n - 1) = 0"
  proof -
    obtain k where k: "n = 2 ^ k" using and_pred_pow2 [OF pos a] by blast
    then have "(2 :: nat) ^ k \<le> 2 ^ 8" using n by simp
    then have "k \<le> 8" by (simp only: power_increasing_iff)
    then show ?thesis using k by blast
  qed
  then show ?thesis using pow2_above_pow [of 0 n] by (auto simp: force_pow2_def)
qed

abbreviation upto_L :: "nat list \<Rightarrow> bool" where
  "upto_L norm \<equiv> \<forall>n\<in>set norm. n \<le> 256"

lemma pass_double_upto:
  "upto_L ns \<Longrightarrow> upto_L (fst (pass_double ns d)) \<and> length (fst (pass_double ns d)) = length ns"
proof (induction ns arbitrary: d)
  case (Cons n ns)
  show ?case
    using Cons.IH [of "d - int n"] Cons.IH [of d] Cons.prems
    by (cases "d > 0 \<and> n > 0 \<and> n * 2 \<le> ANS_L") (auto simp: case_prod_beta ANS_L_def)
qed simp

lemma pass_incr_upto:
  "upto_L ns \<Longrightarrow> upto_L (fst (pass_incr ns d)) \<and> length (fst (pass_incr ns d)) = length ns"
proof (induction ns arbitrary: d)
  case (Cons n ns)
  show ?case
    using Cons.IH [of "d - 1"] Cons.IH [of d] Cons.prems
    by (cases "d > 0 \<and> n > 0 \<and> n < ANS_L") (auto simp: case_prod_beta ANS_L_def)
qed simp

lemma pass_halve_upto:
  "upto_L ns \<Longrightarrow> upto_L (fst (pass_halve ns d)) \<and> length (fst (pass_halve ns d)) = length ns"
proof (induction ns arbitrary: d)
  case (Cons n ns)
  show ?case
    using Cons.IH [of "d + int (n div 2)"] Cons.IH [of d] Cons.prems
    by (cases "d < 0 \<and> n > 1 \<and> n mod 2 = 0") (auto simp: case_prod_beta ANS_L_def)
qed simp

lemma pass_decr_upto:
  "upto_L ns \<Longrightarrow> upto_L (fst (pass_decr ns d)) \<and> length (fst (pass_decr ns d)) = length ns"
proof (induction ns arbitrary: d)
  case (Cons n ns)
  show ?case
    using Cons.IH [of "d + 1"] Cons.IH [of d] Cons.prems
    by (cases "d < 0 \<and> n > 1") (auto simp: case_prod_beta ANS_L_def)
qed simp

lemma adjust_step_upto:
  assumes "upto_L ns"
  shows "upto_L (fst (adjust_step ns d)) \<and> length (fst (adjust_step ns d)) = length ns"
proof (cases "d > 0")
  case True
  define p where "p = pass_double ns d"
  have "fst (adjust_step ns d) = fst (pass_incr (fst p) (fst (snd p)))"
    using True by (simp add: adjust_step_def case_prod_beta p_def)
  moreover have "upto_L (fst p)" "length (fst p) = length ns"
    using pass_double_upto [OF assms, of d] unfolding p_def by blast+
  ultimately show ?thesis using pass_incr_upto [of "fst p" "fst (snd p)"] by metis
next
  case False
  define p where "p = pass_halve (rev ns) d"
  have "fst (adjust_step ns d) = rev (fst (pass_decr (fst p) (fst (snd p))))"
    using False by (simp add: adjust_step_def case_prod_beta p_def)
  moreover have "upto_L (rev ns)" using assms by simp
  then have "upto_L (fst p)" "length (fst p) = length ns"
    using pass_halve_upto [of "rev ns" d] unfolding p_def by auto
  ultimately show ?thesis
    using pass_decr_upto [of "fst p" "fst (snd p)"] by (metis length_rev set_rev)
qed

lemma adjust_upto: "upto_L norm \<Longrightarrow> upto_L (adjust k norm) \<and> length (adjust k norm) = length norm"
proof (induction k arbitrary: norm)
  case (Suc k)
  obtain n1 c where s: "adjust_step norm (int ANS_L - int (sum_list norm)) = (n1, c)" by fastforce
  show ?case using Suc.IH [of n1] adjust_step_upto [OF Suc.prems, of "int ANS_L - int (sum_list norm)"] Suc.prems s by (auto simp: Let_def)
qed simp

lemma pow2_below_le: "p \<le> 256 \<Longrightarrow> pow2_below v p \<le> 256"
  by (induction v p rule: pow2_below.induct) (subst pow2_below.simps, auto simp: ANS_L_def)

lemma normalise_pow2:
  assumes "normalise_freqs raw = Inr norm"
  shows "length norm = length raw \<and> (\<forall>n\<in>set norm. n = 0 \<or> (\<exists>k\<le>8. n = 2 ^ k))"
proof -
  define tot where "tot = (\<Sum>r\<leftarrow>raw. unat r)"
  have up: "upto_L (map (round_freq tot) raw)"
    by (auto simp: round_freq_def Let_def pow2_below_le)
  have "(256 :: nat) = 2 ^ 8" by simp
  then have L: "\<exists>k\<le>8. ANS_L = 2 ^ k" unfolding ANS_L_def by blast
  consider "norm = map (\<lambda>r. if r > 0 then ANS_L else 0) raw"
    | "norm = map force_pow2 (adjust 10000 (map (round_freq tot) raw))"
    using assms by (auto simp: normalise_freqs_def Let_def simp flip: tot_def split: if_splits)
  then show ?thesis
  proof cases
    case 2
    have "force_pow2 x = 0 \<or> (\<exists>k\<le>8. force_pow2 x = 2 ^ k)" if "x \<in> set (adjust 10000 (map (round_freq tot) raw))" for x
      using adjust_upto [OF up, of 10000] that by (intro force_pow2_pow) blast
    then show ?thesis using 2 adjust_upto [OF up, of 10000] by auto
  qed (use L in auto)
qed

section \<open>Header\<close>

lemma read_norm_header:
  "\<forall>f\<in>set norm. f < 65536 \<Longrightarrow> read_norm (length norm) (norm_header norm @ rest) = norm"
proof (induction norm)
  case (Cons f norm)
  have "unat (word_of_nat (f AND 0xFF) :: u8) OR push_bit 8 (unat (word_of_nat (drop_bit 8 f AND 0xFF) :: u8)) = f"
  proof -
    have "push_bit 8 (f div 256) OR f mod 256 = 2 ^ 8 * (f div 256) + f mod 256"
      by (rule push_or_nat) simp
    moreover have "f div 256 < 256" using Cons.prems by (auto intro: less_mult_imp_div_less)
    ultimately show ?thesis
      by (simp add: nat_and_mask unat_of_nat drop_bit_eq_div or.commute)
  qed
  then show ?case using Cons by (simp add: norm_header_def)
qed simp

lemma length_norm_header [simp]: "length (norm_header norm) = 2 * length norm"
  by (induction norm) (auto simp: norm_header_def)

section \<open>Bits the decoder needs\<close>

lemma nb_loop_ge: "nb \<le> nb_loop f nb"
  by (induction f nb rule: nb_loop.induct) (subst nb_loop.simps, auto)

lemma compute_nb_pos: "0 < f \<Longrightarrow> f \<le> 128 \<Longrightarrow> 0 < compute_nb f"
  using nb_loop_ge [of 1 "f * 2"] by (subst compute_nb_def, subst nb_loop.simps) (auto simp: ANS_L_def)

lemma abr_get_n_pos: "abr_get_n buf i n v pos = Some (w, pos') \<Longrightarrow> pos' = pos + n \<and> (0 < n \<longrightarrow> pos' \<le> 8 * length buf)"
proof (induction n arbitrary: i v pos)
  case (Suc n)
  from Suc.prems obtain b where b: "abr_get buf pos = Some (b, pos + 1)"
    and rest: "abr_get_n buf (Suc i) n (v OR push_bit i b) (pos + 1) = Some (w, pos')"
    by (auto simp: abr_get_def split: option.splits if_splits)
  have "pos < 8 * length buf" using b by (auto simp: abr_get_def drop_bit_eq_div split: if_splits)
  then show ?case using Suc.IH [OF rest] by (cases n) auto
qed simp

lemma full_table:
  assumes "tab_upto norm seq 256 t" "length seq = 256" "x < 256"
  shows "\<exists>j<256. spread j = x \<and> t_symbol t ! x = fst (seq ! j) \<and> t_nb_bits t ! x = compute_nb (norm ! fst (seq ! j)) \<and>
    seq ! j \<in> set seq"
proof -
  obtain j where j: "j < 256" "spread j = x" using spread_surj [OF assms(3)] by blast
  obtain s i where "seq ! j = (s, i)" by fastforce
  moreover have "seq ! j \<in> set seq" using assms j by simp
  ultimately show ?thesis using assms j by (intro exI [of _ j]) (auto simp: tab_upto_def)
qed

lemma tans_decode_bits:
  assumes t: "tab_upto norm (slot_seq norm order) 256 t" "length (slot_seq norm order) = 256"
    and nb: "\<And>s. s \<in> set order \<Longrightarrow> 0 < norm ! s \<Longrightarrow> 0 < compute_nb (norm ! s)"
  shows "tans_decode t buf n state pos = Inr out \<Longrightarrow> state < 256 \<Longrightarrow> pos \<le> 8 * length buf \<Longrightarrow> pos + n \<le> 8 * length buf"
proof (induction n arbitrary: state pos out)
  case (Suc n)
  obtain j where j: "t_symbol t ! state = fst (slot_seq norm order ! j)" "t_nb_bits t ! state = compute_nb (norm ! (t_symbol t ! state))"
    "slot_seq norm order ! j \<in> set (slot_seq norm order)"
    using full_table [OF t Suc.prems(2)] by auto
  then have pos: "0 < t_nb_bits t ! state" using nb by (auto simp: set_slot_seq)
  from Suc.prems(1) obtain bits pos' out' where g: "abr_get_n buf 0 (t_nb_bits t ! state) 0 pos = Some (bits, pos')"
    and new: "state - (state AND (push_bit (t_nb_bits t ! state) 1 - 1)) + bits < ANS_L"
    and rest: "tans_decode t buf n (state - (state AND (push_bit (t_nb_bits t ! state) 1 - 1)) + bits) pos' = Inr out'"
    by (auto simp: Let_def split: if_splits option.splits sum.splits)
  have "pos' + n \<le> 8 * length buf"
    using Suc.IH [OF rest] new abr_get_n_pos [OF g] pos by (simp add: ANS_L_def)
  then show ?case using abr_get_n_pos [OF g] pos by simp
qed simp


section \<open>Properties\<close>

lemma tans_ends:
  "mz_tans_decompress al data olen \<noteq> None \<and> mz_tans_compress al data max_out \<noteq> None"
proof -
  have len: "length (read_norm n src) = n" for n src by (induction n arbitrary: src) auto
  have "length (fold (\<lambda>x freqs. freqs[unat x := freqs ! unat x + 1]) ds fs) = length fs" for ds :: bytes and fs :: "u32 list"
    by (induction ds arbitrary: fs) auto
  then have freqs: "length (ans_freqs data) = 256" by (simp add: ans_freqs_def)
  have norm: "build_tables norm \<noteq> None" if "normalise_freqs (ans_freqs data) = Inr norm" for norm
    using normalise_pow2 [OF that] freqs by (intro build_tables_ends) simp
  have "build_tables (read_norm 256 data) \<noteq> None" by (rule build_tables_ends) (rule len)
  then have "mz_tans_decompress al data olen \<noteq> None"
    by (auto simp: mz_tans_decompress_def Let_def split: option.splits sum.splits)
  moreover have "mz_tans_compress al data max_out \<noteq> None"
    using norm
    by (auto simp: mz_tans_compress_def Let_def split: option.splits sum.splits prod.splits)
  ultimately show ?thesis ..
qed

text \<open>
  tANS terminates. Compressor and decompressor return on every input; in particular, once
  \<^verbatim>\<open>build_tables\<close> has accepted a table, be it from a hostile header, the search for a free state
  always finds one.
\<close>

theorem tans_terminates:
  "mz_tans_decompress al data olen \<noteq> None \<and> mz_tans_compress al data max_out \<noteq> None"
  by (rule tans_ends)

text \<open>
  Normalised frequencies. Every entry that \<^verbatim>\<open>normalise_freqs\<close> produces is zero or a power of
  two of at most 256, so the only way the tables built from it are refused is a sum other than 256.
\<close>

theorem tans_norm_valid:
  assumes "normalise_freqs raw = Inr norm"
  shows "length norm = length raw \<and> (\<forall>n\<in>set norm. n = 0 \<or> (\<exists>k\<le>8. n = 2 ^ k)) \<and>
    (norm_valid norm \<longleftrightarrow> sum_list norm = ANS_L)"
proof -
  have "n \<le> ANS_L \<and> n AND (n - 1) = 0" if "n = 2 ^ k" "k \<le> 8" for n k :: nat
  proof -
    have "(2 :: nat) ^ k \<le> 2 ^ 8" using that by (intro power_increasing) auto
    moreover have "(2 ^ k :: nat) AND (2 ^ k - 1) = 0"
      by (metis and.commute mask_eq_exp_minus_1 take_bit_eq_mask take_bit_of_exp dvd_refl exp_dvdE take_bit_eq_0_iff)
    ultimately show ?thesis using that by (simp add: ANS_L_def)
  qed
  then show ?thesis
    using normalise_pow2 [OF assms] by (fastforce simp: norm_valid_def list_all_iff)
qed

text \<open>
  tANS needs a bit per symbol. When no frequency of the header is above 128 and the byte 255 does
  not occur, decoding more symbols than there are bits after the header is an error.
  \<^verbatim>\<open>mz_decompress_meuos\<close> asks for four symbols per byte of input and 4096 more, so a tANS block
  of less than two kilobytes is never decoded.
\<close>

theorem tans_decode_needs_bits:
  assumes "520 \<le> length data" "read_norm 256 data ! 255 = 0" "\<forall>n\<in>set (read_norm 256 data). n \<le> 128"
    and "8 * (length data - 520) < olen"
  shows "\<exists>e. mz_tans_decompress al data olen = Some (mz_fail e)"
proof -
  let ?norm = "read_norm 256 data"
  have len: "length (read_norm n src) = n" for n src by (induction n arbitrary: src) auto
  show ?thesis
  proof (cases "norm_valid ?norm")
    case True
    obtain t where b: "build_tables ?norm = Some (Inr t)"
      and t: "tab_upto ?norm (slot_seq ?norm (sort_syms_by_nb ?norm)) 256 t"
      using build_tables_spread [OF True len assms(2)] by blast
    have nb: "0 < compute_nb (?norm ! s)" if "s < 256" "0 < ?norm ! s" for s
      using assms(3) that by (intro compute_nb_pos) (auto simp: len)
    let ?state = "unat (read_le32 (drop 512 data))"
    have "\<exists>e. tans_decode t (drop 520 data) olen ?state 0 = Inl e" if s: "?state < 256"
    proof (cases "tans_decode t (drop 520 data) olen ?state 0")
      case (Inr out)
      have "0 + olen \<le> 8 * length (drop 520 data)"
        by (rule tans_decode_bits [OF t length_slot_seq_valid [OF True len] _ Inr s])
          (use nb in \<open>simp_all add: set_sort_syms\<close>)
      then show ?thesis using assms(4) by simp
    qed simp
    then show ?thesis
      using assms(1) b by (cases "?state < 256") (auto simp: mz_tans_decompress_def Let_def ANS_L_def)
  qed (auto simp: mz_tans_decompress_def build_tables_def Let_def assms)
qed


section \<open>A run of one byte\<close>

lemma bs_put_0 [simp]: "bs_put b v 0 = Inr b"
  by (simp add: bs_put_def)

lemma renorm_done: "state < threshold \<Longrightarrow> renorm threshold state b = Inr (state, b)"
  by (subst renorm.simps) simp

lemma bs_put_1: "bs_count b < 7 \<Longrightarrow> bs_put b v 1 =
    Inr (b\<lparr>bs_container := push_bit 1 (bs_container b) OR (word_of_nat v AND mask 1), bs_count := bs_count b + 1\<rparr>)"
  by (subst bs_put_def) (subst bs_emit.simps, simp)

lemma renorm_first:
  "renorm 256 256 (bs_init cap) = Inr (128, \<lparr>bs_buf = [], bs_cap = cap, bs_container = 0, bs_count = 1\<rparr>)"
proof -
  have "bs_put (bs_init cap) (256 AND 1) 1 = Inr \<lparr>bs_buf = [], bs_cap = cap, bs_container = 0, bs_count = 1\<rparr>"
    by (subst bs_put_1) (simp_all add: bs_init_def)
  then show ?thesis
    by (subst renorm.simps) (simp add: renorm_done drop_bit_eq_div)
qed

lemma tans_encode_run:
  assumes t: "t_norm t ! unat b = 256" "\<And>r. r < 256 \<Longrightarrow> t_slot t (unat b) r < 256"
  shows "state < 256 \<Longrightarrow> \<exists>state' < 256. tans_encode t (replicate n b) state bs = Inr (state', bs)"
proof (induction n arbitrary: state)
  case (Suc n)
  then show ?case using t by (simp add: compute_nb_def ANS_L_def Let_def renorm_done not_le)
qed simp

lemma tans_decode_run:
  assumes "t_symbol t ! state = unat b" "t_norm t ! unat b \<noteq> 0" "t_nb_bits t ! state = 0" "state < 256"
  shows "tans_decode t buf n state pos = Inr (replicate n b)"
  using assms by (induction n) (simp_all add: Let_def ANS_L_def)


lemma ans_freqs_run: "ans_freqs (replicate n b) = (replicate 256 0)[unat b := word_of_nat n]"
proof -
  have "fold (\<lambda>x freqs. freqs[unat x := freqs ! unat x + 1]) (replicate n b) fs = fs[unat b := fs ! unat b + word_of_nat n]"
    if "length fs = 256" for fs :: "u32 list"
    using that by (induction n arbitrary: fs) (simp_all add: algebra_simps)
  then show ?thesis by (simp add: ans_freqs_def)
qed

definition run_norm :: "u8 \<Rightarrow> nat list" where
  "run_norm b = (replicate 256 0)[unat b := 256]"

lemma normalise_run:
  assumes "0 < n" "n < 2 ^ 32"
  shows "normalise_freqs (ans_freqs (replicate n b)) = Inr (run_norm b)"
proof -
  have b: "unat b < 256" by simp
  have n: "unat (word_of_nat n :: u32) = n" using assms by (simp add: unat_of_nat)
  then have pos: "0 < (word_of_nat n :: u32)" using assms by (simp add: word_gt_0 word_unat_eq_iff)
  have "(\<Sum>r\<leftarrow>(replicate 256 (0 :: u32))[unat b := word_of_nat n]. unat r) = n"
    using b n by (simp add: map_update sum_list_update)
  moreover have "length (filter (\<lambda>r. 0 < r) ((replicate 256 (0 :: u32))[unat b := word_of_nat n])) = 1"
    using b pos by (simp add: upd_conv_take_nth_drop)
  ultimately show ?thesis
    using assms pos by (simp add: normalise_freqs_def ans_freqs_run Let_def map_update run_norm_def ANS_L_def)
qed

lemma run_norm_valid: "norm_valid (run_norm b) \<and> length (run_norm b) = 256 \<and> run_norm b ! unat b = 256"
proof -
  have b: "unat b < 256" by simp
  have "set (run_norm b) \<subseteq> {0, 256}" unfolding run_norm_def by (rule order_trans [OF set_update_subset_insert]) auto
  moreover have "sum_list (run_norm b) = 256" using b by (simp add: run_norm_def sum_list_update)
  ultimately show ?thesis using b by (auto simp: norm_valid_def list_all_iff ANS_L_def run_norm_def)
qed

lemma run_order: "sort_syms_by_nb (run_norm b) = [unat b]"
proof -
  have b: "unat b < 256" by simp
  have "set (sort_syms_by_nb (run_norm b)) = {unat b}"
    using b by (auto simp: set_sort_syms run_norm_def nth_list_update split: if_splits)
  then have "set (sort_syms_by_nb (run_norm b)) = {unat b}" "length (sort_syms_by_nb (run_norm b)) = 1"
    using distinct_card [OF distinct_sort_syms [of "run_norm b"]] by simp_all
  then show ?thesis by (auto simp: length_Suc_conv)
qed

lemma run_tables:
  assumes "b \<noteq> 255"
  shows "\<exists>t. build_tables (run_norm b) = Some (Inr t) \<and> t_norm t = run_norm b \<and>
    (\<forall>x<256. t_symbol t ! x = unat b \<and> t_nb_bits t ! x = 0 \<and> t_slot t (unat b) x < 256)"
proof -
  have "unat b \<noteq> 255" using assms by (simp add: word_unat_eq_iff) 
  then have "run_norm b ! 255 = 0" by (simp add: run_norm_def)
  then obtain t where t: "build_tables (run_norm b) = Some (Inr t)"
    "tab_upto (run_norm b) (slot_seq (run_norm b) [unat b]) 256 t"
    using build_tables_spread [of "run_norm b"] run_norm_valid run_order by auto
  have seq: "slot_seq (run_norm b) [unat b] = map (Pair (unat b)) [0..<256]"
    by (simp add: run_norm_valid)
  have "t_symbol t ! x = unat b \<and> t_nb_bits t ! x = 0 \<and> t_slot t (unat b) x < 256" if "x < 256" for x
  proof -
    have "t_slot t (unat b) x = spread x" using t(2) that unfolding seq by (auto simp: tab_upto_def)
    moreover have "t_symbol t ! x = unat b \<and> t_nb_bits t ! x = compute_nb 256"
      using full_table [OF t(2) _ that] unfolding seq by (auto simp: run_norm_valid)
    ultimately show ?thesis by (simp add: compute_nb_def ANS_L_def)
  qed
  then show ?thesis using t by (auto simp: tab_upto_def)
qed


definition tans_file :: "nat list \<Rightarrow> nat \<Rightarrow> bytes \<Rightarrow> bytes" where
  "tans_file norm state bits =
     norm_header norm @ write_le32 (word_of_nat state) @ write_le32 (word_of_nat (length bits * 8)) @ bits"

lemma tans_file_read:
  assumes "length norm = 256" "\<forall>f\<in>set norm. f < 65536" "state < 256"
  shows "read_norm 256 (tans_file norm state bits) = norm"
    and "unat (read_le32 (drop 512 (tans_file norm state bits))) = state"
    and "drop 520 (tans_file norm state bits) = bits" "520 \<le> length (tans_file norm state bits)"
proof -
  show "read_norm 256 (tans_file norm state bits) = norm"
    unfolding tans_file_def using read_norm_header [OF assms(2)] assms(1) by simp
  have "drop 512 (tans_file norm state bits) =
      write_le32 (word_of_nat state) @ write_le32 (word_of_nat (length bits * 8)) @ bits"
    using assms(1) by (simp add: tans_file_def)
  then show "unat (read_le32 (drop 512 (tans_file norm state bits))) = state"
    using assms(3) by (simp add: read_le32_append unat_of_nat)
qed (use assms(1) in \<open>simp_all add: tans_file_def\<close>)

lemma tans_compress_file:
  assumes "data \<noteq> []" "normalise_freqs (ans_freqs data) = Inr norm" "al ANS_TABLES_SIZE"
    and "build_tables norm = Some (Inr t)" "520 \<le> max_out"
    and "tans_encode t (rev data) ANS_L (bs_init (max_out - 520)) = Inr (state, b)" "bs_flush b = Inr b'"
  shows "mz_tans_compress al data max_out = Some \<lparr>ret_code = MZ_OK, ret_out = Some (tans_file norm state (bs_buf b'))\<rparr>"
  using assms by (simp add: mz_tans_compress_def tans_file_def)

lemma tans_decompress_file:
  assumes "length norm = 256" "\<forall>f\<in>set norm. f < 65536" "state < 256" "al ANS_TABLES_SIZE"
    and "build_tables norm = Some (Inr t)" "tans_decode t bits olen state 0 = Inr out"
  shows "mz_tans_decompress al (tans_file norm state bits) olen = Some \<lparr>ret_code = MZ_OK, ret_out = Some out\<rparr>"
  using assms tans_file_read [OF assms(1-3), of bits] by (simp add: mz_tans_decompress_def ANS_L_def)

text \<open>
  tANS round trip of runs. A run of one byte other than 255 is compressed to 521 bytes and
  decompressed to the same run.
\<close>

theorem tans_run_roundtrip:
  assumes "0 < n" "n < 2 ^ 32" "b \<noteq> 255" "al ANS_TABLES_SIZE" "521 \<le> max_out"
  shows "\<exists>out. mz_tans_compress al (replicate n b) max_out = Some \<lparr>ret_code = MZ_OK, ret_out = Some out\<rparr> \<and>
    length out = 521 \<and> mz_tans_decompress al out n = Some \<lparr>ret_code = MZ_OK, ret_out = Some (replicate n b)\<rparr>"
proof -
  obtain t where t: "build_tables (run_norm b) = Some (Inr t)" "t_norm t = run_norm b"
    and tab: "\<And>x. x < 256 \<Longrightarrow> t_symbol t ! x = unat b \<and> t_nb_bits t ! x = 0 \<and> t_slot t (unat b) x < 256"
    using run_tables [OF assms(3)] by auto
  note rn = run_norm_valid [of b]
  have fits: "\<forall>f\<in>set (run_norm b). f < 65536"
    using rn by (auto simp: norm_valid_def list_all_iff ANS_L_def)
  define bs where "bs = \<lparr>bs_buf = [], bs_cap = max_out - 520, bs_container = 0, bs_count = 1\<rparr>"
  obtain m where m: "n = Suc m" using assms(1) gr0_implies_Suc by blast
  have "t_slot t (unat b) 128 < 256" using tab by simp
  then obtain st where st: "st < 256"
    "tans_encode t (replicate m b) (t_slot t (unat b) 128) bs = Inr (st, bs)"
    using tans_encode_run [of t b "t_slot t (unat b) 128" m bs] t rn tab by auto
  have enc: "tans_encode t (rev (replicate n b)) ANS_L (bs_init (max_out - 520)) = Inr (st, bs)"
    using st(2) tab [of 128] t rn renorm_first [of "max_out - 520", folded bs_def]
    by (simp add: m replicate_app_Cons_same compute_nb_def ANS_L_def Let_def not_le)
  have "bs_flush bs = Inr (bs\<lparr>bs_buf := [0], bs_container := 0, bs_count := 0\<rparr>)"
    using assms(5) by (simp add: bs_flush_def bs_def)
  then have "mz_tans_compress al (replicate n b) max_out =
      Some \<lparr>ret_code = MZ_OK, ret_out = Some (tans_file (run_norm b) st [0])\<rparr>"
    using tans_compress_file [of "replicate n b" "run_norm b" al t max_out st bs] normalise_run [OF assms(1,2), of b]
      t(1) enc assms by simp
  moreover have "mz_tans_decompress al (tans_file (run_norm b) st [0]) n =
      Some \<lparr>ret_code = MZ_OK, ret_out = Some (replicate n b)\<rparr>"
    using tans_decompress_file [of "run_norm b" st al t "[0]" n "replicate n b"]
      tans_decode_run [of t st b "[0]" n 0] tab [OF st(1)] t rn st(1) fits assms(4) by simp
  moreover have "length (tans_file (run_norm b) st [0]) = 521" using rn by (simp add: tans_file_def)
  ultimately show ?thesis by blast
qed


section \<open>The general round trip fails\<close>

definition norm12 :: "nat list" where
  "norm12 = [0, 128, 128] @ replicate 253 0"

lemma norm12_freqs: "normalise_freqs (ans_freqs [1, 2]) = Inr norm12"
proof -
  have "replicate 256 (0 :: u32) = [0, 0, 0] @ replicate 253 0"
    using replicate_add [of 3 253 "0 :: u32"] by (simp add: numeral_3_eq_3)
  moreover have unat_2: "unat (2 :: u8) = Suc (Suc 0)" by simp
  ultimately have f: "ans_freqs [1, 2] = [0, 1, 1] @ replicate 253 0"
    by (simp add: ans_freqs_def unat_2)
  have "round_freq 2 1 = 128"
    by (simp add: round_freq_def pow2_below.simps ANS_L_def)
  moreover have "force_pow2 128 = 128" "force_pow2 0 = 0" "round_freq 2 0 = 0"
    by (simp_all add: force_pow2_def round_freq_def)
  moreover have "adjust 10000 norm12 = norm12"
    by (simp add: norm12_def ANS_L_def sum_list_replicate eval_nat_numeral(2) [of "num.Bit0 num.One"] adjust.simps(2) [of 9999, simplified])
  ultimately show ?thesis
    by (simp add: f normalise_freqs_def norm12_def sum_list_replicate flip: numeral_2_eq_2)
qed

lemma nb_128: "compute_nb 128 = 1"
  by (simp add: compute_nb_def nb_loop.simps ANS_L_def)

lemma norm12_order: "sort_syms_by_nb norm12 = [1, 2]"
proof -
  have "[0..<256] = [0, 1, 2] @ [3..<256]"
    using upt_add_eq_append [of 0 3 253] by (simp add: numeral_3_eq_3 numeral_2_eq_2 del: upt_rec_numeral)
  moreover have "filter (\<lambda>i. norm12 ! i > 0) [3..<256] = []" 
    by (auto simp: norm12_def filter_empty_conv nth_Cons' simp del: upt_rec_numeral)
  ultimately have "filter (\<lambda>i. norm12 ! i > 0) [0..<256] = [1, 2]"
    by (simp add: norm12_def del: upt_rec_numeral)
  then show ?thesis by (simp add: sort_syms_by_nb_def norm12_def nb_128 del: upt_rec_numeral)
qed

lemma norm12_tables:
  "\<exists>t. build_tables norm12 = Some (Inr t) \<and> t_norm t = norm12 \<and> t_slot t 2 64 = 64 \<and> t_slot t 1 32 = 96 \<and>
    t_symbol t ! 96 = 1 \<and> t_nb_bits t ! 96 = 1"
proof -
  have v: "norm_valid norm12" "length norm12 = 256" "norm12 ! 255 = 0"
    by (simp_all add: norm12_def norm_valid_def ANS_L_def sum_list_replicate list_all_iff)
  obtain t where t: "build_tables norm12 = Some (Inr t)" "tab_upto norm12 (slot_seq norm12 [1, 2]) 256 t"
    using build_tables_spread [OF v] norm12_order by auto
  have seq: "slot_seq norm12 [1, 2] = map (Pair 1) [0..<128] @ map (Pair 2) [0..<128]"
    by (simp add: norm12_def)
  have at: "j < 256 \<Longrightarrow> case slot_seq norm12 [1, 2] ! j of (s, i) \<Rightarrow>
        t_symbol t ! spread j = s \<and> t_rank_tab t ! spread j = i \<and> t_slot t s i = spread j \<and>
        t_nb_bits t ! spread j = compute_nb (norm12 ! s) \<and>
        t_base t ! spread j = push_bit (compute_nb (norm12 ! s)) i" for j
    using t(2) by (simp add: tab_upto_def)
  have "spread 192 = 64" "spread 32 = 96" by (simp_all add: spread_def)
  moreover have "norm12 ! 1 = 128" by (simp add: norm12_def)
  moreover have "slot_seq norm12 [1, 2] ! 192 = (2, 64)" "slot_seq norm12 [1, 2] ! 32 = (1, 32)"
    unfolding seq by (simp_all add: nth_append)
  ultimately show ?thesis using t at [of 192] at [of 32] by (auto simp: tab_upto_def nb_128)
qed

text \<open>
  C40. The tANS round trip fails. The decoder keeps the upper bits of the state where the encoder
  stored the rank of the slot, so already a two byte input comes back changed, without an error.
\<close>

theorem tans_roundtrip_fails:
  "\<exists>out. mz_tans_compress (\<lambda>_. True) [1, 2] 1000 = Some \<lparr>ret_code = MZ_OK, ret_out = Some out\<rparr> \<and>
    mz_tans_decompress (\<lambda>_. True) out 2 = Some \<lparr>ret_code = MZ_OK, ret_out = Some [1, 1]\<rparr>"
proof -
  obtain t where t: "build_tables norm12 = Some (Inr t)" "t_norm t = norm12" "t_slot t 2 64 = 64" "t_slot t 1 32 = 96"
    "t_symbol t ! 96 = 1" "t_nb_bits t ! 96 = 1"
    using norm12_tables by blast
  have n: "norm12 ! 1 = 128" "norm12 ! 2 = 128" "length norm12 = 256" "\<forall>f\<in>set norm12. f < 65536"
    by (auto simp: norm12_def)
  define bs where "bs = (\<lambda>k. \<lparr>bs_buf = [], bs_cap = 480, bs_container = 0, bs_count = k\<rparr>)"
  have first: "renorm 256 256 (bs_init 480) = Inr (128, bs 1)" using renorm_first by (simp add: bs_def)
  have put: "bs_put (bs k) 0 1 = Inr (bs (k + 1))" if "k < 7" for k using that by (subst bs_put_1) (simp_all add: bs_def)
  have "tans_encode t (rev [1, 2]) ANS_L (bs_init 480) = Inr (96, bs 3)"
    using t n first put [of 1] put [of 2]
    by (simp add: nb_128 ANS_L_def Let_def drop_bit_eq_div renorm_done numeral_2_eq_2 [symmetric] and_one_eq)
  moreover have "bs_flush (bs 3) = Inr ((bs 3)\<lparr>bs_buf := [0], bs_container := 0, bs_count := 0\<rparr>)"
    by (simp add: bs_flush_def bs_def)
  ultimately have "mz_tans_compress (\<lambda>_. True) [1, 2] 1000 =
      Some \<lparr>ret_code = MZ_OK, ret_out = Some (tans_file norm12 96 [0])\<rparr>"
    using tans_compress_file [OF _ norm12_freqs _ t(1), of "\<lambda>_. True" 1000] by simp
  moreover have step: "tans_decode t [0] (Suc k) 96 p =
      (case tans_decode t [0] k 96 (Suc p) of Inl e \<Rightarrow> Inl e | Inr out \<Rightarrow> Inr (1 # out))" if "p < 8" for k p
  proof -
    have "drop_bit 3 p = 0" using that by (simp add: drop_bit_eq_div)
    then have "abr_get_n [0] 0 1 0 p = Some (0, Suc p)" by (simp add: abr_get_def)
    then show ?thesis
      using t n by (cases "tans_decode t [0] k 96 (Suc p)") (simp_all add: ANS_L_def Let_def and_one_eq)
  qed
  have "tans_decode t [0] 2 96 0 = Inr [1, 1]" by (simp add: step numeral_2_eq_2 del: tans_decode.simps(2))
  then have "mz_tans_decompress (\<lambda>_. True) (tans_file norm12 96 [0]) 2 = Some \<lparr>ret_code = MZ_OK, ret_out = Some [1, 1]\<rparr>"
    by (intro tans_decompress_file [OF n(3,4) _ _ t(1)]) simp_all
  ultimately show ?thesis by blast
qed


text \<open>Instances of the theorems above.\<close>

theorem tans_norm_valid_witness:
  "normalise_freqs (ans_freqs [1, 2]) = Inr norm12 \<and> length norm12 = length (ans_freqs [1, 2]) \<and>
    norm12 ! 1 = 128 \<and> list_all (\<lambda>n. n = 0 \<or> (\<exists>k\<le>8. n = 2 ^ k)) norm12"
  using tans_norm_valid [OF norm12_freqs] norm12_freqs by (simp add: list_all_iff norm12_def)

theorem tans_decode_needs_bits_witness:
  "\<exists>e. mz_tans_decompress (\<lambda>_. True) (tans_file norm12 96 [0]) 9 = Some (mz_fail e)"
proof -
  have n: "length norm12 = 256" "\<forall>f\<in>set norm12. f < 65536" "(96 :: nat) < 256"
    by (auto simp: norm12_def)
  have "norm12 ! 255 = 0" "\<forall>n\<in>set norm12. n \<le> 128" by (auto simp: norm12_def)
  then show ?thesis
    using tans_file_read [OF n, of "[0]"] n(1)
    by (intro tans_decode_needs_bits) (simp_all add: tans_file_def)
qed

theorem tans_run_roundtrip_witness:
  "\<exists>out. mz_tans_compress (\<lambda>_. True) (replicate 3 7) 600 = Some \<lparr>ret_code = MZ_OK, ret_out = Some out\<rparr> \<and>
    mz_tans_decompress (\<lambda>_. True) out 3 = Some \<lparr>ret_code = MZ_OK, ret_out = Some (replicate 3 7)\<rparr>"
  using tans_run_roundtrip [of 3 7 "\<lambda>_. True" 600] by auto

end
