(* ===== verification/Combo.thy ===== *)
theory Combo
  imports Lz77 Huffman_Roundtrip Ans_Codec Deflate
begin

text \<open>
  The pipeline and the dispatcher: \<^verbatim>\<open>codec/mz_combo.c\<close> (LZ77, then Huffman on levels 4 to 6 or
  tANS from level 7 on, kept only when it is shorter), \<^verbatim>\<open>codec/mz_main.c\<close> (the choice of the codec)
  and \<^verbatim>\<open>container/mz_msys.c\<close> (the flat-buffer adapter on top). None as a result says that the call
  has no defined result (it comes from the codec below). A failed \<^verbatim>\<open>malloc\<close> of the
  entropy buffer only skips the entropy coding.
\<close>

section \<open>LZ77 with entropy coding\<close>

definition COMBO_TYPE_RAW :: u8 where "COMBO_TYPE_RAW = 0"
definition COMBO_TYPE_HUFF :: u8 where "COMBO_TYPE_HUFF = 1"
definition COMBO_TYPE_TANS :: u8 where "COMBO_TYPE_TANS = 2"

text \<open>Whether an entropy coder's result is taken: it reported 0 and its output is shorter.\<close>

definition entropy_take :: "u8 \<Rightarrow> bytes \<Rightarrow> mz_ret \<Rightarrow> u8 \<times> bytes" where
  "entropy_take etype lz77 r =
     (case ret_out r of
        Some ecode \<Rightarrow> if ret_code r = 0 \<and> length ecode < length lz77 then (etype, ecode) else (COMBO_TYPE_RAW, lz77)
      | None \<Rightarrow> (COMBO_TYPE_RAW, lz77))"

definition entropy_code :: "allocator \<Rightarrow> int \<Rightarrow> bytes \<Rightarrow> (u8 \<times> bytes) option" where
  "entropy_code al lv lz77 =
     (let max_out = length lz77 + length lz77 div 4 + 4096 in
      if lv \<ge> 7 then
        if al max_out then map_option (entropy_take COMBO_TYPE_TANS lz77) (mz_tans_compress al lz77 max_out)
        else Some (COMBO_TYPE_RAW, lz77)
      else if lv \<ge> 4 then
        if al max_out then Some (entropy_take COMBO_TYPE_HUFF lz77 (mz_huf_compress lz77 max_out))
        else Some (COMBO_TYPE_RAW, lz77)
      else Some (COMBO_TYPE_RAW, lz77))"

definition mz_compress_meuos :: "allocator \<Rightarrow> bytes option \<Rightarrow> int \<Rightarrow> mz_ret option" where
  "mz_compress_meuos al input lv =
     (case input of
        None \<Rightarrow> Some (mz_fail MZ_ERR_PARAM)
      | Some data \<Rightarrow>
          let rc = mz_compress_lz77 al (Some data) lv in
          if ret_code rc \<le> 0 then Some \<lparr>ret_code = ret_code rc, ret_out = None\<rparr>
          else case entropy_code al lv (the (ret_out rc)) of
            None \<Rightarrow> None
          | Some (etype, ecode) \<Rightarrow>
              if \<not> al (1 + length ecode) then Some (mz_fail MZ_ERR_MEMORY)
              else Some (mz_ok (etype # ecode)))"

text \<open>The entropy layer of the decompressor: the LZ77 data, or the error returned.\<close>

definition entropy_decode :: "allocator \<Rightarrow> u8 \<Rightarrow> bytes \<Rightarrow> (mz_err + bytes) option" where
  "entropy_decode al etype data =
     (let max_out = length data * 4 + 4096;
          result = (\<lambda>r. case ret_out r of
                          Some lz77 \<Rightarrow> if ret_code r \<noteq> 0 then Inl MZ_ERR_DATA else Inr lz77
                        | None \<Rightarrow> Inl MZ_ERR_DATA)
      in if etype = COMBO_TYPE_TANS then
           if \<not> al max_out then Some (Inl MZ_ERR_MEMORY)
           else map_option result (mz_tans_decompress al data max_out)
         else if etype = COMBO_TYPE_HUFF then
           if \<not> al max_out then Some (Inl MZ_ERR_MEMORY)
           else Some (result (mz_huf_decompress data max_out))
         else if etype = COMBO_TYPE_RAW then Some (Inr data)
         else Some (Inl MZ_ERR_DATA))"

definition mz_decompress_meuos :: "allocator \<Rightarrow> bytes option \<Rightarrow> mz_ret option" where
  "mz_decompress_meuos al input =
     (case input of
        None \<Rightarrow> Some (mz_fail MZ_ERR_PARAM)
      | Some [] \<Rightarrow> Some (mz_fail MZ_ERR_PARAM)
      | Some (etype # data) \<Rightarrow>
          (case entropy_decode al etype data of
             None \<Rightarrow> None
           | Some (Inl e) \<Rightarrow> Some (mz_fail e)
           | Some (Inr lz77) \<Rightarrow> Some (mz_decompress_lz77 al (Some lz77))))"

section \<open>The dispatcher\<close>

definition MZ_CODEC_AUTO :: int where "MZ_CODEC_AUTO = 0"
definition MZ_CODEC_LZ77 :: int where "MZ_CODEC_LZ77 = 1"
definition MZ_CODEC_MEUOS :: int where "MZ_CODEC_MEUOS = 3"
definition MZ_CODEC_DEFLATE :: int where "MZ_CODEC_DEFLATE = 4"

definition mz_compress :: "allocator \<Rightarrow> bytes option \<Rightarrow> int \<Rightarrow> int \<Rightarrow> mz_ret option" where
  "mz_compress al input c lv =
     (if c = MZ_CODEC_MEUOS then mz_compress_meuos al input lv
      else if c = MZ_CODEC_LZ77 \<or> c = MZ_CODEC_AUTO then Some (mz_compress_lz77 al input lv)
      else if c = MZ_CODEC_DEFLATE then mz_deflate_compress al input
      else Some (mz_fail MZ_ERR_CODEC))"

text \<open>\<open>sy\<close> is the contents of inflate's uninitialised symbol arrays.\<close>

definition mz_decompress :: "nat list \<Rightarrow> allocator \<Rightarrow> bytes option \<Rightarrow> int \<Rightarrow> mz_ret option" where
  "mz_decompress sy al input c =
     (if c = MZ_CODEC_MEUOS then mz_decompress_meuos al input
      else if c = MZ_CODEC_LZ77 \<or> c = MZ_CODEC_AUTO then Some (mz_decompress_lz77 al input)
      else if c = MZ_CODEC_DEFLATE then mz_deflate_decompress sy al input
      else Some (mz_fail MZ_ERR_CODEC))"

definition mz_max_compressed_size :: "nat \<Rightarrow> int \<Rightarrow> nat" where
  "mz_max_compressed_size il c = mz_max_compressed_size_lz77 il"

definition mz_strerror :: "int \<Rightarrow> string" where
  "mz_strerror e =
     (if e = MZ_OK then ''Success''
      else if e = err_code MZ_ERR_MEMORY then ''Out of memory''
      else if e = err_code MZ_ERR_DATA then ''Corrupt or invalid data''
      else if e = err_code MZ_ERR_PARAM then ''Invalid parameter''
      else if e = err_code MZ_ERR_STREAM then ''Stream error''
      else if e = err_code MZ_ERR_CODEC then ''Unsupported codec''
      else if e = err_code MZ_ERR_CRYPT then ''Cryptographic error''
      else ''Unknown error'')"

definition mz2_level_supported :: "int \<Rightarrow> int" where
  "mz2_level_supported level = (if level \<ge> 1 \<and> level \<le> 9 then 1 else 0)"

section \<open>The flat-buffer adapter\<close>

text \<open>
  The caller passes the capacity; the result is the return code and, when it is 0, the bytes
  written to the buffer, whose number is stored in \<^verbatim>\<open>*outlen\<close>.
\<close>

definition msys_deliver :: "nat \<Rightarrow> mz_ret \<Rightarrow> int \<times> bytes" where
  "msys_deliver outlen r =
     (if ret_code r \<noteq> MZ_OK then (-1, [])
      else case ret_out r of
        Some tmp \<Rightarrow> if length tmp > outlen then (-1, []) else (0, tmp)
      | None \<Rightarrow> (0, []))"

definition mz_msys_compress :: "allocator \<Rightarrow> bytes option \<Rightarrow> nat \<Rightarrow> int \<Rightarrow> (int \<times> bytes) option" where
  "mz_msys_compress al input outlen level =
     map_option (msys_deliver outlen) (mz_compress al input MZ_CODEC_MEUOS level)"

definition mz_msys_decompress :: "nat list \<Rightarrow> allocator \<Rightarrow> bytes option \<Rightarrow> nat \<Rightarrow> (int \<times> bytes) option" where
  "mz_msys_decompress sy al input outlen =
     map_option (msys_deliver outlen) (mz_decompress sy al input MZ_CODEC_MEUOS)"

section \<open>Properties\<close>

text \<open>The LZ77 decoder stops at the announced size, so bytes after the stream do not matter.\<close>

lemma decompress_lz77_trailing:
  assumes "length data < 2 ^ 32" "al (length data)" "lz_decodes data seg 0 (length data)"
  shows "mz_decompress_lz77 al (Some (lz_header (length data) @ seg @ extra)) = mz_ok data"
proof -
  have out: "d_out lz_dec_init = take 0 data"
    by (simp add: lz_dec_init_def)
  obtain d' where d': "d_out d' = take (length data) data"
    "lz_dec_loop True (length data) (seg @ extra) lz_dec_init = lz_dec_loop True (length data) extra d'"
    using assms(3) ring_good_init out unfolding lz_decodes_def by blast
  have "lz_dec_loop True (length data) extra d' = Inr data"
    using d'(1) by (cases extra) auto
  moreover have "unat (read_le32 (write_le32 (word_of_nat (length data)) @ seg @ extra)) = length data"
    using assms(1) by (simp add: read_le32_append)
  ultimately show ?thesis
    using d'(2) assms(1,2) by (simp add: mz_decompress_lz77_def lz_header_def Let_def)
qed

lemma compress_lz77_trailing:
  assumes fits: "lz_fits al data" and c: "mz_compress_lz77 al (Some data) level = mz_ok lz"
  shows "mz_decompress_lz77 al (Some (lz @ extra)) = mz_ok data"
    and "6 \<le> length lz" "length lz \<le> 2 * length data + 6"
proof -
  have "data \<noteq> []" "al (length data + length data + 20)" using fits by (simp_all add: lz_fits_def)
  then obtain seg where "mz_compress_lz77 al (Some data) level = mz_ok (lz_header (length data) @ seg)"
    and seg: "lz_decodes data seg 0 (length data)" "length seg \<le> 2 * length data"
    using compress_lz77_shape by blast
  then have lz: "lz = lz_header (length data) @ seg" using c by (simp add: mz_ok_def)
  then show "mz_decompress_lz77 al (Some (lz @ extra)) = mz_ok data"
    using decompress_lz77_trailing [OF _ _ seg(1), of al extra] fits by (simp add: lz_fits_def)
  show "6 \<le> length lz" "length lz \<le> 2 * length data + 6"
    using lz seg(2) by (simp_all add: lz_header_def)
qed

lemma entropy_code_total: "\<exists>etype ecode. entropy_code al lv lz = Some (etype, ecode) \<and> length ecode \<le> length lz"
proof -
  have take: "length (snd (entropy_take etype lz r)) \<le> length lz" for etype r
    by (auto simp: entropy_take_def split: option.splits)
  obtain r where "mz_tans_compress al lz (length lz + length lz div 4 + 4096) = Some r"
    using tans_ends by blast
  then have "entropy_code al lv lz \<noteq> None" by (simp add: entropy_code_def Let_def del: not_None_eq)
  then obtain r where r: "entropy_code al lv lz = Some r" by blast
  then have "length (snd r) \<le> length lz" using take by (auto simp: entropy_code_def Let_def split: if_splits)
  then show ?thesis using r by (cases r) auto
qed

text \<open>On a level below 7 the entropy layer gives back what the pipeline put in.\<close>

lemma entropy_below_7:
  assumes c: "entropy_code al lv lz = Some (etype, ecode)" and lv: "lv < 7"
    and len: "length lz < 9227465" "length lz \<le> length ecode * 4 + 4096" "al (length ecode * 4 + 4096)"
  shows "\<exists>extra. entropy_decode al etype ecode = Some (Inr (lz @ extra))"
proof -
  let ?r = "mz_huf_compress lz (length lz + length lz div 4 + 4096)"
  consider (raw) "etype = COMBO_TYPE_RAW" "ecode = lz"
    | (huf) "etype = COMBO_TYPE_HUFF" "?r = \<lparr>ret_code = MZ_OK, ret_out = Some ecode\<rparr>"
    using c lv by (cases ?r) (auto simp: entropy_code_def entropy_take_def Let_def MZ_OK_def split: if_splits option.splits)
  then show ?thesis
  proof cases
    case raw
    then show ?thesis
      by (auto simp: entropy_decode_def COMBO_TYPE_RAW_def COMBO_TYPE_TANS_def COMBO_TYPE_HUFF_def)
  next
    case huf
    then show ?thesis
      using huf_roundtrip_room [OF len(1) huf(2) len(2)] len(3)
      by (auto simp: entropy_decode_def COMBO_TYPE_TANS_def COMBO_TYPE_HUFF_def MZ_OK_def Let_def)
  qed
qed

lemma compress_meuos_out:
  assumes fits: "lz_fits al data" and small: "length data < 2 ^ 22" and mem: "\<forall>n \<le> 2 * length data + 7. al n"
    and lz: "mz_compress_lz77 al (Some data) lv = mz_ok lz"
  shows "\<exists>etype ecode. entropy_code al lv lz = Some (etype, ecode) \<and> length ecode \<le> 2 * length data + 6 \<and>
    mz_compress_meuos al (Some data) lv = Some (mz_ok (etype # ecode))"
proof -
  obtain etype ecode where e: "entropy_code al lv lz = Some (etype, ecode)" "length ecode \<le> length lz"
    using entropy_code_total by blast
  note len = compress_lz77_trailing(2,3) [OF fits lz]
  then have "0 < c_int (length lz)" using small by (auto simp: c_int_small)
  then show ?thesis using e len lz mem by (simp add: mz_compress_meuos_def)
qed

text \<open>
  C34. Round trip of the pipeline. On every level below 7 the pipeline compresses every non-empty
  input below 4 MiB, given the memory, and decompresses to the input, provided the LZ77 stream is
  not longer than the four bytes per byte and 4096 more that the decompressor reserves for it. The
  bytes that the Huffman decoder reads from the padding do no harm.
\<close>

theorem meuos_roundtrip:
  assumes "data \<noteq> []" "length data < 2 ^ 22" "lv < 7" and mem: "\<forall>n \<le> 8 * length data + 5000. al n"
    and lz: "mz_compress_lz77 al (Some data) lv = mz_ok lz"
  shows "\<exists>out. mz_compress_meuos al (Some data) lv = Some (mz_ok out) \<and>
    (length lz \<le> 4 * (length out - 1) + 4096 \<longrightarrow> mz_decompress_meuos al (Some out) = Some (mz_ok data))"
proof -
  have fits: "lz_fits al data" using assms by (simp add: lz_fits_def)
  obtain etype ecode where e: "entropy_code al lv lz = Some (etype, ecode)" "length ecode \<le> 2 * length data + 6"
    "mz_compress_meuos al (Some data) lv = Some (mz_ok (etype # ecode))"
    using compress_meuos_out [OF fits assms(2) _ lz] mem by auto
  have "length lz < 9227465" using compress_lz77_trailing(3) [OF fits lz] assms(2) by simp
  then have "mz_decompress_meuos al (Some (etype # ecode)) = Some (mz_ok data)"
    if "length lz \<le> length ecode * 4 + 4096"
    using entropy_below_7 [OF e(1) assms(3) _ that] e(2) mem compress_lz77_trailing(1) [OF fits lz]
    by (auto simp: mz_decompress_meuos_def)
  then show ?thesis using e(3) by (intro exI [of _ "etype # ecode"]) (auto simp: algebra_simps)
qed

theorem meuos_roundtrip_witness:
  "\<exists>out. mz_compress_meuos (\<lambda>_. True) (Some [1, 2, 3]) 5 = Some (mz_ok out) \<and>
    mz_decompress_meuos (\<lambda>_. True) (Some out) = Some (mz_ok [1, 2, 3])"
proof -
  obtain lz where lz: "mz_compress_lz77 (\<lambda>_. True) (Some [1, 2, 3]) 5 = mz_ok lz"
    using compress_lz77_shape [of "[1, 2, 3]" "\<lambda>_. True" 5] by auto
  have "length lz \<le> 12" using compress_lz77_trailing(3) [OF _ lz] by (simp add: lz_fits_def)
  then show ?thesis using meuos_roundtrip [OF _ _ _ _ lz] by fastforce
qed

text \<open>
  The msys adapter never succeeds. \<^verbatim>\<open>mz_msys_compress\<close> compares the return value of
  \<^verbatim>\<open>mz_compress\<close>, which is the number of bytes produced, with \<^verbatim>\<open>MZ_OK\<close>, so it returns -1 on every
  input below 4 MiB, at every level and whatever the size of the buffer.
\<close>

theorem msys_compress_fails:
  assumes "length data < 2 ^ 22"
  shows "mz_msys_compress al (Some data) outlen lv = Some (-1, [])"
proof -
  have "\<exists>r. mz_compress_meuos al (Some data) lv = Some r \<and> ret_code r \<noteq> MZ_OK"
  proof (cases "data \<noteq> [] \<and> al (length data + length data + 20)")
    case True
    then obtain seg where s: "mz_compress_lz77 al (Some data) lv = mz_ok (lz_header (length data) @ seg)"
      "length seg \<le> 2 * length data"
      using compress_lz77_shape [of data al lv] by blast
    define lz where "lz = lz_header (length data) @ seg"
    have len: "0 < length lz" "length lz \<le> 2 * length data + 6" using s(2) by (simp_all add: lz_def lz_header_def)
    obtain etype ecode where e: "entropy_code al lv lz = Some (etype, ecode)" "length ecode \<le> length lz"
      using entropy_code_total by blast
    have "0 < c_int (length lz)" "0 < c_int (1 + length ecode)"
      using len e(2) assms by (simp_all add: c_int_small)
    then show ?thesis using s(1) e by (simp add: mz_compress_meuos_def MZ_OK_def flip: lz_def)
  next
    case False
    then have "mz_compress_lz77 al (Some data) lv \<in> range mz_fail" by (auto simp: mz_compress_lz77_def)
    then show ?thesis by (auto simp: mz_compress_meuos_def MZ_OK_def less_le)
  qed
  then show ?thesis by (auto simp: mz_msys_compress_def mz_compress_def msys_deliver_def)
qed

theorem msys_compress_fails_witness:
  "mz_msys_compress (\<lambda>_. True) (Some [1, 2, 3]) 1000 6 = Some (-1, [])"
  by (rule msys_compress_fails) simp

end
