(* ===== verification/Gzip.thy ===== *)
theory Gzip
  imports Deflate_Stored Deflate_Safety Checksum Bytes
begin

text \<open>
  The gzip frame of RFC 1952, \<^verbatim>\<open>container/mz_gzip.c\<close>: a ten byte header, the DEFLATE body, the
  CRC-32 and the length. \<open>gzip_skip\<close> walks over the optional header fields; the four
  little-endian stores and loads of the C code are \<open>write_le32\<close> and \<open>read_le32\<close>.
\<close>

definition MZ_GZIP_MAGIC1 :: u8 where "MZ_GZIP_MAGIC1 = 0x1F"
definition MZ_GZIP_MAGIC2 :: u8 where "MZ_GZIP_MAGIC2 = 0x8B"
definition MZ_GZIP_CM_DEFLATE :: u8 where "MZ_GZIP_CM_DEFLATE = 8"
definition MZ_GZIP_FHCRC :: u8 where "MZ_GZIP_FHCRC = 0x02"
definition MZ_GZIP_FEXTRA :: u8 where "MZ_GZIP_FEXTRA = 0x04"
definition MZ_GZIP_FNAME :: u8 where "MZ_GZIP_FNAME = 0x08"
definition MZ_GZIP_FCOMMENT :: u8 where "MZ_GZIP_FCOMMENT = 0x10"

definition gzip_header :: bytes where
  "gzip_header = [MZ_GZIP_MAGIC1, MZ_GZIP_MAGIC2, MZ_GZIP_CM_DEFLATE, 0, 0, 0, 0, 0, 0, 3]"

definition mz_gzip_compress :: "allocator \<Rightarrow> bytes option \<Rightarrow> mz_ret option" where
  "mz_gzip_compress al input =
     (case input of
        None \<Rightarrow> Some (mz_fail MZ_ERR_PARAM)
      | Some data \<Rightarrow>
          (case mz_deflate_compress al (Some data) of
             None \<Rightarrow> None
           | Some rc \<Rightarrow>
               if ret_code rc \<le> 0 then Some \<lparr>ret_code = ret_code rc, ret_out = None\<rparr>
               else
                 let body = the (ret_out rc) in
                 if \<not> al (10 + length body + 8) then Some (mz_fail MZ_ERR_MEMORY)
                 else Some (mz_ok (gzip_header @ body @ write_le32 (mz_crc32 data) @
                                   write_le32 (word_of_nat (length data))))))"

text \<open>The optional fields; None is \<^verbatim>\<open>MZ_ERR_DATA\<close>.\<close>

definition gzip_extra :: "bytes \<Rightarrow> nat \<Rightarrow> nat option" where
  "gzip_extra data pos =
     (if pos + 2 > length data then None
      else
        let xlen = unat (data ! pos) OR push_bit 8 (unat (data ! (pos + 1)));
            pos = pos + (2 + xlen)
        in if pos > length data then None else Some pos)"

function gzip_scan :: "bytes \<Rightarrow> nat \<Rightarrow> nat" where
  "gzip_scan data pos = (if pos < length data \<and> data ! pos \<noteq> 0 then gzip_scan data (pos + 1) else pos)"
  by pat_completeness auto
termination by (relation "measure (\<lambda>(data, pos). length data - pos)") auto

declare gzip_scan.simps [simp del]

definition gzip_string :: "bytes \<Rightarrow> nat \<Rightarrow> nat option" where
  "gzip_string data pos =
     (let pos = gzip_scan data pos + 1 in if pos > length data then None else Some pos)"

definition gzip_hcrc :: "bytes \<Rightarrow> nat \<Rightarrow> nat option" where
  "gzip_hcrc data pos = (if pos + 2 > length data then None else Some (pos + 2))"

definition gzip_field :: "bool \<Rightarrow> (nat \<Rightarrow> nat option) \<Rightarrow> nat option \<Rightarrow> nat option" where
  "gzip_field present skip pos =
     (case pos of None \<Rightarrow> None | Some pos \<Rightarrow> if present then skip pos else Some pos)"

definition gzip_skip :: "bytes \<Rightarrow> u8 \<Rightarrow> nat option" where
  "gzip_skip data flg =
     gzip_field (flg AND MZ_GZIP_FHCRC \<noteq> 0) (gzip_hcrc data)
       (gzip_field (flg AND MZ_GZIP_FCOMMENT \<noteq> 0) (gzip_string data)
         (gzip_field (flg AND MZ_GZIP_FNAME \<noteq> 0) (gzip_string data)
           (gzip_field (flg AND MZ_GZIP_FEXTRA \<noteq> 0) (gzip_extra data) (Some 10))))"

definition mz_gzip_decompress :: "nat list \<Rightarrow> allocator \<Rightarrow> bytes option \<Rightarrow> mz_ret option" where
  "mz_gzip_decompress sy al input =
     (case input of
        None \<Rightarrow> Some (mz_fail MZ_ERR_PARAM)
      | Some data \<Rightarrow>
          if length data < 18 then Some (mz_fail MZ_ERR_DATA)
          else if data ! 0 \<noteq> MZ_GZIP_MAGIC1 \<or> data ! 1 \<noteq> MZ_GZIP_MAGIC2 then Some (mz_fail MZ_ERR_DATA)
          else if data ! 2 \<noteq> MZ_GZIP_CM_DEFLATE then Some (mz_fail MZ_ERR_DATA)
          else case gzip_skip data (data ! 3) of
            None \<Rightarrow> Some (mz_fail MZ_ERR_DATA)
          | Some pos \<Rightarrow>
              if length data < pos + 8 then Some (mz_fail MZ_ERR_DATA)
              else
                let deflate_end = length data - 8;
                    expected_crc = read_le32 (drop deflate_end data);
                    expected_size = read_le32 (drop (deflate_end + 4) data)
                in case mz_deflate_decompress sy al (Some (take (deflate_end - pos) (drop pos data))) of
                     None \<Rightarrow> None
                   | Some rc \<Rightarrow>
                       if ret_code rc \<le> 0 then Some \<lparr>ret_code = ret_code rc, ret_out = None\<rparr>
                       else
                         let raw_out = the (ret_out rc) in
                         if mz_crc32 raw_out \<noteq> expected_crc then Some (mz_fail MZ_ERR_DATA)
                         else if (word_of_nat (length raw_out) :: u32) \<noteq> expected_size
                              then Some (mz_fail MZ_ERR_DATA)
                              else Some (mz_ok raw_out))"

section \<open>Properties\<close>

lemma gzip_skip_none: "gzip_skip data 0 = Some 10"
  by (simp add: gzip_skip_def gzip_field_def)

lemma deflate_out_ne: "deflate_out data \<noteq> []"
  using deflate_blocks_step [of data] by (auto simp: deflate_out_def)

lemma gzip_accepts:
  assumes "data \<noteq> []" "length (deflate_out data) < 2 ^ 31"
    and "al (deflate_max_out (length data))" "al (length (deflate_out data) * 4 + 1024)"
    and "al (10 + length (deflate_out data) + 8)"
  shows "\<exists>out. mz_gzip_compress al (Some data) = Some (mz_ok out) \<and>
    mz_gzip_decompress sy al (Some out) = Some (mz_ok data)"
proof -
  have fits: "deflate_fits al data" using assms by (simp add: deflate_fits_def)
  define body where "body = deflate_out data"
  have le: "length data \<le> length body" using assms(1) by (simp add: body_def deflate_out_def length_deflate_blocks)
  have pos: "0 < c_int (length body)" "0 < c_int (length data)"
    using assms(1,2) le deflate_out_ne [of data] by (simp_all add: c_int_small body_def)
  define out where "out = gzip_header @ body @ write_le32 (mz_crc32 data) @ write_le32 (word_of_nat (length data))"
  have comp: "mz_gzip_compress al (Some data) = Some (mz_ok out)"
    using deflate_compress_out [OF fits] pos assms by (simp add: mz_gzip_compress_def out_def body_def)
  have h: "out ! 0 = MZ_GZIP_MAGIC1" "out ! 1 = MZ_GZIP_MAGIC2" "out ! 2 = MZ_GZIP_CM_DEFLATE" "out ! 3 = 0"
    by (simp_all add: out_def gzip_header_def)
  have len: "length out = 18 + length body" by (simp add: out_def gzip_header_def)
  have "drop 10 out = body @ write_le32 (mz_crc32 data) @ write_le32 (word_of_nat (length data))"
    by (simp add: out_def gzip_header_def)
  moreover have "drop (length body + (10 + k)) out = drop (length body + k) (drop 10 out)" for k
    by (simp add: ac_simps)
  from this [of 0] this [of 4] have "drop (length body + 10) out = drop (length body) (drop 10 out)"
    "drop (length body + 14) out = drop (length body + 4) (drop 10 out)"
    by simp_all
  ultimately have parts: "take (length body) (drop 10 out) = body"
    "drop (length body + 10) out = write_le32 (mz_crc32 data) @ write_le32 (word_of_nat (length data))"
    "drop (length body + 14) out = write_le32 (word_of_nat (length data))"
    by simp_all
  have "mz_gzip_decompress sy al (Some out) = Some (mz_ok data)"
    using parts inflate_deflate [OF fits, of sy, folded body_def] pos
    by (simp add: mz_gzip_decompress_def len h h [simplified] gzip_skip_none Let_def read_le32_append read_write_le32 add.commute)
  with comp show ?thesis by blast
qed

text \<open>
  C35. Gzip round trip. For a non-empty input whose stored form is below 2 GiB, with memory for
  the buffers, \<^verbatim>\<open>mz_gzip_compress\<close> succeeds and \<^verbatim>\<open>mz_gzip_decompress\<close> accepts the frame, checks it
  and gives the input back.
\<close>

theorem gzip_roundtrip:
  assumes "data \<noteq> []" "length (deflate_out data) < 2 ^ 31"
    and "al (deflate_max_out (length data))" "al (length (deflate_out data) * 4 + 1024)"
    and "al (10 + length (deflate_out data) + 8)"
  shows "\<exists>out. mz_gzip_compress al (Some data) = Some (mz_ok out) \<and>
    mz_gzip_decompress sy al (Some out) = Some (mz_ok data)"
  by (rule gzip_accepts [OF assms])

theorem gzip_roundtrip_witness:
  "\<exists>out. mz_gzip_compress (\<lambda>n. n < 2000) (Some [1, 2, 3]) = Some (mz_ok out) \<and>
    mz_gzip_decompress [] (\<lambda>n. n < 2000) (Some out) = Some (mz_ok [1, 2, 3])"
proof -
  have "length (deflate_out [1, 2, 3]) = 8" by (simp add: deflate_out_def length_deflate_blocks)
  then show ?thesis
    by (intro gzip_roundtrip) (simp_all add: deflate_max_out_def)
qed

text \<open>
  Gzip integrity. Whatever the input, the output that \<^verbatim>\<open>mz_gzip_decompress\<close> delivers has the
  CRC-32 and, modulo \<open>2^32\<close>, the length that the last eight bytes of the input state.
\<close>

theorem gzip_integrity:
  assumes "mz_gzip_decompress sy al (Some data) = Some r" "ret_out r = Some out"
  shows "mz_crc32 out = read_le32 (drop (length data - 8) data) \<and>
    word_of_nat (length out) = read_le32 (drop (length data - 4) data) \<and> ret_code r = c_int (length out)"
proof -
  have "length data \<ge> 18" using assms by (auto simp: mz_gzip_decompress_def split: if_splits)
  then have "length data - 8 + 4 = length data - 4" by simp
  then show ?thesis
    using assms by (auto simp: mz_gzip_decompress_def Let_def split: if_splits option.splits)
qed

theorem gzip_integrity_witness:
  "\<exists>data r. mz_gzip_decompress [] (\<lambda>n. n < 2000) (Some data) = Some r \<and> ret_out r = Some [1, 2, 3] \<and>
    mz_crc32 [1, 2, 3] = read_le32 (drop (length data - 8) data)"
proof -
  have fits: "length (deflate_out [1, 2, 3]) = 8" by (simp add: deflate_out_def length_deflate_blocks)
  then obtain out where "mz_gzip_decompress [] (\<lambda>n. n < 2000) (Some out) = Some (mz_ok [1, 2, 3])"
    using gzip_accepts [of "[1, 2, 3]" "\<lambda>n. n < 2000" "[]"] by (auto simp: deflate_max_out_def)
  then show ?thesis
    using gzip_integrity [of "[]" "\<lambda>n. n < 2000" out "mz_ok [1, 2, 3]" "[1, 2, 3]"]
    by (intro exI [of _ out] exI [of _ "mz_ok [1, 2, 3]"]) simp
qed

text \<open>A gzip file of an empty payload, as other tools write it: one fixed block.\<close>

definition gzip_empty_file :: bytes where
  "gzip_empty_file = [0x1F, 0x8B, 8, 0, 0, 0, 0, 0, 0, 3, 3, 0, 0, 0, 0, 0, 0, 0, 0, 0]"

lemma fixed_end_of_block:
  assumes b: "huff_build sy fixed_lit_lengths = Some (l, ht)" and sy: "288 \<le> length sy"
  shows "ht_symbols ht ! 0 = 256" and "ht_counts ht = [0,0,0,0,0,0,0,24,152,112,0,0,0,0,0,0]"
proof -
  show counts: "ht_counts ht = [0,0,0,0,0,0,0,24,152,112,0,0,0,0,0,0]"
    using b fixed_lit_counts
    by (auto simp: huff_build_def Let_def MZ_MAX_HUFF_BITS_def simp del: upt_rec_numeral split: option.splits)
  have len: "length fixed_lit_lengths = 288" by (simp add: fixed_lit_lengths_def)
  then have t: "table_holds ht (len_count fixed_lit_lengths) (huff_order fixed_lit_lengths)"
    using huff_build_holds [OF b] sy by simp
  have "len_count fixed_lit_lengths 7 = ht_counts ht ! 7" using t by (simp add: table_holds_def)
  then have c7: "count_list fixed_lit_lengths 7 = 24" by (simp add: counts len_count_def)
  have low: "level_off (len_count fixed_lit_lengths) 7 = 0"
  proof -
    have "len_count fixed_lit_lengths m = 0" if "0 < m" "m < 7" for m
    proof -
      have "len_count fixed_lit_lengths m = ht_counts ht ! m" using t that by (simp add: table_holds_def)
      then show ?thesis using that by (auto simp: counts nth_Cons')
    qed
    then show ?thesis by (auto simp: level_off_def)
  qed
  have "filter (\<lambda>s. fixed_lit_lengths ! s = 7) [0..<288] = [256..<280]"
  proof -
    have "[0..<288] = [0..<256] @ [256..<280] @ [280..<288]"
      using upt_add_eq_append [of 0 256 32] upt_add_eq_append [of 256 280 8] by (simp del: upt_rec_numeral)
    moreover have "filter (\<lambda>s. fixed_lit_lengths ! s = 7) [0..<256] = []"
      "filter (\<lambda>s. fixed_lit_lengths ! s = 7) [280..<288] = []"
      "filter (\<lambda>s. fixed_lit_lengths ! s = 7) [256..<280] = [256..<280]"
      by (auto simp: fixed_lit_lengths_def filter_empty_conv filter_id_conv simp del: upt_rec_numeral)
    ultimately show ?thesis by (simp del: upt_rec_numeral)
  qed
  then have "order_upto fixed_lit_lengths 16 ! 0 = 256"
    using nth_order_upto [of 7 16 0 fixed_lit_lengths] c7 low len by (simp del: upt_rec_numeral)
  moreover have "0 < length (huff_order fixed_lit_lengths)"
  proof -
    have "count_list fixed_lit_lengths 7 \<le> level_off (len_count fixed_lit_lengths) 16"
      using level_off_mono [of 8 16 "len_count fixed_lit_lengths"] level_off_Suc [of 7 "len_count fixed_lit_lengths"] low
      by (simp add: len_count_def)
    then show ?thesis using c7 by (simp add: huff_order_upto length_order_upto)
  qed
  ultimately show "ht_symbols ht ! 0 = 256" using t unfolding table_holds_def huff_order_upto by metis
qed

lemma gzip_empty_inflate:
  "mz_deflate_decompress (replicate 288 0) (\<lambda>_. True) (Some [3, 0]) = Some (mz_ok [])"
proof -
  define sy :: "nat list" where "sy = replicate 288 0"
  obtain l1 lit_ht l2 dist_ht where fixed: "huff_build sy fixed_lit_lengths = Some (l1, lit_ht)"
    "huff_build sy fixed_dist_lengths = Some (l2, dist_ht)"
    using fixed_tables_build by blast
  have eob: "ht_symbols lit_ht ! 0 = 256" "ht_counts lit_ht = [0,0,0,0,0,0,0,24,152,112,0,0,0,0,0,0]"
    by (rule fixed_end_of_block [OF fixed(1)], simp add: sy_def)+
  let ?br = "\<lambda>k n. \<lparr>dr_data = [3, 0 :: u8], dr_byte_pos = k, dr_bit_pos = n\<rparr>"
  have "huff_decode (?br 0 3) \<lparr>ht_counts = [0,0,0,0,0,0,0,24,152,112,0,0,0,0,0,0], ht_symbols = ss\<rparr> = (int (ss ! 0), ?br 1 2)" for ss
    by code_simp
  from this [of "ht_symbols lit_ht"] have dec: "huff_decode (?br 0 3) lit_ht = (256, ?br 1 2)"
    using eob by (metis mz_huff_table.surjective old.unit.exhaust of_nat_numeral)
  have bits: "dbr_bit (?br 0 0) = (1, ?br 0 (Suc 0))" "dbr_bits (?br 0 (Suc 0)) 2 = (1, ?br 0 3)" by code_simp+
  have "inflate_loop sy al \<lparr>is_br = ?br 0 0, is_out = [], is_cap = cap\<rparr> = Done []" for al cap
    by (simp add: inflate_loop.simps [of sy] inflate_block_def bits fixed inf_symbols.simps [of al] dec Let_def)
  then show ?thesis by (simp add: mz_deflate_decompress_def dbr_init_def flip: sy_def)
qed

text \<open>
  Empty gzip payloads. On a valid frame with an empty payload \<^verbatim>\<open>mz_gzip_decompress\<close> returns
  \<^verbatim>\<open>MZ_OK\<close> before it has looked at the checksum and leaves the caller's result pointer unset.
\<close>

theorem gzip_empty_unset:
  "mz_gzip_decompress (replicate 288 0) (\<lambda>_. True) (Some gzip_empty_file) = Some \<lparr>ret_code = MZ_OK, ret_out = None\<rparr>"
  by (simp add: mz_gzip_decompress_def gzip_empty_file_def gzip_skip_none Let_def gzip_empty_inflate
      MZ_GZIP_MAGIC1_def MZ_GZIP_MAGIC2_def MZ_GZIP_CM_DEFLATE_def c_int_small MZ_OK_def)

end
