(* ===== verification/Solid.thy ===== *)
theory Solid
  imports Lz77
begin

text \<open>
  Solid compression, \<^verbatim>\<open>codec/mz_solid.c\<close>: a copy of the LZ77 matcher whose state lives in a
  context, and a token writer of its own. The functions that have the name of one of
  \<^verbatim>\<open>codec/mz_lz77.c\<close> carry the prefix \<open>solid\<close>. Positions in \<^verbatim>\<open>head\<close> and \<^verbatim>\<open>chain\<close> are 16-bit.
  The format written is not the one that \<^verbatim>\<open>mz_decompress_lz77\<close> reads (\<open>solid_add_single\<close>, \<open>lz_decode_single\<close>).
\<close>

definition SOLID_WMASK :: nat where "SOLID_WMASK = 65535"
definition SOLID_HMASK :: nat where "SOLID_HMASK = 65535"
definition SOLID_MIN_MATCH :: nat where "SOLID_MIN_MATCH = 3"
definition SOLID_MAX_MATCH :: nat where "SOLID_MAX_MATCH = 130"
definition SOLID_MAX_OFFSET :: nat where "SOLID_MAX_OFFSET = 65535"

lemmas solid_params [simp] = SOLID_WMASK_def SOLID_HMASK_def SOLID_MIN_MATCH_def SOLID_MAX_MATCH_def
  SOLID_MAX_OFFSET_def

record mz_solid_ctx =
  so_win :: "nat \<Rightarrow> u8"
  so_win_pos :: nat
  so_chain :: "nat \<Rightarrow> u16"
  so_head :: "nat \<Rightarrow> u16"
  so_level :: int
  so_active :: bool

definition SOLID_HASH3 :: "bytes \<Rightarrow> nat \<Rightarrow> nat" where
  "SOLID_HASH3 data p =
     ((unat (data ! p) * 517) XOR (unat (data ! (p + 1)) * 131) XOR unat (data ! (p + 2))) AND SOLID_HMASK"

definition solid_chain_depth :: "int \<Rightarrow> nat" where
  "solid_chain_depth level =
     (if level \<le> 1 then 64 else if level \<ge> 9 then 4096 else nat (level * 128))"

definition solid_insert :: "mz_solid_ctx \<Rightarrow> nat \<Rightarrow> bytes \<Rightarrow> nat \<Rightarrow> mz_solid_ctx" where
  "solid_insert ctx pos data limit =
     (if pos + 2 \<ge> limit then ctx
      else
        let h3 = SOLID_HASH3 data pos; idx = pos AND SOLID_WMASK
        in ctx\<lparr>so_chain := (so_chain ctx)(idx := so_head ctx h3),
               so_head := (so_head ctx)(h3 := word_of_nat pos)\<rparr>)"

definition key2 :: "bytes \<Rightarrow> nat \<Rightarrow> u16" where
  "key2 data p = ucast (data ! p) OR push_bit 8 (ucast (data ! (p + 1)))"

text \<open>The chain walk; the inner \<^verbatim>\<open>while\<close> is that of \<^verbatim>\<open>mz_find\<close>, \<open>match_len\<close>.\<close>

fun solid_find_loop :: "nat \<Rightarrow> mz_solid_ctx \<Rightarrow> nat \<Rightarrow> bytes \<Rightarrow> nat \<Rightarrow> u16 \<Rightarrow> nat \<Rightarrow> nat \<Rightarrow> nat \<times> nat" where
  "solid_find_loop 0 ctx pos data limit idx best_len best_off = (best_len, best_off)"
| "solid_find_loop (Suc c) ctx pos data limit idx best_len best_off =
     (if idx \<noteq> 0xFFFF \<and> pos > unat idx \<and> pos - unat idx \<le> SOLID_MAX_OFFSET then
        let next_idx = so_chain ctx (unat idx AND SOLID_WMASK) in
        if key2 data (unat idx) = key2 data pos then
          let ml = (if c_int (limit - pos) > int SOLID_MAX_MATCH then int SOLID_MAX_MATCH else c_int (limit - pos));
              len = match_len data (unat idx) pos ml SOLID_MIN_MATCH
          in if len > best_len then
               (if int len \<ge> ml then (len, pos - unat idx)
                else solid_find_loop c ctx pos data limit next_idx len (pos - unat idx))
             else solid_find_loop c ctx pos data limit next_idx best_len best_off
        else solid_find_loop c ctx pos data limit next_idx best_len best_off
      else (best_len, best_off))"

definition find_match :: "mz_solid_ctx \<Rightarrow> nat \<Rightarrow> bytes \<Rightarrow> nat \<Rightarrow> (nat \<times> nat) option" where
  "find_match ctx pos data limit =
     (if pos + 2 \<ge> limit then None
      else
        let (best_len, best_off) =
              solid_find_loop (solid_chain_depth (so_level ctx)) ctx pos data limit
                (so_head ctx (SOLID_HASH3 data pos)) 0 0
        in if best_len \<ge> SOLID_MIN_MATCH then Some (best_len, best_off) else None)"

fun solid_slide :: "nat \<Rightarrow> mz_solid_ctx \<Rightarrow> bytes \<Rightarrow> nat \<Rightarrow> nat \<Rightarrow> mz_solid_ctx \<times> nat" where
  "solid_slide 0 ctx data ip inlen = (ctx, ip)"
| "solid_slide (Suc count) ctx data ip inlen =
     (if ip < inlen then
        let ctx = ctx\<lparr>so_win := (so_win ctx)(so_win_pos ctx := data ! ip),
                      so_win_pos := (so_win_pos ctx + 1) AND SOLID_WMASK\<rparr>
        in solid_slide count (solid_insert ctx ip data inlen) data (ip + 1) inlen
      else (ctx, ip))"

declare solid_slide.simps [simp del]

definition SOLID_CTX_SIZE :: nat where "SOLID_CTX_SIZE = 65536 + 8 + 2 * 65536 + 2 * 65536 + 4 + 4"

definition mz_solid_start :: "allocator \<Rightarrow> int \<Rightarrow> mz_err + mz_solid_ctx" where
  "mz_solid_start al level =
     (if \<not> al SOLID_CTX_SIZE then Inl MZ_ERR_MEMORY
      else Inr \<lparr>so_win = (\<lambda>_. 0), so_win_pos = 0, so_chain = (\<lambda>_. 0), so_head = (\<lambda>_. 0xFFFF),
                so_level = (if level < 1 then 1 else if level > 9 then 9 else level), so_active = True\<rparr>)"

section \<open>Adding a file\<close>

definition solid_header :: "nat \<Rightarrow> bytes" where
  "solid_header len =
     [0x6D, 0x5A, word_of_nat (len AND 0xFF), word_of_nat (drop_bit 8 len AND 0xFF),
      word_of_nat (drop_bit 16 len AND 0xFF), word_of_nat (drop_bit 24 len AND 0xFF)]"

definition solid_match_token :: "nat \<Rightarrow> nat \<Rightarrow> bytes" where
  "solid_match_token match_off mlen =
     [word_of_nat (0x80 OR (drop_bit 9 match_off AND 0x7F)), word_of_nat (drop_bit 1 match_off AND 0xFF),
      word_of_nat (push_bit 7 (match_off AND 1) OR ((mlen - SOLID_MIN_MATCH) AND 0x7F))]"

definition solid_literal_token :: "u8 \<Rightarrow> bytes" where
  "solid_literal_token b = (if b \<ge> 0x80 then [0x81, b] else [b])"

text \<open>The lazy lookahead: the current position is inserted, the flag says whether to defer.\<close>

definition solid_lookahead :: "bool \<Rightarrow> mz_solid_ctx \<Rightarrow> bytes \<Rightarrow> nat \<Rightarrow> nat \<Rightarrow> mz_solid_ctx \<times> bool" where
  "solid_lookahead use_lazy ctx data ip mlen =
     (if use_lazy \<and> ip + 1 < length data \<and> ip + 2 < length data then
        let h3 = SOLID_HASH3 data ip; idx = ip AND SOLID_WMASK;
            ctx = ctx\<lparr>so_chain := (so_chain ctx)(idx := so_head ctx h3),
                      so_head := (so_head ctx)(h3 := word_of_nat ip)\<rparr>
        in (ctx, case find_match ctx (ip + 1) data (length data) of
                   Some (next_len, next_off) \<Rightarrow> next_len > mlen + 1
                 | None \<Rightarrow> False)
      else (ctx, False))"

definition solid_step :: "bool \<Rightarrow> mz_solid_ctx \<Rightarrow> bytes \<Rightarrow> nat \<Rightarrow> (mz_solid_ctx \<times> nat) \<times> bytes" where
  "solid_step use_lazy ctx data ip =
     (let literal = (\<lambda>ctx. (solid_slide 1 ctx data ip (length data), solid_literal_token (data ! ip))) in
      case find_match ctx ip data (length data) of
        None \<Rightarrow> literal ctx
      | Some (mlen, moff) \<Rightarrow>
          if moff \<ge> 0x200 \<and> moff \<le> 0x3FF then literal ctx
          else case solid_lookahead use_lazy ctx data ip mlen of
            (ctx, defer_it) \<Rightarrow>
              if defer_it then literal ctx
              else
                let mlen = (if mlen > SOLID_MAX_MATCH then SOLID_MAX_MATCH else mlen)
                in (solid_slide mlen ctx data ip (length data), solid_match_token moff mlen))"

lemma solid_slide_ip: "snd (solid_slide n ctx data ip inlen) = (if ip < inlen then min (ip + n) inlen else ip)"
  by (induction n arbitrary: ctx ip) (auto simp: solid_slide.simps Let_def)

text \<open>A match found stays within the input: its length is bounded by \<^verbatim>\<open>ml\<close>, which is at least 3.\<close>

lemma match_len_upto: "int len \<le> ml \<Longrightarrow> int (match_len data idx pos ml len) \<le> ml"
  by (induction data idx pos ml len rule: match_len.induct) (subst match_len.simps, auto)

lemma solid_find_loop_bound:
  assumes "pos + 3 \<le> limit" "limit < 2 ^ 31"
  shows "solid_find_loop c ctx pos data limit idx bl bo = (l, off) \<Longrightarrow> pos + bl \<le> limit \<Longrightarrow> pos + l \<le> limit"
proof (induction c arbitrary: idx bl bo)
  case (Suc c)
  define ml where "ml = (if c_int (limit - pos) > int SOLID_MAX_MATCH then int SOLID_MAX_MATCH else c_int (limit - pos))"
  define len where "len = match_len data (unat idx) pos ml SOLID_MIN_MATCH"
  have ml: "3 \<le> ml" "ml \<le> int (limit - pos)" using assms by (auto simp: ml_def c_int_small)
  have "int len \<le> ml" unfolding len_def by (rule match_len_upto) (use ml in simp)
  then have len: "pos + len \<le> limit" using ml assms by simp
  note step = Suc.prems(1) [unfolded solid_find_loop.simps Let_def, folded ml_def, folded len_def]
  show ?case
    using step Suc.prems(2) Suc.IH len by (auto split: if_splits)
qed simp

lemma find_match_bound:
  assumes "find_match ctx pos data limit = Some (l, off)" "limit < 2 ^ 31"
  shows "3 \<le> l" "pos + l \<le> limit"
  using assms solid_find_loop_bound [of pos limit]
  by (fastforce simp: find_match_def Let_def split: if_splits prod.splits)+

lemma find_match_min: "find_match ctx pos data limit = Some (l, off) \<Longrightarrow> 3 \<le> l"
  by (auto simp: find_match_def Let_def split: if_splits prod.splits)

text \<open>One step consumes input; what it writes is at most twice as long.\<close>

lemma solid_step_cases:
  assumes "solid_step use_lazy ctx data ip = ((ctx', ip'), tok)"
  obtains (lit) ctx1 where "solid_slide 1 ctx1 data ip (length data) = (ctx', ip')" "tok = solid_literal_token (data ! ip)"
  | (copy) ctx1 l off where "find_match ctx ip data (length data) = Some (l, off)" "3 \<le> min l 130"
      "solid_slide (min l 130) ctx1 data ip (length data) = (ctx', ip')" "tok = solid_match_token off (min l 130)"
proof (cases "find_match ctx ip data (length data)")
  case None
  then show ?thesis using assms lit by (auto simp: solid_step_def)
next
  case (Some p)
  obtain l off where p: "p = (l, off)" by fastforce
  obtain ctx1 d where la: "solid_lookahead use_lazy ctx data ip l = (ctx1, d)" by fastforce
  have "3 \<le> l" using Some p find_match_min by auto
  then show ?thesis
    using assms Some p la lit copy [of l off ctx1]
    by (auto simp: solid_step_def Let_def min_def split: if_splits)
qed

lemma solid_step_ip:
  assumes "ip < length data" "solid_step use_lazy ctx data ip = ((ctx', ip'), tok)"
  shows "ip < ip' \<and> ip' \<le> length data"
  using assms(2)
proof (cases rule: solid_step_cases)
  case (lit ctx1)
  then show ?thesis using solid_slide_ip [of 1 ctx1 data ip "length data"] assms(1) by auto
next
  case (copy ctx1 l off)
  then show ?thesis using solid_slide_ip [of "min l 130" ctx1 data ip "length data"] assms(1) by auto
qed

lemma solid_step_size:
  assumes "ip < length data" "length data < 2 ^ 31" "solid_step use_lazy ctx data ip = ((ctx', ip'), tok)"
  shows "length tok \<le> 2 * (ip' - ip)"
  using assms(3)
proof (cases rule: solid_step_cases)
  case (lit ctx1)
  then show ?thesis
    using solid_slide_ip [of 1 ctx1 data ip "length data"] assms(1) by (auto simp: solid_literal_token_def)
next
  case (copy ctx1 l off)
  have "ip + l \<le> length data" using find_match_bound(2) [OF copy(1) assms(2)] .
  then show ?thesis
    using solid_slide_ip [of "min l 130" ctx1 data ip "length data"] copy assms(1)
    by (auto simp: solid_match_token_def)
qed

function solid_loop :: "bool \<Rightarrow> mz_solid_ctx \<Rightarrow> bytes \<Rightarrow> nat \<Rightarrow> mz_solid_ctx \<times> bytes" where
  "solid_loop use_lazy ctx data ip =
     (if ip < length data then
        (case solid_step use_lazy ctx data ip of
           ((ctx, ip), tok) \<Rightarrow> (case solid_loop use_lazy ctx data ip of (ctx, out) \<Rightarrow> (ctx, tok @ out)))
      else (ctx, []))"
  by pat_completeness auto
termination
  by (relation "measure (\<lambda>(l, ctx, data, ip). length data - ip)") (auto dest: solid_step_ip [OF _ sym])

declare solid_loop.simps [simp del]

text \<open>The context and the data are not null; the output buffer is the caller's.\<close>

definition mz_solid_add :: "mz_solid_ctx \<Rightarrow> bytes \<Rightarrow> mz_err + mz_solid_ctx \<times> bytes" where
  "mz_solid_add ctx data =
     (if \<not> so_active ctx then Inl MZ_ERR_PARAM
      else
        let ctx = ctx\<lparr>so_chain := (\<lambda>_. 0), so_head := (\<lambda>_. 0xFFFF), so_win_pos := 0\<rparr>;
            (ctx, out) = solid_loop (so_level ctx \<ge> 4) ctx data 0
        in Inr (ctx, solid_header (length data) @ out @ [0x80, 0, 0]))"

definition mz_solid_finish :: "mz_solid_ctx \<Rightarrow> mz_solid_ctx" where
  "mz_solid_finish ctx = ctx\<lparr>so_active := False\<rparr>"

section \<open>Properties\<close>

lemma solid_loop_size:
  "length data < 2 ^ 31 \<Longrightarrow> ip \<le> length data \<Longrightarrow>
    length (snd (solid_loop use_lazy ctx data ip)) \<le> 2 * (length data - ip)"
proof (induction use_lazy ctx data ip rule: solid_loop.induct)
  case (1 use_lazy ctx data ip)
  show ?case
  proof (cases "ip < length data")
    case True
    obtain ctx1 ip1 tok where s: "solid_step use_lazy ctx data ip = ((ctx1, ip1), tok)" by (metis prod.collapse)
    obtain ctx2 out where r: "solid_loop use_lazy ctx1 data ip1 = (ctx2, out)" by fastforce
    have "length out \<le> 2 * (length data - ip1)"
      using "1.IH" [OF True s [symmetric] refl] "1.prems" solid_step_ip [OF True s] r by auto
    moreover have "length tok \<le> 2 * (ip1 - ip)" by (rule solid_step_size [OF True "1.prems"(1) s])
    ultimately have "length (tok @ out) \<le> 2 * (length data - ip)"
      using solid_step_ip [OF True s] by (simp only: length_append) linarith
    then show ?thesis
      using True s r by (subst solid_loop.simps) simp
  qed (simp add: solid_loop.simps)
qed

lemma solid_add_single:
  assumes "mz_solid_start al level = Inr ctx"
  shows "\<exists>ctx'. mz_solid_add ctx [0x80] = Inr (ctx', [0x6D, 0x5A, 1, 0, 0, 0, 0x81, 0x80, 0x80, 0, 0])"
proof -
  define ctx0 where "ctx0 = ctx\<lparr>so_chain := (\<lambda>_. 0), so_head := (\<lambda>_. 0xFFFF), so_win_pos := 0\<rparr>"
  define lz where "lz = (so_level ctx0 \<ge> 4)"
  have act: "so_active ctx" using assms by (auto simp: mz_solid_start_def split: if_splits)
  obtain c where c: "solid_step lz ctx0 [0x80] 0 = ((c, 1), [0x81, 0x80])"
    by (simp add: solid_step_def find_match_def solid_slide.simps solid_literal_token_def numeral_2_eq_2)
  have "solid_loop lz c [0x80] 1 = (c, [])"
    by (simp add: solid_loop.simps)
  then have "solid_loop lz ctx0 [0x80] 0 = (c, [0x81, 0x80])"
    using c by (simp add: solid_loop.simps [of _ _ "[0x80]" 0])
  then show ?thesis
    using act by (simp add: mz_solid_add_def Let_def solid_header_def flip: ctx0_def lz_def)
qed

lemma lz_decode_single:
  "al 1 \<Longrightarrow> mz_decompress_lz77 al (Some [0x6D, 0x5A, 1, 0, 0, 0, 0x81, 0x80, 0x80, 0, 0]) = mz_ok [0]"
proof -
  have off: "match_offset True 0x81 0x80 0x80 = 0x8180" by (simp add: match_offset_def)
  have len: "match_length True 0x80 = Suc (Suc (Suc 0))" by (simp add: match_length_def numeral_3_eq_3)
  have sz: "unat (read_le32 [1, 0, 0, 0, 0x81, 0x80, 0x80, 0, 0]) = 1" by (simp add: read_le32_def numeral_2_eq_2 numeral_3_eq_3)
  have "lz_dec_loop True 1 [0x81, 0x80, 0x80, 0, 0] lz_dec_init = Inr [0]"
    using off len by (simp add: Let_def) (simp add: lz_dec_init_def lz_put_def lz_back_def)
  moreover assume "al 1"
  ultimately show ?thesis
    using sz by (simp add: mz_decompress_lz77_def eval_nat_numeral)
qed

text \<open>
  The solid stream fits its buffer. \<^verbatim>\<open>mz_solid_add\<close> writes at most twice the input and nine
  bytes, so the \<^verbatim>\<open>size + size + 20\<close> bytes that \<^verbatim>\<open>mz2_add_file\<close> allocates for it are enough.
\<close>

theorem solid_output_fits:
  assumes "mz_solid_add ctx data = Inr (ctx', out)" "length data < 2 ^ 31"
  shows "length out \<le> 2 * length data + 9 \<and> 9 \<le> length out"
proof -
  define ctx1 where "ctx1 = ctx\<lparr>so_chain := (\<lambda>_. 0), so_head := (\<lambda>_. 0xFFFF), so_win_pos := 0\<rparr>"
  obtain ctx2 toks where l: "solid_loop (so_level ctx1 \<ge> 4) ctx1 data 0 = (ctx2, toks)" by fastforce
  then have "out = solid_header (length data) @ toks @ [0x80, 0, 0]"
    using assms(1) by (auto simp: mz_solid_add_def Let_def simp flip: ctx1_def split: if_splits)
  moreover have "length toks \<le> 2 * length data"
    using solid_loop_size [OF assms(2), of 0 "so_level ctx1 \<ge> 4" ctx1] l by simp
  ultimately show ?thesis by (simp add: solid_header_def)
qed

theorem solid_output_fits_witness:
  "\<exists>ctx ctx' out. mz_solid_start (\<lambda>_. True) 5 = Inr ctx \<and> mz_solid_add ctx [0x80] = Inr (ctx', out) \<and> length out \<le> 11"
proof -
  obtain ctx where c: "mz_solid_start (\<lambda>_. True) 5 = Inr ctx" by (simp add: mz_solid_start_def)
  obtain ctx' out where "mz_solid_add ctx [0x80] = Inr (ctx', out)" using solid_add_single [OF c] by blast
  then show ?thesis using c solid_output_fits [of ctx "[0x80]" ctx' out] by auto
qed

end
