(* ===== verification/Core.thy ===== *)
theory Core
  imports Solid Bytes
begin

text \<open>
  The MZ2 container, \<^verbatim>\<open>container/mz_core.c\<close>. A write context owns a growing buffer that starts
  with the 12-byte header and takes one block per file; \<^verbatim>\<open>mz2_finish\<close> appends the file table as a
  last raw block. The reader walks the chain of blocks to find the table and parses it. An
  operation that can fail half way returns the context as it leaves it beside its error. The
  contexts are not null; a name is the list of its characters before the terminating zero.
\<close>

section \<open>The state\<close>

definition MZ2_MAGIC :: bytes where "MZ2_MAGIC = [0x4D, 0x5A, 0x76, 0x32]"
definition MZ2_VERSION :: u8 where "MZ2_VERSION = 2"
definition MZ2_HEADER_LEN :: nat where "MZ2_HEADER_LEN = 12"
definition MZ2_BLOCK_HDR_LEN :: nat where "MZ2_BLOCK_HDR_LEN = 4"
definition MZ_BLOCK_RAW :: u8 where "MZ_BLOCK_RAW = 0"
definition MZ_BLOCK_SOLID_START :: u8 where "MZ_BLOCK_SOLID_START = 2"
definition MZ_BLOCK_SOLID_NEXT :: u8 where "MZ_BLOCK_SOLID_NEXT = 3"
definition MZ_BLOCK_SIGNED :: u8 where "MZ_BLOCK_SIGNED = 5"
definition MZ_FLAG_SOLID :: u32 where "MZ_FLAG_SOLID = 1"
definition MZ_FLAG_ENCRYPT :: u32 where "MZ_FLAG_ENCRYPT = 2"
definition MZ_FLAG_SIGNED :: u32 where "MZ_FLAG_SIGNED = 4"

lemmas mz2_consts = MZ2_MAGIC_def MZ2_VERSION_def MZ2_HEADER_LEN_def MZ2_BLOCK_HDR_LEN_def MZ_BLOCK_RAW_def
  MZ_BLOCK_SOLID_START_def MZ_BLOCK_SOLID_NEXT_def MZ_BLOCK_SIGNED_def
lemmas mz2_flags = MZ_FLAG_SOLID_def MZ_FLAG_ENCRYPT_def MZ_FLAG_SIGNED_def

record mz_params =
  pr_level :: int
  pr_flags :: u32

record mz_file_entry =
  fe_name :: bytes
  fe_name_len :: u16
  fe_uid :: u32
  fe_gid :: u32
  fe_mode :: u16
  fe_size :: u32
  fe_offset :: u32
  fe_csize :: u32

record mz_write_ctx =
  w_buf :: bytes
  w_buf_cap :: nat
  w_files :: "mz_file_entry list"
  w_max_files :: nat
  w_level :: int
  w_flags :: u32
  w_solid :: "mz_solid_ctx option"

record mz_read_ctx =
  r_data :: bytes
  r_level :: u8
  r_flags :: u16
  r_files :: "mz_file_entry list"

text \<open>Sizes of the structures on an LP64 machine, for the allocator.\<close>

definition WRITE_CTX_SIZE :: nat where "WRITE_CTX_SIZE = 56"
definition READ_CTX_SIZE :: nat where "READ_CTX_SIZE = 40"
definition FILE_ENTRY_SIZE :: nat where "FILE_ENTRY_SIZE = 40"

section \<open>Writing\<close>

function grow_cap :: "nat \<Rightarrow> nat \<Rightarrow> nat" where
  "grow_cap new_cap need = (if 0 < new_cap \<and> new_cap < need then grow_cap (new_cap * 2) need else new_cap)"
  by pat_completeness auto
termination
  by (relation "measure (\<lambda>(c, n). n - c)") auto

declare grow_cap.simps [simp del]

text \<open>
  The capacity is never 0 in the loop, since \<^verbatim>\<open>buf_grow\<close> starts it at 4096 or at twice a positive
  capacity; \<^verbatim>\<open>size_t\<close> is a natural number here, so sizes stay below \<open>2 ^ 63\<close> in the code.
\<close>

definition buf_grow :: "allocator \<Rightarrow> nat \<Rightarrow> nat \<Rightarrow> mz_err + nat" where
  "buf_grow al cap need =
     (if need \<le> cap then Inr cap
      else
        let new_cap = grow_cap (if cap \<noteq> 0 then cap * 2 else 4096) need
        in if al new_cap then Inr new_cap else Inl MZ_ERR_MEMORY)"

definition buf_append :: "allocator \<Rightarrow> mz_write_ctx \<Rightarrow> bytes \<Rightarrow> mz_err option \<times> mz_write_ctx" where
  "buf_append al ctx data =
     (case buf_grow al (w_buf_cap ctx) (length (w_buf ctx) + length data) of
        Inl e \<Rightarrow> (Some e, ctx)
      | Inr cap \<Rightarrow> (None, ctx\<lparr>w_buf := w_buf ctx @ data, w_buf_cap := cap\<rparr>))"

definition block_hdr :: "u8 \<Rightarrow> nat \<Rightarrow> bytes" where
  "block_hdr type sz = type # write_be24 (word_of_nat sz)"

definition append_block :: "allocator \<Rightarrow> mz_write_ctx \<Rightarrow> u8 \<Rightarrow> bytes \<Rightarrow> mz_err option \<times> mz_write_ctx" where
  "append_block al ctx type data =
     (case buf_append al ctx (block_hdr type (length data)) of
        (Some e, ctx) \<Rightarrow> (Some e, ctx)
      | (None, ctx) \<Rightarrow> buf_append al ctx data)"

definition mz2_header :: "int \<Rightarrow> u32 \<Rightarrow> bytes" where
  "mz2_header level flags =
     MZ2_MAGIC @ [MZ2_VERSION, word_of_int level] @ write_le16 (ucast flags) @ [0, 0, 0, 0]"

definition mz2_create :: "allocator \<Rightarrow> mz_params option \<Rightarrow> mz_err + mz_write_ctx" where
  "mz2_create al params =
     (case params of
        None \<Rightarrow> Inl MZ_ERR_PARAM
      | Some p \<Rightarrow>
          if pr_level p < 1 \<or> pr_level p > 9 then Inl MZ_ERR_PARAM
          else if pr_flags p AND NOT (MZ_FLAG_SOLID OR MZ_FLAG_ENCRYPT OR MZ_FLAG_SIGNED) \<noteq> 0
          then Inl MZ_ERR_PARAM
          else if \<not> al WRITE_CTX_SIZE then Inl MZ_ERR_MEMORY
          else if \<not> al 4096 then Inl MZ_ERR_MEMORY
          else Inr \<lparr>w_buf = mz2_header (pr_level p) (pr_flags p), w_buf_cap = 4096, w_files = [],
                    w_max_files = 0, w_level = pr_level p, w_flags = pr_flags p, w_solid = None\<rparr>)"

text \<open>The room for one more entry of the file table.\<close>

definition grow_files :: "allocator \<Rightarrow> mz_write_ctx \<Rightarrow> mz_err option \<times> mz_write_ctx" where
  "grow_files al w =
     (if length (w_files w) \<ge> w_max_files w then
        let new_max = (if w_max_files w \<noteq> 0 then w_max_files w * 2 else 16)
        in if al (new_max * FILE_ENTRY_SIZE) then (None, w\<lparr>w_max_files := new_max\<rparr>)
           else (Some MZ_ERR_MEMORY, w)
      else (None, w))"

text \<open>The solid branch; the third component is \<^verbatim>\<open>csize\<close>.\<close>

definition add_solid :: "allocator \<Rightarrow> mz_write_ctx \<Rightarrow> bytes \<Rightarrow> (mz_err option \<times> mz_write_ctx) \<times> u32" where
  "add_solid al w data =
     (if \<not> al (length data + length data + 20) then ((Some MZ_ERR_MEMORY, w), 0)
      else
        let is_first = (w_solid w = None);
            started = (case w_solid w of None \<Rightarrow> mz_solid_start al (w_level w) | Some s \<Rightarrow> Inr s)
        in case started of
             Inl e \<Rightarrow> ((Some e, w), 0)
           | Inr s \<Rightarrow>
               (case mz_solid_add s data of
                  Inl e \<Rightarrow> ((Some e, w\<lparr>w_solid := Some s\<rparr>), 0)
                | Inr (s, out) \<Rightarrow>
                    (append_block al (w\<lparr>w_solid := Some s\<rparr>)
                       (if is_first then MZ_BLOCK_SOLID_START else MZ_BLOCK_SOLID_NEXT) out,
                     word_of_nat (length out))))"

definition add_data :: "allocator \<Rightarrow> mz_write_ctx \<Rightarrow> bytes option \<Rightarrow> nat \<Rightarrow> (mz_err option \<times> mz_write_ctx) \<times> u32" where
  "add_data al w data sz =
     (case data of
        None \<Rightarrow> (append_block al w MZ_BLOCK_RAW [], word_of_nat sz)
      | Some d \<Rightarrow>
          if w_flags w AND MZ_FLAG_SOLID \<noteq> 0 \<and> sz > 0 then add_solid al w (take sz d)
          else (append_block al w MZ_BLOCK_RAW (take sz d), word_of_nat sz))"

definition mz2_add_file ::
  "allocator \<Rightarrow> mz_write_ctx \<Rightarrow> bytes option \<Rightarrow> bytes option \<Rightarrow> nat \<Rightarrow> u16 \<Rightarrow> mz_err option \<times> mz_write_ctx" where
  "mz2_add_file al w name data sz mode =
     (case name of
        None \<Rightarrow> (Some MZ_ERR_PARAM, w)
      | Some name \<Rightarrow>
          if data = None \<and> sz > 0 then (Some MZ_ERR_PARAM, w)
          else case grow_files al w of
            (Some e, w) \<Rightarrow> (Some e, w)
          | (None, w) \<Rightarrow>
              if length name > 0xFFFF then (Some MZ_ERR_PARAM, w)
              else
                let data_offset = word_of_nat (length (w_buf w) - MZ2_HEADER_LEN) in
                case add_data al w data sz of
                  ((Some e, w), csize) \<Rightarrow> (Some e, w)
                | ((None, w), csize) \<Rightarrow>
                    if \<not> al (length name + 1) then (Some MZ_ERR_MEMORY, w)
                    else
                      (None, w\<lparr>w_files := w_files w @
                         [\<lparr>fe_name = name, fe_name_len = word_of_nat (length name), fe_uid = 0, fe_gid = 0,
                           fe_mode = mode, fe_size = word_of_nat sz, fe_offset = data_offset, fe_csize = csize\<rparr>]\<rparr>))"

definition entry_bytes :: "mz_file_entry \<Rightarrow> bytes" where
  "entry_bytes e =
     write_le16 (fe_name_len e) @ take (unat (fe_name_len e)) (fe_name e) @ write_le32 (fe_uid e) @
     write_le32 (fe_gid e) @ write_le16 (fe_mode e) @ write_le32 (fe_size e) @ write_le32 (fe_offset e) @
     write_le32 (fe_csize e)"

definition file_table :: "mz_file_entry list \<Rightarrow> bytes" where
  "file_table files = write_le32 (word_of_nat (length files)) @ concat (map entry_bytes files)"

text \<open>\<^verbatim>\<open>result\<close> and \<^verbatim>\<open>result_len\<close> are not null; the result is the archive.\<close>

definition mz2_finish :: "allocator \<Rightarrow> mz_write_ctx \<Rightarrow> (mz_err + bytes) \<times> mz_write_ctx" where
  "mz2_finish al w =
     (let ft_data = file_table (w_files w) in
      if \<not> al (length ft_data) then (Inl MZ_ERR_MEMORY, w)
      else case append_block al w MZ_BLOCK_RAW ft_data of
        (Some e, w) \<Rightarrow> (Inl e, w)
      | (None, w) \<Rightarrow>
          (case (if w_flags w AND MZ_FLAG_SIGNED \<noteq> 0
                 then append_block al w MZ_BLOCK_SIGNED (replicate (32 + 64 + 2 + 1) 0) else (None, w)) of
             (Some e, w) \<Rightarrow> (Inl e, w)
           | (None, w) \<Rightarrow>
               if \<not> al (length (w_buf w)) then (Inl MZ_ERR_MEMORY, w)
               else (Inr (w_buf w), w\<lparr>w_solid := None\<rparr>)))"

section \<open>Reading\<close>

text \<open>The walk along the chain of blocks: the offset of the data of the last raw block, 0 if none.\<close>

function walk_blocks :: "bytes \<Rightarrow> nat \<Rightarrow> nat \<Rightarrow> nat" where
  "walk_blocks p blk_off last_raw =
     (if blk_off + MZ2_BLOCK_HDR_LEN \<le> length p then
        let blk_type = p ! blk_off;
            total = MZ2_BLOCK_HDR_LEN + unat (read_be24 (drop (blk_off + 1) p))
        in if blk_off + total > length p then last_raw
           else if blk_type = MZ_BLOCK_RAW then walk_blocks p (blk_off + total) (blk_off + MZ2_BLOCK_HDR_LEN)
           else if blk_type = MZ_BLOCK_SIGNED then last_raw
           else walk_blocks p (blk_off + total) last_raw
      else last_raw)"
  by pat_completeness auto
termination
  by (relation "measure (\<lambda>(p, off, last). length p - off)") (auto simp: MZ2_BLOCK_HDR_LEN_def)

declare walk_blocks.simps [simp del]

text \<open>The entries of the table, from the bytes that remain.\<close>

fun parse_entries :: "allocator \<Rightarrow> nat \<Rightarrow> bytes \<Rightarrow> mz_err + mz_file_entry list" where
  "parse_entries al 0 ft = Inr []"
| "parse_entries al (Suc n) ft =
     (if length ft < 2 then Inl MZ_ERR_DATA
      else
        let name_len = read_le16 ft; ft = drop 2 ft in
        if length ft < unat name_len then Inl MZ_ERR_DATA
        else if \<not> al (unat name_len + 1) then Inl MZ_ERR_MEMORY
        else
          let name = take (unat name_len) ft; ft = drop (unat name_len) ft in
          if length ft < 4 + 4 + 2 + 4 + 4 + 4 then Inl MZ_ERR_DATA
          else
            let e = \<lparr>fe_name = name, fe_name_len = name_len, fe_uid = read_le32 ft, fe_gid = read_le32 (drop 4 ft),
                     fe_mode = read_le16 (drop 8 ft), fe_size = read_le32 (drop 10 ft),
                     fe_offset = read_le32 (drop 14 ft), fe_csize = read_le32 (drop 18 ft)\<rparr>
            in case parse_entries al n (drop 22 ft) of Inl err \<Rightarrow> Inl err | Inr es \<Rightarrow> Inr (e # es))"

definition mz2_open :: "allocator \<Rightarrow> bytes option \<Rightarrow> mz_err + mz_read_ctx" where
  "mz2_open al data =
     (case data of
        None \<Rightarrow> Inl MZ_ERR_PARAM
      | Some p \<Rightarrow>
          if length p < MZ2_HEADER_LEN then Inl MZ_ERR_PARAM
          else if take 4 p \<noteq> MZ2_MAGIC then Inl MZ_ERR_DATA
          else if p ! 4 \<noteq> MZ2_VERSION then Inl MZ_ERR_DATA
          else if \<not> al READ_CTX_SIZE then Inl MZ_ERR_MEMORY
          else
            let off = walk_blocks p MZ2_HEADER_LEN 0 in
            if off = 0 then Inl MZ_ERR_DATA
            else
              let ft = drop off p in
              if length ft < 4 then Inl MZ_ERR_DATA
              else
                let num_files = sint (read_le32 ft) in
                if num_files < 0 \<or> nat num_files > length ft div 2 then Inl MZ_ERR_DATA
                else if \<not> al (nat num_files * FILE_ENTRY_SIZE) then Inl MZ_ERR_MEMORY
                else case parse_entries al (nat num_files) (drop 4 ft) of
                       Inl e \<Rightarrow> Inl e
                     | Inr es \<Rightarrow> Inr \<lparr>r_data = p, r_level = p ! 5, r_flags = read_le16 (drop 6 p), r_files = es\<rparr>)"

definition find_entry :: "mz_file_entry list \<Rightarrow> bytes \<Rightarrow> mz_file_entry option" where
  "find_entry files name =
     find (\<lambda>e. length name = unat (fe_name_len e) \<and> name = take (unat (fe_name_len e)) (fe_name e)) files"

text \<open>The raw and the solid blocks; \<^verbatim>\<open>p\<close> is the data of the block.\<close>

definition read_block :: "allocator \<Rightarrow> mz_file_entry \<Rightarrow> u8 \<Rightarrow> bytes \<Rightarrow> mz_ret" where
  "read_block al e blk_type blk =
     (if blk_type = MZ_BLOCK_RAW then
        (if \<not> al (if length blk \<noteq> 0 then length blk else 1) then mz_fail MZ_ERR_MEMORY
         else \<lparr>ret_code = MZ_OK, ret_out = Some blk\<rparr>)
      else if blk_type = MZ_BLOCK_SOLID_START \<or> blk_type = MZ_BLOCK_SOLID_NEXT then
        (let r2 = mz_decompress_lz77 al (Some blk) in
         if ret_code r2 \<le> 0 then
           (if ret_code r2 < 0 then \<lparr>ret_code = ret_code r2, ret_out = None\<rparr> else mz_fail MZ_ERR_DATA)
         else if length (the (ret_out r2)) \<noteq> unat (fe_size e) then mz_fail MZ_ERR_DATA
         else \<lparr>ret_code = MZ_OK, ret_out = ret_out r2\<rparr>)
      else mz_fail MZ_ERR_CODEC)"

definition mz2_read_file :: "allocator \<Rightarrow> mz_read_ctx \<Rightarrow> bytes option \<Rightarrow> mz_ret" where
  "mz2_read_file al r name =
     (case name of
        None \<Rightarrow> mz_fail MZ_ERR_PARAM
      | Some name \<Rightarrow>
          (case find_entry (r_files r) name of
             None \<Rightarrow> mz_fail MZ_ERR_DATA
           | Some e \<Rightarrow>
               let raw_off = MZ2_HEADER_LEN + unat (fe_offset e) in
               if raw_off + MZ2_BLOCK_HDR_LEN > length (r_data r) then mz_fail MZ_ERR_DATA
               else
                 let p = drop raw_off (r_data r); blk_type = p ! 0; blk_sz = unat (read_be24 (drop 1 p)) in
                 if raw_off + MZ2_BLOCK_HDR_LEN + blk_sz > length (r_data r) then mz_fail MZ_ERR_DATA
                 else if blk_sz \<noteq> unat (fe_csize e) then mz_fail MZ_ERR_DATA
                 else read_block al e blk_type (take blk_sz (drop MZ2_BLOCK_HDR_LEN p))))"

text \<open>The streaming reader: the type, the size and the offset of the next block.\<close>

definition mz2_block_read :: "bytes option \<Rightarrow> nat \<Rightarrow> mz_err + u8 \<times> nat \<times> nat" where
  "mz2_block_read data off =
     (case data of
        None \<Rightarrow> Inl MZ_ERR_PARAM
      | Some p \<Rightarrow>
          if off + MZ2_BLOCK_HDR_LEN > length p then Inl MZ_ERR_STREAM
          else
            let blk_size = unat (read_be24 (drop (off + 1) p))
            in Inr (p ! off, blk_size, off + MZ2_BLOCK_HDR_LEN + blk_size))"

text \<open>The two stubs return the same error whatever their arguments.\<close>

definition mz2_block_encrypt :: "bytes \<Rightarrow> bytes \<Rightarrow> bytes \<Rightarrow> mz_err" where
  "mz2_block_encrypt block key nonce = MZ_ERR_CRYPT"

definition mz2_block_sign :: "bytes \<Rightarrow> bytes \<Rightarrow> mz_err" where
  "mz2_block_sign block secret_key = MZ_ERR_CRYPT"

end
