(* ===== verification/Container.thy ===== *)
theory Container
  imports Core
begin

text \<open>
  What the MZ2 container promises: the abstraction of a write context to the list of its files
  (\<open>raw_repr\<close>), the layout of a finished archive (\<open>archive\<close>), the walk and the parser over that
  layout, and the contract \<open>archive_store\<close>, which the functions of \<open>Core\<close> satisfy. Error paths and
  limits follow at the end.
\<close>

section \<open>The interface of an archive\<close>

text \<open>
  An archive is written by putting files one after the other into a writer and sealing it; reading a
  name gives the first file put under it. \<open>view\<close> presents the outcome of a lookup as the reader does.
\<close>

locale archive_writer =
  fixes ok :: "'f list \<Rightarrow> bool"
    and repr :: "'w \<Rightarrow> 'f list \<Rightarrow> bool"
    and put :: "'f \<Rightarrow> 'w \<Rightarrow> 'w option"
  assumes ok_prefix: "ok (fs @ gs) \<Longrightarrow> ok fs"
    and put_repr: "repr w fs \<Longrightarrow> ok (fs @ [f]) \<Longrightarrow> \<exists>w'. put f w = Some w' \<and> repr w' (fs @ [f])"
begin

lemma put_all:
  "repr w fs \<Longrightarrow> ok (fs @ gs) \<Longrightarrow>
    \<exists>w'. fold (\<lambda>f r. Option.bind r (put f)) gs (Some w) = Some w' \<and> repr w' (fs @ gs)"
proof (induction gs arbitrary: w fs)
  case (Cons g gs)
  have "ok (fs @ [g])" using ok_prefix [of "fs @ [g]" gs] Cons.prems(2) by simp
  then obtain w1 where "put g w = Some w1" "repr w1 (fs @ [g])"
    using put_repr [OF Cons.prems(1)] by blast
  then show ?case using Cons.IH [of w1 "fs @ [g]"] Cons.prems(2) by simp
qed simp

end

locale archive_store = archive_writer ok repr put
  for ok :: "('n \<times> 'm \<times> 'd) list \<Rightarrow> bool"
    and repr :: "'w \<Rightarrow> ('n \<times> 'm \<times> 'd) list \<Rightarrow> bool"
    and put :: "'n \<times> 'm \<times> 'd \<Rightarrow> 'w \<Rightarrow> 'w option" +
  fixes seal :: "'w \<Rightarrow> 'a option"
    and get :: "'a \<Rightarrow> 'n \<Rightarrow> 'r"
    and view :: "('m \<times> 'd) option \<Rightarrow> 'r"
  assumes seal_get: "repr w fs \<Longrightarrow> ok fs \<Longrightarrow> \<exists>a. seal w = Some a \<and> (\<forall>n. get a n = view (map_of fs n))"
begin

lemma store_lookup:
  assumes "repr w []" "ok fs"
  shows "\<exists>w' a. fold (\<lambda>f r. Option.bind r (put f)) fs (Some w) = Some w' \<and> seal w' = Some a \<and>
    (\<forall>n. get a n = view (map_of fs n))"
  using put_all [OF assms(1), of fs] seal_get assms(2) by (metis append_Nil)

end

section \<open>Writing\<close>

type_synonym mz_file = "bytes \<times> u16 \<times> bytes"

definition blk :: "u8 \<Rightarrow> bytes \<Rightarrow> bytes" where
  "blk t d = block_hdr t (length d) @ d"

definition raw_blocks :: "mz_file list \<Rightarrow> bytes" where
  "raw_blocks fs = concat (map (\<lambda>(n, m, d). blk MZ_BLOCK_RAW d) fs)"

definition mk_entry :: "mz_file \<Rightarrow> nat \<Rightarrow> mz_file_entry" where
  "mk_entry f off = (case f of (n, m, d) \<Rightarrow>
     \<lparr>fe_name = n, fe_name_len = word_of_nat (length n), fe_uid = 0, fe_gid = 0, fe_mode = m,
       fe_size = word_of_nat (length d), fe_offset = word_of_nat off, fe_csize = word_of_nat (length d)\<rparr>)"

fun mk_entries :: "nat \<Rightarrow> mz_file list \<Rightarrow> mz_file_entry list" where
  "mk_entries off [] = []"
| "mk_entries off (f # fs) = mk_entry f off # mk_entries (off + length (raw_blocks [f])) fs"

lemma length_header [simp]: "length (mz2_header level flags) = 12"
  by (simp add: mz2_header_def mz2_consts)

lemma length_blk [simp]: "length (blk t d) = 4 + length d" "length (block_hdr t k) = 4"
  by (simp_all add: blk_def block_hdr_def)

lemma raw_blocks_simps [simp]:
  "raw_blocks [] = []" "raw_blocks ((n, m, d) # fs) = blk MZ_BLOCK_RAW d @ raw_blocks fs"
  "raw_blocks (fs @ gs) = raw_blocks fs @ raw_blocks gs"
  by (simp_all add: raw_blocks_def)

lemma mk_entries_append:
  "mk_entries off (fs @ gs) = mk_entries off fs @ mk_entries (off + length (raw_blocks fs)) gs"
  by (induction fs arbitrary: off) (auto simp: add.assoc)

lemma length_mk_entries [simp]: "length (mk_entries off fs) = length fs"
  by (induction fs arbitrary: off) auto

lemma buf_append_ok:
  "\<exists>cap. buf_append al_ok w d = (None, w\<lparr>w_buf := w_buf w @ d, w_buf_cap := cap\<rparr>)"
proof -
  obtain cap where "buf_grow al_ok (w_buf_cap w) (length (w_buf w) + length d) = Inr cap"
    by (cases "length (w_buf w) + length d \<le> w_buf_cap w") (simp_all add: buf_grow_def)
  then show ?thesis by (auto simp: buf_append_def)
qed

lemma append_block_ok:
  "\<exists>cap. append_block al_ok w t d = (None, w\<lparr>w_buf := w_buf w @ blk t d, w_buf_cap := cap\<rparr>)"
proof -
  obtain c1 where c1: "buf_append al_ok w (block_hdr t (length d)) =
      (None, w\<lparr>w_buf := w_buf w @ block_hdr t (length d), w_buf_cap := c1\<rparr>)"
    using buf_append_ok by blast
  obtain c2 where "buf_append al_ok (w\<lparr>w_buf := w_buf w @ block_hdr t (length d), w_buf_cap := c1\<rparr>) d =
      (None, w\<lparr>w_buf := (w_buf w @ block_hdr t (length d)) @ d, w_buf_cap := c2\<rparr>)"
    using buf_append_ok [of "w\<lparr>w_buf := w_buf w @ block_hdr t (length d), w_buf_cap := c1\<rparr>" d] by auto
  then show ?thesis using c1 by (auto simp: append_block_def blk_def)
qed

text \<open>The abstraction: a context without the solid flag stands for the files added to it.\<close>

definition raw_repr :: "mz_write_ctx \<Rightarrow> mz_file list \<Rightarrow> bool" where
  "raw_repr w fs \<longleftrightarrow> w_flags w AND MZ_FLAG_SOLID = 0 \<and>
     w_buf w = mz2_header (w_level w) (w_flags w) @ raw_blocks fs \<and> w_files w = mk_entries 0 fs"

definition table_size :: "mz_file list \<Rightarrow> nat" where
  "table_size fs = 4 + sum_list (map (\<lambda>(n, m, d). 24 + length n) fs)"

definition archive_ok :: "mz_file list \<Rightarrow> bool" where
  "archive_ok fs \<longleftrightarrow> (\<forall>f \<in> set fs. length (fst f) < 2 ^ 16 \<and> length (snd (snd f)) < 2 ^ 24) \<and>
     length (raw_blocks fs) < 2 ^ 32 \<and> table_size fs < 2 ^ 24"

definition mz2_put :: "mz_file \<Rightarrow> mz_write_ctx \<Rightarrow> mz_write_ctx option" where
  "mz2_put f w = (case f of (n, m, d) \<Rightarrow>
     (case mz2_add_file al_ok w (Some n) (Some d) (length d) m of (None, w') \<Rightarrow> Some w' | _ \<Rightarrow> None))"

lemma create_repr:
  assumes "mz2_create al (Some p) = Inr w" "pr_flags p AND MZ_FLAG_SOLID = 0"
  shows "raw_repr w []"
  using assms by (auto simp: mz2_create_def raw_repr_def split: if_splits)

lemma add_file_raw:
  assumes w: "raw_repr w fs" and n: "length n < 2 ^ 16"
  shows "\<exists>w'. mz2_add_file al_ok w (Some n) (Some d) (length d) m = (None, w') \<and> raw_repr w' (fs @ [(n, m, d)])"
proof -
  obtain mx where g: "grow_files al_ok w = (None, w\<lparr>w_max_files := mx\<rparr>)"
  proof (cases "length (w_files w) \<ge> w_max_files w")
    case False
    then show ?thesis using that [of "w_max_files w"] by (simp add: grow_files_def)
  qed (simp add: grow_files_def Let_def)
  define w1 where "w1 = w\<lparr>w_max_files := mx\<rparr>"
  obtain cap where a: "append_block al_ok w1 MZ_BLOCK_RAW d =
      (None, w1\<lparr>w_buf := w_buf w1 @ blk MZ_BLOCK_RAW d, w_buf_cap := cap\<rparr>)"
    using append_block_ok by blast
  have "mz2_add_file al_ok w (Some n) (Some d) (length d) m =
      (None, w1\<lparr>w_buf := w_buf w1 @ blk MZ_BLOCK_RAW d, w_buf_cap := cap,
        w_files := w_files w @ [mk_entry (n, m, d) (length (raw_blocks fs))]\<rparr>)"
    using g a w n
    by (simp add: mz2_add_file_def add_data_def raw_repr_def Let_def mk_entry_def MZ2_HEADER_LEN_def flip: w1_def)
      (simp add: w1_def)
  then show ?thesis using w by (auto simp: raw_repr_def w1_def mk_entries_append)
qed

definition sig_part :: "u32 \<Rightarrow> bytes" where
  "sig_part flags = (if flags AND MZ_FLAG_SIGNED \<noteq> 0 then blk MZ_BLOCK_SIGNED (replicate 99 0) else [])"

definition archive :: "int \<Rightarrow> u32 \<Rightarrow> mz_file list \<Rightarrow> bytes" where
  "archive level flags fs =
     mz2_header level flags @ raw_blocks fs @ blk MZ_BLOCK_RAW (file_table (mk_entries 0 fs)) @ sig_part flags"

lemma finish_raw:
  assumes w: "raw_repr w fs"
  shows "fst (mz2_finish al_ok w) = Inr (archive (w_level w) (w_flags w) fs)"
proof -
  define ft where "ft = file_table (w_files w)"
  obtain cap where a: "append_block al_ok w MZ_BLOCK_RAW ft =
      (None, w\<lparr>w_buf := w_buf w @ blk MZ_BLOCK_RAW ft, w_buf_cap := cap\<rparr>)"
    using append_block_ok by blast
  define w1 where "w1 = w\<lparr>w_buf := w_buf w @ blk MZ_BLOCK_RAW ft, w_buf_cap := cap\<rparr>"
  obtain cap2 where s: "append_block al_ok w1 MZ_BLOCK_SIGNED (replicate 99 0) =
      (None, w1\<lparr>w_buf := w_buf w1 @ blk MZ_BLOCK_SIGNED (replicate 99 0), w_buf_cap := cap2\<rparr>)"
    using append_block_ok by blast
  show ?thesis
    using a s w
    by (auto simp: mz2_finish_def Let_def archive_def sig_part_def raw_repr_def split: prod.splits
        simp flip: ft_def w1_def) (simp_all add: w1_def ft_def)
qed

section \<open>Walking the blocks\<close>

lemma read_be24_blk:
  "length d < 2 ^ 24 \<Longrightarrow> unat (read_be24 (write_be24 (word_of_nat (length d)) @ rest)) = length d"
  by (simp add: read_be24_append unsigned_take_bit_eq take_bit_nat_eq_self)

lemma walk_blk:
  assumes "length d < 2 ^ 24"
  shows "walk_blocks (pre @ blk t d @ rest) (length pre) lr =
    (if t = MZ_BLOCK_RAW then walk_blocks (pre @ blk t d @ rest) (length pre + 4 + length d) (length pre + 4)
     else if t = MZ_BLOCK_SIGNED then lr
     else walk_blocks (pre @ blk t d @ rest) (length pre + 4 + length d) lr)"
proof -
  have "drop (length pre + 1) (pre @ blk t d @ rest) = write_be24 (word_of_nat (length d)) @ d @ rest"
    "(pre @ blk t d @ rest) ! length pre = t"
    by (simp_all add: blk_def block_hdr_def)
  then show ?thesis
    using assms by (subst walk_blocks.simps) (simp add: read_be24_blk MZ2_BLOCK_HDR_LEN_def add.assoc)
qed

lemma walk_end: "walk_blocks p (length p) lr = lr"
  by (subst walk_blocks.simps) (simp add: MZ2_BLOCK_HDR_LEN_def)

lemma walk_raw_blocks:
  assumes "\<forall>f \<in> set fs. length (snd (snd f)) < 2 ^ 24"
  shows "\<exists>lraw'. walk_blocks (pre @ raw_blocks fs @ rest) (length pre) lr =
    walk_blocks (pre @ raw_blocks fs @ rest) (length pre + length (raw_blocks fs)) lraw'"
  using assms
proof (induction fs arbitrary: pre lr)
  case (Cons f fs)
  obtain n m d where f: "f = (n, m, d)" by (cases f) auto
  then have "walk_blocks (pre @ blk MZ_BLOCK_RAW d @ raw_blocks fs @ rest) (length pre) lr =
      walk_blocks (pre @ blk MZ_BLOCK_RAW d @ raw_blocks fs @ rest) (length pre + 4 + length d) (length pre + 4)"
    using Cons.prems by (subst walk_blk) auto
  moreover obtain lraw' where "walk_blocks ((pre @ blk MZ_BLOCK_RAW d) @ raw_blocks fs @ rest)
        (length (pre @ blk MZ_BLOCK_RAW d)) (length pre + 4) =
      walk_blocks ((pre @ blk MZ_BLOCK_RAW d) @ raw_blocks fs @ rest)
        (length (pre @ blk MZ_BLOCK_RAW d) + length (raw_blocks fs)) lraw'"
    using Cons.IH [of "pre @ blk MZ_BLOCK_RAW d" "length pre + 4"] Cons.prems by auto
  ultimately show ?case
    unfolding f by (auto simp: add.assoc)
qed auto

lemma length_entry_bytes: "length (fe_name e) = unat (fe_name_len e) \<Longrightarrow> length (entry_bytes e) = 24 + length (fe_name e)"
  by (simp add: entry_bytes_def)

lemma length_file_table:
  "\<forall>f \<in> set fs. length (fst f) < 2 ^ 16 \<Longrightarrow> length (file_table (mk_entries off fs)) = table_size fs"
proof (induction fs arbitrary: off)
  case (Cons f fs)
  obtain n m d where f: "f = (n, m, d)" by (cases f) auto
  show ?case
    using Cons.IH [of "off + length (raw_blocks [f])"] Cons.prems
    by (simp add: f file_table_def table_size_def mk_entry_def length_entry_bytes unat_of_nat)
qed (simp add: file_table_def table_size_def)

lemma walk_archive:
  assumes "archive_ok fs"
  shows "walk_blocks (archive level flags fs) 12 0 = 16 + length (raw_blocks fs)"
proof -
  define ft where "ft = file_table (mk_entries 0 fs)"
  define h where "h = mz2_header level flags"
  have ft: "length ft < 2 ^ 24" using assms length_file_table [of fs 0] by (auto simp: archive_ok_def ft_def)
  have ok: "\<forall>f \<in> set fs. length (snd (snd f)) < 2 ^ 24" using assms by (auto simp: archive_ok_def)
  obtain lr where "walk_blocks (archive level flags fs) 12 0 =
      walk_blocks ((h @ raw_blocks fs) @ blk MZ_BLOCK_RAW ft @ sig_part flags) (length (h @ raw_blocks fs)) lr"
    using walk_raw_blocks [OF ok, of h "blk MZ_BLOCK_RAW ft @ sig_part flags" 0]
    by (auto simp: archive_def ft_def h_def)
  also have "\<dots> = walk_blocks ((h @ raw_blocks fs @ blk MZ_BLOCK_RAW ft) @ sig_part flags)
      (length (h @ raw_blocks fs @ blk MZ_BLOCK_RAW ft)) (length (h @ raw_blocks fs) + 4)"
    by (subst walk_blk [OF ft]) (simp add: add.assoc)
  also have "\<dots> = length (h @ raw_blocks fs) + 4"
  proof (cases "flags AND MZ_FLAG_SIGNED = 0")
    case True
    then show ?thesis using walk_end [of "h @ raw_blocks fs @ blk MZ_BLOCK_RAW ft"] by (simp add: sig_part_def)
  next
    case False
    then show ?thesis
      using walk_blk [of "replicate 99 0" "h @ raw_blocks fs @ blk MZ_BLOCK_RAW ft" MZ_BLOCK_SIGNED "[]"]
      by (simp add: sig_part_def mz2_consts)
  qed
  finally show ?thesis by (simp add: h_def)
qed

section \<open>Parsing the table\<close>

lemma drop_field [simp]: "drop 4 (write_le32 v @ rest) = rest" "drop 2 (write_le16 w @ rest) = rest"
  by simp_all

lemma parse_entry:
  assumes "length (fe_name e) = unat (fe_name_len e)"
  shows "parse_entries al_ok (Suc n) (entry_bytes e @ rest) =
    (case parse_entries al_ok n rest of Inl err \<Rightarrow> Inl err | Inr es \<Rightarrow> Inr (e # es))"
proof -
  define body where "body = write_le32 (fe_uid e) @ write_le32 (fe_gid e) @ write_le16 (fe_mode e) @
    write_le32 (fe_size e) @ write_le32 (fe_offset e) @ write_le32 (fe_csize e) @ rest"
  have b: "read_le32 body = fe_uid e" "read_le32 (drop 4 body) = fe_gid e" "read_le16 (drop 8 body) = fe_mode e"
    "read_le32 (drop 10 body) = fe_size e" "read_le32 (drop 14 body) = fe_offset e"
    "read_le32 (drop 18 body) = fe_csize e" "drop 22 body = rest" "\<not> length body < 22"
    by (simp_all add: body_def read_le32_append read_le16_append)
  have "entry_bytes e @ rest = write_le16 (fe_name_len e) @ fe_name e @ body"
    using assms by (simp add: entry_bytes_def body_def)
  then show ?thesis
    using b assms by (simp add: read_le16_append Let_def split: sum.splits)
qed

lemma parse_table:
  "\<forall>e \<in> set es. length (fe_name e) = unat (fe_name_len e) \<Longrightarrow>
    parse_entries al_ok (length es) (concat (map entry_bytes es) @ rest) = Inr es"
  by (induction es) (auto simp: parse_entry simp del: parse_entries.simps(2))


lemma mk_entries_names:
  "\<forall>f \<in> set fs. length (fst f) < 2 ^ 16 \<Longrightarrow>
    \<forall>e \<in> set (mk_entries off fs). length (fe_name e) = unat (fe_name_len e)"
  by (induction fs arbitrary: off) (auto simp: mk_entry_def unat_of_nat)

lemma table_size_count: "24 * length fs + 4 \<le> table_size fs"
  by (induction fs) (auto simp: table_size_def)

lemma header_fields:
  "take 4 (mz2_header level flags @ rest) = MZ2_MAGIC" "(mz2_header level flags @ rest) ! 4 = MZ2_VERSION"
  by (simp_all add: mz2_header_def MZ2_MAGIC_def)

lemma open_archive:
  assumes "archive_ok fs"
  shows "\<exists>r. mz2_open al_ok (Some (archive level flags fs)) = Inr r \<and>
    r_data r = archive level flags fs \<and> r_files r = mk_entries 0 fs"
proof -
  define p where "p = archive level flags fs"
  define es where "es = mk_entries 0 fs"
  define ft where "ft = drop (16 + length (raw_blocks fs)) p"
  have names: "\<forall>f \<in> set fs. length (fst f) < 2 ^ 16" using assms by (auto simp: archive_ok_def)
  have len: "length fs < 2 ^ 24" "length (file_table es) = table_size fs"
    using assms table_size_count [of fs] length_file_table [OF names] by (auto simp: archive_ok_def es_def)
  have p: "p = mz2_header level flags @ raw_blocks fs @ blk MZ_BLOCK_RAW (file_table es) @ sig_part flags"
    by (simp add: p_def archive_def es_def)
  have ft: "ft = write_le32 (word_of_nat (length es)) @ concat (map entry_bytes es) @ sig_part flags"
    by (simp add: ft_def p blk_def file_table_def)
  have count: "sint (read_le32 ft) = int (length es)"
    using len by (simp add: ft read_le32_append es_def signed_of_nat signed_take_bit_int_eq_self)
  have flen: "4 + length (concat (map entry_bytes es)) = table_size fs"
    using len(2) by (simp add: file_table_def)
  have half: "length es \<le> length ft div 2" "\<not> length ft < 4"
    using flen table_size_count [of fs] by (simp_all add: ft es_def)
  have "parse_entries al_ok (length es) (drop 4 ft) = Inr es"
    unfolding ft using parse_table [OF mk_entries_names [OF names, of 0]] by (simp add: es_def)
  then show ?thesis
    using count half header_fields [of level flags "raw_blocks fs @ blk MZ_BLOCK_RAW (file_table es) @ sig_part flags"]
      walk_archive [OF assms, of level flags]
    by (simp add: mz2_open_def Let_def MZ2_HEADER_LEN_def flip: p_def p es_def ft_def) (simp add: p)
qed

section \<open>Reading a file\<close>

lemma find_entry_none:
  "\<forall>f \<in> set fs. length (fst f) < 2 ^ 16 \<Longrightarrow> map_of fs n = None \<Longrightarrow> find_entry (mk_entries off fs) n = None"
  by (induction fs arbitrary: off) (auto simp: find_entry_def mk_entry_def unat_of_nat split: if_splits)

lemma find_entry_some:
  "\<forall>f \<in> set fs. length (fst f) < 2 ^ 16 \<Longrightarrow> map_of fs n = Some (m, d) \<Longrightarrow>
    \<exists>pre post. fs = pre @ (n, m, d) # post \<and>
      find_entry (mk_entries off fs) n = Some (mk_entry (n, m, d) (off + length (raw_blocks pre)))"
proof (induction fs arbitrary: off)
  case (Cons f fs)
  obtain n' m' d' where f: "f = (n', m', d')" by (cases f) auto
  show ?case
  proof (cases "n' = n")
    case True
    then have "f = (n, m, d)" using Cons.prems(2) f by simp
    then show ?thesis
      using Cons.prems(1)
      by (intro exI [of _ "[]"] exI [of _ fs]) (simp add: find_entry_def mk_entry_def unat_of_nat)
  next
    case False
    then obtain pre post where pp: "fs = pre @ (n, m, d) # post"
      "find_entry (mk_entries (off + length (raw_blocks [f])) fs) n =
        Some (mk_entry (n, m, d) (off + length (raw_blocks [f]) + length (raw_blocks pre)))"
      using Cons.IH Cons.prems f by fastforce
    then show ?thesis
      using False f Cons.prems(1)
      by (intro exI [of _ "f # pre"] exI [of _ post])
        (auto simp: find_entry_def mk_entry_def unat_of_nat add.assoc)
  qed
qed simp

lemma read_archive:
  assumes ok: "archive_ok fs" and r: "r_data r = archive level flags fs" "r_files r = mk_entries 0 fs"
  shows "mz2_read_file al_ok r (Some n) =
    (case map_of fs n of None \<Rightarrow> mz_fail MZ_ERR_DATA | Some (m, d) \<Rightarrow> \<lparr>ret_code = MZ_OK, ret_out = Some d\<rparr>)"
proof (cases "map_of fs n")
  case None
  then show ?thesis using ok find_entry_none r by (simp add: mz2_read_file_def archive_ok_def)
next
  case (Some md)
  obtain m d where md: "md = (m, d)" by fastforce
  have names: "\<forall>f \<in> set fs. length (fst f) < 2 ^ 16" using ok by (auto simp: archive_ok_def)
  obtain pre post where pp: "fs = pre @ (n, m, d) # post"
    "find_entry (mk_entries 0 fs) n = Some (mk_entry (n, m, d) (length (raw_blocks pre)))"
    using find_entry_some [OF names Some [unfolded md], of 0] by auto
  define rest where "rest = raw_blocks post @ blk MZ_BLOCK_RAW (file_table (mk_entries 0 fs)) @ sig_part flags"
  have d: "length d < 2 ^ 24" "length (raw_blocks pre) < 2 ^ 32" using ok pp by (auto simp: archive_ok_def)
  have data: "r_data r = (mz2_header level flags @ raw_blocks pre) @ blk MZ_BLOCK_RAW d @ rest"
    using r pp by (simp add: archive_def rest_def)
  have drop: "drop (12 + length (raw_blocks pre)) (r_data r) = block_hdr MZ_BLOCK_RAW (length d) @ d @ rest"
    by (simp add: data blk_def)
  have sz: "unat (read_be24 (drop 1 (block_hdr MZ_BLOCK_RAW (length d) @ d @ rest))) = length d"
    using read_be24_blk [OF d(1)] by (simp add: block_hdr_def)
  have len: "16 + length (raw_blocks pre) + length d \<le> length (r_data r)" by (simp add: data)
  show ?thesis
    using pp(2) r(2) d drop sz len Some md
    by (simp add: mz2_read_file_def Let_def MZ2_HEADER_LEN_def MZ2_BLOCK_HDR_LEN_def mk_entry_def unat_of_nat)
      (simp add: read_block_def MZ_BLOCK_RAW_def block_hdr_def)
qed


section \<open>The archive\<close>

text \<open>Lookup in a finished archive; an archive that does not open has no files.\<close>

definition mz2_seal :: "mz_write_ctx \<Rightarrow> bytes option" where
  "mz2_seal w = (case fst (mz2_finish al_ok w) of Inl e \<Rightarrow> None | Inr a \<Rightarrow> Some a)"

definition mz2_lookup :: "bytes \<Rightarrow> bytes \<Rightarrow> mz_ret" where
  "mz2_lookup a n =
     (case mz2_open al_ok (Some a) of Inl e \<Rightarrow> mz_fail e | Inr r \<Rightarrow> mz2_read_file al_ok r (Some n))"

definition mz2_view :: "(u16 \<times> bytes) option \<Rightarrow> mz_ret" where
  "mz2_view f = (case f of None \<Rightarrow> mz_fail MZ_ERR_DATA | Some (m, d) \<Rightarrow> \<lparr>ret_code = MZ_OK, ret_out = Some d\<rparr>)"

lemma archive_ok_prefix: "archive_ok (fs @ gs) \<Longrightarrow> archive_ok fs"
  by (auto simp: archive_ok_def table_size_def)

lemma put_raw:
  assumes "raw_repr w fs" "archive_ok (fs @ [f])"
  shows "\<exists>w'. mz2_put f w = Some w' \<and> raw_repr w' (fs @ [f])"
proof -
  obtain n m d where f: "f = (n, m, d)" by (cases f) auto
  have "length n < 2 ^ 16" using assms(2) f by (simp add: archive_ok_def)
  from add_file_raw [OF assms(1) this, of d m] show ?thesis by (auto simp: mz2_put_def f)
qed

lemma seal_raw:
  assumes "raw_repr w fs" "archive_ok fs"
  shows "\<exists>a. mz2_seal w = Some a \<and> (\<forall>n. mz2_lookup a n = mz2_view (map_of fs n))"
proof -
  define a where "a = archive (w_level w) (w_flags w) fs"
  have "mz2_seal w = Some a" using finish_raw [OF assms(1)] by (simp add: mz2_seal_def a_def)
  moreover obtain r where "mz2_open al_ok (Some a) = Inr r" "r_data r = a" "r_files r = mk_entries 0 fs"
    using open_archive [OF assms(2)] a_def by blast
  ultimately show ?thesis
    using read_archive [OF assms(2), of r "w_level w" "w_flags w"]
    by (auto simp: mz2_lookup_def mz2_view_def a_def split: option.splits)
qed

interpretation mz2: archive_store archive_ok raw_repr mz2_put mz2_seal mz2_lookup mz2_view
  by unfold_locales (auto intro: archive_ok_prefix put_raw seal_raw)

definition mz2_add_all :: "mz_file list \<Rightarrow> mz_write_ctx \<Rightarrow> mz_write_ctx option" where
  "mz2_add_all fs w = fold (\<lambda>f r. Option.bind r (mz2_put f)) fs (Some w)"

text \<open>
  C5. The container keeps its files. Starting from a fresh context without the solid flag, adding
  any list of files within the format's limits (names below 64 KiB, contents below 16 MiB, a table
  below 16 MiB, blocks below 4 GiB) and finishing gives an archive that opens; reading a name returns
  the contents of the first file added under it, and \<^verbatim>\<open>MZ_ERR_DATA\<close> for a name never added.
\<close>

theorem mz2_archive_refines:
  assumes "mz2_create al (Some p) = Inr w" "pr_flags p AND MZ_FLAG_SOLID = 0" "archive_ok fs"
  shows "\<exists>w' a. mz2_add_all fs w = Some w' \<and> mz2_seal w' = Some a \<and>
    (\<forall>n. mz2_lookup a n =
      (case map_of fs n of None \<Rightarrow> mz_fail MZ_ERR_DATA | Some (m, d) \<Rightarrow> \<lparr>ret_code = MZ_OK, ret_out = Some d\<rparr>))"
  using mz2.store_lookup [OF create_repr [OF assms(1,2)] assms(3)]
  by (auto simp: mz2_add_all_def mz2_view_def)

theorem mz2_archive_refines_witness:
  "\<exists>w w' a. mz2_create al_ok (Some \<lparr>pr_level = 6, pr_flags = 4\<rparr>) = Inr w \<and>
     mz2_add_all [([97], 0x1A4, [1, 2]), ([98], 0x1ED, []), ([97], 0, [9])] w = Some w' \<and> mz2_seal w' = Some a \<and>
     mz2_lookup a [97] = \<lparr>ret_code = MZ_OK, ret_out = Some [1, 2]\<rparr> \<and>
     mz2_lookup a [99] = mz_fail MZ_ERR_DATA"
proof -
  let ?p = "\<lparr>pr_level = 6, pr_flags = 4\<rparr>"
  let ?fs = "[([97], 0x1A4, [1, 2]), ([98], 0x1ED, []), ([97], 0, [9])] :: mz_file list"
  obtain w where w: "mz2_create al_ok (Some ?p) = Inr w" by (simp add: mz2_create_def mz2_flags)
  have f: "pr_flags ?p AND MZ_FLAG_SOLID = 0" by (simp add: mz2_flags)
  have ok: "archive_ok ?fs" by (simp add: archive_ok_def table_size_def)
  from mz2_archive_refines [OF w f ok] w show ?thesis by fastforce
qed

end
