(* ===== verification/Container_Limits.thy ===== *)
theory Container_Limits
  imports Container
begin

text \<open>
  The error paths and the limits of the MZ2 container: what a failing call leaves behind, files
  beyond the 24-bit block size, the bounds of the parser on arbitrary input, and the contents of a
  solid archive.
\<close>

section \<open>Limits and errors\<close>

lemma append_block_prefix:
  "append_block al w t d = (r, w') \<Longrightarrow> w_files w' = w_files w \<and> (\<exists>ext. w_buf w' = w_buf w @ ext)"
  by (auto simp: append_block_def buf_append_def split: sum.splits)

lemma grow_files_same: "grow_files al w = (r, w') \<Longrightarrow> w_files w' = w_files w \<and> w_buf w' = w_buf w \<and> w_flags w' = w_flags w"
  by (auto simp: grow_files_def Let_def split: if_splits)

lemma add_data_prefix:
  "add_data al w data sz = ((r, w'), c) \<Longrightarrow> w_files w' = w_files w \<and> (\<exists>ext. w_buf w' = w_buf w @ ext)"
  by (auto simp: add_data_def add_solid_def Let_def split: option.splits sum.splits if_splits prod.splits
      dest!: append_block_prefix)

text \<open>
  A failing \<^verbatim>\<open>mz2_add_file\<close> does not touch what was added before: whatever allocation fails and
  whatever the arguments, the file list keeps its entries and the buffer only grows at its end.
\<close>

theorem mz2_add_file_error:
  assumes "mz2_add_file al w name data sz mode = (Some e, w')"
  shows "w_files w' = w_files w \<and> (\<exists>ext. w_buf w' = w_buf w @ ext)"
  using assms
  by (fastforce simp: mz2_add_file_def Let_def split: option.splits if_splits prod.splits
      dest: grow_files_same add_data_prefix)

theorem mz2_add_file_error_witness:
  "\<exists>w w'. mz2_create al_ok (Some \<lparr>pr_level = 1, pr_flags = 0\<rparr>) = Inr w \<and>
     mz2_add_file (\<lambda>n. n \<noteq> 2) w (Some [97]) (Some [5, 6, 7]) 3 0 = (Some MZ_ERR_MEMORY, w') \<and>
     w_files w' = [] \<and> length (w_buf w') = 19"
proof -
  define w where "w = \<lparr>w_buf = mz2_header 1 0, w_buf_cap = 4096, w_files = [], w_max_files = 0, w_level = 1,
    w_flags = 0, w_solid = None\<rparr>"
  have c: "mz2_create al_ok (Some \<lparr>pr_level = 1, pr_flags = 0\<rparr>) = Inr w"
    by (simp add: mz2_create_def mz2_flags w_def)
  obtain w' where a: "mz2_add_file (\<lambda>n. n \<noteq> 2) w (Some [97]) (Some [5, 6, 7]) 3 0 = (Some MZ_ERR_MEMORY, w')"
    and l: "length (w_buf w') = 19"
    by (simp add: w_def mz2_add_file_def grow_files_def add_data_def append_block_def buf_append_def
        buf_grow_def FILE_ENTRY_SIZE_def mz2_flags Let_def)
  show ?thesis using c a l mz2_add_file_error [OF a] by (simp add: w_def)
qed

lemma read_be24_less: "unat (read_be24 x) < 2 ^ 24"
proof -
  have "take_bit 24 (read_be24 x) = read_be24 x"
  proof (rule bit_word_eqI)
    fix i
    have "\<not> bit (read_be24 x) i" if "24 \<le> i"
      using that bit_u8_len [of "x ! 2" i] bit_u8_len [of "x ! 1" "i - 8"] bit_u8_len [of "x ! 0" "i - 16"]
      unfolding read_be24_def by (simp only: bit_field) auto
    then show "bit (take_bit 24 (read_be24 x)) i = bit (read_be24 x) i"
      by (auto simp: bit_take_bit_iff not_less [symmetric])
  qed
  then have "unat (read_be24 x) = take_bit 24 (unat (read_be24 x))"
    by (metis unsigned_take_bit_eq)
  then show ?thesis by (metis take_bit_nat_less_exp)
qed

text \<open>
  A file of 16 MiB or more is lost. \<^verbatim>\<open>mz2_add_file\<close> accepts it and records its size, but the block
  header holds 24 bits (\<^verbatim>\<open>MZ2_MAX_BLOCK_SIZE\<close> is never tested), so the reader's comparison of block
  size and \<^verbatim>\<open>csize\<close> fails for that entry in every archive.
\<close>

theorem mz2_large_file_lost:
  assumes "mz2_add_file al w (Some n) (Some d) (length d) m = (None, w')" "w_flags w AND MZ_FLAG_SOLID = 0"
    "2 ^ 24 \<le> length d" "length d < 2 ^ 32"
  shows "\<exists>e. w_files w' = w_files w @ [e] \<and> fe_name e = n \<and>
    (\<forall>al' r. find_entry (r_files r) n = Some e \<longrightarrow> mz2_read_file al' r (Some n) = mz_fail MZ_ERR_DATA)"
proof -
  obtain e where e: "w_files w' = w_files w @ [e]" "fe_name e = n" "fe_csize e = word_of_nat (length d)"
    using assms(1,2)
    by (auto simp: mz2_add_file_def Let_def add_data_def split: option.splits if_splits prod.splits
        dest!: grow_files_same append_block_prefix)
  have "unat (fe_csize e) = length d" using e(3) assms(4) by simp
  then have "unat (read_be24 x) \<noteq> unat (fe_csize e)" for x using read_be24_less [of x] assms(3) by simp
  then show ?thesis
    using e by (intro exI [of _ e]) (simp add: mz2_read_file_def Let_def)
qed


theorem mz2_large_file_lost_witness:
  "\<exists>w w' e. mz2_add_file al_ok w (Some [97]) (Some (replicate (2 ^ 24) 7)) (2 ^ 24) 0 = (None, w') \<and>
     w_files w' = [e] \<and>
     mz2_read_file al_ok \<lparr>r_data = w_buf w', r_level = 1, r_flags = 0, r_files = [e]\<rparr> (Some [97]) = mz_fail MZ_ERR_DATA"
proof -
  obtain w where "mz2_create al_ok (Some \<lparr>pr_level = 1, pr_flags = 0\<rparr>) = Inr w"
    by (simp add: mz2_create_def mz2_flags)
  then have w: "raw_repr w []" by (rule create_repr) simp
  define d :: bytes where "d = replicate (2 ^ 24) 7"
  obtain w' where a: "mz2_add_file al_ok w (Some [97]) (Some d) (length d) 0 = (None, w')"
    using add_file_raw [OF w, of "[97]" d 0] by auto
  have "w_flags w AND MZ_FLAG_SOLID = 0" "w_files w = []" using w by (auto simp: raw_repr_def)
  moreover have "2 ^ 24 \<le> length d" "length d < 2 ^ 32" "length d = 2 ^ 24" by (simp_all add: d_def)
  ultimately obtain e where e: "w_files w' = [e]" "fe_name e = [97]"
      "find_entry [e] [97] = Some e \<longrightarrow>
         mz2_read_file al_ok \<lparr>r_data = w_buf w', r_level = 1, r_flags = 0, r_files = [e]\<rparr> (Some [97]) = mz_fail MZ_ERR_DATA"
    using mz2_large_file_lost [OF a] by fastforce
  have "find_entry [e] [97] = None \<or> find_entry [e] [97] = Some e" by (simp add: find_entry_def)
  then have "mz2_read_file al_ok \<lparr>r_data = w_buf w', r_level = 1, r_flags = 0, r_files = [e]\<rparr> (Some [97]) = mz_fail MZ_ERR_DATA"
    using e(3) by (auto simp: mz2_read_file_def)
  moreover have "mz2_add_file al_ok w (Some [97]) (Some (replicate (2 ^ 24) 7)) (2 ^ 24) 0 = (None, w')"
    using a by (simp add: d_def)
  ultimately show ?thesis using e(1) by blast
qed

lemma parse_entries_wf:
  "parse_entries al n ft = Inr es \<Longrightarrow>
    (\<forall>e \<in> set es. length (fe_name e) = unat (fe_name_len e)) \<and>
    length es = n \<and> sum_list (map (\<lambda>e. 24 + length (fe_name e)) es) \<le> length ft"
proof (induction n arbitrary: ft es)
  case (Suc n)
  define nl where "nl = unat (read_le16 ft)"
  obtain e es' where e: "es = e # es'" "parse_entries al n (drop 22 (drop nl (drop 2 ft))) = Inr es'"
    "fe_name e = take nl (drop 2 ft)" "fe_name_len e = read_le16 ft" "24 + nl \<le> length ft"
    using Suc.prems by (auto simp: Let_def nl_def split: if_splits sum.splits)
  show ?case using Suc.IH [OF e(2)] e by (auto simp: nl_def)
qed simp

text \<open>
  C32. The parser is bounded by its input. Whatever the bytes, an archive that opens yields entries
  whose names have the announced lengths and whose encodings all lie in the file: \<open>22\<close> bytes of
  fields, the length and the name each, after a header, a block header and a count.
\<close>

theorem mz2_open_bounded:
  assumes "mz2_open al (Some p) = Inr r"
  shows "r_data r = p \<and> (\<forall>e \<in> set (r_files r). length (fe_name e) = unat (fe_name_len e)) \<and>
    4 + sum_list (map (\<lambda>e. 24 + length (fe_name e)) (r_files r)) \<le> length p"
proof -
  obtain off where r: "r_data r = p" "\<not> length (drop off p) < 4"
      "parse_entries al (nat (sint (read_le32 (drop off p)))) (drop 4 (drop off p)) = Inr (r_files r)"
    using assms by (auto simp: mz2_open_def Let_def split: if_splits sum.splits)
  show ?thesis using parse_entries_wf [OF r(3)] r(1,2) by auto
qed

theorem mz2_open_bounded_witness:
  "\<exists>r. mz2_open al_ok (Some (archive 6 0 [([97], 1, [5])])) = Inr r \<and> r_files r = [mk_entry ([97], 1, [5]) 0] \<and>
    4 + sum_list (map (\<lambda>e. 24 + length (fe_name e)) (r_files r)) \<le> length (archive 6 0 [([97], 1, [5])])"
proof -
  have ok: "archive_ok [([97], 1, [5])]" by (simp add: archive_ok_def table_size_def)
  obtain r where r: "mz2_open al_ok (Some (archive 6 0 [([97], 1, [5])])) = Inr r" "r_files r = [mk_entry ([97], 1, [5]) 0]"
    using open_archive [OF ok, of 6 0] by auto
  show ?thesis using r mz2_open_bounded [OF r(1)] by blast
qed

section \<open>A solid archive\<close>

definition stream80 :: bytes where "stream80 = [0x6D, 0x5A, 1, 0, 0, 0, 0x81, 0x80, 0x80, 0, 0]"

definition entry80 :: mz_file_entry where
  "entry80 = \<lparr>fe_name = [97], fe_name_len = 1, fe_uid = 0, fe_gid = 0, fe_mode = 0, fe_size = 1,
     fe_offset = 0, fe_csize = 11\<rparr>"

definition solid_archive :: "int \<Rightarrow> bytes" where
  "solid_archive level =
     mz2_header level 1 @ blk MZ_BLOCK_SOLID_START stream80 @ blk MZ_BLOCK_RAW (file_table [entry80])"

lemma solid_add_file:
  assumes "mz2_create al_ok (Some \<lparr>pr_level = level, pr_flags = 1\<rparr>) = Inr w"
  shows "\<exists>w' w''. mz2_add_file al_ok w (Some [97]) (Some [0x80]) 1 0 = (None, w') \<and>
    mz2_finish al_ok w' = (Inr (solid_archive level), w'')"
proof -
  have w: "w = \<lparr>w_buf = mz2_header level 1, w_buf_cap = 4096, w_files = [], w_max_files = 0,
      w_level = level, w_flags = 1, w_solid = None\<rparr>"
    using assms by (auto simp: mz2_create_def split: if_splits)
  obtain s where s: "mz_solid_start al_ok level = Inr s" by (simp add: mz_solid_start_def)
  obtain s' where s': "mz_solid_add s [0x80] = Inr (s', stream80)"
    using solid_add_single [OF s] by (auto simp: stream80_def)
  define w1 where "w1 = w\<lparr>w_max_files := 16, w_solid := Some s'\<rparr>"
  obtain cap where a: "append_block al_ok w1 MZ_BLOCK_SOLID_START stream80 =
      (None, w1\<lparr>w_buf := w_buf w1 @ blk MZ_BLOCK_SOLID_START stream80, w_buf_cap := cap\<rparr>)"
    using append_block_ok by blast
  define w2 where "w2 = w1\<lparr>w_buf := w_buf w1 @ blk MZ_BLOCK_SOLID_START stream80, w_buf_cap := cap,
      w_files := [entry80]\<rparr>"
  have g: "grow_files al_ok w = (None, w\<lparr>w_max_files := 16\<rparr>)" by (simp add: grow_files_def w)
  have "add_solid al_ok (w\<lparr>w_max_files := 16\<rparr>) [0x80] =
      (append_block al_ok w1 MZ_BLOCK_SOLID_START stream80, word_of_nat (length stream80))"
    using s s' by (simp add: add_solid_def w w1_def Let_def)
  then have "add_data al_ok (w\<lparr>w_max_files := 16\<rparr>) (Some [0x80]) 1 =
      ((None, w1\<lparr>w_buf := w_buf w1 @ blk MZ_BLOCK_SOLID_START stream80, w_buf_cap := cap\<rparr>), 11)"
    using a by (simp add: add_data_def w mz2_flags stream80_def)
  then have "mz2_add_file al_ok w (Some [97]) (Some [0x80]) 1 0 = (None, w2)"
    using g by (simp add: mz2_add_file_def Let_def)
      (simp add: w2_def w1_def w entry80_def MZ2_HEADER_LEN_def)
  moreover obtain cap2 where "append_block al_ok w2 MZ_BLOCK_RAW (file_table [entry80]) =
      (None, w2\<lparr>w_buf := w_buf w2 @ blk MZ_BLOCK_RAW (file_table [entry80]), w_buf_cap := cap2\<rparr>)"
    using append_block_ok by blast
  then have "fst (mz2_finish al_ok w2) = Inr (solid_archive level)"
    by (simp add: mz2_finish_def Let_def w2_def w1_def w mz2_flags solid_archive_def)
  ultimately show ?thesis by (metis prod.collapse)
qed

lemma solid_archive_open:
  "\<exists>r. mz2_open al_ok (Some (solid_archive level)) = Inr r \<and> r_data r = solid_archive level \<and> r_files r = [entry80]"
proof -
  let ?h = "mz2_header level 1" and ?ft = "file_table [entry80]"
  have len: "length stream80 = 11" "length ?ft = 29" "length (solid_archive level) = 60"
    by (simp_all add: stream80_def file_table_def length_entry_bytes entry80_def solid_archive_def)
  have "walk_blocks (solid_archive level) 12 0 = walk_blocks (solid_archive level) 27 0"
    using walk_blk [of stream80 ?h MZ_BLOCK_SOLID_START "blk MZ_BLOCK_RAW ?ft" 0] len
    by (simp add: solid_archive_def mz2_consts)
  also have "\<dots> = walk_blocks (solid_archive level) 60 31"
    using walk_blk [of ?ft "?h @ blk MZ_BLOCK_SOLID_START stream80" MZ_BLOCK_RAW "[]" 0] len
    by (simp add: solid_archive_def)
  also have "\<dots> = 31" using walk_end [of "solid_archive level" 31] len by simp
  finally have walk: "walk_blocks (solid_archive level) 12 0 = 31" .
  have ft: "drop 31 (solid_archive level) = ?ft" using len by (simp add: solid_archive_def blk_def)
  have parse: "parse_entries al_ok (Suc 0) (drop 4 ?ft) = Inr [entry80]"
    using parse_table [of "[entry80]" "[]"] by (simp add: file_table_def entry80_def)
  have count: "sint (read_le32 ?ft) = 1" by (simp add: file_table_def read_le32_append)
  have hd: "take 4 (solid_archive level) = MZ2_MAGIC" "solid_archive level ! 4 = MZ2_VERSION"
    by (simp_all add: solid_archive_def mz2_header_def MZ2_MAGIC_def)
  show ?thesis
    using walk ft count parse len hd by (simp add: mz2_open_def Let_def MZ2_HEADER_LEN_def)
qed

lemma solid_archive_read:
  assumes "r_data r = solid_archive level" "r_files r = [entry80]"
  shows "mz2_read_file al_ok r (Some [97]) = \<lparr>ret_code = MZ_OK, ret_out = Some [0]\<rparr>"
proof -
  define rest where "rest = blk MZ_BLOCK_RAW (file_table [entry80])"
  have d: "r_data r ! 12 = 2" "drop 13 (r_data r) = write_be24 11 @ stream80 @ rest" "drop 16 (r_data r) = stream80 @ rest"
    by (simp_all add: assms solid_archive_def blk_def [of _ "[109, 90, 1, 0, 0, 0, 129, 128, 128, 0, 0]"] block_hdr_def rest_def nth_append
        stream80_def MZ_BLOCK_SOLID_START_def)
  have sz: "unat (read_be24 (write_be24 11 @ x)) = 11" for x
    using read_be24_blk [of stream80 x] by (simp add: stream80_def)
  have lz: "mz_decompress_lz77 al_ok (Some stream80) = mz_ok [0]" unfolding stream80_def by (rule lz_decode_single) simp
  have len: "length stream80 = 11" "length (r_data r) = 60"
    by (simp_all add: assms stream80_def file_table_def length_entry_bytes entry80_def solid_archive_def)
  have f: "find_entry (r_files r) [97] = Some entry80" by (simp add: assms find_entry_def entry80_def)
  show ?thesis
    using d sz lz len f
    by (simp add: mz2_read_file_def Let_def mz2_consts read_block_def) (simp add: entry80_def c_int_small)
qed

text \<open>
  A solid archive returns other bytes than it was given. A file of the single byte 0x80 added to
  a solid archive of any level and read back is the single byte 0, and every call on the way succeeds.
\<close>

theorem mz2_solid_corrupts:
  assumes "mz2_create al_ok (Some \<lparr>pr_level = level, pr_flags = MZ_FLAG_SOLID\<rparr>) = Inr w"
  shows "\<exists>w' w'' a r. mz2_add_file al_ok w (Some [97]) (Some [0x80]) 1 0 = (None, w') \<and>
    mz2_finish al_ok w' = (Inr a, w'') \<and> mz2_open al_ok (Some a) = Inr r \<and>
    mz2_read_file al_ok r (Some [97]) = \<lparr>ret_code = MZ_OK, ret_out = Some [0]\<rparr>"
  using solid_add_file [OF assms [unfolded MZ_FLAG_SOLID_def]] solid_archive_open [of level] solid_archive_read
  by metis

theorem mz2_solid_corrupts_witness:
  "\<exists>w w' w'' a r. mz2_create al_ok (Some \<lparr>pr_level = 6, pr_flags = MZ_FLAG_SOLID\<rparr>) = Inr w \<and>
    mz2_add_file al_ok w (Some [97]) (Some [0x80]) 1 0 = (None, w') \<and>
    mz2_finish al_ok w' = (Inr a, w'') \<and> mz2_open al_ok (Some a) = Inr r \<and>
    mz2_read_file al_ok r (Some [97]) = \<lparr>ret_code = MZ_OK, ret_out = Some [0]\<rparr>"
proof -
  obtain w where w: "mz2_create al_ok (Some \<lparr>pr_level = 6, pr_flags = MZ_FLAG_SOLID\<rparr>) = Inr w"
    by (simp add: mz2_create_def mz2_flags)
  then show ?thesis using mz2_solid_corrupts [OF w] by blast
qed

end
