(* ===== verification/Zip.thy ===== *)
theory Zip
  imports Deflate_Stored Checksum Bytes
begin

text \<open>
  The reader of PKZIP archives, \<^verbatim>\<open>container/mz_zip.c\<close>. The offsets that the C code adds in
  \<^verbatim>\<open>uint32_t\<close> are words here and wrap as there. A read outside the buffer is the value None of
  \<open>mz_zip_reader_extract\<close>, as is undefined behaviour of the decoder it calls.
\<close>

definition MZ_ZIP_EOCD_SIG :: u32 where "MZ_ZIP_EOCD_SIG = 0x06054b50"
definition MZ_ZIP_CDIR_SIG :: u32 where "MZ_ZIP_CDIR_SIG = 0x02014b50"
definition MZ_ZIP_LOCAL_SIG :: u32 where "MZ_ZIP_LOCAL_SIG = 0x04034b50"
definition MZ_ZIP_STORED :: u16 where "MZ_ZIP_STORED = 0"
definition MZ_ZIP_DEFLATED :: u16 where "MZ_ZIP_DEFLATED = 8"

text \<open>\<open>ze_name\<close> holds the bytes copied into \<^verbatim>\<open>name[512]\<close>, without the final zero.\<close>

record mz_zip_entry =
  ze_name :: bytes
  ze_crc32 :: u32
  ze_csize :: u32
  ze_usize :: u32
  ze_method :: u16
  ze_offset :: u32

record mz_zip_reader =
  zr_data :: bytes
  zr_entries :: "mz_zip_entry list"

definition rd16 :: "bytes \<Rightarrow> u16" where
  "rd16 p = ucast (p ! 0) OR push_bit 8 (ucast (p ! 1))"

definition rd32 :: "bytes \<Rightarrow> u32" where
  "rd32 p = ucast (p ! 0) OR push_bit 8 (ucast (p ! 1)) OR push_bit 16 (ucast (p ! 2)) OR
     push_bit 24 (ucast (p ! 3))"

text \<open>The backward scan for the end record: \<open>i\<close> is one above the position looked at.\<close>

fun eocd_scan :: "bytes \<Rightarrow> nat \<Rightarrow> nat \<Rightarrow> nat option" where
  "eocd_scan d 0 scan_start = None"
| "eocd_scan d (Suc i) scan_start =
     (if Suc i > scan_start then
        if d ! i = 0x50 \<and> d ! (i + 1) = 0x4b \<and> d ! (i + 2) = 0x05 \<and> d ! (i + 3) = 0x06 then Some i
        else eocd_scan d i scan_start
      else None)"

text \<open>One record of the central directory.\<close>

definition zip_entry :: "bytes \<Rightarrow> nat \<Rightarrow> mz_zip_entry" where
  "zip_entry d pos =
     (let name_len = unat (rd16 (drop (pos + 28) d));
          copy_len = (if name_len < 511 then name_len else 511)
      in \<lparr>ze_name = take copy_len (drop (pos + 46) d), ze_crc32 = rd32 (drop (pos + 16) d),
          ze_csize = rd32 (drop (pos + 20) d), ze_usize = rd32 (drop (pos + 24) d),
          ze_method = rd16 (drop (pos + 10) d), ze_offset = rd32 (drop (pos + 42) d)\<rparr>)"

fun zip_entries :: "nat \<Rightarrow> bytes \<Rightarrow> nat \<Rightarrow> mz_zip_entry list option" where
  "zip_entries 0 d pos = Some []"
| "zip_entries (Suc n) d pos =
     (if pos + 46 > length d then None
      else if rd32 (drop pos d) \<noteq> MZ_ZIP_CDIR_SIG then None
      else
        let name_len = unat (rd16 (drop (pos + 28) d)); extra_len = unat (rd16 (drop (pos + 30) d));
            comment_len = unat (rd16 (drop (pos + 32) d))
        in if pos + 46 + name_len > length d then None
           else case zip_entries n d (pos + (46 + name_len + extra_len + comment_len)) of
                  None \<Rightarrow> None
                | Some es \<Rightarrow> Some (zip_entry d pos # es))"

definition ZIP_READER_SIZE :: nat where "ZIP_READER_SIZE = 32"
definition ZIP_ENTRY_SIZE :: nat where "ZIP_ENTRY_SIZE = 532"

definition mz_zip_reader_open :: "allocator \<Rightarrow> bytes option \<Rightarrow> mz_err + mz_zip_reader" where
  "mz_zip_reader_open al data =
     (case data of
        None \<Rightarrow> Inl MZ_ERR_PARAM
      | Some d \<Rightarrow>
          let len = length d in
          if len < 22 then Inl MZ_ERR_DATA
          else
            (case eocd_scan d (len - 22 + 1) (if len \<ge> 65557 then len - 65557 else 0) of
               None \<Rightarrow> Inl MZ_ERR_DATA
             | Some eocd_pos \<Rightarrow>
                 let total_entries = unat (rd16 (drop (eocd_pos + 10) d));
                     cdir_offset = rd32 (drop (eocd_pos + 16) d);
                     cdir_size = rd32 (drop (eocd_pos + 12) d)
                 in if unat (cdir_offset + cdir_size) > len then Inl MZ_ERR_DATA
                    else if \<not> al ZIP_READER_SIZE then Inl MZ_ERR_MEMORY
                    else if total_entries = 0 then Inr \<lparr>zr_data = d, zr_entries = []\<rparr>
                    else if \<not> al (total_entries * ZIP_ENTRY_SIZE) then Inl MZ_ERR_MEMORY
                    else case zip_entries total_entries d (unat cdir_offset) of
                           None \<Rightarrow> Inl MZ_ERR_DATA
                         | Some es \<Rightarrow> Inr \<lparr>zr_data = d, zr_entries = es\<rparr>))"

definition mz_zip_reader_count :: "mz_zip_reader option \<Rightarrow> int" where
  "mz_zip_reader_count reader = (case reader of None \<Rightarrow> 0 | Some r \<Rightarrow> int (length (zr_entries r)))"

definition mz_zip_reader_entry :: "mz_zip_reader option \<Rightarrow> int \<Rightarrow> mz_zip_entry option" where
  "mz_zip_reader_entry reader idx =
     (case reader of
        None \<Rightarrow> None
      | Some r \<Rightarrow> if idx < 0 \<or> idx \<ge> mz_zip_reader_count (Some r) then None else Some (zr_entries r ! nat idx))"

text \<open>\<^verbatim>\<open>strcmp\<close> sees the entry's name up to its first zero byte; \<open>name\<close> has none.\<close>

fun zip_find_from :: "mz_zip_entry list \<Rightarrow> bytes \<Rightarrow> int \<Rightarrow> int" where
  "zip_find_from [] name i = -1"
| "zip_find_from (e # es) name i =
     (if takeWhile (\<lambda>b. b \<noteq> 0) (ze_name e) = name then i else zip_find_from es name (i + 1))"

definition mz_zip_reader_find :: "mz_zip_reader option \<Rightarrow> bytes option \<Rightarrow> int" where
  "mz_zip_reader_find reader name =
     (case (reader, name) of
        (Some r, Some name) \<Rightarrow> zip_find_from (zr_entries r) name 0
      | _ \<Rightarrow> -1)"

text \<open>\<^verbatim>\<open>memcpy(out, d + off, n)\<close> and the loads of the local header: None outside the buffer.\<close>

definition mem_read :: "bytes \<Rightarrow> nat \<Rightarrow> nat \<Rightarrow> bytes option" where
  "mem_read d off n = (if off + n \<le> length d then Some (take n (drop off d)) else None)"

definition zip_stored :: "allocator \<Rightarrow> mz_zip_entry \<Rightarrow> bytes \<Rightarrow> nat \<Rightarrow> mz_ret option" where
  "zip_stored al e d data_offset =
     (let usize = unat (ze_usize e) in
      if \<not> al (if usize > 0 then usize else 1) then Some (mz_fail MZ_ERR_MEMORY)
      else case mem_read d data_offset usize of
             None \<Rightarrow> None
           | Some out \<Rightarrow> if mz_crc32 out \<noteq> ze_crc32 e then Some (mz_fail MZ_ERR_DATA) else Some (mz_ok out))"

definition zip_deflated :: "nat list \<Rightarrow> allocator \<Rightarrow> mz_zip_entry \<Rightarrow> bytes \<Rightarrow> nat \<Rightarrow> mz_ret option" where
  "zip_deflated sy al e d data_offset =
     (case mz_deflate_decompress sy al (Some (take (unat (ze_csize e)) (drop data_offset d))) of
        None \<Rightarrow> None
      | Some rc \<Rightarrow>
          if ret_code rc \<le> 0 then Some \<lparr>ret_code = ret_code rc, ret_out = None\<rparr>
          else
            let raw = the (ret_out rc) in
            if length raw \<noteq> unat (ze_usize e) then Some (mz_fail MZ_ERR_DATA)
            else if mz_crc32 raw \<noteq> ze_crc32 e then Some (mz_fail MZ_ERR_DATA)
            else Some (mz_ok raw))"

text \<open>The reader, \<^verbatim>\<open>out_data\<close> and \<^verbatim>\<open>out_len\<close> are not null.\<close>

definition mz_zip_reader_extract :: "nat list \<Rightarrow> allocator \<Rightarrow> mz_zip_reader \<Rightarrow> int \<Rightarrow> mz_ret option" where
  "mz_zip_reader_extract sy al reader idx =
     (if idx < 0 \<or> idx \<ge> int (length (zr_entries reader)) then Some (mz_fail MZ_ERR_PARAM)
      else
        let e = zr_entries reader ! nat idx; d = zr_data reader; len = length d in
        if unat (ze_offset e + 30) > len then Some (mz_fail MZ_ERR_DATA)
        else case mem_read d (unat (ze_offset e)) 30 of
          None \<Rightarrow> None
        | Some hdr \<Rightarrow>
            if rd32 hdr \<noteq> MZ_ZIP_LOCAL_SIG then Some (mz_fail MZ_ERR_DATA)
            else
              let name_len = rd16 (drop 26 hdr); extra_len = rd16 (drop 28 hdr);
                  data_offset = unat (ze_offset e + 30 + ucast name_len + ucast extra_len)
              in if data_offset + unat (ze_csize e) > len then Some (mz_fail MZ_ERR_DATA)
                 else if ze_method e = MZ_ZIP_STORED then zip_stored al e d data_offset
                 else if ze_method e = MZ_ZIP_DEFLATED then zip_deflated sy al e d data_offset
                 else Some (mz_fail MZ_ERR_DATA))"

end
