(* ===== verification/Zip_Archive.thy ===== *)
theory Zip_Archive
  imports Zip
begin

text \<open>
  The PKZIP reader against the format: \<open>zip_archive\<close> lays out the files of a single-disk archive as APPNOTE 6.3 describes, and the
  functions of \<open>Zip\<close> open it, count, find and extract. The last section bounds what a hostile
  archive can do.
\<close>

section \<open>The format\<close>

text \<open>
  A file of an archive: its name, the fields of its headers, its contents, the bytes it is kept in
  (the same when stored), the extra fields of its two headers, its comment, and the bytes between its
  body and what follows, such as a data descriptor or padding.
\<close>

record zip_member =
  zm_name :: bytes
  zm_made :: u16
  zm_need :: u16
  zm_flags :: u16
  zm_deflated :: bool
  zm_time :: u16
  zm_date :: u16
  zm_data :: bytes
  zm_body :: bytes
  zm_lextra :: bytes
  zm_gap :: bytes
  zm_cextra :: bytes
  zm_note :: bytes
  zm_iattr :: u16
  zm_eattr :: u32

definition zm_method :: "zip_member \<Rightarrow> u16" where
  "zm_method f = (if zm_deflated f then MZ_ZIP_DEFLATED else MZ_ZIP_STORED)"

definition zip_stamp :: "zip_member \<Rightarrow> bytes" where
  "zip_stamp f = write_le16 (zm_need f) @ write_le16 (zm_flags f) @ write_le16 (zm_method f) @
     write_le16 (zm_time f) @ write_le16 (zm_date f)"

definition zip_sums :: "zip_member \<Rightarrow> bytes" where
  "zip_sums f = write_le32 (mz_crc32 (zm_data f)) @ write_le32 (word_of_nat (length (zm_body f))) @
     write_le32 (word_of_nat (length (zm_data f)))"

text \<open>The sums of a local header are zero when bit 3 of the flags announces a data descriptor.\<close>

definition zip_local :: "zip_member \<Rightarrow> bytes" where
  "zip_local f = write_le32 MZ_ZIP_LOCAL_SIG @ zip_stamp f @
     (if bit (zm_flags f) 3 then replicate 12 0 else zip_sums f) @
     write_le16 (word_of_nat (length (zm_name f))) @ write_le16 (word_of_nat (length (zm_lextra f))) @
     zm_name f @ zm_lextra f @ zm_body f @ zm_gap f"

definition zip_cdir :: "zip_member \<Rightarrow> nat \<Rightarrow> bytes" where
  "zip_cdir f off = write_le32 MZ_ZIP_CDIR_SIG @ write_le16 (zm_made f) @ zip_stamp f @ zip_sums f @
     write_le16 (word_of_nat (length (zm_name f))) @ write_le16 (word_of_nat (length (zm_cextra f))) @
     write_le16 (word_of_nat (length (zm_note f))) @ write_le16 0 @ write_le16 (zm_iattr f) @
     write_le32 (zm_eattr f) @ write_le32 (word_of_nat off) @ zm_name f @ zm_cextra f @ zm_note f"

definition zip_locals :: "zip_member list \<Rightarrow> bytes" where
  "zip_locals fs = concat (map zip_local fs)"

fun zip_cdirs :: "nat \<Rightarrow> zip_member list \<Rightarrow> bytes" where
  "zip_cdirs off [] = []"
| "zip_cdirs off (f # fs) = zip_cdir f off @ zip_cdirs (off + length (zip_local f)) fs"

definition zip_eocd :: "nat \<Rightarrow> nat \<Rightarrow> nat \<Rightarrow> bytes \<Rightarrow> bytes" where
  "zip_eocd n csz off c = write_le32 MZ_ZIP_EOCD_SIG @ write_le16 0 @ write_le16 0 @ write_le16 (word_of_nat n) @
     write_le16 (word_of_nat n) @ write_le32 (word_of_nat csz) @ write_le32 (word_of_nat off) @
     write_le16 (word_of_nat (length c)) @ c"

text \<open>An archive: bytes before the first file (a self-extractor), the files, and the comment.\<close>

record zip_layout =
  zl_pre :: bytes
  zl_files :: "zip_member list"
  zl_comment :: bytes

definition zl_cdirs :: "zip_layout \<Rightarrow> bytes" where
  "zl_cdirs a = zip_cdirs (length (zl_pre a)) (zl_files a)"

definition zl_eocd :: "zip_layout \<Rightarrow> bytes" where
  "zl_eocd a = zip_eocd (length (zl_files a)) (length (zl_cdirs a))
     (length (zl_pre a) + length (zip_locals (zl_files a))) (zl_comment a)"

definition zip_archive :: "zip_layout \<Rightarrow> bytes" where
  "zip_archive a = zl_pre a @ zip_locals (zl_files a) @ zl_cdirs a @ zl_eocd a"

text \<open>
  The reader takes the last signature that leaves room for an end record, so the end record with its
  comment must not hold a second one.
\<close>

definition sig_free :: "bytes \<Rightarrow> bool" where
  "sig_free e = list_all (\<lambda>k. take 4 (drop k e) \<noteq> write_le32 MZ_ZIP_EOCD_SIG) [1..<length e - 21]"

definition zip_member_ok :: "zip_member \<Rightarrow> bool" where
  "zip_member_ok f \<longleftrightarrow> length (zm_name f) < 512 \<and> 0 \<notin> set (zm_name f) \<and> length (zm_data f) < 2 ^ 31 \<and>
     length (zm_lextra f) < 2 ^ 16 \<and> length (zm_cextra f) < 2 ^ 16 \<and> length (zm_note f) < 2 ^ 16"

definition zip_ok :: "zip_layout \<Rightarrow> bool" where
  "zip_ok a \<longleftrightarrow> list_all zip_member_ok (zl_files a) \<and> length (zl_files a) < 2 ^ 16 \<and>
     length (zl_comment a) < 2 ^ 16 \<and> length (zip_archive a) < 2 ^ 32 \<and> sig_free (zl_eocd a)"

text \<open>
  What a body must be for its contents: the contents when stored, else not empty and a stream that
  the decoder of \<open>Deflate\<close> turns into them.
\<close>

definition zip_encodes :: "nat list \<Rightarrow> zip_member \<Rightarrow> bool" where
  "zip_encodes sy f = (if zm_deflated f
     then zm_data f \<noteq> [] \<and> mz_deflate_decompress sy al_ok (Some (zm_body f)) = Some (mz_ok (zm_data f))
     else zm_body f = zm_data f)"

definition mk_zip_entry :: "zip_member \<Rightarrow> nat \<Rightarrow> mz_zip_entry" where
  "mk_zip_entry f off =
     \<lparr>ze_name = zm_name f, ze_crc32 = mz_crc32 (zm_data f), ze_csize = word_of_nat (length (zm_body f)),
       ze_usize = word_of_nat (length (zm_data f)), ze_method = zm_method f, ze_offset = word_of_nat off\<rparr>"

fun mk_zip_entries :: "nat \<Rightarrow> zip_member list \<Rightarrow> mz_zip_entry list" where
  "mk_zip_entries off [] = []"
| "mk_zip_entries off (f # fs) = mk_zip_entry f off # mk_zip_entries (off + length (zip_local f)) fs"

section \<open>Lengths and fields\<close>

lemma rd_le [simp]: "rd16 (write_le16 v @ rest) = v" "rd32 (write_le32 w @ rest) = w"
  using read_le16_append [of v rest] read_le32_append [of w rest]
  by (simp_all add: rd16_def rd32_def read_le16_def read_le32_def)

lemma length_zip_parts [simp]:
  "length (zip_stamp f) = 10" "length (zip_sums f) = 12"
  "length (zip_local f) = 30 + length (zm_name f) + length (zm_lextra f) + length (zm_body f) + length (zm_gap f)"
  "length (zip_cdir f off) = 46 + length (zm_name f) + length (zm_cextra f) + length (zm_note f)"
  "length (zip_eocd n csz off c) = 22 + length c"
  by (simp_all add: zip_stamp_def zip_sums_def zip_local_def zip_cdir_def zip_eocd_def)

lemma zip_locals_simps [simp]:
  "zip_locals [] = []" "zip_locals (f # fs) = zip_local f @ zip_locals fs"
  "zip_locals (fs @ gs) = zip_locals fs @ zip_locals gs"
  by (simp_all add: zip_locals_def)

lemma cdir_read:
  assumes "zip_member_ok f"
  shows "rd32 (zip_cdir f off @ x) = MZ_ZIP_CDIR_SIG"
    "unat (rd16 (drop 28 (zip_cdir f off @ x))) = length (zm_name f)"
    "unat (rd16 (drop 30 (zip_cdir f off @ x))) = length (zm_cextra f)"
    "unat (rd16 (drop 32 (zip_cdir f off @ x))) = length (zm_note f)"
    "zip_entry (zip_cdir f off @ x) 0 = mk_zip_entry f off"
  using assms
  by (simp_all add: zip_cdir_def zip_stamp_def zip_sums_def zip_member_ok_def unat_of_nat zip_entry_def mk_zip_entry_def Let_def)


section \<open>Opening\<close>

lemma zip_entry_drop: "zip_entry d pos = zip_entry (drop pos d) 0"
  by (simp add: zip_entry_def Let_def add.commute)

lemma zip_entries_read:
  assumes "list_all zip_member_ok fs"
  shows "zip_entries (length fs) (pre @ zip_cdirs off fs @ rest) (length pre) = Some (mk_zip_entries off fs)"
  using assms
proof (induction fs arbitrary: pre off)
  case (Cons f fs)
  let ?x = "zip_cdirs (off + length (zip_local f)) fs @ rest"
  let ?d = "pre @ zip_cdir f off @ ?x"
  have ok: "zip_member_ok f" using Cons.prems by simp
  have d: "drop (length pre + k) ?d = drop k (zip_cdir f off @ ?x)" for k by simp
  have e: "zip_entry ?d (length pre) = mk_zip_entry f off"
    using cdir_read(5) [OF ok] by (subst zip_entry_drop) simp
  have "zip_entries (length fs) ((pre @ zip_cdir f off) @ ?x) (length (pre @ zip_cdir f off)) =
      Some (mk_zip_entries (off + length (zip_local f)) fs)"
    using Cons.IH [of "pre @ zip_cdir f off" "off + length (zip_local f)"] Cons.prems by simp
  then have "zip_entries (length fs) ?d (length pre + (46 + length (zm_name f) + length (zm_cextra f) + length (zm_note f))) =
      Some (mk_zip_entries (off + length (zip_local f)) fs)"
    by simp
  then show ?case
    using cdir_read(1-4) [OF ok, of off ?x] e d [of 28] d [of 30] d [of 32]
    by (simp add: Let_def)
qed simp

lemma eocd_sig: "write_le32 MZ_ZIP_EOCD_SIG = [0x50, 0x4b, 0x05, 0x06]"
  by (simp add: write_le32_def MZ_ZIP_EOCD_SIG_def)

lemma take4_sig:
  assumes "k + 4 \<le> length e"
  shows "take 4 (drop k e) = [a, b, c, d] \<longleftrightarrow> e ! k = a \<and> e ! (k + 1) = b \<and> e ! (k + 2) = c \<and> e ! (k + 3) = d"
proof -
  have "take 4 (drop k e) = [e ! k, e ! (k + 1), e ! (k + 2), e ! (k + 3)]"
    using assms by (simp add: numeral_eq_Suc take_Suc_conv_app_nth)
  then show ?thesis by simp
qed

lemma scan_back:
  assumes d: "d = pre @ e" and e: "take 4 e = write_le32 MZ_ZIP_EOCD_SIG" "sig_free e" "22 \<le> length e"
    and j: "j \<le> length e - 22" and s: "s \<le> length pre"
  shows "eocd_scan d (Suc (length pre + j)) s = Some (length pre)"
  using j
proof (induction j)
  case 0
  have "e ! 0 = 0x50 \<and> e ! 1 = 0x4b \<and> e ! 2 = 0x05 \<and> e ! 3 = 0x06"
    using take4_sig [of 0 e "0x50" "0x4b" "0x05" "0x06"] e(1,3) by (simp add: eocd_sig numeral_2_eq_2)
  then show ?case using s by (simp add: d nth_append)
next
  case (Suc j)
  have "take 4 (drop (Suc j) e) \<noteq> [0x50, 0x4b, 0x05, 0x06]"
    using e(2) Suc.prems by (auto simp: sig_free_def list_all_iff eocd_sig)
  then have "\<not> (e ! Suc j = 0x50 \<and> e ! (Suc j + 1) = 0x4b \<and> e ! (Suc j + 2) = 0x05 \<and> e ! (Suc j + 3) = 0x06)"
    using take4_sig [of "Suc j" e "0x50" "0x4b" "0x05" "0x06"] Suc.prems e(3) by simp
  then show ?case using Suc s by (auto simp: d nth_append numeral_eq_Suc)
qed

lemma eocd_at:
  assumes d: "d = pre @ zip_eocd n csz off c" and c: "length c < 2 ^ 16" "sig_free (zip_eocd n csz off c)"
  shows "eocd_scan d (length d - 22 + 1) (if length d \<ge> 65557 then length d - 65557 else 0) = Some (length pre)"
proof -
  let ?s = "if length d \<ge> 65557 then length d - 65557 else 0"
  have sig: "take 4 (zip_eocd n csz off c) = write_le32 MZ_ZIP_EOCD_SIG"
    by (simp add: zip_eocd_def)
  have s: "?s \<le> length pre" using c(1) by (auto simp: d)
  have eq: "length d - 22 + 1 = Suc (length pre + length c)" by (simp add: d)
  show ?thesis
    unfolding eq by (rule scan_back [OF d sig c(2) _ _ s]) simp_all
qed

lemma eocd_read:
  "rd16 (drop 10 (zip_eocd n csz off c)) = word_of_nat n" "rd32 (drop 12 (zip_eocd n csz off c)) = word_of_nat csz"
  "rd32 (drop 16 (zip_eocd n csz off c)) = word_of_nat off"
  by (simp_all add: zip_eocd_def)

text \<open>The reader that opening an archive gives.\<close>

definition zl_reader :: "zip_layout \<Rightarrow> mz_zip_reader" where
  "zl_reader a = \<lparr>zr_data = zip_archive a, zr_entries = mk_zip_entries (length (zl_pre a)) (zl_files a)\<rparr>"

lemma open_zip:
  assumes "zip_ok a"
  shows "mz_zip_reader_open al_ok (Some (zip_archive a)) = Inr (zl_reader a)"
proof -
  define fs where "fs = zl_files a"
  define pre where "pre = zl_pre a @ zip_locals fs @ zl_cdirs a"
  define d where "d = zip_archive a"
  define csz where "csz = length (zl_cdirs a)"
  define off where "off = length (zl_pre a) + length (zip_locals fs)"
  define e where "e = zl_eocd a"
  have e: "e = zip_eocd (length fs) csz off (zl_comment a)" by (simp add: e_def zl_eocd_def fs_def csz_def off_def)
  have d: "d = pre @ e" by (simp add: d_def zip_archive_def pre_def e_def fs_def)
  have ok: "length d < 2 ^ 32" "length fs < 2 ^ 16" "list_all zip_member_ok fs" "length (zl_comment a) < 2 ^ 16" "sig_free e"
    using assms by (auto simp: zip_ok_def d_def fs_def e_def)
  have len: "length d = off + csz + 22 + length (zl_comment a)" "length pre = off + csz"
    by (simp_all add: d e pre_def off_def csz_def)
  have drop: "drop (length pre + k) d = drop k e" for k by (simp add: d)
  have scan: "eocd_scan d (length d - 22 + 1) (if length d \<ge> 65557 then length d - 65557 else 0) = Some (length pre)"
    by (rule eocd_at [OF d [unfolded e] ok(4) ok(5) [unfolded e]])
  have sum: "unat (word_of_nat off + word_of_nat csz :: u32) = off + csz"
    using len(1) ok(1) by (simp add: unat_of_nat flip: of_nat_add)
  have es: "zip_entries (length fs) d off = Some (mk_zip_entries (length (zl_pre a)) fs)"
    using zip_entries_read [OF ok(3), of "zl_pre a @ zip_locals fs" "length (zl_pre a)" e]
    by (simp add: d pre_def off_def zl_cdirs_def fs_def)
  have n: "unat (word_of_nat (length fs) :: u16) = length fs" "unat (word_of_nat off :: u32) = off"
    using ok len by (simp_all add: unat_of_nat)
  have z: "mk_zip_entries (length (zl_pre a)) fs = []" if "fs = []" using that by simp
  show ?thesis
    unfolding d_def [symmetric] mz_zip_reader_open_def option.case Let_def scan zl_reader_def fs_def [symmetric]
    using len sum es n z drop [of 10] drop [of 12] drop [of 16] by (auto simp: eocd_read e)
qed

section \<open>Extracting\<close>

lemma rd_take:
  "k + 2 \<le> n \<Longrightarrow> n \<le> length x \<Longrightarrow> rd16 (drop k (take n x)) = rd16 (drop k x)"
  "4 \<le> n \<Longrightarrow> n \<le> length x \<Longrightarrow> rd32 (take n x) = rd32 x"
  by (simp_all add: rd16_def rd32_def)

lemma local_read:
  "rd32 (take 30 (zip_local f)) = MZ_ZIP_LOCAL_SIG"
  "rd16 (drop 26 (take 30 (zip_local f))) = word_of_nat (length (zm_name f))"
  "rd16 (drop 28 (take 30 (zip_local f))) = word_of_nat (length (zm_lextra f))"
  by (simp_all add: rd_take) (simp_all add: zip_local_def)

lemma length_mk_zip_entries [simp]: "length (mk_zip_entries off fs) = length fs"
  by (induction fs arbitrary: off) auto

lemma nth_mk_zip_entries:
  "mk_zip_entries off (pre @ f # post) ! length pre = mk_zip_entry f (off + length (zip_locals pre))"
  by (induction pre arbitrary: off) (auto simp: add.assoc simp del: length_zip_parts)

lemma zip_deflated_ok:
  assumes "mz_deflate_decompress sy al (Some (take (unat (ze_csize e)) (drop off d))) = Some (mz_ok out)"
    "out \<noteq> []" "length out < 2 ^ 31" "unat (ze_usize e) = length out" "ze_crc32 e = mz_crc32 out"
  shows "zip_deflated sy al e d off = Some (mz_ok out)"
  using assms c_int_pos [of "length out"] by (simp add: zip_deflated_def)

lemma extract_zip:
  assumes ok: "zip_ok a" and fs: "zl_files a = pre @ f # post" and enc: "zip_encodes sy f"
  shows "mz_zip_reader_extract sy al_ok (zl_reader a) (int (length pre)) = Some (mz_ok (zm_data f))"
proof -
  define off where "off = length (zl_pre a) + length (zip_locals pre)"
  define n where "n = length (zm_name f)"
  define x where "x = length (zm_lextra f)"
  define b where "b = zm_body f"
  define d where "d = zip_archive a"
  define rest where "rest = zm_gap f @ zip_locals post @ zl_cdirs a @ zl_eocd a"
  have fok: "n < 512" "x < 2 ^ 16" "length (zm_data f) < 2 ^ 31"
    using ok fs by (simp_all add: zip_ok_def zip_member_ok_def n_def x_def)
  have data: "d = (zl_pre a @ zip_locals pre) @ zip_local f @ zip_locals post @ zl_cdirs a @ zl_eocd a"
    by (simp add: d_def zip_archive_def fs)
  define hd30 where "hd30 = take 30 (zip_local f)"
  have loc: "zip_local f = hd30 @ zm_name f @ zm_lextra f @ b @ zm_gap f" "length hd30 = 30"
    by (simp_all add: hd30_def b_def) (simp add: zip_local_def)
  have data': "d = (zl_pre a @ zip_locals pre) @ hd30 @ zm_name f @ zm_lextra f @ b @ rest"
    by (simp add: data loc(1) rest_def)
  have len: "length d = off + 30 + n + x + length b + length rest"
    by (simp add: data' loc off_def n_def x_def)
  have small: "length d < 2 ^ 32" using ok by (simp add: zip_ok_def d_def)
  define e where "e = zr_entries (zl_reader a) ! length pre"
  have e: "e = mk_zip_entry f off"
    by (simp add: e_def zl_reader_def fs nth_mk_zip_entries off_def del: length_zip_parts)
  have u: "ucast (word_of_nat n :: u16) = (word_of_nat n :: u32)" "ucast (word_of_nat x :: u16) = (word_of_nat x :: u32)"
    using fok by (simp_all add: unsigned_of_nat take_bit_nat_eq_self)
  have ofs: "unat (ze_offset e + 30) = off + 30" "unat (ze_offset e) = off"
    "unat (ze_offset e + 30 + ucast (word_of_nat n :: u16) + ucast (word_of_nat x :: u16)) = off + 30 + n + x"
  proof -
    have w: "ze_offset e + 30 = word_of_nat (off + 30)" "ze_offset e = word_of_nat off"
      "ze_offset e + 30 + ucast (word_of_nat n :: u16) + ucast (word_of_nat x :: u16) = word_of_nat (off + 30 + n + x)"
      by (simp_all add: e mk_zip_entry_def u)
    show "unat (ze_offset e + 30) = off + 30" unfolding w(1) using len small by (simp add: unat_of_nat del: of_nat_add)
    show "unat (ze_offset e) = off" unfolding w(2) using len small by (simp add: unat_of_nat)
    show "unat (ze_offset e + 30 + ucast (word_of_nat n :: u16) + ucast (word_of_nat x :: u16)) = off + 30 + n + x"
      unfolding w(3) using len small by (simp add: unat_of_nat del: of_nat_add)
  qed
  have hdr: "mem_read d off 30 = Some hd30"
    using len loc(2) by (simp add: mem_read_def) (simp add: data' off_def)
  have body: "take (length b) (drop (off + 30 + n + x) d) = b"
    using loc(2) by (simp add: data' off_def n_def x_def)
  have sz: "unat (ze_csize e) = length b" "unat (ze_usize e) = length (zm_data f)" "ze_crc32 e = mz_crc32 (zm_data f)"
    "ze_method e = zm_method f"
    using len small fok by (simp_all add: e mk_zip_entry_def b_def)
  have st: "zip_stored al_ok e d (off + 30 + n + x) = Some (mz_ok (zm_data f))" if "\<not> zm_deflated f"
    using enc that body sz len by (simp add: zip_stored_def mem_read_def zip_encodes_def b_def)
  have de: "zip_deflated sy al_ok e d (off + 30 + n + x) = Some (mz_ok (zm_data f))" if "zm_deflated f"
    using enc that body sz fok by (intro zip_deflated_ok) (simp_all add: zip_encodes_def b_def)
  have idx: "\<not> (int (length pre) < 0 \<or> int (length (zr_entries (zl_reader a))) \<le> int (length pre))"
    by (simp add: zl_reader_def fs)
  show ?thesis
    unfolding mz_zip_reader_extract_def if_not_P [OF idx] Let_def nat_int e_def [symmetric]
    using ofs hdr sz len st de local_read [of f, folded hd30_def n_def x_def]
    by (cases "zm_deflated f") (simp_all add: zl_reader_def zm_method_def MZ_ZIP_STORED_def MZ_ZIP_DEFLATED_def flip: d_def)
qed


section \<open>The reader on archives of the format\<close>

text \<open>The index of the first file of a name, -1 if there is none.\<close>

definition zip_index :: "zip_member list \<Rightarrow> bytes \<Rightarrow> int" where
  "zip_index fs n = (if n \<in> set (map zm_name fs) then int (length (takeWhile (\<lambda>f. zm_name f \<noteq> n) fs)) else -1)"

lemma c_string_id: "0 \<notin> set m \<Longrightarrow> takeWhile (\<lambda>b. b \<noteq> 0) m = m"
  by (auto simp: takeWhile_eq_all_conv)

lemma find_zip:
  assumes "list_all zip_member_ok fs"
  shows "zip_find_from (mk_zip_entries off fs) n i = (if n \<in> set (map zm_name fs) then i + zip_index fs n else -1)"
  using assms
proof (induction fs arbitrary: off i)
  case (Cons f fs)
  have m: "0 \<notin> set (zm_name f)" using Cons.prems by (simp add: zip_member_ok_def)
  show ?case
    using Cons.IH [of "off + length (zip_local f)" "i + 1"] Cons.prems m
    by (auto simp: mk_zip_entry_def zip_index_def c_string_id simp del: length_zip_parts)
qed simp

text \<open>Stored blocks, as \<^verbatim>\<open>mz_deflate_compress\<close> makes them, encode what they hold.\<close>

lemma zip_encodes_blocks:
  "zm_deflated f \<Longrightarrow> zm_data f \<noteq> [] \<Longrightarrow> zm_body f = deflate_out (zm_data f) \<Longrightarrow> zip_encodes sy f"
  using inflate_deflate [of al_ok "zm_data f" sy] by (simp add: zip_encodes_def deflate_fits_def)


text \<open>A stored file with an extra field and a data descriptor, and a deflated one with a comment.\<close>

definition zip_sample :: zip_layout where
  "zip_sample =
     (let f = \<lparr>zm_name = [97], zm_made = 20, zm_need = 20, zm_flags = 8, zm_deflated = False, zm_time = 1,
            zm_date = 2, zm_data = [1, 2], zm_body = [1, 2], zm_lextra = [9, 9, 0, 0], zm_gap = [7, 7, 7],
            zm_cextra = [9, 9, 1, 0, 5], zm_note = [104, 105], zm_iattr = 0, zm_eattr = 0\<rparr>
      in \<lparr>zl_pre = [77, 90], zl_files = [f, f\<lparr>zm_name := [98], zm_flags := 0, zm_deflated := True, zm_data := [3],
            zm_body := deflate_out [3], zm_gap := []\<rparr>], zl_comment = [33, 34, 35]\<rparr>)"

lemma zip_sample_ok: "zip_ok zip_sample"
proof -
  have l: "length (deflate_out [3]) = 6" by (simp add: deflate_out_def length_deflate_blocks)
  have "sig_free (zl_eocd zip_sample)"
    by (simp add: sig_free_def zl_eocd_def eocd_sig zip_eocd_def zl_cdirs_def zip_sample_def l upt_rec write_le16_def write_le32_def MZ_ZIP_EOCD_SIG_def)
  then show ?thesis
    by (simp add: zip_ok_def zip_member_ok_def zip_archive_def zip_sample_def l zl_cdirs_def zl_eocd_def)
qed


lemma extract_cases:
  assumes "mz_zip_reader_extract sy al r i = rc" "rc = None \<or> ret_out (the rc) \<noteq> None"
    "e = zr_entries r ! nat i"
  obtains (hdr) "unat (ze_offset e + 30) \<le> length (zr_data r)" "length (zr_data r) < unat (ze_offset e) + 30" "rc = None"
  | (stored) off where "0 \<le> i" "nat i < length (zr_entries r)" "off + unat (ze_csize e) \<le> length (zr_data r)"
      "ze_method e = MZ_ZIP_STORED" "zip_stored al e (zr_data r) off = rc"
  | (deflated) off where "0 \<le> i" "nat i < length (zr_entries r)" "ze_method e = MZ_ZIP_DEFLATED"
      "zip_deflated sy al e (zr_data r) off = rc"
proof (cases "i < 0 \<or> i \<ge> int (length (zr_entries r))")
  case True
  then show ?thesis using assms(1,2) by (auto simp: mz_zip_reader_extract_def)
next
  case False
  define d where "d = zr_data r"
  have i: "0 \<le> i" "nat i < length (zr_entries r)" using False by auto
  note def = assms(1) [unfolded mz_zip_reader_extract_def, folded assms(3) d_def, unfolded Let_def if_not_P [OF False]]
  show ?thesis
  proof (cases "unat (ze_offset e + 30) > length d")
    case True
    then show ?thesis using def assms(2) by auto
  next
    case in_len: False
    show ?thesis
    proof (cases "mem_read d (unat (ze_offset e)) 30")
      case None
      then show ?thesis using def in_len hdr by (simp add: d_def mem_read_def split: if_splits)
    next
      case (Some h)
      define off where "off = unat (ze_offset e + 30 + ucast (rd16 (drop 26 h)) + ucast (rd16 (drop 28 h)))"
      show ?thesis
        using def in_len Some assms(2) stored [of off] deflated [of off] i
        by (auto simp: simp flip: off_def d_def split: if_splits)
    qed
  qed
qed

lemma zip_stored_some:
  "zip_stored al e d off = Some rc \<Longrightarrow> ret_out rc = Some out \<Longrightarrow> mz_crc32 out = ze_crc32 e \<and> length out = unat (ze_usize e)"
  by (auto simp: zip_stored_def mem_read_def Let_def split: if_splits)

lemma zip_deflated_some:
  "zip_deflated sy al e d off = Some rc \<Longrightarrow> ret_out rc = Some out \<Longrightarrow> mz_crc32 out = ze_crc32 e \<and> length out = unat (ze_usize e)"
  by (auto simp: zip_deflated_def Let_def split: if_splits option.splits)

lemma zip_stored_none: "zip_stored al e d off = None \<Longrightarrow> length d < off + unat (ze_usize e)"
  by (auto simp: zip_stored_def mem_read_def Let_def split: if_splits)

lemma zip_deflated_none: "zip_deflated sy al e d off = None \<Longrightarrow> \<exists>body. mz_deflate_decompress sy al (Some body) = None"
  by (auto simp: zip_deflated_def Let_def split: if_splits option.splits)

text \<open>
  C25. Extraction is checked. Whatever the archive, the bytes that \<^verbatim>\<open>mz_zip_reader_extract\<close> delivers
  have the length and the CRC-32 that the central directory records for the entry.
\<close>

theorem zip_extract_integrity:
  assumes "mz_zip_reader_extract sy al r i = Some rc" "ret_out rc = Some out"
  shows "0 \<le> i \<and> nat i < length (zr_entries r) \<and> mz_crc32 out = ze_crc32 (zr_entries r ! nat i) \<and>
    length out = unat (ze_usize (zr_entries r ! nat i))"
  using assms
proof -
  have "Some rc = None \<or> ret_out (the (Some rc)) \<noteq> None" using assms(2) by simp
  from assms(1) this refl show ?thesis
    by (cases rule: extract_cases) (use assms(2) in \<open>auto dest: zip_stored_some zip_deflated_some\<close>)
qed

theorem zip_extract_integrity_witness:
  "\<exists>r out. mz_zip_reader_extract [] al_ok r 0 = Some (mz_ok out) \<and> mz_crc32 out = ze_crc32 (zr_entries r ! 0) \<and> out = [1, 2]"
proof -
  have "mz_zip_reader_extract [] al_ok (zl_reader zip_sample) 0 = Some (mz_ok [1, 2])"
    using extract_zip [OF zip_sample_ok, of "[]" "zl_files zip_sample ! 0" "[zl_files zip_sample ! 1]" "[]"]
    by (simp add: zip_sample_def zip_encodes_def Let_def)
  then show ?thesis using zip_extract_integrity [of "[]" al_ok "zl_reader zip_sample" 0 "mz_ok [1, 2]" "[1, 2]"] by auto
qed

text \<open>
  Reads outside the archive. Extraction leaves the buffer, or undefined behaviour of the decoder
  aside, only in two ways: the 32-bit sum \<^verbatim>\<open>local_header_offset + 30\<close> wraps, or a stored entry
  announces more uncompressed than compressed bytes; neither is tested, and the second one is
  reached by an archive of 98 bytes (the witness).
\<close>

theorem zip_extract_outside:
  assumes "mz_zip_reader_extract sy al r i = None" "e = zr_entries r ! nat i"
  shows "2 ^ 32 \<le> unat (ze_offset e) + 30 \<or>
    ze_method e = MZ_ZIP_STORED \<and> unat (ze_csize e) < unat (ze_usize e) \<or>
    ze_method e = MZ_ZIP_DEFLATED \<and> (\<exists>body. mz_deflate_decompress sy al (Some body) = None)"
  using assms(1) disjI1 [OF refl] assms(2)
proof (cases rule: extract_cases)
  case hdr
  have "unat (ze_offset e + 30) = unat (ze_offset e) + 30" if "unat (ze_offset e) + 30 < 2 ^ 32"
    using that by (simp add: unat_word_ariths)
  then show ?thesis using hdr by linarith
qed (auto dest: zip_stored_none zip_deflated_none)


text \<open>A stored entry with no compressed and one uncompressed byte; the zero bytes are unused fields.\<close>

definition hostile_zip :: bytes where
  "hostile_zip = write_le32 MZ_ZIP_LOCAL_SIG @ replicate 26 0 @
     write_le32 MZ_ZIP_CDIR_SIG @ replicate 20 0 @ write_le32 100 @ replicate 18 0 @ zip_eocd 1 46 30 []"

lemma hostile_zip_open:
  "\<exists>e. mz_zip_reader_open al_ok (Some hostile_zip) = Inr \<lparr>zr_data = hostile_zip, zr_entries = [e]\<rparr> \<and>
    ze_usize e = 100 \<and> ze_csize e = 0 \<and> ze_offset e = 0 \<and> ze_method e = 0"
proof -
  define l where "l = write_le32 MZ_ZIP_LOCAL_SIG @ replicate 26 0"
  define c where "c = write_le32 MZ_ZIP_CDIR_SIG @ replicate 20 0 @ write_le32 100 @ replicate 18 0"
  have d: "hostile_zip = (l @ c) @ zip_eocd 1 46 30 []" by (simp add: hostile_zip_def l_def c_def)
  have len: "length l = 30" "length c = 46" by (simp_all add: l_def c_def)
  have z: "rd16 (replicate n 0 @ x) = 0" if "2 \<le> n" for n x
    using that by (simp add: rd16_def nth_append)
  have z4: "rd32 (replicate n 0 @ x) = 0" if "4 \<le> n" for n x
    using that by (simp add: rd32_def nth_append)
  have scan: "eocd_scan hostile_zip (length hostile_zip - 22 + 1)
      (if length hostile_zip \<ge> 65557 then length hostile_zip - 65557 else 0) = Some 76"
    using eocd_at [OF d] len by (simp add: sig_free_def)
  have hz: "length hostile_zip = 98" "drop 76 hostile_zip = zip_eocd 1 46 30 []" "drop 30 hostile_zip = c @ zip_eocd 1 46 30 []"
    using len by (simp_all add: d)
  have drop: "drop (m + k) hostile_zip = drop k (drop m hostile_zip)" for m k by (simp add: add.commute)
  have end_rd: "rd16 (drop 86 hostile_zip) = 1" "rd32 (drop 88 hostile_zip) = 46" "rd32 (drop 92 hostile_zip) = 30"
    using drop [of 76 10] drop [of 76 12] drop [of 76 16] eocd_read [of 1 46 30 "[]"] by (simp_all add: hz(2))
  have cd: "rd32 (c @ x) = MZ_ZIP_CDIR_SIG" "rd16 (drop 28 (c @ x)) = 0" "rd16 (drop 30 (c @ x)) = 0"
    "rd16 (drop 32 (c @ x)) = 0" "rd16 (drop 10 (c @ x)) = 0" "rd32 (drop 20 (c @ x)) = 0"
    "rd32 (drop 24 (c @ x)) = 100" "rd32 (drop 42 (c @ x)) = 0" for x
    by (simp_all add: c_def z z4)
  define e where "e = zip_entry hostile_zip 30"
  have "zip_entries 1 hostile_zip 30 = Some [e]"
    using cd drop [of 30 28] drop [of 30 30] drop [of 30 32] hz by (simp add: e_def)
  moreover have "ze_usize e = 100" "ze_csize e = 0" "ze_offset e = 0" "ze_method e = 0"
    unfolding e_def zip_entry_drop [of hostile_zip 30] hz(3) using cd by (simp_all add: zip_entry_def Let_def)
  ultimately show ?thesis
    using scan end_rd by (intro exI [of _ e]) (simp add: mz_zip_reader_open_def Let_def hz(1))
qed

theorem zip_extract_outside_witness:
  "\<exists>r e. mz_zip_reader_open al_ok (Some hostile_zip) = Inr r \<and> mz_zip_reader_extract [] al_ok r 0 = None \<and>
    e = zr_entries r ! 0 \<and> unat (ze_csize e) < unat (ze_usize e)"
proof -
  obtain e where e: "mz_zip_reader_open al_ok (Some hostile_zip) = Inr \<lparr>zr_data = hostile_zip, zr_entries = [e]\<rparr>"
    "ze_usize e = 100" "ze_csize e = 0" "ze_offset e = 0" "ze_method e = 0"
    using hostile_zip_open by blast
  let ?r = "\<lparr>zr_data = hostile_zip, zr_entries = [e]\<rparr>"
  have z: "rd16 (replicate n 0) = 0" if "2 \<le> n" for n using that by (simp add: rd16_def)
  have len: "length hostile_zip = 98" by (simp add: hostile_zip_def)
  have h: "take 30 hostile_zip = write_le32 MZ_ZIP_LOCAL_SIG @ replicate 26 0" by (simp add: hostile_zip_def)
  have "mz_zip_reader_extract [] al_ok ?r 0 = None"
    using e len h by (simp add: mz_zip_reader_extract_def mem_read_def MZ_ZIP_STORED_def zip_stored_def z)
  then show ?thesis
    using zip_extract_outside [of "[]" al_ok ?r 0 e] e by fastforce
qed

end
