(* ===== verification/Chacha.thy ===== *)
theory Chacha
  imports Bytes
begin

text \<open>
  ChaCha20 of \<^verbatim>\<open>crypt/mz_crypt.c\<close>: the IETF variant with a 12-byte nonce. The 16-word state is a
  list; the block counter is its word 12 and wraps at 32 bits, as in the code. The theorems say that
  the cipher is its own inverse, that it is the exclusive or with a key stream of blocks, and where
  that stream repeats.
\<close>

definition rotl32 :: "u32 \<Rightarrow> nat \<Rightarrow> u32" where
  "rotl32 x n = push_bit n x OR drop_bit (32 - n) x"

definition load32_le :: "bytes \<Rightarrow> u32" where
  "load32_le p = ucast (p ! 0) OR push_bit 8 (ucast (p ! 1)) OR push_bit 16 (ucast (p ! 2)) OR
     push_bit 24 (ucast (p ! 3))"

definition store32_le :: "u32 \<Rightarrow> bytes" where
  "store32_le v = [ucast v, ucast (drop_bit 8 v), ucast (drop_bit 16 v), ucast (drop_bit 24 v)]"

definition chacha_quarter_round :: "u32 \<Rightarrow> u32 \<Rightarrow> u32 \<Rightarrow> u32 \<Rightarrow> u32 \<times> u32 \<times> u32 \<times> u32" where
  "chacha_quarter_round a b c d =
     (let a = a + b; d = d XOR a; d = rotl32 d 16;
          c = c + d; b = b XOR c; b = rotl32 b 12;
          a = a + b; d = d XOR a; d = rotl32 d 8;
          c = c + d; b = b XOR c; b = rotl32 b 7
      in (a, b, c, d))"

text \<open>A quarter round on the words of the state at four places.\<close>

definition qr_at :: "nat \<Rightarrow> nat \<Rightarrow> nat \<Rightarrow> nat \<Rightarrow> u32 list \<Rightarrow> u32 list" where
  "qr_at i j k l x =
     (case chacha_quarter_round (x ! i) (x ! j) (x ! k) (x ! l) of
        (a, b, c, d) \<Rightarrow> x[i := a, j := b, k := c, l := d])"

definition chacha_double_round :: "u32 list \<Rightarrow> u32 list" where
  "chacha_double_round x =
     (let x = qr_at 0 4 8 12 x; x = qr_at 1 5 9 13 x; x = qr_at 2 6 10 14 x; x = qr_at 3 7 11 15 x;
          x = qr_at 0 5 10 15 x; x = qr_at 1 6 11 12 x; x = qr_at 2 7 8 13 x; x = qr_at 3 4 9 14 x
      in x)"

definition chacha20_block :: "u32 list \<Rightarrow> bytes" where
  "chacha20_block state =
     (let x = (chacha_double_round ^^ 10) state
      in concat (map (\<lambda>i. store32_le (x ! i + state ! i)) [0..<16]))"

definition chacha_state :: "bytes \<Rightarrow> bytes \<Rightarrow> u64 \<Rightarrow> u32 list" where
  "chacha_state key nonce counter =
     [0x61707865, 0x3320646e, 0x79622d32, 0x6b206574] @
     map (\<lambda>i. load32_le (drop (i * 4) key)) [0..<8] @
     [ucast (counter AND 0xFFFFFFFF), load32_le nonce, load32_le (drop 4 nonce), load32_le (drop 8 nonce)]"

text \<open>The loop; \<^verbatim>\<open>remain\<close> is the 32-bit conversion of what is left, and 0 when that is a multiple of
  \<open>2 ^ 32\<close>: the code then never advances, so the loop is a partial function.\<close>

partial_function (option) chacha_loop :: "u32 list \<Rightarrow> bytes \<Rightarrow> nat \<Rightarrow> bytes option" where
  "chacha_loop state data pos =
     (if pos < length data then
        let keystream = chacha20_block state;
            remain = unat (word_of_nat (length data - pos) :: u32);
            remain = (if remain > 64 then 64 else remain)
        in Option.bind (chacha_loop (state[12 := state ! 12 + 1]) data (pos + remain))
             (\<lambda>rest. Some (map2 (XOR) (take remain (drop pos data)) keystream @ rest))
      else Some [])"

definition mz_chacha20 :: "bytes \<Rightarrow> bytes \<Rightarrow> u64 \<Rightarrow> bytes \<Rightarrow> bytes option" where
  "mz_chacha20 key nonce counter data = chacha_loop (chacha_state key nonce counter) data 0"

text \<open>The definition of \<^verbatim>\<open>mz2_block_encrypt\<close> in this file; the other one is \<open>Core.mz2_block_encrypt\<close>.\<close>

definition block_encrypt :: "bytes option \<Rightarrow> bytes option \<Rightarrow> bytes option \<Rightarrow> (mz_err + bytes) option" where
  "block_encrypt block key nonce =
     (case (block, key, nonce) of
        (Some b, Some k, Some n) \<Rightarrow> map_option Inr (mz_chacha20 k n 0 b)
      | _ \<Rightarrow> Some (Inl MZ_ERR_PARAM))"


section \<open>The key stream\<close>

text \<open>Byte \<open>j\<close> of the stream of a state; a block is 64 bytes.\<close>

definition key_stream :: "u32 list \<Rightarrow> nat \<Rightarrow> u8" where
  "key_stream state j = chacha20_block (state[12 := state ! 12 + word_of_nat (j div 64)]) ! (j mod 64)"

lemma length_block [simp]: "length (chacha20_block state) = 64"
  by (simp add: chacha20_block_def Let_def length_concat store32_le_def o_def sum_list_triv)

lemma length_chacha_state [simp]: "length (chacha_state key nonce counter) = 16"
  by (simp add: chacha_state_def)

lemma key_stream_next:
  assumes "length state = 16"
  shows "key_stream (state[12 := state ! 12 + 1]) j = key_stream state (64 + j)"
  using assms by (simp add: key_stream_def div_add_self1 add.assoc)

lemma map2_xor_stream:
  assumes "k \<le> 64" "pos + k \<le> length data" "length state = 16"
  shows "map2 (XOR) (take k (drop pos data)) (chacha20_block state) =
    map (\<lambda>i. data ! i XOR key_stream state (i - pos)) [pos..<pos + k]"
  using assms by (intro nth_equalityI) (auto simp: key_stream_def)

lemma chacha_loop_stream:
  assumes "length state = 16" "length data - pos < 2 ^ 32"
  shows "chacha_loop state data pos =
    Some (map (\<lambda>i. data ! i XOR key_stream state (i - pos)) [pos..<length data])"
  using assms
proof (induction "length data - pos" arbitrary: state pos rule: less_induct)
  case less
  show ?case
  proof (cases "pos < length data")
    case True
    define k where "k = min 64 (length data - pos)"
    define state' where "state' = state[12 := state ! 12 + 1]"
    have k: "0 < k" "k \<le> 64" "pos + k \<le> length data" using True by (auto simp: k_def)
    have rem: "(if unat (word_of_nat (length data - pos) :: u32) > 64 then 64
        else unat (word_of_nat (length data - pos) :: u32)) = k"
      using less.prems by (simp add: k_def unat_of_nat)
    have "chacha_loop state' data (pos + k) =
        Some (map (\<lambda>i. data ! i XOR key_stream state' (i - (pos + k))) [pos + k..<length data])"
      using less.hyps [of "pos + k" state'] less.prems k by (simp add: state'_def)
    also have "map (\<lambda>i. data ! i XOR key_stream state' (i - (pos + k))) [pos + k..<length data] =
        map (\<lambda>i. data ! i XOR key_stream state (i - pos)) [pos + k..<length data]"
    proof (intro map_cong refl)
      fix i assume "i \<in> set [pos + k..<length data]"
      then have "k = 64" "64 + (i - (pos + k)) = i - pos" by (auto simp: k_def min_def split: if_splits)
      then show "data ! i XOR key_stream state' (i - (pos + k)) = data ! i XOR key_stream state (i - pos)"
        using key_stream_next [OF less.prems(1)] by (simp add: state'_def)
    qed
    finally have rest: "chacha_loop state' data (pos + k) =
        Some (map (\<lambda>i. data ! i XOR key_stream state (i - pos)) [pos + k..<length data])" .
    have "[pos..<length data] = [pos..<pos + k] @ [pos + k..<length data]"
      using k upt_add_eq_append [of pos "pos + k" "length data - (pos + k)"] by simp
    then show ?thesis
      using True rest map2_xor_stream [OF k(2,3) less.prems(1)]
      by (subst chacha_loop.simps) (simp only: Let_def rem if_True flip: state'_def, simp)
  next
    case False
    then show ?thesis by (subst chacha_loop.simps) simp
  qed
qed

text \<open>From 4 GiB on the conversion of the remaining length reaches 0 and the loop does not advance.\<close>

lemma chacha_loop_some:
  assumes "chacha_loop state data pos = Some out"
  shows "length data - pos < 2 ^ 32"
proof (rule chacha_loop.raw_induct [where P = "\<lambda>s d p r. length d - p < 2 ^ 32", OF _ assms])
  fix loop :: "u32 list \<Rightarrow> bytes \<Rightarrow> nat \<Rightarrow> bytes option" and state :: "u32 list" and data :: bytes and pos out
  assume ih: "\<And>s d p r. loop s d p = Some r \<Longrightarrow> length (d :: bytes) - p < 2 ^ 32"
  define r where "r = unat (word_of_nat (length data - pos) :: u32)"
  define k where "k = (if r > 64 then 64 else r)"
  assume step: "(if pos < length data then
      let keystream = chacha20_block state; remain = unat (word_of_nat (length data - pos) :: u32);
          remain = (if remain > 64 then 64 else remain)
      in Option.bind (loop (state[12 := state ! 12 + 1]) data (pos + remain))
           (\<lambda>rest. Some (map2 (XOR) (take remain (drop pos data)) keystream @ rest))
    else Some []) = Some out"
  note step' = step [unfolded Let_def, folded r_def, folded k_def]
  show "length data - pos < 2 ^ 32"
  proof (rule ccontr)
    assume big: "\<not> length data - pos < 2 ^ 32"
    have r: "r = (length data - pos) mod 2 ^ 32" by (simp add: r_def unat_of_nat)
    obtain rest where "loop (state[12 := state ! 12 + 1]) data (pos + k) = Some rest"
      using step' big by (cases "pos < length data") (auto simp: bind_eq_Some_conv)
    then have "length data - (pos + k) < 2 ^ 32" by (rule ih)
    moreover have "k \<le> (length data - pos) mod 2 ^ 32" by (simp add: k_def r)
    moreover have "(length data - pos) mod 2 ^ 32 \<le> length data - pos - 2 ^ 32"
      using big mod_less_eq_dividend [of "length data - pos - 2 ^ 32" "2 ^ 32"] by (simp add: le_mod_geq)
    ultimately show False using big by linarith
  qed
qed

section \<open>Properties\<close>

lemma mz_chacha20_stream:
  "length data < 2 ^ 32 \<Longrightarrow> mz_chacha20 key nonce counter data =
    Some (map (\<lambda>i. data ! i XOR key_stream (chacha_state key nonce counter) i) [0..<length data])"
  using chacha_loop_stream [of "chacha_state key nonce counter" data 0] by (simp add: mz_chacha20_def)

lemma chacha_inverse:
  assumes "length data < 2 ^ 32"
  obtains out where "mz_chacha20 key nonce counter data = Some out" "length out = length data"
    "mz_chacha20 key nonce counter out = Some data"
proof -
  let ?ks = "key_stream (chacha_state key nonce counter)"
  define out where "out = map (\<lambda>i. data ! i XOR ?ks i) [0..<length data]"
  have len: "length out = length data" by (simp add: out_def)
  have "map (\<lambda>i. out ! i XOR ?ks i) [0..<length out] = map (\<lambda>i. data ! i) [0..<length data]"
    unfolding len by (intro map_cong refl) (simp add: out_def xor.assoc)
  then have "mz_chacha20 key nonce counter out = Some data"
    using mz_chacha20_stream [of out key nonce counter] assms len by (simp add: map_nth)
  then show ?thesis
    using that [of out] mz_chacha20_stream [OF assms] len by (simp add: out_def)
qed

text \<open>
  C30. ChaCha20 is its own inverse. Below 4 GiB \<^verbatim>\<open>mz_chacha20\<close> returns, byte \<open>i\<close> of its output is byte
  \<open>i\<close> of the input XOR byte \<open>i mod 64\<close> of the key-stream block of counter \<open>counter + i div 64\<close>
  (modulo \<open>2 ^ 32\<close>), and applying it again with the same key, nonce and counter restores the input.
\<close>

theorem chacha20_involution:
  assumes "length data < 2 ^ 32"
  shows "\<exists>out. mz_chacha20 key nonce counter data = Some out \<and> length out = length data \<and>
    (\<forall>i < length data. out ! i = data ! i XOR
       chacha20_block ((chacha_state key nonce counter)
         [12 := ucast (counter AND 0xFFFFFFFF) + word_of_nat (i div 64)]) ! (i mod 64)) \<and>
    mz_chacha20 key nonce counter out = Some data"
proof -
  obtain out where out: "mz_chacha20 key nonce counter data = Some out" "length out = length data"
    "mz_chacha20 key nonce counter out = Some data"
    using chacha_inverse [OF assms] by blast
  moreover have "chacha_state key nonce counter ! 12 = ucast (counter AND 0xFFFFFFFF)"
    by (simp add: chacha_state_def nth_append)
  moreover have "out ! i = data ! i XOR key_stream (chacha_state key nonce counter) i" if "i < length data" for i
    using out(1) that unfolding mz_chacha20_stream [OF assms] by auto
  ultimately show ?thesis by (intro exI [of _ out]) (simp add: key_stream_def)
qed

theorem chacha20_involution_witness:
  "\<exists>out. mz_chacha20 (replicate 32 1) (replicate 12 2) 0xFFFFFFFF [3, 4, 5] = Some out \<and>
    mz_chacha20 (replicate 32 1) (replicate 12 2) 0xFFFFFFFF out = Some [3, 4, 5]"
  using chacha20_involution [of "[3, 4, 5]" "replicate 32 1" "replicate 12 2" "0xFFFFFFFF"] by auto

text \<open>
  C31. Termination of ChaCha20. \<^verbatim>\<open>mz_chacha20\<close> returns exactly for inputs below 4 GiB: on a longer
  input the 32-bit \<^verbatim>\<open>remain\<close> becomes 0 and the loop runs forever without advancing.
\<close>

theorem chacha20_terminates_iff:
  "(\<exists>out. mz_chacha20 key nonce counter data = Some out) \<longleftrightarrow> length data < 2 ^ 32"
proof
  assume "\<exists>out. mz_chacha20 key nonce counter data = Some out"
  then show "length data < 2 ^ 32" using chacha_loop_some [of _ data 0] by (auto simp: mz_chacha20_def)
qed (simp add: mz_chacha20_stream)

text \<open>The quarter round of RFC 8439, section 2.1.1.\<close>

lemma quarter_round_rfc8439:
  "chacha_quarter_round 0x11111111 0x01020304 0x9b8d6f43 0x01234567 =
    (0xea2a92f4, 0xcb1cf8ce, 0x4581472e, 0x5881c4bb)"
  by (simp add: chacha_quarter_round_def rotl32_def)

end
