(* ===== verification/Fips180.thy ===== *)
theory Fips180
  imports Complex_Main Prelude
begin

text \<open>
  The hash function SHA-512 as FIPS 180-4 defines it, independent of the code: the constants by the roots
  of the first primes, the message schedule by its recurrence, the working variables as an 8-tuple, the
  padding, and the chain over the blocks of the padded message.
\<close>

section \<open>Constants\<close>

text \<open>The first eighty primes.\<close>

definition is_prime :: "nat \<Rightarrow> bool" where
  "is_prime p \<longleftrightarrow> 1 < p \<and> (\<forall>d. d dvd p \<longrightarrow> d = 1 \<or> d = p)"

definition fips_primes :: "nat list" where
  "fips_primes = sorted_list_of_set {p. is_prime p \<and> p < 410}"

text \<open>The first 64 bits of the fractional part of a real number.\<close>

definition fraction64 :: "real \<Rightarrow> u64" where
  "fraction64 x = word_of_int \<lfloor>x * 2 ^ 64\<rfloor>"

definition fips_K :: "nat \<Rightarrow> u64" where
  "fips_K t = fraction64 (root 3 (real (fips_primes ! t)))"

section \<open>Functions and schedule\<close>

definition fips_Ch :: "u64 \<Rightarrow> u64 \<Rightarrow> u64 \<Rightarrow> u64" where
  "fips_Ch x y z = (x AND y) XOR (NOT x AND z)"

definition fips_Maj :: "u64 \<Rightarrow> u64 \<Rightarrow> u64 \<Rightarrow> u64" where
  "fips_Maj x y z = (x AND y) XOR (x AND z) XOR (y AND z)"

definition fips_Sigma0 :: "u64 \<Rightarrow> u64" where
  "fips_Sigma0 x = word_rotr 28 x XOR word_rotr 34 x XOR word_rotr 39 x"

definition fips_Sigma1 :: "u64 \<Rightarrow> u64" where
  "fips_Sigma1 x = word_rotr 14 x XOR word_rotr 18 x XOR word_rotr 41 x"

definition fips_sigma0 :: "u64 \<Rightarrow> u64" where
  "fips_sigma0 x = word_rotr 1 x XOR word_rotr 8 x XOR drop_bit 7 x"

definition fips_sigma1 :: "u64 \<Rightarrow> u64" where
  "fips_sigma1 x = word_rotr 19 x XOR word_rotr 61 x XOR drop_bit 6 x"

text \<open>The number of a byte string, big end first, and the words of a block.\<close>

definition be_number :: "bytes \<Rightarrow> nat" where
  "be_number bs = foldl (\<lambda>v b. 256 * v + unat b) 0 bs"

definition fips_M :: "bytes \<Rightarrow> nat \<Rightarrow> u64" where
  "fips_M block t = word_of_nat (be_number (take 8 (drop (8 * t) block)))"

fun fips_W :: "bytes \<Rightarrow> nat \<Rightarrow> u64" where
  "fips_W block t =
     (if t < 16 then fips_M block t
      else fips_sigma1 (fips_W block (t - 2)) + fips_W block (t - 7) + fips_sigma0 (fips_W block (t - 15)) +
        fips_W block (t - 16))"

declare fips_W.simps [simp del]

section \<open>Hash computation\<close>

type_synonym fips_state = "u64 \<times> u64 \<times> u64 \<times> u64 \<times> u64 \<times> u64 \<times> u64 \<times> u64"

fun fips_round :: "u64 \<Rightarrow> u64 \<Rightarrow> fips_state \<Rightarrow> fips_state" where
  "fips_round k w (a, b, c, d, e, f, g, h) =
     (let T1 = h + fips_Sigma1 e + fips_Ch e f g + k + w;
          T2 = fips_Sigma0 a + fips_Maj a b c
      in (T1 + T2, a, b, c, d + T1, e, f, g))"

primrec fips_rounds :: "bytes \<Rightarrow> nat \<Rightarrow> fips_state \<Rightarrow> fips_state" where
  "fips_rounds block 0 s = s"
| "fips_rounds block (Suc t) s = fips_round (fips_K t) (fips_W block t) (fips_rounds block t s)"

fun fips_add :: "fips_state \<Rightarrow> fips_state \<Rightarrow> fips_state" where
  "fips_add (a, b, c, d, e, f, g, h) (a', b', c', d', e', f', g', h') =
     (a + a', b + b', c + c', d + d', e + e', f + f', g + g', h + h')"

definition fips_compress :: "bytes \<Rightarrow> fips_state \<Rightarrow> fips_state" where
  "fips_compress block H = fips_add (fips_rounds block 80 H) H"

text \<open>The initial value: the square roots of the first eight primes.\<close>

definition fips_H0 :: fips_state where
  "fips_H0 =
     (let r = (\<lambda>p :: nat. fraction64 (sqrt (real p))) in (r 2, r 3, r 5, r 7, r 11, r 13, r 17, r 19))"

text \<open>A number in \<open>k\<close> bytes, big end first; the padding: a one bit, zero bits, the length in bits.\<close>

definition be_bytes :: "nat \<Rightarrow> nat \<Rightarrow> bytes" where
  "be_bytes k v = map (\<lambda>i. word_of_nat (v div 256 ^ (k - 1 - i))) [0..<k]"

definition fips_padding :: "nat \<Rightarrow> bytes" where
  "fips_padding n = 0x80 # replicate ((239 - n mod 128) mod 128) 0 @ be_bytes 16 (8 * n)"

primrec fips_chain :: "nat \<Rightarrow> bytes \<Rightarrow> fips_state" where
  "fips_chain 0 m = fips_H0"
| "fips_chain (Suc i) m = fips_compress (take 128 (drop (128 * i) m)) (fips_chain i m)"

fun fips_digest :: "fips_state \<Rightarrow> bytes" where
  "fips_digest (a, b, c, d, e, f, g, h) = concat (map (\<lambda>w. be_bytes 8 (unat w)) [a, b, c, d, e, f, g, h])"

definition fips_sha512 :: "bytes \<Rightarrow> bytes" where
  "fips_sha512 m = (let p = m @ fips_padding (length m) in fips_digest (fips_chain (length p div 128) p))"

section \<open>Values of the constants\<close>

lemma fraction64_root:
  assumes "0 < k" "z ^ k \<le> p * (2 ^ 64) ^ k" "p * (2 ^ 64) ^ k < (z + 1) ^ k"
  shows "fraction64 (root k (real p)) = word_of_nat z"
proof -
  have x: "root k (real p) * 2 ^ 64 = root k (real (p * (2 ^ 64) ^ k))"
    using assms(1) by (simp add: real_root_mult real_root_power_cancel)
  have z: "root k (real (z ^ k)) = real z" "root k (real ((z + 1) ^ k)) = real (z + 1)"
    using assms(1) by (simp_all only: of_nat_power real_root_power_cancel of_nat_0_le_iff)
  have "root k (real (z ^ k)) \<le> root k (real (p * (2 ^ 64) ^ k))"
    using assms(1,2) by (simp only: real_root_le_iff of_nat_le_iff)
  moreover have "root k (real (p * (2 ^ 64) ^ k)) < root k (real ((z + 1) ^ k))"
    using assms(1,3) by (simp only: real_root_less_iff of_nat_less_iff)
  ultimately have "\<lfloor>root k (real p) * 2 ^ 64\<rfloor> = int z"
    unfolding x z by (intro floor_unique) simp_all
  then show ?thesis by (simp add: fraction64_def)
qed

text \<open>A checker for the number: the integer part of the root and the 64 bits behind it.\<close>

definition root_bits :: "nat \<Rightarrow> nat \<Rightarrow> nat \<Rightarrow> nat \<Rightarrow> bool" where
  "root_bits k p n r \<longleftrightarrow>
     (let z = n * 2 ^ 64 + r in z ^ k \<le> p * (2 ^ 64) ^ k \<and> p * (2 ^ 64) ^ k < (z + 1) ^ k)"

lemma root_bitsD:
  assumes "root_bits k p n r" "0 < k"
  shows "fraction64 (root k (real p)) = word_of_nat r"
proof -
  have "fraction64 (root k (real p)) = word_of_nat (n * 2 ^ 64 + r)"
    using assms by (intro fraction64_root) (simp_all add: root_bits_def Let_def)
  also have "\<dots> = (word_of_nat r :: u64)" by (rule word_of_nat_eq_iff [THEN iffD2]) (simp add: take_bit_eq_mod)
  finally show ?thesis .
qed

text \<open>Below 441 a number without a proper divisor up to 20 is prime.\<close>

definition no_small_divisor :: "int \<Rightarrow> bool" where
  "no_small_divisor p \<longleftrightarrow> list_all (\<lambda>d. p mod d \<noteq> 0 \<or> p = d) [2, 3, 4, 5, 6, 7, 8, 9, 10, 11, 12, 13, 14, 15, 16, 17, 18, 19, 20]"

lemma small_divisor_iff: "no_small_divisor p \<longleftrightarrow> (\<forall>d. 2 \<le> d \<and> d \<le> 20 \<longrightarrow> p mod d \<noteq> 0 \<or> p = d)"
proof -
  have "[2..20] = [2, 3, 4, 5, 6, 7, 8, 9, 10, 11, 12, 13, 14, 15, 16, 17, 18, 19, 20]" by (simp add: upto.simps)
  then have "set [2, 3, 4, 5, 6, 7, 8, 9, 10, 11, 12, 13, 14, 15, 16, 17, 18, 19, 20] = {2..20 :: int}" using set_upto [of 2 20] by simp
  then show ?thesis unfolding no_small_divisor_def list_all_iff Ball_def by (simp only: atLeastAtMost_iff)
qed

lemma prime_small_divisors:
  assumes "1 < p" "p < 410"
  shows "is_prime p \<longleftrightarrow> no_small_divisor (int p)"
proof
  assume "is_prime p"
  then have d: "d = 1 \<or> d = p" if "d dvd p" for d using that by (simp add: is_prime_def)
  have "int p mod d \<noteq> 0 \<or> int p = d" if "2 \<le> d" for d
  proof -
    have "nat d = 1 \<or> nat d = p" if "int p mod d = 0"
    proof -
      have "int (nat d) dvd int p" using that \<open>2 \<le> d\<close> by (simp add: dvd_eq_mod_eq_0)
      then show ?thesis using d by (simp only: int_dvd_int_iff)
    qed
    then show ?thesis using that by auto
  qed
  then show "no_small_divisor (int p)" by (simp add: small_divisor_iff)
next
  assume small: "no_small_divisor (int p)"
  have "d = 1 \<or> d = p" if "d dvd p" for d
  proof (rule ccontr)
    assume no: "\<not> (d = 1 \<or> d = p)"
    from that obtain e where e: "p = d * e" by (rule dvdE)
    then have "d \<noteq> 0" "e \<noteq> 0" "e \<noteq> 1" using no assms(1) by (auto intro: Nat.gr0I)
    then have ge: "2 \<le> d" "2 \<le> e" using no by auto
    have few: "d \<le> 20 \<or> e \<le> 20"
    proof (rule ccontr)
      assume "\<not> (d \<le> 20 \<or> e \<le> 20)"
      then have "21 * 21 \<le> d * e" by (intro mult_le_mono) auto
      then show False using e assms(2) by simp
    qed
    have small': "x = p" if "2 \<le> x" "x \<le> 20" "x dvd p" for x
    proof -
      have "int p mod int x = 0" using that(3) by (auto elim!: dvdE)
      moreover have "2 \<le> int x" "int x \<le> 20" using that(1,2) by simp_all
      ultimately have "int p = int x" using spec [OF small [unfolded small_divisor_iff], of "int x"] by (simp only: simp_thms)
      then show ?thesis by simp
    qed
    from few show False
    proof
      assume "d \<le> 20"
      then show False using small' [of d] ge no that by simp
    next
      assume "e \<le> 20"
      then have "e = p" using small' [of e] ge e by simp
      then show False using e ge by simp
    qed
  qed
  then show "is_prime p" using assms(1) by (simp add: is_prime_def)
qed

lemma primes_to_50: "filter no_small_divisor [2..50] = [2, 3, 5, 7, 11, 13, 17, 19, 23, 29, 31, 37, 41, 43, 47]"
  by code_simp

lemma primes_to_100: "filter no_small_divisor [51..100] = [53, 59, 61, 67, 71, 73, 79, 83, 89, 97]"
  by code_simp

lemma primes_to_150: "filter no_small_divisor [101..150] = [101, 103, 107, 109, 113, 127, 131, 137, 139, 149]"
  by code_simp

lemma primes_to_200: "filter no_small_divisor [151..200] = [151, 157, 163, 167, 173, 179, 181, 191, 193, 197, 199]"
  by code_simp

lemma primes_to_250: "filter no_small_divisor [201..250] = [211, 223, 227, 229, 233, 239, 241]"
  by code_simp

lemma primes_to_300: "filter no_small_divisor [251..300] = [251, 257, 263, 269, 271, 277, 281, 283, 293]"
  by code_simp

lemma primes_to_350: "filter no_small_divisor [301..350] = [307, 311, 313, 317, 331, 337, 347, 349]"
  by code_simp

lemma primes_to_409: "filter no_small_divisor [351..409] = [353, 359, 367, 373, 379, 383, 389, 397, 401, 409]"
  by code_simp

lemmas small_primes_parts = primes_to_50 primes_to_100 primes_to_150 primes_to_200 primes_to_250 primes_to_300 primes_to_350 primes_to_409

lemma small_primes: "filter no_small_divisor [2..409] =
    [2, 3, 5, 7, 11, 13, 17, 19, 23, 29, 31, 37, 41, 43, 47, 53, 59, 61, 67, 71, 73, 79, 83, 89, 97, 101, 103, 107,
    109, 113, 127, 131, 137, 139, 149, 151, 157, 163, 167, 173, 179, 181, 191, 193, 197, 199, 211, 223, 227, 229,
    233, 239, 241, 251, 257, 263, 269, 271, 277, 281, 283, 293, 307, 311, 313, 317, 331, 337, 347, 349, 353, 359,
    367, 373, 379, 383, 389, 397, 401, 409]"
proof -
  have "[2..409] = [2..50] @ [51..100] @ [101..150] @ [151..200] @ [201..250] @ [251..300] @ [301..350] @ [351..409 :: int]"
    using upto_split2 [of 2 50 409] upto_split2 [of 51 100 409] upto_split2 [of 101 150 409] upto_split2 [of 151 200 409]
      upto_split2 [of 201 250 409] upto_split2 [of 251 300 409] upto_split2 [of 301 350 409]
    by (simp del: upto_rec_numeral)
  then show ?thesis by (simp only: filter_append small_primes_parts append.simps)
qed

lemma sorted_map_nat: "sorted xs \<Longrightarrow> distinct xs \<Longrightarrow> \<forall>x\<in>set xs. 0 \<le> x \<Longrightarrow> sorted (map nat xs) \<and> distinct (map nat xs)"
  by (auto simp: distinct_map inj_on_def eq_nat_nat_iff sorted_map intro: sorted_wrt_mono_rel [of xs "(\<le>)"])

lemma fips_primes_eq:
  "fips_primes =
    [2, 3, 5, 7, 11, 13, 17, 19, 23, 29, 31, 37, 41, 43, 47, 53, 59, 61, 67, 71, 73, 79, 83, 89, 97, 101, 103, 107,
    109, 113, 127, 131, 137, 139, 149, 151, 157, 163, 167, 173, 179, 181, 191, 193, 197, 199, 211, 223, 227, 229,
    233, 239, 241, 251, 257, 263, 269, 271, 277, 281, 283, 293, 307, 311, 313, 317, 331, 337, 347, 349, 353, 359,
    367, 373, 379, 383, 389, 397, 401, 409]" (is "_ = ?L")
proof -
  have L: "?L = map nat (filter no_small_divisor [2..409])" unfolding small_primes by simp
  have "{p. is_prime p \<and> p < 410} = set ?L"
  proof -
    have "{p. is_prime p \<and> p < 410} = nat ` {z. 2 \<le> z \<and> z \<le> 409 \<and> no_small_divisor z}" (is "?A = ?B")
    proof (intro equalityI subsetI)
      fix p
      assume "p \<in> ?A"
      then have p: "1 < p" "p < 410" "is_prime p" by (auto simp: is_prime_def)
      then have "int p \<in> {z. 2 \<le> z \<and> z \<le> 409 \<and> no_small_divisor z}" using prime_small_divisors [OF p(1,2)] by simp
      then show "p \<in> ?B" by (intro image_eqI [of _ _ "int p"]) simp_all
    next
      fix p
      assume "p \<in> ?B"
      then obtain z where z: "p = nat z" "2 \<le> z" "z \<le> 409" "no_small_divisor z" by auto
      then show "p \<in> ?A" using prime_small_divisors [of p] by simp
    qed
    also have "{z. 2 \<le> z \<and> z \<le> 409 \<and> no_small_divisor z} = set (filter no_small_divisor [2..409])"
      unfolding set_filter set_upto by auto
    finally show ?thesis unfolding L set_map .
  qed
  moreover note L
  moreover have "sorted (map nat (filter no_small_divisor [2..409])) \<and> distinct (map nat (filter no_small_divisor [2..409]))"
  proof (rule sorted_map_nat)
    show "sorted (filter no_small_divisor [2..409])" by (intro sorted_wrt_filter sorted_upto)
    show "distinct (filter no_small_divisor [2..409])" by (intro distinct_filter distinct_upto)
    show "\<forall>x\<in>set (filter no_small_divisor [2..409]). 0 \<le> x" unfolding set_filter set_upto by auto
  qed
  ultimately show ?thesis unfolding fips_primes_def by (metis sorted_list_of_set.idem_if_sorted_distinct)
qed

definition cube_floor :: "nat \<Rightarrow> nat" where
  "cube_floor p =
     (if p < 8 then 1 else if p < 27 then 2 else if p < 64 then 3 else if p < 125 then 4 else if p < 216 then 5
      else if p < 343 then 6 else 7)"

text \<open>The test for cube roots with two products.\<close>

definition cube_bits :: "nat \<Rightarrow> nat \<Rightarrow> nat \<Rightarrow> bool" where
  "cube_bits p n r \<longleftrightarrow>
     (let z = n * 2 ^ 64 + r; a = z * z; b = a * z; c = p * 2 ^ 192 in b \<le> c \<and> c < b + 3 * a + 3 * z + 1)"

lemma cube_bits_root: "cube_bits p n r \<Longrightarrow> root_bits 3 p n r"
  by (simp add: cube_bits_def root_bits_def Let_def power3_eq_cube algebra_simps)

end
