(* ===== verification/Sha512.thy ===== *)
theory Sha512
  imports Bytes Fips180
begin

text \<open>
  SHA-512 of \<^verbatim>\<open>crypt/mz_crypt.c\<close>: the compression function and the incremental interface with its
  128-byte buffer. The contract \<open>stream_hash\<close> says what an incremental hash promises; the context
  stands for the message absorbed so far (\<open>sha_repr\<close>).
\<close>

definition SHA512_BLOCK_SIZE :: nat where "SHA512_BLOCK_SIZE = 128"

definition sha512_K :: "u64 list" where
  "sha512_K =
    [0x428A2F98D728AE22, 0x7137449123EF65CD, 0xB5C0FBCFEC4D3B2F, 0xE9B5DBA58189DBBC,
     0x3956C25BF348B538, 0x59F111F1B605D019, 0x923F82A4AF194F9B, 0xAB1C5ED5DA6D8118,
     0xD807AA98A3030242, 0x12835B0145706FBE, 0x243185BE4EE4B28C, 0x550C7DC3D5FFB4E2,
     0x72BE5D74F27B896F, 0x80DEB1FE3B1696B1, 0x9BDC06A725C71235, 0xC19BF174CF692694,
     0xE49B69C19EF14AD2, 0xEFBE4786384F25E3, 0x0FC19DC68B8CD5B5, 0x240CA1CC77AC9C65,
     0x2DE92C6F592B0275, 0x4A7484AA6EA6E483, 0x5CB0A9DCBD41FBD4, 0x76F988DA831153B5,
     0x983E5152EE66DFAB, 0xA831C66D2DB43210, 0xB00327C898FB213F, 0xBF597FC7BEEF0EE4,
     0xC6E00BF33DA88FC2, 0xD5A79147930AA725, 0x06CA6351E003826F, 0x142929670A0E6E70,
     0x27B70A8546D22FFC, 0x2E1B21385C26C926, 0x4D2C6DFC5AC42AED, 0x53380D139D95B3DF,
     0x650A73548BAF63DE, 0x766A0ABB3C77B2A8, 0x81C2C92E47EDAEE6, 0x92722C851482353B,
     0xA2BFE8A14CF10364, 0xA81A664BBC423001, 0xC24B8B70D0F89791, 0xC76C51A30654BE30,
     0xD192E819D6EF5218, 0xD69906245565A910, 0xF40E35855771202A, 0x106AA07032BBD1B8,
     0x19A4C116B8D2D0C8, 0x1E376C085141AB53, 0x2748774CDF8EEB99, 0x34B0BCB5E19B48A8,
     0x391C0CB3C5C95A63, 0x4ED8AA4AE3418ACB, 0x5B9CCA4F7763E373, 0x682E6FF3D6B2B8A3,
     0x748F82EE5DEFB2FC, 0x78A5636F43172F60, 0x84C87814A1F0AB72, 0x8CC702081A6439EC,
     0x90BEFFFA23631E28, 0xA4506CEBDE82BDE9, 0xBEF9A3F7B2C67915, 0xC67178F2E372532B,
     0xCA273ECEEA26619C, 0xD186B8C721C0C207, 0xEADA7DD6CDE0EB1E, 0xF57D4F7FEE6ED178,
     0x06F067AA72176FBA, 0x0A637DC5A2C898A6, 0x113F9804BEF90DAE, 0x1B710B35131C471B,
     0x28DB77F523047D84, 0x32CAAB7B40C72493, 0x3C9EBE0A15C9BEBC, 0x431D67C49C100D4C,
     0x4CC5D4BECB3E42B6, 0x597F299CFC657E2A, 0x5FCB6FAB3AD6FAEC, 0x6C44198C4A475817]"

definition load64_be :: "bytes \<Rightarrow> u64" where
  "load64_be p = fold (\<lambda>i v. push_bit 8 v OR ucast (p ! i)) [0..<8] 0"

definition store64_be :: "u64 \<Rightarrow> bytes" where
  "store64_be v = rev (map (\<lambda>i. ucast (drop_bit (8 * i) v AND 0xFF)) [0..<8])"

definition ROTR64 :: "u64 \<Rightarrow> nat \<Rightarrow> u64" where "ROTR64 x n = drop_bit n x OR push_bit (64 - n) x"
definition CH :: "u64 \<Rightarrow> u64 \<Rightarrow> u64 \<Rightarrow> u64" where "CH x y z = (x AND y) XOR (NOT x AND z)"
definition MAJ :: "u64 \<Rightarrow> u64 \<Rightarrow> u64 \<Rightarrow> u64" where "MAJ x y z = (x AND y) XOR (x AND z) XOR (y AND z)"
definition SIG0 :: "u64 \<Rightarrow> u64" where "SIG0 x = ROTR64 x 28 XOR ROTR64 x 34 XOR ROTR64 x 39"
definition SIG1 :: "u64 \<Rightarrow> u64" where "SIG1 x = ROTR64 x 14 XOR ROTR64 x 18 XOR ROTR64 x 41"
definition sig0 :: "u64 \<Rightarrow> u64" where "sig0 x = ROTR64 x 1 XOR ROTR64 x 8 XOR drop_bit 7 x"
definition sig1 :: "u64 \<Rightarrow> u64" where "sig1 x = ROTR64 x 19 XOR ROTR64 x 61 XOR drop_bit 6 x"

record sha512_ctx =
  sh_h :: "u64 list"
  sh_buf :: bytes
  sh_count :: u64

definition sha512_schedule :: "bytes \<Rightarrow> u64 list" where
  "sha512_schedule block =
     fold (\<lambda>i w. w @ [w ! (i - 16) + sig0 (w ! (i - 15)) + w ! (i - 7) + sig1 (w ! (i - 2))]) [16..<80]
       (map (\<lambda>i. load64_be (drop (i * 8) block)) [0..<16])"

text \<open>One round on the working variables \<open>a, ..., h\<close>, kept as a list.\<close>

fun sha512_round :: "u64 \<Rightarrow> u64 \<Rightarrow> u64 list \<Rightarrow> u64 list" where
  "sha512_round k w [a, b, c, d, e, f, g, h] =
     (let t1 = h + SIG1 e + CH e f g + k + w; t2 = SIG0 a + MAJ a b c
      in [t1 + t2, a, b, c, d + t1, e, f, g])"
| "sha512_round k w vs = vs"

definition sha512_transform :: "u64 list \<Rightarrow> bytes \<Rightarrow> u64 list" where
  "sha512_transform h block =
     (let w = sha512_schedule block
      in map2 (+) h (fold (\<lambda>i. sha512_round (sha512_K ! i) (w ! i)) [0..<80] h))"

definition sha512_H :: "u64 list" where
  "sha512_H =
    [0x6A09E667F3BCC908, 0xBB67AE8584CAA73B, 0x3C6EF372FE94F82B, 0xA54FF53A5F1D36F1,
     0x510E527FADE682D1, 0x9B05688C2B3E6C1F, 0x1F83D9ABFB41BD6B, 0x5BE0CD19137E2179]"

text \<open>The buffer is not initialised: its contents are those of the stack.\<close>

definition sha512_init :: "sha512_ctx \<Rightarrow> sha512_ctx" where
  "sha512_init ctx = ctx\<lparr>sh_h := sha512_H, sh_count := 0\<rparr>"

definition mem_copy :: "bytes \<Rightarrow> nat \<Rightarrow> bytes \<Rightarrow> bytes" where
  "mem_copy buf idx data = take idx buf @ data @ drop (idx + length data) buf"

text \<open>The loop over the full blocks, and the bytes it leaves.\<close>

function sha512_blocks :: "u64 list \<Rightarrow> bytes \<Rightarrow> u64 list \<times> bytes" where
  "sha512_blocks h data =
     (if length data \<ge> SHA512_BLOCK_SIZE
      then sha512_blocks (sha512_transform h (take SHA512_BLOCK_SIZE data)) (drop SHA512_BLOCK_SIZE data)
      else (h, data))"
  by pat_completeness auto
termination
  by (relation "measure (\<lambda>(h, data). length data)") (auto simp: SHA512_BLOCK_SIZE_def)

declare sha512_blocks.simps [simp del]

definition sha512_update :: "sha512_ctx \<Rightarrow> bytes \<Rightarrow> sha512_ctx" where
  "sha512_update ctx data =
     (let idx = unat (sh_count ctx mod word_of_nat SHA512_BLOCK_SIZE);
          count = sh_count ctx + word_of_nat (length data);
          part = SHA512_BLOCK_SIZE - idx
      in if length data \<ge> part then
           let buf = mem_copy (sh_buf ctx) idx (take part data);
               (h, rest) = sha512_blocks (sha512_transform (sh_h ctx) buf) (drop part data)
           in \<lparr>sh_h = h, sh_buf = (if rest \<noteq> [] then mem_copy buf 0 rest else buf), sh_count = count\<rparr>
         else
           ctx\<lparr>sh_buf := (if data \<noteq> [] then mem_copy (sh_buf ctx) idx data else sh_buf ctx), sh_count := count\<rparr>)"

definition sha512_final :: "sha512_ctx \<Rightarrow> bytes" where
  "sha512_final ctx =
     (let idx = unat (sh_count ctx mod word_of_nat SHA512_BLOCK_SIZE);
          pad = (if idx < 112 then 112 - idx else 240 - idx);
          bits = sh_count ctx * 8;
          ctx = sha512_update ctx (0x80 # replicate (pad - 1) 0);
          ctx = sha512_update ctx (store64_be 0 @ store64_be bits)
      in concat (map store64_be (sh_h ctx)))"

definition sha512 :: "sha512_ctx \<Rightarrow> bytes \<Rightarrow> bytes" where
  "sha512 stack data = sha512_final (sha512_update (sha512_init stack) data)"


section \<open>The compression function of FIPS 180-4\<close>

text \<open>The round constants are the roots of the primes, twenty at a time.\<close>

definition root_constants :: "nat list \<Rightarrow> u64 list \<Rightarrow> bool" where
  "root_constants ps ks \<longleftrightarrow> list_all2 (\<lambda>p k. cube_bits p (cube_floor p) (unat k)) ps ks"

lemma root_constants_1: "root_constants
    [2, 3, 5, 7, 11, 13, 17, 19, 23, 29, 31, 37, 41, 43, 47, 53, 59, 61, 67, 71]
    [0x428A2F98D728AE22, 0x7137449123EF65CD, 0xB5C0FBCFEC4D3B2F, 0xE9B5DBA58189DBBC,
     0x3956C25BF348B538, 0x59F111F1B605D019, 0x923F82A4AF194F9B, 0xAB1C5ED5DA6D8118,
     0xD807AA98A3030242, 0x12835B0145706FBE, 0x243185BE4EE4B28C, 0x550C7DC3D5FFB4E2,
     0x72BE5D74F27B896F, 0x80DEB1FE3B1696B1, 0x9BDC06A725C71235, 0xC19BF174CF692694,
     0xE49B69C19EF14AD2, 0xEFBE4786384F25E3, 0x0FC19DC68B8CD5B5, 0x240CA1CC77AC9C65]"
  by (simp add: root_constants_def cube_bits_def cube_floor_def Let_def)

lemma root_constants_2: "root_constants
    [73, 79, 83, 89, 97, 101, 103, 107, 109, 113, 127, 131, 137, 139, 149, 151, 157, 163, 167, 173]
    [0x2DE92C6F592B0275, 0x4A7484AA6EA6E483, 0x5CB0A9DCBD41FBD4, 0x76F988DA831153B5,
     0x983E5152EE66DFAB, 0xA831C66D2DB43210, 0xB00327C898FB213F, 0xBF597FC7BEEF0EE4,
     0xC6E00BF33DA88FC2, 0xD5A79147930AA725, 0x06CA6351E003826F, 0x142929670A0E6E70,
     0x27B70A8546D22FFC, 0x2E1B21385C26C926, 0x4D2C6DFC5AC42AED, 0x53380D139D95B3DF,
     0x650A73548BAF63DE, 0x766A0ABB3C77B2A8, 0x81C2C92E47EDAEE6, 0x92722C851482353B]"
  by (simp add: root_constants_def cube_bits_def cube_floor_def Let_def)

lemma root_constants_3: "root_constants
    [179, 181, 191, 193, 197, 199, 211, 223, 227, 229, 233, 239, 241, 251, 257, 263, 269, 271, 277, 281]
    [0xA2BFE8A14CF10364, 0xA81A664BBC423001, 0xC24B8B70D0F89791, 0xC76C51A30654BE30,
     0xD192E819D6EF5218, 0xD69906245565A910, 0xF40E35855771202A, 0x106AA07032BBD1B8,
     0x19A4C116B8D2D0C8, 0x1E376C085141AB53, 0x2748774CDF8EEB99, 0x34B0BCB5E19B48A8,
     0x391C0CB3C5C95A63, 0x4ED8AA4AE3418ACB, 0x5B9CCA4F7763E373, 0x682E6FF3D6B2B8A3,
     0x748F82EE5DEFB2FC, 0x78A5636F43172F60, 0x84C87814A1F0AB72, 0x8CC702081A6439EC]"
  by (simp add: root_constants_def cube_bits_def cube_floor_def Let_def)

lemma root_constants_4: "root_constants
    [283, 293, 307, 311, 313, 317, 331, 337, 347, 349, 353, 359, 367, 373, 379, 383, 389, 397, 401, 409]
    [0x90BEFFFA23631E28, 0xA4506CEBDE82BDE9, 0xBEF9A3F7B2C67915, 0xC67178F2E372532B,
     0xCA273ECEEA26619C, 0xD186B8C721C0C207, 0xEADA7DD6CDE0EB1E, 0xF57D4F7FEE6ED178,
     0x06F067AA72176FBA, 0x0A637DC5A2C898A6, 0x113F9804BEF90DAE, 0x1B710B35131C471B,
     0x28DB77F523047D84, 0x32CAAB7B40C72493, 0x3C9EBE0A15C9BEBC, 0x431D67C49C100D4C,
     0x4CC5D4BECB3E42B6, 0x597F299CFC657E2A, 0x5FCB6FAB3AD6FAEC, 0x6C44198C4A475817]"
  by (simp add: root_constants_def cube_bits_def cube_floor_def Let_def)

lemma root_constants_append: "root_constants ps ks \<Longrightarrow> root_constants qs ls \<Longrightarrow> root_constants (ps @ qs) (ks @ ls)"
  by (simp add: root_constants_def list_all2_appendI)

lemma sha512_K_bits: "root_constants fips_primes sha512_K"
  using root_constants_append [OF root_constants_1 root_constants_append [OF root_constants_2 root_constants_append [OF root_constants_3 root_constants_4]]]
  unfolding fips_primes_eq sha512_K_def by (simp only: append.simps)

lemma length_sha512_K: "length sha512_K = 80"
  by (simp add: sha512_K_def)

lemma sha512_K_fips: "t < 80 \<Longrightarrow> sha512_K ! t = fips_K t"
  using list_all2_nthD2 [OF sha512_K_bits [unfolded root_constants_def], of t] root_bitsD [of 3 "fips_primes ! t" "cube_floor (fips_primes ! t)" "unat (sha512_K ! t)"]
    cube_bits_root [of "fips_primes ! t" "cube_floor (fips_primes ! t)" "unat (sha512_K ! t)"]
  by (simp add: fips_K_def length_sha512_K)

fun fips_of :: "u64 list \<Rightarrow> fips_state" where
  "fips_of h = (h ! 0, h ! 1, h ! 2, h ! 3, h ! 4, h ! 5, h ! 6, h ! 7)"

lemma fraction64_sqrt: "root_bits 2 p n r \<Longrightarrow> fraction64 (sqrt (real p)) = word_of_nat r"
  using root_bitsD [of 2 p n r] by (simp add: sqrt_def)

lemma sha512_H_fips: "fips_of sha512_H = fips_H0"
proof -
  have "root_bits 2 2 1 0x6A09E667F3BCC908" "root_bits 2 3 1 0xBB67AE8584CAA73B" "root_bits 2 5 2 0x3C6EF372FE94F82B"
    "root_bits 2 7 2 0xA54FF53A5F1D36F1" "root_bits 2 11 3 0x510E527FADE682D1" "root_bits 2 13 3 0x9B05688C2B3E6C1F"
    "root_bits 2 17 4 0x1F83D9ABFB41BD6B" "root_bits 2 19 4 0x5BE0CD19137E2179"
    by (simp_all add: root_bits_def Let_def)
  note this [THEN fraction64_sqrt]
  then show ?thesis by (simp add: fips_H0_def sha512_H_def Let_def)
qed

lemma ROTR64_rotr: "n < 64 \<Longrightarrow> 0 < n \<Longrightarrow> ROTR64 x n = word_rotr n x"
proof (rule bit_word_eqI)
  fix i
  assume n: "n < 64" "0 < n" and i: "i < LENGTH(64)"
  show "bit (ROTR64 x n) i = bit (word_rotr n x) i"
  proof (cases "i + n < 64")
    case True
    then have "\<not> 64 - n \<le> i" by simp
    then show ?thesis using n i True by (simp add: ROTR64_def bit_simps bit_word_rotr_iff add.commute [of n i])
  next
    case False
    then have "(i + n) mod 64 = i + n - 64" "i - (64 - n) = i + n - 64" "\<not> bit x (n + i)" "64 - n \<le> i"
      using n i by (auto simp: mod_if dest: bit_imp_le_length)
    then show ?thesis using n i False by (simp add: ROTR64_def bit_simps bit_word_rotr_iff)
  qed
qed

lemma sha512_functions:
  "CH x y z = fips_Ch x y z" "MAJ x y z = fips_Maj x y z" "SIG0 x = fips_Sigma0 x" "SIG1 x = fips_Sigma1 x"
  "sig0 x = fips_sigma0 x" "sig1 x = fips_sigma1 x"
  by (simp_all add: CH_def fips_Ch_def MAJ_def fips_Maj_def SIG0_def fips_Sigma0_def SIG1_def fips_Sigma1_def sig0_def fips_sigma0_def
      sig1_def fips_sigma1_def ROTR64_rotr)

lemma byte_into_word: "push_bit 8 v OR ucast b = v * 256 + word_of_nat (unat b)" for v :: u64 and b :: u8
proof -
  have "push_bit 8 v OR ucast b = push_bit 8 v + ucast b"
    by (rule disjunctive_add_eq_or [symmetric]) (rule bit_word_eqI, auto simp: bit_simps dest: bit_imp_le_length)
  then show ?thesis by (simp add: push_bit_eq_mult)
qed

lemma length_8: "length xs = 8 \<Longrightarrow> \<exists>a b c d e f g h. xs = [a, b, c, d, e, f, g, h]"
  by (auto simp: length_Suc_conv numeral_eq_Suc)

lemma load64_be_number: "8 \<le> length p \<Longrightarrow> load64_be p = word_of_nat (be_number (take 8 p))"
proof -
  assume "8 \<le> length p"
  then have "length (take 8 p) = 8" by simp
  then obtain b0 b1 b2 b3 b4 b5 b6 b7 where p: "take 8 p = [b0, b1, b2, b3, b4, b5, b6, b7]" using length_8 by blast
  have nth: "p ! i = take 8 p ! i" if "i < 8" for i using that by simp
  have "p ! 0 = b0" "p ! 1 = b1" "p ! 2 = b2" "p ! 3 = b3" "p ! 4 = b4" "p ! 5 = b5" "p ! 6 = b6" "p ! 7 = b7"
    using nth [of 0] nth [of 1] nth [of 2] nth [of 3] nth [of 4] nth [of 5] nth [of 6] nth [of 7] by (simp_all add: p)
  moreover have "[0..<8] = [0, 1, 2, 3, 4, 5, 6, 7]" by (simp add: upt_rec)
  ultimately show ?thesis by (simp add: load64_be_def be_number_def p byte_into_word algebra_simps)
qed

lemma sha512_schedule_fips:
  assumes "length block = 128" "t < 80"
  shows "sha512_schedule block ! t = fips_W block t"
proof -
  define step where "step = (\<lambda>i w. w @ [w ! (i - 16) + sig0 (w ! (i - 15)) + w ! (i - 7) + sig1 (w ! (i - 2))])"
  define w0 where "w0 = map (\<lambda>i. load64_be (drop (i * 8) block)) [0..<16]"
  have "length (fold step [16..<n] w0) = n \<and> (\<forall>t < n. fold step [16..<n] w0 ! t = fips_W block t)" if "16 \<le> n" for n
    using that
  proof (induction n rule: nat_induct_at_least)
    case base
    have "load64_be (drop (i * 8) block) = fips_W block i" if "i < 16" for i
      using that assms(1) by (simp add: load64_be_number fips_W.simps [of block i] fips_M_def mult.commute)
    then show ?case by (simp add: w0_def)
  next
    case (Suc n)
    let ?w = "fold step [16..<n] w0"
    have w: "length ?w = n" "\<And>t. t < n \<Longrightarrow> ?w ! t = fips_W block t" using Suc.IH by auto
    have at: "?w ! (n - 16) = fips_W block (n - 16)" "?w ! (n - 15) = fips_W block (n - 15)" "?w ! (n - 7) = fips_W block (n - 7)"
      "?w ! (n - 2) = fips_W block (n - 2)" using Suc.hyps by (intro w(2); simp)+
    have "fips_W block n = fips_W block (n - 16) + sig0 (fips_W block (n - 15)) + fips_W block (n - 7) + sig1 (fips_W block (n - 2))"
      using Suc.hyps by (subst fips_W.simps) (simp add: sha512_functions)
    moreover have "fold step [16..<Suc n] w0 = step n ?w" using Suc.hyps by simp
    moreover have "step n w = w @ [w ! (n - 16) + sig0 (w ! (n - 15)) + w ! (n - 7) + sig1 (w ! (n - 2))]" for w
      by (simp add: step_def)
    ultimately have "fold step [16..<Suc n] w0 = ?w @ [fips_W block n]" by (simp only: at)
    then show ?case using w by (auto simp: nth_append less_Suc_eq)
  qed
  note inv = this
  have "16 \<le> (80 :: nat)" by simp
  then have "fold step [16..<80] w0 ! t = fips_W block t" using inv assms(2) by blast
  then show ?thesis by (simp only: sha512_schedule_def step_def w0_def)
qed

lemma sha512_rounds_fips: 
  assumes "length h = 8" "n \<le> 80" "length block = 128"
  shows "length (fold (\<lambda>i. sha512_round (sha512_K ! i) (sha512_schedule block ! i)) [0..<n] h) = 8 \<and>
    fips_of (fold (\<lambda>i. sha512_round (sha512_K ! i) (sha512_schedule block ! i)) [0..<n] h) = fips_rounds block n (fips_of h)"
  using assms(2)
proof (induction n)
  case (Suc n)
  then have "length (fold (\<lambda>i. sha512_round (sha512_K ! i) (sha512_schedule block ! i)) [0..<n] h) = 8" by simp
  from length_8 [OF this] obtain a b c d e f g k
    where v: "fold (\<lambda>i. sha512_round (sha512_K ! i) (sha512_schedule block ! i)) [0..<n] h = [a, b, c, d, e, f, g, k]" by blast
  have w: "sha512_K ! n = fips_K n" "sha512_schedule block ! n = fips_W block n"
    using Suc.prems assms(3) by (simp_all add: sha512_K_fips sha512_schedule_fips)
  have "fips_rounds block n (fips_of h) = (a, b, c, d, e, f, g, k)" using Suc v by simp
  then show ?case by (simp add: v w Let_def sha512_functions)
qed (simp add: assms(1))

lemma sha512_transform_fips:
  assumes "length h = 8" "length block = 128"
  shows "length (sha512_transform h block) = 8 \<and> fips_of (sha512_transform h block) = fips_compress block (fips_of h)"
proof -
  define r where "r = fold (\<lambda>i. sha512_round (sha512_K ! i) (sha512_schedule block ! i)) [0..<80] h"
  have r: "length r = 8" "fips_of r = fips_rounds block 80 (fips_of h)"
    using sha512_rounds_fips [OF assms(1) le_refl assms(2)] by (simp_all only: r_def)
  obtain a b c d e f g k where v: "r = [a, b, c, d, e, f, g, k]"
    using length_8 [OF r(1)] by blast
  have "sha512_transform h block = map2 (+) h r" by (simp add: sha512_transform_def r_def)
  moreover obtain a' b' c' d' e' f' g' k' where h: "h = [a', b', c', d', e', f', g', k']" using length_8 [OF assms(1)] by blast
  ultimately show ?thesis unfolding fips_compress_def r(2) [symmetric] by (simp add: v h)
qed

section \<open>The contract of an incremental hash\<close>

locale stream_hash =
  fixes repr :: "'s \<Rightarrow> bytes \<Rightarrow> bool"
    and update :: "'s \<Rightarrow> bytes \<Rightarrow> 's"
    and final :: "'s \<Rightarrow> 'd"
    and hash :: "bytes \<Rightarrow> 'd"
    and fits :: "bytes \<Rightarrow> bool"
  assumes update_repr: "repr s m \<Longrightarrow> repr (update s d) (m @ d)"
    and final_repr: "repr s m \<Longrightarrow> fits m \<Longrightarrow> final s = hash m"
begin

lemma updates_repr: "repr s m \<Longrightarrow> repr (fold (\<lambda>d s. update s d) ds s) (m @ concat ds)"
proof (induction ds arbitrary: s m)
  case (Cons d ds)
  then show ?case using Cons.IH [OF update_repr [OF Cons.prems, of d]] by simp
qed simp

lemma chunks_hash:
  assumes "repr s []" "fits (concat ds)"
  shows "final (fold (\<lambda>d s. update s d) ds s) = hash (concat ds)"
  using updates_repr [OF assms(1), of ds] final_repr assms(2) by simp

end

section \<open>The message absorbed\<close>

definition sha_absorb :: "bytes \<Rightarrow> u64 list" where
  "sha_absorb m = fst (sha512_blocks sha512_H m)"

lemma blocks_small: "length m < 128 \<Longrightarrow> sha512_blocks h m = (h, m)"
  by (simp add: sha512_blocks.simps SHA512_BLOCK_SIZE_def)

lemma blocks_one: "length b = 128 \<Longrightarrow> sha512_blocks h (b @ m) = sha512_blocks (sha512_transform h b) m"
  by (subst sha512_blocks.simps) (simp add: SHA512_BLOCK_SIZE_def)

lemma blocks_rest: "snd (sha512_blocks h m) = drop (128 * (length m div 128)) m"
proof (induction h m rule: sha512_blocks.induct)
  case (1 h m)
  show ?case
  proof (cases "length m < 128")
    case False
    have "length m div 128 = Suc ((length m - 128) div 128)" using False by (simp add: le_div_geq)
    then show ?thesis using 1 False by (subst sha512_blocks.simps) (simp add: SHA512_BLOCK_SIZE_def add.commute)
  qed (simp add: blocks_small)
qed

text \<open>Absorbing a message in two parts: the bytes left over by the first part come first.\<close>

lemma blocks_append: "sha512_blocks h (a @ b) = (case sha512_blocks h a of (h', r) \<Rightarrow> sha512_blocks h' (r @ b))"
proof (induction h a rule: sha512_blocks.induct)
  case (1 h a)
  show ?case
  proof (cases "length a < 128")
    case False
    have "sha512_blocks h (a @ b) = sha512_blocks (sha512_transform h (take 128 a)) (drop 128 a @ b)"
      using False by (subst sha512_blocks.simps) (simp add: SHA512_BLOCK_SIZE_def)
    moreover have "sha512_blocks h a = sha512_blocks (sha512_transform h (take 128 a)) (drop 128 a)"
      using False by (subst sha512_blocks.simps) (simp add: SHA512_BLOCK_SIZE_def)
    ultimately show ?thesis using 1 False by (simp add: SHA512_BLOCK_SIZE_def)
  qed (simp add: blocks_small)
qed

definition sha_repr :: "sha512_ctx \<Rightarrow> bytes \<Rightarrow> bool" where
  "sha_repr ctx m \<longleftrightarrow> length (sh_buf ctx) = 128 \<and> sh_count ctx = word_of_nat (length m) \<and>
     sha512_blocks sha512_H m = (sh_h ctx, take (length m mod 128) (sh_buf ctx))"

lemma sha_idx: "unat ((word_of_nat n :: u64) mod word_of_nat SHA512_BLOCK_SIZE) = n mod 128"
proof -
  have "n mod 18446744073709551616 mod 128 = n mod 128" by (rule mod_mod_cancel) simp
  then show ?thesis by (simp add: unat_mod_distrib unat_of_nat SHA512_BLOCK_SIZE_def)
qed

lemma length_mem_copy [simp]: "idx + length d \<le> length buf \<Longrightarrow> length (mem_copy buf idx d) = length buf"
  by (simp add: mem_copy_def)

lemma take_mem_copy: "idx \<le> length buf \<Longrightarrow> take (idx + length d) (mem_copy buf idx d) = take idx buf @ d"
  by (simp add: mem_copy_def)

lemma sha_update_repr:
  assumes "sha_repr ctx m"
  shows "sha_repr (sha512_update ctx d) (m @ d)"
proof -
  define idx where "idx = length m mod 128"
  have r: "length (sh_buf ctx) = 128" "sh_count ctx = word_of_nat (length m)"
    "sha512_blocks sha512_H m = (sh_h ctx, take idx (sh_buf ctx))"
    using assms by (auto simp: sha_repr_def idx_def)
  have idx: "idx < 128" "unat (sh_count ctx mod word_of_nat SHA512_BLOCK_SIZE) = idx"
    by (simp_all add: idx_def r(2) sha_idx)
  have all: "sha512_blocks sha512_H (m @ d) = sha512_blocks (sh_h ctx) (take idx (sh_buf ctx) @ d)"
    by (subst blocks_append) (simp add: r(3))
  show ?thesis
  proof (cases "128 - idx \<le> length d")
    case True
    define part where "part = 128 - idx"
    define buf where "buf = mem_copy (sh_buf ctx) idx (take part d)"
    have buf: "buf = take idx (sh_buf ctx) @ take part d" "length buf = 128"
      using True r(1) idx by (simp_all add: buf_def mem_copy_def part_def)
    have split: "sha512_blocks sha512_H (m @ d) = sha512_blocks (sha512_transform (sh_h ctx) buf) (drop part d)"
      using blocks_one [OF buf(2), of "sh_h ctx" "drop part d"] by (simp add: all buf(1))
    obtain h rest where hr: "sha512_blocks (sha512_transform (sh_h ctx) buf) (drop part d) = (h, rest)" by fastforce
    have "rest = drop (128 * (length (drop part d) div 128)) (drop part d)"
      using blocks_rest [of "sha512_transform (sh_h ctx) buf" "drop part d"] hr by simp
    then have "length rest = length (drop part d) mod 128" by (simp only: length_drop minus_mult_div_eq_mod)
    moreover have "(length m + length d) mod 128 = length (drop part d) mod 128"
    proof -
      have "length m + length d = length (drop part d) + 128 * (length m div 128 + 1)"
        using True idx(1) div_mult_mod_eq [of "length m" 128] by (simp add: part_def idx_def)
      then show ?thesis by (simp only: mod_mult_self2)
    qed
    ultimately have rest: "length rest = (length m + length d) mod 128" by simp
    have upd: "sha512_update ctx d =
        \<lparr>sh_h = h, sh_buf = (if rest \<noteq> [] then mem_copy buf 0 rest else buf), sh_count = sh_count ctx + word_of_nat (length d)\<rparr>"
      using True hr idx(2)
      by (simp add: sha512_update_def Let_def SHA512_BLOCK_SIZE_def flip: part_def buf_def) 
    show ?thesis
      using take_mem_copy [of 0 buf rest] rest buf(2) hr split r(2)
      by (auto simp: upd sha_repr_def)
  next
    case False
    have upd: "sha512_update ctx d = ctx\<lparr>sh_buf := (if d \<noteq> [] then mem_copy (sh_buf ctx) idx d else sh_buf ctx),
        sh_count := sh_count ctx + word_of_nat (length d)\<rparr>"
      using False idx(2) by (simp add: sha512_update_def Let_def SHA512_BLOCK_SIZE_def)
    have m: "(length m + length d) mod 128 = idx + length d"
    proof -
      have "(length m + length d) mod 128 = (idx + length d) mod 128" by (simp only: idx_def mod_add_left_eq)
      then show ?thesis using False by simp
    qed
    show ?thesis
      using take_mem_copy [of idx "sh_buf ctx" d] False idx(1) r all m
      by (auto simp: upd sha_repr_def blocks_small)
  qed
qed

section \<open>The hash of FIPS 180-4\<close>

lemma fips_chain_prefix: "take (128 * i) m = take (128 * i) m' \<Longrightarrow> fips_chain i m = fips_chain i m'"
proof (induction i)
  case (Suc i)
  have "take 128 (drop (128 * i) x) = drop (128 * i) (take (128 * Suc i) x)" for x :: bytes by (simp add: drop_take)
  moreover have "take (128 * i) x = take (128 * i) (take (128 * Suc i) x)" for x :: bytes by (simp add: min_def)
  ultimately show ?case using Suc by (metis fips_chain.simps(2))
qed simp

text \<open>Absorbing whole blocks is the chain of compressions.\<close>

lemma absorb_chain: "length m = 128 * i \<Longrightarrow> length (sha_absorb m) = 8 \<and> fips_of (sha_absorb m) = fips_chain i m"
proof (induction i arbitrary: m)
  case 0
  then show ?case using sha512_H_fips by (simp add: sha_absorb_def blocks_small) (simp add: sha512_H_def)
next
  case (Suc i)
  define a b where "a = take (128 * i) m" and "b = drop (128 * i) m"
  have m: "m = a @ b" "length a = 128 * i" "length b = 128" using Suc.prems by (simp_all add: a_def b_def)
  have "sha512_blocks sha512_H a = (sha_absorb a, [])"
    using blocks_rest [of sha512_H a] m(2) by (simp add: sha_absorb_def prod_eq_iff)
  then have "sha512_blocks sha512_H m = sha512_blocks (sha_absorb a) (b @ [])" unfolding m(1) by (subst blocks_append) simp
  also have "\<dots> = sha512_blocks (sha512_transform (sha_absorb a) b) []" by (rule blocks_one [OF m(3)])
  finally have "sha_absorb m = sha512_transform (sha_absorb a) b" by (simp add: sha_absorb_def blocks_small)
  moreover have "take 128 (drop (128 * i) m) = b" using m(3) by (simp add: b_def)
  moreover have "fips_chain i m = fips_chain i a" by (rule fips_chain_prefix) (simp add: a_def)
  ultimately show ?case using sha512_transform_fips [OF _ m(3), of "sha_absorb a"] Suc.IH [OF m(2)] by simp
qed

lemma fips_padding_aligned: "128 dvd length m + length (fips_padding (length m))"
proof -
  define r where "r = length m mod 128"
  have "r < 128" by (simp add: r_def)
  then have "128 dvd r + (17 + (239 - r) mod 128)"
  proof (cases "r < 112")
    case True
    then have "(239 - r) mod 128 = 111 - r" by (simp add: le_mod_geq)
    then show ?thesis using True by simp
  qed simp
  moreover have "length m + length (fips_padding (length m)) = 128 * (length m div 128) + (r + (17 + (239 - r) mod 128))"
    by (simp add: fips_padding_def be_bytes_def r_def)
  ultimately show ?thesis by (metis dvd_add dvd_triv_left)
qed

lemma ucast_of_nat_u64: "(ucast (word_of_nat n :: u64) :: u8) = word_of_nat n"
  by (intro bit_word_eqI) (simp add: bit_simps)

lemma store64_be_bytes: "n < 2 ^ 64 \<Longrightarrow> store64_be (word_of_nat n) = be_bytes 8 n"
proof -
  assume n: "n < 2 ^ 64"
  have u: "[0..<8] = [0, 1, 2, 3, 4, 5, 6, 7]" by (simp add: upt_rec)
  have "(ucast (drop_bit k (word_of_nat n :: u64) AND 0xFF) :: u8) = word_of_nat (n div 2 ^ k)" for k
    using n drop_bit_of_nat [of n k, where 'a = 64] ucast_of_nat_u64 by (simp add: drop_bit_eq_div)
  then show ?thesis by (simp add: store64_be_def be_bytes_def u)
qed

lemma store_length: "n < 2 ^ 61 \<Longrightarrow> store64_be 0 @ store64_be (word_of_nat n * 8) = be_bytes 16 (8 * n)"
proof -
  assume n: "n < 2 ^ 61"
  have "word_of_nat n * 8 = (word_of_nat (8 * n) :: u64)" by simp
  then have "store64_be (word_of_nat n * 8) = be_bytes 8 (8 * n)"
    using n store64_be_bytes [of "8 * n"] by (simp only:) simp
  moreover have "store64_be 0 = be_bytes 8 0" using store64_be_bytes [of 0] by simp
  moreover have "be_bytes 16 (8 * n) = be_bytes 8 0 @ be_bytes 8 (8 * n)"
    using n by (simp add: be_bytes_def upt_rec)
  ultimately show ?thesis by simp
qed

lemma sha_digest: "concat (map store64_be (sha_absorb (m @ fips_padding (length m)))) = fips_sha512 m"
proof -
  define p where "p = m @ fips_padding (length m)"
  have "length p = 128 * (length p div 128)" using fips_padding_aligned [of m] by (simp add: p_def)
  from absorb_chain [OF this] have h: "length (sha_absorb p) = 8" "fips_of (sha_absorb p) = fips_chain (length p div 128) p" by auto
  obtain a b c d e f g k where v: "sha_absorb p = [a, b, c, d, e, f, g, k]" using length_8 [OF h(1)] by blast
  have "store64_be w = be_bytes 8 (unat w)" for w :: u64
    using store64_be_bytes [of "unat w"] unsigned_less [of w, where 'a = nat] by simp
  then have "concat (map store64_be (sha_absorb p)) = fips_digest (fips_chain (length p div 128) p)"
    unfolding h(2) [symmetric] v by simp
  then show ?thesis unfolding fips_sha512_def Let_def p_def .
qed

lemma sha_final_repr:
  assumes "sha_repr ctx m" "length m < 2 ^ 61"
  shows "sha512_final ctx = fips_sha512 m"
proof -
  define idx where "idx = length m mod 128"
  have idx: "unat (sh_count ctx mod word_of_nat SHA512_BLOCK_SIZE) = idx" "idx < 128"
    using assms(1) sha_idx by (simp_all add: sha_repr_def idx_def)
  define pad where "pad = (if idx < 112 then 112 - idx else 240 - idx)"
  have pad: "pad - 1 = (239 - idx) mod 128" using idx(2) by (auto simp: pad_def mod_if)
  define c1 where "c1 = sha512_update ctx (0x80 # replicate (pad - 1) 0)"
  define c2 where "c2 = sha512_update c1 (store64_be 0 @ store64_be (sh_count ctx * 8))"
  have len: "store64_be 0 @ store64_be (sh_count ctx * 8) = be_bytes 16 (8 * length m)"
    using assms store_length by (simp add: sha_repr_def)
  have "sha_repr c1 (m @ 0x80 # replicate (pad - 1) 0)"
    unfolding c1_def by (rule sha_update_repr [OF assms(1)])
  then have "sha_repr c2 ((m @ 0x80 # replicate (pad - 1) 0) @ be_bytes 16 (8 * length m))"
    unfolding c2_def len by (rule sha_update_repr)
  then have "sha_repr c2 (m @ fips_padding (length m))"
    using pad by (simp add: fips_padding_def idx_def)
  then have "sh_h c2 = sha_absorb (m @ fips_padding (length m))"
    by (simp add: sha_repr_def sha_absorb_def)
  then show ?thesis
    unfolding sha512_final_def Let_def idx(1) pad_def [symmetric] c1_def [symmetric] c2_def [symmetric]
    by (simp add: sha_digest)
qed

lemma sha_init_repr: "length (sh_buf ctx) = 128 \<Longrightarrow> sha_repr (sha512_init ctx) []"
  by (simp add: sha_repr_def sha512_init_def blocks_small)

interpretation sha: stream_hash sha_repr sha512_update sha512_final fips_sha512 "\<lambda>m. length m < 2 ^ 61"
  by unfold_locales (auto intro: sha_update_repr sha_final_repr)

text \<open>
  C29. SHA-512 is the hash of FIPS 180-4, however the message is cut. Starting from an initialised
  context with any stack contents in its buffer, absorbing the chunks of a message below \<open>2 ^ 61\<close> bytes
  one after the other and finishing gives the hash \<open>fips_sha512\<close> of the concatenation, which \<open>Fips180\<close> defines
  without the code: constants from the roots of the primes, message schedule, rounds, padding and chain.
\<close>

theorem sha512_incremental:
  assumes "length (sh_buf stack) = 128" "length (concat ds) < 2 ^ 61"
  shows "sha512_final (fold (\<lambda>d c. sha512_update c d) ds (sha512_init stack)) = fips_sha512 (concat ds) \<and>
    sha512 stack (concat ds) = fips_sha512 (concat ds)"
  using sha.chunks_hash [OF sha_init_repr [OF assms(1)] assms(2)]
    sha.chunks_hash [OF sha_init_repr [OF assms(1)], of "[concat ds]"] assms(2)
  by (simp add: sha512_def)

theorem sha512_incremental_witness:
  "\<exists>stack. sha512_final (sha512_update (sha512_update (sha512_init stack) [0x61, 0x62]) [0x63]) =
    fips_sha512 [0x61, 0x62, 0x63]"
proof -
  define stack where "stack = \<lparr>sh_h = [], sh_buf = replicate 128 7, sh_count = 9\<rparr>"
  have "length (sh_buf stack) = 128" by (simp add: stack_def)
  from sha512_incremental [OF this, of "[[0x61, 0x62], [0x63]]"] show ?thesis by auto
qed

end
