(* ===== verification/Field25519.thy ===== *)
theory Field25519
  imports Bytes
begin

text \<open>
  The field arithmetic of \<^verbatim>\<open>crypt/mz_crypt.c\<close> modulo \<open>2 ^ 255 - 19\<close>: ten signed limbs of 26 and 25 bits,
  stored in \<^verbatim>\<open>int64_t\<close>. Limbs are integers here; that no intermediate value of a product leaves 64
  bits is part of what is proved (\<open>fe_mul_correct\<close>). A right shift is \<open>drop_bit\<close>, which rounds
  down for negative numbers as the arithmetic shift does, a left shift is \<open>push_bit\<close>.
\<close>

datatype fe = Fe int int int int int int int int int int

definition fe_zero :: fe where "fe_zero = Fe 0 0 0 0 0 0 0 0 0 0"
definition fe_one :: fe where "fe_one = Fe 1 0 0 0 0 0 0 0 0 0"

definition fe_p :: fe where
  "fe_p = Fe 67108845 33554431 67108863 33554431 67108863 33554431 67108863 33554431 67108863 33554431"

definition fe_d :: fe where
  "fe_d = Fe (-10913610) 13857413 (-15372611) 6949391 114729 (-8787816) (-6275908) (-3247719) (-18696448) (-12055116)"

definition fe_d2 :: fe where
  "fe_d2 = Fe (-21827239) (-5839606) (-30745221) 13898782 229458 15978800 (-12551817) (-6495438) 29715968 9444199"

definition fe_sqrtm1 :: fe where
  "fe_sqrtm1 = Fe (-32595792) (-7943725) 9377950 3500415 12389472 (-272473) (-25146209) (-2005654) 326686 11406482"

definition fe_copy :: "fe \<Rightarrow> fe" where "fe_copy f = f"
definition fe_0 :: fe where "fe_0 = Fe 0 0 0 0 0 0 0 0 0 0"
definition fe_1 :: fe where "fe_1 = Fe 1 0 0 0 0 0 0 0 0 0"

text \<open>Every carry is taken from the limbs as they were, and added at the end.\<close>

definition fe_carry :: "fe \<Rightarrow> fe" where
  "fe_carry h = (case h of Fe h0 h1 h2 h3 h4 h5 h6 h7 h8 h9 \<Rightarrow>
     (let c0 = drop_bit 26 (h0 + 2 ^ 25); h0 = h0 - push_bit 26 c0;
          c4 = drop_bit 26 (h4 + 2 ^ 25); h4 = h4 - push_bit 26 c4;
          c1 = drop_bit 25 (h1 + 2 ^ 24); h1 = h1 - push_bit 25 c1;
          c5 = drop_bit 25 (h5 + 2 ^ 24); h5 = h5 - push_bit 25 c5;
          c2 = drop_bit 26 (h2 + 2 ^ 25); h2 = h2 - push_bit 26 c2;
          c6 = drop_bit 26 (h6 + 2 ^ 25); h6 = h6 - push_bit 26 c6;
          c3 = drop_bit 25 (h3 + 2 ^ 24); h3 = h3 - push_bit 25 c3;
          c7 = drop_bit 25 (h7 + 2 ^ 24); h7 = h7 - push_bit 25 c7;
          c8 = drop_bit 26 (h8 + 2 ^ 25); h8 = h8 - push_bit 26 c8;
          c9 = drop_bit 25 (h9 + 2 ^ 24); h9 = h9 - push_bit 25 c9;
          h0 = h0 + c9 * 19; h1 = h1 + c0; h2 = h2 + c1; h3 = h3 + c2;
          h4 = h4 + c3; h5 = h5 + c4; h6 = h6 + c5; h7 = h7 + c6;
          h8 = h8 + c7; h9 = h9 + c8
      in Fe h0 h1 h2 h3 h4 h5 h6 h7 h8 h9))"

definition fe_add :: "fe \<Rightarrow> fe \<Rightarrow> fe" where
  "fe_add f g = (case f of Fe f0 f1 f2 f3 f4 f5 f6 f7 f8 f9 \<Rightarrow> case g of Fe g0 g1 g2 g3 g4 g5 g6 g7 g8 g9 \<Rightarrow>
     Fe (f0 + g0) (f1 + g1) (f2 + g2) (f3 + g3) (f4 + g4) (f5 + g5) (f6 + g6) (f7 + g7) (f8 + g8) (f9 + g9))"

definition fe_sub :: "fe \<Rightarrow> fe \<Rightarrow> fe" where
  "fe_sub f g = (case f of Fe f0 f1 f2 f3 f4 f5 f6 f7 f8 f9 \<Rightarrow> case g of Fe g0 g1 g2 g3 g4 g5 g6 g7 g8 g9 \<Rightarrow>
     Fe (f0 - g0) (f1 - g1) (f2 - g2) (f3 - g3) (f4 - g4) (f5 - g5) (f6 - g6) (f7 - g7) (f8 - g8) (f9 - g9))"

definition fe_neg :: "fe \<Rightarrow> fe" where
  "fe_neg f = (case f of Fe f0 f1 f2 f3 f4 f5 f6 f7 f8 f9 \<Rightarrow> Fe (- f0) (- f1) (- f2) (- f3) (- f4) (- f5) (- f6) (- f7) (- f8) (- f9))"

text \<open>The schoolbook product and the carries of \<^verbatim>\<open>fe_mul\<close>.\<close>

definition fe_mul_raw :: "fe \<Rightarrow> fe \<Rightarrow> fe" where
  "fe_mul_raw f g = (case f of Fe f0 f1 f2 f3 f4 f5 f6 f7 f8 f9 \<Rightarrow> case g of Fe g0 g1 g2 g3 g4 g5 g6 g7 g8 g9 \<Rightarrow>
     (let f1_2 = 2 * f1; f3_2 = 2 * f3; f5_2 = 2 * f5; f7_2 = 2 * f7;
          h0 = f0 * g0 + f1 * g9 * 38 + f2 * g8 * 19 + f3 * g7 * 38 + f4 * g6 * 19
            + f5 * g5 * 38 + f6 * g4 * 19 + f7 * g3 * 38 + f8 * g2 * 19 + f9 * g1 * 38;
          h1 = f0 * g1 + f1 * g0 + f2 * g9 * 19 + f3 * g8 * 19 + f4 * g7 * 19 + f5 * g6 * 19
            + f6 * g5 * 19 + f7 * g4 * 19 + f8 * g3 * 19 + f9 * g2 * 19;
          h2 = f0 * g2 + f1_2 * g1 + f2 * g0 + f3 * g9 * 38 + f4 * g8 * 19 + f5 * g7 * 38
            + f6 * g6 * 19 + f7 * g5 * 38 + f8 * g4 * 19 + f9 * g3 * 38;
          h3 = f0 * g3 + f1 * g2 + f2 * g1 + f3 * g0 + f4 * g9 * 19 + f5 * g8 * 19
            + f6 * g7 * 19 + f7 * g6 * 19 + f8 * g5 * 19 + f9 * g4 * 19;
          h4 = f0 * g4 + f1_2 * g3 + f2 * g2 + f3_2 * g1 + f4 * g0 + f5 * g9 * 38
            + f6 * g8 * 19 + f7 * g7 * 38 + f8 * g6 * 19 + f9 * g5 * 38;
          h5 = f0 * g5 + f1 * g4 + f2 * g3 + f3 * g2 + f4 * g1 + f5 * g0 + f6 * g9 * 19
            + f7 * g8 * 19 + f8 * g7 * 19 + f9 * g6 * 19;
          h6 = f0 * g6 + f1_2 * g5 + f2 * g4 + f3_2 * g3 + f4 * g2 + f5_2 * g1 + f6 * g0
            + f7 * g9 * 38 + f8 * g8 * 19 + f9 * g7 * 38;
          h7 = f0 * g7 + f1 * g6 + f2 * g5 + f3 * g4 + f4 * g3 + f5 * g2 + f6 * g1 + f7 * g0
            + f8 * g9 * 19 + f9 * g8 * 19;
          h8 = f0 * g8 + f1_2 * g7 + f2 * g6 + f3_2 * g5 + f4 * g4 + f5_2 * g3 + f6 * g2
            + f7_2 * g1 + f8 * g0 + f9 * g9 * 38;
          h9 = f0 * g9 + f1 * g8 + f2 * g7 + f3 * g6 + f4 * g5 + f5 * g4 + f6 * g3 + f7 * g2
            + f8 * g1 + f9 * g0
      in Fe h0 h1 h2 h3 h4 h5 h6 h7 h8 h9))"

text \<open>
  One line of carries: \<open>carry_at k\<close> takes the rounded carry of limb \<open>k\<close> and adds it to the next limb,
  or 19 times it to limb 0 when \<open>k\<close> is 9.
\<close>

definition carry_at :: "nat \<Rightarrow> fe \<Rightarrow> fe" where
  "carry_at k h = (case h of Fe h0 h1 h2 h3 h4 h5 h6 h7 h8 h9 \<Rightarrow>
     if k = 0 then let c = drop_bit 26 (h0 + 2 ^ 25) in Fe (h0 - push_bit 26 c) (h1 + c) h2 h3 h4 h5 h6 h7 h8 h9
     else if k = 1 then let c = drop_bit 25 (h1 + 2 ^ 24) in Fe h0 (h1 - push_bit 25 c) (h2 + c) h3 h4 h5 h6 h7 h8 h9
     else if k = 2 then let c = drop_bit 26 (h2 + 2 ^ 25) in Fe h0 h1 (h2 - push_bit 26 c) (h3 + c) h4 h5 h6 h7 h8 h9
     else if k = 3 then let c = drop_bit 25 (h3 + 2 ^ 24) in Fe h0 h1 h2 (h3 - push_bit 25 c) (h4 + c) h5 h6 h7 h8 h9
     else if k = 4 then let c = drop_bit 26 (h4 + 2 ^ 25) in Fe h0 h1 h2 h3 (h4 - push_bit 26 c) (h5 + c) h6 h7 h8 h9
     else if k = 5 then let c = drop_bit 25 (h5 + 2 ^ 24) in Fe h0 h1 h2 h3 h4 (h5 - push_bit 25 c) (h6 + c) h7 h8 h9
     else if k = 6 then let c = drop_bit 26 (h6 + 2 ^ 25) in Fe h0 h1 h2 h3 h4 h5 (h6 - push_bit 26 c) (h7 + c) h8 h9
     else if k = 7 then let c = drop_bit 25 (h7 + 2 ^ 24) in Fe h0 h1 h2 h3 h4 h5 h6 (h7 - push_bit 25 c) (h8 + c) h9
     else if k = 8 then let c = drop_bit 26 (h8 + 2 ^ 25) in Fe h0 h1 h2 h3 h4 h5 h6 h7 (h8 - push_bit 26 c) (h9 + c)
     else let c = drop_bit 25 (h9 + 2 ^ 24) in Fe (h0 + c * 19) h1 h2 h3 h4 h5 h6 h7 h8 (h9 - push_bit 25 c))"

definition fe_mul_carry :: "fe \<Rightarrow> fe" where
  "fe_mul_carry h = fold carry_at [0, 4, 1, 5, 2, 6, 3, 7, 4, 8, 9, 0] h"

definition fe_mul :: "fe \<Rightarrow> fe \<Rightarrow> fe" where
  "fe_mul f g = fe_mul_carry (fe_mul_raw f g)"

definition fe_sq :: "fe \<Rightarrow> fe" where
  "fe_sq f = fe_mul f f"

lemmas fe_defs = fe_add_def fe_sub_def fe_neg_def

section \<open>Values\<close>

definition P25519 :: int where "P25519 = 2 ^ 255 - 19"

fun fval :: "fe \<Rightarrow> int" where
  "fval (Fe h0 h1 h2 h3 h4 h5 h6 h7 h8 h9) =
     h0 + 2 ^ 26 * h1 + 2 ^ 51 * h2 + 2 ^ 77 * h3 + 2 ^ 102 * h4 + 2 ^ 128 * h5 + 2 ^ 153 * h6 +
     2 ^ 179 * h7 + 2 ^ 204 * h8 + 2 ^ 230 * h9"

lemma fval_add: "fval (fe_add f g) = fval f + fval g"
  by (cases f; cases g) (simp add: fe_defs algebra_simps)

lemma fval_sub: "fval (fe_sub f g) = fval f - fval g"
  by (cases f; cases g) (simp add: fe_defs algebra_simps)

lemma fval_neg: "fval (fe_neg f) = - fval f"
  by (cases f) (simp add: fe_defs algebra_simps)

text \<open>What the reduction of the schoolbook product drops is a multiple of \<open>P25519\<close>.\<close>

lemma fval_mul_raw:
  "\<exists>q. fval f * fval g = fval (fe_mul_raw f g) + P25519 * q"
proof (cases f; cases g)
  fix f0 f1 f2 f3 f4 f5 f6 f7 f8 f9 g0 g1 g2 g3 g4 g5 g6 g7 g8 g9
  assume f: "f = Fe f0 f1 f2 f3 f4 f5 f6 f7 f8 f9" "g = Fe g0 g1 g2 g3 g4 g5 g6 g7 g8 g9"
  define q where "q =
      2 ^ 1 * (f1 * g9) + 2 ^ 0 * (f2 * g8) + 2 ^ 26 * (f2 * g9) + 2 ^ 1 * (f3 * g7) + 2 ^ 26 * (f3 * g8) +
       2 ^ 52 * (f3 * g9) + 2 ^ 0 * (f4 * g6) + 2 ^ 26 * (f4 * g7) + 2 ^ 51 * (f4 * g8) + 2 ^ 77 * (f4 * g9) +
       2 ^ 1 * (f5 * g5) + 2 ^ 26 * (f5 * g6) + 2 ^ 52 * (f5 * g7) + 2 ^ 77 * (f5 * g8) + 2 ^ 103 * (f5 * g9) +
       2 ^ 0 * (f6 * g4) + 2 ^ 26 * (f6 * g5) + 2 ^ 51 * (f6 * g6) + 2 ^ 77 * (f6 * g7) + 2 ^ 102 * (f6 * g8) +
       2 ^ 128 * (f6 * g9) + 2 ^ 1 * (f7 * g3) + 2 ^ 26 * (f7 * g4) + 2 ^ 52 * (f7 * g5) + 2 ^ 77 * (f7 * g6) +
       2 ^ 103 * (f7 * g7) + 2 ^ 128 * (f7 * g8) + 2 ^ 154 * (f7 * g9) + 2 ^ 0 * (f8 * g2) + 2 ^ 26 * (f8 * g3) +
       2 ^ 51 * (f8 * g4) + 2 ^ 77 * (f8 * g5) + 2 ^ 102 * (f8 * g6) + 2 ^ 128 * (f8 * g7) + 2 ^ 153 * (f8 * g8) +
       2 ^ 179 * (f8 * g9) + 2 ^ 1 * (f9 * g1) + 2 ^ 26 * (f9 * g2) + 2 ^ 52 * (f9 * g3) + 2 ^ 77 * (f9 * g4) +
       2 ^ 103 * (f9 * g5) + 2 ^ 128 * (f9 * g6) + 2 ^ 154 * (f9 * g7) + 2 ^ 179 * (f9 * g8) + 2 ^ 205 * (f9 * g9)"
  have "fval f * fval g = fval (fe_mul_raw f g) + P25519 * q"
    unfolding f q_def fe_mul_raw_def Let_def P25519_def fe.case fval.simps by algebra
  then show ?thesis ..
qed
section \<open>Bounds of limbs\<close>

text \<open>Interval arithmetic on limbs: a list of bounds, and what one carry makes of it.\<close>

fun limbs :: "fe \<Rightarrow> int list" where
  "limbs (Fe h0 h1 h2 h3 h4 h5 h6 h7 h8 h9) = [h0, h1, h2, h3, h4, h5, h6, h7, h8, h9]"

definition fe_in :: "int list \<Rightarrow> fe \<Rightarrow> bool" where
  "fe_in bs h \<longleftrightarrow> list_all2 (\<lambda>b x. \<bar>x\<bar> \<le> b) bs (limbs h)"

abbreviation fe_le :: "int \<Rightarrow> fe \<Rightarrow> bool" where
  "fe_le B \<equiv> fe_in (replicate 10 B)"

definition limb_width :: "nat \<Rightarrow> nat" where
  "limb_width k = (if even k then 26 else 25)"

definition carry_bounds :: "nat \<Rightarrow> int list \<Rightarrow> int list" where
  "carry_bounds k bs =
     (let c = bs ! k div 2 ^ limb_width k + 1; k' = (if k = 9 then 0 else k + 1)
      in bs[k := 2 ^ (limb_width k - 1), k' := bs ! k' + (if k = 9 then 19 else 1) * c])"

lemma carry_abs:
  fixes x b :: int
  assumes "\<bar>x\<bar> \<le> b"
  shows "\<bar>drop_bit (Suc w) (x + 2 ^ w)\<bar> \<le> b div 2 ^ Suc w + 1"
proof -
  define M :: int where "M = 2 ^ Suc w"
  define c where "c = (x + 2 ^ w) div M"
  define q where "q = b div M"
  have M: "0 < M" "2 * 2 ^ w = M" "0 < (2 :: int) ^ w" by (simp_all add: M_def)
  have c: "M * c \<le> x + 2 ^ w" "x + 2 ^ w < M * c + M"
    using mult_div_mod_eq [of M "x + 2 ^ w"] pos_mod_bound [OF M(1), of "x + 2 ^ w"] pos_mod_sign [OF M(1), of "x + 2 ^ w"]
    unfolding c_def by linarith+
  have "b < M * q + M"
    using mult_div_mod_eq [of M b] pos_mod_bound [OF M(1), of b] unfolding q_def by linarith
  then have "M * c < M * (q + 2)" "M * (- q - 2) < M * c"
    using c assms M by (auto simp: distrib_left right_diff_distrib)
  then have "c < q + 2" "- q - 2 < c" using M(1) by (simp_all add: mult_less_cancel_left_pos)
  then show ?thesis unfolding drop_bit_eq_div M_def [symmetric] c_def [symmetric] q_def [symmetric] by linarith
qed

lemma carry_rest: "\<bar>x - push_bit (Suc w) (drop_bit (Suc w) (x + 2 ^ w))\<bar> \<le> 2 ^ w" for x :: int
proof -
  define M :: int where "M = 2 ^ Suc w"
  have M: "0 < M" "2 * 2 ^ w = M" by (simp_all add: M_def)
  have "M * ((x + 2 ^ w) div M) \<le> x + 2 ^ w" "x + 2 ^ w < M * ((x + 2 ^ w) div M) + M"
    using mult_div_mod_eq [of M "x + 2 ^ w"] pos_mod_bound [OF M(1), of "x + 2 ^ w"] pos_mod_sign [OF M(1), of "x + 2 ^ w"]
    by linarith+
  then have "\<bar>x - M * ((x + 2 ^ w) div M)\<bar> \<le> 2 ^ w" using M(2) by linarith
  then show ?thesis by (simp add: drop_bit_eq_div push_bit_eq_mult mult.commute M_def)
qed

lemmas carry26 = carry_abs [where w = 25, simplified] carry_rest [where w = 25, simplified]
lemmas carry25 = carry_abs [where w = 24, simplified] carry_rest [where w = 24, simplified]

lemma carry_at_in:
  assumes "fe_in bs h" "k < 10"
  shows "fe_in (carry_bounds k bs) (carry_at k h)"
proof -
  obtain b0 b1 b2 b3 b4 b5 b6 b7 b8 b9 where bs: "bs = [b0, b1, b2, b3, b4, b5, b6, b7, b8, b9]"
    using assms(1) by (cases h) (auto simp: fe_in_def list_all2_Cons2)
  obtain h0 h1 h2 h3 h4 h5 h6 h7 h8 h9 where h: "h = Fe h0 h1 h2 h3 h4 h5 h6 h7 h8 h9" by (cases h)
  have tri: "\<bar>x\<bar> \<le> b \<Longrightarrow> \<bar>c\<bar> \<le> d \<Longrightarrow> \<bar>x + c\<bar> \<le> b + d" "\<bar>x\<bar> \<le> b \<Longrightarrow> \<bar>c\<bar> \<le> d + 1 \<Longrightarrow> \<bar>x + c * 19\<bar> \<le> b + (19 * d + 19)"
    for x b c d :: int by linarith+
  have "k \<in> {0, 1, 2, 3, 4, 5, 6, 7, 8, 9}" using assms(2) by auto
  then show ?thesis
    using assms(1) unfolding bs h fe_in_def limbs.simps insert_iff empty_iff
    by (elim disjE) (simp_all add: carry_at_def carry_bounds_def limb_width_def Let_def tri carry26 carry25)
qed

lemma carries_in:
  "fe_in bs h \<Longrightarrow> list_all (\<lambda>k. k < 10) ks \<Longrightarrow> fe_in (fold carry_bounds ks bs) (fold carry_at ks h)"
  by (induction ks arbitrary: bs h) (auto simp: carry_at_in)

lemma carry_at_val: "k < 10 \<Longrightarrow> \<exists>q. fval (carry_at k h) = fval h - P25519 * q"
proof -
  obtain h0 h1 h2 h3 h4 h5 h6 h7 h8 h9 where h: "h = Fe h0 h1 h2 h3 h4 h5 h6 h7 h8 h9" by (cases h)
  assume "k < 10"
  then have "k \<in> {0, 1, 2, 3, 4, 5, 6, 7, 8, 9}" by auto
  then have "fval (carry_at k h) = fval h - P25519 * (if k = 9 then drop_bit 25 (h9 + 2 ^ 24) else 0)"
    unfolding h insert_iff empty_iff
    by (elim disjE) (simp_all add: carry_at_def Let_def push_bit_eq_mult P25519_def)
  then show ?thesis ..
qed

lemma carries_val: "list_all (\<lambda>k. k < 10) ks \<Longrightarrow> fval (fold carry_at ks h) mod P25519 = fval h mod P25519"
proof (induction ks arbitrary: h)
  case (Cons k ks)
  obtain q where "fval (carry_at k h) = fval h - P25519 * q" using carry_at_val [of k h] Cons.prems by auto
  then have "fval (carry_at k h) mod P25519 = fval h mod P25519" by (simp add: mod_diff_right_eq [symmetric] del: mod_diff_right_eq)
  then show ?case using Cons by simp
qed simp

section \<open>The product\<close>

text \<open>The limbs without their signs: their product bounds every partial sum of the code.\<close>

definition fe_abs :: "fe \<Rightarrow> fe" where
  "fe_abs f = (case f of Fe f0 f1 f2 f3 f4 f5 f6 f7 f8 f9 \<Rightarrow>
     Fe \<bar>f0\<bar> \<bar>f1\<bar> \<bar>f2\<bar> \<bar>f3\<bar> \<bar>f4\<bar> \<bar>f5\<bar> \<bar>f6\<bar> \<bar>f7\<bar> \<bar>f8\<bar> \<bar>f9\<bar>)"

text \<open>Bounds of what \<^verbatim>\<open>fe_mul\<close> returns and of what it accepts: four such results, added or subtracted.\<close>

definition FE_OUT :: int where "FE_OUT = 2 ^ 25 + 2 ^ 18"
definition FE_IN :: int where "FE_IN = 4 * FE_OUT"

lemma fe_in_mono: "fe_in bs h \<Longrightarrow> list_all2 (\<le>) bs cs \<Longrightarrow> fe_in cs h"
  unfolding fe_in_def list_all2_conv_all_nth by (metis order_trans)

lemma replicate_10: "replicate 10 b = [b, b, b, b, b, b, b, b, b, b]"
  by (simp add: numeral_eq_Suc)

lemma fe_mul_raw_in:
  assumes "fe_le B f" "fe_le B g"
  shows "fe_le (267 * (B * B)) (fe_mul_raw f g)"
proof -
  obtain f0 f1 f2 f3 f4 f5 f6 f7 f8 f9 where f: "f = Fe f0 f1 f2 f3 f4 f5 f6 f7 f8 f9" by (cases f)
  obtain g0 g1 g2 g3 g4 g5 g6 g7 g8 g9 where g: "g = Fe g0 g1 g2 g3 g4 g5 g6 g7 g8 g9" by (cases g)
  have fs: "\<bar>f0\<bar> \<le> B" "\<bar>f1\<bar> \<le> B" "\<bar>f2\<bar> \<le> B" "\<bar>f3\<bar> \<le> B" "\<bar>f4\<bar> \<le> B" "\<bar>f5\<bar> \<le> B" "\<bar>f6\<bar> \<le> B"
    "\<bar>f7\<bar> \<le> B" "\<bar>f8\<bar> \<le> B" "\<bar>f9\<bar> \<le> B"
    using assms(1) by (simp_all add: f fe_in_def replicate_10)
  have gs: "\<bar>g0\<bar> \<le> B" "\<bar>g1\<bar> \<le> B" "\<bar>g2\<bar> \<le> B" "\<bar>g3\<bar> \<le> B" "\<bar>g4\<bar> \<le> B" "\<bar>g5\<bar> \<le> B" "\<bar>g6\<bar> \<le> B"
    "\<bar>g7\<bar> \<le> B" "\<bar>g8\<bar> \<le> B" "\<bar>g9\<bar> \<le> B"
    using assms(2) by (simp_all add: g fe_in_def replicate_10)
  have B: "0 \<le> B * B" by simp
  have m1: "\<bar>x * y\<bar> \<le> B * B" if "\<bar>x\<bar> \<le> B" "\<bar>y\<bar> \<le> B" for x y
    using mult_mono [OF that] that by (simp add: abs_mult)
  have m2: "\<bar>2 * x * y\<bar> \<le> 2 * (B * B)" and m19: "\<bar>x * y * 19\<bar> \<le> 19 * (B * B)" and m38: "\<bar>x * y * 38\<bar> \<le> 38 * (B * B)"
    if "\<bar>x\<bar> \<le> B" "\<bar>y\<bar> \<le> B" for x y
    using m1 [OF that] by (simp_all add: abs_mult mult.assoc)
  have add: "\<bar>x + y\<bar> \<le> p + q" if "\<bar>x\<bar> \<le> p" "\<bar>y\<bar> \<le> q" for x y p q :: int
    using that by linarith
  show ?thesis
    unfolding f g fe_mul_raw_def Let_def fe.case fe_in_def limbs.simps replicate_10 list_all2_Cons
    by (intro conjI list.rel_intros(1)) (rule order_trans, (rule add m38 m19 m2 m1 fs gs)+, use B in linarith)+
qed

definition MUL_CARRIES :: "nat list" where "MUL_CARRIES = [0, 4, 1, 5, 2, 6, 3, 7, 4, 8, 9, 0]"

lemma fe_mul_carries: "fe_mul_carry h = fold carry_at MUL_CARRIES h" "list_all (\<lambda>k. k < 10) MUL_CARRIES"
  by (simp_all add: fe_mul_carry_def MUL_CARRIES_def)

lemma fe_mul_val: "fval (fe_mul f g) mod P25519 = fval f * fval g mod P25519"
proof -
  obtain q where "fval f * fval g = fval (fe_mul_raw f g) + P25519 * q" using fval_mul_raw by blast
  then show ?thesis by (simp add: fe_mul_def fe_mul_carries carries_val)
qed

text \<open>The bounds after each of the twelve carries, computed.\<close>

definition RAW_BOUND :: int where "RAW_BOUND = 267 * (FE_IN * FE_IN)"

lemma carry_bounds_ok:
  "list_all (\<lambda>n. list_all (\<lambda>b. b \<le> 2 ^ 63 - 2 ^ 26) (fold carry_bounds (take n MUL_CARRIES) (replicate 10 RAW_BOUND))) [0..<13]"
  "list_all (\<lambda>b. b \<le> FE_OUT) (fold carry_bounds MUL_CARRIES (replicate 10 RAW_BOUND))"
  by code_simp+

lemma list_all2_replicate: "list_all (\<lambda>b. b \<le> B) bs \<Longrightarrow> length bs = n \<Longrightarrow> list_all2 (\<le>) bs (replicate n B)" for B :: int
  by (simp add: list_all2_conv_all_nth list_all_length)

lemma length_carry_bounds [simp]: "length (fold carry_bounds ks bs) = length bs"
  by (induction ks arbitrary: bs) (auto simp: carry_bounds_def Let_def)

lemma fe_mul_in:
  assumes "fe_le FE_IN f" "fe_le FE_IN g"
  shows "fe_le FE_OUT (fe_mul f g)"
    "n < 13 \<Longrightarrow> fe_le (2 ^ 63 - 2 ^ 26) (fold carry_at (take n MUL_CARRIES) (fe_mul_raw f g))"
proof -
  have raw: "fe_in (replicate 10 RAW_BOUND) (fe_mul_raw f g)"
    using fe_mul_raw_in [OF assms] by (simp add: RAW_BOUND_def)
  show "fe_le FE_OUT (fe_mul f g)"
    unfolding fe_mul_def fe_mul_carries(1)
    by (rule fe_in_mono [OF carries_in [OF raw fe_mul_carries(2)]])
      (simp add: list_all2_replicate carry_bounds_ok(2))
  show "fe_le (2 ^ 63 - 2 ^ 26) (fold carry_at (take n MUL_CARRIES) (fe_mul_raw f g))" if "n < 13"
  proof (rule fe_in_mono [OF carries_in [OF raw]])
    show "list_all (\<lambda>k. k < 10) (take n MUL_CARRIES)"
      using fe_mul_carries(2) by (auto simp: list_all_iff dest: in_set_takeD)
    show "list_all2 (\<le>) (fold carry_bounds (take n MUL_CARRIES) (replicate 10 RAW_BOUND)) (replicate 10 (2 ^ 63 - 2 ^ 26))"
      using carry_bounds_ok(1) that by (intro list_all2_replicate) (auto simp: list_all_iff)
  qed
qed

lemma fe_abs_le: "fe_le B f \<Longrightarrow> fe_le B (fe_abs f)"
  by (cases f) (simp add: fe_in_def replicate_10 fe_abs_def)

text \<open>
  C26. Multiplication modulo \<open>2 ^ 255 - 19\<close>. On operands that are sums or differences of up to four
  products, \<^verbatim>\<open>fe_mul\<close> returns limbs bounded like a product's that represent the product of the values
  modulo \<open>2 ^ 255 - 19\<close>; no term, partial sum or carry leaves the 64-bit range on the way.
\<close>

theorem fe_mul_correct:
  assumes "fe_le FE_IN f" "fe_le FE_IN g"
  shows "fval (fe_mul f g) mod P25519 = fval f * fval g mod P25519 \<and> fe_le FE_OUT (fe_mul f g) \<and>
    fe_le (2 ^ 63 - 2 ^ 26) (fe_mul_raw (fe_abs f) (fe_abs g)) \<and>
    (\<forall>n < 13. fe_le (2 ^ 63 - 2 ^ 26) (fold carry_at (take n MUL_CARRIES) (fe_mul_raw f g)))"
  using fe_mul_val [of f g] fe_mul_in(1) [OF assms] fe_mul_in(2) [OF assms]
    fe_mul_in(2) [OF fe_abs_le [OF assms(1)] fe_abs_le [OF assms(2)], of 0] by simp

theorem fe_mul_correct_witness:
  "fval (fe_mul fe_d fe_sqrtm1) mod P25519 = fval fe_d * fval fe_sqrtm1 mod P25519"
proof -
  have "fe_le FE_IN fe_d" "fe_le FE_IN fe_sqrtm1"
    by (simp_all add: fe_in_def replicate_10 fe_d_def fe_sqrtm1_def FE_IN_def FE_OUT_def)
  then show ?thesis using fe_mul_correct by blast
qed

end
