(* ===== verification/Field_Bytes.thy ===== *)
theory Field_Bytes
  imports Field25519 Chacha
begin

text \<open>
  Field elements as 32 bytes, \<^verbatim>\<open>fe_tobytes\<close> and \<^verbatim>\<open>fe_frombytes\<close>: the bytes of the unique
  representative below \<open>P25519\<close>, and the value of 255 bits.
\<close>

text \<open>The quotient by \<open>P25519\<close>, and the carries that bring each limb into its width.\<close>

definition fe_quot :: "fe \<Rightarrow> int" where
  "fe_quot h = (case h of Fe h0 h1 h2 h3 h4 h5 h6 h7 h8 h9 \<Rightarrow>
     (let q = drop_bit 25 (19 * h9 + 2 ^ 24);
          q = drop_bit 26 (h0 + q);
          q = drop_bit 25 (h1 + q);
          q = drop_bit 26 (h2 + q);
          q = drop_bit 25 (h3 + q);
          q = drop_bit 26 (h4 + q);
          q = drop_bit 25 (h5 + q);
          q = drop_bit 26 (h6 + q);
          q = drop_bit 25 (h7 + q);
          q = drop_bit 26 (h8 + q);
          q = drop_bit 25 (h9 + q)
      in q))"

definition fe_reduce :: "int \<Rightarrow> fe \<Rightarrow> fe" where
  "fe_reduce q h = (case h of Fe h0 h1 h2 h3 h4 h5 h6 h7 h8 h9 \<Rightarrow>
     (let h0 = h0 + 19 * q;
          c = drop_bit 26 h0; h1 = h1 + c; h0 = h0 - push_bit 26 c;
          c = drop_bit 25 h1; h2 = h2 + c; h1 = h1 - push_bit 25 c;
          c = drop_bit 26 h2; h3 = h3 + c; h2 = h2 - push_bit 26 c;
          c = drop_bit 25 h3; h4 = h4 + c; h3 = h3 - push_bit 25 c;
          c = drop_bit 26 h4; h5 = h5 + c; h4 = h4 - push_bit 26 c;
          c = drop_bit 25 h5; h6 = h6 + c; h5 = h5 - push_bit 25 c;
          c = drop_bit 26 h6; h7 = h7 + c; h6 = h6 - push_bit 26 c;
          c = drop_bit 25 h7; h8 = h8 + c; h7 = h7 - push_bit 25 c;
          c = drop_bit 26 h8; h9 = h9 + c; h8 = h8 - push_bit 26 c;
          c = drop_bit 25 h9; h9 = h9 - push_bit 25 c
      in Fe h0 h1 h2 h3 h4 h5 h6 h7 h8 h9))"

definition fe_pack :: "fe \<Rightarrow> bytes" where
  "fe_pack h = (case h of Fe h0 h1 h2 h3 h4 h5 h6 h7 h8 h9 \<Rightarrow>
     [word_of_int (drop_bit 0 h0), word_of_int (drop_bit 8 h0), word_of_int (drop_bit 16 h0), word_of_int (drop_bit 24 h0 OR push_bit 2 h1),
      word_of_int (drop_bit 6 h1), word_of_int (drop_bit 14 h1), word_of_int (drop_bit 22 h1 OR push_bit 3 h2), word_of_int (drop_bit 5 h2),
      word_of_int (drop_bit 13 h2), word_of_int (drop_bit 21 h2 OR push_bit 5 h3), word_of_int (drop_bit 3 h3), word_of_int (drop_bit 11 h3),
      word_of_int (drop_bit 19 h3 OR push_bit 6 h4), word_of_int (drop_bit 2 h4), word_of_int (drop_bit 10 h4), word_of_int (drop_bit 18 h4),
      word_of_int (drop_bit 0 h5), word_of_int (drop_bit 8 h5), word_of_int (drop_bit 16 h5), word_of_int (drop_bit 24 h5 OR push_bit 1 h6),
      word_of_int (drop_bit 7 h6), word_of_int (drop_bit 15 h6), word_of_int (drop_bit 23 h6 OR push_bit 3 h7), word_of_int (drop_bit 5 h7),
      word_of_int (drop_bit 13 h7), word_of_int (drop_bit 21 h7 OR push_bit 4 h8), word_of_int (drop_bit 4 h8), word_of_int (drop_bit 12 h8),
      word_of_int (drop_bit 20 h8 OR push_bit 6 h9), word_of_int (drop_bit 2 h9), word_of_int (drop_bit 10 h9), word_of_int (drop_bit 18 h9)])"

definition fe_tobytes :: "fe \<Rightarrow> bytes" where
  "fe_tobytes h = (let t = fe_carry (fe_copy h) in fe_pack (fe_reduce (fe_quot t) t))"

definition load24_le :: "bytes \<Rightarrow> int" where
  "load24_le p = uint (p ! 0) OR push_bit 8 (uint (p ! 1)) OR push_bit 16 (uint (p ! 2))"

definition fe_load :: "bytes \<Rightarrow> fe" where
  "fe_load s =
     Fe (uint (load32_le s)) (push_bit 6 (load24_le (drop 4 s))) (push_bit 5 (load24_le (drop 7 s)))
       (push_bit 3 (load24_le (drop 10 s))) (push_bit 2 (load24_le (drop 13 s))) (uint (load32_le (drop 16 s)))
       (push_bit 7 (load24_le (drop 20 s))) (push_bit 5 (load24_le (drop 23 s)))
       (push_bit 4 (load24_le (drop 26 s))) (push_bit 2 (load24_le (drop 29 s) AND 0x7FFFFF))"

definition fe_frombytes :: "bytes \<Rightarrow> fe" where
  "fe_frombytes s = fold carry_at [9, 1, 3, 5, 7, 0, 2, 4, 6, 8] (fe_load s)"

section \<open>Carrying\<close>

lemma fe_carry_val: "fval (fe_carry h) mod P25519 = fval h mod P25519"
proof -
  obtain h0 h1 h2 h3 h4 h5 h6 h7 h8 h9 where h: "h = Fe h0 h1 h2 h3 h4 h5 h6 h7 h8 h9" by (cases h)
  have "fval (fe_carry h) = fval h - P25519 * drop_bit 25 (h9 + 2 ^ 24)"
    unfolding h fe_carry_def Let_def fe.case fval.simps P25519_def push_bit_eq_mult by algebra
  then show ?thesis by (simp add: mod_diff_right_eq [symmetric] del: mod_diff_right_eq)
qed

text \<open>Limbs up to \<open>2 ^ 40\<close> are enough room for what \<^verbatim>\<open>fe_tobytes\<close> is given.\<close>

definition FE_CARRIED :: int where "FE_CARRIED = 2 ^ 25 + 2 ^ 20"

lemma fe_carry_in:
  assumes "fe_le (2 ^ 40) h"
  shows "fe_le FE_CARRIED (fe_carry h)" "\<bar>limbs (fe_carry h) ! 9\<bar> \<le> 2 ^ 24 + 2 ^ 20"
proof -
  obtain h0 h1 h2 h3 h4 h5 h6 h7 h8 h9 where h: "h = Fe h0 h1 h2 h3 h4 h5 h6 h7 h8 h9" by (cases h)
  have c: "\<bar>drop_bit 26 (x + 2 ^ 25)\<bar> \<le> 2 ^ 15" "\<bar>drop_bit 25 (x + 2 ^ 24)\<bar> \<le> 2 ^ 15 + 1"
    "\<bar>x - push_bit 26 (drop_bit 26 (x + 2 ^ 25))\<bar> \<le> 2 ^ 25" "\<bar>x - push_bit 25 (drop_bit 25 (x + 2 ^ 24))\<bar> \<le> 2 ^ 24"
    if "\<bar>x\<bar> \<le> 2 ^ 40" for x :: int
    using that carry26(1) [of x "2 ^ 40"] carry26(2) [of x] carry25(1) [of x "2 ^ 40"] carry25(2) [of x] by simp_all
  have hs: "\<bar>h0\<bar> \<le> 2 ^ 40" "\<bar>h1\<bar> \<le> 2 ^ 40" "\<bar>h2\<bar> \<le> 2 ^ 40" "\<bar>h3\<bar> \<le> 2 ^ 40" "\<bar>h4\<bar> \<le> 2 ^ 40" "\<bar>h5\<bar> \<le> 2 ^ 40"
    "\<bar>h6\<bar> \<le> 2 ^ 40" "\<bar>h7\<bar> \<le> 2 ^ 40" "\<bar>h8\<bar> \<le> 2 ^ 40" "\<bar>h9\<bar> \<le> 2 ^ 40"
    using assms by (simp_all add: h fe_in_def replicate_10)
  have add: "\<bar>x\<bar> \<le> a \<Longrightarrow> \<bar>y\<bar> \<le> b \<Longrightarrow> a + b \<le> d \<Longrightarrow> \<bar>x + y\<bar> \<le> d" for x y a b d :: int by linarith
  have c19: "\<bar>y * 19\<bar> \<le> 19 * 2 ^ 15 + 19" if "\<bar>y\<bar> \<le> 2 ^ 15 + 1" for y :: int using that by linarith
  show "\<bar>limbs (fe_carry h) ! 9\<bar> \<le> 2 ^ 24 + 2 ^ 20"
    unfolding h fe_carry_def Let_def fe.case
    using add [OF c(4) [OF hs(10)] c(1) [OF hs(9)]] by simp
  show "fe_le FE_CARRIED (fe_carry h)"
    unfolding h fe_carry_def Let_def fe.case fe_in_def limbs.simps replicate_10 list_all2_Cons
    by (intro conjI list.rel_intros(1))
      (rule add, (rule c(3) c(4) hs)+, (rule c19)?, rule c(1) c(2), rule hs, simp add: FE_CARRIED_def)+
qed

section \<open>Reducing\<close>

lemma div_chain: "(b + a div 2 ^ m) div 2 ^ n = (a + 2 ^ m * b) div 2 ^ (m + n)" for a b :: int
  by (simp add: zdiv_zmult2_eq add.commute power_add)

lemma mod_chain: "a mod 2 ^ m + 2 ^ m * ((b + a div 2 ^ m) mod 2 ^ n) = (a + 2 ^ m * b) mod 2 ^ (m + n)" for a b :: int
  by (simp add: zmod_zmult2_eq add.commute power_add)

lemma fe_quot_div:
  "fe_quot h = (fval h + drop_bit 25 (19 * limbs h ! 9 + 2 ^ 24)) div 2 ^ 255"
proof -
  obtain h0 h1 h2 h3 h4 h5 h6 h7 h8 h9 where h: "h = Fe h0 h1 h2 h3 h4 h5 h6 h7 h8 h9" by (cases h)
  define q where "q = drop_bit 25 (19 * h9 + 2 ^ 24)"
  have "fe_quot h = (fval h + q) div 2 ^ 255"
    unfolding h fe_quot_def Let_def fe.case q_def [symmetric] fval.simps
    unfolding drop_bit_eq_div
    by (simp only: div_chain Num.arith_simps) (simp add: algebra_simps)
  then show ?thesis by (simp add: h q_def)
qed

text \<open>With \<open>P25519\<close> close to a power of two the quotient is 0 or -1: the sign of the value.\<close>

lemma limbs_dominate:
  assumes "fe_le FE_CARRIED h" "\<bar>limbs h ! 9\<bar> \<le> 2 ^ 24 + 2 ^ 20"
  shows "\<bar>fval h - 2 ^ 230 * limbs h ! 9\<bar> < 2 ^ 229 + 2 ^ 225" "\<bar>fval h\<bar> < P25519"
proof -
  obtain h0 h1 h2 h3 h4 h5 h6 h7 h8 h9 where h: "h = Fe h0 h1 h2 h3 h4 h5 h6 h7 h8 h9" by (cases h)
  have b: "\<bar>h0\<bar> \<le> FE_CARRIED" "\<bar>h1\<bar> \<le> FE_CARRIED" "\<bar>h2\<bar> \<le> FE_CARRIED" "\<bar>h3\<bar> \<le> FE_CARRIED" "\<bar>h4\<bar> \<le> FE_CARRIED"
    "\<bar>h5\<bar> \<le> FE_CARRIED" "\<bar>h6\<bar> \<le> FE_CARRIED" "\<bar>h7\<bar> \<le> FE_CARRIED" "\<bar>h8\<bar> \<le> FE_CARRIED"
    using assms(1) by (simp_all add: h fe_in_def replicate_10)
  show "\<bar>fval h - 2 ^ 230 * limbs h ! 9\<bar> < 2 ^ 229 + 2 ^ 225"
    using b by (simp add: h FE_CARRIED_def abs_less_iff abs_le_iff)
  with assms(2) show "\<bar>fval h\<bar> < P25519"
    by (simp add: P25519_def abs_less_iff abs_le_iff)
qed

lemma fe_quot_sign:
  assumes "fe_le FE_CARRIED h" "\<bar>limbs h ! 9\<bar> \<le> 2 ^ 24 + 2 ^ 20"
  shows "fe_quot h = (if fval h < 0 then -1 else 0)"
proof -
  define h9 where "h9 = limbs h ! 9"
  define q0 where "q0 = drop_bit 25 (19 * h9 + 2 ^ 24)"
  have "2 ^ 25 * q0 \<le> 19 * h9 + 2 ^ 24" "19 * h9 + 2 ^ 24 < 2 ^ 25 * q0 + 2 ^ 25"
    using mult_div_mod_eq [of "2 ^ 25" "19 * h9 + 2 ^ 24"] pos_mod_bound [of "2 ^ 25" "19 * h9 + 2 ^ 24"]
      pos_mod_sign [of "2 ^ 25" "19 * h9 + 2 ^ 24"] by (simp_all add: q0_def drop_bit_eq_div)
  then have q0: "q0 \<le> 19" "-19 \<le> q0" "0 \<le> h9 \<Longrightarrow> 0 \<le> q0" "h9 \<le> 0 \<Longrightarrow> q0 \<le> 0"
    using assms(2) by (simp_all add: abs_le_iff flip: h9_def)
  have "0 \<le> fval h \<Longrightarrow> 0 \<le> h9" "fval h < 0 \<Longrightarrow> h9 \<le> 0"
    using limbs_dominate(1) [OF assms] unfolding h9_def by (simp_all add: abs_less_iff)
  then have "0 \<le> fval h \<Longrightarrow> 0 \<le> fval h + q0" "fval h < 0 \<Longrightarrow> fval h + q0 < 0" 
    using q0 by linarith+
  moreover have "fval h + q0 < 2 ^ 255" "- (2 ^ 255) \<le> fval h + q0"
    using limbs_dominate(2) [OF assms] q0 by (simp_all add: P25519_def abs_less_iff)
  ultimately have "(fval h + q0) div 2 ^ 255 = (if fval h < 0 then -1 else 0)"
    using int_div_pos_eq [of "fval h + q0" "2 ^ 255" "-1" "fval h + q0 + 2 ^ 255"] by (simp add: div_pos_pos_trivial)
  then show ?thesis using fe_quot_div [of h, folded h9_def, folded q0_def] by simp
qed

text \<open>The last carries compute a representation modulo \<open>2 ^ 255\<close>, with every limb in its width.\<close>

definition fe_canon :: "fe \<Rightarrow> bool" where
  "fe_canon h = (case h of Fe h0 h1 h2 h3 h4 h5 h6 h7 h8 h9 \<Rightarrow>
     (0 \<le> h0 \<and> h0 < 2 ^ 26) \<and> (0 \<le> h1 \<and> h1 < 2 ^ 25) \<and> (0 \<le> h2 \<and> h2 < 2 ^ 26) \<and> (0 \<le> h3 \<and> h3 < 2 ^ 25) \<and>
     (0 \<le> h4 \<and> h4 < 2 ^ 26) \<and> (0 \<le> h5 \<and> h5 < 2 ^ 25) \<and> (0 \<le> h6 \<and> h6 < 2 ^ 26) \<and> (0 \<le> h7 \<and> h7 < 2 ^ 25) \<and>
     (0 \<le> h8 \<and> h8 < 2 ^ 26) \<and> (0 \<le> h9 \<and> h9 < 2 ^ 25))"

lemma fe_reduce_val: "fval (fe_reduce q h) = (fval h + 19 * q) mod 2 ^ 255"
proof -
  obtain h0 h1 h2 h3 h4 h5 h6 h7 h8 h9 where h: "h = Fe h0 h1 h2 h3 h4 h5 h6 h7 h8 h9" by (cases h)
  define x where "x = h0 + 19 * q"
  have "fval (fe_reduce q h) = (x + 2 ^ 26 * h1 + 2 ^ 51 * h2 + 2 ^ 77 * h3 + 2 ^ 102 * h4 + 2 ^ 128 * h5 +
      2 ^ 153 * h6 + 2 ^ 179 * h7 + 2 ^ 204 * h8 + 2 ^ 230 * h9) mod 2 ^ 255"
    unfolding h fe_reduce_def Let_def fe.case fval.simps x_def [symmetric]
    unfolding drop_bit_eq_div push_bit_eq_mult minus_div_mult_eq_mod
    by (simp only: div_chain mod_chain Num.arith_simps)
  then show ?thesis by (simp add: h x_def algebra_simps)
qed

lemma fe_reduce_canon: "fe_canon (fe_reduce q h)"
proof -
  obtain h0 h1 h2 h3 h4 h5 h6 h7 h8 h9 where h: "h = Fe h0 h1 h2 h3 h4 h5 h6 h7 h8 h9" by (cases h)
  show ?thesis
    unfolding h fe_canon_def fe_reduce_def Let_def fe.case
    unfolding drop_bit_eq_div push_bit_eq_mult minus_div_mult_eq_mod
    by (intro conjI pos_mod_sign pos_mod_bound zero_less_power zero_less_numeral)
qed

section \<open>Packing\<close>

text \<open>The bytes of a number, low first: what \<^verbatim>\<open>fe_pack\<close> writes for limbs in their widths.\<close>

definition le32 :: "int \<Rightarrow> bytes" where
  "le32 v = map (\<lambda>i. word_of_int (drop_bit (8 * i) v)) [0..<32]"

lemma or_push_int:
  fixes x y :: int
  assumes "0 \<le> x" "x < 2 ^ k"
  shows "x OR push_bit k y = x + push_bit k y"
proof -
  have "take_bit k x = x" using assms by (simp add: take_bit_int_eq_self_iff)
  then have "\<not> bit x n \<or> \<not> bit (push_bit k y) n" for n
    by (metis bit_push_bit_iff bit_take_bit_iff leD)
  then show ?thesis by (simp add: disjunctive_add)
qed

lemma byte_cong: "(2 ^ 8 :: int) dvd a - b \<Longrightarrow> (word_of_int a :: 8 word) = word_of_int b" for a b :: int
  by (simp add: word_of_int_eq_iff take_bit_eq_mod mod_eq_dvd_iff)

lemma drop_join: "w \<le> k \<Longrightarrow> 0 \<le> h \<Longrightarrow> h < 2 ^ w \<Longrightarrow> drop_bit k (h + push_bit w r) = drop_bit (k - w) r" for h r :: int
proof -
  assume a: "w \<le> k" "0 \<le> h" "h < 2 ^ w"
  have "(2::int) ^ k = 2 ^ w * 2 ^ (k - w)" using a(1) by (simp flip: power_add)
  then show ?thesis using a by (simp add: drop_bit_eq_div push_bit_eq_mult zdiv_zmult2_eq)
qed

lemma drop_split: "k \<le> w \<Longrightarrow> drop_bit k (h + push_bit w r) = drop_bit k h + push_bit (w - k) r" for h r :: int
proof -
  assume a: "k \<le> w"
  have "(2::int) ^ w = 2 ^ (w - k) * 2 ^ k" using a by (simp flip: power_add)
  then show ?thesis by (simp add: drop_bit_eq_div push_bit_eq_mult flip: mult.assoc)
qed

lemma byte_in:
  fixes h r :: int
  assumes "k + 8 \<le> w"
  shows "word_of_int (drop_bit k (h + push_bit w r)) = (word_of_int (drop_bit k h) :: 8 word)"
proof (rule byte_cong)
  have "drop_bit k (h + push_bit w r) - drop_bit k h = push_bit (w - k) r" using assms by (simp add: drop_split)
  then show "2 ^ 8 dvd drop_bit k (h + push_bit w r) - drop_bit k h"
    using assms by (simp add: push_bit_eq_mult le_imp_power_dvd dvd_mult del: power_numeral)
qed

lemma byte_cross:
  fixes g h r :: int
  assumes "k \<le> w" "0 \<le> h" "h < 2 ^ w" "8 \<le> w - k + u"
  shows "word_of_int (drop_bit k (h + push_bit w (g + push_bit u r))) = (word_of_int (drop_bit k h OR push_bit (w - k) g) :: 8 word)"
proof -
  have "take_bit (w - k) (drop_bit k h) = drop_bit k h"
    using assms by (simp add: take_bit_int_eq_self flip: drop_bit_take_bit)
  then have "0 \<le> drop_bit k h" "drop_bit k h < 2 ^ (w - k)"
    by (metis take_bit_nonnegative, metis take_bit_int_less_exp)
  then have "drop_bit k h OR push_bit (w - k) g = drop_bit k h + push_bit (w - k) g" by (rule or_push_int)
  moreover have "push_bit (w - k) (g + push_bit u r) = push_bit (w - k) g + push_bit (w - k + u) r"
    by (simp add: push_bit_add add.commute)
  ultimately have "drop_bit k (h + push_bit w (g + push_bit u r)) - (drop_bit k h OR push_bit (w - k) g) = push_bit (w - k + u) r"
    using assms by (simp add: drop_split)
  then show ?thesis using assms
    by (intro byte_cong) (simp add: push_bit_eq_mult le_imp_power_dvd dvd_mult del: power_numeral)
qed

text \<open>With \<open>Hi\<close> the number that the limbs from \<open>i\<close> on make, each byte is a cut of one or two limbs.\<close>

lemma fe_pack_le:
  assumes "fe_canon h"
  shows "fe_pack h = le32 (fval h)"
proof -
  obtain h0 h1 h2 h3 h4 h5 h6 h7 h8 h9 where h: "h = Fe h0 h1 h2 h3 h4 h5 h6 h7 h8 h9" by (cases h)
  define H9 where "H9 = h9 + push_bit 25 0"
  define H8 where "H8 = h8 + push_bit 26 H9"
  define H7 where "H7 = h7 + push_bit 25 H8"
  define H6 where "H6 = h6 + push_bit 26 H7"
  define H5 where "H5 = h5 + push_bit 25 H6"
  define H4 where "H4 = h4 + push_bit 26 H5"
  define H3 where "H3 = h3 + push_bit 25 H4"
  define H2 where "H2 = h2 + push_bit 26 H3"
  define H1 where "H1 = h1 + push_bit 25 H2"
  define H0 where "H0 = h0 + push_bit 26 H1"
  note H = H0_def H1_def H2_def H3_def H4_def H5_def H6_def H7_def H8_def H9_def
  have "fval h = H0" unfolding H h fval.simps push_bit_eq_mult by simp
  have b: "0 \<le> h0" "h0 < 2 ^ 26" "0 \<le> h1" "h1 < 2 ^ 25" "0 \<le> h2" "h2 < 2 ^ 26" "0 \<le> h3" "h3 < 2 ^ 25"
    "0 \<le> h4" "h4 < 2 ^ 26" "0 \<le> h5" "h5 < 2 ^ 25" "0 \<le> h6" "h6 < 2 ^ 26" "0 \<le> h7" "h7 < 2 ^ 25"
    "0 \<le> h8" "h8 < 2 ^ 26" "0 \<le> h9" "h9 < 2 ^ 25"
    using assms unfolding h fe_canon_def fe.case by blast+
  have skip: "26 \<le> k \<Longrightarrow> k < 51 \<Longrightarrow> drop_bit k H0 = drop_bit (k - 26) H1"
    "51 \<le> k \<Longrightarrow> k < 77 \<Longrightarrow> drop_bit k H0 = drop_bit (k - 51) H2"
    "77 \<le> k \<Longrightarrow> k < 102 \<Longrightarrow> drop_bit k H0 = drop_bit (k - 77) H3"
    "102 \<le> k \<Longrightarrow> k < 128 \<Longrightarrow> drop_bit k H0 = drop_bit (k - 102) H4"
    "128 \<le> k \<Longrightarrow> k < 153 \<Longrightarrow> drop_bit k H0 = drop_bit (k - 128) H5"
    "153 \<le> k \<Longrightarrow> k < 179 \<Longrightarrow> drop_bit k H0 = drop_bit (k - 153) H6"
    "179 \<le> k \<Longrightarrow> k < 204 \<Longrightarrow> drop_bit k H0 = drop_bit (k - 179) H7"
    "204 \<le> k \<Longrightarrow> k < 230 \<Longrightarrow> drop_bit k H0 = drop_bit (k - 204) H8"
    "230 \<le> k \<Longrightarrow> k < 256 \<Longrightarrow> drop_bit k H0 = drop_bit (k - 230) H9" for k
    unfolding H0_def H1_def H2_def H3_def H4_def H5_def H6_def H7_def H8_def
    by (simp_all only: drop_join b) (simp_all add: drop_join b)
  have inside: "k + 8 \<le> 26 \<Longrightarrow> word_of_int (drop_bit k H0) = (word_of_int (drop_bit k h0) :: 8 word)"
    "k + 8 \<le> 25 \<Longrightarrow> word_of_int (drop_bit k H1) = (word_of_int (drop_bit k h1) :: 8 word)"
    "k + 8 \<le> 26 \<Longrightarrow> word_of_int (drop_bit k H2) = (word_of_int (drop_bit k h2) :: 8 word)"
    "k + 8 \<le> 25 \<Longrightarrow> word_of_int (drop_bit k H3) = (word_of_int (drop_bit k h3) :: 8 word)"
    "k + 8 \<le> 26 \<Longrightarrow> word_of_int (drop_bit k H4) = (word_of_int (drop_bit k h4) :: 8 word)"
    "k + 8 \<le> 25 \<Longrightarrow> word_of_int (drop_bit k H5) = (word_of_int (drop_bit k h5) :: 8 word)"
    "k + 8 \<le> 26 \<Longrightarrow> word_of_int (drop_bit k H6) = (word_of_int (drop_bit k h6) :: 8 word)"
    "k + 8 \<le> 25 \<Longrightarrow> word_of_int (drop_bit k H7) = (word_of_int (drop_bit k h7) :: 8 word)"
    "k + 8 \<le> 26 \<Longrightarrow> word_of_int (drop_bit k H8) = (word_of_int (drop_bit k h8) :: 8 word)"
    "k + 8 \<le> 25 \<Longrightarrow> word_of_int (drop_bit k H9) = (word_of_int (drop_bit k h9) :: 8 word)" for k
    unfolding H by (rule byte_in, assumption)+
  have cross: "26 < k + 8 \<Longrightarrow> k \<le> 26 \<Longrightarrow> word_of_int (drop_bit k H0) = (word_of_int (drop_bit k h0 OR push_bit (26 - k) h1) :: 8 word)"
    "25 < k + 8 \<Longrightarrow> k \<le> 25 \<Longrightarrow> word_of_int (drop_bit k H1) = (word_of_int (drop_bit k h1 OR push_bit (25 - k) h2) :: 8 word)"
    "26 < k + 8 \<Longrightarrow> k \<le> 26 \<Longrightarrow> word_of_int (drop_bit k H2) = (word_of_int (drop_bit k h2 OR push_bit (26 - k) h3) :: 8 word)"
    "25 < k + 8 \<Longrightarrow> k \<le> 25 \<Longrightarrow> word_of_int (drop_bit k H3) = (word_of_int (drop_bit k h3 OR push_bit (25 - k) h4) :: 8 word)"
    "26 < k + 8 \<Longrightarrow> k \<le> 26 \<Longrightarrow> word_of_int (drop_bit k H4) = (word_of_int (drop_bit k h4 OR push_bit (26 - k) h5) :: 8 word)"
    "25 < k + 8 \<Longrightarrow> k \<le> 25 \<Longrightarrow> word_of_int (drop_bit k H5) = (word_of_int (drop_bit k h5 OR push_bit (25 - k) h6) :: 8 word)"
    "26 < k + 8 \<Longrightarrow> k \<le> 26 \<Longrightarrow> word_of_int (drop_bit k H6) = (word_of_int (drop_bit k h6 OR push_bit (26 - k) h7) :: 8 word)"
    "25 < k + 8 \<Longrightarrow> k \<le> 25 \<Longrightarrow> word_of_int (drop_bit k H7) = (word_of_int (drop_bit k h7 OR push_bit (25 - k) h8) :: 8 word)"
    "26 < k + 8 \<Longrightarrow> k \<le> 26 \<Longrightarrow> word_of_int (drop_bit k H8) = (word_of_int (drop_bit k h8 OR push_bit (26 - k) h9) :: 8 word)" for k
    unfolding H by (rule byte_cross, assumption, rule b, rule b, linarith)+
  have ix: "[0..<32] = [0, 1, 2, 3, 4, 5, 6, 7, 8, 9, 10, 11, 12, 13, 14, 15, 16, 17, 18, 19, 20, 21, 22, 23, 24, 25, 26, 27, 28, 29, 30, 31]"
    by (simp add: upt_rec)
  show ?thesis
    unfolding le32_def \<open>fval h = H0\<close> ix list.map
    unfolding h fe_pack_def fe.case
    using inside(1) [of 0] inside(6) [of 0] by (simp add: skip inside cross) (simp add: H9_def)
qed

lemma fe_tobytes_canonical:
  assumes "fe_le (2 ^ 40) h"
  shows "fe_tobytes h = le32 (fval h mod P25519)"
proof -
  define t where "t = fe_carry h"
  note t = fe_carry_in [OF assms, folded t_def]
  note v = limbs_dominate(2) [OF t]
  have "fval (fe_reduce (fe_quot t) t) = fval t mod P25519"
  proof (cases "fval t < 0")
    case True
    then have "(fval t - 19) mod 2 ^ 255 = fval t + P25519" "fval t mod P25519 = fval t + P25519"
      using v mod_pos_pos_trivial [of "fval t + P25519" "2 ^ 255"] mod_pos_pos_trivial [of "fval t + P25519" P25519]
        mod_add_self2 [of "fval t - 19" "2 ^ 255"]
      by (simp_all add: P25519_def)
    then show ?thesis using True by (simp add: fe_reduce_val fe_quot_sign [OF t])
  next
    case False
    then show ?thesis using v by (simp add: fe_reduce_val fe_quot_sign [OF t] P25519_def)
  qed
  also have "\<dots> = fval h mod P25519" unfolding t_def by (rule fe_carry_val)
  finally show ?thesis
    using fe_pack_le [OF fe_reduce_canon, of "fe_quot t" t] by (simp add: fe_tobytes_def fe_copy_def t_def)
qed

section \<open>Loading\<close>

text \<open>The number that bytes stand for, low byte first.\<close>

fun le_int :: "bytes \<Rightarrow> int" where
  "le_int [] = 0"
| "le_int (b # bs) = uint b + 2 ^ 8 * le_int bs"

lemma uint_u8: "0 \<le> uint (w :: u8)" "uint w \<le> 255"
  using uint_bounded [of w] by simp_all

lemma or_bytes:
  fixes a b c d :: u8
  shows "uint a OR push_bit 8 (uint b) = uint a + 2 ^ 8 * uint b"
    "uint a OR push_bit 8 (uint b) OR push_bit 16 (uint c) = uint a + 2 ^ 8 * uint b + 2 ^ 16 * uint c"
    "uint a OR push_bit 8 (uint b) OR push_bit 16 (uint c) OR push_bit 24 (uint d) =
      uint a + 2 ^ 8 * uint b + 2 ^ 16 * uint c + 2 ^ 24 * uint d"
proof -
  note u = uint_u8 [of a] uint_u8 [of b] uint_u8 [of c]
  show one: "uint a OR push_bit 8 (uint b) = uint a + 2 ^ 8 * uint b"
    using u or_push_int [of "uint a" 8] by (simp add: push_bit_eq_mult mult.commute)
  show two: "uint a OR push_bit 8 (uint b) OR push_bit 16 (uint c) = uint a + 2 ^ 8 * uint b + 2 ^ 16 * uint c"
    using u or_push_int [of "uint a + 2 ^ 8 * uint b" 16] unfolding or.assoc [symmetric] one
    by (simp add: push_bit_eq_mult mult.commute)
  show "uint a OR push_bit 8 (uint b) OR push_bit 16 (uint c) OR push_bit 24 (uint d) =
      uint a + 2 ^ 8 * uint b + 2 ^ 16 * uint c + 2 ^ 24 * uint d"
    using u or_push_int [of "uint a + 2 ^ 8 * uint b + 2 ^ 16 * uint c" 24] unfolding or.assoc [symmetric] two [unfolded or.assoc [symmetric]]
    by (simp add: push_bit_eq_mult mult.commute)
qed

lemma load24_le_val: "load24_le p = uint (p ! 0) + 2 ^ 8 * uint (p ! 1) + 2 ^ 16 * uint (p ! 2)"
  by (simp only: load24_le_def or_bytes)

lemma load32_le_val: "uint (load32_le p) = uint (p ! 0) + 2 ^ 8 * uint (p ! 1) + 2 ^ 16 * uint (p ! 2) + 2 ^ 24 * uint (p ! 3)"
proof -
  have "uint (load32_le p) = uint (p ! 0) OR push_bit 8 (uint (p ! 1)) OR push_bit 16 (uint (p ! 2)) OR push_bit 24 (uint (p ! 3))"
    by (rule bit_eqI) (auto simp: load32_le_def bit_field bit_simps dest: bit_u8_len)
  then show ?thesis by (simp only: or_bytes)
qed

lemma length_32:
  assumes "length s = 32"
  obtains b0 b1 b2 b3 b4 b5 b6 b7 b8 b9 b10 b11 b12 b13 b14 b15 b16 b17 b18 b19 b20 b21 b22 b23 b24 b25 b26 b27 b28 b29 b30 b31
  where "s = [b0, b1, b2, b3, b4, b5, b6, b7, b8, b9, b10, b11, b12, b13, b14, b15, b16, b17, b18, b19, b20, b21, b22, b23,
    b24, b25, b26, b27, b28, b29, b30, b31]"
  using assms by (auto simp: numeral_eq_Suc length_Suc_conv)

lemma le_int_bound: "0 \<le> le_int s" "le_int s < 2 ^ (8 * length s)"
proof (induction s)
  case (Cons b s)
  then show "0 \<le> le_int (b # s)" "le_int (b # s) < 2 ^ (8 * length (b # s))"
    using uint_u8 [of b] by (simp_all add: power_add)
qed simp_all

lemma split_128:
  obtains q r where "uint (b :: u8) = 128 * q + r" "uint b mod 128 = r" "0 \<le> r" "r < 128"
  by (rule that [of "uint b div 128" "uint b mod 128"]) simp_all

lemma load24_masked: "load24_le p AND 0x7FFFFF = uint (p ! 0) + 2 ^ 8 * uint (p ! 1) + 2 ^ 16 * (uint (p ! 2) mod 128)"
proof -
  obtain q r where q: "uint (p ! 2) = 128 * q + r" "uint (p ! 2) mod 128 = r" "0 \<le> r" "r < 128" by (rule split_128)
  have "load24_le p AND 0x7FFFFF = load24_le p mod 2 ^ 23"
    using take_bit_eq_mask [of 23 "load24_le p"] by (simp add: mask_eq_exp_minus_1 take_bit_eq_mod)
  also have "\<dots> = ((uint (p ! 0) + 2 ^ 8 * uint (p ! 1) + 2 ^ 16 * r) + 2 ^ 23 * q) mod 2 ^ 23"
    by (rule arg_cong [where f = "\<lambda>x. x mod 2 ^ 23"]) (simp add: load24_le_val q(1))
  also have "\<dots> = uint (p ! 0) + 2 ^ 8 * uint (p ! 1) + 2 ^ 16 * r"
    using uint_u8 [of "p ! 0"] uint_u8 [of "p ! 1"] q by simp
  finally show ?thesis by (simp add: q)
qed

lemma fe_load_val:
  assumes "length s = 32"
  shows "fval (fe_load s) = le_int s mod 2 ^ 255" "fe_le (2 ^ 32) (fe_load s)"
proof -
  obtain b0 b1 b2 b3 b4 b5 b6 b7 b8 b9 b10 b11 b12 b13 b14 b15 b16 b17 b18 b19 b20 b21 b22 b23 b24 b25 b26 b27 b28 b29 b30 b31
    where s: "s = [b0, b1, b2, b3, b4, b5, b6, b7, b8, b9, b10, b11, b12, b13, b14, b15, b16, b17, b18, b19, b20, b21, b22, b23,
      b24, b25, b26, b27, b28, b29, b30, b31]"
    using length_32 [OF assms] .
  obtain q r where q: "uint b31 = 128 * q + r" "uint b31 mod 128 = r" "0 \<le> r" "r < 128" by (rule split_128)
  define v where "v = le_int (take 31 s)"
  have "fval (fe_load s) = v + 2 ^ 248 * (uint b31 mod 128)"
    unfolding s v_def fe_load_def fval.simps load24_masked unfolding load24_le_val load32_le_val push_bit_eq_mult
    by simp
  moreover have "le_int s = v + 2 ^ 248 * r + 2 ^ 255 * q"
    unfolding s v_def by (simp add: q(1))
  moreover have "0 \<le> v" "v < 2 ^ 248"
    using le_int_bound [of "take 31 s"] assms by (simp_all add: v_def)
  ultimately show "fval (fe_load s) = le_int s mod 2 ^ 255" using q by simp
  note u = uint_u8 [of b0] uint_u8 [of b1] uint_u8 [of b2] uint_u8 [of b3] uint_u8 [of b4] uint_u8 [of b5] uint_u8 [of b6] uint_u8 [of b7] uint_u8 [of b8] uint_u8 [of b9] uint_u8 [of b10] uint_u8 [of b11]
    uint_u8 [of b12] uint_u8 [of b13] uint_u8 [of b14] uint_u8 [of b15] uint_u8 [of b16] uint_u8 [of b17] uint_u8 [of b18] uint_u8 [of b19] uint_u8 [of b20] uint_u8 [of b21]
    uint_u8 [of b22] uint_u8 [of b23] uint_u8 [of b24] uint_u8 [of b25] uint_u8 [of b26] uint_u8 [of b27] uint_u8 [of b28] uint_u8 [of b29] uint_u8 [of b30]
  show "fe_le (2 ^ 32) (fe_load s)"
    unfolding s fe_load_def fe_in_def limbs.simps replicate_10 load24_masked unfolding load24_le_val load32_le_val push_bit_eq_mult
    using u q by (simp add: algebra_simps)
qed

lemma fe_frombytes_val:
  assumes "length s = 32"
  shows "fval (fe_frombytes s) mod P25519 = le_int s mod 2 ^ 255 mod P25519" "fe_le FE_OUT (fe_frombytes s)"
proof -
  have ks: "list_all (\<lambda>k. k < 10) [9, 1, 3, 5, 7, 0, 2, 4, 6, 8 :: nat]" by simp
  show "fval (fe_frombytes s) mod P25519 = le_int s mod 2 ^ 255 mod P25519"
    using carries_val [OF ks, of "fe_load s"] unfolding fe_frombytes_def fe_load_val(1) [OF assms] .
  have "list_all (\<lambda>b. b \<le> FE_OUT) (fold carry_bounds [9, 1, 3, 5, 7, 0, 2, 4, 6, 8] (replicate 10 (2 ^ 32)))"
    by code_simp
  then show "fe_le FE_OUT (fe_frombytes s)"
    unfolding fe_frombytes_def
    by (intro fe_in_mono [OF carries_in [OF fe_load_val(2) [OF assms] ks]] list_all2_replicate)
      (simp_all only: length_carry_bounds length_replicate)
qed

text \<open>
  C27. Reading and writing field elements. For 32 bytes, \<^verbatim>\<open>fe_frombytes\<close> followed by \<^verbatim>\<open>fe_tobytes\<close> returns
  the little-endian bytes of the unique representative below \<open>2 ^ 255 - 19\<close> of the number that the low
  255 bits stand for; in particular a canonical encoding is returned as it was.
\<close>

theorem fe_bytes_canonical:
  assumes "length s = 32"
  shows "fe_tobytes (fe_frombytes s) = le32 (le_int s mod 2 ^ 255 mod P25519)"
proof -
  have "fe_le (2 ^ 40) (fe_frombytes s)"
    by (rule fe_in_mono [OF fe_frombytes_val(2) [OF assms]]) (simp add: FE_OUT_def replicate_10)
  then show ?thesis
    by (simp add: fe_tobytes_canonical fe_frombytes_val(1) [OF assms])
qed

theorem fe_bytes_canonical_witness:
  "fe_tobytes (fe_frombytes (0xED # replicate 30 0xFF @ [0xFF])) = replicate 32 0"
proof -
  have "le_int (0xED # replicate 30 0xFF @ [0xFF]) mod 2 ^ 255 mod P25519 = 0" by code_simp
  moreover have "le32 0 = replicate 32 0" by (simp add: le32_def map_replicate_const)
  ultimately show ?thesis using fe_bytes_canonical [of "0xED # replicate 30 0xFF @ [0xFF]"] by simp
qed

end
