(* ===== verification/Ed25519.thy ===== *)
theory Ed25519
  imports Field_Bytes
begin

text \<open>
  The group code of \<^verbatim>\<open>crypt/mz_crypt.c\<close> over the field of \<open>Field25519\<close>: the two addition chains, point
  decompression and doubling on the twisted Edwards curve \<open>- x\<^sup>2 + y\<^sup>2 = 1 + d x\<^sup>2 y\<^sup>2\<close>.
\<close>

record ge_p3 =
  p3_X :: fe
  p3_Y :: fe
  p3_Z :: fe
  p3_T :: fe

record ge_p2 =
  p2_X :: fe
  p2_Y :: fe
  p2_Z :: fe

datatype ge_precomp = Ge_precomp (YplusX: fe) (YminusX: fe) (precomp_Z: fe) (T2d: fe)

text \<open>An initialiser with three of the four fields: C sets the last one, \<open>T2d\<close>, to zero.\<close>

definition ge_Bi :: "ge_precomp list" where
  "ge_Bi =
    [Ge_precomp (Fe 25967493 (-14356035) 29566456 3660896 (-12694345) 4014787 27544626 (-11754271) (-6079156) 2047605)
       (Fe (-12545711) 934262 (-2722910) 3049990 (-727428) 9406986 12720692 5043384 19500929 (-15469378))
       (Fe (-8738181) 4489570 9688441 (-14785194) 10184609 (-12363380) 29287919 11864899 (-24514362) (-4438546)) fe_zero,
     Ge_precomp (Fe 15636291 (-9688557) 24204773 (-7912398) 616977 (-16685262) 27787600 (-14772189) 28944400 (-1550024))
       (Fe 16568933 4717097 (-11556148) (-1102322) 15682896 (-11807043) 16354577 (-11775962) 7689662 11199574)
       (Fe 30464156 (-5976125) (-11779434) (-15670865) 23220365 15915852 7512774 10017326 (-17749093) (-9920357)) fe_zero,
     Ge_precomp (Fe 10861363 11473154 27284546 1981175 (-30064349) 12577861 32867885 14515107 (-15438304) 10819380)
       (Fe 4708026 6336745 20377586 9066809 (-11272109) 6594696 (-25653668) 12483688 (-12668491) 5581306)
       (Fe 19563160 16186464 (-29386857) 4097519 10237984 (-4348115) 28542350 13850243 (-23678021) (-15815942)) fe_zero,
     Ge_precomp (Fe 5153746 9909285 1723747 (-2777874) 30523605 5516873 19480852 5230134 (-23952439) (-15195766))
       (Fe (-30269007) (-3463509) 7665486 10083793 28475525 1649722 20654025 16520125 30598449 7715701)
       (Fe 28881845 14381568 9657904 3680757 (-20181635) 7843316 (-31400660) 1370708 29794553 (-1409300)) fe_zero,
     Ge_precomp (Fe (-22518993) (-6692182) 14201702 (-8745502) (-23510406) 8844726 18474211 (-1361450) (-13062696) 13821877)
       (Fe (-6455177) (-7839871) 3374702 (-4740862) (-27098617) (-10571707) 31603728 (-7212127) (-14201468) (-16419393))
       (Fe 20395928 2075033 (-15189404) 5982089 (-15434556) 11992525 8705776 (-732144) 17226879 6518544) fe_zero,
     Ge_precomp (Fe (-19364450) (-4034699) (-10372914) (-11470341) 10280333 4696275 23734415 5373458 (-21721364) (-16696658))
       (Fe (-1601024) (-1694233) 1890222 (-1318289) 15559672 5742738 8167133 14771707 30334782 (-11726727))
       (Fe 23036178 4842195 (-12296383) 2100881 5180991 11711575 23531120 (-10565080) (-21962021) 19744794) fe_zero,
     Ge_precomp (Fe 13092728 (-4690958) 25446446 2281361 6231890 (-15780740) 28228350 (-14710532) 21876390 12966866)
       (Fe 13336795 2953684 11704487 908613 8489304 (-814835) 30504479 14170679 21159977 10395642)
       (Fe 4802136 (-15253610) 22811313 14822350 (-22024492) (-10895091) 17727837 2086765 (-18714867) 3473660) fe_zero,
     Ge_precomp (Fe (-14671224) 11938029 11604623 10428381 1464024 (-12427780) (-11560946) 8762986 12363074 16655557)
       (Fe 2721475 16597923 12531292 9570118 26279833 (-16621112) 31135086 11686580 8706097 10697925)
       (Fe 15891264 16687234 29982253 8446207 23246483 14304230 22064071 4686194 10449496 12455269) fe_zero]"

text \<open>A loop that squares \<open>n\<close> times in place.\<close>

definition fe_sqn :: "nat \<Rightarrow> fe \<Rightarrow> fe" where
  "fe_sqn n f = (fe_sq ^^ n) f"

definition fe_invert :: "fe \<Rightarrow> fe" where
  "fe_invert f =
     (let t0 = fe_sq f;
          t1 = fe_sq t0; t1 = fe_sq t1;
          t1 = fe_mul f t1;
          t0 = fe_mul t0 t1;
          t2 = fe_sq t0;
          t1 = fe_mul t1 t2;
          t2 = fe_sq t1; t2 = fe_sqn 4 t2;
          t1 = fe_mul t2 t1;
          t2 = fe_sq t1; t2 = fe_sqn 9 t2;
          t2 = fe_mul t2 t1;
          t3 = fe_sq t2; t3 = fe_sqn 19 t3;
          t2 = fe_mul t3 t2;
          t2 = fe_sq t2; t2 = fe_sqn 9 t2;
          t1 = fe_mul t2 t1;
          t2 = fe_sq t1; t2 = fe_sqn 49 t2;
          t2 = fe_mul t2 t1;
          t3 = fe_sq t2; t3 = fe_sqn 99 t3;
          t2 = fe_mul t3 t2;
          t2 = fe_sq t2; t2 = fe_sqn 49 t2;
          t1 = fe_mul t2 t1;
          t1 = fe_sq t1; t1 = fe_sqn 4 t1
      in fe_mul t1 t0)"

definition fe_pow22523 :: "fe \<Rightarrow> fe" where
  "fe_pow22523 z =
     (let t0 = fe_sq z;
          t1 = fe_sq t0; t1 = fe_sq t1;
          t1 = fe_mul z t1;
          t0 = fe_mul t0 t1;
          t0 = fe_sq t0;
          t0 = fe_mul t1 t0;
          t1 = fe_sq t0; t1 = fe_sqn 4 t1;
          t0 = fe_mul t1 t0;
          t1 = fe_sq t0; t1 = fe_sqn 9 t1;
          t1 = fe_mul t1 t0;
          t2 = fe_sq t1; t2 = fe_sqn 19 t2;
          t1 = fe_mul t2 t1;
          t1 = fe_sq t1; t1 = fe_sqn 9 t1;
          t0 = fe_mul t1 t0;
          t1 = fe_sq t0; t1 = fe_sqn 49 t1;
          t1 = fe_mul t1 t0;
          t2 = fe_sq t1; t2 = fe_sqn 99 t2;
          t1 = fe_mul t2 t1;
          t1 = fe_sq t1; t1 = fe_sqn 49 t1;
          t0 = fe_mul t1 t0;
          t0 = fe_sq t0; t0 = fe_sq t0
      in fe_mul t0 z)"

definition fe_isnonzero :: "fe \<Rightarrow> bool" where
  "fe_isnonzero f = (fold (\<lambda>b r. r OR b) (fe_tobytes f) 0 \<noteq> 0)"

definition fe_isnegative :: "fe \<Rightarrow> u8" where
  "fe_isnegative f = (fe_tobytes f ! 0) AND 1"

definition ge_p3_to_p2 :: "ge_p3 \<Rightarrow> ge_p2" where
  "ge_p3_to_p2 p = \<lparr>p2_X = fe_copy (p3_X p), p2_Y = fe_copy (p3_Y p), p2_Z = fe_copy (p3_Z p)\<rparr>"

text \<open>The square root candidate, and the sign correction, of \<^verbatim>\<open>ge_frombytes_vartime\<close>.\<close>

definition ge_root :: "fe \<Rightarrow> fe \<Rightarrow> fe" where
  "ge_root u v =
     (let v3 = fe_sq v;
          v3 = fe_mul v3 v;
          x = fe_sq v3;
          x = fe_mul x v;
          x = fe_mul x u;
          x = fe_pow22523 x;
          x = fe_mul x v3
      in fe_mul x u)"

definition ge_frombytes_vartime :: "bytes \<Rightarrow> ge_p3 option" where
  "ge_frombytes_vartime s =
     (let y = fe_frombytes s; z = fe_1;
          u = fe_sq y;
          v = fe_mul u fe_d;
          u = fe_sub u z;
          v = fe_add v z;
          x = ge_root u v;
          vxx = fe_sq x;
          vxx = fe_mul vxx v;
          root = (if fe_isnonzero (fe_sub vxx u)
                  then if fe_isnonzero (fe_add vxx u) then None else Some (fe_mul x fe_sqrtm1)
                  else Some x)
      in case root of
           None \<Rightarrow> None
         | Some x \<Rightarrow>
             let x = (if fe_isnegative x \<noteq> drop_bit 7 (s ! 31) then fe_neg x else x)
             in Some \<lparr>p3_X = x, p3_Y = y, p3_Z = z, p3_T = fe_mul x y\<rparr>)"

definition ge_double :: "ge_p2 \<Rightarrow> ge_p2" where
  "ge_double p =
     (let A = fe_sq (p2_X p);
          B = fe_sq (p2_Y p);
          C = fe_sq (p2_Z p);
          C = fe_add C C;
          D = fe_neg A;
          E = fe_add (p2_X p) (p2_Y p);
          E = fe_sq E;
          E = fe_sub E A;
          E = fe_sub E B;
          G = fe_add D B;
          F = fe_sub G C;
          H = fe_sub D B
      in \<lparr>p2_X = fe_mul E F, p2_Y = fe_mul G H, p2_Z = fe_mul F G\<rparr>)"

section \<open>Powers\<close>

definition fe_pow :: "fe \<Rightarrow> fe \<Rightarrow> nat \<Rightarrow> bool" where
  "fe_pow z h e \<longleftrightarrow> fval h mod P25519 = fval z ^ e mod P25519 \<and> fe_le FE_IN h"

lemma fe_le_out_in: "fe_le FE_OUT h \<Longrightarrow> fe_le FE_IN h"
  by (erule fe_in_mono) (simp add: FE_OUT_def FE_IN_def replicate_10)

lemma fe_pow_self: "fe_le FE_IN z \<Longrightarrow> fe_pow z z 1"
  by (simp add: fe_pow_def)

lemma fe_pow_mul:
  assumes "fe_pow z f i" "fe_pow z g j"
  shows "fe_pow z (fe_mul f g) (i + j)"
proof -
  have "fval f * fval g mod P25519 = fval z ^ (i + j) mod P25519"
    using assms unfolding fe_pow_def power_add by (metis mod_mult_cong)
  then show ?thesis
    using assms fe_mul_val [of f g] fe_mul_in(1) [of f g] by (simp add: fe_pow_def fe_le_out_in)
qed

lemma fe_pow_sq: "fe_pow z f i \<Longrightarrow> fe_pow z (fe_sq f) (2 * i)"
  unfolding fe_sq_def mult_2 by (rule fe_pow_mul)

lemma fe_pow_sqn: "fe_pow z f i \<Longrightarrow> fe_pow z (fe_sqn n f) (2 ^ n * i)"
  unfolding fe_sqn_def by (induction n) (auto dest: fe_pow_sq simp: mult.assoc)

lemma fe_pow_eq: "fe_pow z f i \<Longrightarrow> i = j \<Longrightarrow> fe_pow z f j"
  by simp

lemma fe_invert_pow:
  assumes "fe_le FE_IN f"
  shows "fe_pow f (fe_invert f) (2 ^ 255 - 21)"
  unfolding fe_invert_def Let_def
  by (rule fe_pow_eq, (rule fe_pow_mul fe_pow_sq fe_pow_sqn fe_pow_self assms)+) simp

lemma fe_pow22523_pow:
  assumes "fe_le FE_IN f"
  shows "fe_pow f (fe_pow22523 f) (2 ^ 252 - 3)"
  unfolding fe_pow22523_def Let_def
  by (rule fe_pow_eq, (rule fe_pow_mul fe_pow_sq fe_pow_sqn fe_pow_self assms)+) simp

section \<open>Zero and sign\<close>

lemma le_int_le32: "le_int (map (\<lambda>i. word_of_int (drop_bit (8 * i) v)) [0..<n]) = v mod 2 ^ (8 * n)"
proof (induction n arbitrary: v)
  case (Suc n)
  have "le_int (map (\<lambda>i. word_of_int (drop_bit (8 * i) v)) [0..<Suc n]) =
      v mod 2 ^ 8 + 2 ^ 8 * le_int (map (\<lambda>i. word_of_int (drop_bit (8 * i) (drop_bit 8 v))) [0..<n])"
    unfolding upt_conv_Cons [OF zero_less_Suc] list.map le_int.simps map_Suc_upt [symmetric] map_map
    by (simp add: uint_word_of_int o_def add.commute)
  also have "\<dots> = v mod 2 ^ (8 * Suc n)"
    using zmod_zmult2_eq [of "2 ^ (8 * n)" v "2 ^ 8"] unfolding Suc.IH
    by (simp add: power_add drop_bit_eq_div)
  finally show ?case .
qed simp

lemma le_int_zero: "le_int s = 0 \<longleftrightarrow> list_all (\<lambda>b. b = 0) s"
proof (induction s)
  case (Cons b s)
  then show ?case using uint_u8(1) [of b] le_int_bound(1) [of s] 
    by (simp add: add_nonneg_eq_0_iff uint_0_iff)
qed simp

lemma fold_or_zero: "fold (\<lambda>b r. r OR b) bs r = (0 :: u8) \<longleftrightarrow> r = 0 \<and> list_all (\<lambda>b. b = 0) bs"
  by (induction bs arbitrary: r) (auto simp: or_eq_0_iff)

lemma fe_isnonzero_iff:
  assumes "fe_le (2 ^ 40) h"
  shows "fe_isnonzero h \<longleftrightarrow> fval h mod P25519 \<noteq> 0"
proof -
  have "0 \<le> fval h mod P25519" "fval h mod P25519 < 2 ^ 256"
    using pos_mod_bound [of P25519 "fval h"] by (simp_all add: P25519_def)
  then have "le_int (le32 (fval h mod P25519)) = fval h mod P25519"
    by (simp add: le32_def le_int_le32)
  then show ?thesis
    unfolding fe_isnonzero_def fe_tobytes_canonical [OF assms] fold_or_zero by (simp flip: le_int_zero)
qed

lemma fe_isnegative_eq:
  assumes "fe_le (2 ^ 40) h"
  shows "fe_isnegative h = of_bool (odd (fval h mod P25519))"
proof -
  have "le32 v ! 0 = word_of_int v" for v by (simp add: le32_def)
  then show ?thesis
    unfolding fe_isnegative_def fe_tobytes_canonical [OF assms]
    by (simp add: and_one_eq mod_2_eq_odd bit_word_of_int_iff flip: bit_0)
qed


section \<open>Decompression\<close>

text \<open>Congruence modulo \<open>P25519\<close>, with the quotient as a witness for the polynomial identities.\<close>

definition fe_eq :: "int \<Rightarrow> int \<Rightarrow> bool" where
  "fe_eq a b \<longleftrightarrow> a mod P25519 = b mod P25519"

lemma fe_eq_ex: "fe_eq a b \<longleftrightarrow> (\<exists>q. a = b + P25519 * q)"
  unfolding fe_eq_def mod_eq_dvd_iff dvd_def by (auto simp: algebra_simps)

lemma fe_eq_mul: "fe_eq (fval (fe_mul f g)) (fval f * fval g)"
  by (simp add: fe_eq_def fe_mul_val)

lemma fe_eq_sq: "fe_eq (fval (fe_sq f)) (fval f * fval f)"
  by (simp add: fe_sq_def fe_eq_mul)

definition on_curve :: "int \<Rightarrow> int \<Rightarrow> bool" where
  "on_curve x y \<longleftrightarrow> fe_eq (- (x * x) + y * y) (1 + fval fe_d * (x * x) * (y * y))"

lemma curve_root:
  assumes "fe_eq u (y * y - 1)" "fe_eq v (fval fe_d * (y * y) + 1)" "fe_eq (v * (x * x)) u"
  shows "on_curve x y"
proof -
  obtain a b c where "u = y * y - 1 + P25519 * a" "v = fval fe_d * (y * y) + 1 + P25519 * b" "v * (x * x) = u + P25519 * c"
    using assms unfolding fe_eq_ex by blast
  then have "\<exists>q. - (x * x) + y * y = 1 + fval fe_d * (x * x) * (y * y) + P25519 * q" by algebra
  then show ?thesis unfolding on_curve_def fe_eq_ex .
qed

lemma sqrtm1: "\<exists>q. fval fe_sqrtm1 * fval fe_sqrtm1 = - 1 + P25519 * q"
proof -
  have "fe_eq (fval fe_sqrtm1 * fval fe_sqrtm1) (- 1)"
    by (simp add: fe_eq_def fe_sqrtm1_def P25519_def)
  then show ?thesis unfolding fe_eq_ex .
qed

lemma curve_root_minus:
  assumes "fe_eq (v * (x * x)) (- u)" "fe_eq x' (x * fval fe_sqrtm1)"
  shows "fe_eq (v * (x' * x')) u"
proof -
  obtain a b c where "v * (x * x) = - u + P25519 * a" "x' = x * fval fe_sqrtm1 + P25519 * b"
    "fval fe_sqrtm1 * fval fe_sqrtm1 = - 1 + P25519 * c"
    using assms sqrtm1 unfolding fe_eq_ex by blast
  then have "\<exists>q. v * (x' * x') = u + P25519 * q" by algebra
  then show ?thesis unfolding fe_eq_ex .
qed

lemma fe_le_mono: "fe_le a h \<Longrightarrow> a \<le> b \<Longrightarrow> fe_le b h"
  by (erule fe_in_mono) (simp add: replicate_10)

lemma abs_le_add: "\<bar>x\<bar> \<le> a \<Longrightarrow> \<bar>y\<bar> \<le> b \<Longrightarrow> \<bar>x + y\<bar> \<le> a + b" "\<bar>x\<bar> \<le> a \<Longrightarrow> \<bar>y\<bar> \<le> b \<Longrightarrow> \<bar>x - y\<bar> \<le> a + b"
  for a b x y :: int
  by linarith+

lemma fe_le_add: "fe_le a f \<Longrightarrow> fe_le b g \<Longrightarrow> fe_le (a + b) (fe_add f g)"
  and fe_le_sub: "fe_le a f \<Longrightarrow> fe_le b g \<Longrightarrow> fe_le (a + b) (fe_sub f g)"
  by (cases f; cases g; simp add: fe_defs fe_in_def replicate_10 abs_le_add)+

lemma fe_le_neg: "fe_le a f \<Longrightarrow> fe_le a (fe_neg f)"
  by (cases f) (simp add: fe_defs fe_in_def replicate_10)

lemma fe_le_mul: "fe_le FE_IN f \<Longrightarrow> fe_le FE_IN g \<Longrightarrow> fe_le FE_OUT (fe_mul f g)"
  by (rule fe_mul_in(1))

lemma fe_le_sq: "fe_le FE_IN f \<Longrightarrow> fe_le FE_OUT (fe_sq f)"
  unfolding fe_sq_def by (rule fe_mul_in(1))

lemma fe_le_consts: "fe_le FE_OUT fe_d" "fe_le FE_OUT fe_1" "fe_le FE_OUT fe_sqrtm1"
  by (simp_all add: fe_in_def replicate_10 fe_d_def fe_1_def fe_sqrtm1_def FE_OUT_def)

lemma FE_IN_sums: "FE_OUT + FE_OUT \<le> FE_IN" "FE_OUT \<le> FE_IN" "FE_OUT + FE_OUT + FE_OUT \<le> FE_IN" "FE_IN \<le> 2 ^ 40"
  by (simp_all add: FE_IN_def FE_OUT_def)


lemma fe_pow_le: "fe_pow z h e \<Longrightarrow> fe_le FE_IN h"
  by (simp add: fe_pow_def)

lemma ge_root_le:
  assumes "fe_le FE_IN u" "fe_le FE_IN v"
  shows "fe_le FE_OUT (ge_root u v)"
  unfolding ge_root_def Let_def
  by (rule fe_le_mul fe_le_sq fe_pow_le [OF fe_pow22523_pow] fe_le_out_in assms | assumption)+
text \<open>The sign of a number that is not zero changes with negation, since \<open>P25519\<close> is odd.\<close>

lemma odd_neg:
  assumes "x mod P25519 \<noteq> 0"
  shows "odd ((- x) mod P25519) \<longleftrightarrow> even (x mod P25519)"
proof -
  have "(- x) mod P25519 = P25519 - x mod P25519" using assms by (simp add: zmod_zminus1_eq_if)
  moreover have "odd P25519" by (simp add: P25519_def)
  ultimately show ?thesis by simp
qed

text \<open>What the last step of \<^verbatim>\<open>ge_frombytes_vartime\<close> does with the sign bit.\<close>

lemma ge_sign:
  assumes "fe_le FE_OUT x" "x' = (if fe_isnegative x \<noteq> b then fe_neg x else x)" "b = 0 \<or> b = 1"
  shows "fval x' * fval x' = fval x * fval x" "fe_le FE_OUT x'"
    "fval x' mod P25519 \<noteq> 0 \<Longrightarrow> of_bool (odd (fval x' mod P25519)) = b"
proof -
  have x: "fe_le (2 ^ 40) x" using assms(1) by (rule fe_le_mono) (simp add: FE_OUT_def)
  show "fval x' * fval x' = fval x * fval x" by (simp add: assms(2) fval_neg)
  show "fe_le FE_OUT x'" using assms(1) by (simp add: assms(2) fe_le_neg)
  assume nz: "fval x' mod P25519 \<noteq> 0"
  have "x' = x \<and> fe_isnegative x = b \<or> x' = fe_neg x \<and> fe_isnegative x \<noteq> b" using assms(2) by auto
  then show "of_bool (odd (fval x' mod P25519)) = b"
    using odd_neg [of "fval x"] nz assms(3) by (auto simp: fe_isnegative_eq [OF x] fval_neg zmod_zminus1_eq_if split: if_splits)
qed

text \<open>The square root: either it is one of \<open>u / v\<close>, or the code gives up.\<close>

lemma ge_root_choice:
  assumes "fe_le FE_OUT x" "fe_le (2 * FE_OUT) u" "fe_le (2 * FE_OUT) v"
    "(if fe_isnonzero (fe_sub (fe_mul (fe_sq x) v) u)
      then if fe_isnonzero (fe_add (fe_mul (fe_sq x) v) u) then None else Some (fe_mul x fe_sqrtm1)
      else Some x) = Some r"
  shows "fe_eq (fval v * (fval r * fval r)) (fval u)" "fe_le FE_OUT r"
proof -
  have x: "fe_le FE_IN x" by (rule fe_le_out_in [OF assms(1)])
  have v: "fe_le FE_IN v" by (rule fe_le_mono [OF assms(3)]) (use FE_IN_sums in simp)
  define w where "w = fe_mul (fe_sq x) v"
  have w: "fe_le FE_OUT w" unfolding w_def by (intro fe_le_mul fe_le_out_in [OF fe_le_sq] x v)
  have "fe_le (2 ^ 40) (fe_sub w u)" "fe_le (2 ^ 40) (fe_add w u)"
    by (rule fe_le_mono [OF fe_le_sub [OF w assms(2)]], simp add: FE_OUT_def,
        rule fe_le_mono [OF fe_le_add [OF w assms(2)]], simp add: FE_OUT_def)
  note nz = this [THEN fe_isnonzero_iff]
  have "fe_eq (fval w) (fval (fe_sq x) * fval v)" "fe_eq (fval (fe_sq x)) (fval x * fval x)"
    unfolding w_def by (rule fe_eq_mul fe_eq_sq)+
  then obtain a b where "fval w = fval (fe_sq x) * fval v + P25519 * a" "fval (fe_sq x) = fval x * fval x + P25519 * b"
    unfolding fe_eq_ex by blast
  then have "fval v * (fval x * fval x) = fval w + P25519 * (- a - b * fval v)" by algebra
  then have wv: "fe_eq (fval v * (fval x * fval x)) (fval w)" unfolding fe_eq_ex by blast
  show "fe_le FE_OUT r"
    using assms(1,4) fe_le_mul [OF x fe_le_out_in [OF fe_le_consts(3)]] by (auto split: if_splits)
  show "fe_eq (fval v * (fval r * fval r)) (fval u)"
  proof (cases "fe_isnonzero (fe_sub w u)")
    case False
    then have "fe_eq (fval w) (fval u)" unfolding nz fval_sub fe_eq_def by (simp add: mod_eq_dvd_iff dvd_eq_mod_eq_0)
    then show ?thesis using False assms(4) wv by (simp add: w_def fe_eq_def)
  next
    case True
    then have "\<not> fe_isnonzero (fe_add w u)" and r: "r = fe_mul x fe_sqrtm1"
      using assms(4) by (auto simp: w_def split: if_splits)
    then have "fe_eq (fval w) (- fval u)" unfolding nz fval_add fe_eq_def by (simp add: mod_eq_dvd_iff dvd_eq_mod_eq_0)
    then have "fe_eq (fval v * (fval x * fval x)) (- fval u)" using wv by (simp add: fe_eq_def)
    then show ?thesis unfolding r by (rule curve_root_minus) (rule fe_eq_mul)
  qed
qed

text \<open>
  C28. Point decompression. Whatever 32 bytes \<^verbatim>\<open>ge_frombytes_vartime\<close> accepts, the point it returns
  lies on the curve, has \<open>Z = 1\<close> and \<open>T = X Y\<close>, its \<open>y\<close> is the number in the low 255 bits, and the
  parity of its \<open>x\<close> is the sign bit unless \<open>x\<close> is zero.
\<close>

theorem ge_frombytes_on_curve:
  assumes "length s = 32" "ge_frombytes_vartime s = Some p"
  shows "on_curve (fval (p3_X p)) (fval (p3_Y p)) \<and> fe_eq (fval (p3_Y p)) (le_int s mod 2 ^ 255) \<and>
    fval (p3_Z p) = 1 \<and> fe_eq (fval (p3_T p)) (fval (p3_X p) * fval (p3_Y p)) \<and>
    (fval (p3_X p) mod P25519 = 0 \<or> of_bool (odd (fval (p3_X p) mod P25519)) = drop_bit 7 (s ! 31))"
proof -
  define y where "y = fe_frombytes s"
  define u where "u = fe_sub (fe_sq y) fe_1"
  define v where "v = fe_add (fe_mul (fe_sq y) fe_d) fe_1"
  define x where "x = ge_root u v"
  note y = fe_frombytes_val [OF assms(1), folded y_def]
  have sq: "fe_le FE_OUT (fe_sq y)" by (intro fe_le_sq fe_le_out_in y(2))
  have u: "fe_le (2 * FE_OUT) u" using fe_le_sub [OF sq fe_le_consts(2)] by (simp add: u_def)
  have v: "fe_le (2 * FE_OUT) v"
    using fe_le_add [OF fe_le_mul [OF fe_le_out_in [OF sq] fe_le_out_in [OF fe_le_consts(1)]] fe_le_consts(2)] by (simp add: v_def)
  have x: "fe_le FE_OUT x" unfolding x_def
    by (rule ge_root_le; rule fe_le_mono [OF u] fe_le_mono [OF v]; use FE_IN_sums in simp)
  obtain r x' where r: "(if fe_isnonzero (fe_sub (fe_mul (fe_sq x) v) u)
      then if fe_isnonzero (fe_add (fe_mul (fe_sq x) v) u) then None else Some (fe_mul x fe_sqrtm1)
      else Some x) = Some r" and x': "x' = (if fe_isnegative r \<noteq> drop_bit 7 (s ! 31) then fe_neg r else r)"
    and p: "p = \<lparr>p3_X = x', p3_Y = y, p3_Z = fe_1, p3_T = fe_mul x' y\<rparr>"
    using assms(2) unfolding ge_frombytes_vartime_def Let_def
    unfolding y_def [symmetric] unfolding u_def [symmetric] v_def [symmetric] unfolding x_def [symmetric]
    by (auto split: option.splits)
  note c = ge_root_choice [OF x u v r]
  have "uint (drop_bit 7 (s ! 31)) = 0 \<or> uint (drop_bit 7 (s ! 31)) = 1"
    using uint_u8 [of "s ! 31"] unfolding drop_bit_eq_div by (auto simp: uint_div)
  then have "drop_bit 7 (s ! 31) = 0 \<or> drop_bit 7 (s ! 31) = 1"
    by (metis word_of_int_uint word_of_int_0 word_of_int_1)
  note g = ge_sign [OF c(2) x' this]
  have "fe_eq (fval (fe_sq y)) (fval y * fval y)" "fe_eq (fval (fe_mul (fe_sq y) fe_d)) (fval (fe_sq y) * fval fe_d)"
    by (rule fe_eq_sq fe_eq_mul)+
  then obtain a b where "fval (fe_sq y) = fval y * fval y + P25519 * a"
    "fval (fe_mul (fe_sq y) fe_d) = fval (fe_sq y) * fval fe_d + P25519 * b"
    unfolding fe_eq_ex by blast
  then have "fval u = fval y * fval y - 1 + P25519 * a"
    "fval v = fval fe_d * (fval y * fval y) + 1 + P25519 * (b + a * fval fe_d)"
    by (simp_all add: u_def v_def fval_sub fval_add fe_1_def algebra_simps)
  then have "fe_eq (fval u) (fval y * fval y - 1)" "fe_eq (fval v) (fval fe_d * (fval y * fval y) + 1)"
    unfolding fe_eq_ex by blast+
  then have "on_curve (fval x') (fval y)"
    using c(1) unfolding g(1) [symmetric] by (rule curve_root)
  moreover have "fval (p3_Z p) = 1" "fe_eq (fval (p3_T p)) (fval (p3_X p) * fval (p3_Y p))"
    by (simp_all add: p fe_1_def fe_eq_mul)
  ultimately show ?thesis using g(3) y(1) unfolding p ge_p3.simps fe_eq_def by blast
qed

lemma fe_eq_0_mul: "fe_eq (fval f) 0 \<or> fe_eq (fval g) 0 \<Longrightarrow> fe_eq (fval (fe_mul f g)) 0"
  using fe_eq_mul [of f g] by (auto simp: fe_eq_def dvd_mult dvd_mult2 simp flip: dvd_eq_mod_eq_0)

lemma ge_frombytes_one: "\<exists>p. ge_frombytes_vartime (1 # replicate 31 0) = Some p"
proof -
  define u where "u = fe_sub (fe_sq fe_1) fe_1"
  define v where "v = fe_add (fe_mul (fe_sq fe_1) fe_d) fe_1"
  define x where "x = ge_root u v"
  have y: "fe_frombytes (1 # replicate 31 0) = fe_1" by code_simp
  have u: "u = fe_zero" unfolding u_def by code_simp
  have "fe_le FE_OUT (fe_mul (fe_sq fe_1) fe_d)"
    by (intro fe_le_mul fe_le_out_in fe_le_sq fe_le_consts)
  then have v: "fe_le FE_IN v"
    unfolding v_def by (rule fe_le_mono [OF fe_le_add [OF _ fe_le_consts(2)]]) (rule FE_IN_sums)
  have z: "fe_eq (fval fe_zero) 0" "fe_le FE_OUT fe_zero" by (simp_all add: fe_eq_def fe_zero_def fe_in_def replicate_10 FE_OUT_def)
  have x: "fe_eq (fval x) 0" "fe_le FE_OUT x"
    unfolding x_def by (simp add: ge_root_def Let_def u z fe_eq_0_mul, rule ge_root_le [OF fe_le_out_in v]) (simp add: u z)
  define w where "w = fe_mul (fe_sq x) v"
  have w: "fe_eq (fval w) 0" "fe_le FE_OUT w"
    unfolding w_def fe_sq_def by (simp add: x fe_eq_0_mul, intro fe_le_mul fe_le_out_in x v)
  have "fe_le (2 ^ 40) (fe_sub w u)"
    by (rule fe_le_mono [OF fe_le_sub [OF w(2) z(2)], folded u]) (simp add: FE_OUT_def)
  then have "\<not> fe_isnonzero (fe_sub w u)"
    using w(1) by (simp add: fe_isnonzero_iff fval_sub u fe_zero_def fe_eq_def)
  then show ?thesis
    unfolding ge_frombytes_vartime_def Let_def y
    unfolding u_def [symmetric] v_def [symmetric] unfolding x_def [symmetric] unfolding w_def [symmetric] by simp
qed

theorem ge_frombytes_on_curve_witness:
  "\<exists>p. ge_frombytes_vartime (1 # replicate 31 0) = Some p \<and> on_curve (fval (p3_X p)) (fval (p3_Y p))"
  using ge_frombytes_one ge_frombytes_on_curve [of "1 # replicate 31 0"] by auto

section \<open>Doubling\<close>

text \<open>The curve in projective coordinates, with \<open>x = X / Z\<close> and \<open>y = Y / Z\<close>.\<close>

definition proj_on_curve :: "ge_p2 \<Rightarrow> bool" where
  "proj_on_curve p \<longleftrightarrow> (let X = fval (p2_X p); Y = fval (p2_Y p); Z = fval (p2_Z p) in
     fe_eq ((Y * Y - X * X) * (Z * Z)) (Z * Z * (Z * Z) + fval fe_d * (X * X) * (Y * Y)))"

definition p2_le :: "ge_p2 \<Rightarrow> bool" where
  "p2_le p \<longleftrightarrow> fe_le FE_OUT (p2_X p) \<and> fe_le FE_OUT (p2_Y p) \<and> fe_le FE_OUT (p2_Z p)"

lemma ge_double_vals:
  assumes "p2_le p"
  defines "X \<equiv> fval (p2_X p)" and "Y \<equiv> fval (p2_Y p)" and "Z \<equiv> fval (p2_Z p)"
  defines "E \<equiv> 2 * X * Y" and "G \<equiv> Y * Y - X * X" and "F \<equiv> Y * Y - X * X - 2 * (Z * Z)" and "H \<equiv> - (X * X) - Y * Y"
  shows "fe_eq (fval (p2_X (ge_double p))) (E * F)" "fe_eq (fval (p2_Y (ge_double p))) (G * H)"
    "fe_eq (fval (p2_Z (ge_double p))) (F * G)" "p2_le (ge_double p)"
proof -
  define A where "A = fe_sq (p2_X p)"
  define B where "B = fe_sq (p2_Y p)"
  define C where "C = fe_sq (p2_Z p)"
  define S where "S = fe_sq (fe_add (p2_X p) (p2_Y p))"
  define Ef where "Ef = fe_sub (fe_sub S A) B"
  define Gf where "Gf = fe_add (fe_neg A) B"
  define Ff where "Ff = fe_sub Gf (fe_add C C)"
  define Hf where "Hf = fe_sub (fe_neg A) B"
  have d: "ge_double p = \<lparr>p2_X = fe_mul Ef Ff, p2_Y = fe_mul Gf Hf, p2_Z = fe_mul Ff Gf\<rparr>"
    by (simp add: ge_double_def Let_def Ef_def Ff_def Gf_def Hf_def S_def A_def B_def C_def)
  have i: "fe_le FE_OUT (p2_X p)" "fe_le FE_OUT (p2_Y p)" "fe_le FE_OUT (p2_Z p)" using assms(1) by (simp_all add: p2_le_def)
  have o: "fe_le FE_OUT A" "fe_le FE_OUT B" "fe_le FE_OUT C"
    unfolding A_def B_def C_def by (intro fe_le_sq fe_le_out_in i)+
  have "fe_le FE_OUT S"
    unfolding S_def by (rule fe_le_sq [OF fe_le_mono [OF fe_le_add [OF i(1,2)]]]) (rule FE_IN_sums)
  then have "fe_le (FE_OUT + FE_OUT + FE_OUT) Ef"
    unfolding Ef_def by (intro fe_le_sub o)
  then have l: "fe_le FE_IN Ef" "fe_le (2 * FE_OUT) Gf" "fe_le (2 * FE_OUT) Hf"
    using fe_le_add [OF fe_le_neg [OF o(1)] o(2)] fe_le_sub [OF fe_le_neg [OF o(1)] o(2)]
    by (simp_all add: Gf_def Hf_def fe_le_mono [OF _ FE_IN_sums(3)])
  have "fe_le (2 * FE_OUT + (FE_OUT + FE_OUT)) Ff"
    unfolding Ff_def by (rule fe_le_sub [OF l(2) fe_le_add [OF o(3) o(3)]])
  then have l': "fe_le FE_IN Ff" "fe_le FE_IN Gf" "fe_le FE_IN Hf"
    using fe_le_mono [OF l(2), of FE_IN] fe_le_mono [OF l(3), of FE_IN] FE_IN_sums by (simp_all add: FE_IN_def)
  show "p2_le (ge_double p)"
    unfolding d p2_le_def ge_p2.simps by (intro conjI fe_le_mul l l')
  obtain a b c s where v: "fval A = X * X + P25519 * a" "fval B = Y * Y + P25519 * b" "fval C = Z * Z + P25519 * c"
    "fval S = (X + Y) * (X + Y) + P25519 * s"
    using fe_eq_sq [of "p2_X p"] fe_eq_sq [of "p2_Y p"] fe_eq_sq [of "p2_Z p"] fe_eq_sq [of "fe_add (p2_X p) (p2_Y p)"]
    unfolding fe_eq_ex A_def B_def C_def S_def X_def Y_def Z_def fval_add by blast
  have "fval Ef = E + P25519 * (s - a - b)" "fval Gf = G + P25519 * (b - a)"
    "fval Ff = F + P25519 * (b - a - 2 * c)" "fval Hf = H + P25519 * (- a - b)"
    by (simp_all add: Ef_def Ff_def Gf_def Hf_def fval_add fval_sub fval_neg v E_def F_def G_def H_def algebra_simps)
  then have "fe_eq (fval Ef) E" "fe_eq (fval Gf) G" "fe_eq (fval Ff) F" "fe_eq (fval Hf) H"
    unfolding fe_eq_ex by blast+
  then show "fe_eq (fval (p2_X (ge_double p))) (E * F)" "fe_eq (fval (p2_Y (ge_double p))) (G * H)"
    "fe_eq (fval (p2_Z (ge_double p))) (F * G)"
    unfolding d ge_p2.simps fe_eq_def fe_mul_val by (auto intro: mod_mult_cong)
qed

lemma fe_eq_trans: "fe_eq a b \<Longrightarrow> fe_eq b c \<Longrightarrow> fe_eq a c"
  by (simp add: fe_eq_def)

lemma fe_eq_commute: "fe_eq a b \<Longrightarrow> fe_eq b a"
  by (simp add: fe_eq_def)

lemma fe_eq_cong:
  "fe_eq a a"
  "fe_eq a b \<Longrightarrow> fe_eq c d \<Longrightarrow> fe_eq (a + c) (b + d)"
  "fe_eq a b \<Longrightarrow> fe_eq c d \<Longrightarrow> fe_eq (a - c) (b - d)"
  "fe_eq a b \<Longrightarrow> fe_eq c d \<Longrightarrow> fe_eq (a * c) (b * d)"
  unfolding fe_eq_def by (auto intro: mod_add_cong mod_diff_cong mod_mult_cong)

text \<open>The identities of doubling, with the curve's equation \<open>G Z\<^sup>2 = Z\<^sup>4 + d X\<^sup>2 Y\<^sup>2\<close> up to a multiple \<open>q\<close> of \<open>P25519\<close>.\<close>

lemma double_identities:
  fixes X Y Z d q :: int
  defines "E \<equiv> 2 * X * Y" and "G \<equiv> Y * Y - X * X" and "F \<equiv> Y * Y - X * X - 2 * (Z * Z)" and "H \<equiv> - (X * X) - Y * Y"
  assumes c: "G * (Z * Z) = Z * Z * (Z * Z) + d * (X * X) * (Y * Y) + q"
  shows "(G * H * (G * H) - E * F * (E * F)) * (F * G * (F * G)) =
      F * G * (F * G) * (F * G * (F * G)) + d * (E * F * (E * F)) * (G * H * (G * H)) + q * (4 * (F * F * (G * G) * (H * H)))"
    "E * F * (Z * Z * (Z * Z) + d * (X * X) * (Y * Y)) = 2 * X * Y * (Z * Z) * (F * G) + q * (- (E * F))"
    "G * H * (Z * Z * (Z * Z) - d * (X * X) * (Y * Y)) = (X * X + Y * Y) * (Z * Z) * (F * G) + q * (G * H)"
proof -
  have d: "d * (E * E) = G * G - F * F - 4 * q" using c unfolding E_def F_def G_def by algebra
  have h: "H * H = E * E + G * G" unfolding E_def G_def H_def by algebra
  show "(G * H * (G * H) - E * F * (E * F)) * (F * G * (F * G)) =
      F * G * (F * G) * (F * G * (F * G)) + d * (E * F * (E * F)) * (G * H * (G * H)) + q * (4 * (F * F * (G * G) * (H * H)))"
    using d h by algebra
  show "E * F * (Z * Z * (Z * Z) + d * (X * X) * (Y * Y)) = 2 * X * Y * (Z * Z) * (F * G) + q * (- (E * F))"
    using c unfolding E_def by algebra
  show "G * H * (Z * Z * (Z * Z) - d * (X * X) * (Y * Y)) = (X * X + Y * Y) * (Z * Z) * (F * G) + q * (G * H)"
    using c unfolding F_def G_def H_def by algebra
qed

text \<open>
  Point doubling. On projective coordinates bounded like products, \<^verbatim>\<open>ge_double\<close> of a point of
  the curve is a point of the curve, with coordinates bounded alike, and it is the sum of the point with
  itself: \<open>x' (1 + d x\<^sup>2 y\<^sup>2) = 2 x y\<close> and \<open>y' (1 - d x\<^sup>2 y\<^sup>2) = x\<^sup>2 + y\<^sup>2\<close>, written without division.
\<close>

theorem ge_double_correct:
  assumes "p2_le p" "proj_on_curve p"
  defines "X \<equiv> fval (p2_X p)" and "Y \<equiv> fval (p2_Y p)" and "Z \<equiv> fval (p2_Z p)" and "d \<equiv> fval fe_d" and "r \<equiv> ge_double p"
  shows "proj_on_curve r \<and> p2_le r \<and>
    fe_eq (fval (p2_X r) * (Z * Z * (Z * Z) + d * (X * X) * (Y * Y))) (2 * X * Y * (Z * Z) * fval (p2_Z r)) \<and>
    fe_eq (fval (p2_Y r) * (Z * Z * (Z * Z) - d * (X * X) * (Y * Y))) ((X * X + Y * Y) * (Z * Z) * fval (p2_Z r))"
proof -
  note v = ge_double_vals [OF assms(1), folded X_def Y_def Z_def r_def]
  obtain q where "(Y * Y - X * X) * (Z * Z) = Z * Z * (Z * Z) + d * (X * X) * (Y * Y) + P25519 * q"
    using assms(2) unfolding proj_on_curve_def Let_def fe_eq_ex X_def Y_def Z_def d_def by blast
  note i = double_identities [OF this]
  have m: "fe_eq a b" if "a = b + P25519 * q * e" for a b e using that unfolding fe_eq_ex by (auto simp: mult.assoc)
  have "proj_on_curve r"
    unfolding proj_on_curve_def Let_def d_def [symmetric]
    by (rule fe_eq_trans [OF fe_eq_trans [OF _ m [OF i(1)]]]; intro fe_eq_cong v fe_eq_commute [OF v(1)] fe_eq_commute [OF v(2)] fe_eq_commute [OF v(3)])
  moreover have "fe_eq (fval (p2_X r) * (Z * Z * (Z * Z) + d * (X * X) * (Y * Y))) (2 * X * Y * (Z * Z) * fval (p2_Z r))"
    by (rule fe_eq_trans [OF fe_eq_trans [OF _ m [OF i(2)]]]; intro fe_eq_cong v fe_eq_commute [OF v(3)])
  moreover have "fe_eq (fval (p2_Y r) * (Z * Z * (Z * Z) - d * (X * X) * (Y * Y))) ((X * X + Y * Y) * (Z * Z) * fval (p2_Z r))"
    by (rule fe_eq_trans [OF fe_eq_trans [OF _ m [OF i(3)]]]; intro fe_eq_cong v fe_eq_commute [OF v(3)])
  ultimately show ?thesis using v(4) by blast
qed

theorem ge_double_correct_witness:
  "proj_on_curve (ge_double \<lparr>p2_X = fe_zero, p2_Y = fe_1, p2_Z = fe_1\<rparr>)"
proof -
  have "p2_le \<lparr>p2_X = fe_zero, p2_Y = fe_1, p2_Z = fe_1\<rparr>" "proj_on_curve \<lparr>p2_X = fe_zero, p2_Y = fe_1, p2_Z = fe_1\<rparr>"
    by (simp_all add: p2_le_def proj_on_curve_def fe_eq_def fe_in_def replicate_10 fe_zero_def fe_1_def FE_OUT_def)
  then show ?thesis using ge_double_correct by blast
qed

section \<open>The table of base point multiples\<close>

text \<open>
  The three numbers of each entry of the source initialise \<^verbatim>\<open>YplusX\<close>, \<^verbatim>\<open>YminusX\<close> and \<^verbatim>\<open>Z\<close>, so
  \<^verbatim>\<open>T2d\<close>, which should be the third number, is zero throughout. No function of the file reads the table.
\<close>

lemma ge_Bi_T2d: "list_all (\<lambda>e. T2d e = fe_zero) ge_Bi"
  by (simp only: ge_Bi_def list.pred_inject ge_precomp.sel simp_thms)

end
