(* ===== verification/Ed_Sign.thy ===== *)
theory Ed_Sign
  imports Bytes
begin

text \<open>
  Ed25519 signatures, \<^verbatim>\<open>crypt/mz_ed25519.c\<close>: the lazily loaded binding to libsodium and the two
  functions that sign and verify a block. What libsodium computes and whether the machine has it are
  arguments (\<open>sodium\<close>); the state is the module's two static flags. The function pointers are set
  exactly when the handle is, so they need no component of their own.
\<close>

text \<open>
  The world outside: the names \<^verbatim>\<open>dlopen\<close> finds, whether all four symbols resolve, what
  \<^verbatim>\<open>sodium_init\<close> returns, and the three operations.
\<close>

record sodium =
  so_dlopen :: "string \<Rightarrow> bool"
  so_symbols :: bool
  so_init :: int
  so_seed_keypair :: "bytes \<Rightarrow> bytes \<times> bytes"
  so_detached :: "bytes \<Rightarrow> bytes \<Rightarrow> bytes"
  so_verify_detached :: "bytes \<Rightarrow> bytes \<Rightarrow> bytes \<Rightarrow> int"

record sodium_state =
  sodium_loaded :: bool
  sodium_handle :: bool

definition sodium_start :: sodium_state where
  "sodium_start = \<lparr>sodium_loaded = False, sodium_handle = False\<rparr>"

definition ensure_sodium :: "sodium \<Rightarrow> sodium_state \<Rightarrow> bool \<times> sodium_state" where
  "ensure_sodium L st =
     (if sodium_loaded st then (sodium_handle st, st)
      else
        let st = st\<lparr>sodium_loaded := True\<rparr>;
            h = so_dlopen L ''libsodium.so'';
            h = (if \<not> h then so_dlopen L ''libsodium.so.26'' else h);
            h = (if \<not> h then so_dlopen L ''libsodium.so.23'' else h)
        in if \<not> h then (False, st\<lparr>sodium_handle := False\<rparr>)
           else if \<not> so_symbols L then (False, st\<lparr>sodium_handle := False\<rparr>)
           else if so_init L \<noteq> 0 then (False, st\<lparr>sodium_handle := False\<rparr>)
           else (True, st\<lparr>sodium_handle := True\<rparr>))"

text \<open>The result, the secret key, the public key.\<close>

definition mz_ed25519_keypair :: "sodium \<Rightarrow> bytes \<Rightarrow> sodium_state \<Rightarrow> (int \<times> bytes \<times> bytes) \<times> sodium_state" where
  "mz_ed25519_keypair L seed st =
     (case ensure_sodium L st of (ok, st) \<Rightarrow>
        if \<not> ok then ((-1, replicate 64 0, replicate 32 0), st)
        else case so_seed_keypair L seed of (pk, sk) \<Rightarrow> ((0, sk, pk), st))"

definition mz_ed25519_sign :: "sodium \<Rightarrow> bytes \<Rightarrow> bytes \<Rightarrow> sodium_state \<Rightarrow> bytes \<times> sodium_state" where
  "mz_ed25519_sign L sk msg st =
     (case ensure_sodium L st of (ok, st) \<Rightarrow>
        if \<not> ok then (replicate 64 0, st) else (so_detached L msg sk, st))"

definition mz_ed25519_verify :: "sodium \<Rightarrow> bytes \<Rightarrow> bytes \<Rightarrow> bytes \<Rightarrow> sodium_state \<Rightarrow> bool \<times> sodium_state" where
  "mz_ed25519_verify L pk msg sig st =
     (case ensure_sodium L st of (ok, st) \<Rightarrow>
        if \<not> ok then (False, st) else (so_verify_detached L sig msg pk = 0, st))"

text \<open>The result and the block after the call.\<close>

definition mz_sign_block :: "sodium \<Rightarrow> bytes \<Rightarrow> bytes \<Rightarrow> sodium_state \<Rightarrow> (int \<times> bytes) \<times> sodium_state" where
  "mz_sign_block L block secret_key st =
     (case mz_ed25519_keypair L secret_key st of ((r, sk, pk), st) \<Rightarrow>
        if r \<noteq> 0 then ((-1, block), st)
        else case mz_ed25519_sign L sk block st of (sig, st) \<Rightarrow>
          if length block \<ge> 64 then ((0, take (length block - 64) block @ take 64 sig), st)
          else ((0, block), st))"

definition mz_verify_block :: "sodium \<Rightarrow> bytes \<Rightarrow> bytes \<Rightarrow> sodium_state \<Rightarrow> bool \<times> sodium_state" where
  "mz_verify_block L block public_key st =
     (if length block < 64 then (False, st)
      else
        let sig = drop (length block - 64) block
        in mz_ed25519_verify L public_key (take (length block - 64) block) sig st)"

text \<open>The outcome of the first call stays, whatever is installed later.\<close>

lemma ensure_sodium_sticky:
  "ensure_sodium L st = (ok, st') \<Longrightarrow> ensure_sodium L' st' = (if sodium_loaded st then sodium_handle st else ok, st')"
  by (auto simp: ensure_sodium_def Let_def split: if_splits)

lemma ensure_sodium_loaded: "sodium_loaded (snd (ensure_sodium L st))"
  by (auto simp: ensure_sodium_def Let_def)

definition sodium_ready :: "sodium_state \<Rightarrow> bool" where
  "sodium_ready st \<longleftrightarrow> sodium_loaded st \<and> sodium_handle st"

lemma ensure_ready [simp]: "sodium_ready st \<Longrightarrow> ensure_sodium L st = (True, st)"
  by (simp add: ensure_sodium_def sodium_ready_def)

lemma ensure_sodium_true: "ensure_sodium L st = (True, st') \<Longrightarrow> sodium_ready st'"
  by (auto simp: ensure_sodium_def sodium_ready_def Let_def split: if_splits)

text \<open>
  What a signed block verifies as. When libsodium loads, \<^verbatim>\<open>mz_sign_block\<close> replaces the last 64
  bytes of a block by a signature of the whole block, those 64 bytes as they were included, and
  \<^verbatim>\<open>mz_verify_block\<close> accepts the result exactly when libsodium accepts that signature for the block
  without its last 64 bytes, a different message.
\<close>

theorem sign_block_mismatch:
  assumes "ensure_sodium L st = (True, st')" "64 \<le> length block" "so_seed_keypair L seed = (pk, sk)"
    "length (so_detached L block sk) = 64"
  shows "\<exists>signed. mz_sign_block L block seed st = ((0, signed), st') \<and>
    fst (mz_verify_block L signed pk st') =
      (so_verify_detached L (so_detached L block sk) (take (length block - 64) block) pk = 0)"
  using assms ensure_sodium_true [OF assms(1)]
  by (simp add: mz_sign_block_def mz_ed25519_keypair_def mz_ed25519_sign_def mz_verify_block_def mz_ed25519_verify_def)

text \<open>A machine with the library, where a signature is the length of the message, repeated.\<close>

definition toy_sodium :: sodium where
  "toy_sodium = \<lparr>so_dlopen = (\<lambda>n. n = ''libsodium.so.23''), so_symbols = True, so_init = 0,
     so_seed_keypair = (\<lambda>seed. (seed, seed @ seed)),
     so_detached = (\<lambda>m sk. replicate 64 (word_of_nat (length m))),
     so_verify_detached = (\<lambda>sig m pk. if sig = replicate 64 (word_of_nat (length m)) then 0 else -1)\<rparr>"

theorem sign_block_mismatch_witness:
  "\<exists>signed st'. mz_sign_block toy_sodium (replicate 70 7) (replicate 32 1) sodium_start = ((0, signed), st') \<and>
    fst (mz_verify_block toy_sodium signed (replicate 32 1) st') = False"
proof -
  obtain st' where e: "ensure_sodium toy_sodium sodium_start = (True, st')"
    by (simp add: ensure_sodium_def sodium_start_def toy_sodium_def)
  have k: "so_seed_keypair toy_sodium (replicate 32 1) = (replicate 32 1, replicate 32 1 @ replicate 32 1)"
    "length (so_detached toy_sodium (replicate 70 7) (replicate 32 1 @ replicate 32 1)) = 64"
    by (simp_all add: toy_sodium_def)
  have "so_verify_detached toy_sodium (so_detached toy_sodium (replicate 70 7) sk) (take (70 - 64) (replicate 70 7)) pk \<noteq> 0" for sk pk
    by (simp add: toy_sodium_def)
  then show ?thesis using sign_block_mismatch [OF e _ k(1,2)] by fastforce
qed

end
