(* ===== verification/Mxa_Core.thy ===== *)
theory Mxa_Core
  imports Core Combo Chacha Checksum Ed_Sign "HOL-Library.Monad_Syntax"
begin

text \<open>
  The MxA container, \<^verbatim>\<open>container/mxa_core.c\<close>: file data blocks, compressed and optionally
  encrypted, then a central directory with a checksum, a footer and an optional signature. The writer
  keeps the archive in a growing buffer; the reader finds the footer from the end. Reads at an offset
  taken from the archive are checked against the buffer here: \<open>None\<close> stands for a read outside it,
  and, in the writer, for a codec that does not return.
\<close>

section \<open>Constants and state\<close>

definition MXA_MAGIC :: u32 where "MXA_MAGIC = 0x3141784D"
definition MXA_CD_MAGIC :: u32 where "MXA_CD_MAGIC = 0x4443784D"
definition MXA_CF_MAGIC :: u32 where "MXA_CF_MAGIC = 0x4643784D"
definition MXA_VERSION_CUR :: u8 where "MXA_VERSION_CUR = 1"
definition MXA_VERSION_MIN :: u8 where "MXA_VERSION_MIN = 1"
definition MXA_HDR_LEN :: nat where "MXA_HDR_LEN = 16"
definition MXA_CD_HDR_LEN :: nat where "MXA_CD_HDR_LEN = 8"
definition MXA_CD_ENTRY_BASE :: nat where "MXA_CD_ENTRY_BASE = 48"
definition MXA_CD_FOOTER_LEN :: nat where "MXA_CD_FOOTER_LEN = 40"
definition MXA_SIG_LEN :: nat where "MXA_SIG_LEN = 64"
definition MXA_FLAG_SIGNED :: u32 where "MXA_FLAG_SIGNED = 1"
definition MXA_FLAG_ENCRYPTED :: u32 where "MXA_FLAG_ENCRYPTED = 2"
definition MXA_CODEC_STORED :: int where "MXA_CODEC_STORED = 0"
definition MXA_CODEC_MEUOS :: int where "MXA_CODEC_MEUOS = 1"

lemmas mxa_lens = MXA_HDR_LEN_def MXA_CD_HDR_LEN_def MXA_CD_ENTRY_BASE_def MXA_CD_FOOTER_LEN_def MXA_SIG_LEN_def
lemmas mxa_magics = MXA_MAGIC_def MXA_CD_MAGIC_def MXA_CF_MAGIC_def MXA_VERSION_CUR_def MXA_VERSION_MIN_def
lemmas mxa_codecs = MXA_CODEC_STORED_def MXA_CODEC_MEUOS_def

datatype mxa_err = MXA_ERR_MEMORY | MXA_ERR_DATA | MXA_ERR_PARAM | MXA_ERR_NOTFOUND | MXA_ERR_CRYPT

fun mxa_code :: "mxa_err \<Rightarrow> int" where
  "mxa_code MXA_ERR_MEMORY = -1"
| "mxa_code MXA_ERR_DATA = -2"
| "mxa_code MXA_ERR_PARAM = -3"
| "mxa_code MXA_ERR_NOTFOUND = -4"
| "mxa_code MXA_ERR_CRYPT = -5"

definition mxa_strerror :: "int \<Rightarrow> string" where
  "mxa_strerror err =
     (if err = 0 then ''Ok''
      else if err = mxa_code MXA_ERR_MEMORY then ''Out of memory''
      else if err = mxa_code MXA_ERR_DATA then ''Corrupt or invalid archive''
      else if err = mxa_code MXA_ERR_PARAM then ''Invalid parameter''
      else if err = mxa_code MXA_ERR_NOTFOUND then ''File not found''
      else if err = mxa_code MXA_ERR_CRYPT then ''Cryptographic error''
      else ''Unknown error'')"

record mxa_params =
  pa_flags :: u32
  pa_align :: int
  pa_level :: int
  pa_key :: "bytes option"
  pa_sk :: "bytes option"

text \<open>One record for \<^verbatim>\<open>mxa_file_pending\<close> and \<^verbatim>\<open>mxa_file_entry\<close>, which have the same fields.\<close>

record mxa_entry =
  me_name :: bytes
  me_name_len :: nat
  me_mode :: u16
  me_uid :: u32
  me_gid :: u32
  me_mtime :: u64
  me_offset :: u64
  me_size :: u64
  me_csize :: u64
  me_codec :: int

record mxa_write_ctx =
  mw_buf :: bytes
  mw_cap :: nat
  mw_total_uncompressed :: u64
  mw_total_compressed :: u64
  mw_flags :: u32
  mw_align :: nat
  mw_level :: int
  mw_files :: "mxa_entry list"
  mw_max_files :: nat
  mw_key :: "bytes option"
  mw_sk :: "bytes option"

record mxa_read_ctx =
  mr_data :: bytes
  mr_flags :: u16
  mr_files :: "mxa_entry list"
  mr_cd_start :: u64
  mr_key :: "bytes option"

text \<open>Sizes of the structures on an LP64 machine, for the allocator.\<close>

definition MXA_WRITE_CTX_SIZE :: nat where "MXA_WRITE_CTX_SIZE = 152"
definition MXA_READ_CTX_SIZE :: nat where "MXA_READ_CTX_SIZE = 88"
definition MXA_ENTRY_SIZE :: nat where "MXA_ENTRY_SIZE = 72"

section \<open>Fields and checksum\<close>

definition w64 :: "u64 \<Rightarrow> bytes" where
  "w64 v = map (\<lambda>i. ucast (drop_bit (8 * i) v AND 0xFF)) [0..<8]"

definition r64 :: "bytes \<Rightarrow> u64" where
  "r64 p = fold (\<lambda>i v. push_bit 8 v OR ucast (p ! i)) [7, 6, 5, 4, 3, 2, 1, 0] 0"

definition mxa_crc_table :: "u32 list" where
  "mxa_crc_table =
    [0x00000000, 0x77073096, 0xEE0E612C, 0x990951BA, 0x076DC419, 0x706AF48F, 0xE963A535, 0x9E6495A3,
     0x0EDB8832, 0x79DCB8A4, 0xE0D5E91E, 0x97D2D988, 0x09B64C2B, 0x7EB17CBD, 0xE7B82D07, 0x90BF1D91,
     0x1DB71064, 0x6AB020F2, 0xF3B97148, 0x84BE41DE, 0x1ADAD47D, 0x6DDDE4EB, 0xF4D4B551, 0x83D385C7,
     0x136C9856, 0x646BA8C0, 0xFD62F97A, 0x8A65C9EC, 0x14015C4F, 0x63066CD9, 0xFA0F3D63, 0x8D080DF5,
     0x3B6E20C8, 0x4C69105E, 0xD56041E4, 0xA2677172, 0x3C03E4D1, 0x4B04D447, 0xD20D85FD, 0xA50AB56B,
     0x35B5A8FA, 0x42B2986C, 0xDBBBC9D6, 0xACBCF940, 0x32D86CE3, 0x45DF5C75, 0xDCD60DCF, 0xABD13D59,
     0x26D930AC, 0x51DE003A, 0xC8D75180, 0xBFD06116, 0x21B4F4B5, 0x56B3C423, 0xCFBA9599, 0xB8BDA50F,
     0x2802B89E, 0x5F058808, 0xC60CD9B2, 0xB10BE924, 0x2F6F7C87, 0x58684C11, 0xC1611DAB, 0xB6662D3D,
     0x76DC4190, 0x01DB7106, 0x98D220BC, 0xEFD5102A, 0x71B18589, 0x06B6B51F, 0x9FBFE4A5, 0xE8B8D433,
     0x7807C9A2, 0x0F00F934, 0x9609A88E, 0xE10E9818, 0x7F6A0DBB, 0x086D3D2D, 0x91646C97, 0xE6635C01,
     0x6B6B51F4, 0x1C6C6162, 0x856530D8, 0xF262004E, 0x6C0695ED, 0x1B01A57B, 0x8208F4C1, 0xF50FC457,
     0x65B0D9C6, 0x12B7E950, 0x8BBEB8EA, 0xFCB9887C, 0x62DD1DDF, 0x15DA2D49, 0x8CD37CF3, 0xFBD44C65,
     0x4DB26158, 0x3AB551CE, 0xA3BC0074, 0xD4BB30E2, 0x4ADFA541, 0x3DD895D7, 0xA4D1C46D, 0xD3D6F4FB,
     0x4369E96A, 0x346ED9FC, 0xAD678846, 0xDA60B8D0, 0x44042D73, 0x33031DE5, 0xAA0A4C5F, 0xDD0D7CC9,
     0x5005713C, 0x270241AA, 0xBE0B1010, 0xC90C2086, 0x5768B525, 0x206F85B3, 0xB966D409, 0xCE61E49F,
     0x5EDEF90E, 0x29D9C998, 0xB0D09822, 0xC7D7A8B4, 0x59B33D17, 0x2EB40D81, 0xB7BD5C3B, 0xC0BA6CAD,
     0xEDB88320, 0x9ABFB3B6, 0x03B6E20C, 0x74B1D29A, 0xEAD54739, 0x9DD277AF, 0x04DB2615, 0x73DC1683,
     0xE3630B12, 0x94643B84, 0x0D6D6A3E, 0x7A6A5AA8, 0xE40ECF0B, 0x9309FF9D, 0x0A00AE27, 0x7D079EB1,
     0xF00F9344, 0x8708A3D2, 0x1E01F268, 0x6906C2FE, 0xF762575D, 0x806567CB, 0x196C3671, 0x6E6B06E7,
     0xFED41B76, 0x89D32BE0, 0x10DA7A5A, 0x67DD4ACC, 0xF9B9DF6F, 0x8EBEEFF9, 0x17B7BE43, 0x60B08ED5,
     0xD6D6A3E8, 0xA1D1937E, 0x38D8C2C4, 0x4FDFF252, 0xD1BB67F1, 0xA6BC5767, 0x3FB506DD, 0x48B2364B,
     0xD80D2BDA, 0xAF0A1B4C, 0x36034AF6, 0x41047A60, 0xDF60EFC3, 0xA867DF55, 0x316E8EEF, 0x4669BE79,
     0xCB61B38C, 0xBC66831A, 0x256FD2A0, 0x5268E236, 0xCC0C7795, 0xBB0B4703, 0x220216B9, 0x5505262F,
     0xC5BA3BBE, 0xB2BD0B28, 0x2BB45A92, 0x5CB36A04, 0xC2D7FFA7, 0xB5D0CF31, 0x2CD99E8B, 0x5BDEAE1D,
     0x9B64C2B0, 0xEC63F226, 0x756AA39C, 0x026D930A, 0x9C0906A9, 0xEB0E363F, 0x72076785, 0x05005713,
     0x95BF4A82, 0xE2B87A14, 0x7BB12BAE, 0x0CB61B38, 0x92D28E9B, 0xE5D5BE0D, 0x7CDCEFB7, 0x0BDBDF21,
     0x86D3D2D4, 0xF1D4E242, 0x68DDB3F8, 0x1FDA836E, 0x81BE16CD, 0xF6B9265B, 0x6FB077E1, 0x18B74777,
     0x88085AE6, 0xFF0F6A70, 0x66063BCA, 0x11010B5C, 0x8F659EFF, 0xF862AE69, 0x616BFFD3, 0x166CCF45,
     0xA00AE278, 0xD70DD2EE, 0x4E048354, 0x3903B3C2, 0xA7672661, 0xD06016F7, 0x4969474D, 0x3E6E77DB,
     0xAED16A4A, 0xD9D65ADC, 0x40DF0B66, 0x37D83BF0, 0xA9BCAE53, 0xDEBB9EC5, 0x47B2CF7F, 0x30B5FFE9,
     0xBDBDF21C, 0xCABAC28A, 0x53B39330, 0x24B4A3A6, 0xBAD03605, 0xCDD70693, 0x54DE5729, 0x23D967BF,
     0xB3667A2E, 0xC4614AB8, 0x5D681B02, 0x2A6F2B94, 0xB40BBE37, 0xC30C8EA1, 0x5A05DF1B, 0x2D02EF8D]"

definition crc32_bytes :: "bytes \<Rightarrow> u32" where
  "crc32_bytes data =
     foldl (\<lambda>c b. mxa_crc_table ! unat ((c XOR ucast b) AND 0xFF) XOR drop_bit 8 c) 0xFFFFFFFF data XOR 0xFFFFFFFF"

section \<open>Writing\<close>

definition mxa_buf_grow :: "allocator \<Rightarrow> nat \<Rightarrow> nat \<Rightarrow> mxa_err + nat" where
  "mxa_buf_grow al cap need =
     (if need \<le> cap then Inr cap
      else
        let new_cap = grow_cap (if cap \<noteq> 0 then cap * 2 else 4096) need
        in if al new_cap then Inr new_cap else Inl MXA_ERR_MEMORY)"

definition mxa_buf_append :: "allocator \<Rightarrow> mxa_write_ctx \<Rightarrow> bytes \<Rightarrow> mxa_err option \<times> mxa_write_ctx" where
  "mxa_buf_append al ctx data =
     (case mxa_buf_grow al (mw_cap ctx) (length (mw_buf ctx) + length data) of
        Inl e \<Rightarrow> (Some e, ctx)
      | Inr cap \<Rightarrow> (None, ctx\<lparr>mw_buf := mw_buf ctx @ data, mw_cap := cap\<rparr>))"

function pad_loop :: "allocator \<Rightarrow> mxa_write_ctx \<Rightarrow> nat \<Rightarrow> mxa_err option \<times> mxa_write_ctx" where
  "pad_loop al ctx pad =
     (if pad > 0 then
        let chunk = (if pad < 64 then pad else 64) in
        case mxa_buf_append al ctx (replicate chunk 0) of
          (Some e, ctx) \<Rightarrow> (Some e, ctx)
        | (None, ctx) \<Rightarrow> pad_loop al ctx (pad - chunk)
      else (None, ctx))"
  by pat_completeness auto
termination
  by (relation "measure (\<lambda>(al, ctx, pad). pad)") auto

declare pad_loop.simps [simp del]

definition mxa_buf_align :: "allocator \<Rightarrow> mxa_write_ctx \<Rightarrow> mxa_err option \<times> mxa_write_ctx" where
  "mxa_buf_align al ctx =
     (if mw_align ctx = 0 then (None, ctx)
      else
        let mask = push_bit (mw_align ctx) 1 - 1; rem = length (mw_buf ctx) AND mask in
        if rem = 0 then (None, ctx) else pad_loop al ctx (push_bit (mw_align ctx) 1 - rem))"

definition mxa_create :: "allocator \<Rightarrow> mxa_params option \<Rightarrow> mxa_err + mxa_write_ctx" where
  "mxa_create al params =
     (case params of
        None \<Rightarrow> Inl MXA_ERR_PARAM
      | Some p \<Rightarrow>
          if pa_flags p AND NOT (MXA_FLAG_SIGNED OR MXA_FLAG_ENCRYPTED) \<noteq> 0 then Inl MXA_ERR_PARAM
          else if pa_align p < 0 \<or> pa_align p > 12 then Inl MXA_ERR_PARAM
          else if pa_level p < 1 \<or> pa_level p > 9 then Inl MXA_ERR_PARAM
          else if \<not> al MXA_WRITE_CTX_SIZE then Inl MXA_ERR_MEMORY
          else if \<not> al 4096 then Inl MXA_ERR_MEMORY
          else Inr \<lparr>mw_buf = replicate MXA_HDR_LEN 0, mw_cap = 4096, mw_total_uncompressed = 0,
                    mw_total_compressed = 0, mw_flags = pa_flags p, mw_align = nat (pa_align p),
                    mw_level = pa_level p, mw_files = [], mw_max_files = 0, mw_key = pa_key p, mw_sk = pa_sk p\<rparr>)"

definition mxa_grow_files :: "allocator \<Rightarrow> mxa_write_ctx \<Rightarrow> mxa_err option \<times> mxa_write_ctx" where
  "mxa_grow_files al w =
     (if length (mw_files w) \<ge> mw_max_files w then
        let new_max = (if mw_max_files w \<noteq> 0 then mw_max_files w * 2 else 16)
        in if al (new_max * MXA_ENTRY_SIZE) then (None, w\<lparr>mw_max_files := new_max\<rparr>)
           else (Some MXA_ERR_MEMORY, w)
      else (None, w))"

text \<open>The compressed data, or the data itself when \<^verbatim>\<open>mz_compress\<close> fails; with \<^verbatim>\<open>csize\<close> and \<^verbatim>\<open>codec\<close>.\<close>

definition mxa_store :: "allocator \<Rightarrow> mxa_write_ctx \<Rightarrow> bytes \<Rightarrow> ((mxa_err option \<times> mxa_write_ctx) \<times> nat \<times> int) option" where
  "mxa_store al w data =
     (if length data > 0 then
        if \<not> al (mz_max_compressed_size (length data) MZ_CODEC_MEUOS) then Some ((Some MXA_ERR_MEMORY, w), 0, MXA_CODEC_MEUOS)
        else Option.bind (mz_compress al (Some data) MZ_CODEC_MEUOS (mw_level w))
          (\<lambda>cr. if ret_code cr \<le> 0 then Some (mxa_buf_append al w data, length data, MXA_CODEC_STORED)
            else Some (mxa_buf_append al w (the (ret_out cr)), length (the (ret_out cr)), MXA_CODEC_MEUOS))
      else Some ((None, w), 0, MXA_CODEC_STORED))"

definition mxa_nonce :: "u64 \<Rightarrow> bytes" where
  "mxa_nonce fid = map (\<lambda>b. ucast (drop_bit (b * 8) fid)) [0..<8] @ replicate 4 0"

text \<open>Encryption in place of the \<open>csize\<close> bytes from \<open>off\<close> on, the end of the buffer.\<close>

definition mxa_encrypt :: "mxa_write_ctx \<Rightarrow> nat \<Rightarrow> mxa_write_ctx option" where
  "mxa_encrypt w off =
     (case mw_key w of
        None \<Rightarrow> Some w
      | Some key \<Rightarrow>
          if mw_flags w AND MXA_FLAG_ENCRYPTED \<noteq> 0 then
            Option.bind (mz_chacha20 key (mxa_nonce (word_of_nat off)) 0 (drop off (mw_buf w)))
              (\<lambda>enc. Some (w\<lparr>mw_buf := take off (mw_buf w) @ enc\<rparr>))
          else Some w)"

definition mxa_add_file ::
  "allocator \<Rightarrow> mxa_write_ctx \<Rightarrow> bytes option \<Rightarrow> bytes option \<Rightarrow> nat \<Rightarrow> u16 \<Rightarrow> u32 \<Rightarrow> u32 \<Rightarrow> u64 \<Rightarrow>
    (mxa_err option \<times> mxa_write_ctx) option" where
  "mxa_add_file al w name data sz mode uid gid mtime =
     (case name of
        None \<Rightarrow> Some (Some MXA_ERR_PARAM, w)
      | Some name \<Rightarrow>
          if data = None \<and> sz > 0 then Some (Some MXA_ERR_PARAM, w)
          else case mxa_grow_files al w of
            (Some e, w) \<Rightarrow> Some (Some e, w)
          | (None, w) \<Rightarrow>
              if length name > 0xFFFF then Some (Some MXA_ERR_PARAM, w)
              else
                let off = length (mw_buf w) in
                Option.bind (mxa_store al w (case data of None \<Rightarrow> [] | Some d \<Rightarrow> take sz d)) (\<lambda>((err, w), csize, codec).
                  if err \<noteq> None then Some (err, w)
                  else Option.bind (mxa_encrypt w off) (\<lambda>w.
                    case mxa_buf_align al w of
                      (Some e, w) \<Rightarrow> Some (Some e, w)
                    | (None, w) \<Rightarrow>
                        if \<not> al (length name + 1) then Some (Some MXA_ERR_MEMORY, w)
                        else Some (None, w\<lparr>
                          mw_files := mw_files w @
                            [\<lparr>me_name = name, me_name_len = length name, me_mode = mode, me_uid = uid, me_gid = gid,
                              me_mtime = mtime, me_offset = word_of_nat off, me_size = word_of_nat sz,
                              me_csize = word_of_nat csize, me_codec = codec\<rparr>],
                          mw_total_uncompressed := mw_total_uncompressed w + word_of_nat sz,
                          mw_total_compressed := mw_total_compressed w + word_of_nat csize\<rparr>))))"

definition cd_entry :: "mxa_entry \<Rightarrow> bytes" where
  "cd_entry e =
     write_le16 (word_of_nat (me_name_len e)) @ write_le16 (me_mode e) @ write_le32 (me_uid e) @ write_le32 (me_gid e) @
     w64 (me_mtime e) @ w64 (me_offset e) @ w64 (me_size e) @ w64 (me_csize e) @ [word_of_int (me_codec e), 0, 0, 0] @
     take (me_name_len e) (me_name e)"

definition mxa_header :: "u32 \<Rightarrow> nat \<Rightarrow> bytes" where
  "mxa_header flags align =
     write_le32 MXA_MAGIC @ write_le16 (ucast flags) @ [MXA_VERSION_MIN, MXA_VERSION_CUR, word_of_nat align]"

definition mxa_footer :: "nat \<Rightarrow> u64 \<Rightarrow> u64 \<Rightarrow> u64 \<Rightarrow> u32 \<Rightarrow> u32 \<Rightarrow> bytes" where
  "mxa_footer n cd_start tu tc cd_crc hdr_crc =
     write_le32 MXA_CF_MAGIC @ write_le32 (word_of_nat n) @ w64 cd_start @ w64 tu @ w64 tc @ write_le32 cd_crc @
     write_le32 hdr_crc"

text \<open>The signature, or its placeholder when libsodium is missing.\<close>

definition mxa_sign :: "allocator \<Rightarrow> sodium \<Rightarrow> mxa_write_ctx \<Rightarrow> sodium_state \<Rightarrow> (mxa_err option \<times> mxa_write_ctx) \<times> sodium_state" where
  "mxa_sign al L w st =
     (case mw_sk w of
        None \<Rightarrow> ((None, w), st)
      | Some sk \<Rightarrow>
          (case mz_ed25519_keypair L sk st of ((r, sk64, pk32), st) \<Rightarrow>
             if r = 0 then
               (case mz_ed25519_sign L sk64 (mw_buf w) st of (sig, st) \<Rightarrow> (mxa_buf_append al w (take MXA_SIG_LEN sig), st))
             else (mxa_buf_append al w (replicate MXA_SIG_LEN 0), st)))"

definition mxa_finish :: "allocator \<Rightarrow> sodium \<Rightarrow> mxa_write_ctx \<Rightarrow> sodium_state \<Rightarrow> ((mxa_err + bytes) \<times> mxa_write_ctx) \<times> sodium_state" where
  "mxa_finish al L w st =
     (let cd_start = length (mw_buf w);
          cd_total = MXA_CD_HDR_LEN + sum_list (map (\<lambda>e. MXA_CD_ENTRY_BASE + me_name_len e) (mw_files w)) +
            MXA_CD_FOOTER_LEN + (if mw_sk w \<noteq> None then MXA_SIG_LEN else 0)
      in case mxa_buf_grow al (mw_cap w) (cd_start + cd_total) of
           Inl e \<Rightarrow> ((Inl e, w), st)
         | Inr cap \<Rightarrow>
             let entries = concat (map cd_entry (mw_files w));
                 cd = write_le32 MXA_CD_MAGIC @ write_le32 (word_of_nat (length (mw_files w))) @ entries;
                 buf = mxa_header (mw_flags w) (mw_align w) @ drop 9 (mw_buf w @ cd);
                 footer = mxa_footer (length (mw_files w)) (word_of_nat cd_start) (mw_total_uncompressed w)
                   (mw_total_compressed w) (crc32_bytes entries) (crc32_bytes (take MXA_HDR_LEN buf));
                 w = w\<lparr>mw_buf := buf @ footer, mw_cap := cap\<rparr>
             in case mxa_sign al L w st of
                  ((Some e, w), st) \<Rightarrow> ((Inl e, w), st)
                | ((None, w), st) \<Rightarrow>
                    if \<not> al (length (mw_buf w)) then ((Inl MXA_ERR_MEMORY, w), st)
                    else ((Inr (mw_buf w), w), st))"

section \<open>Reading\<close>

text \<open>\<open>n\<close> bytes at an offset that the archive gives; \<open>None\<close> when they are not all in the buffer.\<close>

definition chk_read :: "bytes \<Rightarrow> nat \<Rightarrow> nat \<Rightarrow> bytes option" where
  "chk_read p off n = (if off + n \<le> length p then Some (take n (drop off p)) else None)"

definition chk32 :: "bytes \<Rightarrow> nat \<Rightarrow> u32 option" where
  "chk32 p off = map_option read_le32 (chk_read p off 4)"

text \<open>The offset of the footer, before a signature or at the end.\<close>

definition mxa_find_footer :: "bytes \<Rightarrow> (mxa_err + nat) option" where
  "mxa_find_footer p =
     (let len = length p;
          scan = (if len > MXA_CD_FOOTER_LEN + MXA_SIG_LEN then len - MXA_CD_FOOTER_LEN - MXA_SIG_LEN else MXA_HDR_LEN)
      in if scan + MXA_CD_FOOTER_LEN > len then Some (Inl MXA_ERR_DATA)
         else do {
           m \<leftarrow> chk32 p scan;
           if m = MXA_CF_MAGIC then Some (Inr scan)
           else
             let scan = (if len > MXA_CD_FOOTER_LEN then len - MXA_CD_FOOTER_LEN else MXA_HDR_LEN) in
             if scan + MXA_CD_FOOTER_LEN > len then Some (Inl MXA_ERR_DATA)
             else do {
               m \<leftarrow> chk32 p scan;
               Some (if m \<noteq> MXA_CF_MAGIC then Inl MXA_ERR_DATA else Inr scan)
             }
         })"

fun mxa_parse :: "allocator \<Rightarrow> bytes \<Rightarrow> nat \<Rightarrow> nat \<Rightarrow> mxa_err + mxa_entry list" where
  "mxa_parse al p 0 cd_pos = Inr []"
| "mxa_parse al p (Suc n) cd_pos =
     (if cd_pos + MXA_CD_ENTRY_BASE > length p then Inl MXA_ERR_DATA
      else
        let e = drop cd_pos p; name_len = unat (read_le16 e) in
        if cd_pos + MXA_CD_ENTRY_BASE + name_len > length p then Inl MXA_ERR_DATA
        else if \<not> al (name_len + 1) then Inl MXA_ERR_MEMORY
        else
          let entry = \<lparr>me_name = take name_len (drop MXA_CD_ENTRY_BASE e), me_name_len = name_len,
                me_mode = read_le16 (drop 2 e), me_uid = read_le32 (drop 4 e), me_gid = read_le32 (drop 8 e),
                me_mtime = r64 (drop 12 e), me_offset = r64 (drop 20 e), me_size = r64 (drop 28 e),
                me_csize = r64 (drop 36 e), me_codec = int (unat (e ! 44))\<rparr>
          in case mxa_parse al p n (cd_pos + MXA_CD_ENTRY_BASE + name_len) of
               Inl err \<Rightarrow> Inl err
             | Inr es \<Rightarrow> Inr (entry # es))"

definition mxa_open_at :: "allocator \<Rightarrow> bytes \<Rightarrow> nat \<Rightarrow> (mxa_err + mxa_read_ctx) option" where
  "mxa_open_at al p scan =
     (let cd_start = r64 (drop (scan + 8) p); total_files = read_le32 (drop (scan + 4) p) in
      if read_le32 (drop (scan + 36) p) \<noteq> crc32_bytes (take MXA_HDR_LEN p) then Some (Inl MXA_ERR_DATA)
      else if unat (cd_start + 8) > length p then Some (Inl MXA_ERR_DATA)
      else do {
        m \<leftarrow> chk32 p (unat cd_start);
        if m \<noteq> MXA_CD_MAGIC then Some (Inl MXA_ERR_DATA)
        else do {
          n \<leftarrow> chk32 p (unat cd_start + 4);
          if n \<noteq> total_files then Some (Inl MXA_ERR_DATA)
          else if \<not> al MXA_READ_CTX_SIZE then Some (Inl MXA_ERR_MEMORY)
          else
            let off = unat (cd_start + 8) in
            if total_files \<noteq> 0 \<and> off > scan then Some (Inl MXA_ERR_DATA)
            else if total_files \<noteq> 0 \<and> read_le32 (drop (scan + 32) p) \<noteq> crc32_bytes (take (scan - off) (drop off p))
            then Some (Inl MXA_ERR_DATA)
            else if \<not> al (unat total_files * MXA_ENTRY_SIZE) \<and> total_files \<noteq> 0 then Some (Inl MXA_ERR_MEMORY)
            else
              (case mxa_parse al p (unat total_files) off of
                 Inl e \<Rightarrow> Some (Inl e)
               | Inr es \<Rightarrow> Some (Inr \<lparr>mr_data = p, mr_flags = read_le16 (drop 4 p), mr_files = es,
                   mr_cd_start = cd_start, mr_key = None\<rparr>))
        }
      })"

definition mxa_open :: "allocator \<Rightarrow> bytes option \<Rightarrow> (mxa_err + mxa_read_ctx) option" where
  "mxa_open al data =
     (case data of
        None \<Rightarrow> Some (Inl MXA_ERR_PARAM)
      | Some p \<Rightarrow>
          if length p < MXA_HDR_LEN then Some (Inl MXA_ERR_PARAM)
          else if read_le32 p \<noteq> MXA_MAGIC then Some (Inl MXA_ERR_DATA)
          else if p ! 7 > MXA_VERSION_CUR \<or> p ! 6 > MXA_VERSION_CUR then Some (Inl MXA_ERR_DATA)
          else do {
            f \<leftarrow> mxa_find_footer p;
            case f of Inl e \<Rightarrow> Some (Inl e) | Inr scan \<Rightarrow> mxa_open_at al p scan
          })"

text \<open>\<^verbatim>\<open>strcmp\<close> compares up to the first zero byte.\<close>

definition c_str :: "bytes \<Rightarrow> bytes" where
  "c_str s = takeWhile (\<lambda>b. b \<noteq> 0) s"

definition mxa_lookup :: "mxa_entry list \<Rightarrow> bytes \<Rightarrow> mxa_entry option" where
  "mxa_lookup files name = find (\<lambda>e. c_str (me_name e) = c_str name) files"

text \<open>
  The flag test is on the \<^verbatim>\<open>int\<close> that \<^verbatim>\<open>mxa_open\<close> fills from 16 bits. \<open>un\<close> is what freshly allocated
  memory holds, which the stored and encrypted case returns when \<^verbatim>\<open>csize\<close> is less than \<^verbatim>\<open>size\<close>; \<open>sy\<close> is
  the contents of inflate's uninitialised arrays.
\<close>

definition mr_encrypted :: "mxa_read_ctx \<Rightarrow> bytes option" where
  "mr_encrypted r = (if mr_flags r AND ucast MXA_FLAG_ENCRYPTED \<noteq> 0 then mr_key r else None)"

definition read_stored :: "allocator \<Rightarrow> (nat \<Rightarrow> u8) \<Rightarrow> mxa_read_ctx \<Rightarrow> mxa_entry \<Rightarrow> (mxa_err + bytes) option" where
  "read_stored al un r e =
     (let off = unat (me_offset e); sz = unat (me_size e); csz = unat (me_csize e) in
      if me_csize e > me_size e then Some (Inl MXA_ERR_DATA)
      else if unat (me_offset e + me_size e) > length (mr_data r) then Some (Inl MXA_ERR_DATA)
      else if \<not> al (if sz > 0 then sz else 1) then Some (Inl MXA_ERR_MEMORY)
      else case mr_encrypted r of
        Some key \<Rightarrow> do {
          blob \<leftarrow> chk_read (mr_data r) off csz;
          out \<leftarrow> mz_chacha20 key (mxa_nonce (me_offset e)) 0 blob;
          Some (Inr (out @ map un [csz..<sz]))
        }
      | None \<Rightarrow> map_option Inr (chk_read (mr_data r) off sz))"

definition read_meuos :: "nat list \<Rightarrow> allocator \<Rightarrow> mxa_read_ctx \<Rightarrow> mxa_entry \<Rightarrow> (mxa_err + bytes) option" where
  "read_meuos sy al r e =
     (let csz = unat (me_csize e) in
      if mr_encrypted r \<noteq> None \<and> \<not> al csz then Some (Inl MXA_ERR_MEMORY)
      else do {
        blob \<leftarrow> chk_read (mr_data r) (unat (me_offset e)) csz;
        src \<leftarrow> (case mr_encrypted r of Some key \<Rightarrow> mz_chacha20 key (mxa_nonce (me_offset e)) 0 blob | None \<Rightarrow> Some blob);
        ret \<leftarrow> mz_decompress sy al (Some src) MZ_CODEC_MEUOS;
        Some (if ret_code ret \<le> 0 then Inl MXA_ERR_DATA
              else if length (the (ret_out ret)) \<noteq> unat (me_size e) then Inl MXA_ERR_DATA
              else Inr (the (ret_out ret)))
      })"

definition mxa_read_file :: "nat list \<Rightarrow> allocator \<Rightarrow> (nat \<Rightarrow> u8) \<Rightarrow> mxa_read_ctx \<Rightarrow> bytes option \<Rightarrow> (mxa_err + bytes) option" where
  "mxa_read_file sy al un r name =
     (case name of
        None \<Rightarrow> Some (Inl MXA_ERR_PARAM)
      | Some name \<Rightarrow>
          (case mxa_lookup (mr_files r) name of
             None \<Rightarrow> Some (Inl MXA_ERR_NOTFOUND)
           | Some e \<Rightarrow>
               if unat (me_offset e + me_csize e) > length (mr_data r) then Some (Inl MXA_ERR_DATA)
               else if me_codec e = MXA_CODEC_STORED then read_stored al un r e
               else if me_codec e = MXA_CODEC_MEUOS then read_meuos sy al r e
               else Some (Inl MXA_ERR_DATA)))"

text \<open>The copies of the entries; a copied name ends at its first zero byte.\<close>

definition mxa_list_files :: "allocator \<Rightarrow> mxa_read_ctx \<Rightarrow> mxa_err + mxa_entry list" where
  "mxa_list_files al r =
     (if mr_files r = [] then Inr []
      else if \<not> al (length (mr_files r) * MXA_ENTRY_SIZE) then Inl MXA_ERR_MEMORY
      else if list_all (\<lambda>e. al (length (c_str (me_name e)) + 1)) (mr_files r)
      then Inr (map (\<lambda>e. e\<lparr>me_name := c_str (me_name e)\<rparr>) (mr_files r))
      else Inl MXA_ERR_MEMORY)"

definition mxa_set_key :: "mxa_read_ctx \<Rightarrow> bytes option \<Rightarrow> mxa_err + mxa_read_ctx" where
  "mxa_set_key r key =
     (case key of None \<Rightarrow> Inl MXA_ERR_PARAM | Some k \<Rightarrow> Inr (r\<lparr>mr_key := Some (take 32 k)\<rparr>))"

text \<open>\<open>None\<close> is \<^verbatim>\<open>MXA_OK\<close>.\<close>

definition mxa_verify :: "sodium \<Rightarrow> mxa_read_ctx \<Rightarrow> bytes option \<Rightarrow> sodium_state \<Rightarrow> mxa_err option \<times> sodium_state" where
  "mxa_verify L r public_key st =
     (case public_key of
        None \<Rightarrow> (Some MXA_ERR_PARAM, st)
      | Some pk \<Rightarrow>
          if mr_flags r AND ucast MXA_FLAG_SIGNED = 0 then (Some MXA_ERR_DATA, st)
          else if length (mr_data r) < MXA_SIG_LEN then (Some MXA_ERR_DATA, st)
          else case mz_verify_block L (mr_data r) pk st of
            (ok, st) \<Rightarrow> ((if ok then None else Some MXA_ERR_CRYPT), st))"

end
