(* ===== verification/Mxa.thy ===== *)
theory Mxa
  imports Mxa_Core Container
begin

text \<open>
  What the MxA container promises. The checksum table of the source is the one that \<^verbatim>\<open>mz_hash.c\<close>
  computes. \<open>mxa_repr\<close> relates a write context to the files added to it: each entry's bytes, decrypted
  and decompressed, are its file. The contract \<open>archive_store\<close> of \<open>Container\<close> is interpreted a second
  time, on writers with a signing key.
\<close>

section \<open>Fields and checksum\<close>

text \<open>The checksum table of the source, recomputed.\<close>

definition crc_int :: "int \<Rightarrow> int" where
  "crc_int c = (if even c then c div 2 else (c div 2) XOR 0xEDB88320)"

definition crc_int8 :: "int \<Rightarrow> int" where
  "crc_int8 c = crc_int (crc_int (crc_int (crc_int (crc_int (crc_int (crc_int (crc_int c)))))))"

lemma uint_crc32_bit: "uint (crc32_bit x) = crc_int (uint x)"
proof -
  have e: "crc32_bit x = (if even x then x div 2 else (x div 2) XOR 0xEDB88320)"
    by (simp add: crc32_bit_def CRC32_POLY_def and_one_eq drop_bit_Suc even_iff_mod_2_eq_zero odd_iff_mod_2_eq_one)
  have "even x \<longleftrightarrow> even (uint x)" using bit_uint_iff [of x 0] by (simp add: bit_0)
  then show ?thesis unfolding e crc_int_def by (simp add: uint_div uint_xor)
qed

lemma uint_crc32_8: "uint ((crc32_bit ^^ 8) x) = crc_int8 (uint x)"
  by (simp add: crc_int8_def numeral_eq_Suc uint_crc32_bit del: One_nat_def)

lemma mxa_table_ints: "map uint mxa_crc_table = map crc_int8 (map int [0..<256])"
  by code_simp

lemma inj_map_uint: "map uint xs = map uint ys \<Longrightarrow> xs = ys" for xs ys :: "u32 list"
  by (rule map_injective) (auto intro: injI dest: arg_cong [where f = "word_of_int :: int \<Rightarrow> u32"])

lemma mxa_table: "mxa_crc_table = crc32_init_table"
proof -
  have "map uint crc32_init_table = map crc_int8 (map int [0..<256])"
    by (simp add: crc32_init_table_def uint_crc32_8 unsigned_of_nat take_bit_nat_eq_self)
  then show ?thesis using mxa_table_ints inj_map_uint by metis
qed

lemma crc32_bytes_eq: "crc32_bytes data = mz_crc32 data"
proof -
  have "foldl (\<lambda>c b. crc32_init_table ! unat ((c XOR ucast b) AND 0xFF) XOR drop_bit 8 c) c data = crc32_loop c data" for c
    by (induction data arbitrary: c) simp_all
  then show ?thesis by (simp add: crc32_bytes_def mz_crc32_def mxa_table)
qed

lemma length_w64 [simp]: "length (w64 v) = 8"
  by (simp add: w64_def)

lemma w64_step: "push_bit 8 (drop_bit (n + 8) v) OR ucast (ucast (drop_bit n v) :: u8) = drop_bit n v" for v :: u64
proof (rule bit_word_eqI)
  fix i assume "i < LENGTH(64)"
  then show "bit (push_bit 8 (drop_bit (n + 8) v) OR ucast (ucast (drop_bit n v) :: u8)) i = bit (drop_bit n v) i"
    by (cases "i < 8") (auto simp: bit_simps dest: bit_imp_le_length)
qed

lemma r64_w64 [simp]: "r64 (w64 v @ rest) = v"
proof -
  have n: "(w64 v @ rest) ! k = ucast (drop_bit (8 * k) v)" if "k < 8" for k
    using that by (simp add: w64_def nth_append)
  have s: "push_bit 8 (drop_bit m v) OR ucast ((w64 v @ rest) ! k) = drop_bit (8 * k) v" if "k < 8" "m = 8 * k + 8" for k m
    using w64_step [of "8 * k" v] n [OF that(1)] that(2) by simp
  have z: "drop_bit 64 v = 0" by (rule bit_word_eqI) (auto simp: bit_simps dest: bit_imp_le_length)
  show ?thesis
    unfolding r64_def using s [of 7 64] s [of 6 56] s [of 5 48] s [of 4 40] s [of 3 32] s [of 2 24] s [of 1 16] s [of 0 8]
    by (simp add: z del: push_bit_numeral)
qed

section \<open>What the writer keeps\<close>

text \<open>
  The form in which the archive holds a file: the bytes at the entry's offset are, after decryption
  when there is a key, the file itself or a stream that decompresses to it. \<open>k\<close> is the key that the
  data is encrypted with, if it is.
\<close>

type_synonym mxa_meta = "u16 \<times> u32 \<times> u32 \<times> u64"
type_synonym mxa_file = "bytes \<times> mxa_meta \<times> bytes"

definition enc_key :: "u32 \<Rightarrow> bytes option \<Rightarrow> bytes option" where
  "enc_key flags key = (if flags AND MXA_FLAG_ENCRYPTED \<noteq> 0 then key else None)"

definition decrypted :: "bytes option \<Rightarrow> u64 \<Rightarrow> bytes \<Rightarrow> bytes option" where
  "decrypted k off blob = (case k of None \<Rightarrow> Some blob | Some key \<Rightarrow> mz_chacha20 key (mxa_nonce off) 0 blob)"

definition blob_ok :: "nat list \<Rightarrow> int \<Rightarrow> bytes \<Rightarrow> bytes \<Rightarrow> bool" where
  "blob_ok sy codec blob d \<longleftrightarrow>
     codec = MXA_CODEC_STORED \<and> blob = d \<or>
     codec = MXA_CODEC_MEUOS \<and> d \<noteq> [] \<and> mz_decompress sy al_ok (Some blob) MZ_CODEC_MEUOS = Some (mz_ok d)"

definition entry_ok :: "nat list \<Rightarrow> bytes option \<Rightarrow> bytes \<Rightarrow> mxa_file \<Rightarrow> mxa_entry \<Rightarrow> bool" where
  "entry_ok sy k buf f e =
     (case f of (n, (mode, uid, gid, mtime), d) \<Rightarrow>
       (\<exists>blob. me_name e = n \<and> me_name_len e = length n \<and> me_mode e = mode \<and> me_uid e = uid \<and> me_gid e = gid \<and>
         me_mtime e = mtime \<and> me_size e = word_of_nat (length d) \<and> 16 \<le> unat (me_offset e) \<and>
         unat (me_offset e) + unat (me_csize e) \<le> length buf \<and>
         (me_codec e = MXA_CODEC_STORED \<longrightarrow> unat (me_csize e) = length d) \<and> 
         decrypted k (me_offset e) (take (unat (me_csize e)) (drop (unat (me_offset e)) buf)) = Some blob \<and>
         blob_ok sy (me_codec e) blob d))"

definition codec_ok :: "nat list \<Rightarrow> int \<Rightarrow> bytes \<Rightarrow> bool" where
  "codec_ok sy level d \<longleftrightarrow>
     (\<forall>out. mz_compress al_ok (Some d) MZ_CODEC_MEUOS level = Some (mz_ok out) \<longrightarrow>
        mz_decompress sy al_ok (Some out) MZ_CODEC_MEUOS = Some (mz_ok d))"

definition file_ok :: "nat list \<Rightarrow> int \<Rightarrow> mxa_file \<Rightarrow> bool" where
  "file_ok sy level f =
     (case f of (n, m, d) \<Rightarrow> length n < 2 ^ 16 \<and> 0 \<notin> set n \<and> length d < 2 ^ 22 \<and> (d \<noteq> [] \<longrightarrow> codec_ok sy level d))"

definition mxa_room :: "mxa_file list \<Rightarrow> nat" where
  "mxa_room fs = sum_list (map (\<lambda>(n, m, d). 2 * length d + length n + 5000) fs)"

definition mxa_ok :: "nat list \<Rightarrow> int \<Rightarrow> mxa_file list \<Rightarrow> bool" where
  "mxa_ok sy level fs \<longleftrightarrow> list_all (file_ok sy level) fs \<and> mxa_room fs < 2 ^ 40"

definition mxa_repr :: "nat list \<Rightarrow> mxa_write_ctx \<Rightarrow> mxa_write_ctx \<Rightarrow> mxa_file list \<Rightarrow> bool" where
  "mxa_repr sy w0 w fs \<longleftrightarrow>
     mw_flags w = mw_flags w0 \<and> mw_align w = mw_align w0 \<and> mw_level w = mw_level w0 \<and> mw_key w = mw_key w0 \<and>
     mw_sk w = mw_sk w0 \<and> mw_align w0 \<le> 12 \<and> 16 \<le> length (mw_buf w) \<and> length (mw_buf w) + sum_list (map (\<lambda>e. 800 + me_name_len e) (mw_files w)) \<le> 16 + mxa_room fs \<and>
     (\<forall>i \<in> {9..<16}. mw_buf w ! i = 0) \<and>
     list_all2 (entry_ok sy (enc_key (mw_flags w0) (mw_key w0)) (mw_buf w)) fs (mw_files w)"

text \<open>An entry stays good when the buffer grows and when the header is filled in.\<close>

lemma entry_ok_append: "entry_ok sy k buf f e \<Longrightarrow> entry_ok sy k (buf @ x) f e"
  unfolding entry_ok_def by (auto split: prod.splits)

lemma entry_ok_header:
  assumes "length h \<le> 16" "entry_ok sy k buf f e"
  shows "entry_ok sy k (h @ drop (length h) buf) f e"
proof -
  have "take m (drop n (h @ drop (length h) buf)) = take m (drop n buf)" if "16 \<le> n" for m n
    using assms(1) that by simp
  moreover have "length buf \<le> length (h @ drop (length h) buf)" by simp
  ultimately show ?thesis using assms(2) unfolding entry_ok_def by (fastforce split: prod.splits)
qed

lemma mxa_append_ok:
  "\<exists>cap. mxa_buf_append al_ok w d = (None, w\<lparr>mw_buf := mw_buf w @ d, mw_cap := cap\<rparr>)"
proof -
  obtain cap where "mxa_buf_grow al_ok (mw_cap w) (length (mw_buf w) + length d) = Inr cap"
    by (cases "length (mw_buf w) + length d \<le> mw_cap w") (simp_all add: mxa_buf_grow_def)
  then show ?thesis by (auto simp: mxa_buf_append_def)
qed

lemma pad_loop_ok:
  "\<exists>cap. pad_loop al_ok w pad = (None, w\<lparr>mw_buf := mw_buf w @ replicate pad 0, mw_cap := cap\<rparr>)"
proof (induction pad arbitrary: w rule: less_induct)
  case (less pad)
  show ?case
  proof (cases "pad = 0")
    case True
    then show ?thesis by (subst pad_loop.simps) (auto intro: exI [of _ "mw_cap w"])
  next
    case False
    define c where "c = (if pad < 64 then pad else 64)"
    have c: "c \<le> pad" "pad - c < pad" using False by (auto simp: c_def)
    obtain cap where a: "mxa_buf_append al_ok w (replicate c 0) = (None, w\<lparr>mw_buf := mw_buf w @ replicate c 0, mw_cap := cap\<rparr>)"
      using mxa_append_ok by blast
    obtain cap' where "pad_loop al_ok (w\<lparr>mw_buf := mw_buf w @ replicate c 0, mw_cap := cap\<rparr>) (pad - c) =
        (None, w\<lparr>mw_buf := (mw_buf w @ replicate c 0) @ replicate (pad - c) 0, mw_cap := cap'\<rparr>)"
      using less.IH [OF c(2), of "w\<lparr>mw_buf := mw_buf w @ replicate c 0, mw_cap := cap\<rparr>"] by auto
    then show ?thesis using False a c(1)
      by (subst pad_loop.simps) (auto simp: Let_def simp flip: c_def replicate_add)
  qed
qed

lemma align_ok:
  assumes "mw_align w \<le> 12"
  shows "\<exists>pad cap. mxa_buf_align al_ok w = (None, w\<lparr>mw_buf := mw_buf w @ replicate pad 0, mw_cap := cap\<rparr>) \<and> pad \<le> 4096"
proof (cases "mw_align w = 0 \<or> length (mw_buf w) AND (push_bit (mw_align w) 1 - 1) = 0")
  case True
  then show ?thesis by (intro exI [of _ 0] exI [of _ "mw_cap w"]) (auto simp: mxa_buf_align_def)
next
  case False
  have "push_bit (mw_align w) 1 \<le> (4096 :: nat)"
    using power_increasing [OF assms, of "2 :: nat"] by (simp add: push_bit_eq_mult)
  then show ?thesis
    using False pad_loop_ok [of w "push_bit (mw_align w) 1 - (length (mw_buf w) AND (push_bit (mw_align w) 1 - 1))"]
    by (auto simp: mxa_buf_align_def Let_def)
qed


lemma store_ok:
  assumes "length d < 2 ^ 22" "d \<noteq> [] \<Longrightarrow> codec_ok sy (mw_level w) d"
  shows "\<exists>blob codec cap. mxa_store al_ok w d =
      Some ((None, w\<lparr>mw_buf := mw_buf w @ blob, mw_cap := cap\<rparr>), length blob, codec) \<and>
    blob_ok sy codec blob d \<and> length blob \<le> 2 * length d + 7"
proof (cases "d = []")
  case True
  then show ?thesis
    by (intro exI [of _ "[]"] exI [of _ MXA_CODEC_STORED] exI [of _ "mw_cap w"]) (simp add: mxa_store_def blob_ok_def)
next
  case False
  then obtain lz where lz: "mz_compress_lz77 al_ok (Some d) (mw_level w) = mz_ok lz"
    using compress_lz77_shape [of d al_ok "mw_level w"] by auto
  have "lz_fits al_ok d" using False assms(1) by (simp add: lz_fits_def)
  then obtain etype ecode where e: "length ecode \<le> 2 * length d + 6"
    "mz_compress_meuos al_ok (Some d) (mw_level w) = Some (mz_ok (etype # ecode))"
    using compress_meuos_out [OF _ assms(1) _ lz] by auto
  define out where "out = etype # ecode"
  have out: "mz_compress al_ok (Some d) MZ_CODEC_MEUOS (mw_level w) = Some (mz_ok out)" "length out \<le> 2 * length d + 7"
    using e by (simp_all add: mz_compress_def out_def)
  have pos: "0 < c_int (length out)" using assms(1) out(2) by (intro c_int_pos) (simp_all add: out_def)
  obtain cap where "mxa_buf_append al_ok w out = (None, w\<lparr>mw_buf := mw_buf w @ out, mw_cap := cap\<rparr>)"
    using mxa_append_ok by blast
  then show ?thesis
    using out pos False assms(2)
    by (intro exI [of _ out] exI [of _ MXA_CODEC_MEUOS] exI [of _ cap]) (auto simp: mxa_store_def blob_ok_def codec_ok_def)
qed

lemma encrypt_ok:
  assumes "length blob < 2 ^ 32"
  shows "\<exists>enc. mxa_encrypt (w\<lparr>mw_buf := pre @ blob\<rparr>) (length pre) = Some (w\<lparr>mw_buf := pre @ enc\<rparr>) \<and>
    length enc = length blob \<and> decrypted (enc_key (mw_flags w) (mw_key w)) (word_of_nat (length pre)) enc = Some blob"
proof (cases "enc_key (mw_flags w) (mw_key w)")
  case None
  then show ?thesis
    by (intro exI [of _ blob]) (auto simp: mxa_encrypt_def enc_key_def decrypted_def split: if_splits option.splits)
next
  case (Some key)
  then have k: "mw_key w = Some key" "mw_flags w AND MXA_FLAG_ENCRYPTED \<noteq> 0" by (simp_all add: enc_key_def split: if_splits)
  obtain enc where "mz_chacha20 key (mxa_nonce (word_of_nat (length pre))) 0 blob = Some enc" "length enc = length blob"
    "mz_chacha20 key (mxa_nonce (word_of_nat (length pre))) 0 enc = Some blob"
    using chacha_inverse [OF assms] by blast
  then show ?thesis using k Some by (intro exI [of _ enc]) (simp add: mxa_encrypt_def decrypted_def)
qed

lemma grow_files_ok: "\<exists>mx. mxa_grow_files al_ok w = (None, w\<lparr>mw_max_files := mx\<rparr>)"
proof (cases "length (mw_files w) \<ge> mw_max_files w")
  case False
  then show ?thesis by (intro exI [of _ "mw_max_files w"]) (simp add: mxa_grow_files_def)
qed (auto simp: mxa_grow_files_def Let_def)

definition mxa_put :: "mxa_file \<Rightarrow> mxa_write_ctx \<Rightarrow> mxa_write_ctx option" where
  "mxa_put f w = (case f of (n, (mode, uid, gid, mtime), d) \<Rightarrow>
     (case mxa_add_file al_ok w (Some n) (Some d) (length d) mode uid gid mtime of
        Some (None, w') \<Rightarrow> Some w' | _ \<Rightarrow> None))"

lemma add_file_steps:
  assumes f: "file_ok sy (mw_level w) (n, (mode, uid, gid, mtime), d)" and a: "mw_align w \<le> 12"
  shows "\<exists>enc pad codec mx cap.
    mxa_add_file al_ok w (Some n) (Some d) (length d) mode uid gid mtime =
      Some (None, w\<lparr>mw_buf := mw_buf w @ enc @ replicate pad 0, mw_cap := cap, mw_max_files := mx,
        mw_files := mw_files w @ [\<lparr>me_name = n, me_name_len = length n, me_mode = mode, me_uid = uid, me_gid = gid,
          me_mtime = mtime, me_offset = word_of_nat (length (mw_buf w)), me_size = word_of_nat (length d),
          me_csize = word_of_nat (length enc), me_codec = codec\<rparr>],
        mw_total_uncompressed := mw_total_uncompressed w + word_of_nat (length d),
        mw_total_compressed := mw_total_compressed w + word_of_nat (length enc)\<rparr>) \<and>
    (\<exists>blob. length enc = length blob \<and> blob_ok sy codec blob d \<and>
      decrypted (enc_key (mw_flags w) (mw_key w)) (word_of_nat (length (mw_buf w))) enc = Some blob) \<and>
    length enc \<le> 2 * length d + 7 \<and> pad \<le> 4096"
proof -
  have n: "\<not> length n > 65535" and d: "length d < 2 ^ 22" "d \<noteq> [] \<Longrightarrow> codec_ok sy (mw_level w) d"
    using f by (simp_all add: file_ok_def)
  obtain mx where g: "mxa_grow_files al_ok w = (None, w\<lparr>mw_max_files := mx\<rparr>)" using grow_files_ok by blast
  define w1 where "w1 = w\<lparr>mw_max_files := mx\<rparr>"
  obtain blob codec cap where s: "mxa_store al_ok w1 d =
      Some ((None, w1\<lparr>mw_buf := mw_buf w1 @ blob, mw_cap := cap\<rparr>), length blob, codec)"
    and b: "blob_ok sy codec blob d" "length blob \<le> 2 * length d + 7"
    using store_ok [OF d(1), of sy w1] d(2) by (auto simp: w1_def)
  define w2 where "w2 = w1\<lparr>mw_cap := cap\<rparr>"
  obtain enc where e: "mxa_encrypt (w2\<lparr>mw_buf := mw_buf w @ blob\<rparr>) (length (mw_buf w)) = Some (w2\<lparr>mw_buf := mw_buf w @ enc\<rparr>)"
    "length enc = length blob" "decrypted (enc_key (mw_flags w) (mw_key w)) (word_of_nat (length (mw_buf w))) enc = Some blob"
    using encrypt_ok [of blob "mw_buf w" w2] b(2) d(1) by (auto simp: w2_def w1_def)
  have "mw_align (w2\<lparr>mw_buf := mw_buf w @ enc\<rparr>) \<le> 12" using a by (simp add: w2_def w1_def)
  from align_ok [OF this] obtain pad cap' where p: "mxa_buf_align al_ok (w2\<lparr>mw_buf := mw_buf w @ enc\<rparr>) =
      (None, w2\<lparr>mw_buf := (mw_buf w @ enc) @ replicate pad 0, mw_cap := cap'\<rparr>)" "pad \<le> 4096"
    by auto
  have s': "mxa_store al_ok w1 d = Some ((None, w2\<lparr>mw_buf := mw_buf w @ blob\<rparr>), length blob, codec)"
    using s by (simp add: w2_def w1_def)
  have w1: "mw_buf w1 = mw_buf w" by (simp add: w1_def)
  have "mxa_add_file al_ok w (Some n) (Some d) (length d) mode uid gid mtime =
      Some (None, w\<lparr>mw_buf := mw_buf w @ enc @ replicate pad 0, mw_cap := cap', mw_max_files := mx,
        mw_files := mw_files w @ [\<lparr>me_name = n, me_name_len = length n, me_mode = mode, me_uid = uid, me_gid = gid,
          me_mtime = mtime, me_offset = word_of_nat (length (mw_buf w)), me_size = word_of_nat (length d),
          me_csize = word_of_nat (length enc), me_codec = codec\<rparr>],
        mw_total_uncompressed := mw_total_uncompressed w + word_of_nat (length d),
        mw_total_compressed := mw_total_compressed w + word_of_nat (length enc)\<rparr>)"
    using n g s' e(1,2) p(1) w1 by (simp add: mxa_add_file_def Let_def flip: w1_def) (simp add: w2_def w1_def)
  then show ?thesis using e(2,3) p(2) b by (intro exI conjI) (assumption | simp)+
qed

lemma put_ok:
  assumes w: "mxa_repr sy w0 w fs" and ok: "mxa_ok sy (mw_level w0) (fs @ [f])"
  shows "\<exists>w'. mxa_put f w = Some w' \<and> mxa_repr sy w0 w' (fs @ [f])"
proof -
  obtain n mode uid gid mtime d where f: "f = (n, (mode, uid, gid, mtime), d)" by (cases f) auto
  have fok: "file_ok sy (mw_level w) (n, (mode, uid, gid, mtime), d)" "mw_align w \<le> 12"
    using w ok by (simp_all add: mxa_repr_def mxa_ok_def f)
  note w' = w [unfolded mxa_repr_def]
  obtain enc pad codec mx cap blob where s: "mxa_put f w = Some (w\<lparr>mw_buf := mw_buf w @ enc @ replicate pad 0, mw_cap := cap, mw_max_files := mx,
        mw_files := mw_files w @ [\<lparr>me_name = n, me_name_len = length n, me_mode = mode, me_uid = uid, me_gid = gid,
          me_mtime = mtime, me_offset = word_of_nat (length (mw_buf w)), me_size = word_of_nat (length d),
          me_csize = word_of_nat (length enc), me_codec = codec\<rparr>],
        mw_total_uncompressed := mw_total_uncompressed w + word_of_nat (length d),
        mw_total_compressed := mw_total_compressed w + word_of_nat (length enc)\<rparr>)"
    and b: "length enc = length blob" "blob_ok sy codec blob d"
      "decrypted (enc_key (mw_flags w) (mw_key w)) (word_of_nat (length (mw_buf w))) enc = Some blob"
    and l: "length enc \<le> 2 * length d + 7" "pad \<le> 4096"
    using add_file_steps [OF fok] that by (force simp: mxa_put_def f)
  have room: "length (mw_buf w) \<le> 16 + mxa_room fs" "mxa_room fs + 2 * length d < 2 ^ 40"
    using w' ok by (simp_all add: mxa_ok_def mxa_room_def f)
  have u: "unat (word_of_nat (length (mw_buf w)) :: u64) = length (mw_buf w)" "unat (word_of_nat (length enc) :: u64) = length enc"
    using room l(1) by (simp_all add: unat_of_nat)
  have e: "entry_ok sy (enc_key (mw_flags w0) (mw_key w0)) (mw_buf w @ enc @ replicate pad 0) f
      \<lparr>me_name = n, me_name_len = length n, me_mode = mode, me_uid = uid, me_gid = gid,
          me_mtime = mtime, me_offset = word_of_nat (length (mw_buf w)), me_size = word_of_nat (length d),
          me_csize = word_of_nat (length enc), me_codec = codec\<rparr>"
    using b w' u by (auto simp: entry_ok_def f blob_ok_def mxa_codecs)
  have r: "mxa_room (fs @ [f]) = mxa_room fs + (2 * length d + length n + 5000)" by (simp add: mxa_room_def f)
  have z: "(mw_buf w @ enc @ replicate pad 0) ! i = 0" if "i \<in> {9..<16}" for i
    using w' that by (simp add: nth_append)
  have "list_all2 (entry_ok sy (enc_key (mw_flags w0) (mw_key w0)) (mw_buf w @ enc @ replicate pad 0)) fs (mw_files w)"
    using w' by (auto elim: list_all2_mono intro: entry_ok_append)
  then show ?thesis
    unfolding s mxa_repr_def using w' e r z l by (auto simp: list_all2_appendI)
qed

section \<open>The finished archive\<close>

definition mxa_cd :: "mxa_entry list \<Rightarrow> bytes" where
  "mxa_cd es = write_le32 MXA_CD_MAGIC @ write_le32 (word_of_nat (length es)) @ concat (map cd_entry es)"

text \<open>The archive around the data: header, data blocks, directory, footer, signature.\<close>

definition mxa_bytes :: "u32 \<Rightarrow> nat \<Rightarrow> bytes \<Rightarrow> mxa_entry list \<Rightarrow> u64 \<Rightarrow> u64 \<Rightarrow> bytes \<Rightarrow> bytes" where
  "mxa_bytes flags align buf es tu tc sig =
     (let body = mxa_header flags align @ drop 9 buf in
      body @ mxa_cd es @ mxa_footer (length es) (word_of_nat (length buf)) tu tc (crc32_bytes (concat (map cd_entry es)))
        (crc32_bytes (take 16 body)) @ sig)"

definition mxa_seal :: "sodium \<Rightarrow> sodium_state \<Rightarrow> mxa_write_ctx \<Rightarrow> bytes option" where
  "mxa_seal L st w = (case fst (fst (mxa_finish al_ok L w st)) of Inr a \<Rightarrow> Some a | Inl e \<Rightarrow> None)"

lemma length_mxa_header [simp]: "length (mxa_header flags align) = 9"
  by (simp add: mxa_header_def)

lemma length_mxa_footer [simp]: "length (mxa_footer n cs tu tc c h) = 40"
  by (simp add: mxa_footer_def)

text \<open>Signatures have 64 bytes, as libsodium documents.\<close>

definition sigs_64 :: "sodium \<Rightarrow> bool" where
  "sigs_64 L \<longleftrightarrow> (\<forall>m sk. length (so_detached L m sk) = 64)"

lemma sign_ok:
  assumes "mw_sk w = None \<or> sigs_64 L"
  shows "\<exists>sig cap st'. mxa_sign al_ok L w st = ((None, w\<lparr>mw_buf := mw_buf w @ sig, mw_cap := cap\<rparr>), st') \<and>
    length sig = (if mw_sk w = None then 0 else 64)"
proof (cases "mw_sk w")
  case None
  then show ?thesis by (intro exI [of _ "[]"] exI [of _ "mw_cap w"]) (simp add: mxa_sign_def)
next
  case (Some sk)
  obtain r sk64 pk32 st1 where k: "mz_ed25519_keypair L sk st = ((r, sk64, pk32), st1)" by (metis prod_cases3 surj_pair)
  obtain sig st2 where g: "mz_ed25519_sign L sk64 (mw_buf w) st1 = (sig, st2)" by fastforce
  have "length sig = 64" using g assms Some by (auto simp: mz_ed25519_sign_def sigs_64_def split: prod.splits if_splits)
  then show ?thesis
    using Some k g mxa_append_ok [of w "take 64 sig"] mxa_append_ok [of w "replicate 64 0"]
    by (cases "r = 0") (fastforce simp: mxa_sign_def mxa_lens)+
qed

lemma seal_bytes:
  assumes "mw_sk w = None \<or> sigs_64 L" "16 \<le> length (mw_buf w)"
  shows "\<exists>sig. mxa_seal L st w = Some (mxa_bytes (mw_flags w) (mw_align w) (mw_buf w) (mw_files w)
      (mw_total_uncompressed w) (mw_total_compressed w) sig) \<and> length sig = (if mw_sk w = None then 0 else 64)"
proof -
  define total where "total = MXA_CD_HDR_LEN + sum_list (map (\<lambda>e. MXA_CD_ENTRY_BASE + me_name_len e) (mw_files w)) +
            MXA_CD_FOOTER_LEN + (if mw_sk w \<noteq> None then MXA_SIG_LEN else 0)"
  obtain cap where g: "mxa_buf_grow al_ok (mw_cap w) (length (mw_buf w) + total) = Inr cap"
    by (cases "length (mw_buf w) + total \<le> mw_cap w") (simp_all add: mxa_buf_grow_def)
  define body where "body = mxa_header (mw_flags w) (mw_align w) @ drop 9 (mw_buf w)"
  define foot where "foot = mxa_footer (length (mw_files w)) (word_of_nat (length (mw_buf w))) (mw_total_uncompressed w)
    (mw_total_compressed w) (crc32_bytes (concat (map cd_entry (mw_files w)))) (crc32_bytes (take 16 body))"
  have "length body = length (mw_buf w)" using assms(2) by (simp add: body_def)
  then have b: "take 16 (body @ x) = take 16 body" for x using assms(2) by simp
  have d: "mxa_header (mw_flags w) (mw_align w) @ drop 9 (mw_buf w @ x) = body @ x" for x
    using assms(2) by (simp add: body_def)
  define w1 where "w1 = w\<lparr>mw_buf := (body @ mxa_cd (mw_files w)) @ foot, mw_cap := cap\<rparr>"
  obtain sig cap' st' where s: "mxa_sign al_ok L w1 st = ((None, w1\<lparr>mw_buf := mw_buf w1 @ sig, mw_cap := cap'\<rparr>), st')"
    "length sig = (if mw_sk w = None then 0 else 64)"
    using sign_ok [of w1 L st] assms(1) by (auto simp: w1_def)
  have "fst (fst (mxa_finish al_ok L w st)) = Inr (body @ mxa_cd (mw_files w) @ foot @ sig)"
    unfolding mxa_finish_def Let_def total_def [symmetric] mxa_cd_def [symmetric] g sum.case d b MXA_HDR_LEN_def
    unfolding foot_def [symmetric] unfolding w1_def [symmetric] s(1) by (simp add: w1_def)
  then show ?thesis
    using s(2) by (intro exI [of _ sig]) (simp add: mxa_seal_def mxa_bytes_def Let_def foot_def flip: body_def)
qed

section \<open>Opening it\<close>

definition entry_wf :: "mxa_entry \<Rightarrow> bool" where
  "entry_wf e \<longleftrightarrow> length (me_name e) = me_name_len e \<and> me_name_len e < 2 ^ 16 \<and> 0 \<le> me_codec e \<and> me_codec e < 256"

lemma cd_entry_fields:
  assumes "entry_wf e"
  shows "length (cd_entry e) = 48 + me_name_len e" "unat (read_le16 (cd_entry e @ r)) = me_name_len e"
    "read_le16 (drop 2 (cd_entry e @ r)) = me_mode e" "read_le32 (drop 4 (cd_entry e @ r)) = me_uid e"
    "read_le32 (drop 8 (cd_entry e @ r)) = me_gid e" "r64 (drop 12 (cd_entry e @ r)) = me_mtime e"
    "r64 (drop 20 (cd_entry e @ r)) = me_offset e" "r64 (drop 28 (cd_entry e @ r)) = me_size e"
    "r64 (drop 36 (cd_entry e @ r)) = me_csize e" "int (unat ((cd_entry e @ r) ! 44)) = me_codec e"
    "drop 48 (cd_entry e @ r) = me_name e @ r"
  using assms
  by (simp_all add: cd_entry_def entry_wf_def read_le16_append read_le32_append unat_of_nat nth_append
      uint_word_of_int flip: uint_nat)

lemma mxa_parse_entries:
  "list_all entry_wf es \<Longrightarrow> drop off p = concat (map cd_entry es) @ rest \<Longrightarrow> off \<le> length p \<Longrightarrow>
    mxa_parse al_ok p (length es) off = Inr es"
proof (induction es arbitrary: off)
  case (Cons e es)
  define r where "r = concat (map cd_entry es) @ rest"
  have e: "entry_wf e" using Cons.prems(1) by simp
  have d: "drop off p = cd_entry e @ r" using Cons.prems(2) by (simp add: r_def)
  have "length p - off = 48 + me_name_len e + length r"
    using arg_cong [OF d, of length] cd_entry_fields(1) [OF e] by simp
  then have len: "off + 48 + me_name_len e \<le> length p" using Cons.prems(3) by linarith
  have "drop (off + (48 + me_name_len e)) p = drop (length (cd_entry e)) (cd_entry e @ r)"
    unfolding cd_entry_fields(1) [OF e] d [symmetric] by (simp add: add.commute)
  then have "drop (off + 48 + me_name_len e) p = r" by (simp add: add.assoc)
  then have "mxa_parse al_ok p (length es) (off + 48 + me_name_len e) = Inr es"
    using Cons.IH Cons.prems(1) len by (simp add: r_def)
  moreover have "me_name_len e = length (me_name e)" using e by (simp add: entry_wf_def)
  ultimately show ?case
    using cd_entry_fields(2-) [OF e, of r] cd_entry_fields(1) [OF e] len unfolding list.size add_Suc_right mxa_parse.simps d
    by (simp add: MXA_CD_ENTRY_BASE_def Let_def add.assoc)
qed simp

lemma footer_fields:
  "read_le32 (mxa_footer n cs tu tc c h @ r) = MXA_CF_MAGIC"
  "read_le32 (drop 4 (mxa_footer n cs tu tc c h @ r)) = word_of_nat n"
  "r64 (drop 8 (mxa_footer n cs tu tc c h @ r)) = cs"
  "read_le32 (drop 32 (mxa_footer n cs tu tc c h @ r)) = c"
  "read_le32 (drop 36 (mxa_footer n cs tu tc c h @ r)) = h"
  by (simp_all add: mxa_footer_def read_le32_append)

lemma header_fields_mxa:
  "read_le32 (mxa_header flags align @ r) = MXA_MAGIC" "(mxa_header flags align @ r) ! 7 = 1"
  "(mxa_header flags align @ r) ! 6 = 1" "read_le16 (drop 4 (mxa_header flags align @ r)) = ucast flags"
  by (simp_all add: mxa_header_def read_le32_append read_le16_append nth_append mxa_magics)

lemma chk32_at: "drop off p = x @ y \<Longrightarrow> length x = 4 \<Longrightarrow> off + 4 \<le> length p \<Longrightarrow> chk32 p off = Some (read_le32 x)"
  by (simp add: chk32_def chk_read_def)

lemma open_bytes:
  assumes wf: "list_all entry_wf es" and buf: "16 \<le> length buf" "length buf < 2 ^ 63" "length es < 2 ^ 32"
    and p: "p = mxa_bytes flags align buf es tu tc sig"
    and f: "mxa_find_footer p = Some (Inr (length buf + length (mxa_cd es)))"
  shows "mxa_open al_ok (Some p) = Some (Inr \<lparr>mr_data = p, mr_flags = ucast flags, mr_files = es,
    mr_cd_start = word_of_nat (length buf), mr_key = None\<rparr>)"
proof -
  define body where "body = mxa_header flags align @ drop 9 buf"
  define cs where "cs = (word_of_nat (length buf) :: u64)"
  define ents where "ents = concat (map cd_entry es)"
  define foot where "foot = mxa_footer (length es) cs tu tc (crc32_bytes ents) (crc32_bytes (take 16 body))"
  have body: "length body = length buf" using buf by (simp add: body_def)
  have p': "p = body @ mxa_cd es @ foot @ sig"
    by (simp add: p mxa_bytes_def Let_def foot_def cs_def ents_def flip: body_def)
  have cd: "mxa_cd es = write_le32 MXA_CD_MAGIC @ write_le32 (word_of_nat (length es)) @ ents" by (simp add: mxa_cd_def ents_def)
  have u: "unat cs = length buf" "unat (cs + 8) = length buf + 8"
  proof -
    have "cs + 8 = word_of_nat (length buf + 8)" by (simp add: cs_def)
    then show "unat cs = length buf" "unat (cs + 8) = length buf + 8"
      using buf(2) by (simp_all only: cs_def unat_of_nat) simp_all
  qed
  define scan where "scan = length buf + length (mxa_cd es)"
  have scan: "scan = length (body @ mxa_cd es)" by (simp add: scan_def body)
  have dr: "drop (scan + k) p = drop k (foot @ sig)" for k unfolding p' scan by simp
  have foot: "length foot = 40" by (simp add: foot_def)
  have len: "length p = length buf + 8 + length ents + 40 + length sig" by (simp add: p' cd body foot)
  have off: "drop (length buf + 8) p = ents @ foot @ sig" "drop (length buf) p = mxa_cd es @ foot @ sig"
    "drop (length buf + 4) p = write_le32 (word_of_nat (length es)) @ ents @ foot @ sig"
    by (simp_all add: p' cd flip: body)
  have n: "unat (word_of_nat (length es) :: u32) = length es" using buf(3) by (simp add: unat_of_nat)
  have crc: "take (scan - (length buf + 8)) (drop (length buf + 8) p) = ents" unfolding off by (simp add: scan_def cd)
  have t16: "take MXA_HDR_LEN p = take 16 body" using buf(1) by (simp add: p' body MXA_HDR_LEN_def)
  have parse: "mxa_parse al_ok p (length es) (length buf + 8) = Inr es"
    using mxa_parse_entries [OF wf, of "length buf + 8" p "foot @ sig"] off(1) len by (simp add: ents_def)
  have chks: "chk32 p (length buf) = Some MXA_CD_MAGIC" "chk32 p (length buf + 4) = Some (word_of_nat (length es))"
    using chk32_at [OF off(2) [unfolded cd append_assoc]] chk32_at [OF off(3)] len
    by (simp_all add: read_write_le32)
  have fl: "read_le16 (drop 4 p) = ucast flags" unfolding p' body_def append_assoc by (rule header_fields_mxa)
  have "mxa_open_at al_ok p scan = Some (Inr \<lparr>mr_data = p, mr_flags = ucast flags, mr_files = es, mr_cd_start = cs, mr_key = None\<rparr>)"
    unfolding mxa_open_at_def Let_def dr [of 8] dr [of 4] dr [of 36] dr [of 32]
    using footer_fields [of "length es" cs tu tc "crc32_bytes ents" "crc32_bytes (take 16 body)" sig]
    by (simp add: u len chks n crc t16 parse fl flip: foot_def) (simp add: scan_def cd)
  moreover have "read_le32 p = MXA_MAGIC" "p ! 7 = 1" "p ! 6 = 1"
    unfolding p' body_def append_assoc by (rule header_fields_mxa)+
  ultimately show ?thesis
    using f len buf(1) by (simp add: mxa_open_def MXA_HDR_LEN_def MXA_VERSION_CUR_def flip: scan_def cs_def)
qed

lemma footer_found:
  assumes p: "p = mxa_bytes flags align buf es tu tc sig" and buf: "16 \<le> length buf" and s: "length sig = 64"
  shows "mxa_find_footer p = Some (Inr (length buf + length (mxa_cd es)))"
proof -
  define scan where "scan = length buf + length (mxa_cd es)"
  have len: "length p = scan + 104" "0 < scan" using buf s by (auto simp: p mxa_bytes_def Let_def scan_def)
  define foot where "foot = mxa_footer (length es) (word_of_nat (length buf)) tu tc (crc32_bytes (concat (map cd_entry es)))
    (crc32_bytes (take 16 (mxa_header flags align @ drop 9 buf)))"
  have "drop scan p = foot @ sig" using buf by (simp add: p mxa_bytes_def Let_def foot_def scan_def)
  then have "drop scan p = take 4 foot @ (drop 4 foot @ sig)" by simp
  then have "chk32 p scan = Some (read_le32 (take 4 foot))"
    by (rule chk32_at) (simp_all add: foot_def len)
  also have "read_le32 (take 4 foot) = MXA_CF_MAGIC" by (simp add: foot_def mxa_footer_def read_write_le32)
  finally show ?thesis
    using len by (simp add: mxa_find_footer_def Let_def mxa_lens flip: scan_def)
qed


section \<open>Reading it\<close>

lemma read_entry:
  assumes e: "entry_ok sy k p (n, m, d) e" and d: "length d < 2 ^ 22" and p: "length p < 2 ^ 63"
    and r: "mr_data r = p" "mr_encrypted r = k" "mxa_lookup (mr_files r) n = Some e"
  shows "mxa_read_file sy al_ok un r (Some n) = Some (Inr d)"
proof -
  define off where "off = unat (me_offset e)"
  define csz where "csz = unat (me_csize e)"
  obtain blob where b: "me_size e = word_of_nat (length d)" "off + csz \<le> length p"
    "me_codec e = MXA_CODEC_STORED \<Longrightarrow> csz = length d"
    "decrypted k (me_offset e) (take csz (drop off p)) = Some blob" "blob_ok sy (me_codec e) blob d"
    using e by (auto simp: entry_ok_def off_def csz_def split: prod.splits)
  have u: "unat (me_offset e + me_csize e) = off + csz" "unat (me_size e) = length d"
    using b(1,2) p d by (simp_all add: unat_word_ariths off_def csz_def unat_of_nat)
  have chk_read: "chk_read p off csz = Some (take csz (drop off p))" using b(2) by (simp add: chk_read_def)
  show ?thesis
  proof (cases "me_codec e = MXA_CODEC_STORED")
    case True
    then have c: "csz = length d" "blob = d" using b(3,5) by (auto simp: blob_ok_def mxa_codecs)
    then have w: "me_csize e = me_size e" using u(2) by (simp add: csz_def word_unat_eq_iff)
    have "read_stored al_ok un r e = Some (Inr d)"
      using b(4) c chk_read u b(2) r(1,2) w unfolding read_stored_def Let_def
      by (cases k) (simp_all add: decrypted_def flip: off_def csz_def)
    then show ?thesis using u b(2) True r by (simp add: mxa_read_file_def)
  next
    case False
    then have c: "me_codec e = MXA_CODEC_MEUOS" "d \<noteq> []"
      "mz_decompress sy al_ok (Some blob) MZ_CODEC_MEUOS = Some (mz_ok d)"
      using b(5) by (auto simp: blob_ok_def)
    have "0 < c_int (length d)" using c(2) d by (intro c_int_pos) simp_all
    then have "read_meuos sy al_ok r e = Some (Inr d)"
      using b(4) chk_read u(2) r(1,2) c unfolding read_meuos_def Let_def
      by (cases k) (simp_all add: decrypted_def flip: off_def csz_def)
    then show ?thesis using u b(2) False c(1) r by (simp add: mxa_read_file_def)
  qed
qed

lemma c_str_id: "0 \<notin> set n \<Longrightarrow> c_str n = n"
  unfolding c_str_def by (rule takeWhile_eq_all_conv [THEN iffD2]) auto

lemma lookup_entries:
  assumes "list_all2 (entry_ok sy k p) fs es" "list_all (file_ok sy level) fs" "0 \<notin> set n"
  shows "case map_of fs n of None \<Rightarrow> mxa_lookup es n = None
    | Some md \<Rightarrow> \<exists>e. mxa_lookup es n = Some e \<and> entry_ok sy k p (n, md) e \<and> length (snd md) < 2 ^ 22"
  using assms
proof (induction rule: list_all2_induct)
  case (Cons f fs e es)
  obtain n' m d where f: "f = (n', m, d)" by (cases f) auto
  have "me_name e = n'" "0 \<notin> set n'" "length d < 2 ^ 22"
    using Cons.hyps(1) Cons.prems(1) by (auto simp: f entry_ok_def file_ok_def split: prod.splits)
  then show ?case
    using Cons by (auto simp: f mxa_lookup_def c_str_id split: option.splits)
qed (simp add: mxa_lookup_def)

text \<open>
  Opening an archive, giving the key and reading a name. Names are C strings: a list with a zero byte in
  it is the name of no file.
\<close>

definition mxa_get :: "nat list \<Rightarrow> (nat \<Rightarrow> u8) \<Rightarrow> bytes option \<Rightarrow> bytes \<Rightarrow> bytes \<Rightarrow> (mxa_err + bytes) option" where
  "mxa_get sy un key a n =
     (if 0 \<in> set n then Some (Inl MXA_ERR_NOTFOUND)
      else do {
        r \<leftarrow> mxa_open al_ok (Some a);
        case r of
          Inl e \<Rightarrow> Some (Inl e)
        | Inr r \<Rightarrow> mxa_read_file sy al_ok un (r\<lparr>mr_key := key\<rparr>) (Some n)
      })"

definition mxa_view :: "(mxa_meta \<times> bytes) option \<Rightarrow> (mxa_err + bytes) option" where
  "mxa_view f = Some (case f of None \<Rightarrow> Inl MXA_ERR_NOTFOUND | Some (m, d) \<Rightarrow> Inr d)"

lemma flag_u16: "(ucast flags :: u16) AND ucast MXA_FLAG_ENCRYPTED = 0 \<longleftrightarrow> flags AND MXA_FLAG_ENCRYPTED = 0" for flags :: u32
proof -
  have "(ucast flags :: u16) AND ucast MXA_FLAG_ENCRYPTED = ucast (flags AND MXA_FLAG_ENCRYPTED)"
    by (rule bit_word_eqI) (auto simp: bit_simps)
  moreover have "flags AND MXA_FLAG_ENCRYPTED = (if bit flags 1 then 2 else 0)"
    by (rule bit_word_eqI) (auto simp: MXA_FLAG_ENCRYPTED_def bit_simps)
  ultimately show ?thesis by simp
qed

lemma entry_ok_wf:
  assumes "entry_ok sy k p f e" "file_ok sy level f"
  shows "entry_wf e"
  using assms by (auto simp: entry_ok_def file_ok_def entry_wf_def blob_ok_def mxa_codecs split: prod.splits)


lemma seal_get:
  assumes w: "mxa_repr sy w0 w fs" and ok: "mxa_ok sy (mw_level w0) fs" and L: "mw_sk w0 = None \<or> sigs_64 L"
    and a: "mxa_seal L st w = Some a"
    and f: "mw_sk w0 \<noteq> None \<or> mxa_find_footer a = Some (Inr (length (mw_buf w) + length (mxa_cd (mw_files w))))"
  shows "mxa_get sy un (mw_key w0) a n = mxa_view (map_of fs n)"
proof (cases "0 \<in> set n")
  case True
  have "n \<notin> fst ` set fs" using ok True by (auto simp: mxa_ok_def list_all_iff file_ok_def)
  then have "map_of fs n = None" by (simp add: map_of_eq_None_iff)
  then show ?thesis using True by (simp add: mxa_get_def mxa_view_def)
next
  case False
  note w' = w [unfolded mxa_repr_def]
  define buf where "buf = mw_buf w"
  define es where "es = mw_files w"
  define k where "k = enc_key (mw_flags w0) (mw_key w0)"
  obtain sig where a': "a = mxa_bytes (mw_flags w0) (mw_align w0) buf es (mw_total_uncompressed w) (mw_total_compressed w) sig"
    and sig: "length sig = (if mw_sk w0 = None then 0 else 64)"
    using seal_bytes [of w L st] L w' a by (auto simp: buf_def es_def)
  have fs: "list_all (file_ok sy (mw_level w0)) fs" and room: "mxa_room fs < 2 ^ 40" using ok by (simp_all add: mxa_ok_def)
  have all: "list_all2 (entry_ok sy k buf) fs es" and len: "16 \<le> length buf" "length buf + sum_list (map (\<lambda>e. 800 + me_name_len e) es) \<le> 16 + mxa_room fs"
    using w' by (simp_all add: buf_def es_def k_def)
  have "800 * length es \<le> sum_list (map (\<lambda>e. 800 + me_name_len e) es)" by (induction es) simp_all
  then have small: "length buf < 2 ^ 63" "length es < 2 ^ 32" using len room by simp_all
  have wf: "list_all entry_wf es"
    using all fs by (induction rule: list_all2_induct) (auto intro: entry_ok_wf)
  have foot: "mxa_find_footer a = Some (Inr (length buf + length (mxa_cd es)))"
    using f footer_found [OF a' len(1)] sig by (auto simp: buf_def es_def)
  define r where "r = \<lparr>mr_data = a, mr_flags = ucast (mw_flags w0), mr_files = es, mr_cd_start = word_of_nat (length buf),
    mr_key = mw_key w0\<rparr>"
  have o: "mxa_get sy un (mw_key w0) a n = mxa_read_file sy al_ok un r (Some n)"
    using open_bytes [OF wf len(1) small a' foot] False by (simp add: mxa_get_def r_def)
  have enc: "mr_encrypted r = k" by (simp add: mr_encrypted_def r_def k_def enc_key_def flag_u16)
  have "entry_ok sy k a f e" if "entry_ok sy k buf f e" for f e
    using entry_ok_append [OF entry_ok_header [OF _ that, of "mxa_header (mw_flags w0) (mw_align w0)"]]
    by (simp add: a' mxa_bytes_def Let_def)
  with all have "list_all2 (entry_ok sy k a) fs es" by (rule list_all2_mono)
  note l = lookup_entries [OF this fs False]
  have "length (concat (map cd_entry es)) \<le> sum_list (map (\<lambda>e. 800 + me_name_len e) es)"
    using wf by (induction es) (simp_all add: cd_entry_fields(1))
  then have "length a < 2 ^ 63"
    using len room sig by (simp add: a' mxa_bytes_def mxa_cd_def Let_def split: if_splits)
  note big = this
  show ?thesis
  proof (cases "map_of fs n")
    case None
    then show ?thesis using l by (simp add: o mxa_view_def mxa_read_file_def r_def)
  next
    case (Some md)
    obtain m d where md: "md = (m, d)" by fastforce
    obtain e where e: "mxa_lookup es n = Some e" "entry_ok sy k a (n, m, d) e" "length d < 2 ^ 22"
      using l unfolding Some md by auto
    have "mr_data r = a" "mxa_lookup (mr_files r) n = Some e" using e(1) by (simp_all add: r_def)
    then show ?thesis using read_entry [OF e(2,3) big _ enc] Some by (simp add: o mxa_view_def md)
  qed
qed

section \<open>The archive\<close>

text \<open>A signed writer: with a key the footer is always where \<^verbatim>\<open>mxa_open\<close> looks first.\<close>

definition signed_repr :: "nat list \<Rightarrow> sodium \<Rightarrow> mxa_write_ctx \<Rightarrow> mxa_write_ctx \<Rightarrow> mxa_file list \<Rightarrow> bool" where
  "signed_repr sy L w0 w fs \<longleftrightarrow> mxa_repr sy w0 w fs \<and> mw_sk w0 \<noteq> None \<and> sigs_64 L"

lemma seal_some:
  assumes "signed_repr sy L w0 w fs"
  shows "\<exists>a. mxa_seal L st w = Some a"
  using seal_bytes [of w L st] assms by (auto simp: signed_repr_def mxa_repr_def)

lemma mxa_ok_prefix: "mxa_ok sy level (fs @ gs) \<Longrightarrow> mxa_ok sy level fs"
  by (auto simp: mxa_ok_def mxa_room_def)

lemma seal_signed:
  assumes "signed_repr sy L w0 w fs" "mxa_ok sy (mw_level w0) fs"
  shows "\<exists>a. mxa_seal L st w = Some a \<and> (\<forall>n. mxa_get sy un (mw_key w0) a n = mxa_view (map_of fs n))"
  using seal_some [OF assms(1), of st] seal_get [OF _ assms(2)] assms(1) unfolding signed_repr_def by blast

lemma put_signed:
  assumes "signed_repr sy L w0 w fs" "mxa_ok sy (mw_level w0) (fs @ [f])"
  shows "\<exists>w'. mxa_put f w = Some w' \<and> signed_repr sy L w0 w' (fs @ [f])"
  using put_ok [of sy w0 w fs f] assms unfolding signed_repr_def by blast

interpretation mxa: archive_store "mxa_ok sy (mw_level w0)" "signed_repr sy L w0" mxa_put "mxa_seal L st"
  "mxa_get sy un (mw_key w0)" mxa_view
  for sy L w0 st un
  by unfold_locales (auto intro: mxa_ok_prefix put_signed seal_signed)

definition mxa_add_all :: "mxa_file list \<Rightarrow> mxa_write_ctx \<Rightarrow> mxa_write_ctx option" where
  "mxa_add_all fs w = fold (\<lambda>f r. Option.bind r (mxa_put f)) fs (Some w)"

lemma create_mxa_repr:
  assumes "mxa_create al (Some p) = Inr w"
  shows "mxa_repr sy w w []" "mw_sk w = pa_sk p" "mw_key w = pa_key p" "mw_level w = pa_level p"
  using assms by (auto simp: mxa_create_def mxa_repr_def mxa_lens mxa_room_def nat_le_iff split: if_splits)



text \<open>Small files on the levels below 7 always come back from the codec.\<close>

lemma codec_ok_small:
  assumes "d \<noteq> []" "length d \<le> 2045" "level < 7"
  shows "codec_ok sy level d"
proof -
  obtain lz where lz: "mz_compress_lz77 al_ok (Some d) level = mz_ok lz"
    using compress_lz77_shape [of d al_ok level] assms(1) by auto
  have fits: "lz_fits al_ok d" using assms by (simp add: lz_fits_def)
  obtain etype ecode where e: "entropy_code al_ok level lz = Some (etype, ecode)"
    "mz_compress_meuos al_ok (Some d) level = Some (mz_ok (etype # ecode))"
    using compress_meuos_out [OF fits _ _ lz] assms(2) by auto
  have "length lz \<le> 4096" using compress_lz77_trailing(3) [OF fits lz] assms(2) by simp
  then have "mz_decompress_meuos al_ok (Some (etype # ecode)) = Some (mz_ok d)"
    using entropy_below_7 [OF e(1) assms(3)] compress_lz77_trailing(1) [OF fits lz]
    by (force simp: mz_decompress_meuos_def)
  then show ?thesis using e(2) by (simp add: codec_ok_def mz_compress_def mz_decompress_def mz_ok_def)
qed


end
