(* ===== verification/Mxa_Limits.thy ===== *)
theory Mxa_Limits
  imports Mxa
begin

text \<open>
  Archives that the MxA reader does not survive: offsets whose sum wraps, and names that look like a footer.
\<close>

lemma unat_u64_less: "unat (x :: u64) < 2 ^ 64"
  using unsigned_less [of x] by simp

lemma unat_add_wrap: "2 ^ 64 \<le> unat a + unat b \<Longrightarrow> unat (a + b) = unat a + unat b - 2 ^ 64" for a b :: u64
  using unat_u64_less [of a] unat_u64_less [of b] by (simp add: unat_word_ariths le_mod_geq)

text \<open>
  A hostile footer. An archive whose footer gives a directory offset of \<open>2 ^ 64 - 8\<close> or more passes
  every check of \<^verbatim>\<open>mxa_open\<close>, since \<^verbatim>\<open>cd_start + MXA_CD_HDR_LEN\<close> wraps, and is then read far outside
  the buffer. The header checksum is no protection: it covers the header, which is known.
\<close>

theorem mxa_open_outside:
  assumes "read_le32 p = MXA_MAGIC" "p ! 6 \<le> 1" "p ! 7 \<le> 1" "mxa_find_footer p = Some (Inr scan)"
    and crc: "read_le32 (drop (scan + 36) p) = crc32_bytes (take 16 p)"
    and cs: "2 ^ 64 - 8 \<le> unat (r64 (drop (scan + 8) p))" and len: "16 \<le> length p" "length p < 2 ^ 63"
  shows "mxa_open al (Some p) = None"
proof -
  define cs where "cs = r64 (drop (scan + 8) p)"
  have "unat (cs + 8) = unat cs + 8 - 2 ^ 64" using cs unat_add_wrap [of cs 8] by (simp add: cs_def)
  then have "unat (cs + 8) \<le> length p" using unat_u64_less [of cs] len by simp
  moreover have "chk32 p (unat cs) = None" using cs len by (simp add: chk32_def chk_read_def flip: cs_def)
  ultimately have "mxa_open_at al p scan = None"
    using crc by (simp add: mxa_open_at_def Let_def MXA_HDR_LEN_def flip: cs_def)
  then show ?thesis
    using assms(1-4) len by (simp add: mxa_open_def MXA_HDR_LEN_def MXA_VERSION_CUR_def not_less)
qed

theorem mxa_open_outside_witness:
  "\<exists>p. length p = 56 \<and> mxa_open al_ok (Some p) = None"
proof -
  define h where "h = mxa_header 0 0 @ replicate 7 0"
  define foot where "foot = mxa_footer 0 0xFFFFFFFFFFFFFFF8 0 0 0 (crc32_bytes h)"
  define p where "p = h @ foot"
  have h: "length h = 16" "length foot = 40" by (simp_all add: h_def foot_def)
  have "chk32 p 16 = Some MXA_CF_MAGIC"
    using chk32_at [of 16 p "take 4 foot" "drop 4 foot"] h by (simp add: p_def foot_def mxa_footer_def read_write_le32)
  then have "mxa_find_footer p = Some (Inr 16)" using h by (simp add: mxa_find_footer_def Let_def mxa_lens p_def)
  moreover have "read_le32 (drop 52 p) = crc32_bytes (take 16 p)" "r64 (drop 24 p) = 0xFFFFFFFFFFFFFFF8"
    using footer_fields(3,5) [of 0 "0xFFFFFFFFFFFFFFF8" 0 0 0 "crc32_bytes h" "[]"] h by (simp_all add: p_def flip: foot_def)
  moreover have "read_le32 p = MXA_MAGIC" "p ! 6 = 1" "p ! 7 = 1"
    unfolding p_def h_def append_assoc by (rule header_fields_mxa)+
  ultimately have "mxa_open al_ok (Some p) = None" using h mxa_open_outside [of p 16 al_ok] by (simp add: p_def)
  then show ?thesis using h by (intro exI [of _ p]) (simp add: p_def)
qed

text \<open>The same with the offset and the size of an entry.\<close>

lemma mxa_read_outside:
  assumes "mxa_lookup (mr_files r) n = Some e" "me_codec e = MXA_CODEC_MEUOS" "mr_key r = None"
    and "2 ^ 64 \<le> unat (me_offset e) + unat (me_csize e)"
    and "unat (me_offset e) + unat (me_csize e) \<le> 2 ^ 64 + length (mr_data r)" "length (mr_data r) < 2 ^ 63"
  shows "mxa_read_file sy al un r (Some n) = None"
proof -
  have "unat (me_offset e + me_csize e) \<le> length (mr_data r)" using unat_add_wrap [OF assms(4)] assms(5) by simp
  moreover have "chk_read (mr_data r) (unat (me_offset e)) (unat (me_csize e)) = None" using assms(4,6) by (simp add: chk_read_def)
  ultimately show ?thesis
    using assms(1-3) by (simp add: mxa_read_file_def read_meuos_def mr_encrypted_def mxa_codecs Let_def)
qed


interpretation mxa_w: archive_writer "mxa_ok sy (mw_level w0)" "mxa_repr sy w0" mxa_put
  for sy w0
  by unfold_locales (auto intro: mxa_ok_prefix put_ok)

lemma read_le32_take: "read_le32 (take 4 p) = read_le32 p"
  by (simp add: read_le32_def)

lemma chk32_drop: "off + 4 \<le> length p \<Longrightarrow> chk32 p off = Some (read_le32 (drop off p))"
  by (simp add: chk32_def chk_read_def read_le32_take)

lemma footer_spoofed:
  assumes len: "104 < length p" and s: "drop (length p - 104) p = write_le32 MXA_CF_MAGIC @ post"
  shows "mxa_find_footer p = Some (Inr (length p - 104))"
proof -
  have "chk32 p (length p - 104) = Some MXA_CF_MAGIC"
    using chk32_drop [of "length p - 104" p] len by (simp add: s read_le32_append)
  then show ?thesis using len by (simp add: mxa_find_footer_def Let_def mxa_lens)
qed

lemma cf_magic_bytes: "write_le32 MXA_CF_MAGIC = [0x4D, 0x78, 0x43, 0x46]"
  by (simp add: write_le32_def MXA_CF_MAGIC_def)

lemma spoofed_open:
  assumes "104 < length p" and s: "drop (length p - 104) p = write_le32 MXA_CF_MAGIC @ post"
    and c: "read_le32 (drop 32 post) \<noteq> crc32_bytes (take 16 p)"
    and h: "read_le32 p = MXA_MAGIC" "p ! 6 = 1" "p ! 7 = 1"
  shows "mxa_open al (Some p) = Some (Inl MXA_ERR_DATA)"
proof -
  have "drop (length p - 104 + 36) p = drop 36 (drop (length p - 104) p)" by (simp add: add.commute)
  also have "\<dots> = drop 32 post" by (simp add: s)
  finally have "mxa_open_at al p (length p - 104) = Some (Inl MXA_ERR_DATA)"
    using c by (simp add: mxa_open_at_def Let_def MXA_HDR_LEN_def)
  then show ?thesis
    using footer_spoofed [OF assms(1,2)] h assms(1) by (simp add: mxa_open_def MXA_HDR_LEN_def MXA_VERSION_CUR_def)
qed

text \<open>
  A name that breaks the archive. When an unsigned archive ends with a file whose name has the
  footer's magic 64 bytes before its end, \<^verbatim>\<open>mxa_open\<close> takes the name for the footer of a signed
  archive; unless the name also guesses the header's checksum, the archive that \<^verbatim>\<open>mxa_finish\<close> returned
  does not open.
\<close>

theorem mxa_name_unreadable:
  assumes "mxa_create al (Some p) = Inr w" "pa_sk p = None"
    and ok: "mxa_ok sy (pa_level p) (fs @ [(pre @ [0x4D, 0x78, 0x43, 0x46] @ post, m, d)])" and post: "length post = 60"
    and crc: "read_le32 (drop 32 post) \<noteq> crc32_bytes (mxa_header (pa_flags p) (nat (pa_align p)) @ replicate 7 0)"
  shows "\<exists>w' a. mxa_add_all (fs @ [(pre @ [0x4D, 0x78, 0x43, 0x46] @ post, m, d)]) w = Some w' \<and>
    mxa_seal L st w' = Some a \<and> mxa_open al_ok (Some a) = Some (Inl MXA_ERR_DATA)"
proof -
  define f where "f = (pre @ [0x4D, 0x78, 0x43, 0x46] @ post, m, d)"
  note c = create_mxa_repr [OF assms(1)]
  obtain w' where w': "mxa_add_all (fs @ [f]) w = Some w'" "mxa_repr sy w w' (fs @ [f])"
    using mxa_w.put_all [OF c(1), where gs = "fs @ [f]"] ok c(4) by (auto simp: mxa_add_all_def f_def)
  note r = w'(2) [unfolded mxa_repr_def]
  obtain a where a: "mxa_seal L st w' = Some a" "a = mxa_bytes (mw_flags w) (mw_align w) (mw_buf w') (mw_files w')
      (mw_total_uncompressed w') (mw_total_compressed w') []"
    using seal_bytes [of w' L st] r c(2) assms(2) by auto
  obtain es e where es: "mw_files w' = es @ [e]" "entry_ok sy (enc_key (mw_flags w) (mw_key w)) (mw_buf w') f e"
    using r by (auto simp: list_all2_append1 list_all2_Cons1)
  have e: "me_name e = pre @ [0x4D, 0x78, 0x43, 0x46] @ post" "me_name_len e = length (me_name e)"
    using es(2) by (auto simp: entry_ok_def f_def split: prod.splits)
  define foot where "foot = mxa_footer (length (mw_files w')) (word_of_nat (length (mw_buf w'))) (mw_total_uncompressed w')
    (mw_total_compressed w') (crc32_bytes (concat (map cd_entry (mw_files w'))))
    (crc32_bytes (take 16 (mxa_header (mw_flags w) (mw_align w) @ drop 9 (mw_buf w'))))"
  define body where "body = mxa_header (mw_flags w) (mw_align w) @ drop 9 (mw_buf w')"
  have a': "a = body @ mxa_cd (mw_files w') @ foot"
    by (simp add: a(2) mxa_bytes_def Let_def body_def foot_def)
  obtain base where "cd_entry e = base @ take (me_name_len e) (me_name e)" unfolding cd_entry_def by (metis append_assoc)
  then have ce: "cd_entry e = (base @ pre) @ write_le32 MXA_CF_MAGIC @ post" by (simp add: e cf_magic_bytes)
  obtain cds where cds: "mxa_cd (mw_files w') = cds @ cd_entry e" by (simp add: mxa_cd_def es(1))
  define front where "front = body @ cds @ base @ pre"
  have front: "a = front @ write_le32 MXA_CF_MAGIC @ post @ foot"
    by (simp add: a' cds ce front_def)
  moreover have "front \<noteq> []" by (simp add: front_def body_def mxa_header_def MXA_MAGIC_def write_le32_def)
  ultimately have front': "104 < length a" using post by (simp add: foot_def)
  have len: "length (post @ foot) = 100" using post by (simp add: foot_def)
  have "length a - 104 = length front" using len by (simp add: front)
  then have d: "drop (length a - 104) a = write_le32 MXA_CF_MAGIC @ post @ foot" by (simp add: front)
  have "take 7 (drop 9 (mw_buf w')) = replicate 7 0"
    using r by (intro nth_equalityI) auto
  then have t16: "take 16 a = mxa_header (mw_flags w) (mw_align w) @ replicate 7 0"
    using r by (simp add: a(2) mxa_bytes_def Let_def)
  have fl: "mw_flags w = pa_flags p" "mw_align w = nat (pa_align p)"
    using assms(1) by (auto simp: mxa_create_def split: if_splits)
  have "read_le32 (drop 32 (post @ foot)) = read_le32 (drop 32 post)"
    using post by (simp add: read_le32_def nth_append)
  then have "read_le32 (drop 32 (post @ foot)) \<noteq> crc32_bytes (take 16 a)" using crc t16 fl by simp
  moreover have "read_le32 a = MXA_MAGIC" "a ! 6 = 1" "a ! 7 = 1"
    unfolding a(2) mxa_bytes_def Let_def append_assoc by (rule header_fields_mxa)+
  ultimately have "mxa_open al_ok (Some a) = Some (Inl MXA_ERR_DATA)"
    using spoofed_open [OF front' d] by blast
  then show ?thesis using w'(1) a(1) unfolding f_def by blast
qed

theorem mxa_name_unreadable_witness:
  "\<exists>n w w' a. mxa_create al_ok (Some \<lparr>pa_flags = 0, pa_align = 0, pa_level = 6, pa_key = None, pa_sk = None\<rparr>) = Inr w \<and>
    length n = 64 \<and> mxa_add_all [(n, (0, 0, 0, 0), [1, 2, 3])] w = Some w' \<and>
    mxa_seal toy_sodium sodium_start w' = Some a \<and> mxa_open al_ok (Some a) = Some (Inl MXA_ERR_DATA)"
proof -
  let ?p = "\<lparr>pa_flags = 0, pa_align = 0, pa_level = 6, pa_key = None, pa_sk = None\<rparr> :: mxa_params"
  obtain w where w: "mxa_create al_ok (Some ?p) = Inr w" by (simp add: mxa_create_def)
  have "read_le32 (drop 32 (replicate 60 0x41)) \<noteq> read_le32 (drop 32 (replicate 60 0x42))"
    by (simp add: read_le32_def)
  then obtain b where b: "b = 0x41 \<or> b = 0x42"
    "read_le32 (drop 32 (replicate 60 b)) \<noteq> crc32_bytes (mxa_header (pa_flags ?p) (nat (pa_align ?p)) @ replicate 7 0)"
    by metis
  define n where "n = [] @ [0x4D, 0x78, 0x43, 0x46] @ replicate 60 b"
  have n: "length n = 64" "0 \<notin> set n" using b(1) by (auto simp: n_def)
  then have ok: "mxa_ok [] (pa_level ?p) ([] @ [(n, (0, 0, 0, 0), [1, 2, 3])])"
    by (simp add: mxa_ok_def file_ok_def mxa_room_def codec_ok_small)
  have "\<exists>w' a. mxa_add_all ([] @ [(n, (0, 0, 0, 0), [1, 2, 3])]) w = Some w' \<and>
      mxa_seal toy_sodium sodium_start w' = Some a \<and> mxa_open al_ok (Some a) = Some (Inl MXA_ERR_DATA)"
    unfolding n_def by (rule mxa_name_unreadable [OF w _ ok [unfolded n_def] _ b(2)]) simp_all
  then show ?thesis using w n(1) by (metis append_Nil)
qed

end
