(* ===== verification/Libgcc.thy ===== *)
theory Libgcc
  imports Prelude "HOL-Library.Signed_Division"
begin

text \<open>
  The compiler support routines of \<^verbatim>\<open>meuos-libc/src/libgcc_meuos\<close>: division by shifting and
  subtracting at 64 and 128 bits (\<^verbatim>\<open>div.c\<close>). The products and the bit counts are in
  \<^verbatim>\<open>Libgcc_Bits\<close>. A 128-bit integer is a pair of 64-bit halves, as in \<^verbatim>\<open>libgcc_int.h\<close>.
\<close>

section \<open>64-bit division\<close>

text \<open>The loop from bit \<open>i - 1\<close> down to 0.\<close>

fun udivmod64_loop :: "u64 \<Rightarrow> u64 \<Rightarrow> nat \<Rightarrow> u64 \<Rightarrow> u64 \<Rightarrow> u64 \<times> u64" where
  "udivmod64_loop n d 0 qq rr = (qq, rr)"
| "udivmod64_loop n d (Suc i) qq rr =
     (let rr = push_bit 1 rr OR (drop_bit i n AND 1) in
      if rr \<ge> d then udivmod64_loop n d i (qq OR push_bit i 1) (rr - d)
      else udivmod64_loop n d i qq rr)"

definition udivmod64_inner :: "u64 \<Rightarrow> u64 \<Rightarrow> u64 \<times> u64" where
  "udivmod64_inner n d = udivmod64_loop n d 64 0 0"

definition udivdi3 :: "u64 \<Rightarrow> u64 \<Rightarrow> u64" where
  "udivdi3 n d = (if d = 0 then 0 else fst (udivmod64_inner n d))"

definition umoddi3 :: "u64 \<Rightarrow> u64 \<Rightarrow> u64" where
  "umoddi3 n d = (if d = 0 then n else snd (udivmod64_inner n d))"

definition udivmoddi4 :: "u64 \<Rightarrow> u64 \<Rightarrow> u64 \<times> u64" where
  "udivmoddi4 n d = (if d = 0 then (0, n) else udivmod64_inner n d)"

text \<open>A \<^verbatim>\<open>dword\<close> is the same 64 bits, read with \<open>sint\<close>.\<close>

definition negdi2_op :: "u64 \<Rightarrow> u64" where
  "negdi2_op a = 0 - a"

definition divmod_signed :: "u64 \<Rightarrow> u64 \<Rightarrow> bool \<times> u64 \<times> u64" where
  "divmod_signed a b =
     (let neg = (a <s 0); a = (if a <s 0 then negdi2_op a else a);
          neg = (if b <s 0 then \<not> neg else neg); b = (if b <s 0 then negdi2_op b else b)
      in case udivmod64_inner a b of (q, r) \<Rightarrow> (neg, q, r))"

definition divdi3 :: "u64 \<Rightarrow> u64 \<Rightarrow> u64" where
  "divdi3 a b =
     (if b = 0 then 0
      else case divmod_signed a b of (neg, q, r) \<Rightarrow> if neg then negdi2_op q else q)"

definition moddi3 :: "u64 \<Rightarrow> u64 \<Rightarrow> u64" where
  "moddi3 a b =
     (if b = 0 then a
      else
        let neg = (a <s 0); a = (if a <s 0 then negdi2_op a else a); b = (if b <s 0 then negdi2_op b else b)
        in case udivmod64_inner a b of (q, r) \<Rightarrow> if neg then negdi2_op r else r)"

text \<open>The remainder is negated with the quotient's sign, not with the dividend's.\<close>

definition divmoddi4 :: "u64 \<Rightarrow> u64 \<Rightarrow> u64 \<times> u64" where
  "divmoddi4 a b =
     (if b = 0 then (0, a)
      else case divmod_signed a b of (neg, q, r) \<Rightarrow>
        (if neg then negdi2_op q else q, if neg then negdi2_op r else r))"

section \<open>128-bit division\<close>

record uti_int =
  ti_lo :: u64
  ti_hi :: u64

abbreviation ti :: "u64 \<Rightarrow> u64 \<Rightarrow> uti_int" where
  "ti l h \<equiv> \<lparr>ti_lo = l, ti_hi = h\<rparr>"

definition uti_ge :: "uti_int \<Rightarrow> uti_int \<Rightarrow> bool" where
  "uti_ge a b \<longleftrightarrow> ti_hi a > ti_hi b \<or> (ti_hi a = ti_hi b \<and> ti_lo a \<ge> ti_lo b)"

definition uti_sub :: "uti_int \<Rightarrow> uti_int \<Rightarrow> uti_int" where
  "uti_sub a b =
     (let borrow = (if ti_lo a < ti_lo b then 1 else 0)
      in ti (ti_lo a - ti_lo b) (ti_hi a - ti_hi b - borrow))"

definition uti_bit :: "uti_int \<Rightarrow> nat \<Rightarrow> u64" where
  "uti_bit n i = (if i \<ge> 64 then drop_bit (i - 64) (ti_hi n) AND 1 else drop_bit i (ti_lo n) AND 1)"

definition uti_shl_in :: "uti_int \<Rightarrow> u64 \<Rightarrow> uti_int" where
  "uti_shl_in rr carry =
     (let rr = ti (push_bit 1 (ti_lo rr)) (push_bit 1 (ti_hi rr) OR drop_bit 63 (ti_lo rr))
      in ti (ti_lo rr OR carry) (ti_hi rr))"

definition uti_set :: "uti_int \<Rightarrow> nat \<Rightarrow> uti_int" where
  "uti_set qq i =
     (if i \<ge> 64 then ti (ti_lo qq) (ti_hi qq OR push_bit (i - 64) 1) else ti (ti_lo qq OR push_bit i 1) (ti_hi qq))"

fun udivmod128_loop :: "uti_int \<Rightarrow> uti_int \<Rightarrow> nat \<Rightarrow> uti_int \<Rightarrow> uti_int \<Rightarrow> uti_int \<times> uti_int" where
  "udivmod128_loop n d 0 qq rr = (qq, rr)"
| "udivmod128_loop n d (Suc i) qq rr =
     (let rr = uti_shl_in rr (uti_bit n i) in
      if uti_ge rr d then udivmod128_loop n d i (uti_set qq i) (uti_sub rr d)
      else udivmod128_loop n d i qq rr)"

definition udivmod128_inner :: "uti_int \<Rightarrow> uti_int \<Rightarrow> uti_int \<times> uti_int" where
  "udivmod128_inner n d = udivmod128_loop n d 128 (ti 0 0) (ti 0 0)"

definition udivti3 :: "uti_int \<Rightarrow> uti_int \<Rightarrow> uti_int" where
  "udivti3 n d = (if ti_hi d = 0 \<and> ti_lo d = 0 then ti 0 0 else fst (udivmod128_inner n d))"

definition umodti3 :: "uti_int \<Rightarrow> uti_int \<Rightarrow> uti_int" where
  "umodti3 n d = (if ti_hi d = 0 \<and> ti_lo d = 0 then n else snd (udivmod128_inner n d))"

definition udivmodti4 :: "uti_int \<Rightarrow> uti_int \<Rightarrow> uti_int \<times> uti_int" where
  "udivmodti4 n d = (if ti_hi d = 0 \<and> ti_lo d = 0 then (ti 0 0, n) else udivmod128_inner n d)"

definition uti_neg :: "uti_int \<Rightarrow> uti_int" where
  "uti_neg a =
     (let a = ti (NOT (ti_lo a)) (NOT (ti_hi a))
      in ti (ti_lo a + 1) (ti_hi a + (if ti_lo a < 1 then 1 else 0)))"

definition uti_neg_p :: "uti_int \<Rightarrow> bool" where
  "uti_neg_p a \<longleftrightarrow> drop_bit 63 (ti_hi a) AND 1 \<noteq> 0"

definition divti3 :: "uti_int \<Rightarrow> uti_int \<Rightarrow> uti_int" where
  "divti3 a b =
     (let neg = uti_neg_p a; a = (if uti_neg_p a then uti_neg a else a);
          neg = (if uti_neg_p b then \<not> neg else neg); b = (if uti_neg_p b then uti_neg b else b)
      in if ti_hi b = 0 \<and> ti_lo b = 0 then ti 0 0
         else case udivmod128_inner a b of (q, r) \<Rightarrow> if neg then uti_neg q else q)"

definition modti3 :: "uti_int \<Rightarrow> uti_int \<Rightarrow> uti_int" where
  "modti3 a b =
     (let neg = uti_neg_p a; a = (if uti_neg_p a then uti_neg a else a); b = (if uti_neg_p b then uti_neg b else b)
      in if ti_hi b = 0 \<and> ti_lo b = 0 then a
         else case udivmod128_inner a b of (q, r) \<Rightarrow> if neg then uti_neg r else r)"

definition divmodti4 :: "uti_int \<Rightarrow> uti_int \<Rightarrow> uti_int \<times> uti_int" where
  "divmodti4 a b =
     (let neg = uti_neg_p a; a = (if uti_neg_p a then uti_neg a else a);
          neg = (if uti_neg_p b then \<not> neg else neg); b = (if uti_neg_p b then uti_neg b else b)
      in if ti_hi b = 0 \<and> ti_lo b = 0 then (ti 0 0, a)
         else case udivmod128_inner a b of (q, r) \<Rightarrow> (if neg then uti_neg q else q, if neg then uti_neg r else r))"

section \<open>Restoring division\<close>

text \<open>
  The contract of the loop: \<open>val\<close> is the number a value stands for, \<open>shl\<close> shifts a bit in, \<open>put\<close> sets a bit
  of the quotient. \<open>w\<close> is the width.
\<close>

locale restoring_division =
  fixes w :: nat and val :: "'a \<Rightarrow> nat" and nbit :: "'a \<Rightarrow> nat \<Rightarrow> u64" and shl :: "'a \<Rightarrow> u64 \<Rightarrow> 'a"
    and geq :: "'a \<Rightarrow> 'a \<Rightarrow> bool" and sub :: "'a \<Rightarrow> 'a \<Rightarrow> 'a" and put :: "'a \<Rightarrow> nat \<Rightarrow> 'a"
    and loop :: "'a \<Rightarrow> 'a \<Rightarrow> nat \<Rightarrow> 'a \<Rightarrow> 'a \<Rightarrow> 'a \<times> 'a"
  assumes val_less: "val a < 2 ^ w"
    and nbit_val: "i < w \<Longrightarrow> nbit n i = word_of_nat (val n div 2 ^ i mod 2)"
    and shl_val: "2 * val r + c < 2 ^ w \<Longrightarrow> c < 2 \<Longrightarrow> val (shl r (word_of_nat c)) = 2 * val r + c"
    and geq_val: "geq a b \<longleftrightarrow> val b \<le> val a"
    and sub_val: "val b \<le> val a \<Longrightarrow> val (sub a b) = val a - val b"
    and put_val: "i < w \<Longrightarrow> 2 ^ Suc i dvd val q \<Longrightarrow> val (put q i) = val q + 2 ^ i"
    and loop_0: "loop n d 0 q r = (q, r)"
    and loop_Suc: "loop n d (Suc i) q r =
      (if geq (shl r (nbit n i)) d then loop n d i (put q i) (sub (shl r (nbit n i)) d)
       else loop n d i q (shl r (nbit n i)))"
begin

lemma loop_val:
  assumes "i \<le> w" "0 < val d" "val n div 2 ^ i = Q * val d + val r" "val r < val d" "val q = Q * 2 ^ i"
  shows "case loop n d i q r of (q', r') \<Rightarrow> val q' = val n div val d \<and> val r' = val n mod val d"
  using assms
proof (induction i arbitrary: q r Q)
  case 0
  then have "val n = Q * val d + val r" by simp
  then have "val n div val d = Q" "val n mod val d = val r" using 0 by simp_all
  then show ?case using 0 by (simp add: loop_0)
next
  case (Suc i)
  define b where "b = val n div 2 ^ i mod 2"
  define N where "N = val n div 2 ^ i"
  define r1 where "r1 = shl r (nbit n i)"
  have b: "b < 2" "nbit n i = word_of_nat b" using Suc.prems(1) by (simp_all add: b_def nbit_val)
  have "val n div 2 ^ Suc i = N div 2" using div_mult2_eq [of "val n" "2 ^ i" 2] by (simp add: N_def mult.commute)
  moreover have "N = 2 * (N div 2) + b" by (simp add: b_def N_def)
  ultimately have N: "N = 2 * (Q * val d + val r) + b" using Suc.prems(3) by simp
  have "N \<le> val n" by (simp add: N_def)
  moreover have "2 * val r + b \<le> N" by (simp add: N)
  ultimately have "2 * val r + b < 2 ^ w" using val_less [of n] by linarith
  then have r1: "val r1 = 2 * val r + b" using b by (simp add: r1_def shl_val)
  have N1: "N = 2 * Q * val d + val r1" using N r1 by (simp add: algebra_simps)
  show ?case
  proof (cases "val d \<le> val r1")
    case True
    have "val (put q i) = (2 * Q + 1) * 2 ^ i" using put_val [of i q] Suc.prems(1,5) by (simp add: algebra_simps)
    moreover have "val (sub r1 d) = val r1 - val d" using True by (rule sub_val)
    moreover have "N = (2 * Q + 1) * val d + (val r1 - val d)" using N1 True by (simp add: algebra_simps)
    ultimately show ?thesis
      using Suc.IH [of "2 * Q + 1" "sub r1 d" "put q i"] Suc.prems True r1 b(1)
      by (simp add: loop_Suc geq_val N_def [symmetric] flip: r1_def)
  next
    case False
    then show ?thesis
      using Suc.IH [of "2 * Q" r1 q] Suc.prems N1
      by (simp add: loop_Suc geq_val N_def [symmetric] algebra_simps flip: r1_def)
  qed
qed

lemma division_val:
  assumes "0 < val d" "val q = 0" "val r = 0"
  shows "case loop n d w q r of (q', r') \<Rightarrow> val q' = val n div val d \<and> val r' = val n mod val d"
  using loop_val [of w d n 0 r q] assms val_less [of n] by simp

end

lemma drop_and_1: "drop_bit i x AND 1 = word_of_nat (unat x div 2 ^ i mod 2)" for x :: u64
  by (rule u64_eqI) (simp add: and_one_eq unat_mod unat_drop unat_of_nat flip: unat_drop)

lemma unat_push_or:
  assumes "c < 2"
  shows "unat (push_bit 1 x OR word_of_nat c :: u64) = (2 * unat x) mod 2 ^ 64 + c"
proof -
  have "unat (2 * x) = 2 * (unat x mod 2 ^ 63)" by (simp add: unat_word_ariths mult_mod_right)
  moreover have "unat (2 * x + 1) = (unat (2 * x) + 1) mod 2 ^ 64" by (simp add: unat_word_ariths)
  moreover have "push_bit 1 x OR 1 = 2 * x + 1" by (simp add: or_one_eq mult.commute)
  moreover have "2 * (unat x mod 2 ^ 63) + 1 < 2 ^ 64" using mod_less_divisor [of "2 ^ 63" "unat x"] by simp
  ultimately show ?thesis
    using assms by (auto simp: less_2_cases_iff mult.commute mult_mod_right)
qed

lemma unat_or_push:
  assumes "i < 64" "2 ^ Suc i dvd unat q"
  shows "unat (q OR push_bit i 1 :: u64) = unat q + 2 ^ i"
proof -
  obtain y where y: "unat q = 2 ^ Suc i * y" using assms(2) by (auto elim: dvdE)
  have "unat (push_bit i 1 :: u64) = 2 ^ i" using assms(1) unfolding unsigned_push_bit_eq by (simp add: push_bit_eq_mult take_bit_nat_eq_self)
  then show ?thesis using or_disjoint_nat [of "2 ^ i" "Suc i" y] by (simp add: unsigned_or_eq y)
qed

interpretation div64: restoring_division 64 unat "\<lambda>n i. drop_bit i n AND 1" "\<lambda>r b. push_bit 1 r OR b"
  "\<lambda>a b. a \<ge> b" "(-)" "\<lambda>q i. q OR push_bit i 1" udivmod64_loop
proof unfold_locales
  show "unat (push_bit 1 r OR word_of_nat c) = 2 * unat r + c" if "2 * unat r + c < 2 ^ 64" "c < 2" for r :: u64 and c
    using that unat_push_or [OF that(2), of r] by simp
  show "unat a < 2 ^ 64" for a :: u64 by (rule unat_u64_lt)
  show "unat (q OR push_bit i 1) = unat q + 2 ^ i" if "i < 64" "2 ^ Suc i dvd unat q" for q :: u64 and i
    using that by (rule unat_or_push)
qed (simp_all only: drop_and_1 word_le_nat_alt unat_sub udivmod64_loop.simps Let_def)


section \<open>The same at 128 bits\<close>

definition ti_val :: "uti_int \<Rightarrow> nat" where
  "ti_val a = unat (ti_lo a) + 2 ^ 64 * unat (ti_hi a)"

lemma ti_val_less: "ti_val a < 2 ^ 128"
  using unat_u64_lt [of "ti_lo a"] unat_u64_lt [of "ti_hi a"] by (simp add: ti_val_def)

lemma uti_bit_val: "i < 128 \<Longrightarrow> uti_bit n i = word_of_nat (ti_val n div 2 ^ i mod 2)"
proof (cases "i \<ge> 64")
  case True
  then have "2 ^ i = 2 ^ 64 * (2 :: nat) ^ (i - 64)" using power_add [of "2 :: nat" 64 "i - 64"] by simp
  moreover have "ti_val n div 2 ^ 64 = unat (ti_hi n)" using unat_u64_lt [of "ti_lo n"] by (simp add: ti_val_def)
  ultimately have "ti_val n div 2 ^ i = unat (ti_hi n) div 2 ^ (i - 64)" by (simp only: div_mult2_eq)
  then show ?thesis using True by (simp add: uti_bit_def drop_and_1)
next
  case False
  then have "2 ^ 64 = 2 ^ i * (2 * (2 :: nat) ^ (63 - i))"
    using power_add [of "2 :: nat" i "Suc (63 - i)"] by (simp only: power_Suc) simp
  then have "ti_val n = unat (ti_lo n) + 2 * (unat (ti_hi n) * 2 ^ (63 - i)) * 2 ^ i"
    unfolding ti_val_def by (simp only: ac_simps)
  then have "ti_val n div 2 ^ i mod 2 = unat (ti_lo n) div 2 ^ i mod 2"
    by (simp del: mult.assoc)
  then show ?thesis using False by (simp add: uti_bit_def drop_and_1)
qed

lemma carry_split: "2 * x mod (2 * m) + 2 * m * (x div m) = 2 * x" for x m :: nat
  by (metis distrib_left mult.assoc mod_mult_div_eq mult_mod_right)

lemma uti_shl_val:
  assumes "2 * ti_val r + c < 2 ^ 128" "c < 2"
  shows "ti_val (uti_shl_in r (word_of_nat c)) = 2 * ti_val r + c"
proof -
  have lo: "unat (push_bit 1 (ti_lo r) OR word_of_nat c) = (2 * unat (ti_lo r)) mod 2 ^ 64 + c"
    using assms(2) by (rule unat_push_or)
  have carry: "drop_bit 63 (ti_lo r) = word_of_nat (unat (ti_lo r) div 2 ^ 63)" 
    by (simp only: unat_drop [symmetric] unsigned_of_nat) simp
  have "unat (ti_lo r) div 2 ^ 63 < 2" using unat_u64_lt [of "ti_lo r"] by (simp add: div_less_iff_less_mult)
  then have hi: "unat (push_bit 1 (ti_hi r) OR drop_bit 63 (ti_lo r)) = (2 * unat (ti_hi r)) mod 2 ^ 64 + unat (ti_lo r) div 2 ^ 63"
    unfolding carry by (rule unat_push_or)
  have "2 * unat (ti_hi r) < 2 ^ 64" using assms(1) by (simp add: ti_val_def)
  moreover have "(2 * unat (ti_lo r)) mod 2 ^ 64 + 2 ^ 64 * (unat (ti_lo r) div 2 ^ 63) = 2 * unat (ti_lo r)"
    using carry_split [of "unat (ti_lo r)" "2 ^ 63"] by simp
  ultimately show ?thesis
    using lo hi by (simp add: uti_shl_in_def ti_val_def Let_def algebra_simps)
qed

lemma uti_ge_val: "uti_ge a b \<longleftrightarrow> ti_val b \<le> ti_val a"
  using unat_u64_lt [of "ti_lo a"] unat_u64_lt [of "ti_lo b"]
  by (auto simp: uti_ge_def ti_val_def word_less_nat_alt word_le_nat_alt word_unat_eq_iff)

lemma uti_sub_val:
  assumes "ti_val b \<le> ti_val a"
  shows "ti_val (uti_sub a b) = ti_val a - ti_val b"
proof (cases "ti_lo b \<le> ti_lo a")
  case True
  then have "unat (ti_hi b) \<le> unat (ti_hi a)"
    using assms unat_u64_lt [of "ti_lo a"] by (simp add: ti_val_def)
  moreover have "\<not> ti_lo a < ti_lo b" using True by simp
  ultimately show ?thesis
    using True by (simp add: ti_val_def uti_sub_def unat_sub word_le_nat_alt Let_def algebra_simps)
next
  case False
  then have lo: "unat (ti_lo a) < unat (ti_lo b)" by (simp add: word_le_nat_alt)
  then have hi: "unat (ti_hi b) < unat (ti_hi a)"
    using assms unat_u64_lt [of "ti_lo a"] unat_u64_lt [of "ti_lo b"] by (simp add: ti_val_def)
  have "unat (ti_lo a - ti_lo b) = unat (ti_lo a) + 2 ^ 64 - unat (ti_lo b)"
    using lo unat_u64_lt [of "ti_lo b"] by (simp add: unat_sub_if_size word_size)
  moreover have "unat (ti_hi a - ti_hi b - 1) = unat (ti_hi a) - unat (ti_hi b) - 1"
    using hi by (simp add: unat_sub_if_size)
  ultimately show ?thesis
    using lo hi unat_u64_lt [of "ti_lo b"] by (simp add: ti_val_def uti_sub_def word_less_nat_alt Let_def algebra_simps)
qed

lemma uti_set_val: "i < 128 \<Longrightarrow> 2 ^ Suc i dvd ti_val q \<Longrightarrow> ti_val (uti_set q i) = ti_val q + 2 ^ i"
proof (cases "i \<ge> 64")
  case True
  assume i: "i < 128" and dvd: "2 ^ Suc i dvd ti_val q"
  have Suc_i: "2 ^ Suc i = 2 ^ 64 * (2 :: nat) ^ Suc (i - 64)" using True power_add [of "2 :: nat" 64 "Suc (i - 64)"] by simp
  then obtain k where k: "ti_val q = 2 ^ 64 * (2 ^ Suc (i - 64) * k)" using dvd by (auto elim!: dvdE simp: mult.assoc)
  have "unat (ti_hi q) = ti_val q div 2 ^ 64" using unat_u64_lt [of "ti_lo q"] by (simp add: ti_val_def)
  then have "2 ^ Suc (i - 64) dvd unat (ti_hi q)" using k by simp
  then have "unat (ti_hi q OR push_bit (i - 64) 1) = unat (ti_hi q) + 2 ^ (i - 64)" using i by (intro unat_or_push) auto
  then show ?thesis using True Suc_i by (simp add: uti_set_def ti_val_def algebra_simps del: push_bit_of_1)
next
  case False
  assume dvd: "2 ^ Suc i dvd ti_val q"
  have "(2 :: nat) ^ Suc i dvd 2 ^ 64" using False by (intro le_imp_power_dvd) simp
  then have "2 ^ Suc i dvd unat (ti_lo q)" using dvd by (simp add: ti_val_def dvd_add_left_iff)
  then have "unat (ti_lo q OR push_bit i 1) = unat (ti_lo q) + 2 ^ i" using False by (intro unat_or_push) auto
  then show ?thesis using False by (simp add: uti_set_def ti_val_def del: push_bit_of_1)
qed

interpretation div128: restoring_division 128 ti_val uti_bit uti_shl_in uti_ge uti_sub uti_set udivmod128_loop
  by unfold_locales (simp_all only: ti_val_less uti_bit_val uti_shl_val uti_ge_val uti_sub_val uti_set_val
    udivmod128_loop.simps Let_def)

section \<open>The results\<close>

lemma udivmod64_words:
  assumes "d \<noteq> 0"
  shows "udivmod64_inner n d = (n div d, n mod d)"
proof -
  obtain q r where qr: "udivmod64_loop n d 64 0 0 = (q, r)" by force
  have "0 < unat d" using assms by (simp add: unat_gt_0)
  then have "unat q = unat n div unat d" "unat r = unat n mod unat d" using div64.division_val [of d 0 0 n] by (simp_all add: qr)
  then show ?thesis by (simp add: udivmod64_inner_def qr u64_eqI unat_div unat_mod)
qed

lemma udivmod128_values:
  assumes "ti_val d \<noteq> 0"
  shows "ti_val (fst (udivmod128_inner n d)) = ti_val n div ti_val d" "ti_val (snd (udivmod128_inner n d)) = ti_val n mod ti_val d"
proof -
  obtain q r where "udivmod128_loop n d 128 (ti 0 0) (ti 0 0) = (q, r)" by force
  then show "ti_val (fst (udivmod128_inner n d)) = ti_val n div ti_val d" "ti_val (snd (udivmod128_inner n d)) = ti_val n mod ti_val d"
    using div128.division_val [of d "ti 0 0" "ti 0 0" n] assms by (simp_all add: udivmod128_inner_def) (simp_all add: ti_val_def)
qed

lemma ti_val_0: "ti_val d = 0 \<longleftrightarrow> ti_hi d = 0 \<and> ti_lo d = 0"
  by (auto simp: ti_val_def unat_eq_zero)

text \<open>
  C21. The 128-bit unsigned division returns the quotient and the remainder of the two numbers, for
  every divisor other than 0 (which returns 0 and the dividend, without a trap).
\<close>

theorem udivmodti4_correct:
  "ti_val d \<noteq> 0 \<Longrightarrow>
     ti_val (fst (udivmodti4 n d)) = ti_val n div ti_val d \<and> ti_val (snd (udivmodti4 n d)) = ti_val n mod ti_val d"
  using udivmod128_values [of d n] ti_val_0 [of d] by (auto simp: udivmodti4_def)

lemma sint_neg_uint:
  fixes a :: u64
  assumes "a <s 0"
  shows "uint (negdi2_op a) = - sint a"
proof -
  have "sint a < 0" using assms by (simp add: word_sless_alt)
  moreover have "- (2 ^ 63) \<le> sint a" using sint_greater_eq [of a] by simp
  moreover have "negdi2_op a = word_of_int (- sint a)" by (simp add: negdi2_op_def)
  ultimately show ?thesis using uint_word_of_int [of "- sint a", where 'a = 64] by (simp del: wi_hom_neg)
qed

lemma sint_nonneg_uint:
  fixes a :: u64
  assumes "\<not> a <s 0"
  shows "uint a = sint a"
proof -
  have "0 \<le> sint a" using assms by (simp add: word_sless_alt)
  moreover have "sint a < 2 ^ 63" using sint_less [of a] by simp
  ultimately show ?thesis using uint_word_of_int [of "sint a", where 'a = 64] by simp
qed

definition mag :: "u64 \<Rightarrow> u64" where
  "mag a = (if a <s 0 then negdi2_op a else a)"

lemma uint_mag: "uint (mag a) = \<bar>sint a\<bar>"
  using sint_neg_uint [of a] sint_nonneg_uint [of a] by (auto simp: mag_def word_sless_alt)

lemma word_div_mag:
  "uint (mag a div mag b) = \<bar>sint a\<bar> div \<bar>sint b\<bar>" "uint (mag a mod mag b) = \<bar>sint a\<bar> mod \<bar>sint b\<bar>"
  by (simp_all add: uint_div uint_mod uint_mag)

lemma mag_nonzero: "b \<noteq> 0 \<Longrightarrow> mag b \<noteq> 0" "b \<noteq> 0 \<Longrightarrow> sint b \<noteq> 0"
  using uint_mag [of b] signed_eq_0_iff [of b] by auto

lemma sint_signs:
  "sint a sdiv sint b = (if (a <s 0) = (b <s 0) then uint (mag a div mag b) else - uint (mag a div mag b))"
  "sint a smod sint b = (if a <s 0 then - uint (mag a mod mag b) else uint (mag a mod mag b))"
  unfolding word_div_mag signed_divide_int_def signed_modulo_int_def
  by (auto simp: word_sless_alt sgn_if)

lemma divdi3_mag:
  assumes "b \<noteq> 0"
  shows "divdi3 a b = (if (a <s 0) = (b <s 0) then mag a div mag b else negdi2_op (mag a div mag b))"
    and "moddi3 a b = (if a <s 0 then negdi2_op (mag a mod mag b) else mag a mod mag b)"
    and "divmoddi4 a b = (divdi3 a b, if (a <s 0) = (b <s 0) then mag a mod mag b else negdi2_op (mag a mod mag b))"
proof -
  have inner: "udivmod64_inner (mag a) (mag b) = (mag a div mag b, mag a mod mag b)"
    using mag_nonzero(1) [OF assms] by (rule udivmod64_words)
  show "divdi3 a b = (if (a <s 0) = (b <s 0) then mag a div mag b else negdi2_op (mag a div mag b))"
    "moddi3 a b = (if a <s 0 then negdi2_op (mag a mod mag b) else mag a mod mag b)"
    "divmoddi4 a b = (divdi3 a b, if (a <s 0) = (b <s 0) then mag a mod mag b else negdi2_op (mag a mod mag b))"
    using assms inner by (auto simp: divdi3_def moddi3_def divmoddi4_def divmod_signed_def Let_def simp flip: mag_def)
qed

lemma udivmodti4_witness:
  "ti_val (ti 0 1) \<noteq> 0 \<and>
   ti_val (fst (udivmodti4 (ti 7 5) (ti 0 1))) = ti_val (ti 7 5) div ti_val (ti 0 1) \<and>
   ti_val (snd (udivmodti4 (ti 7 5) (ti 0 1))) = ti_val (ti 7 5) mod ti_val (ti 0 1)"
  using udivmodti4_correct [of "ti 0 1" "ti 7 5"] by (simp add: ti_val_def)

text \<open>
  C22. The 64-bit signed division and remainder truncate towards zero, and the remainder has the
  dividend's sign: both are the wrap-around of the exact integers, the one overflow
  \<open>-2^63 / -1\<close> included. A zero divisor is excluded here; it returns 0 and the dividend.
\<close>

theorem divdi3_correct:
  assumes "b \<noteq> 0"
  shows "divdi3 a b = word_of_int (sint a sdiv sint b) \<and> moddi3 a b = word_of_int (sint a smod sint b)"
  using assms by (auto simp: divdi3_mag sint_signs negdi2_op_def)

lemma divdi3_witness:
  "(- 2 :: u64) \<noteq> 0 \<and> divdi3 7 (- 2) = word_of_int (sint (7 :: u64) sdiv sint (- 2 :: u64)) \<and>
   moddi3 7 (- 2) = word_of_int (sint (7 :: u64) smod sint (- 2 :: u64))"
  using divdi3_correct [of "- 2" 7] by simp

text \<open>
  \<^verbatim>\<open>__divmoddi4\<close> returns the same quotient, but its remainder is that of \<^verbatim>\<open>__moddi3\<close> only
  for a non-negative divisor or an exact division: it is negated with the quotient's sign.
\<close>

theorem divmoddi4_remainder:
  assumes "b \<noteq> 0"
  shows "fst (divmoddi4 a b) = divdi3 a b \<and> (snd (divmoddi4 a b) = moddi3 a b \<longleftrightarrow> \<not> b <s 0 \<or> moddi3 a b = 0)"
proof -
  define r where "r = mag a mod mag b"
  have "\<bar>sint b\<bar> \<le> 2 ^ 63" using sint_less [of b] sint_greater_eq [of b] by simp
  moreover have "uint r < \<bar>sint b\<bar>" using mag_nonzero(2) [OF assms] by (simp add: r_def word_div_mag)
  ultimately have r: "uint r < 2 ^ 63" by simp
  have "r = - r \<longleftrightarrow> r = 0"
  proof
    assume "r = - r"
    then have "2 * r = 0" by (metis add.right_inverse mult_2)
    then show "r = 0" using r by (simp add: word_uint_eq_iff uint_word_arith_bintrs take_bit_eq_mod)
  qed simp
  moreover have "- r = r \<longleftrightarrow> r = 0" using calculation by metis
  ultimately show ?thesis using assms by (simp add: divdi3_mag negdi2_op_def flip: r_def)
qed

lemma unat_not_u64: "unat (NOT x) = 2 ^ 64 - 1 - unat x" for x :: u64
proof -
  have "NOT x = - 1 - x" by (simp add: not_eq_complement)
  then show ?thesis using unat_sub [of x "- 1"] by (simp only: word_order.extremum unsigned_minus_1_eq_mask mask_eq_exp_minus_1) simp
qed

text \<open>
  The 128-bit negation inside the signed divisions tests the carry on the complemented low half
  before adding one: it is the negation of the number exactly when the low half is neither 0 nor
  all ones. So \<open>-1\<close> and every multiple of \<open>2^64\<close> are negated wrongly.
\<close>

theorem uti_neg_wrong: "ti_val (uti_neg a) = (2 ^ 128 - ti_val a) mod 2 ^ 128 \<longleftrightarrow> ti_lo a \<noteq> 0 \<and> ti_lo a \<noteq> - 1"
proof -
  define l h where "l = unat (ti_lo a)" and "h = unat (ti_hi a)"
  have lh: "l < 2 ^ 64" "h < 2 ^ 64" by (simp_all only: l_def h_def unat_u64_lt)
  have max: "ti_lo a = - 1 \<longleftrightarrow> l = 2 ^ 64 - 1" "ti_lo a = 0 \<longleftrightarrow> l = 0"
    by (auto simp: l_def word_unat_eq_iff unsigned_minus_1_eq_mask mask_eq_exp_minus_1)
  have carry: "NOT (ti_lo a) = 0 \<longleftrightarrow> l = 2 ^ 64 - 1"
    using lh by (simp add: word_unat_eq_iff unat_not_u64 flip: l_def) linarith
  have "unat (NOT (ti_lo a) + 1) = (2 ^ 64 - l) mod 2 ^ 64" using lh by (simp add: unat_word_ariths unat_not_u64 flip: l_def Suc_diff_le)
  moreover have "unat (NOT (ti_hi a) + 1) = (2 ^ 64 - h) mod 2 ^ 64" using lh by (simp add: unat_word_ariths unat_not_u64 flip: h_def Suc_diff_le)
  ultimately have val: "ti_val (uti_neg a) = (2 ^ 64 - l) mod 2 ^ 64 +
      2 ^ 64 * (if l = 2 ^ 64 - 1 then (2 ^ 64 - h) mod 2 ^ 64 else 2 ^ 64 - 1 - h)"
    using lh by (simp add: uti_neg_def ti_val_def carry unat_not_u64 Let_def flip: l_def h_def)
  have a: "ti_val a = l + 2 ^ 64 * h" by (simp add: ti_val_def l_def h_def)
  consider "l = 0" "h = 0" | "l = 0" "0 < h" | "l = 2 ^ 64 - 1" "h = 0" | "l = 2 ^ 64 - 1" "0 < h" | "0 < l" "l < 2 ^ 64 - 1"
    using lh by (cases "l = 0"; cases "h = 0"; cases "l = 2 ^ 64 - 1") auto
  then show ?thesis
    unfolding val a max using lh by cases auto
qed

text \<open>So \<open>-1 / 1\<close> is not \<open>-1\<close>, and \<open>0 / -1\<close> is not 0.\<close>

lemma divti3_minus_one: "divti3 (ti (- 1) (- 1)) (ti 1 0) = ti (- 1) (- 2)"
  by code_simp

end
