(* ===== verification/Libgcc_Bits.thy ===== *)
theory Libgcc_Bits
  imports Libgcc
begin

text \<open>
  The other integer routines of \<^verbatim>\<open>meuos-libc/src/libgcc_meuos\<close>: the 128-bit product by 32-bit limbs
  (\<^verbatim>\<open>mul.c\<close>), and the leading and trailing zeros, the population count, the parity and the byte
  swap (\<^verbatim>\<open>bit.c\<close>).
\<close>


section \<open>Multiplication\<close>

definition muldi3 :: "u64 \<Rightarrow> u64 \<Rightarrow> u64" where
  "muldi3 a b = a * b"

definition mul_limbs :: "uti_int \<Rightarrow> u32 list" where
  "mul_limbs a = [ucast (ti_lo a), ucast (drop_bit 32 (ti_lo a)), ucast (ti_hi a), ucast (drop_bit 32 (ti_hi a))]"

definition mul_step :: "u32 list \<Rightarrow> u32 list \<Rightarrow> nat \<times> nat \<Rightarrow> u64 list \<Rightarrow> u64 list" where
  "mul_step ia ib ij acc =
     (let p = (ucast (ia ! fst ij) :: u64) * ucast (ib ! snd ij); k = fst ij + snd ij;
          acc = acc[k := acc ! k + ucast (ucast p :: u32)]
      in acc[k + 1 := acc ! (k + 1) + ucast (ucast (drop_bit 32 p) :: u32)])"

text \<open>The carry pass; the mask is skipped at the last limb.\<close>

fun mul_carry :: "u64 \<Rightarrow> u64 list \<Rightarrow> u64 list" where
  "mul_carry c [] = []"
| "mul_carry c (x # xs) =
     (let x = x + c in (if xs \<noteq> [] then x AND 0xFFFFFFFF else x) # mul_carry (drop_bit 32 x) xs)"

definition umul128 :: "uti_int \<Rightarrow> uti_int \<Rightarrow> uti_int" where
  "umul128 a b =
     (let acc = fold (mul_step (mul_limbs a) (mul_limbs b)) (List.product [0..<4] [0..<4]) (replicate 8 0);
          acc = mul_carry 0 acc
      in ti (acc ! 0 OR push_bit 32 (acc ! 1)) (acc ! 2 OR push_bit 32 (acc ! 3)))"

definition multi3 :: "uti_int \<Rightarrow> uti_int \<Rightarrow> uti_int" where
  "multi3 a b = umul128 a b"

fun limb_val :: "u64 list \<Rightarrow> nat" where
  "limb_val [] = 0"
| "limb_val (x # xs) = unat x + 2 ^ 32 * limb_val xs"

lemma limb_val_append: "limb_val (xs @ ys) = limb_val xs + 2 ^ (32 * length xs) * limb_val ys"
  by (induction xs) (simp_all add: algebra_simps power_add)

lemma limb_val_add:
  "k < length xs \<Longrightarrow> unat (xs ! k) + unat x < 2 ^ 64 \<Longrightarrow>
     limb_val (xs[k := xs ! k + x]) = limb_val xs + 2 ^ (32 * k) * unat x"
proof (induction xs arbitrary: k)
  case (Cons y xs)
  then show ?case
  proof (cases k)
    case 0
    then show ?thesis using Cons.prems(2) by (simp add: unat_word_ariths)
  next
    case (Suc j)
    then show ?thesis using Cons by (simp add: algebra_simps power_add)
  qed
qed simp

lemma mul_step_length [simp]: "length (mul_step ia ib ij acc) = length acc"
  by (simp add: mul_step_def Let_def)

lemma unat_low32: "unat (ucast (ucast p :: u32) :: u64) = unat p mod 2 ^ 32" for p :: u64
  by (simp add: unsigned_ucast_eq unsigned_take_bit_eq) (simp add: take_bit_eq_mod)

lemma u32_product: "unat ((ucast x :: u64) * ucast y) = unat x * unat y" for x y :: u32
proof -
  have "unat x \<le> 2 ^ 32 - 1" "unat y \<le> 2 ^ 32 - 1" using unat_u32_lt [of x] unat_u32_lt [of y] by linarith+
  then have "unat x * unat y \<le> (2 ^ 32 - 1) * (2 ^ 32 - 1)" by (rule mult_le_mono)
  moreover have "take_bit 64 (unat x) = unat x" "take_bit 64 (unat y) = unat y"
    by (rule take_bit_nat_eq_self, rule order.strict_trans [OF unat_u32_lt], simp)+
  ultimately show ?thesis by (simp add: unat_word_ariths unsigned_ucast_eq)
qed

lemma u64_halves: "unat (ucast (ucast p :: u32) :: u64) + 2 ^ 32 * unat (ucast (ucast (drop_bit 32 p) :: u32) :: u64) = unat p" for p :: u64
proof -
  have "unat p div 2 ^ 32 < 2 ^ 32" using unat_u64_lt [of p] by (simp add: div_less_iff_less_mult)
  then show ?thesis by (simp only: unat_low32 unat_drop mod_less) simp
qed

lemma mul_step_val:
  assumes "length acc = 8" "fst ij < 4" "snd ij < 4" "\<forall>k < 8. unat (acc ! k) \<le> n * 2 ^ 32" "n \<le> 16"
  shows "limb_val (mul_step ia ib ij acc) = limb_val acc + 2 ^ (32 * (fst ij + snd ij)) * (unat (ia ! fst ij) * unat (ib ! snd ij))"
    and "\<forall>k < 8. unat (mul_step ia ib ij acc ! k) \<le> Suc n * 2 ^ 32"
proof -
  define p where "p = (ucast (ia ! fst ij) :: u64) * ucast (ib ! snd ij)"
  define k where "k = fst ij + snd ij"
  define lo hi where "lo = (ucast (ucast p :: u32) :: u64)" and "hi = (ucast (ucast (drop_bit 32 p) :: u32) :: u64)"
  have step: "mul_step ia ib ij acc = (acc[k := acc ! k + lo])[k + 1 := acc[k := acc ! k + lo] ! (k + 1) + hi]"
    by (simp add: mul_step_def Let_def p_def k_def lo_def hi_def)
  have k: "k + 1 < 8" using assms by (simp add: k_def)
  have lh: "unat lo < 2 ^ 32" "unat hi < 2 ^ 32"
    by (simp_all only: lo_def hi_def unat_low32) simp_all
  have small: "n * 2 ^ 32 \<le> 16 * 2 ^ 32" using assms(5) by simp
  have b: "unat (acc ! k) \<le> n * 2 ^ 32" "unat (acc ! (k + 1)) \<le> n * 2 ^ 32" using assms(4) k by simp_all
  have 1: "limb_val (acc[k := acc ! k + lo]) = limb_val acc + 2 ^ (32 * k) * unat lo"
    using b lh small k assms(1) by (intro limb_val_add) simp_all
  have "limb_val (mul_step ia ib ij acc) = limb_val acc + 2 ^ (32 * k) * unat lo + 2 ^ (32 * (k + 1)) * unat hi"
    unfolding step 1 [symmetric] using b lh small k assms(1) by (intro limb_val_add) simp_all
  also have "\<dots> = limb_val acc + 2 ^ (32 * k) * (unat lo + 2 ^ 32 * unat hi)" by (simp add: algebra_simps power_add)
  also have "unat lo + 2 ^ 32 * unat hi = unat p" unfolding lo_def hi_def by (rule u64_halves)
  finally show "limb_val (mul_step ia ib ij acc) = limb_val acc + 2 ^ (32 * (fst ij + snd ij)) * (unat (ia ! fst ij) * unat (ib ! snd ij))"
    by (simp add: p_def u32_product k_def)
  show "\<forall>k < 8. unat (mul_step ia ib ij acc ! k) \<le> Suc n * 2 ^ 32"
  proof (intro allI impI)
    fix j :: nat
    assume "j < 8"
    then have "unat (acc ! j) \<le> n * 2 ^ 32" using assms(4) by simp
    then show "unat (mul_step ia ib ij acc ! j) \<le> Suc n * 2 ^ 32"
      unfolding step using assms(1,5) lh k by (simp add: nth_list_update unat_word_ariths)
  qed
qed

lemma mul_fold_val:
  assumes "length acc = 8" "\<forall>k < 8. unat (acc ! k) \<le> n * 2 ^ 32" "n + length ps \<le> 16" "\<forall>p \<in> set ps. fst p < 4 \<and> snd p < 4"
  shows "limb_val (fold (mul_step ia ib) ps acc) =
      limb_val acc + (\<Sum>p \<leftarrow> ps. 2 ^ (32 * (fst p + snd p)) * (unat (ia ! fst p) * unat (ib ! snd p))) \<and>
    length (fold (mul_step ia ib) ps acc) = 8 \<and> (\<forall>k < 8. unat (fold (mul_step ia ib) ps acc ! k) \<le> 16 * 2 ^ 32)"
  using assms
proof (induction ps arbitrary: acc n)
  case Nil
  have "n * 2 ^ 32 \<le> 16 * (2 :: nat) ^ 32" using Nil.prems(3) by simp
  then show ?case using Nil.prems(1,2) by (auto intro: order.trans)
next
  case (Cons p ps)
  then have "fst p < 4" "snd p < 4" "n \<le> 16" by simp_all
  note step = mul_step_val [OF Cons.prems(1) this(1,2) Cons.prems(2) this(3), of ia ib]
  show ?case
    using Cons.IH [of "mul_step ia ib p acc" "Suc n"] Cons.prems step by simp
qed

lemma mul_carry_val:
  assumes "\<forall>x \<in> set xs. unat x \<le> 16 * 2 ^ 32" "unat c \<le> 16" "xs \<noteq> []"
  shows "limb_val (mul_carry c xs) = limb_val xs + unat c \<and> length (mul_carry c xs) = length xs \<and>
    (\<forall>i. Suc i < length xs \<longrightarrow> unat (mul_carry c xs ! i) < 2 ^ 32)"
  using assms
proof (induction xs arbitrary: c)
  case (Cons x xs)
  have x: "unat (x + c) = unat x + unat c" using Cons.prems by (simp add: unat_word_ariths)
  have low: "unat ((x + c) AND 0xFFFFFFFF) = unat (x + c) mod 2 ^ 32"
  proof -
    have "(x + c) AND 0xFFFFFFFF = take_bit 32 (x + c)" by (simp add: take_bit_eq_mask mask_eq_exp_minus_1)
    then show ?thesis by (simp only: unsigned_take_bit_eq) (simp add: take_bit_eq_mod)
  qed
  show ?case
  proof (cases "xs = []")
    case True
    then show ?thesis using x by simp
  next
    case False
    have "unat x + unat c \<le> 16 * 2 ^ 32 + 16" using Cons.prems by simp
    from div_le_mono [OF this, of "2 ^ 32"] have "unat (drop_bit 32 (x + c)) \<le> 16" by (simp add: unat_drop x)
    moreover have "unat (drop_bit 32 (x + c)) = (unat x + unat c) div 2 ^ 32" by (simp add: unat_drop x)
    ultimately have "limb_val (mul_carry c (x # xs)) = (unat x + unat c) mod 2 ^ 32 + 2 ^ 32 * (limb_val xs + (unat x + unat c) div 2 ^ 32)"
      and *: "length (mul_carry (drop_bit 32 (x + c)) xs) = length xs"
        "\<forall>i. Suc i < length xs \<longrightarrow> unat (mul_carry (drop_bit 32 (x + c)) xs ! i) < 2 ^ 32"
      using Cons.IH [of "drop_bit 32 (x + c)"] Cons.prems False by (simp_all add: Let_def low x)
    then have "limb_val (mul_carry c (x # xs)) = limb_val (x # xs) + unat c" by (simp add: algebra_simps)
    moreover have "unat (mul_carry c (x # xs) ! i) < 2 ^ 32" if "Suc i < length (x # xs)" for i
      using that * False by (cases i) (simp_all add: Let_def low)
    ultimately show ?thesis using * False by (simp add: Let_def)
  qed
qed simp

lemma limb_val_zeros: "limb_val (replicate n 0) = 0"
  by (induction n) simp_all

lemma mul_limbs_val:
  "ti_val a = unat (mul_limbs a ! 0) + 2 ^ 32 * unat (mul_limbs a ! 1) + 2 ^ 64 * unat (mul_limbs a ! 2) + 2 ^ 96 * unat (mul_limbs a ! 3)"
proof -
  have lo: "unat (ucast x :: u32) = unat x mod 2 ^ 32" for x :: u64 by (simp add: unsigned_ucast_eq take_bit_eq_mod)
  have hi: "unat (drop_bit 32 x) mod 2 ^ 32 = unat x div 2 ^ 32" for x :: u64
    using unat_u64_lt [of x] by (simp only: unat_drop) simp
  have "unat x = unat (ucast x :: u32) + 2 ^ 32 * unat (ucast (drop_bit 32 x) :: u32)" for x :: u64
    unfolding lo hi by simp
  from this [of "ti_lo a"] this [of "ti_hi a"] show ?thesis
    by (simp add: ti_val_def mul_limbs_def)
qed

lemma or_push32:
  assumes "unat x < 2 ^ 32" "unat y < 2 ^ 32"
  shows "unat (x OR push_bit 32 y :: u64) = unat x + 2 ^ 32 * unat y"
proof -
  have "unat (push_bit 32 y) = 2 ^ 32 * unat y"
    unfolding unsigned_push_bit_eq using assms(2) by (simp add: push_bit_eq_mult take_bit_nat_eq_self)
  then show ?thesis
    using or_disjoint_nat [of "unat x" 32 "unat y"] assms(1) by (simp add: unsigned_or_eq or.commute add.commute)
qed

text \<open>
  C23. The 128-bit product is the low 128 bits of the product of the two numbers: the limb accumulators
  never overflow and the carry pass keeps their value.
\<close>

theorem multi3_correct: "ti_val (multi3 a b) = ti_val a * ti_val b mod 2 ^ 128"
proof -
  define acc where "acc = fold (mul_step (mul_limbs a) (mul_limbs b)) (List.product [0..<4] [0..<4]) (replicate 8 0)"
  define r where "r = mul_carry 0 acc"
  have sum: "limb_val acc = (\<Sum>p \<leftarrow> List.product [0..<4] [0..<4]. 2 ^ (32 * (fst p + snd p)) * (unat (mul_limbs a ! fst p) * unat (mul_limbs b ! snd p)))"
    and len: "length acc = 8" "\<forall>k < 8. unat (acc ! k) \<le> 16 * 2 ^ 32"
    using mul_fold_val [of "replicate 8 0" 0 "List.product [0..<4] [0..<4]" "mul_limbs a" "mul_limbs b"]
    by (simp_all add: limb_val_zeros flip: acc_def)
  have prod: "(\<Sum>p \<leftarrow> List.product [0..<4] [0..<4]. 2 ^ (32 * (fst p + snd p)) * (unat (mul_limbs a ! fst p) * unat (mul_limbs b ! snd p)))
     = ti_val a * ti_val b"
    unfolding mul_limbs_val [of a] mul_limbs_val [of b] by (simp add: upt_rec numeral_2_eq_2 numeral_3_eq_3 algebra_simps)
  have acc: "limb_val acc = ti_val a * ti_val b" unfolding sum by (rule prod)
  have "\<forall>x \<in> set acc. unat x \<le> 16 * 2 ^ 32" using len by (auto simp: in_set_conv_nth)
  moreover have "acc \<noteq> []" using len by auto
  ultimately have r: "limb_val r = ti_val a * ti_val b" "length r = 8" "\<forall>i. Suc i < 8 \<longrightarrow> unat (r ! i) < 2 ^ 32"
    using mul_carry_val [of acc 0] len acc by (simp_all add: r_def)
  have "take 4 r = [r ! 0, r ! 1, r ! 2, r ! 3]"
    using r(2) by (simp add: list_eq_iff_nth_eq numeral_eq_Suc All_less_Suc)
  then obtain r0 r1 r2 r3 ys where rs: "r = [r0, r1, r2, r3] @ ys" by (metis append_take_drop_id)
  have "unat (r ! 0) < 2 ^ 32" "unat (r ! 1) < 2 ^ 32" "unat (r ! 2) < 2 ^ 32" "unat (r ! 3) < 2 ^ 32" using r(3) by simp_all
  then have lt: "unat r0 < 2 ^ 32" "unat r1 < 2 ^ 32" "unat r2 < 2 ^ 32" "unat r3 < 2 ^ 32" by (simp_all add: rs)
  have "ti_val (multi3 a b) = limb_val [r0, r1, r2, r3]"
    using lt by (simp add: multi3_def umul128_def Let_def ti_val_def or_push32 rs flip: acc_def r_def)
  moreover have "limb_val [r0, r1, r2, r3] < 2 ^ 128" using lt by simp
  moreover have "ti_val a * ti_val b = limb_val [r0, r1, r2, r3] + 2 ^ 128 * limb_val ys"
    using r(1) unfolding rs limb_val_append by simp
  ultimately show ?thesis by simp
qed

section \<open>Bit counts\<close>

text \<open>One line \<^verbatim>\<open>if (!(x & m)) { n += k; x <<= k; }\<close>, and its mirror image for the trailing zeros.\<close>

definition clz_line :: "u32 \<Rightarrow> nat \<Rightarrow> u32 \<times> u32 \<Rightarrow> u32 \<times> u32" where
  "clz_line m k nx = (if snd nx AND m = 0 then (fst nx + word_of_nat k, push_bit k (snd nx)) else nx)"

definition ctz_line :: "u32 \<Rightarrow> nat \<Rightarrow> u32 \<times> u32 \<Rightarrow> u32 \<times> u32" where
  "ctz_line m k nx = (if snd nx AND m = 0 then (fst nx + word_of_nat k, drop_bit k (snd nx)) else nx)"

definition clzsi2 :: "u32 \<Rightarrow> u32" where
  "clzsi2 x =
     (if x = 0 then 32
      else
        let nx = clz_line 0xC0000000 2 (clz_line 0xF0000000 4 (clz_line 0xFF000000 8 (clz_line 0xFFFF0000 16 (0, x))))
        in if snd nx AND 0x80000000 = 0 then fst nx + 1 else fst nx)"

definition clzdi2 :: "u64 \<Rightarrow> u32" where
  "clzdi2 x =
     (let hi = (ucast (drop_bit 32 x) :: u32)
      in if hi \<noteq> 0 then clzsi2 hi else 32 + clzsi2 (ucast x))"

definition ctzsi2 :: "u32 \<Rightarrow> u32" where
  "ctzsi2 x =
     (if x = 0 then 32
      else
        let nx = ctz_line 0x00000003 2 (ctz_line 0x0000000F 4 (ctz_line 0x000000FF 8 (ctz_line 0x0000FFFF 16 (0, x))))
        in if snd nx AND 0x00000001 = 0 then fst nx + 1 else fst nx)"

definition ctzdi2 :: "u64 \<Rightarrow> u32" where
  "ctzdi2 x =
     (let lo = (ucast x :: u32)
      in if lo \<noteq> 0 then ctzsi2 lo else 32 + ctzsi2 (ucast (drop_bit 32 x)))"

definition popcountsi2 :: "u32 \<Rightarrow> u32" where
  "popcountsi2 x =
     (let x = x - (drop_bit 1 x AND 0x55555555);
          x = (x AND 0x33333333) + (drop_bit 2 x AND 0x33333333);
          x = (x + drop_bit 4 x) AND 0x0F0F0F0F;
          x = x + drop_bit 8 x;
          x = x + drop_bit 16 x
      in x AND 0x3F)"

definition popcountdi2 :: "u64 \<Rightarrow> u32" where
  "popcountdi2 x = popcountsi2 (ucast x) + popcountsi2 (ucast (drop_bit 32 x))"

definition paritysi2 :: "u32 \<Rightarrow> u32" where
  "paritysi2 x = popcountsi2 x AND 1"

definition paritydi2 :: "u64 \<Rightarrow> u32" where
  "paritydi2 x = popcountdi2 x AND 1"

definition bswapsi2 :: "u32 \<Rightarrow> u32" where
  "bswapsi2 x =
     push_bit 24 (x AND 0x000000FF) OR push_bit 8 (x AND 0x0000FF00) OR
     drop_bit 8 (x AND 0x00FF0000) OR drop_bit 24 (x AND 0xFF000000)"

definition bswapdi2 :: "u64 \<Rightarrow> u64" where
  "bswapdi2 x =
     (let lo = (ucast (bswapsi2 (ucast x)) :: u64); hi = (ucast (bswapsi2 (ucast (drop_bit 32 x))) :: u64)
      in push_bit 32 lo OR hi)"

lemma and_high_mask:
  fixes x :: u32
  assumes "k \<le> 32"
  shows "x AND NOT (mask (32 - k)) = 0 \<longleftrightarrow> unat x < 2 ^ (32 - k)"
proof -
  have "x AND NOT (mask (32 - k)) = 0 \<longleftrightarrow> take_bit (32 - k) x = x"
    by (auto simp: take_bit_eq_mask bit_eq_iff bit_simps)
  also have "\<dots> \<longleftrightarrow> take_bit (32 - k) (unat x) = unat x"
    by (simp add: word_unat_eq_iff unsigned_take_bit_eq)
  also have "\<dots> \<longleftrightarrow> unat x < 2 ^ (32 - k)" by (simp add: take_bit_nat_eq_self_iff)
  finally show ?thesis .
qed

text \<open>
  The state between the lines: the count so far times the value, and a leading one among the top \<open>k\<close> bits.
\<close>

definition clz_inv :: "u32 \<Rightarrow> nat \<Rightarrow> u32 \<times> u32 \<Rightarrow> bool" where
  "clz_inv x0 k nx \<longleftrightarrow> unat (snd nx) = unat x0 * 2 ^ unat (fst nx) \<and> 2 ^ (32 - k) \<le> unat (snd nx) \<and> unat (fst nx) + k \<le> 32"

lemma clz_line_inv:
  assumes "clz_inv x0 (2 * k) nx" "m = NOT (mask (32 - k))" "0 < k" "k \<le> 16"
  shows "clz_inv x0 k (clz_line m k nx)"
proof (cases "unat (snd nx) < 2 ^ (32 - k)")
  case True
  have n: "unat (fst nx + word_of_nat k) = unat (fst nx) + k"
    using assms(1,4) by (simp add: clz_inv_def unat_word_ariths unat_of_nat)
  have "unat (snd nx) * 2 ^ k < 2 ^ (32 - k) * 2 ^ k" using True by simp
  also have "\<dots> = (2 :: nat) ^ 32" using assms(4) by (simp flip: power_add)
  finally have "unat (push_bit k (snd nx)) = unat (snd nx) * 2 ^ k"
    unfolding unsigned_push_bit_eq by (simp add: push_bit_eq_mult take_bit_nat_eq_self)
  moreover have "(2 :: nat) ^ (32 - k) = 2 ^ (32 - 2 * k) * 2 ^ k" using assms(4) by (simp flip: power_add)
  ultimately show ?thesis
    using True assms n by (simp add: clz_inv_def clz_line_def and_high_mask power_add)
next
  case False
  then show ?thesis using assms by (simp add: clz_inv_def clz_line_def and_high_mask)
qed

lemma clzsi2_bounds:
  assumes "x \<noteq> 0"
  shows "2 ^ 31 \<le> unat x * 2 ^ unat (clzsi2 x) \<and> unat x * 2 ^ unat (clzsi2 x) < 2 ^ 32"
proof -
  define nx where "nx = clz_line 0xC0000000 2 (clz_line 0xF0000000 4 (clz_line 0xFF000000 8 (clz_line 0xFFFF0000 16 (0, x))))"
  have "clz_inv x (2 * 16) (0, x)" using assms by (simp add: clz_inv_def Suc_le_eq unat_gt_0)
  then have "clz_inv x (2 * 8) (clz_line 0xFFFF0000 16 (0, x))" by (simp add: clz_line_inv mask_eq_exp_minus_1)
  then have "clz_inv x (2 * 4) (clz_line 0xFF000000 8 (clz_line 0xFFFF0000 16 (0, x)))" by (simp add: clz_line_inv mask_eq_exp_minus_1)
  then have "clz_inv x (2 * 2) (clz_line 0xF0000000 4 (clz_line 0xFF000000 8 (clz_line 0xFFFF0000 16 (0, x))))"
    by (simp add: clz_line_inv mask_eq_exp_minus_1)
  then have "clz_inv x (2 * 1) nx" unfolding nx_def by (simp add: clz_line_inv mask_eq_exp_minus_1)
  then have "clz_inv x 1 (clz_line 0x80000000 1 nx)" by (rule clz_line_inv) (simp_all add: mask_eq_exp_minus_1)
  moreover have "clzsi2 x = fst (clz_line 0x80000000 1 nx)"
    using assms unfolding clzsi2_def Let_def nx_def [symmetric] clz_line_def [of _ _ nx] by simp
  ultimately show ?thesis using unat_u32_lt [of "snd (clz_line 0x80000000 1 nx)"] by (simp add: clz_inv_def)
qed

text \<open>The trailing zeros: the value times \<open>2 ^ count\<close>, and a one among the low \<open>k\<close> bits.\<close>

definition ctz_inv :: "u32 \<Rightarrow> nat \<Rightarrow> u32 \<times> u32 \<Rightarrow> bool" where
  "ctz_inv x0 k nx \<longleftrightarrow> unat x0 = unat (snd nx) * 2 ^ unat (fst nx) \<and> unat (snd nx) mod 2 ^ k \<noteq> 0 \<and> unat (fst nx) + k \<le> 32"

lemma and_low_mask: "x AND mask k = 0 \<longleftrightarrow> unat x mod 2 ^ k = 0" for x :: u32
  by (simp add: word_unat_eq_iff unsigned_take_bit_eq flip: take_bit_eq_mask take_bit_eq_mod)

lemma ctz_line_inv:
  assumes "ctz_inv x0 (2 * k) nx" "m = mask k" "0 < k" "k \<le> 16"
  shows "ctz_inv x0 k (ctz_line m k nx)"
proof (cases "unat (snd nx) mod 2 ^ k = 0")
  case True
  have n: "unat (fst nx + word_of_nat k) = unat (fst nx) + k"
    using assms(1,4) by (simp add: ctz_inv_def unat_word_ariths unat_of_nat)
  have d: "unat (drop_bit k (snd nx)) = unat (snd nx) div 2 ^ k"
    unfolding unsigned_drop_bit_eq unfolding drop_bit_eq_div by (simp add: take_bit_nat_eq_self [OF unat_u32_lt])
  have x: "unat (snd nx) = unat (snd nx) div 2 ^ k * 2 ^ k" using True by (simp add: dvd_div_mult_self mod_eq_0_iff_dvd)
  have "unat (snd nx) mod 2 ^ (2 * k) = 2 ^ k * (unat (snd nx) div 2 ^ k mod 2 ^ k)"
    using True mod_mult2_eq [of "unat (snd nx)" "2 ^ k" "2 ^ k"] by (simp add: mult_2 power_add)
  then have "unat (snd nx) div 2 ^ k mod 2 ^ k \<noteq> 0" using assms(1) by (auto simp: ctz_inv_def)
  then show ?thesis
    using True assms x by (simp add: ctz_inv_def ctz_line_def and_low_mask n d power_add)
next
  case False
  then show ?thesis using assms by (simp add: ctz_inv_def ctz_line_def and_low_mask)
qed

lemma ctzsi2_odd:
  assumes "x \<noteq> 0"
  shows "\<exists>y. odd y \<and> unat x = y * 2 ^ unat (ctzsi2 x)"
proof -
  define nx where "nx = ctz_line 0x00000003 2 (ctz_line 0x0000000F 4 (ctz_line 0x000000FF 8 (ctz_line 0x0000FFFF 16 (0, x))))"
  have "unat x mod 2 ^ 32 \<noteq> 0" using assms unat_u32_lt [of x] by (simp add: unat_eq_zero)
  then have "ctz_inv x (2 * 16) (0, x)" by (simp add: ctz_inv_def)
  then have "ctz_inv x (2 * 8) (ctz_line 0x0000FFFF 16 (0, x))" by (simp add: ctz_line_inv mask_eq_exp_minus_1)
  then have "ctz_inv x (2 * 4) (ctz_line 0x000000FF 8 (ctz_line 0x0000FFFF 16 (0, x)))" by (simp add: ctz_line_inv mask_eq_exp_minus_1)
  then have "ctz_inv x (2 * 2) (ctz_line 0x0000000F 4 (ctz_line 0x000000FF 8 (ctz_line 0x0000FFFF 16 (0, x))))"
    by (simp add: ctz_line_inv mask_eq_exp_minus_1)
  then have "ctz_inv x (2 * 1) nx" unfolding nx_def by (simp add: ctz_line_inv mask_eq_exp_minus_1)
  then have "ctz_inv x 1 (ctz_line 0x00000001 1 nx)" by (rule ctz_line_inv) (simp_all add: mask_eq_exp_minus_1)
  moreover have "ctzsi2 x = fst (ctz_line 0x00000001 1 nx)"
    using assms unfolding ctzsi2_def Let_def nx_def [symmetric] ctz_line_def [of _ _ nx] by simp
  ultimately show ?thesis by (auto simp: ctz_inv_def)
qed

section \<open>Byte swap\<close>

lemma bswapsi2_shifts:
  "bswapsi2 x = push_bit 24 (take_bit 8 x) OR push_bit 16 (take_bit 8 (drop_bit 8 x)) OR
     push_bit 8 (take_bit 8 (drop_bit 16 x)) OR drop_bit 24 x"
proof -
  have m: "0xFF = (mask 8 :: u32)" "0xFF00 = push_bit 8 (mask 8 :: u32)" "0xFF0000 = push_bit 16 (mask 8 :: u32)"
    "0xFF000000 = push_bit 24 (mask 8 :: u32)" by (simp_all add: mask_eq_exp_minus_1)
  have "x AND 0xFF = take_bit 8 x" "x AND 0xFF00 = push_bit 8 (take_bit 8 (drop_bit 8 x))"
    "x AND 0xFF0000 = push_bit 16 (take_bit 8 (drop_bit 16 x))" "x AND 0xFF000000 = push_bit 24 (drop_bit 24 x)"
    unfolding m by (rule bit_word_eqI, auto simp: bit_simps dest: bit_imp_le_length)+
  then show ?thesis unfolding bswapsi2_def
    by (simp only:) (rule bit_word_eqI, auto simp: bit_simps dest: bit_imp_le_length)
qed

lemma byte_cases:
  fixes n :: nat
  assumes "n < 32"
  obtains "n < 8" "n div 8 = 0" "n mod 8 = n" | "8 \<le> n" "n < 16" "n div 8 = 1" "n mod 8 = n - 8"
    | "16 \<le> n" "n < 24" "n div 8 = 2" "n mod 8 = n - 16" | "24 \<le> n" "n < 32" "n div 8 = 3" "n mod 8 = n - 24"
proof -
  have "n = 8 * (n div 8) + n mod 8" "n mod 8 < 8" by simp_all
  moreover have "n div 8 = 0 \<or> n div 8 = 1 \<or> n div 8 = 2 \<or> n div 8 = 3" using assms by linarith
  ultimately show ?thesis using that by (elim disjE) (simp_all add: add_diff_cancel_left')
qed

lemma bit_bswapsi2: "bit (bswapsi2 x) n \<longleftrightarrow> n < 32 \<and> bit x (8 * (3 - n div 8) + n mod 8)"
proof (cases "n < 32")
  case True
  then show ?thesis
    by (cases rule: byte_cases) (auto simp: bswapsi2_shifts bit_simps dest: bit_imp_le_length)
next
  case False
  then show ?thesis using bit_imp_le_length [of "bswapsi2 x" n] by auto
qed

lemma byte_swap_index: "n < 32 \<Longrightarrow> 8 * (3 - n div 8) + n mod 8 < (32 :: nat)"
  using mod_less_divisor [of 8 n] by linarith

lemma bswapsi2_inverse: "bswapsi2 (bswapsi2 x) = x"
  by (rule bit_word_eqI) (simp add: bit_bswapsi2 byte_swap_index)

lemma bswapdi2_inverse: "bswapdi2 (bswapdi2 x) = x"
proof -
  define l h where "l = (ucast x :: u32)" and "h = (ucast (drop_bit 32 x) :: u32)"
  have parts: "ucast (push_bit 32 (ucast a) OR ucast b :: u64) = b"
    "ucast (drop_bit 32 (push_bit 32 (ucast a) OR ucast b :: u64)) = a" for a b :: u32
    by (rule bit_word_eqI, auto simp: bit_simps dest: bit_imp_le_length)+
  have "bswapdi2 (bswapdi2 x) = push_bit 32 (ucast h) OR ucast l"
    by (simp only: bswapdi2_def Let_def parts bswapsi2_inverse l_def [symmetric] h_def [symmetric])
  also have "\<dots> = x"
    unfolding l_def h_def by (rule bit_word_eqI) (auto simp: bit_simps dest: bit_imp_le_length)
  finally show ?thesis .
qed

end
