(* ===== verification/Malloc.thy ===== *)
theory Malloc
  imports Prelude
begin

text \<open>
  The allocator of the C library: \<^verbatim>\<open>malloc\<close>, \<^verbatim>\<open>free\<close>, \<^verbatim>\<open>calloc\<close> and \<^verbatim>\<open>realloc\<close> of
  \<^verbatim>\<open>meuos-libc/src/stdlib/malloc.c\<close> over \<^verbatim>\<open>sbrk\<close> of \<^verbatim>\<open>syscall/brk.c\<close>, with \<^verbatim>\<open>memset\<close> and \<^verbatim>\<open>memcpy\<close> of
  \<^verbatim>\<open>string/memory.c\<close>. The kernel is a parameter: \<open>grant cur req\<close> says whether the system call moves the
  break from \<open>cur\<close> to \<open>req\<close>; on refusal it returns the current break, as documented. The chain of
  headers is the list of the blocks, most recent first, so the \<^verbatim>\<open>next\<close> pointer of a block is the tail.
  The operations run one after the other: the lock is not part of the state.
\<close>

section \<open>Memory and the program break\<close>

type_synonym memory = "u64 \<Rightarrow> u8"

fun mem_copy :: "memory \<Rightarrow> u64 \<Rightarrow> u64 \<Rightarrow> nat \<Rightarrow> memory" where
  "mem_copy m out inp 0 = m"
| "mem_copy m out inp (Suc count) = mem_copy (m(out := m inp)) (out + 1) (inp + 1) count"

fun mem_set :: "memory \<Rightarrow> u64 \<Rightarrow> u8 \<Rightarrow> nat \<Rightarrow> memory" where
  "mem_set m out val 0 = m"
| "mem_set m out val (Suc count) = mem_set (m(out := val)) (out + 1) val count"

definition SIZE_MAX :: u64 where
  "SIZE_MAX = - 1"

definition LONG_MAX :: u64 where
  "LONG_MAX = drop_bit 1 (- 1)"

definition ENOMEM :: int where
  "ENOMEM = 12"

record allocation =
  blk_addr :: u64
  blk_size :: u64
  blk_available :: bool

record heap =
  allocation_head :: "allocation list"
  prog_brk :: u64
  heap_mem :: memory
  heap_errno :: int

definition sys_brk :: "(u64 \<Rightarrow> u64 \<Rightarrow> bool) \<Rightarrow> u64 \<Rightarrow> u64 \<Rightarrow> u64" where
  "sys_brk grant cur req = (if req \<noteq> 0 \<and> grant cur req then req else cur)"

text \<open>The increment is a signed \<^verbatim>\<open>intptr_t\<close>.\<close>

definition sbrk :: "(u64 \<Rightarrow> u64 \<Rightarrow> bool) \<Rightarrow> u64 \<Rightarrow> heap \<Rightarrow> u64 \<times> heap" where
  "sbrk grant inc h =
     (let previous = sys_brk grant (prog_brk h) 0 in
      if inc = 0 then (previous, h)
      else if (0 <s inc \<and> LONG_MAX - inc <s previous) \<or> (inc <s 0 \<and> previous <s - LONG_MAX - 1 - inc)
      then (- 1, h\<lparr>heap_errno := ENOMEM\<rparr>)
      else
        let requested = previous + inc; res = sys_brk grant (prog_brk h) requested; h = h\<lparr>prog_brk := res\<rparr>
        in if res \<noteq> requested then (- 1, h\<lparr>heap_errno := ENOMEM\<rparr>) else (previous, h))"

section \<open>The allocator\<close>

definition HEADER :: u64 where
  "HEADER = 32"

definition aligned_size :: "u64 \<Rightarrow> u64" where
  "aligned_size n =
     (let n = (if n = 0 then 1 else n) in
      if n > SIZE_MAX - (16 - 1) then 0 else (n + 16 - 1) AND NOT (16 - 1))"

fun find_available :: "allocation list \<Rightarrow> u64 \<Rightarrow> allocation option" where
  "find_available [] n = None"
| "find_available (b # bs) n = (if blk_available b \<and> blk_size b \<ge> n then Some b else find_available bs n)"

text \<open>A write to the header at address \<open>a\<close>.\<close>

definition set_available :: "bool \<Rightarrow> u64 \<Rightarrow> allocation list \<Rightarrow> allocation list" where
  "set_available v a bs = map (\<lambda>b. if blk_addr b = a then b\<lparr>blk_available := v\<rparr> else b) bs"

definition malloc :: "(u64 \<Rightarrow> u64 \<Rightarrow> bool) \<Rightarrow> u64 \<Rightarrow> heap \<Rightarrow> u64 \<times> heap" where
  "malloc grant requested_size h =
     (let n = aligned_size requested_size in
      if n = 0 \<or> n > SIZE_MAX - HEADER then (0, h)
      else case find_available (allocation_head h) n of
        Some b \<Rightarrow> (blk_addr b + HEADER, h\<lparr>allocation_head := set_available False (blk_addr b) (allocation_head h)\<rparr>)
      | None \<Rightarrow>
          (case sbrk grant (HEADER + n) h of (block, h) \<Rightarrow>
             if block = - 1 then (0, h)
             else (block + HEADER,
               h\<lparr>allocation_head := \<lparr>blk_addr = block, blk_size = n, blk_available = False\<rparr> # allocation_head h\<rparr>)))"

text \<open>
  The header of a pointer. A pointer that no block has is outside C: the operations give None for it.
\<close>

definition header_of :: "u64 \<Rightarrow> heap \<Rightarrow> allocation option" where
  "header_of p h = List.find (\<lambda>b. blk_addr b = p - HEADER) (allocation_head h)"

definition free :: "u64 \<Rightarrow> heap \<Rightarrow> heap option" where
  "free p h =
     (if p = 0 then Some h
      else case header_of p h of
        None \<Rightarrow> None
      | Some b \<Rightarrow> Some (h\<lparr>allocation_head := set_available True (blk_addr b) (allocation_head h)\<rparr>))"

definition calloc :: "(u64 \<Rightarrow> u64 \<Rightarrow> bool) \<Rightarrow> u64 \<Rightarrow> u64 \<Rightarrow> heap \<Rightarrow> u64 \<times> heap" where
  "calloc grant count n h =
     (if n \<noteq> 0 \<and> count > SIZE_MAX div n then (0, h)
      else case malloc grant (count * n) h of (p, h) \<Rightarrow>
        if p \<noteq> 0 then (p, h\<lparr>heap_mem := mem_set (heap_mem h) p 0 (unat (count * n))\<rparr>) else (p, h))"

definition realloc :: "(u64 \<Rightarrow> u64 \<Rightarrow> bool) \<Rightarrow> u64 \<Rightarrow> u64 \<Rightarrow> heap \<Rightarrow> (u64 \<times> heap) option" where
  "realloc grant p n h =
     (if p = 0 then Some (malloc grant n h)
      else if n = 0 then map_option (\<lambda>h. (0, h)) (free p h)
      else case header_of p h of
        None \<Rightarrow> None
      | Some b \<Rightarrow>
          let old_size = blk_size b in
          if n \<le> old_size then Some (p, h)
          else case malloc grant n h of (replacement, h) \<Rightarrow>
            if replacement = 0 then Some (0, h)
            else Some (replacement,
              h\<lparr>heap_mem := mem_copy (heap_mem h) replacement p (unat old_size),
                allocation_head := set_available True (blk_addr b) (allocation_head h)\<rparr>))"

section \<open>The invariant\<close>

text \<open>The blocks lie below the break, most recent highest, with their headers and aligned.\<close>

fun chain_ok :: "nat \<Rightarrow> allocation list \<Rightarrow> bool" where
  "chain_ok lim [] = True"
| "chain_ok lim (b # bs) =
     (unat (blk_addr b) + 32 + unat (blk_size b) \<le> lim \<and> 16 dvd unat (blk_addr b) \<and> 16 dvd unat (blk_size b) \<and>
      0 < unat (blk_addr b) \<and> 0 < unat (blk_size b) \<and> chain_ok (unat (blk_addr b)) bs)"

definition heap_ok :: "heap \<Rightarrow> bool" where
  "heap_ok h \<longleftrightarrow> chain_ok (unat (prog_brk h)) (allocation_head h) \<and> 16 dvd unat (prog_brk h) \<and> 0 < unat (prog_brk h) \<and> unat (prog_brk h) < 2 ^ 63"

lemma chain_ok_mono: "chain_ok lim bs \<Longrightarrow> lim \<le> lim' \<Longrightarrow> chain_ok lim' bs"
  by (cases bs) auto

lemma chain_ok_set_available [simp]: "chain_ok lim (set_available v a bs) = chain_ok lim bs"
  by (induction bs arbitrary: lim) (simp_all add: set_available_def)

lemma chain_ok_mem:
  "chain_ok lim bs \<Longrightarrow> b \<in> set bs \<Longrightarrow>
     unat (blk_addr b) + 32 + unat (blk_size b) \<le> lim \<and> 16 dvd unat (blk_addr b) \<and> 16 dvd unat (blk_size b) \<and>
     0 < unat (blk_addr b) \<and> 0 < unat (blk_size b)"
  by (induction bs arbitrary: lim) fastforce+

lemma chain_ok_disjoint:
  "chain_ok lim bs \<Longrightarrow> b \<in> set bs \<Longrightarrow> c \<in> set bs \<Longrightarrow> b \<noteq> c \<Longrightarrow>
     unat (blk_addr b) + 32 + unat (blk_size b) \<le> unat (blk_addr c) \<or> unat (blk_addr c) + 32 + unat (blk_size c) \<le> unat (blk_addr b)"
proof (induction bs arbitrary: lim)
  case (Cons x bs)
  then show ?case using chain_ok_mem [of "unat (blk_addr x)" bs] by auto
qed simp

lemma chain_ok_addr_inj: "chain_ok lim bs \<Longrightarrow> b \<in> set bs \<Longrightarrow> c \<in> set bs \<Longrightarrow> blk_addr b = blk_addr c \<Longrightarrow> b = c"
  using chain_ok_disjoint [of lim bs b c] by fastforce

lemma find_available_mem: "find_available bs n = Some b \<Longrightarrow> b \<in> set bs \<and> blk_available b \<and> n \<le> blk_size b"
  by (induction bs) (auto split: if_splits)

lemma find_available_None: "find_available bs n = None \<longleftrightarrow> (\<forall>b \<in> set bs. \<not> (blk_available b \<and> n \<le> blk_size b))"
  by (induction bs) auto

lemma and_not_15: "unat (x AND NOT (16 - 1)) = 16 * (unat x div 16)" for x :: u64
proof -
  have "x AND NOT (mask 4) = push_bit 4 (drop_bit 4 x)" by (rule bit_word_eqI) (auto simp: bit_simps dest: bit_imp_le_length)
  moreover have "unat x div 16 < 2 ^ 60" using unsigned_less [of x] by (simp add: div_less_iff_less_mult)
  moreover have "unat (push_bit 4 (drop_bit 4 x)) = take_bit 64 (2 ^ 4 * (unat x div 2 ^ 4))"
    unfolding unsigned_push_bit_eq unat_drop by (simp add: push_bit_eq_mult mult.commute)
  moreover have "NOT (16 - 1) = NOT (mask 4 :: u64)" by (simp add: mask_eq_exp_minus_1)
  ultimately show ?thesis
    using unat_u64_lt [of x] by (simp add: take_bit_nat_eq_self)
qed

lemma aligned_size_nat:
  "unat (aligned_size n) =
     (if unat n \<le> 2 ^ 64 - 16 then 16 * ((max 1 (unat n) + 15) div 16) else 0)"
proof -
  define m where "m = (if n = 0 then 1 else n)"
  have m: "unat m = max 1 (unat n)" by (simp add: m_def unat_gt_0 Suc_le_eq max_def unat_eq_zero)
  have "m > SIZE_MAX - (16 - 1) \<longleftrightarrow> unat m > 2 ^ 64 - 16"
    by (simp add: SIZE_MAX_def word_less_nat_alt)
  moreover have "unat (m + 16 - 1) = unat m + 15" if "unat m \<le> 2 ^ 64 - 16"
    using that by (simp add: unat_word_ariths)
  ultimately show ?thesis
    using and_not_15 [of "m + 16 - 1"] by (auto simp: aligned_size_def Let_def m simp flip: m_def)
qed

lemma sless_small: "unat x < 2 ^ 63 \<Longrightarrow> unat y < 2 ^ 63 \<Longrightarrow> x <s y \<longleftrightarrow> x < y" for x y :: u64
  by (simp only: word_sless_alt sint_small word_less_nat_alt of_nat_less_iff)

lemma unat_LONG_MAX: "unat LONG_MAX = 2 ^ 63 - 1"
  by (simp add: LONG_MAX_def mask_eq_exp_minus_1)

lemma sbrk_grows:
  assumes "sbrk grant inc h = (block, h')" "unat inc < 2 ^ 63" "0 < unat inc" "unat (prog_brk h) < 2 ^ 63"
  shows "(block = - 1 \<and> h' = h\<lparr>heap_errno := ENOMEM\<rparr>) \<or>
    (block = prog_brk h \<and> h' = h\<lparr>prog_brk := prog_brk h + inc\<rparr> \<and>
     unat (prog_brk h + inc) = unat (prog_brk h) + unat inc \<and> unat (prog_brk h) + unat inc < 2 ^ 63)"
proof -
  have inc: "0 <s inc" "\<not> inc <s 0" "inc \<noteq> 0"
    using assms(2,3) sint_small [OF assms(2)] by (auto simp: word_sless_alt unat_gt_0 word_less_nat_alt uint_nat simp del: of_nat_unat)
  have max: "unat (LONG_MAX - inc) = 2 ^ 63 - 1 - unat inc"
    using assms(2) unat_sub [of inc LONG_MAX] by (simp add: word_le_nat_alt unat_LONG_MAX)
  then have gt: "LONG_MAX - inc <s prog_brk h \<longleftrightarrow> 2 ^ 63 - 1 - unat inc < unat (prog_brk h)"
    using assms(4) by (subst sless_small) (simp_all add: word_less_nat_alt)
  show ?thesis
  proof (cases "2 ^ 63 - 1 - unat inc < unat (prog_brk h)")
    case True
    then show ?thesis using assms(1) inc gt by (simp add: sbrk_def sys_brk_def Let_def)
  next
    case False
    then have fits: "unat (prog_brk h) + unat inc < 2 ^ 63" using assms(2) by simp
    then have "unat (prog_brk h + inc) = unat (prog_brk h) + unat inc" by (simp add: unat_word_ariths)
    then show ?thesis
      using assms(1) inc gt False fits by (auto simp: sbrk_def sys_brk_def Let_def split: if_splits)
  qed
qed

lemma malloc_cases:
  assumes "malloc grant n h = (p, h')" "heap_ok h" "unat n < 2 ^ 63 - 64"
  obtains (fail) e where "p = 0" "h' = h\<lparr>heap_errno := e\<rparr>"
    "\<forall>b \<in> set (allocation_head h). \<not> (blk_available b \<and> aligned_size n \<le> blk_size b)"
  | (reuse) b where "b \<in> set (allocation_head h)" "blk_available b" "aligned_size n \<le> blk_size b" "p = blk_addr b + 32"
      "h' = h\<lparr>allocation_head := set_available False (blk_addr b) (allocation_head h)\<rparr>"
  | (grow) "p = prog_brk h + 32" "unat (prog_brk h + (32 + aligned_size n)) = unat (prog_brk h) + 32 + unat (aligned_size n)"
      "unat (prog_brk h) + 32 + unat (aligned_size n) < 2 ^ 63"
      "h' = h\<lparr>prog_brk := prog_brk h + (32 + aligned_size n),
        allocation_head := \<lparr>blk_addr = prog_brk h, blk_size = aligned_size n, blk_available = False\<rparr> # allocation_head h\<rparr>"
proof -
  define k where "k = aligned_size n"
  have k: "unat k = 16 * ((max 1 (unat n) + 15) div 16)" using assms(3) by (simp add: k_def aligned_size_nat)
  then have k2: "unat k < 2 ^ 63 - 32" "0 < unat k" using assms(3) by simp_all
  have not_err: "\<not> (k = 0 \<or> k > SIZE_MAX - HEADER)"
    using k2 by (auto simp: SIZE_MAX_def HEADER_def word_less_nat_alt)
  have inc: "unat (32 + k) = 32 + unat k" using k2 by (simp add: unat_word_ariths)
  show ?thesis
  proof (cases "find_available (allocation_head h) k")
    case (Some b)
    then show ?thesis
      using assms(1) not_err find_available_mem [OF Some] reuse [of b] by (simp add: malloc_def Let_def HEADER_def flip: k_def)
  next
    case None
    obtain block h1 where s: "sbrk grant (32 + k) h = (block, h1)" by force
    have "unat (prog_brk h) < 2 ^ 63" using assms(2) by (simp add: heap_ok_def)
    from sbrk_grows [OF s _ _ this] inc k2 consider "block = - 1" "h1 = h\<lparr>heap_errno := ENOMEM\<rparr>"
      | "block = prog_brk h" "h1 = h\<lparr>prog_brk := prog_brk h + (32 + k)\<rparr>"
        "unat (prog_brk h + (32 + k)) = unat (prog_brk h) + unat (32 + k)" "unat (prog_brk h) + unat (32 + k) < 2 ^ 63"
      by fastforce
    then show ?thesis
    proof cases
      case 1
      then show ?thesis
        using assms(1) not_err None s fail [of ENOMEM] iffD1 [OF find_available_None None]
        by (simp add: malloc_def Let_def HEADER_def flip: k_def)
    next
      case 2
      have "prog_brk h \<noteq> - 1"
        using assms(2) by (auto simp: heap_ok_def unsigned_minus_1_eq_mask mask_eq_exp_minus_1)
      then show ?thesis
        using assms(1) not_err None s 2 inc grow by (simp add: malloc_def Let_def HEADER_def flip: k_def)
    qed
  qed
qed

section \<open>What the caller sees\<close>

text \<open>The abstract heap: the pointers handed out and not yet given back, with the sizes reserved for them.\<close>

definition live :: "heap \<Rightarrow> u64 \<Rightarrow> u64 option" where
  "live h p = (case header_of p h of Some b \<Rightarrow> if blk_available b then None else Some (blk_size b) | None \<Rightarrow> None)"

lemma header_of_Some: "header_of p h = Some b \<Longrightarrow> b \<in> set (allocation_head h) \<and> p = blk_addr b + 32"
  unfolding header_of_def HEADER_def find_Some_iff by auto

lemma header_of_block:
  assumes "heap_ok h" "b \<in> set (allocation_head h)"
  shows "header_of (blk_addr b + 32) h = Some b"
proof -
  have "header_of (blk_addr b + 32) h \<noteq> None" using assms(2) unfolding header_of_def HEADER_def find_None_iff by auto
  then obtain c where c: "header_of (blk_addr b + 32) h = Some c" by blast
  then show ?thesis using header_of_Some [OF c] assms chain_ok_addr_inj [of _ "allocation_head h" b c] by (auto simp: heap_ok_def)
qed

lemma live_iff:
  assumes "heap_ok h"
  shows "live h p = Some s \<longleftrightarrow> (\<exists>b \<in> set (allocation_head h). \<not> blk_available b \<and> p = blk_addr b + 32 \<and> s = blk_size b)"
proof
  assume "live h p = Some s"
  then show "\<exists>b \<in> set (allocation_head h). \<not> blk_available b \<and> p = blk_addr b + 32 \<and> s = blk_size b"
    using header_of_Some [of p h] by (auto simp: live_def split: option.splits if_splits)
qed (auto simp: live_def header_of_block [OF assms])

lemma heap_ok_updates [simp]:
  "heap_ok (h\<lparr>heap_mem := m\<rparr>) = heap_ok h" "heap_ok (h\<lparr>heap_errno := e\<rparr>) = heap_ok h"
  "heap_ok (h\<lparr>allocation_head := set_available v a (allocation_head h)\<rparr>) = heap_ok h"
  "live (h\<lparr>heap_mem := m\<rparr>) = live h" "live (h\<lparr>heap_errno := e\<rparr>) = live h"
  by (simp_all add: heap_ok_def live_def header_of_def fun_eq_iff)

lemma map_eqI:
  assumes "\<And>p s. f p = Some s \<longleftrightarrow> g p = Some s"
  shows "f = g"
proof
  fix x
  show "f x = g x" using assms [of x "the (f x)"] assms [of x "the (g x)"] by (cases "f x"; cases "g x") auto
qed

lemma live_set_available:
  assumes "heap_ok h" "b \<in> set (allocation_head h)"
  shows "live (h\<lparr>allocation_head := set_available v (blk_addr b) (allocation_head h)\<rparr>) =
    (live h)(blk_addr b + 32 := if v then None else Some (blk_size b))" (is "live ?h = ?m")
proof -
  have ok: "heap_ok ?h" using assms(1) by simp
  have "live ?h p = Some s \<longleftrightarrow> ?m p = Some s" for p s
  proof (cases "p = blk_addr b + 32")
    case True
    have "b\<lparr>blk_available := v\<rparr> \<in> set (allocation_head ?h)"
      using assms(2) by (auto simp: set_available_def image_iff intro!: bexI [of _ b])
    from header_of_block [OF ok this] show ?thesis using True by (simp add: live_def)
  next
    case False
    then show ?thesis
      unfolding live_iff [OF ok] by (auto simp: live_iff [OF assms(1)] set_available_def)
  qed
  then show ?thesis by (rule map_eqI)
qed

lemma live_grow:
  assumes "heap_ok h" "blk_addr b + 32 \<notin> dom (live h)"
    "heap_ok (h\<lparr>prog_brk := t, allocation_head := b # allocation_head h\<rparr>)" "\<not> blk_available b"
  shows "live (h\<lparr>prog_brk := t, allocation_head := b # allocation_head h\<rparr>) = (live h)(blk_addr b + 32 \<mapsto> blk_size b)"
    (is "live ?h = ?m")
proof -
  have "live ?h p = Some s \<longleftrightarrow> ?m p = Some s" for p s
    using assms(2,4) by (auto simp: live_iff [OF assms(3)] live_iff [OF assms(1)] domIff)
  then show ?thesis by (rule map_eqI)
qed

lemma aligned_size_small:
  assumes "unat n < 2 ^ 63 - 64"
  shows "16 dvd unat (aligned_size n)" "0 < unat (aligned_size n)" "n \<le> aligned_size n"
  using assms by (simp_all add: aligned_size_nat word_le_nat_alt)

lemma live_below:
  assumes "heap_ok h" "live h p = Some s"
  shows "unat p + unat s \<le> unat (prog_brk h)" "16 dvd unat p" "48 \<le> unat p" "0 < unat s"
proof -
  obtain b where b: "b \<in> set (allocation_head h)" "p = blk_addr b + 32" "s = blk_size b"
    using assms live_iff by blast
  then have ok: "unat (blk_addr b) + 32 + unat (blk_size b) \<le> unat (prog_brk h)" "16 dvd unat (blk_addr b)"
    "0 < unat (blk_addr b)" "0 < unat (blk_size b)"
    using assms(1) chain_ok_mem [of "unat (prog_brk h)" "allocation_head h" b] by (simp_all add: heap_ok_def)
  have p: "unat p = unat (blk_addr b) + 32"
    using ok(1) unat_u64_lt [of "prog_brk h"] by (simp add: b unat_word_ariths)
  show "unat p + unat s \<le> unat (prog_brk h)" "16 dvd unat p" "48 \<le> unat p" "0 < unat s"
    using ok p dvd_imp_le [of 16 "unat (blk_addr b)"] by (simp_all add: b(3))
qed

lemma live_disjoint:
  assumes "heap_ok h" "live h p = Some s" "live h q = Some t" "p \<noteq> q"
  shows "unat p + unat s \<le> unat q \<or> unat q + unat t \<le> unat p"
proof -
  obtain b c where bc: "b \<in> set (allocation_head h)" "p = blk_addr b + 32" "s = blk_size b"
      "c \<in> set (allocation_head h)" "q = blk_addr c + 32" "t = blk_size c"
    using assms(1-3) live_iff by blast
  have "unat (blk_addr b) + 32 \<le> unat (prog_brk h)" "unat (blk_addr c) + 32 \<le> unat (prog_brk h)"
    using assms(1) bc chain_ok_mem [of _ "allocation_head h"] by (fastforce simp: heap_ok_def)+
  then have "unat p = unat (blk_addr b) + 32" "unat q = unat (blk_addr c) + 32"
    using unat_u64_lt [of "prog_brk h"] by (simp_all add: bc unat_word_ariths)
  moreover have "b \<noteq> c" using assms(4) bc by auto
  ultimately show ?thesis
    using chain_ok_disjoint [of "unat (prog_brk h)" "allocation_head h" b c] assms(1,4) bc by (auto simp: heap_ok_def)
qed

lemma malloc_spec:
  assumes "malloc grant n h = (p, h')" "heap_ok h" "unat n < 2 ^ 63 - 64"
  shows "heap_ok h' \<and> heap_mem h' = heap_mem h \<and>
    (if p = 0 then live h' = live h \<and> allocation_head h' = allocation_head h
     else live h p = None \<and> (\<exists>s. n \<le> s \<and> live h' = (live h)(p \<mapsto> s)))"
  using assms
proof (cases rule: malloc_cases)
  case (fail e)
  then show ?thesis using assms(2) by simp
next
  case (reuse b)
  have "live h p = None" using reuse assms(2) by (simp add: live_def header_of_block)
  moreover have "live h' = (live h)(p \<mapsto> blk_size b)" using reuse live_set_available [OF assms(2) reuse(1), of False] by simp
  moreover have "p \<noteq> 0" using live_below(3) [of h' p "blk_size b"] reuse assms(2) calculation by fastforce
  moreover have "n \<le> blk_size b" using reuse(3) aligned_size_small(3) [OF assms(3)] by simp
  ultimately show ?thesis using reuse(5) assms(2) by auto
next
  case grow
  let ?b = "\<lparr>blk_addr = prog_brk h, blk_size = aligned_size n, blk_available = False\<rparr>"
  have ok: "heap_ok h'"
    using assms(2) grow(2,3) aligned_size_small [OF assms(3)]
    by (simp add: heap_ok_def grow(4))
  have "live h p = None"
  proof (rule ccontr)
    assume "live h p \<noteq> None"
    then obtain s where "live h p = Some s" by blast
    then have "unat p \<le> unat (prog_brk h)" using live_below(1) [OF assms(2)] by (metis add_leD1)
    then show False using grow(1,3) by (simp add: unat_word_ariths)
  qed
  moreover have "live h' = (live h)(p \<mapsto> aligned_size n)"
    using live_grow [OF assms(2), of ?b] ok calculation by (simp add: grow domIff)
  moreover have "p \<noteq> 0" using live_below(3) [OF ok, of p "aligned_size n"] calculation by fastforce
  ultimately show ?thesis using ok aligned_size_small(3) [OF assms(3)] by (auto simp: grow(4))
qed

lemma heap_ok_malloc: "heap_ok h \<Longrightarrow> unat n < 2 ^ 63 - 64 \<Longrightarrow> heap_ok (snd (malloc grant n h))"
  using malloc_spec [of grant n h "fst (malloc grant n h)" "snd (malloc grant n h)"] by simp

lemma free_ok: "free p h = Some h' \<Longrightarrow> heap_ok h \<Longrightarrow> heap_ok h'"
  by (auto simp: free_def split: if_splits option.splits)

lemma free_spec:
  assumes "heap_ok h" "live h p = Some s"
  shows "\<exists>h'. free p h = Some h' \<and> live h' = (live h)(p := None) \<and> heap_mem h' = heap_mem h"
proof -
  obtain b where b: "b \<in> set (allocation_head h)" "p = blk_addr b + 32" using assms live_iff by blast
  moreover have "p \<noteq> 0" using live_below(3) [OF assms] by auto
  ultimately show ?thesis
    using header_of_block [OF assms(1) b(1)] live_set_available [OF assms(1) b(1), of True] by (simp add: free_def)
qed

lemma calloc_ok:
  assumes "calloc grant c n h = (p, h')" "heap_ok h" "unat c * unat n < 2 ^ 63 - 64"
  shows "heap_ok h'"
proof -
  have "unat (c * n) < 2 ^ 63 - 64" using assms(3) by (simp add: unat_word_ariths)
  moreover obtain q h1 where "malloc grant (c * n) h = (q, h1)" by force
  ultimately show ?thesis using malloc_spec [of grant "c * n" h q h1] assms(1,2) by (auto simp: calloc_def split: if_splits)
qed

lemma realloc_ok:
  assumes "realloc grant p n h = Some (q, h')" "heap_ok h" "unat n < 2 ^ 63 - 64"
  shows "heap_ok h'"
proof -
  obtain r h1 where m: "malloc grant n h = (r, h1)" by force
  have h1: "heap_ok h1" using malloc_spec [OF m assms(2,3)] by simp
  have "heap_ok (h1\<lparr>heap_mem := f, allocation_head := set_available v a (allocation_head h1)\<rparr>)" for f v a
    using h1 by (simp add: heap_ok_def)
  then show ?thesis
    using assms(1,2) h1 by (auto simp: realloc_def m Let_def free_ok split: if_splits option.splits)
qed

end
