(* ===== verification/Malloc_Safety.thy ===== *)
theory Malloc_Safety
  imports Malloc
begin

text \<open>
  What the allocator guarantees to a program: a step relation of the calls and of stores to live
  memory, the invariant of every reachable heap, the refinement to the map of live pointers, reuse of
  freed memory, the contents after \<^verbatim>\<open>realloc\<close> and \<^verbatim>\<open>calloc\<close>, and the requests that lower the break.
\<close>

section \<open>Copying and filling\<close>

definition in_region :: "u64 \<Rightarrow> nat \<Rightarrow> u64 \<Rightarrow> bool" where
  "in_region p n a \<longleftrightarrow> unat p \<le> unat a \<and> unat a < unat p + n"

lemma mem_copy_other: "\<not> in_region d n a \<Longrightarrow> unat d + n < 2 ^ 64 \<Longrightarrow> mem_copy m d s n a = m a"
proof (induction n arbitrary: m d s)
  case (Suc n)
  have "unat (d + 1) = unat d + 1" using Suc.prems(2) by (simp add: unat_word_ariths)
  then have "mem_copy (m(d := m s)) (d + 1) (s + 1) n a = (m(d := m s)) a"
    using Suc.prems by (intro Suc.IH) (auto simp: in_region_def)
  then show ?case using Suc.prems(1) by (auto simp: in_region_def)
qed simp

lemma mem_set_other: "\<not> in_region d n a \<Longrightarrow> unat d + n < 2 ^ 64 \<Longrightarrow> mem_set m d v n a = m a"
proof (induction n arbitrary: m d)
  case (Suc n)
  have "unat (d + 1) = unat d + 1" using Suc.prems(2) by (simp add: unat_word_ariths)
  then have "mem_set (m(d := v)) (d + 1) v n a = (m(d := v)) a"
    using Suc.prems by (intro Suc.IH) (auto simp: in_region_def)
  then show ?case using Suc.prems(1) by (auto simp: in_region_def)
qed simp

lemma mem_copy_val:
  assumes "i < n" "unat d + n < 2 ^ 64" "unat s + n < 2 ^ 64" "unat d + n \<le> unat s \<or> unat s + n \<le> unat d"
  shows "mem_copy m d s n (d + word_of_nat i) = m (s + word_of_nat i)"
  using assms
proof (induction n arbitrary: m d s i)
  case (Suc n)
  have d: "unat (d + 1) = unat d + 1" "unat (s + 1) = unat s + 1" "unat (1 + d) = unat d + 1" "unat (1 + s) = unat s + 1"
    using Suc.prems by (simp_all add: unat_word_ariths)
  show ?case
  proof (cases i)
    case 0
    have "\<not> in_region (d + 1) n d" by (simp add: in_region_def d)
    then show ?thesis using 0 Suc.prems mem_copy_other [of "d + 1" n d] by (simp add: d)
  next
    case (Suc j)
    have "unat (s + word_of_nat i) = unat s + i" using Suc.prems by (simp add: unat_word_ariths unat_of_nat)
    then have "s + word_of_nat i \<noteq> d" using Suc.prems Suc by auto
    have "mem_copy (m(d := m s)) (d + 1) (s + 1) n (d + 1 + word_of_nat j) = (m(d := m s)) (s + 1 + word_of_nat j)"
      using Suc.prems Suc d by (intro Suc.IH) auto
    then show ?thesis using \<open>s + word_of_nat i \<noteq> d\<close> Suc by (simp add: add.assoc)
  qed
qed simp

lemma mem_set_val:
  assumes "i < n" "unat d + n < 2 ^ 64"
  shows "mem_set m d v n (d + word_of_nat i) = v"
  using assms
proof (induction n arbitrary: m d i)
  case (Suc n)
  have d: "unat (d + 1) = unat d + 1" "unat (1 + d) = unat d + 1" using Suc.prems by (simp_all add: unat_word_ariths)
  show ?case
  proof (cases i)
    case 0
    have "\<not> in_region (d + 1) n d" by (simp add: in_region_def d)
    then show ?thesis using 0 Suc.prems mem_set_other [of "d + 1" n d] by (simp add: d)
  next
    case (Suc j)
    have "mem_set (m(d := v)) (d + 1) v n (d + 1 + word_of_nat j) = v"
      using Suc.prems Suc d by (intro Suc.IH) auto
    then show ?thesis using Suc by (simp add: add.assoc)
  qed
qed simp

section \<open>Programs that use the heap\<close>

inductive heap_step :: "(u64 \<Rightarrow> u64 \<Rightarrow> bool) \<Rightarrow> nat \<Rightarrow> heap \<Rightarrow> heap \<Rightarrow> bool" for grant lim where
  step_malloc: "unat n < lim \<Longrightarrow> malloc grant n h = (p, h') \<Longrightarrow> heap_step grant lim h h'"
| step_free: "free p h = Some h' \<Longrightarrow> heap_step grant lim h h'"
| step_calloc: "unat c * unat n < lim \<Longrightarrow> calloc grant c n h = (p, h') \<Longrightarrow> heap_step grant lim h h'"
| step_realloc: "unat n < lim \<Longrightarrow> realloc grant p n h = Some (q, h') \<Longrightarrow> heap_step grant lim h h'"
| step_store: "live h p = Some s \<Longrightarrow> i < unat s \<Longrightarrow> h' = h\<lparr>heap_mem := (heap_mem h)(p + word_of_nat i := v)\<rparr> \<Longrightarrow>
    heap_step grant lim h h'"

definition heap_init :: "u64 \<Rightarrow> memory \<Rightarrow> heap" where
  "heap_init b m = \<lparr>allocation_head = [], prog_brk = b, heap_mem = m, heap_errno = 0\<rparr>"

inductive_cases heap_stepE: "heap_step grant lim h h'"

abbreviation heap_run :: "(u64 \<Rightarrow> u64 \<Rightarrow> bool) \<Rightarrow> nat \<Rightarrow> heap \<Rightarrow> heap \<Rightarrow> bool" where
  "heap_run grant lim \<equiv> (heap_step grant lim)\<^sup>*\<^sup>*"

lemma heap_run_ok: "heap_run grant lim h h' \<Longrightarrow> lim \<le> 2 ^ 63 - 64 \<Longrightarrow> heap_ok h \<Longrightarrow> heap_ok h'"
proof (induction rule: rtranclp_induct)
  case (step h1 h2)
  then have h1: "heap_ok h1" and lim: "lim \<le> 2 ^ 63 - 64" by simp_all
  show ?case
    using step.hyps(2)
  proof cases
    case (step_malloc n p)
    then show ?thesis using malloc_spec [of grant n h1 p h2] h1 lim by simp
  next
    case (step_calloc c n p)
    then show ?thesis using calloc_ok h1 lim by (metis order_less_le_trans)
  next
    case (step_realloc n p q)
    then show ?thesis using realloc_ok h1 lim by (metis order_less_le_trans)
  qed (auto intro: free_ok simp: h1)
qed



text \<open>
  C13. \<^verbatim>\<open>malloc\<close> implements the map from live pointers to their sizes: it returns a null pointer and
  changes nothing, or adds one pointer that was not live with at least the size asked for. The
  contents of memory are not touched. This holds in every heap that satisfies the invariant of the
  reachable heaps, for sizes below \<open>2^63 - 64\<close>.
\<close>

theorem malloc_refines:
  assumes "malloc grant n h = (p, h')" "heap_ok h" "unat n < 2 ^ 63 - 64"
  shows "heap_ok h' \<and> heap_mem h' = heap_mem h \<and>
    (p = 0 \<and> live h' = live h \<or> p \<noteq> 0 \<and> live h p = None \<and> (\<exists>s. n \<le> s \<and> live h' = (live h)(p \<mapsto> s)))"
  using malloc_spec [OF assms] by (auto split: if_splits)

lemma malloc_refines_witness:
  "\<exists>p h'. malloc (\<lambda>_ _. True) 5 (heap_init 4096 (\<lambda>_. 0)) = (p, h') \<and> heap_ok h' \<and> heap_mem h' = (\<lambda>_. 0)"
  using malloc_refines [of "\<lambda>_ _. True" 5 "heap_init 4096 (\<lambda>_. 0)"]
  by (cases "malloc (\<lambda>_ _. True) 5 (heap_init 4096 (\<lambda>_. 0))") (simp add: heap_ok_def heap_init_def)

text \<open>
  C15. Freed memory can be had again: after \<^verbatim>\<open>free\<close> of a pointer, a request below \<open>2^63 - 64\<close> bytes that fits
  its size succeeds even if the kernel gives no more memory.
\<close>

theorem malloc_reuses:
  assumes "heap_ok h" "live h p = Some s" "unat n < 2 ^ 63 - 64" "aligned_size n \<le> s"
  shows "\<exists>h1 q h2. free p h = Some h1 \<and> malloc grant n h1 = (q, h2) \<and> q \<noteq> 0"
proof -
  obtain b where b: "b \<in> set (allocation_head h)" "p = blk_addr b + 32" "s = blk_size b" using assms live_iff by blast
  have "p \<noteq> 0" using live_below(3) [OF assms(1,2)] by auto
  then have f: "free p h = Some (h\<lparr>allocation_head := set_available True (blk_addr b) (allocation_head h)\<rparr>)" (is "_ = Some ?h1")
    using header_of_block [OF assms(1) b(1)] by (simp add: free_def b(2))
  obtain q h2 where m: "malloc grant n ?h1 = (q, h2)" by force
  have mem: "b\<lparr>blk_available := True\<rparr> \<in> set (allocation_head ?h1)"
    using b(1) by (auto simp: set_available_def image_iff intro!: bexI [of _ b])
  have "heap_ok ?h1" using assms(1) by simp
  with m have "q \<noteq> 0"
    using assms(3)
  proof (cases rule: malloc_cases)
    case (fail e)
    then show ?thesis using mem assms(4) b(3) by fastforce
  next
    case (reuse c)
    have "unat (blk_addr c) + 32 \<le> unat (prog_brk h)"
      using reuse(1) chain_ok_mem [of "unat (prog_brk h)" "allocation_head ?h1" c] assms(1) by (simp add: heap_ok_def)
    then have "unat (blk_addr c + 32) = unat (blk_addr c) + 32"
      using unat_u64_lt [of "prog_brk h"] by (simp add: unat_word_ariths)
    then show ?thesis using reuse(4) by auto
  next
    case grow
    then have "unat q = unat (prog_brk h) + 32" by (simp add: unat_word_ariths)
    then show ?thesis by auto
  qed
  then show ?thesis using f m by blast
qed

lemma heap_ok_init: "16 dvd unat b \<Longrightarrow> 0 < unat b \<Longrightarrow> unat b < 2 ^ 63 \<Longrightarrow> heap_ok (heap_init b m)"
  by (simp add: heap_ok_def heap_init_def)

lemma malloc_reuses_witness:
  "\<exists>h h1 q h2. live h 0x10020 = Some 112 \<and> free 0x10020 h = Some h1 \<and> malloc (\<lambda>_ _. False) 90 h1 = (q, h2) \<and> q \<noteq> 0"
proof -
  let ?h = "snd (malloc (\<lambda>_ _. True) 100 (heap_init 0x10000 (\<lambda>_. 0)))"
  have "heap_ok ?h" by (intro heap_ok_malloc heap_ok_init) simp_all
  moreover have "live ?h 0x10020 = Some 112" unfolding heap_init_def by code_simp
  moreover have "aligned_size 90 \<le> 112" by code_simp
  ultimately show ?thesis using malloc_reuses [where h = ?h and p = "0x10020" and s = 112 and n = 90 and grant = "\<lambda>_ _. False"] by auto
qed

lemma live_addr:
  assumes "heap_ok h" "live h p = Some s" "i < unat s"
  shows "unat (p + word_of_nat i) = unat p + i" "unat p + unat s < 2 ^ 63"
proof -
  show "unat p + unat s < 2 ^ 63" using live_below(1) [OF assms(1,2)] assms(1) by (simp add: heap_ok_def)
  then show "unat (p + word_of_nat i) = unat p + i" using assms(3) by (simp add: unat_word_ariths unat_of_nat)
qed

lemma copy_to_fresh:
  assumes "heap_ok h" "live h q = Some t" "live h p = Some s" "p \<noteq> q" "s \<le> t"
  shows "i < unat s \<Longrightarrow> mem_copy m q p (unat s) (q + word_of_nat i) = m (p + word_of_nat i)"
    and "live h r = Some u \<Longrightarrow> r \<noteq> q \<Longrightarrow> in_region r (unat u) a \<Longrightarrow> mem_copy m q p (unat s) a = m a"
proof -
  have bounds: "unat q + unat t < 2 ^ 63" "unat p + unat s < 2 ^ 63" "unat s \<le> unat t"
    using live_below(1) [OF assms(1,2)] live_below(1) [OF assms(1,3)] assms(1,5) by (simp_all add: heap_ok_def word_le_nat_alt)
  have "unat q + unat s \<le> unat p \<or> unat p + unat s \<le> unat q"
    using live_disjoint [OF assms(1,3,2,4)] bounds(3) by auto
  then show "i < unat s \<Longrightarrow> mem_copy m q p (unat s) (q + word_of_nat i) = m (p + word_of_nat i)"
    using bounds by (intro mem_copy_val) auto
  assume "live h r = Some u" "r \<noteq> q" "in_region r (unat u) a"
  then have "\<not> in_region q (unat s) a"
    using live_disjoint [OF assms(1) _ assms(2), of r u] bounds(3) by (auto simp: in_region_def)
  then show "mem_copy m q p (unat s) a = m a" using bounds by (intro mem_copy_other) auto
qed

lemma realloc_moves:
  assumes "heap_ok h" "live h p = Some s" "s < n" "n \<noteq> 0" "malloc grant n h = (q, h1)"
  shows "realloc grant p n h = Some (if q = 0 then (0, h1) else
    (q, h1\<lparr>heap_mem := mem_copy (heap_mem h1) q p (unat s),
        allocation_head := set_available True (p - 32) (allocation_head h1)\<rparr>))"
proof -
  obtain b where b: "b \<in> set (allocation_head h)" "p = blk_addr b + 32" "s = blk_size b" using assms live_iff by blast
  have "p \<noteq> 0" using live_below(3) [OF assms(1,2)] by auto
  then show ?thesis
    using header_of_block [OF assms(1) b(1)] assms(3-5) by (simp add: realloc_def b Let_def flip: not_less)
qed

text \<open>
  C14. \<^verbatim>\<open>realloc\<close> of a live pointer moves the contents: on success the new pointer is live with at least
  the size asked for, the first bytes are those of the old block up to the smaller size, the old
  pointer is no longer live unless it is returned again, and no other live block changes. On failure
  nothing changes. The new size is not 0, which means \<^verbatim>\<open>free\<close>, and below \<open>2^63 - 64\<close>.
\<close>

theorem realloc_moves_contents:
  assumes "realloc grant p n h = Some (q, h')" "heap_ok h" "live h p = Some s" "n \<noteq> 0" "unat n < 2 ^ 63 - 64"
  shows "if q = 0 then live h' = live h \<and> heap_mem h' = heap_mem h
    else (\<exists>t. n \<le> t \<and> live h' = (live h)(p := None, q \<mapsto> t)) \<and>
      (\<forall>i. i < unat n \<and> i < unat s \<longrightarrow> heap_mem h' (q + word_of_nat i) = heap_mem h (p + word_of_nat i)) \<and>
      (\<forall>r u a. live h r = Some u \<and> r \<noteq> p \<and> in_region r (unat u) a \<longrightarrow> heap_mem h' a = heap_mem h a)"
proof (cases "n \<le> s")
  case True
  obtain b where b: "b \<in> set (allocation_head h)" "p = blk_addr b + 32" "s = blk_size b" using assms live_iff by blast
  have p: "p \<noteq> 0" using live_below(3) [OF assms(2,3)] by auto
  then have "q = p" "h' = h" using True assms(1,4) header_of_block [OF assms(2) b(1)] by (simp_all add: realloc_def b Let_def)
  then show ?thesis using True assms(3) p by (auto intro!: exI [of _ s])
next
  case False
  then have "s < n" by simp
  obtain r h1 where m: "malloc grant n h = (r, h1)" by force
  note spec = malloc_spec [OF m assms(2,5)] and moved = realloc_moves [OF assms(2,3) \<open>s < n\<close> assms(4) m]
  show ?thesis
  proof (cases "r = 0")
    case True
    then show ?thesis using spec moved assms(1) by simp
  next
    case r: False
    then obtain t where t: "live h r = None" "n \<le> t" "live h1 = (live h)(r \<mapsto> t)" "heap_ok h1" "heap_mem h1 = heap_mem h"
      using spec by auto
    have pr: "p \<noteq> r" using t(1) assms(3) by auto
    then have live1: "live h1 p = Some s" "live h1 r = Some t" using t(3) assms(3) by simp_all
    obtain b where b: "b \<in> set (allocation_head h1)" "p = blk_addr b + 32" using live1(1) t(4) live_iff by blast
    have h': "q = r" "h' = h1\<lparr>heap_mem := mem_copy (heap_mem h) r p (unat s),
        allocation_head := set_available True (p - 32) (allocation_head h1)\<rparr>"
      using moved assms(1) r t(5) by simp_all
    have "live h' = live (h1\<lparr>allocation_head := set_available True (blk_addr b) (allocation_head h1)\<rparr>)"
      by (simp add: h' b(2) live_def header_of_def fun_eq_iff)
    also have "\<dots> = (live h)(p := None, r \<mapsto> t)"
      using live_set_available [OF t(4) b(1), of True] pr by (simp add: t(3) b(2) fun_upd_twist)
    finally have "live h' = (live h)(p := None, r \<mapsto> t)" .
    moreover have "s \<le> t" using \<open>s < n\<close> t(2) by simp
    note copy = copy_to_fresh [OF t(4) live1(2,1) pr this, where m = "heap_mem h"]
    have "heap_mem h' a = heap_mem h a" if "live h v = Some u" "v \<noteq> p" "in_region v (unat u) a" for v u a
      using copy(2) [of v u a] that t(1,3) by (cases "v = r") (auto simp: h')
    ultimately show ?thesis using r t(2) copy(1) by (auto simp: h')
  qed
qed

lemma realloc_moves_contents_witness:
  "\<exists>h q h'. live h 0x10020 = Some 16 \<and> realloc (\<lambda>_ _. True) 0x10020 100 h = Some (q, h') \<and> q \<noteq> 0 \<and>
     heap_mem h (0x10020 + word_of_nat 3) = 7 \<and> heap_mem h' (q + word_of_nat 3) = 7"
proof -
  let ?h = "(snd (malloc (\<lambda>_ _. True) 10 (heap_init 0x10000 (\<lambda>_. 0))))\<lparr>heap_mem := (\<lambda>a. if a = 0x10023 then 7 else 0)\<rparr>"
  have ok: "heap_ok ?h" "live ?h 0x10020 = Some 16"
  proof -
    show "heap_ok ?h" by (simp add: heap_ok_malloc heap_ok_init)
    show "live ?h 0x10020 = Some 16" unfolding heap_init_def by code_simp
  qed
  have "map_option fst (realloc (\<lambda>_ _. True) 0x10020 100 ?h) = Some 0x10050" unfolding heap_init_def by code_simp
  then obtain q h' where r: "realloc (\<lambda>_ _. True) 0x10020 100 ?h = Some (q, h')" "q \<noteq> 0" by auto
  have "\<forall>i. i < unat (100 :: u64) \<and> i < unat (16 :: u64) \<longrightarrow>
      heap_mem h' (q + word_of_nat i) = heap_mem ?h (0x10020 + word_of_nat i)"
    using realloc_moves_contents [OF r(1) ok] r(2) by simp
  from this [rule_format, of 3] have "heap_mem h' (q + word_of_nat 3) = heap_mem ?h (0x10020 + word_of_nat 3)" by simp
  then show ?thesis using ok(2) r by (intro exI [of _ ?h] exI [of _ q] exI [of _ h']) simp
qed

text \<open>\<^verbatim>\<open>calloc\<close> gives zeroed memory; a product that does not fit 64 bits is refused.\<close>

lemma calloc_zeroed:
  assumes "calloc grant c n h = (p, h')" "heap_ok h" "unat c * unat n < 2 ^ 63 - 64" "p \<noteq> 0" "i < unat c * unat n"
  shows "heap_mem h' (p + word_of_nat i) = 0"
proof -
  have cn: "unat (c * n) = unat c * unat n" using assms(3) by (simp add: unat_word_ariths)
  obtain q h1 where m: "malloc grant (c * n) h = (q, h1)" by force
  have q: "q = p" "p \<noteq> 0" "h' = h1\<lparr>heap_mem := mem_set (heap_mem h1) p 0 (unat (c * n))\<rparr>"
    using assms(1,4) m by (auto simp: calloc_def split: if_splits)
  obtain t where t: "c * n \<le> t" "live h1 p = Some t" "heap_ok h1"
    using malloc_spec [OF m assms(2)] assms(3) q(1,2) by (auto simp: cn)
  have "unat p + unat (c * n) < 2 ^ 64" using live_below(1) [OF t(3,2)] t(1,3) by (simp add: heap_ok_def word_le_nat_alt)
  then show ?thesis using mem_set_val [of i "unat (c * n)" p "heap_mem h1" 0] assms(5) cn by (simp add: q(3))
qed

lemma calloc_overflow: "2 ^ 64 \<le> unat c * unat n \<Longrightarrow> calloc grant c n h = (0, h)"
proof -
  assume a: "2 ^ 64 \<le> unat c * unat n"
  then have n: "0 < unat n" by (cases "unat n") auto
  have "\<not> unat c \<le> (2 ^ 64 - 1) div unat n"
  proof
    assume "unat c \<le> (2 ^ 64 - 1) div unat n"
    then have "unat c * unat n \<le> (2 ^ 64 - 1) div unat n * unat n" by (rule mult_le_mono1)
    also have "\<dots> \<le> 2 ^ 64 - 1" by simp
    finally show False using a by simp
  qed
  then have "SIZE_MAX div n < c"
    by (simp add: SIZE_MAX_def word_less_nat_alt unat_div unsigned_minus_1_eq_mask mask_eq_exp_minus_1)
  then show ?thesis using n by (auto simp: calloc_def)
qed

lemma sbrk_shrinks:
  assumes "unat (prog_brk h) < 2 ^ 63" "2 ^ 63 < unat inc" "prog_brk h + inc \<noteq> 0" "grant (prog_brk h) (prog_brk h + inc)"
  shows "sbrk grant inc h = (prog_brk h, h\<lparr>prog_brk := prog_brk h + inc\<rparr>)"
proof -
  have inc: "inc <s 0" "\<not> 0 <s inc" using sint_large [of inc] assms(2) by (simp_all add: word_sless_alt)
  have "- LONG_MAX - 1 - inc = 2 ^ 63 - inc" by (simp add: LONG_MAX_def mask_eq_exp_minus_1)
  moreover have "unat (2 ^ 63 - inc) = 2 ^ 63 + 2 ^ 64 - unat inc"
    using assms(2) unat_u64_lt [of inc] by (simp add: unat_sub_if_size word_size)
  ultimately have "2 ^ 63 \<le> unat (- LONG_MAX - 1 - inc)" using unat_u64_lt [of inc] by simp
  then have "sint (- LONG_MAX - 1 - inc) < 0" by (rule sint_large)
  then have "\<not> prog_brk h <s - LONG_MAX - 1 - inc"
    unfolding word_sless_alt sint_small [OF assms(1)] by linarith
  moreover have "inc \<noteq> 0" using assms(2) by auto
  ultimately show ?thesis using inc assms(3,4) by (simp add: sbrk_def sys_brk_def Let_def)
qed

text \<open>
  A request of \<open>2^63\<close> bytes or more reaches \<^verbatim>\<open>sbrk\<close> as a negative increment. When the kernel
  lowers the break, \<^verbatim>\<open>malloc\<close> reports success: the pointer it returns lies above the new break, and
  the invariant of the heap is lost.
\<close>

theorem malloc_shrinks_break:
  assumes "heap_ok h" "2 ^ 63 \<le> unat n" "unat n \<le> 2 ^ 64 - 64"
    "2 ^ 64 < unat (prog_brk h) + 32 + unat (aligned_size n)" "grant (prog_brk h) (prog_brk h + (32 + aligned_size n))"
  shows "\<exists>h'. malloc grant n h = (prog_brk h + 32, h') \<and> unat (prog_brk h') < unat (prog_brk h) \<and>
    live h' (prog_brk h + 32) = Some (aligned_size n) \<and> \<not> heap_ok h'"
proof -
  define k where "k = aligned_size n"
  have k: "2 ^ 63 \<le> unat k" "unat k \<le> 2 ^ 64 - 64"
    using assms(2,3) by (simp_all add: k_def aligned_size_nat)
  have brk: "unat (prog_brk h) < 2 ^ 63" using assms(1) by (simp add: heap_ok_def)
  have inc: "unat (32 + k) = 32 + unat k" using k by (simp add: unat_word_ariths)
  have none: "find_available (allocation_head h) k = None"
    unfolding find_available_None
  proof (intro ballI notI)
    fix b
    assume "b \<in> set (allocation_head h)" "blk_available b \<and> k \<le> blk_size b"
    then have "2 ^ 63 \<le> unat (blk_size b)" "unat (blk_size b) \<le> unat (prog_brk h)"
      using k chain_ok_mem [of "unat (prog_brk h)" "allocation_head h" b] assms(1) by (auto simp: heap_ok_def word_le_nat_alt)
    then show False using brk by simp
  qed
  have new: "unat (prog_brk h + (32 + k)) = unat (prog_brk h) + 32 + unat k - 2 ^ 64"
    using assms(4) brk k inc by (simp add: k_def unat_word_ariths mod_if)
  let ?h = "h\<lparr>prog_brk := prog_brk h + (32 + k),
    allocation_head := \<lparr>blk_addr = prog_brk h, blk_size = k, blk_available = False\<rparr> # allocation_head h\<rparr>"
  have "prog_brk h + (32 + k) \<noteq> 0" using new assms(4) by (auto simp flip: k_def)
  then have "sbrk grant (32 + k) h = (prog_brk h, h\<lparr>prog_brk := prog_brk h + (32 + k)\<rparr>)"
    using brk inc k assms(5) by (intro sbrk_shrinks) (simp_all add: k_def)
  moreover have "\<not> (k = 0 \<or> k > SIZE_MAX - HEADER)"
    using k by (auto simp: SIZE_MAX_def HEADER_def word_less_nat_alt)
  moreover have "prog_brk h \<noteq> - 1" using brk by (auto simp: unsigned_minus_1_eq_mask mask_eq_exp_minus_1)
  ultimately have "malloc grant n h = (prog_brk h + 32, ?h)"
    using none by (simp add: malloc_def Let_def HEADER_def flip: k_def)
  moreover have "live ?h (prog_brk h + 32) = Some k" by (simp add: live_def header_of_def HEADER_def)
  moreover have "unat (prog_brk h + (32 + k)) < unat (prog_brk h)"
    using new k brk assms(1) by (simp add: heap_ok_def) linarith
  ultimately show ?thesis by (auto simp: heap_ok_def simp flip: k_def)
qed

lemma malloc_shrinks_break_witness:
  "\<exists>h'. malloc (\<lambda>_ _. True) (- 4096) (heap_init 0x10000 (\<lambda>_. 0)) = (0x10020, h') \<and> unat (prog_brk h') < 0x10000"
proof -
  let ?h = "heap_init 0x10000 (\<lambda>_. 0)"
  have "aligned_size (- 4096) = - 4096" by code_simp
  moreover have "unat (- 4096 :: u64) = 2 ^ 64 - 4096" by simp
  moreover have "prog_brk ?h = 0x10000" by (simp add: heap_init_def)
  moreover have "heap_ok ?h" by (rule heap_ok_init) simp_all
  ultimately show ?thesis using malloc_shrinks_break [of ?h "- 4096" "\<lambda>_ _. True"] by auto
qed

end
