(* ===== verification/Libc_Sort.thy ===== *)
theory Libc_Sort
  imports Prelude "HOL-Library.Multiset"
begin

text \<open>
  Sorting and searching of the C library (\<^verbatim>\<open>meuos-libc/src/stdlib/search.c\<close>): \<^verbatim>\<open>qsort\<close> moves items byte by
  byte, \<^verbatim>\<open>bsearch\<close> halves the array. An array is the list of its bytes, an item a slice of \<^verbatim>\<open>width\<close> bytes;
  the comparison function is an argument. Its laws are a locale, interpreted on the library's \<^verbatim>\<open>memcmp\<close>.
\<close>

section \<open>The code\<close>

fun swap :: "bytes \<Rightarrow> nat \<Rightarrow> nat \<Rightarrow> nat \<Rightarrow> bytes" where
  "swap m left right 0 = m"
| "swap m left right (Suc width) = swap (m[left := m ! right, right := m ! left]) (left + 1) (right + 1) width"

definition item :: "bytes \<Rightarrow> nat \<Rightarrow> nat \<Rightarrow> bytes" where
  "item m width k = take width (drop (k * width) m)"

fun qsort_inner :: "(bytes \<Rightarrow> bytes \<Rightarrow> int) \<Rightarrow> nat \<Rightarrow> nat \<Rightarrow> bytes \<Rightarrow> bytes" where
  "qsort_inner cmp width 0 m = m"
| "qsort_inner cmp width (Suc cursor) m =
     (if cmp (item m width cursor) (item m width (Suc cursor)) > 0
      then qsort_inner cmp width cursor (swap m (cursor * width) (Suc cursor * width) width)
      else m)"

definition qsort :: "bytes option \<Rightarrow> nat \<Rightarrow> nat \<Rightarrow> (bytes \<Rightarrow> bytes \<Rightarrow> int) option \<Rightarrow> bytes option" where
  "qsort base num width compare =
     (case (base, compare) of
        (Some m, Some cmp) \<Rightarrow> if width = 0 then base else Some (fold (qsort_inner cmp width) [1..<num] m)
      | _ \<Rightarrow> base)"

text \<open>The offset of the item found; \<open>items\<close> is an offset into the array.\<close>

function bsearch_loop :: "(bytes \<Rightarrow> bytes \<Rightarrow> int) \<Rightarrow> bytes \<Rightarrow> bytes \<Rightarrow> nat \<Rightarrow> nat \<Rightarrow> nat \<Rightarrow> nat option" where
  "bsearch_loop cmp key m width items num =
     (if num = 0 then None
      else
        let middle = num div 2;
            candidate = items + middle * width;
            order = cmp key (take width (drop candidate m))
        in
        if order = 0 then Some candidate
        else if order < 0 then bsearch_loop cmp key m width items middle
        else bsearch_loop cmp key m width (items + (middle + 1) * width) (num - (middle + 1)))"
  by pat_completeness auto

termination by (relation "measure (\<lambda>(cmp, key, m, width, items, num). num)") auto

declare bsearch_loop.simps [simp del]

definition bsearch :: "bytes \<Rightarrow> bytes \<Rightarrow> nat \<Rightarrow> nat \<Rightarrow> (bytes \<Rightarrow> bytes \<Rightarrow> int) \<Rightarrow> nat option" where
  "bsearch key m num width cmp = bsearch_loop cmp key m width 0 num"

fun memcmp :: "bytes \<Rightarrow> bytes \<Rightarrow> nat \<Rightarrow> int" where
  "memcmp a b 0 = 0"
| "memcmp a b (Suc num) = (if hd a \<noteq> hd b then (if hd a < hd b then - 1 else 1) else memcmp (tl a) (tl b) num)"

section \<open>Items\<close>

definition items_of :: "bytes \<Rightarrow> nat \<Rightarrow> nat \<Rightarrow> bytes list" where
  "items_of m width n = map (item m width) [0..<n]"

lemma length_items_of [simp]: "length (items_of m width n) = n"
  by (simp add: items_of_def)

lemma nth_items_of [simp]: "k < n \<Longrightarrow> items_of m width n ! k = item m width k"
  by (simp add: items_of_def)

lemma swap_length [simp]: "length (swap m l r w) = length m"
  by (induction m l r w rule: swap.induct) simp_all

lemma swap_nth:
  assumes "l + w \<le> r" "r + w \<le> length m"
  shows "swap m l r w ! i = (if l \<le> i \<and> i < l + w then m ! (i - l + r) else if r \<le> i \<and> i < r + w then m ! (i - r + l) else m ! i)"
  using assms
proof (induction m l r w arbitrary: i rule: swap.induct)
  case (2 m l r w)
  have "swap m l r (Suc w) ! i = swap (m[l := m ! r, r := m ! l]) (l + 1) (r + 1) w ! i" by simp
  also have "\<dots> = (if l + 1 \<le> i \<and> i < l + 1 + w then m[l := m ! r, r := m ! l] ! (i - (l + 1) + (r + 1))
      else if r + 1 \<le> i \<and> i < r + 1 + w then m[l := m ! r, r := m ! l] ! (i - (r + 1) + (l + 1)) else m[l := m ! r, r := m ! l] ! i)"
    using 2(2,3) by (intro 2(1)) simp_all
  also have "\<dots> = (if l \<le> i \<and> i < l + Suc w then m ! (i - l + r) else if r \<le> i \<and> i < r + Suc w then m ! (i - r + l) else m ! i)"
  proof -
    consider "i = l" | "l < i" "i < l + Suc w" | "i = r" | "r < i" "i < r + Suc w" | "i < l" | "l + Suc w \<le> i" "i < r" | "r + Suc w \<le> i"
      by linarith
    then show ?thesis using 2(2,3) by cases (auto simp: nth_list_update Suc_diff_Suc)
  qed
  finally show ?case .
qed auto

lemma swap_item:
  assumes "Suc k < n" "n * w \<le> length m"
  shows "items_of (swap m (k * w) (Suc k * w) w) w n = (items_of m w n)[k := item m w (Suc k), Suc k := item m w k]"
proof (rule nth_equalityI)
  fix j
  assume "j < length (items_of (swap m (k * w) (Suc k * w) w) w n)"
  then have j: "j < n" by simp
  have bound: "Suc i * w \<le> length m" if "i < n" for i
  proof -
    have "Suc i * w \<le> n * w" using that by (intro mult_le_mono1) simp
    then show ?thesis using assms(2) by linarith
  qed
  have len: "length (item m' w i) = w" if "i < n" "length m' = length m" for i m'
    using bound [OF that(1)] that(2) by (simp add: item_def)
  have nth: "swap m (k * w) (Suc k * w) w ! i = (if k * w \<le> i \<and> i < k * w + w then m ! (i - k * w + Suc k * w)
      else if Suc k * w \<le> i \<and> i < Suc k * w + w then m ! (i - Suc k * w + k * w) else m ! i)" for i
    using bound [OF assms(1)] by (intro swap_nth) simp_all
  have "item (swap m (k * w) (Suc k * w) w) w j ! b = (if j = k then item m w (Suc k) else if j = Suc k then item m w k else item m w j) ! b"
    if "b < w" for b
  proof -
    have idx: "j * w + b < length m" using bound [OF j] that by simp
    consider "j = k" | "j = Suc k" | "j < k" | "Suc k < j" by linarith
    then show ?thesis
    proof cases
      case 3
      then have "Suc j * w \<le> k * w" by (intro mult_le_mono1) simp
      then show ?thesis using 3 that idx nth [of "j * w + b"] by (simp add: item_def)
    next
      case 4
      then have "Suc (Suc k) * w \<le> j * w" by (intro mult_le_mono1) simp
      then show ?thesis using 4 that idx nth [of "j * w + b"] by (simp add: item_def)
    qed (use that idx nth [of "j * w + b"] assms(1) bound [of k] in \<open>simp_all add: item_def add.commute add.left_commute\<close>)
  qed
  then have "item (swap m (k * w) (Suc k * w) w) w j = (if j = k then item m w (Suc k) else if j = Suc k then item m w k else item m w j)"
    using len [OF j] len [OF j refl] assms(1) len [of k m] len [of "Suc k" m] by (intro nth_equalityI) auto
  then show "items_of (swap m (k * w) (Suc k * w) w) w n ! j = (items_of m w n)[k := item m w (Suc k), Suc k := item m w k] ! j"
    using j assms(1) by (simp add: nth_list_update)
qed simp

section \<open>Comparison functions\<close>

text \<open>Sinking an item into the sorted items before it, on lists of items.\<close>

fun sink :: "(bytes \<Rightarrow> bytes \<Rightarrow> int) \<Rightarrow> nat \<Rightarrow> bytes list \<Rightarrow> bytes list" where
  "sink cmp 0 xs = xs"
| "sink cmp (Suc k) xs =
     (if cmp (xs ! k) (xs ! Suc k) > 0 then sink cmp k (xs[k := xs ! Suc k, Suc k := xs ! k]) else xs)"

lemma length_sink [simp]: "length (sink cmp k xs) = length xs"
  by (induction cmp k xs rule: sink.induct) simp_all

lemma qsort_inner_items:
  "k < n \<Longrightarrow> n * w \<le> length m \<Longrightarrow>
     items_of (qsort_inner cmp w k m) w n = sink cmp k (items_of m w n) \<and> length (qsort_inner cmp w k m) = length m \<and>
     drop (n * w) (qsort_inner cmp w k m) = drop (n * w) m"
proof (induction cmp w k m rule: qsort_inner.induct)
  case (2 cmp w k m)
  have d: "drop (n * w) (swap m (k * w) (Suc k * w) w) = drop (n * w) m"
  proof (rule nth_equalityI)
    fix i
    assume "i < length (drop (n * w) (swap m (k * w) (Suc k * w) w))"
    moreover have "Suc (Suc k) * w \<le> n * w" using 2(2) by (intro mult_le_mono1) simp
    ultimately show "drop (n * w) (swap m (k * w) (Suc k * w) w) ! i = drop (n * w) m ! i"
      using 2(3) swap_nth [of "k * w" w "Suc k * w" m "n * w + i"] by simp
  qed simp
  show ?case
    using 2(1) 2(2,3) swap_item [OF 2(2,3)] d by simp
qed simp

locale compare_laws =
  fixes ok :: "bytes \<Rightarrow> bool" and cmp :: "bytes \<Rightarrow> bytes \<Rightarrow> int"
  assumes total: "ok a \<Longrightarrow> ok b \<Longrightarrow> 0 < cmp a b \<Longrightarrow> cmp b a \<le> 0"
    and trans: "ok a \<Longrightarrow> ok b \<Longrightarrow> ok c \<Longrightarrow> cmp a b \<le> 0 \<Longrightarrow> cmp b c \<le> 0 \<Longrightarrow> cmp a c \<le> 0"
begin

abbreviation le :: "bytes \<Rightarrow> bytes \<Rightarrow> bool" where
  "le a b \<equiv> cmp a b \<le> 0"

definition same :: "bytes \<Rightarrow> bytes \<Rightarrow> bool" where
  "same a b \<longleftrightarrow> cmp a b \<le> 0 \<and> cmp b a \<le> 0"

lemma take_Suc_snoc: "k < length xs \<Longrightarrow> take (Suc k) xs = take k xs @ [xs ! k]"
  by (rule take_Suc_conv_app_nth)

lemma sink_keeps:
  "k < length xs \<Longrightarrow> mset (sink cmp k xs) = mset xs \<and> drop (Suc k) (sink cmp k xs) = drop (Suc k) xs"
proof (induction cmp k xs rule: sink.induct)
  case (2 cmp k xs)
  then have k: "Suc k < length xs" by simp
  have sw: "mset (xs[k := xs ! Suc k, Suc k := xs ! k]) = mset xs" using k by (simp add: mset_swap)
  have "drop (Suc (Suc k)) (sink cmp k (xs[k := xs ! Suc k, Suc k := xs ! k])) = drop (Suc (Suc k)) xs"
    if IH: "drop (Suc k) (sink cmp k (xs[k := xs ! Suc k, Suc k := xs ! k])) = drop (Suc k) (xs[k := xs ! Suc k, Suc k := xs ! k])"
  proof -
    have "drop (Suc (Suc k)) (sink cmp k (xs[k := xs ! Suc k, Suc k := xs ! k])) =
        drop 1 (drop (Suc k) (sink cmp k (xs[k := xs ! Suc k, Suc k := xs ! k])))" by simp
    also have "\<dots> = drop (Suc (Suc k)) xs" unfolding IH by simp
    finally show ?thesis .
  qed
  then show ?case using 2 sw by auto
qed simp

lemma sink_sorted:
  "k < length xs \<Longrightarrow> \<forall>x \<in> set xs. ok x \<Longrightarrow> sorted_wrt le (take k xs) \<Longrightarrow> sorted_wrt le (take (Suc k) (sink cmp k xs))"
proof (induction k arbitrary: xs)
  case (Suc k)
  have k: "Suc k < length xs" using Suc.prems by simp
  have ok: "ok (xs ! i)" if "i < length xs" for i using Suc.prems that by auto
  have srt: "sorted_wrt le (take k xs)" "\<forall>x \<in> set (take k xs). le x (xs ! k)"
    using Suc.prems(1,3) by (simp_all add: take_Suc_snoc sorted_wrt_append)
  have oks: "\<forall>x \<in> set (take k xs). ok x" using Suc.prems(2) by (auto dest: in_set_takeD)
  show ?case
  proof (cases "cmp (xs ! k) (xs ! Suc k) > 0")
    case True
    let ?ys = "xs[k := xs ! Suc k, Suc k := xs ! k]"
    have oky: "\<forall>x \<in> set ?ys. ok x" using Suc.prems(2) ok k by (auto dest!: set_update_subset_insert [THEN subsetD])
    have "sorted_wrt le (take (Suc k) (sink cmp k ?ys))"
      by (rule Suc.IH) (use k oky srt(1) in simp_all)
    moreover have d: "drop (Suc k) (sink cmp k ?ys) = xs ! k # drop (Suc (Suc k)) xs"
      using sink_keeps [of k ?ys] k Cons_nth_drop_Suc [of "Suc k" ?ys] by simp
    have m: "mset (take (Suc k) (sink cmp k ?ys)) = mset (take k xs @ [xs ! Suc k])"
    proof -
      have "mset (take (Suc k) (sink cmp k ?ys)) + mset (drop (Suc k) (sink cmp k ?ys)) = mset (sink cmp k ?ys)"
        by (metis append_take_drop_id mset_append)
      also have "\<dots> = mset xs" using sink_keeps [of k ?ys] k by (simp add: mset_swap)
      also have "\<dots> = mset (take k xs @ [xs ! Suc k]) + mset (xs ! k # drop (Suc (Suc k)) xs)"
      proof -
        have "xs = take k xs @ xs ! k # xs ! Suc k # drop (Suc (Suc k)) xs" using k by (simp add: Cons_nth_drop_Suc)
        then have "mset xs = mset (take k xs @ xs ! k # xs ! Suc k # drop (Suc (Suc k)) xs)" by (rule arg_cong)
        then show ?thesis by simp
      qed
      finally show ?thesis by (simp add: d)
    qed
    have "take (Suc (Suc k)) (sink cmp k ?ys) = take (Suc k) (sink cmp k ?ys) @ [xs ! k]"
    proof -
      have "sink cmp k ?ys ! Suc k = xs ! k"
        using d k by (metis Cons_nth_drop_Suc length_list_update length_sink list.inject)
      then show ?thesis using k by (simp add: take_Suc_conv_app_nth)
    qed
    moreover have "le x (xs ! k)" if "x \<in> set (take (Suc k) (sink cmp k ?ys))" for x
    proof -
      have "x \<in> set (take k xs @ [xs ! Suc k])" using that m by (metis set_mset_mset)
      then show ?thesis using srt(2) total [OF _ _ True] ok [of k] ok [of "Suc k"] k by auto
    qed
    ultimately show ?thesis using True by (simp add: sorted_wrt_append)
  next
    case False
    then have "le x (xs ! Suc k)" if "x \<in> set (take (Suc k) xs)" for x
      using that srt(2) oks trans [of x "xs ! k" "xs ! Suc k"] ok [of k] ok [of "Suc k"] k by (auto simp: take_Suc_snoc)
    then show ?thesis using False Suc.prems(3) k by (simp add: take_Suc_snoc [of "Suc k"] sorted_wrt_append)
  qed
qed (simp add: take_Suc_snoc)

lemma filter_swap:
  assumes "Suc k < length xs" "\<not> (P (xs ! k) \<and> P (xs ! Suc k))"
  shows "filter P (xs[k := xs ! Suc k, Suc k := xs ! k]) = filter P xs"
proof -
  have "xs = take k xs @ xs ! k # xs ! Suc k # drop (Suc (Suc k)) xs"
    using assms(1) by (simp add: Cons_nth_drop_Suc)
  then obtain as a b bs where x: "xs = as @ a # b # bs" "length as = k" using assms(1) by (metis Suc_lessD length_take min.absorb2 less_imp_le)
  then have "xs[k := xs ! Suc k, Suc k := xs ! k] = as @ b # a # bs" by (simp add: list_update_append nth_append)
  then show ?thesis using assms(2) x by (auto simp: nth_append)
qed

lemma sink_stable:
  "k < length xs \<Longrightarrow> \<forall>x \<in> set xs. ok x \<Longrightarrow> ok c \<Longrightarrow> filter (same c) (sink cmp k xs) = filter (same c) xs"
proof (induction k arbitrary: xs)
  case (Suc k)
  show ?case
  proof (cases "cmp (xs ! k) (xs ! Suc k) > 0")
    case True
    let ?ys = "xs[k := xs ! Suc k, Suc k := xs ! k]"
    have k: "ok (xs ! k)" "ok (xs ! Suc k)" using Suc.prems by simp_all
    have "\<not> (same c (xs ! k) \<and> same c (xs ! Suc k))"
      using trans [OF k(1) Suc.prems(3) k(2)] True by (auto simp: same_def)
    from filter_swap [OF Suc.prems(1) this] have "filter (same c) ?ys = filter (same c) xs" .
    moreover have "\<forall>x \<in> set ?ys. ok x" using Suc.prems(2) k by (auto dest!: set_update_subset_insert [THEN subsetD])
    ultimately show ?thesis using Suc.IH [of ?ys] Suc.prems True by simp
  qed simp
qed simp

text \<open>All rounds.\<close>

lemma sort_rounds:
  assumes "\<forall>x \<in> set xs. ok x" "n \<le> length xs" "1 \<le> n"
  shows "let ys = fold (sink cmp) [1..<n] xs in
    sorted_wrt le (take n ys) \<and> mset ys = mset xs \<and> length ys = length xs \<and> (\<forall>c. ok c \<longrightarrow> filter (same c) ys = filter (same c) xs)"
  using assms(2,3)
proof (induction n)
  case (Suc n)
  show ?case
  proof (cases "n = 0")
    case True
    then show ?thesis using Suc.prems by (cases xs) simp_all
  next
    case False
    define ys where "ys = fold (sink cmp) [1..<n] xs"
    have IH: "sorted_wrt le (take n ys)" "mset ys = mset xs" "length ys = length xs" "\<forall>c. ok c \<longrightarrow> filter (same c) ys = filter (same c) xs"
      using Suc.IH Suc.prems False by (simp_all add: ys_def Let_def)
    have n: "n < length ys" using IH(3) Suc.prems by simp
    have ok: "\<forall>x \<in> set ys. ok x" using assms(1) IH(2) by (metis set_mset_mset)
    have "fold (sink cmp) [1..<Suc n] xs = sink cmp n ys" using False by (simp add: ys_def)
    then show ?thesis
      using sink_sorted [OF n ok IH(1)] sink_keeps [OF n] sink_stable [OF n ok] IH by (simp add: Let_def)
  qed
qed simp

lemma qsort_items:
  assumes "n * w \<le> length m" "\<forall>x \<in> set (items_of m w n). ok x" "w \<noteq> 0"
  shows "\<exists>m'. qsort (Some m) n w (Some cmp) = Some m' \<and> length m' = length m \<and> drop (n * w) m' = drop (n * w) m \<and>
    sorted_wrt le (items_of m' w n) \<and> mset (items_of m' w n) = mset (items_of m w n) \<and>
    (\<forall>c. ok c \<longrightarrow> filter (same c) (items_of m' w n) = filter (same c) (items_of m w n))"
proof -
  have r: "items_of (fold (qsort_inner cmp w) ks m) w n = fold (sink cmp) ks (items_of m w n) \<and>
      length (fold (qsort_inner cmp w) ks m) = length m \<and> drop (n * w) (fold (qsort_inner cmp w) ks m) = drop (n * w) m"
    if "\<forall>k \<in> set ks. k < n" for ks
    using that assms(1)
  proof (induction ks arbitrary: m)
    case (Cons k ks)
    then show ?case using qsort_inner_items [of k n w m cmp] by simp
  qed simp
  show ?thesis
  proof (cases "n = 0")
    case True
    then show ?thesis using assms(3) by (simp add: qsort_def items_of_def)
  next
    case False
    define ys where "ys = fold (sink cmp) [1..<n] (items_of m w n)"
    have n: "n \<le> length (items_of m w n)" "1 \<le> n" using False by simp_all
    have ys: "sorted_wrt le (take n ys) \<and> mset ys = mset (items_of m w n) \<and> length ys = n \<and>
        (\<forall>c. ok c \<longrightarrow> filter (same c) ys = filter (same c) (items_of m w n))"
      using sort_rounds [OF assms(2) n] unfolding ys_def Let_def length_items_of .
    have "take n ys = ys" by (rule take_all) (use ys in simp)
    then have srt: "sorted_wrt le ys" using conjunct1 [OF ys] by (simp only:)
    define m' where "m' = fold (qsort_inner cmp w) [1..<n] m"
    have m': "items_of m' w n = ys" "length m' = length m" "drop (n * w) m' = drop (n * w) m"
      using r [of "[1..<n]"] unfolding m'_def ys_def by simp_all
    have "qsort (Some m) n w (Some cmp) = Some m'" using assms(3) by (simp add: qsort_def m'_def)
    then show ?thesis using m' ys srt by simp
  qed
qed

end


text \<open>\<^verbatim>\<open>memcmp\<close> is a comparison function.\<close>

lemma memcmp_trans: "length a = w \<Longrightarrow> length b = w \<Longrightarrow> length c = w \<Longrightarrow> memcmp a b w \<le> 0 \<Longrightarrow> memcmp b c w \<le> 0 \<Longrightarrow> memcmp a c w \<le> 0"
proof (induction w arbitrary: a b c)
  case (Suc w)
  obtain x xs y ys z zs where s: "a = x # xs" "b = y # ys" "c = z # zs"
    using Suc.prems(1-3) by (cases a; cases b; cases c) auto
  consider "x < y" | "x = y" "memcmp xs ys w \<le> 0" using Suc.prems(4) by (auto simp: s split: if_splits)
  note xy = this
  consider "y < z" | "y = z" "memcmp ys zs w \<le> 0" using Suc.prems(5) by (auto simp: s split: if_splits)
  then show ?case
    using Suc.IH [of xs ys zs] Suc.prems(1-3) by cases (use xy in \<open>cases, auto simp: s\<close>)
qed simp

lemma memcmp_total: "length a = w \<Longrightarrow> length b = w \<Longrightarrow> 0 < memcmp a b w \<Longrightarrow> memcmp b a w \<le> 0"
proof (induction w arbitrary: a b)
  case (Suc w)
  then show ?case by (cases a; cases b) (auto split: if_splits)
qed simp

lemma memcmp_eq: "length a = w \<Longrightarrow> length b = w \<Longrightarrow> memcmp a b w = 0 \<longleftrightarrow> a = b"
proof (induction w arbitrary: a b)
  case (Suc w)
  then show ?case by (cases a; cases b) auto
qed simp

lemma memcmp_antisym: "length a = w \<Longrightarrow> length b = w \<Longrightarrow> memcmp a b w \<le> 0 \<Longrightarrow> memcmp b a w \<le> 0 \<Longrightarrow> a = b"
proof (induction w arbitrary: a b)
  case (Suc w)
  then show ?case by (cases a; cases b) (auto split: if_splits)
qed simp

interpretation mc: compare_laws "\<lambda>x. length x = w" "\<lambda>a b. memcmp a b w" for w
  by unfold_locales (auto intro: memcmp_total memcmp_trans)

section \<open>Sorting and searching\<close>

text \<open>
  C16. \<^verbatim>\<open>qsort\<close> sorts: for every comparison function that is a total preorder on the items, the array is a
  permutation of its items in ascending order, equal items keep their order, and the bytes behind
  the array are untouched.
\<close>

theorem qsort_correct:
  assumes "compare_laws (\<lambda>x. length x = w) cmp" "n * w \<le> length m" "w \<noteq> 0"
  shows "\<exists>m'. qsort (Some m) n w (Some cmp) = Some m' \<and> length m' = length m \<and> drop (n * w) m' = drop (n * w) m \<and>
    sorted_wrt (\<lambda>a b. cmp a b \<le> 0) (items_of m' w n) \<and> mset (items_of m' w n) = mset (items_of m w n) \<and>
    (\<forall>c. length c = w \<longrightarrow> filter (\<lambda>x. cmp c x \<le> 0 \<and> cmp x c \<le> 0) (items_of m' w n) =
       filter (\<lambda>x. cmp c x \<le> 0 \<and> cmp x c \<le> 0) (items_of m w n))"
proof -
  have "length (item m w k) = w" if "k < n" for k
  proof -
    have "Suc k * w \<le> n * w" using that by (intro mult_le_mono1) simp
    then show ?thesis using assms(2) by (simp add: item_def)
  qed
  then have "\<forall>x \<in> set (items_of m w n). length x = w" by (auto simp: items_of_def)
  from compare_laws.qsort_items [OF assms(1,2) this assms(3)] show ?thesis
    unfolding compare_laws.same_def [OF assms(1)] .
qed

lemma qsort_correct_witness:
  "\<exists>m'. qsort (Some [2, 0, 1, 7, 1, 5]) 3 2 (Some (\<lambda>a b. memcmp a b 2)) = Some m' \<and>
     sorted_wrt (\<lambda>a b. memcmp a b 2 \<le> 0) (items_of m' 2 3) \<and> mset (items_of m' 2 3) = mset [[2, 0], [1, 7], [1, 5]]"
proof -
  have "items_of [2, 0, 1, 7, 1, 5] 2 3 = [[2, 0], [1, 7], [1, 5]]" by (simp add: items_of_def item_def upt_rec)
  then show ?thesis using qsort_correct [OF mc.compare_laws_axioms [of 2], of 3 "[2, 0, 1, 7, 1, 5]"] by auto
qed

lemma bsearch_loop_items:
  assumes "\<And>i j. i < j \<Longrightarrow> j < n \<Longrightarrow> (cmp key (item m w i) < 0 \<longrightarrow> cmp key (item m w j) < 0) \<and> (0 < cmp key (item m w j) \<longrightarrow> 0 < cmp key (item m w i))"
    "lo + num \<le> n" "\<And>k. k < n \<Longrightarrow> cmp key (item m w k) = 0 \<Longrightarrow> lo \<le> k \<and> k < lo + num"
  shows "case bsearch_loop cmp key m w (lo * w) num of
      Some off \<Rightarrow> \<exists>k < n. off = k * w \<and> cmp key (item m w k) = 0
    | None \<Rightarrow> \<forall>k < n. cmp key (item m w k) \<noteq> 0"
  using assms(2,3)
proof (induction num arbitrary: lo rule: less_induct)
  case (less num)
  define mid where "mid = num div 2"
  define c where "c = cmp key (item m w (lo + mid))"
  show ?case
  proof (cases "num = 0")
    case True
    then show ?thesis using less.prems(2) by (force simp: bsearch_loop.simps)
  next
    case False
    then have mid: "mid < num" "lo + mid < n" using less.prems(1) by (auto simp: mid_def)
    have off: "lo * w + mid * w = (lo + mid) * w" "(lo * w + (mid + 1) * w) = (lo + mid + 1) * w" by (simp_all add: algebra_simps)
    have step: "bsearch_loop cmp key m w (lo * w) num =
        (if c = 0 then Some ((lo + mid) * w)
         else if c < 0 then bsearch_loop cmp key m w (lo * w) mid
         else bsearch_loop cmp key m w ((lo + mid + 1) * w) (num - (mid + 1)))"
      using False by (subst bsearch_loop.simps) (simp only: Let_def off mid_def [symmetric] c_def item_def if_False simp_thms)
    consider "c = 0" | "c < 0" | "0 < c" by linarith
    then show ?thesis
    proof cases
      case 1
      then show ?thesis using mid(2) unfolding step by (auto simp: c_def intro!: exI [of _ "lo + mid"])
    next
      case 2
      have "lo \<le> k \<and> k < lo + mid" if "k < n" "cmp key (item m w k) = 0" for k
      proof -
        have "\<not> lo + mid < k" using assms(1) [of "lo + mid" k] that 2 by (auto simp: c_def)
        moreover have "k \<noteq> lo + mid" using that 2 by (auto simp: c_def)
        ultimately show ?thesis using less.prems(2) [OF that] by linarith
      qed
      then show ?thesis using less.IH [OF mid(1), of lo] mid(2) 2 unfolding step by simp
    next
      case 3
      have "lo + mid + 1 \<le> k \<and> k < lo + mid + 1 + (num - (mid + 1))" if "k < n" "cmp key (item m w k) = 0" for k
      proof -
        have "\<not> k < lo + mid" using assms(1) [of k "lo + mid"] that 3 mid(2) by (auto simp: c_def)
        moreover have "k \<noteq> lo + mid" using that 3 by (auto simp: c_def)
        ultimately show ?thesis using less.prems(2) [OF that] mid(1) by linarith
      qed
      then show ?thesis using less.IH [of "num - (mid + 1)" "lo + mid + 1"] mid less.prems(1) 3 unfolding step by simp
    qed
  qed
qed

text \<open>
  C17. Sorting and searching work together: after \<^verbatim>\<open>qsort\<close>, \<^verbatim>\<open>bsearch\<close> with the same comparison finds a key
  exactly if it was an item of the array, and what it returns points to the key.
\<close>

theorem qsort_bsearch:
  assumes "length key = w" "n * w \<le> length m" "w \<noteq> 0"
  shows "\<exists>m'. qsort (Some m) n w (Some (\<lambda>a b. memcmp a b w)) = Some m' \<and>
    (case bsearch key m' n w (\<lambda>a b. memcmp a b w) of
       Some off \<Rightarrow> key \<in> set (items_of m w n) \<and> take w (drop off m') = key
     | None \<Rightarrow> key \<notin> set (items_of m w n))"
proof -
  let ?cmp = "\<lambda>a b. memcmp a b w"
  have len: "length (item m2 w k) = w" if "k < n" "length m2 = length m" for k m2
  proof -
    have "Suc k * w \<le> n * w" using that by (intro mult_le_mono1) simp
    then show ?thesis using assms(2) that(2) by (simp add: item_def)
  qed
  then have "\<forall>x \<in> set (items_of m w n). length x = w" by (auto simp: items_of_def)
  from mc.qsort_items [OF assms(2) this assms(3)] obtain m' where
    m': "qsort (Some m) n w (Some ?cmp) = Some m'" "length m' = length m" "sorted_wrt (\<lambda>a b. memcmp a b w \<le> 0) (items_of m' w n)"
      "mset (items_of m' w n) = mset (items_of m w n)" by blast
  have le: "memcmp (item m' w i) (item m' w j) w \<le> 0" if "i < j" "j < n" for i j
    using sorted_wrt_nth_less [OF m'(3) that(1)] that by simp
  note l = len [OF _ m'(2)]
  have mono: "(memcmp key (item m' w i) w < 0 \<longrightarrow> memcmp key (item m' w j) w < 0) \<and>
      (0 < memcmp key (item m' w j) w \<longrightarrow> 0 < memcmp key (item m' w i) w)" if "i < j" "j < n" for i j
  proof -
    have li: "length (item m' w i) = w" "length (item m' w j) = w" using l that by auto
    have "memcmp key (item m' w j) w \<le> 0" if "memcmp key (item m' w i) w \<le> 0"
      using memcmp_trans [OF assms(1) li that le] \<open>i < j\<close> \<open>j < n\<close> by blast
    moreover have "item m' w i = key" if "memcmp key (item m' w i) w \<le> 0" "memcmp key (item m' w j) w = 0"
    proof -
      have "item m' w j = key" using that(2) memcmp_eq [OF assms(1) li(2)] by simp
      then have "memcmp (item m' w i) key w \<le> 0" using le \<open>i < j\<close> \<open>j < n\<close> by blast
      then show ?thesis using memcmp_antisym [OF li(1) assms(1)] that(1) by simp
    qed
    moreover have "memcmp key key w = 0" using memcmp_eq [OF assms(1) assms(1)] by simp
    ultimately show ?thesis by (metis linorder_not_less order.strict_iff_order)
  qed
  have "case bsearch_loop ?cmp key m' w (0 * w) n of
      Some off \<Rightarrow> \<exists>k < n. off = k * w \<and> memcmp key (item m' w k) w = 0
    | None \<Rightarrow> \<forall>k < n. memcmp key (item m' w k) w \<noteq> 0"
    by (rule bsearch_loop_items) (use mono in auto)
  moreover have "key \<in> set (items_of m w n) \<longleftrightarrow> (\<exists>k < n. memcmp key (item m' w k) w = 0)"
  proof -
    have "key \<in> set (items_of m w n) \<longleftrightarrow> key \<in> set (items_of m' w n)" using m'(4) by (metis set_mset_mset)
    also have "\<dots> \<longleftrightarrow> (\<exists>k < n. item m' w k = key)" by (auto simp: items_of_def)
    also have "\<dots> \<longleftrightarrow> (\<exists>k < n. memcmp key (item m' w k) w = 0)"
      using memcmp_eq [OF assms(1) l] by (intro iff_exI conj_cong refl) auto
    finally show ?thesis .
  qed
  moreover have "take w (drop (k * w) m') = key" if "k < n" "memcmp key (item m' w k) w = 0" for k
    using that memcmp_eq [OF assms(1) l [OF that(1)]] by (simp add: item_def)
  ultimately show ?thesis
    using m'(1) by (auto simp: bsearch_def split: option.split)
qed

lemma qsort_bsearch_witness:
  "\<exists>m'. qsort (Some [2, 0, 1, 7, 1, 5]) 3 2 (Some (\<lambda>a b. memcmp a b 2)) = Some m' \<and>
     (\<exists>off. bsearch [1, 7] m' 3 2 (\<lambda>a b. memcmp a b 2) = Some off \<and> take 2 (drop off m') = [1, 7])"
proof -
  have "items_of [2, 0, 1, 7, 1, 5] 2 3 = [[2, 0], [1, 7], [1, 5]]" by (simp add: items_of_def item_def upt_rec)
  then show ?thesis using qsort_bsearch [of "[1, 7]" 2 3 "[2, 0, 1, 7, 1, 5]"] by (auto split: option.splits)
qed

end
