(* ===== verification/Libc_Convert.thy ===== *)
theory Libc_Convert
  imports Malloc
begin

text \<open>
  Number parsing of the C library (\<^verbatim>\<open>meuos-libc/src/stdlib/convert.c\<close>) on 64-bit targets: \<^verbatim>\<open>strtoul\<close>,
  \<^verbatim>\<open>strtol\<close>, their \<^verbatim>\<open>long long\<close> variants, \<^verbatim>\<open>atoi\<close> and the absolute values. A C string is the list of the
  bytes before its terminator, \<^verbatim>\<open>*end\<close> the part of the string that is left; None is undefined behaviour:
  reading behind the terminator, or a signed overflow. \<^verbatim>\<open>errno\<close> is passed along.
\<close>

section \<open>The code\<close>

definition ch :: "bytes \<Rightarrow> u8" where
  "ch s = (case s of [] \<Rightarrow> 0 | c # _ \<Rightarrow> c)"

definition digit_value :: "u8 \<Rightarrow> nat" where
  "digit_value c =
     (if 0x30 \<le> c \<and> c \<le> 0x39 then unat (c - 0x30)
      else if 0x61 \<le> c \<and> c \<le> 0x7A then unat (c - 0x61) + 10
      else if 0x41 \<le> c \<and> c \<le> 0x5A then unat (c - 0x41) + 10
      else 36)"

definition skip_space :: "bytes \<Rightarrow> bytes" where
  "skip_space s = dropWhile (\<lambda>c. c = 0x20 \<or> c = 0x09 \<or> c = 0x0A) s"

definition skip_plus :: "bytes \<Rightarrow> bytes" where
  "skip_plus s = (if ch s = 0x2B then tl s else s)"

definition hex_prefix :: "bytes \<Rightarrow> bool" where
  "hex_prefix s \<longleftrightarrow> ch s = 0x30 \<and> (ch (tl s) = 0x78 \<or> ch (tl s) = 0x58)"

definition parse_base :: "int \<Rightarrow> bytes \<Rightarrow> int \<times> bytes" where
  "parse_base base s =
     (if base = 0 then (if ch s = 0x30 then (if hex_prefix s then (16, drop 2 s) else (8, s)) else (10, s))
      else if base = 16 \<and> hex_prefix s then (16, drop 2 s)
      else (base, s))"

definition ERANGE :: int where
  "ERANGE = 34"

definition ULONG_MAX :: u64 where
  "ULONG_MAX = - 1"

definition LONG_MIN :: u64 where
  "LONG_MIN = 2 ^ 63"

fun strtoul_loop :: "int \<Rightarrow> bytes \<Rightarrow> u64 \<Rightarrow> bool \<Rightarrow> (u64 \<times> bool \<times> bytes) option" where
  "strtoul_loop base [] v ov = (if int (digit_value 0) < base then None else Some (v, ov, []))"
| "strtoul_loop base (c # s) v ov =
     (let d = digit_value c in
      if int d < base then
        if ov then strtoul_loop base s v True
        else if v > (ULONG_MAX - word_of_nat d) div word_of_int base then strtoul_loop base s v True
        else strtoul_loop base s (v * word_of_int base + word_of_nat d) False
      else Some (v, ov, c # s))"

definition strtoul :: "bytes \<Rightarrow> int \<Rightarrow> int \<Rightarrow> (u64 \<times> bytes \<times> int) option" where
  "strtoul text base errno =
     (case parse_base base (skip_plus (skip_space text)) of (base, t) \<Rightarrow>
        (case strtoul_loop base t 0 False of
           None \<Rightarrow> None
         | Some (v, ov, rest) \<Rightarrow> Some (if ov then (ULONG_MAX, rest, ERANGE) else (v, rest, errno))))"

fun strtoull_loop :: "int \<Rightarrow> bytes \<Rightarrow> u64 \<Rightarrow> (u64 \<times> bytes) option" where
  "strtoull_loop base [] v = (if int (digit_value 0) < base then None else Some (v, []))"
| "strtoull_loop base (c # s) v =
     (let d = digit_value c in
      if int d < base then strtoull_loop base s (v * word_of_int base + word_of_nat d) else Some (v, c # s))"

definition strtoull :: "bytes \<Rightarrow> int \<Rightarrow> (u64 \<times> bytes) option" where
  "strtoull text base = (case parse_base base (skip_plus (skip_space text)) of (base, t) \<Rightarrow> strtoull_loop base t 0)"

text \<open>\<^verbatim>\<open>-(long)u\<close>: undefined for the smallest number.\<close>

definition neg_long :: "u64 \<Rightarrow> u64 option" where
  "neg_long u = (if u = LONG_MIN then None else Some (- u))"

definition skip_sign :: "bytes \<Rightarrow> bool \<times> bytes" where
  "skip_sign s = (if ch s = 0x2D then (True, tl s) else (False, skip_plus s))"

definition strtol :: "bytes \<Rightarrow> int \<Rightarrow> int \<Rightarrow> (u64 \<times> bytes \<times> int) option" where
  "strtol text base errno =
     (case skip_sign (skip_space text) of (negative, t) \<Rightarrow>
        (case strtoul t base errno of
           None \<Rightarrow> None
         | Some (u, rest, errno) \<Rightarrow>
             if negative then
               if errno = ERANGE \<or> u > LONG_MAX + 1 then Some (LONG_MIN, rest, ERANGE)
               else map_option (\<lambda>v. (v, rest, errno)) (neg_long u)
             else if u > LONG_MAX then Some (LONG_MAX, rest, ERANGE)
             else Some (u, rest, errno)))"

definition strtoll :: "bytes \<Rightarrow> int \<Rightarrow> (u64 \<times> bytes) option" where
  "strtoll text base =
     (case skip_sign (skip_space text) of (negative, t) \<Rightarrow>
        (case strtoull t base of
           None \<Rightarrow> None
         | Some (u, rest) \<Rightarrow> if negative then map_option (\<lambda>v. (v, rest)) (neg_long u) else Some (u, rest)))"

text \<open>\<^verbatim>\<open>(int)\<close> keeps the low 32 bits.\<close>

definition atoi :: "bytes \<Rightarrow> int \<Rightarrow> (u32 \<times> int) option" where
  "atoi text errno = map_option (\<lambda>(v, rest, e). (ucast v, e)) (strtol text 10 errno)"

definition atol :: "bytes \<Rightarrow> int \<Rightarrow> (u64 \<times> int) option" where
  "atol text errno = map_option (\<lambda>(v, rest, e). (v, e)) (strtol text 10 errno)"

definition atoll :: "bytes \<Rightarrow> u64 option" where
  "atoll text = map_option fst (strtoll text 10)"

definition c_abs :: "u32 \<Rightarrow> u32" where
  "c_abs v = (if v <s 0 then - v else v)"

definition labs :: "u64 \<Rightarrow> u64" where
  "labs v = (if v <s 0 then - v else v)"

definition llabs :: "u64 \<Rightarrow> u64" where
  "llabs v = (let s = 0 - drop_bit 63 v in (v XOR s) - s)"

section \<open>Digits\<close>

definition number :: "nat \<Rightarrow> bytes \<Rightarrow> nat" where
  "number base ds = foldl (\<lambda>v c. v * base + digit_value c) 0 ds"

lemma number_snoc [simp]: "number b [] = 0" "number b (ds @ [c]) = number b ds * b + digit_value c"
  by (simp_all add: number_def)

lemma digit_value_0: "digit_value 0 = 36"
  by (simp add: digit_value_def)

text \<open>The overflow test of the loop is exact.\<close>

lemma overflow_test:
  fixes v :: u64
  assumes "2 \<le> b" "b \<le> 36" "d < b"
  shows "v > (ULONG_MAX - word_of_nat d) div word_of_int (int b) \<longleftrightarrow> 2 ^ 64 \<le> unat v * b + d"
    and "unat v * b + d < 2 ^ 64 \<Longrightarrow> unat (v * word_of_int (int b) + word_of_nat d) = unat v * b + d"
proof -
  have d: "unat (word_of_nat d :: u64) = d" and b: "unat (word_of_nat b :: u64) = b"
    using assms by (simp_all add: unat_of_nat take_bit_nat_eq_self)
  have "unat (ULONG_MAX - word_of_nat d) = 2 ^ 64 - 1 - d"
  proof -
    have "(word_of_nat d :: u64) \<le> ULONG_MAX" by (simp add: ULONG_MAX_def)
    then have "unat (ULONG_MAX - word_of_nat d) = unat ULONG_MAX - d" by (simp add: unat_sub d)
    then show ?thesis by (simp add: ULONG_MAX_def unsigned_minus_1_eq_mask mask_eq_exp_minus_1)
  qed
  then have "v > (ULONG_MAX - word_of_nat d) div word_of_int (int b) \<longleftrightarrow> (2 ^ 64 - 1 - d) div b < unat v"
    by (simp add: word_less_nat_alt unat_div b)
  also have "\<dots> \<longleftrightarrow> 2 ^ 64 - 1 - d < unat v * b"
    using assms(1) by (simp add: div_less_iff_less_mult)
  also have "\<dots> \<longleftrightarrow> 2 ^ 64 \<le> unat v * b + d" using assms by auto
  finally show "v > (ULONG_MAX - word_of_nat d) div word_of_int (int b) \<longleftrightarrow> 2 ^ 64 \<le> unat v * b + d" .
  show "unat (v * word_of_int (int b) + word_of_nat d) = unat v * b + d" if "unat v * b + d < 2 ^ 64"
  proof -
    have "v * word_of_int (int b) + word_of_nat d = word_of_nat (unat v * b + d)" by simp
    then show ?thesis using that by (simp only: unat_of_nat) (simp add: take_bit_nat_eq_self)
  qed
qed

lemma strtoul_loop_digits:
  assumes "2 \<le> b" "b \<le> 36" "\<forall>c \<in> set ds. digit_value c < b" "rest = [] \<or> b \<le> digit_value (hd rest)"
    "if ov then 2 ^ 64 \<le> acc else unat v = acc"
  shows "\<exists>v'. strtoul_loop (int b) (ds @ rest) v ov = Some (v', 2 ^ 64 \<le> foldl (\<lambda>v c. v * b + digit_value c) acc ds, rest) \<and>
    (foldl (\<lambda>v c. v * b + digit_value c) acc ds < 2 ^ 64 \<longrightarrow> unat v' = foldl (\<lambda>v c. v * b + digit_value c) acc ds)"
  using assms(3,5)
proof (induction ds arbitrary: v ov acc)
  case Nil
  have "strtoul_loop (int b) rest v ov = Some (v, ov, rest)"
    using assms(2,4) by (cases rest) (auto simp: digit_value_0 Let_def)
  moreover have "unat v < 2 ^ 64" using unsigned_less [of v] by simp
  ultimately show ?case using Nil(2) by (auto split: if_splits)
next
  case (Cons c ds)
  have d: "digit_value c < b" using Cons.prems(1) by simp
  define acc' where "acc' = acc * b + digit_value c"
  show ?case
  proof (cases ov)
    case True
    then have "2 ^ 64 \<le> acc" using Cons.prems(2) by simp
    also have "acc \<le> acc * b" using assms(1) by simp
    also have "\<dots> \<le> acc'" by (simp add: acc'_def)
    finally have "2 ^ 64 \<le> acc'" .
    then show ?thesis using Cons.IH [of True acc' v] Cons.prems(1) d True by (simp add: Let_def acc'_def)
  next
    case False
    then have v: "unat v = acc" using Cons.prems(2) by simp
    show ?thesis
    proof (cases "2 ^ 64 \<le> acc'")
      case True
      then show ?thesis
        using Cons.IH [of True acc' v] Cons.prems(1) d False overflow_test(1) [OF assms(1,2) d, of v] v by (simp add: Let_def acc'_def)
    next
      case no: False
      then have "unat (v * word_of_int (int b) + word_of_nat (digit_value c)) = acc'"
        using overflow_test(2) [OF assms(1,2) d, of v] v by (simp add: acc'_def)
      then show ?thesis
        using Cons.IH [of False acc' "v * word_of_int (int b) + word_of_nat (digit_value c)"] Cons.prems(1) d False no
          overflow_test(1) [OF assms(1,2) d, of v] v
        by (simp add: Let_def acc'_def)
    qed
  qed
qed

lemma strtoul_loop_number:
  assumes "2 \<le> b" "b \<le> 36" "\<forall>c \<in> set ds. digit_value c < b" "rest = [] \<or> b \<le> digit_value (hd rest)"
  shows "\<exists>v. strtoul_loop (int b) (ds @ rest) 0 False = Some (v, 2 ^ 64 \<le> number b ds, rest) \<and> (number b ds < 2 ^ 64 \<longrightarrow> unat v = number b ds)"
  using strtoul_loop_digits [OF assms, of False 0 0] unfolding number_def by simp

section \<open>The conversions\<close>

text \<open>White space, a sign, digits of the base without a prefix, and something that is no digit.\<close>

definition numeral_text :: "nat \<Rightarrow> bytes \<Rightarrow> bytes \<Rightarrow> bytes \<Rightarrow> bool" where
  "numeral_text b ws ds rest \<longleftrightarrow>
     2 \<le> b \<and> b \<le> 36 \<and> list_all (\<lambda>c. c = 0x20 \<or> c = 0x09 \<or> c = 0x0A) ws \<and> ds \<noteq> [] \<and> list_all (\<lambda>c. digit_value c < b) ds \<and>
     (rest = [] \<or> b \<le> digit_value (hd rest)) \<and> (b = 16 \<longrightarrow> \<not> hex_prefix (ds @ rest))"

lemma digit_not_special: "digit_value c < b \<Longrightarrow> b \<le> 36 \<Longrightarrow> c \<noteq> 0x20 \<and> c \<noteq> 0x09 \<and> c \<noteq> 0x0A \<and> c \<noteq> 0x2B \<and> c \<noteq> 0x2D"
  by (auto simp: digit_value_def)

lemma skip_space_ws:
  "list_all (\<lambda>c. c = 0x20 \<or> c = 0x09 \<or> c = 0x0A) ws \<Longrightarrow> s = [] \<or> hd s \<noteq> 0x20 \<and> hd s \<noteq> 0x09 \<and> hd s \<noteq> 0x0A \<Longrightarrow> skip_space (ws @ s) = s"
  by (cases s) (auto simp: skip_space_def list_all_iff dropWhile_append2)

lemma strtoul_digits:
  assumes "numeral_text b ws ds rest"
  shows "strtoul (ds @ rest) (int b) e =
      Some (if number b ds < 2 ^ 64 then (word_of_nat (number b ds), rest, e) else (ULONG_MAX, rest, ERANGE))"
proof -
  have b: "2 \<le> b" "b \<le> 36" and rest: "rest = [] \<or> b \<le> digit_value (hd rest)" and hex: "b = 16 \<longrightarrow> \<not> hex_prefix (ds @ rest)"
    and dig: "\<forall>c \<in> set ds. digit_value c < b" using assms by (simp_all add: numeral_text_def list_all_iff)
  obtain c cs where ds: "ds = c # cs" using assms by (cases ds) (auto simp: numeral_text_def)
  have c: "c \<noteq> 0x20 \<and> c \<noteq> 0x09 \<and> c \<noteq> 0x0A \<and> c \<noteq> 0x2B" using digit_not_special [of c b] dig b(2) ds by simp
  have "skip_space (ds @ rest) = ds @ rest" using skip_space_ws [of "[]" "ds @ rest"] c by (simp add: ds)
  moreover have "skip_plus (ds @ rest) = ds @ rest" using c by (simp add: skip_plus_def ds ch_def)
  moreover have "parse_base (int b) (ds @ rest) = (int b, ds @ rest)" using b hex by (auto simp: parse_base_def)
  moreover obtain v where "strtoul_loop (int b) (ds @ rest) 0 False = Some (v, 2 ^ 64 \<le> number b ds, rest)"
    "number b ds < 2 ^ 64 \<longrightarrow> unat v = number b ds" using strtoul_loop_number [OF b dig rest] by blast
  moreover have "v = word_of_nat (number b ds)" if "number b ds < 2 ^ 64"
  proof -
    have "word_of_nat (unat v) = v" by simp
    then show ?thesis using that calculation(5) by (simp only:)
  qed
  ultimately show ?thesis by (auto simp: strtoul_def)
qed



text \<open>The branch-free absolute value is the absolute value.\<close>

lemma llabs_labs: "llabs v = labs v"
proof (cases "v <s 0")
  case True
  then have "bit v 63" using bit_last_iff [of v] by (simp add: word_sless_alt)
  then have "drop_bit 63 v = 1" by (intro bit_word_eqI) (auto simp: bit_simps dest: bit_imp_le_length)
  moreover have "v XOR - 1 = NOT v" "NOT v + 1 = - v" by (simp, simp only: minus_eq_not_plus_1)
  ultimately show ?thesis using True by (simp only: llabs_def labs_def Let_def if_True) simp
next
  case False
  then have "\<not> bit v 63" using bit_last_iff [of v] by (simp add: word_sless_alt)
  have "drop_bit 63 v = 0"
  proof (rule bit_word_eqI)
    fix n
    show "bit (drop_bit 63 v) n \<longleftrightarrow> bit (0 :: u64) n"
      using \<open>\<not> bit v 63\<close> bit_imp_le_length [of v "63 + n"] by (cases n) (auto simp: bit_simps)
  qed
  then show ?thesis using False by (simp add: llabs_def labs_def)
qed

end
