(* ===== verification/Libc_String.thy ===== *)
theory Libc_String
  imports Malloc "HOL-Library.Sublist"
begin

text \<open>
  String functions of the C library (\<^verbatim>\<open>meuos-libc/src/string/memory.c\<close>, \<^verbatim>\<open>compare.c\<close>, \<^verbatim>\<open>token.c\<close>). Where the
  code writes, memory is a function from addresses; where it only reads, a C string is the list of the
  bytes before its terminator, and a pointer into it an offset or the part that is left.
\<close>

section \<open>Overlapping copies\<close>

fun mem_copy_back :: "memory \<Rightarrow> u64 \<Rightarrow> u64 \<Rightarrow> nat \<Rightarrow> memory" where
  "mem_copy_back m out inp 0 = m"
| "mem_copy_back m out inp (Suc num) = mem_copy_back (m(out - 1 := m (inp - 1))) (out - 1) (inp - 1) num"

definition memmove :: "memory \<Rightarrow> u64 \<Rightarrow> u64 \<Rightarrow> nat \<Rightarrow> memory" where
  "memmove m out inp n =
     (if out < inp then mem_copy m out inp n
      else if out > inp then mem_copy_back m (out + word_of_nat n) (inp + word_of_nat n) n
      else m)"

lemma of_nat_inj: "i < 2 ^ 64 \<Longrightarrow> j < 2 ^ 64 \<Longrightarrow> (word_of_nat i :: u64) = word_of_nat j \<longleftrightarrow> i = j"
  by (auto simp: word_unat_eq_iff unat_of_nat take_bit_nat_eq_self)

lemma mem_copy_forward:
  assumes "n < 2 ^ 64" "\<forall>j. 0 < j \<and> j < n \<longrightarrow> out \<noteq> inp + word_of_nat j"
  shows "(\<forall>i < n. mem_copy m out inp n (out + word_of_nat i) = m (inp + word_of_nat i)) \<and>
    (\<forall>a. (\<forall>i < n. a \<noteq> out + word_of_nat i) \<longrightarrow> mem_copy m out inp n a = m a)"
  using assms
proof (induction n arbitrary: m out inp)
  case (Suc n)
  have sh: "p + 1 + word_of_nat i = p + word_of_nat (Suc i)" for p :: u64 and i by (simp add: add.commute add.left_commute)
  have cond: "\<forall>j. 0 < j \<and> j < n \<longrightarrow> out + 1 \<noteq> inp + 1 + word_of_nat j"
    using Suc.prems(2) by (auto simp: add.commute add.left_commute)
  define m1 where "m1 = m(out := m inp)"
  have n: "n < 2 ^ 64" using Suc.prems(1) by simp
  note I = Suc.IH [OF n cond, of m1]
  have IH: "\<And>i. i < n \<Longrightarrow> mem_copy m1 (out + 1) (inp + 1) n (out + word_of_nat (Suc i)) = m1 (inp + word_of_nat (Suc i))"
    "\<And>a. \<forall>i < n. a \<noteq> out + word_of_nat (Suc i) \<Longrightarrow> mem_copy m1 (out + 1) (inp + 1) n a = m1 a"
    using I unfolding sh by blast+
  show ?case
  proof (intro conjI allI impI)
    fix i
    assume i: "i < Suc n"
    show "mem_copy m out inp (Suc n) (out + word_of_nat i) = m (inp + word_of_nat i)"
    proof (cases i)
      case 0
      have "out \<noteq> out + word_of_nat (Suc j)" if "j < n" for j
        using of_nat_inj [of "Suc j" 0] that Suc.prems(1) by simp
      then show ?thesis using IH(2) [of out] 0 by (simp add: m1_def)
    next
      case (Suc k)
      then have "out \<noteq> inp + word_of_nat i" using Suc.prems(2) i by blast
      then show ?thesis using IH(1) [of k] Suc i by (auto simp: m1_def)
    qed
  next
    fix a
    assume a: "\<forall>i < Suc n. a \<noteq> out + word_of_nat i"
    then have "out \<noteq> a" using a [rule_format, OF zero_less_Suc] by simp
    have "\<forall>i < n. a \<noteq> out + word_of_nat (Suc i)" by (intro allI impI) (rule a [rule_format, OF Suc_mono])
    from IH(2) [OF this] show "mem_copy m out inp (Suc n) a = m a"
      unfolding mem_copy.simps m1_def [symmetric] using \<open>out \<noteq> a\<close> by (simp only: m1_def fun_upd_apply) simp
  qed
qed simp

lemma mem_copy_backward:
  assumes "n < 2 ^ 64" "\<forall>j. 0 < j \<and> j < n \<longrightarrow> inp \<noteq> out + word_of_nat j"
  shows "(\<forall>i < n. mem_copy_back m (out + word_of_nat n) (inp + word_of_nat n) n (out + word_of_nat i) = m (inp + word_of_nat i)) \<and>
    (\<forall>a. (\<forall>i < n. a \<noteq> out + word_of_nat i) \<longrightarrow> mem_copy_back m (out + word_of_nat n) (inp + word_of_nat n) n a = m a)"
  using assms
proof (induction n arbitrary: m)
  case (Suc n)
  have sh: "p + word_of_nat (Suc n) - 1 = p + word_of_nat n" for p :: u64 by simp
  define m1 where "m1 = m(out + word_of_nat n := m (inp + word_of_nat n))"
  have n: "n < 2 ^ 64" "\<forall>j. 0 < j \<and> j < n \<longrightarrow> inp \<noteq> out + word_of_nat j" using Suc.prems by simp_all
  note I = Suc.IH [OF n, of m1]
  have IH: "\<And>i. i < n \<Longrightarrow> mem_copy_back m1 (out + word_of_nat n) (inp + word_of_nat n) n (out + word_of_nat i) = m1 (inp + word_of_nat i)"
    "\<And>a. \<forall>i < n. a \<noteq> out + word_of_nat i \<Longrightarrow> mem_copy_back m1 (out + word_of_nat n) (inp + word_of_nat n) n a = m1 a"
    using I by blast+
  have eq: "mem_copy_back m (out + word_of_nat (Suc n)) (inp + word_of_nat (Suc n)) (Suc n) =
      mem_copy_back m1 (out + word_of_nat n) (inp + word_of_nat n) n" by (simp only: mem_copy_back.simps sh m1_def)
  show ?case
    unfolding eq
  proof (intro conjI allI impI)
    fix i
    assume i: "i < Suc n"
    show "mem_copy_back m1 (out + word_of_nat n) (inp + word_of_nat n) n (out + word_of_nat i) = m (inp + word_of_nat i)"
    proof (cases "i = n")
      case True
      have "out + word_of_nat n \<noteq> out + word_of_nat j" if "j < n" for j
        using of_nat_inj [of n j] that Suc.prems(1) by simp
      then show ?thesis using IH(2) [of "out + word_of_nat n"] True by (simp add: m1_def)
    next
      case False
      have "inp + word_of_nat i \<noteq> out + word_of_nat n"
      proof
        assume e: "inp + word_of_nat i = out + word_of_nat n"
        have "inp = (inp + word_of_nat i) - word_of_nat i" by simp
        also have "\<dots> = out + (word_of_nat n - word_of_nat i)" unfolding e by simp
        also have "word_of_nat n - word_of_nat i = (word_of_nat (n - i) :: u64)" using i by (simp add: of_nat_diff)
        finally have "inp = out + word_of_nat (n - i)" .
        moreover have "0 < n - i \<and> n - i < Suc n" using False i by auto
        ultimately show False using Suc.prems(2) by blast
      qed
      then show ?thesis using IH(1) [of i] False i by (simp add: m1_def)
    qed
  next
    fix a
    assume a: "\<forall>i < Suc n. a \<noteq> out + word_of_nat i"
    note ne = a [rule_format, OF lessI]
    have "\<forall>i < n. a \<noteq> out + word_of_nat i" by (intro allI impI) (rule a [rule_format, OF less_SucI])
    from IH(2) [OF this] have "mem_copy_back m1 (out + word_of_nat n) (inp + word_of_nat n) n a = m1 a" .
    also have "m1 a = m a" unfolding m1_def using ne by (rule fun_upd_other)
    finally show "mem_copy_back m1 (out + word_of_nat n) (inp + word_of_nat n) n a = m a" .
  qed
qed simp

lemma no_wrap: "unat p + n \<le> 2 ^ 64 \<Longrightarrow> j < n \<Longrightarrow> unat (p + word_of_nat j) = unat p + j" for p :: u64
proof -
  assume "unat p + n \<le> 2 ^ 64" "j < n"
  moreover have "p + word_of_nat j = word_of_nat (unat p + j)" by simp
  ultimately show ?thesis by (simp only: unat_of_nat) (simp add: take_bit_nat_eq_self)
qed

text \<open>
  C19. \<^verbatim>\<open>memmove\<close> is correct for overlapping regions: afterwards the destination holds what the source held
  before the call, and all other memory is unchanged.
\<close>

theorem memmove_correct:
  assumes "unat out + n \<le> 2 ^ 64" "unat inp + n \<le> 2 ^ 64" "n < 2 ^ 64"
  shows "(\<forall>i < n. memmove m out inp n (out + word_of_nat i) = m (inp + word_of_nat i)) \<and>
    (\<forall>a. (\<forall>i < n. a \<noteq> out + word_of_nat i) \<longrightarrow> memmove m out inp n a = m a)"
proof -
  consider "out < inp" | "inp < out" | "inp = out" by (metis linorder_less_linear)
  then show ?thesis
  proof cases
    case 1
    have "out \<noteq> inp + word_of_nat j" if "j < n" for j
      using no_wrap [OF assms(2) that] 1 by (auto simp: word_less_nat_alt)
    then show ?thesis using mem_copy_forward [OF assms(3), of out inp m] 1 by (simp add: memmove_def)
  next
    case 2
    have "inp \<noteq> out + word_of_nat j" if "j < n" for j
      using no_wrap [OF assms(1) that] 2 by (auto simp: word_less_nat_alt)
    then show ?thesis using mem_copy_backward [OF assms(3), of inp out m] 2 by (auto simp: memmove_def)
  next
    case 3
    then show ?thesis by (simp add: memmove_def)
  qed
qed

lemma memmove_correct_witness:
  "memmove ucast 5 4 2 5 = 4 \<and> memmove ucast 5 4 2 6 = 5 \<and> memmove ucast 5 4 2 7 = 7"
proof -
  have all: "(\<forall>i < 2. memmove ucast 5 4 2 (5 + word_of_nat i) = ucast (4 + word_of_nat i :: u64)) \<and>
      (\<forall>a. (\<forall>i < 2. a \<noteq> 5 + word_of_nat i) \<longrightarrow> memmove ucast 5 4 2 a = ucast a)"
    by (rule memmove_correct) simp_all
  have h: "memmove ucast 5 4 2 (5 + word_of_nat i) = ucast (4 + word_of_nat i :: u64)" if "i < 2" for i
    using all that by blast
  have seven: "(\<forall>i < 2. (7 :: u64) \<noteq> 5 + word_of_nat i) \<Longrightarrow> memmove ucast 5 4 2 7 = ucast (7 :: u64)" using all by blast
  have "\<forall>i < 2. (7 :: u64) \<noteq> 5 + word_of_nat i" by (auto simp: less_2_cases_iff)
  from seven [OF this] h [of 0] h [of 1] show ?thesis by simp
qed

section \<open>Comparing and searching\<close>

definition first_char :: "bytes \<Rightarrow> u8" where
  "first_char s = (case s of [] \<Rightarrow> 0 | c # _ \<Rightarrow> c)"

fun strcmp :: "bytes \<Rightarrow> bytes \<Rightarrow> int" where
  "strcmp (c # l) (d # r) = (if c = d then strcmp l r else int (unat c) - int (unat d))"
| "strcmp l r = int (unat (first_char l)) - int (unat (first_char r))"

fun strchr :: "bytes \<Rightarrow> u8 \<Rightarrow> nat option" where
  "strchr [] needle = (if needle = 0 then Some 0 else None)"
| "strchr (c # s) needle = (if c = needle then Some 0 else map_option Suc (strchr s needle))"

fun strpbrk :: "bytes \<Rightarrow> bytes \<Rightarrow> nat option" where
  "strpbrk [] accept = None"
| "strpbrk (c # s) accept = (if strchr accept c \<noteq> None then Some 0 else map_option Suc (strpbrk s accept))"

fun separator :: "u8 \<Rightarrow> bytes \<Rightarrow> bool" where
  "separator c [] = False"
| "separator c (d # ds) = (c = d \<or> separator c ds)"

fun strspn :: "bytes \<Rightarrow> bytes \<Rightarrow> nat" where
  "strspn [] accept = 0"
| "strspn (c # s) accept = (if separator c accept then Suc (strspn s accept) else 0)"

fun strcspn :: "bytes \<Rightarrow> bytes \<Rightarrow> nat" where
  "strcspn [] reject = 0"
| "strcspn (c # s) reject = (if separator c reject then 0 else Suc (strcspn s reject))"

text \<open>The inner loop of \<^verbatim>\<open>strstr\<close> ends at the end of the needle or at a difference.\<close>

fun strstr_match :: "bytes \<Rightarrow> bytes \<Rightarrow> bool" where
  "strstr_match match [] = True"
| "strstr_match [] (p # part) = False"
| "strstr_match (c # match) (p # part) = (c = p \<and> strstr_match match part)"

fun strstr_loop :: "bytes \<Rightarrow> bytes \<Rightarrow> nat option" where
  "strstr_loop [] needle = None"
| "strstr_loop (c # s) needle = (if strstr_match (c # s) needle then Some 0 else map_option Suc (strstr_loop s needle))"

definition strstr :: "bytes \<Rightarrow> bytes \<Rightarrow> nat option" where
  "strstr text needle = (if needle = [] then Some 0 else strstr_loop text needle)"

lemma separator_set [simp]: "separator c ds \<longleftrightarrow> c \<in> set ds"
  by (induction ds) auto

lemma strcmp_anti: "strcmp r l = - strcmp l r"
  by (induction l r rule: strcmp.induct) (auto simp: first_char_def split: list.split)

lemma strcmp_zero: "0 \<notin> set l \<Longrightarrow> 0 \<notin> set r \<Longrightarrow> strcmp l r = 0 \<longleftrightarrow> l = r"
proof (induction l r rule: strcmp.induct, goal_cases)
  case (1 c l d r)
  then show ?case by (auto simp: word_uint_eq_iff)
next
  case (2 r)
  then show ?case by (cases r) (auto simp: first_char_def word_uint_eq_iff)
next
  case (3 l)
  then show ?case by (cases l) (auto simp: first_char_def word_uint_eq_iff)
qed

lemma strspn_eq: "strspn s accept = length (takeWhile (\<lambda>c. c \<in> set accept) s)"
  by (induction s) auto

lemma strcspn_eq: "strcspn s reject = length (takeWhile (\<lambda>c. c \<notin> set reject) s)"
  by (induction s) auto

lemma strchr_some: "0 \<notin> set s \<Longrightarrow> c \<noteq> 0 \<Longrightarrow> strchr s c \<noteq> None \<longleftrightarrow> c \<in> set s"
  by (induction s) auto

lemma strstr_match_prefix: "strstr_match match part \<longleftrightarrow> prefix part match"
  by (induction match part rule: strstr_match.induct) auto

lemma strstr_loop_first:
  "needle \<noteq> [] \<Longrightarrow>
     (case strstr_loop s needle of
        Some i \<Rightarrow> prefix needle (drop i s) \<and> (\<forall>j < i. \<not> prefix needle (drop j s))
      | None \<Rightarrow> \<forall>j. \<not> prefix needle (drop j s))"
proof (induction s needle rule: strstr_loop.induct)
  case (2 c s needle)
  show ?case
  proof (cases "prefix needle (c # s)")
    case True
    then show ?thesis by (simp add: strstr_match_prefix)
  next
    case False
    have "\<not> prefix needle (drop j (c # s))" if "\<forall>k. Suc k = j \<longrightarrow> \<not> prefix needle (drop k s)" for j
      using False that by (cases j) auto
    note later = this
    have m: "\<not> strstr_match (c # s) needle" using False by (simp add: strstr_match_prefix)
    show ?thesis
    proof (cases "strstr_loop s needle")
      case None
      then have "\<forall>j. \<not> prefix needle (drop j s)" using 2(1) [OF m 2(2)] by simp
      then show ?thesis using None m later by simp
    next
      case (Some i)
      then have i: "prefix needle (drop i s)" "\<forall>j < i. \<not> prefix needle (drop j s)" using 2(1) [OF m 2(2)] by simp_all
      have "\<not> prefix needle (drop j (c # s))" if "j < Suc i" for j
        by (rule later) (use i(2) that in auto)
      then show ?thesis using Some m i(1) by simp
    qed
  qed
qed simp

text \<open>
  \<^verbatim>\<open>strstr\<close> returns the first occurrence of the needle, and none exactly if the needle is not a
  substring.
\<close>

theorem strstr_correct:
  "case strstr s needle of
     Some i \<Rightarrow> prefix needle (drop i s) \<and> list_all (\<lambda>j. \<not> prefix needle (drop j s)) [0..<i]
   | None \<Rightarrow> \<not> sublist needle s"
proof (cases "needle = []")
  case False
  have sub: "sublist needle s \<longleftrightarrow> (\<exists>j. prefix needle (drop j s))"
  proof
    assume "sublist needle s"
    then obtain as bs where "s = as @ needle @ bs" by (auto simp: sublist_def)
    then have "prefix needle (drop (length as) s)" by simp
    then show "\<exists>j. prefix needle (drop j s)" ..
  next
    assume "\<exists>j. prefix needle (drop j s)"
    then obtain j bs where "drop j s = needle @ bs" by (auto simp: prefix_def)
    then have "s = take j s @ needle @ bs" by (metis append_take_drop_id)
    then show "sublist needle s" unfolding sublist_def by blast
  qed
  show ?thesis
    using strstr_loop_first [OF False, of s] False sub by (auto simp: strstr_def list_all_iff split: option.splits)
qed (simp add: strstr_def)

section \<open>Tokens\<close>

text \<open>
  \<^verbatim>\<open>strtok_r\<close> with the text or the saved state: the token and the state to save. The separator behind the
  token is overwritten by a terminator.
\<close>

definition strtok_r :: "bytes option \<Rightarrow> bytes \<Rightarrow> bytes \<Rightarrow> bytes option \<times> bytes" where
  "strtok_r text delimiters state =
     (let t = dropWhile (\<lambda>c. separator c delimiters) (case text of Some t \<Rightarrow> t | None \<Rightarrow> state) in
      if t = [] then (None, t)
      else (Some (takeWhile (\<lambda>c. \<not> separator c delimiters) t), tl (dropWhile (\<lambda>c. \<not> separator c delimiters) t)))"

lemma strtok_shorter: "strtok_r None delimiters state = (Some tok, state') \<Longrightarrow> length state' < length state"
proof -
  assume a: "strtok_r None delimiters state = (Some tok, state')"
  let ?t = "dropWhile (\<lambda>c. separator c delimiters) state"
  have t: "?t \<noteq> []" "state' = tl (dropWhile (\<lambda>c. \<not> separator c delimiters) ?t)" using a by (auto simp: strtok_r_def Let_def split: if_splits)
  have "length (dropWhile (\<lambda>c. \<not> separator c delimiters) ?t) \<le> length ?t" "length ?t \<le> length state" by (simp_all add: length_dropWhile_le)
  moreover have "0 < length ?t" by (rule length_greater_0_conv [THEN iffD2, OF t(1)])
  ultimately show ?thesis unfolding t(2) length_tl by linarith
qed

text \<open>The loop every caller writes: tokens until there are no more.\<close>

function strtok_all :: "bytes \<Rightarrow> bytes \<Rightarrow> bytes list" where
  "strtok_all state delimiters =
     (case strtok_r None delimiters state of
        (None, _) \<Rightarrow> []
      | (Some tok, state) \<Rightarrow> tok # strtok_all state delimiters)"
  by pat_completeness auto

termination
proof (relation "measure (\<lambda>(state, delimiters). length state)", goal_cases)
  case 1
  then show ?case by simp
next
  case 2
  then show ?case using strtok_shorter [OF sym] by simp
qed

declare strtok_all.simps [simp del]

text \<open>The pieces between the separators.\<close>

fun pieces :: "u8 set \<Rightarrow> bytes \<Rightarrow> bytes list" where
  "pieces D [] = [[]]"
| "pieces D (c # s) = (if c \<in> D then [] # pieces D s else (case pieces D s of [] \<Rightarrow> [[c]] | p # ps \<Rightarrow> (c # p) # ps))"

lemma pieces_separators: "list_all (\<lambda>c. c \<in> D) xs \<Longrightarrow> filter (\<lambda>p. p \<noteq> []) (pieces D (xs @ s)) = filter (\<lambda>p. p \<noteq> []) (pieces D s)"
  by (induction xs) auto

lemma pieces_nonempty: "pieces D s \<noteq> []"
  by (cases s) (auto split: list.split)

lemma pieces_token: "list_all (\<lambda>c. c \<notin> D) tok \<Longrightarrow> pieces D (tok @ s) = (tok @ hd (pieces D s)) # tl (pieces D s)"
  using pieces_nonempty [of D s] by (induction tok) (auto split: list.split)

text \<open>
  C20. Calling \<^verbatim>\<open>strtok_r\<close> until it returns nothing gives the non-empty pieces of the text between the
  separators, in order, and the loop ends.
\<close>

theorem strtok_all_pieces:
  "strtok_all s delimiters = filter (\<lambda>p. p \<noteq> []) (pieces (set delimiters) s)"
proof (induction s delimiters rule: strtok_all.induct)
  case (1 s delimiters)
  let ?D = "set delimiters"
  define ws t where "ws = takeWhile (\<lambda>c. c \<in> ?D) s" and "t = dropWhile (\<lambda>c. c \<in> ?D) s"
  have ws: "s = ws @ t" "list_all (\<lambda>c. c \<in> ?D) ws" by (auto simp: ws_def t_def list_all_iff dest: set_takeWhileD)
  have skip: "filter (\<lambda>p. p \<noteq> []) (pieces ?D s) = filter (\<lambda>p. p \<noteq> []) (pieces ?D t)"
    using pieces_separators [OF ws(2), of t] ws(1) by simp
  show ?case
  proof (cases "t = []")
    case True
    then have "strtok_r None delimiters s = (None, [])" unfolding strtok_r_def Let_def separator_set option.case t_def by simp
    then show ?thesis by (simp add: strtok_all.simps skip True)
  next
    case False
    define tok r where "tok = takeWhile (\<lambda>c. c \<notin> ?D) t" and "r = dropWhile (\<lambda>c. c \<notin> ?D) t"
    have tok: "t = tok @ r" "list_all (\<lambda>c. c \<notin> ?D) tok" by (auto simp: tok_def r_def list_all_iff dest: set_takeWhileD)
    have "hd t \<notin> ?D" using False hd_dropWhile [of "\<lambda>c. c \<in> ?D" s] by (simp only: t_def) simp
    then have ne: "tok \<noteq> []" using False by (cases t) (auto simp: tok_def)
    have st: "strtok_r None delimiters s = (Some tok, tl r)"
      using False unfolding strtok_r_def Let_def separator_set option.case t_def [symmetric] tok_def r_def by simp
    have "filter (\<lambda>p. p \<noteq> []) (pieces ?D t) = tok # filter (\<lambda>p. p \<noteq> []) (pieces ?D (tl r))"
    proof (cases r)
      case Nil
      then show ?thesis using pieces_token [OF tok(2), of r] tok(1) ne by simp
    next
      case (Cons c cs)
      then have "c \<in> ?D" using hd_dropWhile [of "\<lambda>c. c \<notin> ?D" t] by (simp add: r_def [symmetric])
      then show ?thesis using pieces_token [OF tok(2), of r] tok(1) ne Cons by simp
    qed
    then show ?thesis using 1 [OF st [symmetric] refl] by (simp add: strtok_all.simps [of s] st skip)
  qed
qed

end
