(* ===== verification/Mir.thy ===== *)
theory Mir
  imports Prelude "HOL-Library.Signed_Division"
begin

text \<open>
  The medium IR of the compiler \<^verbatim>\<open>mcc\<close> (\<^verbatim>\<open>mcc/include/mir.h\<close>): types, opcodes, constants, operands,
  instructions, blocks and functions, use chains (\<^verbatim>\<open>mir/passes.c\<close>), and a semantics of straight-line
  code. Values are identified by their number in the value table, constants by what they denote: the
  pool of \<^verbatim>\<open>mir_util.c\<close> interns them. Floating-point payloads are their bit patterns.
\<close>

section \<open>Data\<close>

datatype mtype = MT_NONE | MT_VOID | MT_I8 | MT_I16 | MT_I32 | MT_I64 | MT_F32 | MT_F64 | MT_PTR | MT_AGG

datatype mop =
    MOP_NONE | MOP_ADD | MOP_SUB | MOP_MUL | MOP_DIV | MOP_UDIV | MOP_REM | MOP_UREM | MOP_NEG | MOP_AND | MOP_OR
  | MOP_XOR | MOP_SHL | MOP_SHR | MOP_SAR | MOP_CEQ | MOP_CNE | MOP_CSLT | MOP_CSLE | MOP_CSGT | MOP_CSGE | MOP_CULT
  | MOP_CULE | MOP_CUGT | MOP_CUGE | MOP_CFEQ | MOP_CFNE | MOP_CFLT | MOP_CFLE | MOP_CFGT | MOP_CFGE | MOP_LOAD
  | MOP_STORE | MOP_ALLOCA | MOP_SEXT | MOP_ZEXT | MOP_TRUNC | MOP_CAST | MOP_F2I | MOP_I2F | MOP_UI2F | MOP_FEXT
  | MOP_FTRUNC | MOP_JMP | MOP_JNZ | MOP_RET | MOP_CALL | MOP_ARG | MOP_PAR | MOP_VARARG | MOP_PHI | MOP_COPY
  | MOP_VASTART | MOP_VAARG | MOP_SALLOC | MOP_EXTRA | MOP_NOP

text \<open>The numbering of the \<^verbatim>\<open>enum\<close>, on which the passes compare opcodes.\<close>

primrec mop_num :: "mop \<Rightarrow> nat" where
  "mop_num MOP_NONE = 0"
| "mop_num MOP_ADD = 1"
| "mop_num MOP_SUB = 2"
| "mop_num MOP_MUL = 3"
| "mop_num MOP_DIV = 4"
| "mop_num MOP_UDIV = 5"
| "mop_num MOP_REM = 6"
| "mop_num MOP_UREM = 7"
| "mop_num MOP_NEG = 8"
| "mop_num MOP_AND = 9"
| "mop_num MOP_OR = 10"
| "mop_num MOP_XOR = 11"
| "mop_num MOP_SHL = 12"
| "mop_num MOP_SHR = 13"
| "mop_num MOP_SAR = 14"
| "mop_num MOP_CEQ = 15"
| "mop_num MOP_CNE = 16"
| "mop_num MOP_CSLT = 17"
| "mop_num MOP_CSLE = 18"
| "mop_num MOP_CSGT = 19"
| "mop_num MOP_CSGE = 20"
| "mop_num MOP_CULT = 21"
| "mop_num MOP_CULE = 22"
| "mop_num MOP_CUGT = 23"
| "mop_num MOP_CUGE = 24"
| "mop_num MOP_CFEQ = 25"
| "mop_num MOP_CFNE = 26"
| "mop_num MOP_CFLT = 27"
| "mop_num MOP_CFLE = 28"
| "mop_num MOP_CFGT = 29"
| "mop_num MOP_CFGE = 30"
| "mop_num MOP_LOAD = 31"
| "mop_num MOP_STORE = 32"
| "mop_num MOP_ALLOCA = 33"
| "mop_num MOP_SEXT = 34"
| "mop_num MOP_ZEXT = 35"
| "mop_num MOP_TRUNC = 36"
| "mop_num MOP_CAST = 37"
| "mop_num MOP_F2I = 38"
| "mop_num MOP_I2F = 39"
| "mop_num MOP_UI2F = 40"
| "mop_num MOP_FEXT = 41"
| "mop_num MOP_FTRUNC = 42"
| "mop_num MOP_JMP = 43"
| "mop_num MOP_JNZ = 44"
| "mop_num MOP_RET = 45"
| "mop_num MOP_CALL = 46"
| "mop_num MOP_ARG = 47"
| "mop_num MOP_PAR = 48"
| "mop_num MOP_VARARG = 49"
| "mop_num MOP_PHI = 50"
| "mop_num MOP_COPY = 51"
| "mop_num MOP_VASTART = 52"
| "mop_num MOP_VAARG = 53"
| "mop_num MOP_SALLOC = 54"
| "mop_num MOP_EXTRA = 55"
| "mop_num MOP_NOP = 56"

definition mop_list :: "mop list" where
  "mop_list =
    [MOP_NONE, MOP_ADD, MOP_SUB, MOP_MUL, MOP_DIV, MOP_UDIV, MOP_REM, MOP_UREM, MOP_NEG, MOP_AND, MOP_OR,
     MOP_XOR, MOP_SHL, MOP_SHR, MOP_SAR, MOP_CEQ, MOP_CNE, MOP_CSLT, MOP_CSLE, MOP_CSGT, MOP_CSGE, MOP_CULT,
     MOP_CULE, MOP_CUGT, MOP_CUGE, MOP_CFEQ, MOP_CFNE, MOP_CFLT, MOP_CFLE, MOP_CFGT, MOP_CFGE, MOP_LOAD,
     MOP_STORE, MOP_ALLOCA, MOP_SEXT, MOP_ZEXT, MOP_TRUNC, MOP_CAST, MOP_F2I, MOP_I2F, MOP_UI2F, MOP_FEXT,
     MOP_FTRUNC, MOP_JMP, MOP_JNZ, MOP_RET, MOP_CALL, MOP_ARG, MOP_PAR, MOP_VARARG, MOP_PHI, MOP_COPY,
     MOP_VASTART, MOP_VAARG, MOP_SALLOC, MOP_EXTRA, MOP_NOP]"

lemma mop_list_all: "op \<in> set mop_list"
  by (cases op) (simp_all only: mop_list_def list.set insert_iff simp_thms)

lemma mop_nums: "map mop_num mop_list = [0..<57]"
  by (simp add: mop_list_def upt_rec)

lemma mop_num_nth: "mop_list ! mop_num op = op"
proof -
  obtain i where i: "i < length mop_list" "mop_list ! i = op" using mop_list_all [of op] by (auto simp: in_set_conv_nth)
  have "length mop_list = 57" using arg_cong [OF mop_nums, of length] by simp
  then have "mop_num (mop_list ! i) = i" using i(1) nth_map [OF i(1), of mop_num] by (simp only: mop_nums nth_upt)
  then show ?thesis using i(2) by simp
qed

instantiation mop :: linorder
begin

definition less_eq_mop :: "mop \<Rightarrow> mop \<Rightarrow> bool" where
  "less_eq_mop a b \<longleftrightarrow> mop_num a \<le> mop_num b"

definition less_mop :: "mop \<Rightarrow> mop \<Rightarrow> bool" where
  "less_mop a b \<longleftrightarrow> mop_num a < mop_num b"

instance
proof
  fix a b :: mop
  show "a = b" if "a \<le> b" "b \<le> a"
  proof -
    have "mop_num a = mop_num b" using that by (simp add: less_eq_mop_def)
    then have "mop_list ! mop_num a = mop_list ! mop_num b" by (rule arg_cong)
    then show ?thesis unfolding mop_num_nth .
  qed
qed (auto simp: less_eq_mop_def less_mop_def)

end

datatype mconst =
    MC_UNDEF mtype
  | MC_INT mtype u64
  | MC_FLT mtype u64
  | MC_ADDR string u64 bool bool

fun con_type :: "mconst \<Rightarrow> mtype" where
  "con_type (MC_UNDEF t) = t"
| "con_type (MC_INT t _) = t"
| "con_type (MC_FLT t _) = t"
| "con_type (MC_ADDR _ _ _ _) = MT_PTR"

datatype mref = MREF_NONE | MREF_VAL nat | MREF_CON mconst

fun ref_val :: "mref \<Rightarrow> nat option" where
  "ref_val (MREF_VAL v) = Some v"
| "ref_val _ = None"

fun ref_con :: "mref \<Rightarrow> mconst option" where
  "ref_con (MREF_CON c) = Some c"
| "ref_con _ = None"

record mins =
  in_op :: mop
  in_dtype :: mtype
  in_dst :: "nat option"
  in_src0 :: mref
  in_src1 :: mref
  in_extra :: u64
  in_blk :: nat

datatype mval_kind = MV_NONE | MV_TEMP | MV_GLOBAL | MV_CONST | MV_TYPE | MV_LABEL | MV_REG

record mval =
  val_kind :: mval_kind
  val_type :: mtype
  val_def :: bool
  val_defblk :: "nat option"

record mphi =
  phi_dst :: nat
  phi_arg :: "nat option list"
  phi_blk :: "nat list"

record mblk =
  blk_id :: nat
  blk_phi :: "mphi list"
  blk_ins :: "mins list"
  blk_term :: mins
  blk_s1 :: "nat option"
  blk_s2 :: "nat option"

text \<open>
  The value table is indexed by value number; \<open>fn_link\<close> is the list of the blocks; blocks are referred
  to by their number. \<open>phi_blk\<close> is the predecessor of each argument of a phi.
\<close>

record mfn =
  fn_val :: "mval list"
  fn_link :: "mblk list"

definition is_temp :: "mfn \<Rightarrow> nat \<Rightarrow> bool" where
  "is_temp fn v \<longleftrightarrow> v < length (fn_val fn) \<and> val_kind (fn_val fn ! v) = MV_TEMP"

section \<open>Use chains\<close>

datatype muse = Use_ins nat | Use_phi

definition mark_use :: "nat \<Rightarrow> nat \<Rightarrow> mref \<Rightarrow> muse list" where
  "mark_use v blk r = (if ref_val r = Some v then [Use_ins blk] else [])"

definition build_uses_block :: "nat \<Rightarrow> mblk \<Rightarrow> muse list" where
  "build_uses_block v b =
     concat (map (\<lambda>i. mark_use v (in_blk i) (in_src0 i) @ mark_use v (in_blk i) (in_src1 i)) (blk_ins b)) @
     mark_use v (in_blk (blk_term b)) (in_src0 (blk_term b)) @
     concat (map (\<lambda>p. map (\<lambda>_. Use_phi) (filter (\<lambda>a. a = Some v) (phi_arg p))) (blk_phi b))"

text \<open>The uses of the temporary \<open>v\<close>.\<close>

definition build_uses :: "mfn \<Rightarrow> nat \<Rightarrow> muse list" where
  "build_uses fn v = (if is_temp fn v then concat (map (build_uses_block v) (fn_link fn)) else [])"

definition used_outside :: "mfn \<Rightarrow> nat \<Rightarrow> nat \<Rightarrow> bool" where
  "used_outside fn v b \<longleftrightarrow>
     is_temp fn v \<and> list_ex (\<lambda>u. case u of Use_phi \<Rightarrow> True | Use_ins blk \<Rightarrow> blk \<noteq> b) (build_uses fn v)"

definition defined_outside :: "mfn \<Rightarrow> mref \<Rightarrow> nat \<Rightarrow> bool" where
  "defined_outside fn r b =
     (case ref_val r of
        None \<Rightarrow> False
      | Some v \<Rightarrow>
          is_temp fn v \<and>
          (case val_defblk (fn_val fn ! v) of Some d \<Rightarrow> d \<noteq> b | None \<Rightarrow> val_def (fn_val fn ! v)))"

section \<open>Semantics\<close>

text \<open>
  A register holds 64 bits. An operation of a type other than \<^verbatim>\<open>MT_I64\<close> and \<^verbatim>\<open>MT_PTR\<close> works on the low 32
  bits; its result is kept sign-extended. Division traps on a zero divisor and on overflow.
\<close>

definition mt_wide :: "mtype \<Rightarrow> bool" where
  "mt_wide t \<longleftrightarrow> t = MT_I64 \<or> t = MT_PTR"

definition mt_float :: "mtype \<Rightarrow> bool" where
  "mt_float t \<longleftrightarrow> t = MT_F32 \<or> t = MT_F64"

definition canon :: "bool \<Rightarrow> u64 \<Rightarrow> u64" where
  "canon w x = (if w then x else scast (ucast x :: u32))"

definition div_overflow :: "'a::len word \<Rightarrow> 'a word \<Rightarrow> bool" where
  "div_overflow x y \<longleftrightarrow> y = - 1 \<and> x = push_bit (LENGTH('a) - 1) 1"

fun alu :: "mop \<Rightarrow> 'a::len word \<Rightarrow> 'a word \<Rightarrow> 'a word option" where
  "alu MOP_ADD x y = Some (x + y)"
| "alu MOP_SUB x y = Some (x - y)"
| "alu MOP_MUL x y = Some (x * y)"
| "alu MOP_DIV x y = (if y = 0 \<or> div_overflow x y then None else Some (word_of_int (sint x sdiv sint y)))"
| "alu MOP_UDIV x y = (if y = 0 then None else Some (x div y))"
| "alu MOP_REM x y = (if y = 0 \<or> div_overflow x y then None else Some (word_of_int (sint x smod sint y)))"
| "alu MOP_UREM x y = (if y = 0 then None else Some (x mod y))"
| "alu MOP_NEG x y = Some (- x)"
| "alu MOP_AND x y = Some (x AND y)"
| "alu MOP_OR x y = Some (x OR y)"
| "alu MOP_XOR x y = Some (x XOR y)"
| "alu MOP_SHL x y = Some (push_bit (unat y mod LENGTH('a)) x)"
| "alu MOP_SHR x y = Some (drop_bit (unat y mod LENGTH('a)) x)"
| "alu MOP_SAR x y = Some (signed_drop_bit (unat y mod LENGTH('a)) x)"
| "alu _ x y = None"

definition is_alu :: "mop \<Rightarrow> bool" where
  "is_alu op \<longleftrightarrow> MOP_ADD \<le> op \<and> op \<le> MOP_SAR"

definition mir_alu :: "mop \<Rightarrow> bool \<Rightarrow> u64 \<Rightarrow> u64 \<Rightarrow> u64 option" where
  "mir_alu op w x y = (if w then alu op x y else map_option scast (alu op (ucast x :: u32) (ucast y)))"

fun cmp :: "mop \<Rightarrow> u64 \<Rightarrow> u64 \<Rightarrow> bool" where
  "cmp MOP_CEQ x y = (x = y)"
| "cmp MOP_CNE x y = (x \<noteq> y)"
| "cmp MOP_CSLT x y = (x <s y)"
| "cmp MOP_CSLE x y = (x \<le>s y)"
| "cmp MOP_CSGT x y = (y <s x)"
| "cmp MOP_CSGE x y = (y \<le>s x)"
| "cmp MOP_CULT x y = (x < y)"
| "cmp MOP_CULE x y = (x \<le> y)"
| "cmp MOP_CUGT x y = (y < x)"
| "cmp MOP_CUGE x y = (y \<le> x)"
| "cmp _ x y = False"

definition is_icmp :: "mop \<Rightarrow> bool" where
  "is_icmp op \<longleftrightarrow> MOP_CEQ \<le> op \<and> op \<le> MOP_CUGE"

text \<open>
  Everything else an instruction can do (memory, calls, floating point, addresses of symbols) is a
  parameter: a function of the opcode, type and extension word, the operands and the state of the rest
  of the machine.
\<close>

record 'w machine =
  mc_ext :: "mop \<Rightarrow> mtype \<Rightarrow> u64 \<Rightarrow> u64 \<Rightarrow> u64 \<Rightarrow> 'w \<Rightarrow> (u64 \<times> 'w) option"
  mc_con :: "mconst \<Rightarrow> u64"

fun eval_con :: "'w machine \<Rightarrow> mconst \<Rightarrow> u64" where
  "eval_con M (MC_INT t i) = i"
| "eval_con M c = mc_con M c"

fun eval_ref :: "'w machine \<Rightarrow> (nat \<Rightarrow> u64) \<Rightarrow> mref \<Rightarrow> u64" where
  "eval_ref M env MREF_NONE = 0"
| "eval_ref M env (MREF_VAL v) = env v"
| "eval_ref M env (MREF_CON c) = eval_con M c"

definition step_ins :: "'w machine \<Rightarrow> mop \<Rightarrow> mtype \<Rightarrow> u64 \<Rightarrow> u64 \<Rightarrow> u64 \<Rightarrow> 'w \<Rightarrow> (u64 \<times> 'w) option" where
  "step_ins M op dt extra x y W =
     (if is_alu op \<and> \<not> mt_float dt then map_option (\<lambda>r. (r, W)) (mir_alu op (mt_wide dt) x y)
      else if is_icmp op then Some (of_bool (cmp op x y), W)
      else mc_ext M op dt extra x y W)"

definition set_dst :: "nat option \<Rightarrow> u64 \<Rightarrow> (nat \<Rightarrow> u64) \<Rightarrow> nat \<Rightarrow> u64" where
  "set_dst d r env = (case d of None \<Rightarrow> env | Some v \<Rightarrow> env(v := r))"

fun exec_ins :: "'w machine \<Rightarrow> mins list \<Rightarrow> (nat \<Rightarrow> u64) \<times> 'w \<Rightarrow> ((nat \<Rightarrow> u64) \<times> 'w) option" where
  "exec_ins M [] s = Some s"
| "exec_ins M (i # is) (env, W) =
     (case step_ins M (in_op i) (in_dtype i) (in_extra i) (eval_ref M env (in_src0 i)) (eval_ref M env (in_src1 i)) W of
        None \<Rightarrow> None
      | Some (r, W') \<Rightarrow> exec_ins M is (set_dst (in_dst i) r env, W'))"

lemma exec_ins_append: "exec_ins M (xs @ ys) s = Option.bind (exec_ins M xs s) (exec_ins M ys)"
  by (induction M xs s rule: exec_ins.induct) (auto split: option.split)

lemma ucast_scast_32 [simp]: "(ucast (scast (z :: u32) :: u64) :: u32) = z"
  by (rule bit_word_eqI) (auto simp: bit_simps)

lemma canon_canon [simp]: "canon w (canon w x) = canon w x"
  by (simp add: canon_def)

lemma mir_alu_canon: "mir_alu op w x y = Some r \<Longrightarrow> canon w r = r"
  by (auto simp: mir_alu_def canon_def)

end
