(* ===== verification/Mfold.thy ===== *)
theory Mfold
  imports Mir
begin

text \<open>
  Constant folding on the medium IR (\<^verbatim>\<open>mcc/src/mir/mfold.c\<close>, \<^verbatim>\<open>mfold_const\<close>) and its equivalence with
  the semantics of the operations. The folder computes with the host's C arithmetic: an operation that
  C leaves undefined is the outcome \<open>Fold_undefined\<close>. Floating-point arithmetic on bit patterns is a
  parameter.
\<close>

section \<open>The folder\<close>

record fpu =
  fp_of_int :: "u64 \<Rightarrow> u64"
  fp_of_uint :: "u64 \<Rightarrow> u64"
  fp_to_i64 :: "u64 \<Rightarrow> u64"
  fp_to_i32 :: "u64 \<Rightarrow> u32"
  fp_single_to_i32 :: "u64 \<Rightarrow> u32"
  fp_double :: "u64 \<Rightarrow> u64"
  fp_single :: "u64 \<Rightarrow> u64"
  fp_neg_single :: "u64 \<Rightarrow> u64"
  fp_neg :: "u64 \<Rightarrow> u64"
  fp_eq :: "u64 \<Rightarrow> u64 \<Rightarrow> bool"
  fp_lt :: "u64 \<Rightarrow> u64 \<Rightarrow> bool"
  fp_le :: "u64 \<Rightarrow> u64 \<Rightarrow> bool"

datatype fold_result = Folded mconst | Not_foldable | Fold_undefined

text \<open>The comparison of two doubles.\<close>

definition mfold_fcmp :: "fpu \<Rightarrow> mop \<Rightarrow> u64 \<Rightarrow> u64 \<Rightarrow> fold_result" where
  "mfold_fcmp F op dl dr =
     (let res = (\<lambda>b. Folded (MC_INT MT_I32 (of_bool b))) in
      if op = MOP_CFEQ then res (fp_eq F dl dr)
      else if op = MOP_CFNE then res (\<not> fp_eq F dl dr)
      else if op = MOP_CFLT then res (fp_lt F dl dr)
      else if op = MOP_CFLE then res (fp_le F dl dr)
      else if op = MOP_CFGT then res (fp_lt F dr dl)
      else if op = MOP_CFGE then res (fp_le F dr dl)
      else Not_foldable)"

definition mfold_icmp :: "mop \<Rightarrow> u64 \<Rightarrow> u64 \<Rightarrow> fold_result" where
  "mfold_icmp op l r =
     (let res = (\<lambda>b. Folded (MC_INT MT_I32 (of_bool b))) in
      if op = MOP_CEQ then res (l = r)
      else if op = MOP_CNE then res (l \<noteq> r)
      else if op = MOP_CSLT then res (l <s r)
      else if op = MOP_CSLE then res (l \<le>s r)
      else if op = MOP_CSGT then res (r <s l)
      else if op = MOP_CSGE then res (r \<le>s l)
      else if op = MOP_CULT then res (l < r)
      else if op = MOP_CULE then res (l \<le> r)
      else if op = MOP_CUGT then res (r < l)
      else if op = MOP_CUGE then res (r \<le> l)
      else Not_foldable)"

text \<open>The two integer widths of the C code: signed division is undefined for a zero divisor and on overflow.\<close>

definition INT32_MIN :: u64 where
  "INT32_MIN = - (2 ^ 31)"

definition INT64_MIN :: u64 where
  "INT64_MIN = 2 ^ 63"

definition sext32 :: "u64 \<Rightarrow> u64" where
  "sext32 x = scast (ucast x :: u32)"

definition zext32 :: "u64 \<Rightarrow> u64" where
  "zext32 x = ucast (ucast x :: u32)"

definition c_quot :: "'a::len word \<Rightarrow> 'a word \<Rightarrow> 'a word option" where
  "c_quot a b = (if b = 0 \<or> (b = - 1 \<and> a = push_bit (LENGTH('a) - 1) 1) then None else Some (word_of_int (sint a sdiv sint b)))"

definition c_rem :: "'a::len word \<Rightarrow> 'a word \<Rightarrow> 'a word option" where
  "c_rem a b = (if b = 0 \<or> (b = - 1 \<and> a = push_bit (LENGTH('a) - 1) 1) then None else Some (word_of_int (sint a smod sint b)))"

definition mfold_result :: "bool \<Rightarrow> u64 option \<Rightarrow> fold_result" where
  "mfold_result w x =
     (case x of None \<Rightarrow> Fold_undefined
      | Some x \<Rightarrow> Folded (MC_INT (if w then MT_I64 else MT_I32) (if w then x else sext32 x)))"

definition mfold_int :: "mop \<Rightarrow> bool \<Rightarrow> mtype \<Rightarrow> u64 \<Rightarrow> u64 \<Rightarrow> fold_result" where
  "mfold_int op w tyl l r =
     (let sh = unat (r AND (if w then 63 else 31)); res = mfold_result w in
      if op = MOP_ADD then res (Some (l + r))
      else if op = MOP_SUB then res (Some (l - r))
      else if op = MOP_MUL then res (Some (l * r))
      else if op = MOP_DIV then
        (if r = 0 then Not_foldable
         else if r = - 1 \<and> l = (if w then INT64_MIN else INT32_MIN) then Not_foldable
         else res (if w then c_quot l r else map_option scast (c_quot (ucast l :: u32) (ucast r))))
      else if op = MOP_UDIV then
        (if r = 0 then Not_foldable
         else res (if w then Some (l div r)
           else if (ucast r :: u32) = 0 then None else Some (ucast ((ucast l :: u32) div ucast r))))
      else if op = MOP_REM then
        (if r = 0 then Not_foldable
         else res (if w then c_rem l r else map_option scast (c_rem (ucast l :: u32) (ucast r))))
      else if op = MOP_UREM then
        (if r = 0 then Not_foldable
         else res (if w then Some (l mod r)
           else if (ucast r :: u32) = 0 then None else Some (ucast ((ucast l :: u32) mod ucast r))))
      else if op = MOP_AND then res (Some (l AND r))
      else if op = MOP_OR then res (Some (l OR r))
      else if op = MOP_XOR then res (Some (l XOR r))
      else if op = MOP_SHL then res (Some (push_bit sh l))
      else if op = MOP_SHR then res (Some (drop_bit sh (if w then l else zext32 l)))
      else if op = MOP_SAR then res (Some (signed_drop_bit sh (if w then l else sext32 l)))
      else if op = MOP_NEG then res (Some (- l))
      else if op = MOP_SEXT then
        res (Some (if w then l
          else if tyl = MT_I8 then scast (ucast l :: u8) else if tyl = MT_I16 then scast (ucast l :: u16) else sext32 l))
      else if op = MOP_ZEXT \<or> op = MOP_TRUNC then res (Some l)
      else Not_foldable)"

definition mfold_const :: "fpu \<Rightarrow> mop \<Rightarrow> bool \<Rightarrow> mconst \<Rightarrow> mconst \<Rightarrow> fold_result" where
  "mfold_const F op w cl cr =
     (let int_arith = (case (cl, cr) of
            (MC_INT tyl l, MC_INT tyr r) \<Rightarrow> mfold_int op w tyl l r
          | _ \<Rightarrow> Not_foldable);
        compare = (case (cl, cr) of
            (MC_FLT tyl l, MC_FLT tyr r) \<Rightarrow>
              mfold_fcmp F op (if tyl = MT_F32 then fp_double F l else l) (if tyr = MT_F32 then fp_double F r else r)
          | (MC_INT tyl l, MC_INT tyr r) \<Rightarrow> mfold_icmp op l r
          | _ \<Rightarrow> Not_foldable);
        rest = (if MOP_CEQ \<le> op \<and> op \<le> MOP_CFGE then compare else int_arith)
      in case cl of
        MC_INT t i \<Rightarrow>
          if op = MOP_I2F then Folded (MC_FLT MT_F64 (fp_of_int F i))
          else if op = MOP_UI2F then Folded (MC_FLT MT_F64 (fp_of_uint F (if t = MT_I32 then zext32 i else i)))
          else rest
      | MC_FLT t d \<Rightarrow>
          if op = MOP_F2I then
            (if w then Folded (MC_INT MT_I64 (fp_to_i64 F (if t = MT_F32 then fp_double F d else d)))
             else Folded (MC_INT MT_I32 (scast (if t = MT_F32 then fp_single_to_i32 F d else fp_to_i32 F d))))
          else if op = MOP_NEG then Folded (MC_FLT t (if t = MT_F32 then fp_neg_single F d else fp_neg F d))
          else rest
      | _ \<Rightarrow> rest)"

section \<open>Equivalence with the semantics\<close>

lemma mop_le: "(a \<le> b) = (mop_num a \<le> mop_num b)" for a b :: mop
  by (simp add: less_eq_mop_def)

lemma is_alu_iff: "is_alu op \<longleftrightarrow> op \<in> {MOP_ADD, MOP_SUB, MOP_MUL, MOP_DIV, MOP_UDIV, MOP_REM, MOP_UREM, MOP_NEG, MOP_AND,
    MOP_OR, MOP_XOR, MOP_SHL, MOP_SHR, MOP_SAR}"
  by (cases op) (simp_all add: is_alu_def mop_le)

lemma is_icmp_iff: "is_icmp op \<longleftrightarrow> op \<in> {MOP_CEQ, MOP_CNE, MOP_CSLT, MOP_CSLE, MOP_CSGT, MOP_CSGE, MOP_CULT, MOP_CULE, MOP_CUGT,
    MOP_CUGE}"
  by (cases op) (simp_all add: is_icmp_def mop_le)

lemma is_alu_cases:
  assumes "is_alu op"
  obtains "op = MOP_ADD" | "op = MOP_SUB" | "op = MOP_MUL" | "op = MOP_DIV" | "op = MOP_UDIV" | "op = MOP_REM" | "op = MOP_UREM"
    | "op = MOP_NEG" | "op = MOP_AND" | "op = MOP_OR" | "op = MOP_XOR" | "op = MOP_SHL" | "op = MOP_SHR" | "op = MOP_SAR"
  using assms unfolding is_alu_iff by blast

lemma mfold_icmp_cmp: "is_icmp op \<Longrightarrow> mfold_icmp op l r = Folded (MC_INT MT_I32 (of_bool (cmp op l r)))"
  unfolding is_icmp_iff by (elim insertE emptyE) (simp_all add: mfold_icmp_def)

lemma shift_count: "unat (r AND 63) = unat r mod 64" "unat (r AND 31) = unat (ucast r :: u32) mod 32" for r :: u64
proof -
  have "r AND 63 = take_bit 6 r" "r AND 31 = take_bit 5 r" by (simp_all add: take_bit_eq_mask mask_eq_exp_minus_1)
  then have "unat (r AND 63) = take_bit 6 (unat r)" "unat (r AND 31) = take_bit 5 (unat r)"
    by (simp_all only: unsigned_take_bit_eq)
  moreover have "unat (ucast r :: u32) = take_bit 32 (unat r)" by (simp add: unsigned_ucast_eq)
  ultimately show "unat (r AND 63) = unat r mod 64" "unat (r AND 31) = unat (ucast r :: u32) mod 32"
    by (simp_all add: take_bit_eq_mod mod_mod_cancel)
qed

lemma canon_zero: "canon w x = x \<Longrightarrow> \<not> w \<Longrightarrow> (ucast x :: u32) = 0 \<longleftrightarrow> x = 0"
  by (auto simp: canon_def)

lemma ucast_arith:
  fixes x y :: u64
  shows "(ucast (x + y) :: u32) = ucast x + ucast y" "(ucast (x - y) :: u32) = ucast x - ucast y"
    "(ucast (x * y) :: u32) = ucast x * ucast y" "(ucast (- x) :: u32) = - ucast x"
    "(ucast (x AND y) :: u32) = ucast x AND ucast y" "(ucast (x OR y) :: u32) = ucast x OR ucast y"
    "(ucast (x XOR y) :: u32) = ucast x XOR ucast y"
proof -
  have u: "(ucast (word_of_int k :: u64) :: u32) = word_of_int k" for k
    by (rule bit_word_eqI) (simp add: bit_simps)
  show "(ucast (x + y) :: u32) = ucast x + ucast y" using u [of "uint x + uint y"] by simp
  show "(ucast (x - y) :: u32) = ucast x - ucast y" using u [of "uint x - uint y"] by simp
  show "(ucast (x * y) :: u32) = ucast x * ucast y" using u [of "uint x * uint y"] by simp
  show "(ucast (- x) :: u32) = - ucast x" using u [of "- uint x"] by simp
  show "(ucast (x AND y) :: u32) = ucast x AND ucast y" "(ucast (x OR y) :: u32) = ucast x OR ucast y"
    "(ucast (x XOR y) :: u32) = ucast x XOR ucast y"
    by (rule bit_word_eqI, simp add: bit_simps)+
qed

lemma ucast_shifts:
  fixes x :: u64
  assumes "n < 32"
  shows "(ucast (push_bit n x) :: u32) = push_bit n (ucast x)" "(ucast (drop_bit n (zext32 x)) :: u32) = drop_bit n (ucast x)"
    "(ucast (signed_drop_bit n (sext32 x)) :: u32) = signed_drop_bit n (ucast x)"
proof -
  show "(ucast (push_bit n x) :: u32) = push_bit n (ucast x)"
    using assms by (auto intro!: bit_word_eqI simp: bit_simps)
  show "(ucast (drop_bit n (zext32 x)) :: u32) = drop_bit n (ucast x)"
    using assms by (auto intro!: bit_word_eqI simp: bit_simps zext32_def)
  show "(ucast (signed_drop_bit n (sext32 x)) :: u32) = signed_drop_bit n (ucast x)"
  proof (rule bit_word_eqI)
    fix i
    assume "i < LENGTH(32)"
    moreover consider "n + i < 31" | "n + i = 31" | "31 < n + i" by linarith
    ultimately show "bit (ucast (signed_drop_bit n (sext32 x)) :: u32) i \<longleftrightarrow> bit (signed_drop_bit n (ucast x :: u32)) i"
      using assms by cases (auto simp: bit_simps sext32_def split: if_splits)
  qed
qed

text \<open>Folding an integer operation on constants of its width computes what the operation computes.\<close>

lemma sext32_alu: "mfold_result False (Some x) = Folded (MC_INT MT_I32 (scast (ucast x :: u32)))"
  by (simp add: mfold_result_def sext32_def)

lemma mfold_int_alu:
  assumes "is_alu op" "canon w l = l" "canon w r = r"
  shows "mfold_int op w t l r =
    (case mir_alu op w l r of
       Some x \<Rightarrow> Folded (MC_INT (if w then MT_I64 else MT_I32) x)
     | None \<Rightarrow> if op = MOP_REM \<and> r \<noteq> 0 then Fold_undefined else Not_foldable)"
proof (cases w)
  case True
  have c: "c_quot l r = (if r = 0 \<or> div_overflow l r then None else Some (word_of_int (sint l sdiv sint r)))"
    "c_rem l r = (if r = 0 \<or> div_overflow l r then None else Some (word_of_int (sint l smod sint r)))"
    "div_overflow l r \<longleftrightarrow> r = - 1 \<and> l = INT64_MIN"
    by (simp_all add: c_quot_def c_rem_def div_overflow_def INT64_MIN_def)
  show ?thesis
    using assms(1) True
    by (cases rule: is_alu_cases) (simp_all add: mfold_int_def mir_alu_def mfold_result_def Let_def shift_count c)
next
  case False
  have z: "(ucast r :: u32) = 0 \<longleftrightarrow> r = 0" using assms(3) False by (rule canon_zero)
  have l: "scast (ucast l :: u32) = l" and r: "scast (ucast r :: u32) = r" using assms(2,3) False by (simp_all add: canon_def)
  have m1: "(ucast r :: u32) = - 1 \<longleftrightarrow> r = - 1"
  proof
    assume "(ucast r :: u32) = - 1"
    then show "r = - 1" using r by simp
  next
    assume "r = - 1"
    then show "(ucast r :: u32) = - 1" using ucast_arith(4) [of 1] by simp
  qed
  have min: "(ucast l :: u32) = 2147483648 \<longleftrightarrow> l = INT32_MIN"
  proof
    assume "(ucast l :: u32) = 2147483648"
    then have "l = scast (2147483648 :: u32)" using l by simp
    also have "\<dots> = INT32_MIN" by (simp add: INT32_MIN_def)
    finally show "l = INT32_MIN" .
  qed (simp add: INT32_MIN_def)
  have c: "c_quot (ucast l :: u32) (ucast r) =
      (if r = 0 \<or> div_overflow (ucast l :: u32) (ucast r) then None else Some (word_of_int (sint (ucast l :: u32) sdiv sint (ucast r :: u32))))"
    "c_rem (ucast l :: u32) (ucast r) =
      (if r = 0 \<or> div_overflow (ucast l :: u32) (ucast r) then None else Some (word_of_int (sint (ucast l :: u32) smod sint (ucast r :: u32))))"
    "div_overflow (ucast l :: u32) (ucast r) \<longleftrightarrow> r = - 1 \<and> l = INT32_MIN"
    by (simp_all add: c_quot_def c_rem_def div_overflow_def z m1 min)
  have sh: "unat (r AND 31) < 32" "unat (ucast r :: u32) mod 32 = unat (r AND 31)" by (simp_all add: shift_count)
  have up: "(ucast (ucast k :: u64) :: u32) = k" for k :: u32 by (rule bit_word_eqI) (simp add: bit_simps)
  note defs = mfold_int_def mir_alu_def mfold_result_def Let_def if_not_P [OF False] sext32_def
  show ?thesis
    using assms(1)
  proof (cases rule: is_alu_cases)
    case 4
    then show ?thesis using False c(1,3) z by (auto simp: defs)
  next
    case 6
    then show ?thesis using False c(2,3) z by (auto simp: defs)
  next
    case 12
    then show ?thesis using False by (simp add: defs ucast_shifts(1) [OF sh(1)] sh(2))
  next
    case 13
    then show ?thesis using False by (simp add: defs ucast_shifts(2) [OF sh(1)] sh(2))
  next
    case 14
    then show ?thesis using False ucast_shifts(3) [OF sh(1), of l] by (simp add: defs sh(2))
  qed (use False z in \<open>simp_all add: defs ucast_arith up\<close>)
qed

lemma alu_not_cmp: "is_alu op \<Longrightarrow> \<not> (MOP_CEQ \<le> op \<and> op \<le> MOP_CFGE) \<and> op \<noteq> MOP_I2F \<and> op \<noteq> MOP_UI2F \<and> \<not> is_icmp op"
  unfolding is_alu_iff by (elim insertE emptyE) (simp_all add: mop_le is_icmp_iff)

lemma icmp_cmp: "is_icmp op \<Longrightarrow> MOP_CEQ \<le> op \<and> op \<le> MOP_CFGE \<and> op \<noteq> MOP_I2F \<and> op \<noteq> MOP_UI2F \<and> \<not> is_alu op"
  unfolding is_icmp_iff by (elim insertE emptyE) (simp_all add: mop_le is_alu_iff)

lemma mfold_const_int:
  "is_alu op \<Longrightarrow> mfold_const F op w (MC_INT t1 l) (MC_INT t2 r) = mfold_int op w t1 l r"
  "is_icmp op \<Longrightarrow> mfold_const F op w (MC_INT t1 l) (MC_INT t2 r) = Folded (MC_INT MT_I32 (of_bool (cmp op l r)))"
  using alu_not_cmp [of op] icmp_cmp [of op] by (auto simp: mfold_const_def Let_def mfold_icmp_cmp)

lemma canon_of_bool [simp]: "canon w (of_bool b) = of_bool b"
  by (cases b) (simp_all add: canon_def)



text \<open>The constants the folder makes: the types agree with the contents.\<close>

definition con_typed :: "mconst \<Rightarrow> bool" where
  "con_typed c = (case c of
     MC_INT t i \<Rightarrow> t = MT_I64 \<or> t = MT_I32 \<and> canon False i = i
   | MC_FLT t _ \<Rightarrow> True
   | _ \<Rightarrow> False)"

lemma con_typed_bool [simp]: "con_typed (MC_INT MT_I32 (of_bool b))"
  by (simp add: con_typed_def)

lemma mfold_result_typed: "mfold_result w x = Folded c \<Longrightarrow> con_typed c"
  by (auto simp: mfold_result_def con_typed_def sext32_def canon_def split: option.splits)

lemma mfold_int_typed: "mfold_int op w t l r = Folded c \<Longrightarrow> con_typed c"
  by (auto simp: mfold_int_def Let_def split: if_splits dest: mfold_result_typed)

lemma mfold_fcmp_typed: "mfold_fcmp F op l r = Folded c \<Longrightarrow> con_typed c"
  by (auto simp: mfold_fcmp_def Let_def split: if_splits)

lemma mfold_icmp_typed: "mfold_icmp op l r = Folded c \<Longrightarrow> con_typed c"
  by (auto simp: mfold_icmp_def Let_def split: if_splits)

text \<open>
  C11. What the folder returns is a constant of a scalar type, and an integer of type \<^verbatim>\<open>MT_I32\<close> is the
  sign extension of 32 bits, whatever the operands.
\<close>

theorem mfold_const_typed:
  "case mfold_const F op w cl cr of Folded c \<Rightarrow> con_typed c | Not_foldable \<Rightarrow> True | Fold_undefined \<Rightarrow> True"
proof (cases "mfold_const F op w cl cr")
  case (Folded c)
  have "con_typed c"
    using Folded mfold_int_typed mfold_fcmp_typed mfold_icmp_typed
    by (auto simp: mfold_const_def Let_def con_typed_def [of "MC_FLT _ _"] con_typed_def [of "MC_INT _ _"] canon_def
      split: mconst.splits if_splits)
  then show ?thesis by (simp add: Folded)
qed simp_all

end
