(* ===== verification/Msimp.thy ===== *)
theory Msimp
  imports Mfold
begin

text \<open>
  Block simplification of \<^verbatim>\<open>mcc/src/mir/mfold.c\<close>: \<^verbatim>\<open>msimp_block\<close> folds constants, propagates constants
  through stack slots, applies algebraic identities and replaces multiplications and unsigned divisions
  by powers of two, block by block (\<^verbatim>\<open>mfold\<close>). The model is the pass without \<^verbatim>\<open>-Ofast\<close> (\<^verbatim>\<open>g_fast_math\<close> is 0,
  so \<^verbatim>\<open>mfast_simp\<close> returns nothing). An instruction whose result is replaced leaves the block; None
  means that the folder runs into an operation C does not define.
\<close>

section \<open>The simplification map\<close>

type_synonym simp_map = "(nat \<times> mref) list list"

definition map_empty :: simp_map where
  "map_empty = replicate 32 []"

definition map_get :: "simp_map \<Rightarrow> nat \<Rightarrow> mref option" where
  "map_get tab v = map_of (tab ! (v mod 32)) v"

definition map_set :: "simp_map \<Rightarrow> nat \<Rightarrow> mref \<Rightarrow> simp_map" where
  "map_set tab v repl = tab[v mod 32 := (v, repl) # tab ! (v mod 32)]"

definition map_resolve :: "simp_map \<Rightarrow> mref \<Rightarrow> mref" where
  "map_resolve tab r =
     (case ref_val r of
        None \<Rightarrow> r
      | Some v \<Rightarrow> (case map_get tab v of Some m \<Rightarrow> if m \<noteq> MREF_NONE then m else r | None \<Rightarrow> r))"

section \<open>Constants in stack slots\<close>

type_synonym memc = "(nat \<times> mconst \<times> mtype) list"

fun memc_find :: "memc \<Rightarrow> nat \<Rightarrow> (mconst \<times> mtype) option" where
  "memc_find [] addr = None"
| "memc_find ((a, c, t) # mc) addr = (if a = addr then Some (c, t) else memc_find mc addr)"

definition memc_set :: "memc \<Rightarrow> nat \<Rightarrow> mconst \<Rightarrow> mtype \<Rightarrow> memc" where
  "memc_set mc addr c dt =
     (if memc_find mc addr \<noteq> None
      then map (\<lambda>(a, c', t'). if a = addr then (addr, c, dt) else (a, c', t')) mc
      else if length mc < 64 then mc @ [(addr, c, dt)] else mc)"

definition memc_const :: "mtype \<Rightarrow> mconst \<Rightarrow> mref" where
  "memc_const dt c =
     (case c of
        MC_INT t i \<Rightarrow>
          let w = (if dt = MT_I64 then 8 else if dt = MT_I32 then 4 else if dt = MT_I16 then 2 else 1);
              msk = (if w \<ge> 8 then - 1 else push_bit (8 * w) 1 - 1)
          in MREF_CON (MC_INT dt (i AND msk))
      | MC_FLT t d \<Rightarrow> MREF_CON c
      | _ \<Rightarrow> MREF_NONE)"

section \<open>One instruction\<close>

function log2_loop :: "u64 \<Rightarrow> nat" where
  "log2_loop v = (if v = 0 \<or> v AND 1 \<noteq> 0 then 0 else Suc (log2_loop (drop_bit 1 v)))"
  by pat_completeness auto

termination
proof (relation "measure unat")
  fix v :: u64
  assume "\<not> (v = 0 \<or> v AND 1 \<noteq> 0)"
  then have "0 < unat v" by (simp add: unat_gt_0)
  then show "(drop_bit 1 v, v) \<in> measure unat" using unat_drop [of 1 v] by simp
qed simp

declare log2_loop.simps [simp del]

definition is_pow2 :: "u64 \<Rightarrow> bool" where
  "is_pow2 v \<longleftrightarrow> 0 <s v \<and> v AND (v - 1) = 0"

datatype action = Replace mref | Keep mins

definition msimp_fold :: "fpu \<Rightarrow> mfn \<Rightarrow> nat \<Rightarrow> mins \<Rightarrow> mref \<Rightarrow> mref \<Rightarrow> fold_result" where
  "msimp_fold F fn b i a0 a1 =
     (case (in_dst i, ref_con a0) of
        (Some d, Some cl) \<Rightarrow>
          if (in_op i < MOP_JMP \<or> in_op i > MOP_CALL) \<and> \<not> used_outside fn d b then
            let w = mt_wide (in_dtype i);
                res = (if in_op i = MOP_NEG then mfold_const F MOP_NEG w cl (MC_INT (con_type cl) 0)
                  else if in_op i \<in> {MOP_I2F, MOP_UI2F, MOP_F2I} then mfold_const F (in_op i) w cl (MC_INT MT_I64 0)
                  else case ref_con a1 of Some cr \<Rightarrow> mfold_const F (in_op i) w cl cr | None \<Rightarrow> Not_foldable)
            in case res of
                 Folded (MC_FLT t x) \<Rightarrow>
                   if in_op i \<in> {MOP_I2F, MOP_UI2F} \<and> in_dtype i = MT_F32 then Folded (MC_FLT MT_F32 (fp_single F x)) else res
               | _ \<Rightarrow> res
          else Not_foldable
      | _ \<Rightarrow> Not_foldable)"

definition slot_addr :: "mfn \<Rightarrow> mref \<Rightarrow> nat option" where
  "slot_addr fn r = (case ref_val r of Some v \<Rightarrow> if is_temp fn v then Some v else None | None \<Rightarrow> None)"

definition msimp_mem :: "mfn \<Rightarrow> (nat \<Rightarrow> bool) \<Rightarrow> nat \<Rightarrow> memc \<Rightarrow> mins \<Rightarrow> mref \<Rightarrow> mref \<Rightarrow> memc \<times> mref" where
  "msimp_mem fn is_alloca b mc i a0 a1 =
     (let volatile = (in_extra i AND 2 \<noteq> 0) in
      if in_op i = MOP_STORE then
        (case (ref_con a0, slot_addr fn a1) of
           (Some c, Some addr) \<Rightarrow>
             if is_alloca addr \<and> \<not> volatile then (memc_set mc addr c (in_dtype i), MREF_NONE) else ([], MREF_NONE)
         | _ \<Rightarrow> ([], MREF_NONE))
      else if in_op i = MOP_LOAD then
        (case slot_addr fn a0 of
           None \<Rightarrow> (mc, MREF_NONE)
         | Some addr \<Rightarrow>
             (case (memc_find mc addr, in_dst i) of
                (Some (c, t), Some d) \<Rightarrow>
                  if t = in_dtype i \<and> \<not> volatile \<and> \<not> used_outside fn d b then (mc, memc_const (in_dtype i) c)
                  else (mc, MREF_NONE)
              | _ \<Rightarrow> (mc, MREF_NONE)))
      else if in_op i = MOP_CALL then ([], MREF_NONE)
      else (mc, MREF_NONE))"

definition int_con :: "mref \<Rightarrow> u64 option" where
  "int_con r = (case ref_con r of Some (MC_INT t i) \<Rightarrow> Some i | _ \<Rightarrow> None)"

definition keep :: "mins \<Rightarrow> mop \<Rightarrow> mref \<Rightarrow> mref \<Rightarrow> action" where
  "keep i op a0 a1 = Keep (i\<lparr>in_op := op, in_src0 := a0, in_src1 := a1\<rparr>)"

definition msimp_alg :: "bool \<Rightarrow> mins \<Rightarrow> mref \<Rightarrow> mref \<Rightarrow> action" where
  "msimp_alg aggressive i a0 a1 =
     (let op = in_op i; c = int_con a1; zero = Replace (MREF_CON (MC_INT (in_dtype i) 0));
          same = (ref_val a0 \<noteq> None \<and> ref_val a0 = ref_val a1); stay = keep i op a0 a1
      in
      if op = MOP_ADD \<or> op = MOP_OR \<or> op = MOP_SHL \<or> op = MOP_SHR \<or> op = MOP_SAR then (if c = Some 0 then Replace a0 else stay)
      else if op = MOP_MUL then
        (case c of
           None \<Rightarrow> stay
         | Some v \<Rightarrow>
             if v = 1 then Replace a0 else if v = 0 then zero
             else if aggressive \<and> is_pow2 v then keep i MOP_SHL a0 (MREF_CON (MC_INT MT_I32 (word_of_nat (log2_loop v))))
             else stay)
      else if op = MOP_AND then (if c = Some 0 then zero else stay)
      else if op = MOP_XOR then (if c = Some 0 then Replace a0 else if same then zero else stay)
      else if op = MOP_SUB then (if same then zero else stay)
      else if op = MOP_UDIV \<or> op = MOP_UREM then
        (case c of
           None \<Rightarrow> stay
         | Some v \<Rightarrow>
             if is_pow2 v then
               (if op = MOP_UDIV then keep i MOP_SHR a0 (MREF_CON (MC_INT MT_I32 (word_of_nat (log2_loop v))))
                else keep i MOP_AND a0 (MREF_CON (MC_INT (in_dtype i) (v - 1))))
             else stay)
      else stay)"

definition msimp_ins :: "fpu \<Rightarrow> bool \<Rightarrow> mfn \<Rightarrow> (nat \<Rightarrow> bool) \<Rightarrow> nat \<Rightarrow> memc \<Rightarrow> mins \<Rightarrow> mref \<Rightarrow> mref \<Rightarrow> (memc \<times> action) option" where
  "msimp_ins F aggressive fn is_alloca b mc i a0 a1 =
     (case msimp_fold F fn b i a0 a1 of
        Fold_undefined \<Rightarrow> None
      | Folded c \<Rightarrow> Some (mc, Replace (MREF_CON c))
      | Not_foldable \<Rightarrow>
          (case msimp_mem fn is_alloca b mc i a0 a1 of
             (mc, fr) \<Rightarrow>
               if fr \<noteq> MREF_NONE then Some (mc, Replace fr)
               else Some (mc,
                 case in_dst i of
                   None \<Rightarrow> keep i (in_op i) a0 a1
                 | Some d \<Rightarrow>
                     if in_op i < MOP_JMP \<and> \<not> used_outside fn d b \<and> \<not> defined_outside fn a0 b \<and> \<not> defined_outside fn a1 b
                     then msimp_alg aggressive i a0 a1
                     else keep i (in_op i) a0 a1)))"

section \<open>Blocks and functions\<close>

fun msimp_loop :: "fpu \<Rightarrow> bool \<Rightarrow> mfn \<Rightarrow> (nat \<Rightarrow> bool) \<Rightarrow> nat \<Rightarrow> simp_map \<Rightarrow> memc \<Rightarrow> mins list \<Rightarrow> (mins list \<times> simp_map \<times> nat) option" where
  "msimp_loop F aggressive fn is_alloca b tab mc [] = Some ([], tab, 0)"
| "msimp_loop F aggressive fn is_alloca b tab mc (i # is) =
     (case msimp_ins F aggressive fn is_alloca b mc i (map_resolve tab (in_src0 i)) (map_resolve tab (in_src1 i)) of
        None \<Rightarrow> None
      | Some (mc', Replace r) \<Rightarrow>
          map_option (\<lambda>(out, tab, removed). (out, tab, Suc removed))
            (msimp_loop F aggressive fn is_alloca b (case in_dst i of Some d \<Rightarrow> map_set tab d r | None \<Rightarrow> tab) mc' is)
      | Some (mc', Keep j) \<Rightarrow>
          map_option (\<lambda>(out, tab, removed). (j # out, tab, removed)) (msimp_loop F aggressive fn is_alloca b tab mc' is))"

definition msimp_block :: "fpu \<Rightarrow> bool \<Rightarrow> mfn \<Rightarrow> (nat \<Rightarrow> bool) \<Rightarrow> mblk \<Rightarrow> (mblk \<times> nat) option" where
  "msimp_block F aggressive fn is_alloca b =
     (case msimp_loop F aggressive fn is_alloca (blk_id b) map_empty [] (blk_ins b) of
        None \<Rightarrow> None
      | Some (out, tab, removed) \<Rightarrow>
          Some (b\<lparr>blk_ins := out, blk_term := (blk_term b)\<lparr>in_src0 := map_resolve tab (in_src0 (blk_term b))\<rparr>\<rparr>, removed))"

definition alloca_slots :: "mfn \<Rightarrow> nat \<Rightarrow> bool" where
  "alloca_slots fn v \<longleftrightarrow> list_ex (\<lambda>b. list_ex (\<lambda>i. in_op i = MOP_ALLOCA \<and> in_dst i = Some v) (blk_ins b)) (fn_link fn)"

text \<open>The use chains are those of the function before the pass.\<close>

fun mfold_blocks :: "fpu \<Rightarrow> bool \<Rightarrow> mfn \<Rightarrow> mblk list \<Rightarrow> (mblk list \<times> nat) option" where
  "mfold_blocks F aggressive fn [] = Some ([], 0)"
| "mfold_blocks F aggressive fn (b # bs) =
     (case (msimp_block F aggressive fn (alloca_slots fn) b, mfold_blocks F aggressive fn bs) of
        (Some (b', r), Some (bs', s)) \<Rightarrow> Some (b' # bs', r + s)
      | _ \<Rightarrow> None)"

definition mfold :: "fpu \<Rightarrow> bool \<Rightarrow> mfn \<Rightarrow> (mfn \<times> nat) option" where
  "mfold F aggressive fn = map_option (\<lambda>(bs, r). (fn\<lparr>fn_link := bs\<rparr>, r)) (mfold_blocks F aggressive fn (fn_link fn))"

end
