(* ===== verification/Msimp_Correct.thy ===== *)
theory Msimp_Correct
  imports Msimp
begin

text \<open>
  Block simplification preserves the meaning of integer code in SSA form: the simplified block ends in
  the same machine state, gives every value used outside the block the same contents, and its
  terminator tests the same value.
\<close>

section \<open>The map\<close>

lemma map_get_empty [simp]: "map_get map_empty v = None"
  by (simp add: map_get_def map_empty_def)

lemma map_set_length [simp]: "length (map_set tab v r) = length tab"
  by (simp add: map_set_def)

lemma map_get_set: "length tab = 32 \<Longrightarrow> map_get (map_set tab v r) u = (if u = v then Some r else map_get tab u)"
  by (cases "u mod 32 = v mod 32") (auto simp: map_get_def map_set_def)

section \<open>Powers of two\<close>

lemma pow2_nat: "0 < n \<Longrightarrow> n AND (n - 1) = 0 \<Longrightarrow> \<exists>k. n = 2 ^ k" for n :: nat
proof (induction n rule: less_induct)
  case (less n)
  show ?case
  proof (cases "even n")
    case True
    then obtain m where m: "n = 2 * m" by blast
    have "(2 * m - 1) div 2 = m - 1" using less.prems(1) m by presburger
    then have "(2 * m) AND (2 * m - 1) = 2 * (m AND (m - 1))"
      using and_nat_rec [of "2 * m" "2 * m - 1"] by simp
    then have "m AND (m - 1) = 0" using less.prems(2) m by simp
    then obtain k where "m = 2 ^ k" using less.IH [of m] less.prems(1) m by auto
    then have "n = 2 ^ Suc k" using m by simp
    then show ?thesis ..
  next
    case False
    then have "(n - 1) div 2 = n div 2" by presburger
    then have "n AND (n - 1) = 2 * (n div 2)" using and_nat_rec [of n "n - 1"] False by simp
    then have "n = 1" using less.prems False by (simp add: odd_pos) presburger
    then show ?thesis by (intro exI [of _ 0]) simp
  qed
qed

lemma log2_loop_push: "k < 64 \<Longrightarrow> log2_loop (push_bit k 1) = k"
proof (induction k)
  case 0
  then show ?case by (simp add: log2_loop.simps)
next
  case (Suc k)
  have "bit (push_bit (Suc k) (1 :: u64)) (Suc k)" using Suc.prems by (simp add: bit_simps)
  then have "push_bit (Suc k) (1 :: u64) \<noteq> 0" by auto
  moreover have "push_bit (Suc k) (1 :: u64) AND 1 = 0" by (rule bit_word_eqI) (auto simp: bit_simps)
  moreover have "drop_bit 1 (push_bit (Suc k) (1 :: u64)) = push_bit k 1"
    using Suc.prems by (intro bit_word_eqI) (auto simp: bit_simps)
  ultimately show ?case using Suc by (subst log2_loop.simps) simp
qed

lemma is_pow2_cases:
  assumes "is_pow2 v"
  obtains k where "k < 63" "v = push_bit k 1" "log2_loop v = k" "unat v = 2 ^ k"
proof -
  have v: "0 <s v" "v AND (v - 1) = 0" using assms by (simp_all add: is_pow2_def)
  then have "v \<noteq> 0" by auto
  then have pos: "0 < unat v" by (simp add: unat_gt_0)
  then have "unat (v - 1) = unat v - 1" by (simp add: unat_sub_if_size)
  moreover have "unat v AND unat (v - 1) = 0" using v(2) by (metis unsigned_and_eq unsigned_0)
  ultimately obtain k where k: "unat v = 2 ^ k" using pow2_nat [OF pos] by auto
  have "unat v < 2 ^ 63"
  proof (rule ccontr)
    assume "\<not> unat v < 2 ^ 63"
    then have "2 ^ 63 \<le> unat v" by simp
    then have "sint v < 0" by (rule sint_large)
    then show False using v(1) by (simp add: word_sless_alt)
  qed
  then have "k < 63" using power_less_imp_less_exp [of "2 :: nat" k 63] k by simp
  moreover have "v = push_bit k 1"
  proof (rule u64_eqI)
    have "(2 :: nat) ^ k < 2 ^ 64" using \<open>k < 63\<close> by (intro power_strict_increasing) simp_all
    then show "unat v = unat (push_bit k 1 :: u64)"
      using \<open>k < 63\<close> by (simp only: k unsigned_push_bit_eq unsigned_1) (simp add: take_bit_nat_eq_self)
  qed
  ultimately show ?thesis using that [of k] log2_loop_push [of k] k by simp
qed

section \<open>The identities\<close>

lemma mir_alu_units:
  "mir_alu MOP_ADD w x 0 = Some (canon w x)" "mir_alu MOP_OR w x 0 = Some (canon w x)" "mir_alu MOP_XOR w x 0 = Some (canon w x)"
  "mir_alu MOP_SHL w x 0 = Some (canon w x)" "mir_alu MOP_SHR w x 0 = Some (canon w x)" "mir_alu MOP_SAR w x 0 = Some (canon w x)"
  "mir_alu MOP_MUL w x 1 = Some (canon w x)" "mir_alu MOP_MUL w x 0 = Some 0" "mir_alu MOP_AND w x 0 = Some 0"
  "mir_alu MOP_XOR w x x = Some 0" "mir_alu MOP_SUB w x x = Some 0"
  by (simp_all add: mir_alu_def canon_def)

lemma pow2_width:
  assumes "is_pow2 v" "canon w v = v"
  obtains k where "k < (if w then 63 else 31)" "v = push_bit k 1" "log2_loop v = k" "(ucast v :: u32) = push_bit k 1"
proof -
  obtain k where k: "k < 63" "v = push_bit k 1" "log2_loop v = k" "unat v = 2 ^ k" using assms(1) by (rule is_pow2_cases)
  have u: "(ucast v :: u32) = push_bit k 1" unfolding k(2) by (rule bit_word_eqI) (auto simp: bit_simps)
  have "k < 31" if "\<not> w"
  proof (rule ccontr)
    assume "\<not> k < 31"
    define z where "z = (ucast v :: u32)"
    have vz: "v = scast z" using assms(2) that by (simp add: canon_def z_def)
    have sign: "bit (scast z :: u64) n \<longleftrightarrow> bit z 31" if "31 \<le> n" "n < 64" for n
      using that by (auto simp: bit_simps min_def intro: arg_cong [of n 31])
    have "bit v k" using k(1) unfolding k(2) by (simp add: bit_simps)
    then have "bit v 63" using sign [of k] sign [of 63] k(1) \<open>\<not> k < 31\<close> unfolding vz by simp
    moreover have "\<not> bit v 63" using k(1) unfolding k(2) by (simp add: bit_simps)
    ultimately show False by simp
  qed
  then show ?thesis using that [of k] k u by auto
qed

lemma word_pow2:
  fixes x :: "'a::len word"
  assumes "k < LENGTH('a)"
  shows "x * push_bit k 1 = push_bit k x" "x div push_bit k 1 = drop_bit k x" "x mod push_bit k 1 = x AND (push_bit k 1 - 1)"
    "push_bit k 1 \<noteq> (0 :: 'a word)"
proof -
  show "x * push_bit k 1 = push_bit k x" by (simp add: push_bit_eq_mult)
  show "x div push_bit k 1 = drop_bit k x" by (simp add: drop_bit_eq_div)
  show "x mod push_bit k 1 = x AND (push_bit k 1 - 1)"
    by (simp add: take_bit_eq_mask mask_eq_exp_minus_1 flip: take_bit_eq_mod)
  show "push_bit k 1 \<noteq> (0 :: 'a word)" using assms by simp
qed

lemma mir_alu_pow2:
  assumes "is_pow2 v" "canon w v = v"
  shows "mir_alu MOP_MUL w x v = mir_alu MOP_SHL w x (word_of_nat (log2_loop v))"
    and "mir_alu MOP_UDIV w x v = mir_alu MOP_SHR w x (word_of_nat (log2_loop v))"
    and "mir_alu MOP_UREM w x v = mir_alu MOP_AND w x (v - 1)"
proof -
  obtain k where k: "k < (if w then 63 else 31)" "v = push_bit k 1" "log2_loop v = k" "(ucast v :: u32) = push_bit k 1"
    using assms by (rule pow2_width)
  have k64: "k < 64" "\<not> w \<Longrightarrow> k < 32" using k(1) by (auto split: if_splits)
  then have n: "unat (word_of_nat k :: u64) = k" "unat (ucast (word_of_nat k :: u64) :: u32) = k"
    by (simp_all add: unsigned_ucast_eq unat_of_nat take_bit_nat_eq_self)
  have one: "(ucast (v - 1) :: u32) = push_bit k 1 - 1" using ucast_arith(2) [of v 1] by (simp only: k(4)) simp
  have l: "LENGTH(64) = 64" "LENGTH(32) = 32" by simp_all
  have "mir_alu MOP_MUL w x v = mir_alu MOP_SHL w x (word_of_nat (log2_loop v)) \<and>
    mir_alu MOP_UDIV w x v = mir_alu MOP_SHR w x (word_of_nat (log2_loop v)) \<and>
    mir_alu MOP_UREM w x v = mir_alu MOP_AND w x (v - 1)"
  proof (cases w)
    case True
    have w: "y * v = push_bit k y" "y div v = drop_bit k y" "y mod v = y AND (v - 1)" "v \<noteq> 0" for y
      using word_pow2 [where 'a = 64, of k] k64(1) unfolding k(2) by simp_all
    have mk: "k mod 64 = k" using k64(1) by simp
    show ?thesis by (simp only: mir_alu_def True if_True alu.simps w k(3) n l mk if_False simp_thms)
  next
    case False
    have w: "y * push_bit k 1 = push_bit k y" "y div push_bit k 1 = drop_bit k y" "y mod push_bit k 1 = y AND (push_bit k 1 - 1)"
      "push_bit k 1 \<noteq> (0 :: u32)" for y :: u32
      using word_pow2 [where 'a = 32, of k] k64(2) [OF False] by simp_all
    have mk: "k mod 32 = k" using k64(2) [OF False] by simp
    show ?thesis by (simp only: mir_alu_def False if_False alu.simps w k(3,4) n l mk one simp_thms)
  qed
  then show "mir_alu MOP_MUL w x v = mir_alu MOP_SHL w x (word_of_nat (log2_loop v))"
    "mir_alu MOP_UDIV w x v = mir_alu MOP_SHR w x (word_of_nat (log2_loop v))"
    "mir_alu MOP_UREM w x v = mir_alu MOP_AND w x (v - 1)" by blast+
qed

section \<open>Well-formed blocks\<close>

definition ref_ok :: "'w machine \<Rightarrow> (nat \<Rightarrow> bool) \<Rightarrow> bool \<Rightarrow> mref \<Rightarrow> bool" where
  "ref_ok M ty w r =
     (case r of
        MREF_NONE \<Rightarrow> True
      | MREF_VAL v \<Rightarrow> w \<or> \<not> ty v
      | MREF_CON c \<Rightarrow> canon w (eval_con M c) = eval_con M c)"

definition not_float :: "mref \<Rightarrow> bool" where
  "not_float r = (case r of MREF_CON (MC_FLT _ _) \<Rightarrow> False | _ \<Rightarrow> True)"

text \<open>\<open>ty v\<close>: the value is 64 bits wide. Integer code has no floating-point operation or constant.\<close>

definition ins_ok :: "'w machine \<Rightarrow> (nat \<Rightarrow> bool) \<Rightarrow> mins \<Rightarrow> bool" where
  "ins_ok M ty i \<longleftrightarrow>
     \<not> mt_float (in_dtype i) \<and> in_op i \<notin> {MOP_I2F, MOP_UI2F, MOP_F2I, MOP_CFEQ, MOP_CFNE, MOP_CFLT, MOP_CFLE, MOP_CFGT, MOP_CFGE} \<and>
     not_float (in_src0 i) \<and> not_float (in_src1 i) \<and>
     (in_op i \<in> {MOP_SEXT, MOP_ZEXT, MOP_TRUNC} \<longrightarrow> in_src1 i = MREF_NONE) \<and>
     (is_alu (in_op i) \<longrightarrow> in_src0 i \<noteq> MREF_NONE \<and> ref_ok M ty (mt_wide (in_dtype i)) (in_src0 i) \<and> ref_ok M ty (mt_wide (in_dtype i)) (in_src1 i)) \<and>
     (case in_dst i of None \<Rightarrow> True | Some d \<Rightarrow> is_icmp (in_op i) \<or> ty d \<or> \<not> mt_wide (in_dtype i))"

definition uses_val :: "mins \<Rightarrow> nat \<Rightarrow> bool" where
  "uses_val i v \<longleftrightarrow> ref_val (in_src0 i) = Some v \<or> ref_val (in_src1 i) = Some v"

definition dsts :: "mins list \<Rightarrow> nat set" where
  "dsts is = {d. \<exists>i \<in> set is. in_dst i = Some d}"

fun ssa_ok :: "mins list \<Rightarrow> bool" where
  "ssa_ok [] = True"
| "ssa_ok (i # is) \<longleftrightarrow>
     (\<forall>v. uses_val i v \<longrightarrow> v \<notin> dsts (i # is)) \<and> (\<forall>d. in_dst i = Some d \<longrightarrow> d \<notin> dsts is) \<and> ssa_ok is"

text \<open>The rest of the machine delivers results of the width of the instruction.\<close>

definition machine_ok :: "'w machine \<Rightarrow> bool" where
  "machine_ok M \<longleftrightarrow> (\<forall>op dt e x y W r W'. mc_ext M op dt e x y W = Some (r, W') \<longrightarrow> canon (mt_wide dt) r = r)"

definition env_ok :: "(nat \<Rightarrow> bool) \<Rightarrow> (nat \<Rightarrow> u64) \<Rightarrow> bool" where
  "env_ok ty env \<longleftrightarrow> (\<forall>v. canon (ty v) (env v) = env v)"

section \<open>The simulation\<close>

text \<open>
  \<open>env\<close> is the state of the original block, \<open>env'\<close> that of the simplified one; \<open>D\<close> are the values still to
  be defined, \<open>Y\<close> the values that matter.
\<close>

definition sim :: "'w machine \<Rightarrow> mfn \<Rightarrow> nat \<Rightarrow> nat set \<Rightarrow> simp_map \<Rightarrow> nat set \<Rightarrow> (nat \<Rightarrow> u64) \<Rightarrow> (nat \<Rightarrow> u64) \<Rightarrow> bool" where
  "sim M fn b Y tab D env env' \<longleftrightarrow>
     length tab = 32 \<and>
     (\<forall>v. case map_get tab v of
        None \<Rightarrow> v \<in> Y - D \<longrightarrow> env' v = env v
      | Some r \<Rightarrow> r \<noteq> MREF_NONE \<and> eval_ref M env' r = env v \<and> v \<notin> D \<and> not_float r \<and> \<not> used_outside fn v b \<and>
          (case r of MREF_VAL u \<Rightarrow> u \<notin> D | _ \<Rightarrow> True))"

lemma sim_None: "sim M fn b Y tab D env env' \<Longrightarrow> map_get tab v = None \<Longrightarrow> v \<in> Y - D \<Longrightarrow> env' v = env v"
  by (auto simp: sim_def dest: spec [of _ v])

lemma sim_Some:
  assumes "sim M fn b Y tab D env env'" "map_get tab v = Some r"
  shows "r \<noteq> MREF_NONE" "eval_ref M env' r = env v" "v \<notin> D" "not_float r" "\<not> used_outside fn v b" "r = MREF_VAL u \<Longrightarrow> u \<notin> D"
proof -
  have "case map_get tab v of
        None \<Rightarrow> v \<in> Y - D \<longrightarrow> env' v = env v
      | Some r \<Rightarrow> r \<noteq> MREF_NONE \<and> eval_ref M env' r = env v \<and> v \<notin> D \<and> not_float r \<and> \<not> used_outside fn v b \<and>
          (case r of MREF_VAL u \<Rightarrow> u \<notin> D | _ \<Rightarrow> True)" using assms(1) unfolding sim_def by blast
  then show "r \<noteq> MREF_NONE" "eval_ref M env' r = env v" "v \<notin> D" "not_float r" "\<not> used_outside fn v b" "r = MREF_VAL u \<Longrightarrow> u \<notin> D"
    using assms(2) by auto
qed

lemma simI:
  assumes "length tab = 32" "\<And>v. map_get tab v = None \<Longrightarrow> v \<in> Y - D \<Longrightarrow> env' v = env v"
    "\<And>v r. map_get tab v = Some r \<Longrightarrow> r \<noteq> MREF_NONE \<and> eval_ref M env' r = env v \<and> v \<notin> D \<and> not_float r \<and>
       \<not> used_outside fn v b \<and> (\<forall>u. r = MREF_VAL u \<longrightarrow> u \<notin> D)"
  shows "sim M fn b Y tab D env env'"
  unfolding sim_def
proof (intro conjI allI)
  fix v
  show "case map_get tab v of
        None \<Rightarrow> v \<in> Y - D \<longrightarrow> env' v = env v
      | Some r \<Rightarrow> r \<noteq> MREF_NONE \<and> eval_ref M env' r = env v \<and> v \<notin> D \<and> not_float r \<and> \<not> used_outside fn v b \<and>
          (case r of MREF_VAL u \<Rightarrow> u \<notin> D | _ \<Rightarrow> True)"
    using assms(2,3) [of v] by (auto split: option.split mref.split)
qed (rule assms(1))

lemma sim_resolve:
  assumes "sim M fn b Y tab D env env'"
  shows "(\<And>v. ref_val r = Some v \<Longrightarrow> v \<in> Y - D) \<Longrightarrow> eval_ref M env' (map_resolve tab r) = eval_ref M env r"
    and "not_float r \<Longrightarrow> not_float (map_resolve tab r)"
    and "ref_val r = Some v \<Longrightarrow> v \<notin> D \<Longrightarrow> ref_val (map_resolve tab r) = Some u \<Longrightarrow> u \<notin> D"
proof -
  show "eval_ref M env' (map_resolve tab r) = eval_ref M env r" if "\<And>v. ref_val r = Some v \<Longrightarrow> v \<in> Y - D"
    using that sim_None [OF assms] sim_Some [OF assms] by (cases r) (auto simp: map_resolve_def split: option.splits)
  show "not_float r \<Longrightarrow> not_float (map_resolve tab r)"
    using sim_Some(4) [OF assms] by (cases r) (auto simp: map_resolve_def split: option.splits)
  show "ref_val r = Some v \<Longrightarrow> v \<notin> D \<Longrightarrow> ref_val (map_resolve tab r) = Some u \<Longrightarrow> u \<notin> D"
    using sim_Some(6) [OF assms] by (cases r; cases "map_resolve tab r") (auto simp: map_resolve_def split: option.splits if_splits)
qed

lemma eval_ref_upd: "r \<noteq> MREF_VAL d \<Longrightarrow> eval_ref M (env(d := x)) r = eval_ref M env r"
  by (cases r) auto

lemma sim_keep:
  assumes "sim M fn b Y tab D env env'" "d \<in> D"
  shows "sim M fn b Y tab (D - {d}) (env(d := x)) (env'(d := x))"
proof (rule simI)
  show "length tab = 32" using assms(1) by (simp add: sim_def)
  show "(env'(d := x)) v = (env(d := x)) v" if "map_get tab v = None" "v \<in> Y - (D - {d})" for v
    using that sim_None [OF assms(1) that(1)] by auto
  fix v r
  assume r: "map_get tab v = Some r"
  note s = sim_Some [OF assms(1) r]
  have "v \<noteq> d" "r \<noteq> MREF_VAL d" using s(3,6) assms(2) by auto
  then show "r \<noteq> MREF_NONE \<and> eval_ref M (env'(d := x)) r = (env(d := x)) v \<and> v \<notin> D - {d} \<and> not_float r \<and>
      \<not> used_outside fn v b \<and> (\<forall>u. r = MREF_VAL u \<longrightarrow> u \<notin> D - {d})"
    using s by (auto simp: eval_ref_upd)
qed

lemma sim_replace:
  assumes "sim M fn b Y tab D env env'" "d \<in> D" "\<not> used_outside fn d b" "r \<noteq> MREF_NONE" "not_float r" "eval_ref M env' r = x"
    "\<forall>u. ref_val r = Some u \<longrightarrow> u \<notin> D"
  shows "sim M fn b Y (map_set tab d r) (D - {d}) (env(d := x)) env'"
proof (rule simI)
  have len: "length tab = 32" using assms(1) by (simp add: sim_def)
  then show "length (map_set tab d r) = 32" by simp
  show "env' v = (env(d := x)) v" if "map_get (map_set tab d r) v = None" "v \<in> Y - (D - {d})" for v
    using that sim_None [OF assms(1), of v] by (auto simp: map_get_set [OF len] split: if_splits)
  fix v q
  assume q: "map_get (map_set tab d r) v = Some q"
  show "q \<noteq> MREF_NONE \<and> eval_ref M env' q = (env(d := x)) v \<and> v \<notin> D - {d} \<and> not_float q \<and>
      \<not> used_outside fn v b \<and> (\<forall>u. q = MREF_VAL u \<longrightarrow> u \<notin> D - {d})"
  proof (cases "v = d")
    case True
    then show ?thesis using q assms(3-7) by (auto simp: map_get_set [OF len])
  next
    case False
    then have "map_get tab v = Some q" using q by (simp add: map_get_set [OF len])
    from sim_Some [OF assms(1) this] False show ?thesis by auto
  qed
qed

section \<open>One instruction\<close>

lemma step_alu: "is_alu op \<Longrightarrow> \<not> mt_float dt \<Longrightarrow> step_ins M op dt e x y W = map_option (\<lambda>r. (r, W)) (mir_alu op (mt_wide dt) x y)"
  by (simp add: step_ins_def)

text \<open>What it means for the action on an instruction to be right, for the operands \<open>a0\<close>, \<open>a1\<close> in the environment of the new block.\<close>

definition action_ok :: "'w machine \<Rightarrow> (nat \<Rightarrow> u64) \<Rightarrow> mins \<Rightarrow> mref \<Rightarrow> 'w \<Rightarrow> u64 \<times> 'w \<Rightarrow> action \<Rightarrow> bool" where
  "action_ok M env i a0 W rW act =
     (case act of
        Replace q \<Rightarrow>
          in_dst i \<noteq> None \<and> rW = (eval_ref M env q, W) \<and> q \<noteq> MREF_NONE \<and> not_float q \<and> (\<forall>u. ref_val q = Some u \<longrightarrow> ref_val a0 = Some u)
      | Keep j \<Rightarrow>
          step_ins M (in_op j) (in_dtype j) (in_extra j) (eval_ref M env (in_src0 j)) (eval_ref M env (in_src1 j)) W = Some rW \<and>
          in_dst j = in_dst i)"

lemma keep_ok:
  "step_ins M op (in_dtype i) (in_extra i) (eval_ref M env a0) (eval_ref M env a1) W = Some rW \<Longrightarrow>
     action_ok M env i a0' W rW (keep i op a0 a1)"
  by (simp add: action_ok_def keep_def)

lemma not_float_int [simp]: "not_float (MREF_CON (MC_INT t i))" "not_float (MREF_VAL v)" "not_float MREF_NONE"
  by (simp_all add: not_float_def)

lemma int_con_eval: "int_con r = Some v \<Longrightarrow> eval_ref M env r = v"
  by (cases r) (auto simp: int_con_def split: mconst.splits)

lemma msimp_alg_ok:
  assumes step: "step_ins M (in_op i) (in_dtype i) (in_extra i) (eval_ref M env a0) (eval_ref M env a1) W = Some rW"
    and float: "\<not> mt_float (in_dtype i)" and dst: "in_dst i \<noteq> None"
    and ops: "is_alu (in_op i) \<Longrightarrow> a0 \<noteq> MREF_NONE \<and> not_float a0 \<and>
      canon (mt_wide (in_dtype i)) (eval_ref M env a0) = eval_ref M env a0 \<and>
      canon (mt_wide (in_dtype i)) (eval_ref M env a1) = eval_ref M env a1"
  shows "action_ok M env i a0 W rW (msimp_alg aggressive i a0 a1)"
proof -
  define w where "w = mt_wide (in_dtype i)"
  have stay: "action_ok M env i a0 W rW (keep i (in_op i) a0 a1)" by (rule keep_ok [OF step])
  have alu: "\<exists>r. rW = (r, W) \<and> mir_alu (in_op i) w (eval_ref M env a0) (eval_ref M env a1) = Some r" if "is_alu (in_op i)"
    using step unfolding step_alu [OF that float] w_def by auto
  have same: "eval_ref M env a0 = eval_ref M env a1" if "ref_val a0 \<noteq> None" "ref_val a0 = ref_val a1"
    using that by (cases a0; cases a1) auto
  have subst_op: "action_ok M env i a0 W rW (keep i op a0 b)"
    if "is_alu (in_op i)" "is_alu op" "mir_alu (in_op i) w (eval_ref M env a0) (eval_ref M env a1) = mir_alu op w (eval_ref M env a0) (eval_ref M env b)"
    for op b
    using step that(3) unfolding step_alu [OF that(1) float] w_def by (intro keep_ok) (simp add: step_alu [OF that(2) float])
  have to_a0: "action_ok M env i a0 W rW (Replace a0)"
    if "is_alu (in_op i)" "mir_alu (in_op i) w (eval_ref M env a0) (eval_ref M env a1) = Some (canon w (eval_ref M env a0))"
    using alu [OF that(1)] ops [OF that(1)] that(2) dst by (auto simp: action_ok_def w_def)
  have to_zero: "action_ok M env i a0 W rW (Replace (MREF_CON (MC_INT (in_dtype i) 0)))"
    if "is_alu (in_op i)" "mir_alu (in_op i) w (eval_ref M env a0) (eval_ref M env a1) = Some 0"
    using alu [OF that(1)] that(2) dst by (auto simp: action_ok_def)
  note int = int_con_eval [of a1 _ M env]
  consider (unit) "in_op i \<in> {MOP_ADD, MOP_OR, MOP_SHL, MOP_SHR, MOP_SAR}" | (mul) "in_op i = MOP_MUL" | (land) "in_op i = MOP_AND"
    | (xor) "in_op i = MOP_XOR" | (sub) "in_op i = MOP_SUB" | (udiv) "in_op i = MOP_UDIV" | (urem) "in_op i = MOP_UREM"
    | (other) "in_op i \<notin> {MOP_ADD, MOP_OR, MOP_SHL, MOP_SHR, MOP_SAR, MOP_MUL, MOP_AND, MOP_XOR, MOP_SUB, MOP_UDIV, MOP_UREM}"
    by blast
  then show ?thesis
  proof cases
    case unit
    then have "is_alu (in_op i)" by (auto simp: is_alu_iff)
    then show ?thesis
      using unit stay to_a0 int [of 0] by (auto simp: msimp_alg_def Let_def mir_alu_units)
  next
    case mul
    then have a: "is_alu (in_op i)" "is_alu MOP_SHL" by (auto simp: is_alu_iff)
    show ?thesis
    proof (cases "int_con a1")
      case (Some v)
      have v: "canon w v = v" using ops [OF a(1)] int [OF Some] by (simp add: w_def)
      show ?thesis
        using mul stay to_a0 [OF a(1)] to_zero [OF a(1)] subst_op [OF a] int [OF Some] mir_alu_pow2(1) [OF _ v]
        by (auto simp: msimp_alg_def Let_def mir_alu_units Some)
    qed (use mul stay in \<open>simp add: msimp_alg_def Let_def\<close>)
  next
    case land
    then show ?thesis using stay to_zero int [of 0] by (auto simp: msimp_alg_def Let_def mir_alu_units is_alu_iff)
  next
    case xor
    then have a: "is_alu (in_op i)" by (simp add: is_alu_iff)
    show ?thesis
    proof (cases "int_con a1 = Some 0")
      case True
      then show ?thesis using xor to_a0 [OF a] int [OF True] by (simp add: msimp_alg_def Let_def mir_alu_units)
    next
      case False
      show ?thesis
      proof (cases "ref_val a0 \<noteq> None \<and> ref_val a0 = ref_val a1")
        case True
        then show ?thesis using xor False to_zero [OF a] same by (auto simp: msimp_alg_def Let_def mir_alu_units)
      qed (use xor False stay in \<open>auto simp: msimp_alg_def Let_def\<close>)
    qed
  next
    case sub
    then have a: "is_alu (in_op i)" by (simp add: is_alu_iff)
    show ?thesis
    proof (cases "ref_val a0 \<noteq> None \<and> ref_val a0 = ref_val a1")
      case True
      then show ?thesis using sub to_zero [OF a] same by (auto simp: msimp_alg_def Let_def mir_alu_units)
    qed (use sub stay in \<open>auto simp: msimp_alg_def Let_def\<close>)
  next
    case udiv
    then have a: "is_alu (in_op i)" "is_alu MOP_SHR" by (auto simp: is_alu_iff)
    show ?thesis
    proof (cases "int_con a1")
      case (Some v)
      have v: "canon w v = v" using ops [OF a(1)] int [OF Some] by (simp add: w_def)
      show ?thesis
        using udiv stay subst_op [OF a] int [OF Some] mir_alu_pow2(2) [OF _ v] by (auto simp: msimp_alg_def Let_def Some)
    qed (use udiv stay in \<open>simp add: msimp_alg_def Let_def\<close>)
  next
    case urem
    then have a: "is_alu (in_op i)" "is_alu MOP_AND" by (auto simp: is_alu_iff)
    show ?thesis
    proof (cases "int_con a1")
      case (Some v)
      have v: "canon w v = v" using ops [OF a(1)] int [OF Some] by (simp add: w_def)
      show ?thesis
        using urem stay subst_op [OF a] int [OF Some] mir_alu_pow2(3) [OF _ v] by (auto simp: msimp_alg_def Let_def Some)
    qed (use urem stay in \<open>simp add: msimp_alg_def Let_def\<close>)
  next
    case other
    then show ?thesis using stay by (simp add: msimp_alg_def Let_def)
  qed
qed

text \<open>Folding: only two integer constants fold, and only in an operation of the arithmetic unit or a comparison.\<close>

lemma fold_int_only:
  assumes "mfold_const F op w cl cr \<noteq> Not_foldable" "not_float (MREF_CON cl)" "not_float (MREF_CON cr)"
    "op \<notin> {MOP_I2F, MOP_UI2F, MOP_F2I, MOP_CFEQ, MOP_CFNE, MOP_CFLT, MOP_CFLE, MOP_CFGT, MOP_CFGE, MOP_SEXT, MOP_ZEXT, MOP_TRUNC}"
  obtains t1 l t2 r where "cl = MC_INT t1 l" "cr = MC_INT t2 r" "is_alu op \<or> is_icmp op"
proof -
  obtain t1 l t2 r where c: "cl = MC_INT t1 l" "cr = MC_INT t2 r"
    using assms by (cases cl; cases cr) (auto simp: mfold_const_def not_float_def Let_def split: if_splits)
  have "is_alu op \<or> is_icmp op"
    using assms(1,4) unfolding c is_alu_iff is_icmp_iff
    by (auto simp: mfold_const_def mfold_int_def mfold_icmp_def Let_def split: if_splits)
  then show ?thesis using that c by blast
qed

lemma fold_step:
  assumes "is_alu op \<or> is_icmp op" "\<not> mt_float dt" "is_alu op \<Longrightarrow> canon (mt_wide dt) l = l \<and> canon (mt_wide dt) r = r"
    "step_ins M op dt e l r W = Some rW"
  shows "\<exists>t x. mfold_const F op (mt_wide dt) (MC_INT t1 l) (MC_INT t2 r) = Folded (MC_INT t x) \<and> rW = (x, W)"
proof (cases "is_alu op")
  case True
  then have c: "canon (mt_wide dt) l = l" "canon (mt_wide dt) r = r" using assms(3) by auto
  obtain x where x: "rW = (x, W)" "mir_alu op (mt_wide dt) l r = Some x"
    using assms(4) unfolding step_alu [OF True assms(2)] by auto
  then show ?thesis using mfold_int_alu [OF True c, of t1] by (simp add: mfold_const_int(1) [OF True])
next
  case False
  then have "is_icmp op" using assms(1) by simp
  then show ?thesis using assms(4) False by (auto simp: mfold_const_int(2) step_ins_def)
qed

lemma step_neg: "\<not> mt_float dt \<Longrightarrow> step_ins M MOP_NEG dt e x y W = step_ins M MOP_NEG dt e x 0 W"
  by (simp add: step_ins_def is_alu_iff mir_alu_def)

lemma msimp_fold_ok:
  assumes step: "step_ins M (in_op i) (in_dtype i) (in_extra i) (eval_ref M env a0) (eval_ref M env a1) W = Some rW"
    and ok: "ins_ok M ty i" and fl: "not_float a0" "not_float a1" and src1: "in_src1 i = MREF_NONE \<Longrightarrow> a1 = MREF_NONE"
    and ops: "is_alu (in_op i) \<Longrightarrow>
      canon (mt_wide (in_dtype i)) (eval_ref M env a0) = eval_ref M env a0 \<and>
      canon (mt_wide (in_dtype i)) (eval_ref M env a1) = eval_ref M env a1"
  shows "msimp_fold F fn b i a0 a1 = Not_foldable \<or>
    (\<exists>d t x. in_dst i = Some d \<and> \<not> used_outside fn d b \<and> msimp_fold F fn b i a0 a1 = Folded (MC_INT t x) \<and> rW = (x, W))"
proof (cases "msimp_fold F fn b i a0 a1 = Not_foldable")
  case nf: False
  define w where "w = mt_wide (in_dtype i)"
  have float: "\<not> mt_float (in_dtype i)" and nop: "in_op i \<notin> {MOP_I2F, MOP_UI2F, MOP_F2I, MOP_CFEQ, MOP_CFNE, MOP_CFLT, MOP_CFLE, MOP_CFGT, MOP_CFGE}"
    using ok by (simp_all add: ins_ok_def)
  obtain d cl where d: "in_dst i = Some d" "ref_con a0 = Some cl" "\<not> used_outside fn d b"
    using nf by (auto simp: msimp_fold_def split: option.splits if_splits)
  have a0: "a0 = MREF_CON cl" using d(2) by (cases a0) auto
  define cr where "cr = (if in_op i = MOP_NEG then Some (MC_INT (con_type cl) 0) else ref_con a1)"
  define res where "res = (case cr of Some c \<Rightarrow> mfold_const F (in_op i) w cl c | None \<Rightarrow> Not_foldable)"
  have nop': "in_op i \<noteq> MOP_I2F" "in_op i \<noteq> MOP_UI2F" "in_op i \<noteq> MOP_F2I" using nop by auto
  have fold: "msimp_fold F fn b i a0 a1 = res"
  proof (cases "in_op i = MOP_NEG")
    case True
    then show ?thesis
      by (simp add: msimp_fold_def d Let_def res_def cr_def w_def less_mop_def split: fold_result.split mconst.split)
  next
    case False
    have cond: "in_op i < MOP_JMP \<or> in_op i > MOP_CALL" using nf d by (auto simp: msimp_fold_def split: if_splits)
    show ?thesis
      using cond d(3) False nop'
      by (simp add: msimp_fold_def d(1,2) Let_def res_def cr_def w_def split: fold_result.split mconst.split option.split)
  qed
  with nf obtain c where c: "cr = Some c" "mfold_const F (in_op i) w cl c \<noteq> Not_foldable" by (auto simp: res_def split: option.splits)
  have "not_float (MREF_CON c)"
    using c(1) fl(2) by (cases a1) (auto simp: cr_def not_float_def split: if_splits)
  moreover have "in_op i \<notin> {MOP_SEXT, MOP_ZEXT, MOP_TRUNC}"
  proof
    assume conv: "in_op i \<in> {MOP_SEXT, MOP_ZEXT, MOP_TRUNC}"
    then have "in_src1 i = MREF_NONE" using ok by (simp add: ins_ok_def)
    then show False using c(1) conv src1 by (auto simp: cr_def)
  qed
  ultimately obtain t1 l t2 r where lr: "cl = MC_INT t1 l" "c = MC_INT t2 r" "is_alu (in_op i) \<or> is_icmp (in_op i)"
    using fold_int_only [OF c(2)] fl(1) nop unfolding a0 by blast
  have l: "eval_ref M env a0 = l" by (simp add: a0 lr(1))
  have "(in_op i = MOP_NEG \<and> r = 0) \<or> (in_op i \<noteq> MOP_NEG \<and> eval_ref M env a1 = r)"
    using c(1) unfolding lr(2) by (cases a1) (auto simp: cr_def split: if_splits)
  then have "step_ins M (in_op i) (in_dtype i) (in_extra i) l r W = Some rW \<and>
      (is_alu (in_op i) \<longrightarrow> canon w l = l \<and> canon w r = r)"
    using step step_neg [OF float, of M "in_extra i" l "eval_ref M env a1" W] ops by (auto simp: l w_def canon_def)
  then have "\<exists>t x. mfold_const F (in_op i) w (MC_INT t1 l) (MC_INT t2 r) = Folded (MC_INT t x) \<and> rW = (x, W)"
    using fold_step [OF lr(3) float, of l r M "in_extra i" W rW F t1 t2] by (simp add: w_def)
  then have "\<exists>d t x. in_dst i = Some d \<and> \<not> used_outside fn d b \<and> msimp_fold F fn b i a0 a1 = Folded (MC_INT t x) \<and> rW = (x, W)"
    using d fold by (simp add: res_def c(1) lr)
  then show ?thesis ..
qed simp

lemma msimp_ins_ok:
  assumes step: "step_ins M (in_op i) (in_dtype i) (in_extra i) (eval_ref M env a0) (eval_ref M env a1) W = Some rW"
    and ok: "ins_ok M ty i" and fl: "not_float a0" "not_float a1" and src1: "in_src1 i = MREF_NONE \<Longrightarrow> a1 = MREF_NONE"
    and ops: "is_alu (in_op i) \<Longrightarrow> a0 \<noteq> MREF_NONE \<and>
      canon (mt_wide (in_dtype i)) (eval_ref M env a0) = eval_ref M env a0 \<and>
      canon (mt_wide (in_dtype i)) (eval_ref M env a1) = eval_ref M env a1"
    and slots: "\<forall>v. \<not> slots v"
  shows "\<exists>act. msimp_ins F aggressive fn slots b [] i a0 a1 = Some ([], act) \<and> action_ok M env i a0 W rW act \<and>
    (\<forall>q d. act = Replace q \<longrightarrow> in_dst i = Some d \<longrightarrow> \<not> used_outside fn d b)"
proof -
  have mem: "msimp_mem fn slots b [] i a0 a1 = ([], MREF_NONE)"
    using slots by (auto simp: msimp_mem_def Let_def split: option.split)
  have float: "\<not> mt_float (in_dtype i)" using ok by (simp add: ins_ok_def)
  have stay: "action_ok M env i a0 W rW (keep i (in_op i) a0 a1)" by (rule keep_ok [OF step])
  consider (fold) d t x where "in_dst i = Some d" "\<not> used_outside fn d b" "msimp_fold F fn b i a0 a1 = Folded (MC_INT t x)" "rW = (x, W)"
    | (alg) d where "msimp_fold F fn b i a0 a1 = Not_foldable" "in_dst i = Some d" "\<not> used_outside fn d b"
    | (other) "msimp_fold F fn b i a0 a1 = Not_foldable" "\<forall>d. in_dst i = Some d \<longrightarrow> used_outside fn d b"
    using msimp_fold_ok [OF step ok fl src1, of F fn b] ops by blast
  then show ?thesis
  proof cases
    case fold
    then show ?thesis by (simp add: msimp_ins_def action_ok_def)
  next
    case alg
    have "action_ok M env i a0 W rW (msimp_alg aggressive i a0 a1)"
      by (rule msimp_alg_ok [OF step float]) (use alg(2) ops fl in auto)
    then show ?thesis using alg stay by (auto simp: msimp_ins_def mem)
  next
    case other
    then show ?thesis using stay by (auto simp: msimp_ins_def mem keep_def split: option.split)
  qed
qed

section \<open>The block\<close>

lemma ref_ok_canon: "ref_ok M ty w r \<Longrightarrow> env_ok ty env \<Longrightarrow> canon w (eval_ref M env r) = eval_ref M env r"
proof (cases r)
  case (MREF_VAL v)
  assume r: "ref_ok M ty w r" and env: "env_ok ty env"
  have "canon (ty v) (env v) = env v" using env by (simp add: env_ok_def)
  then show ?thesis using r MREF_VAL by (cases w) (auto simp: ref_ok_def canon_def)
qed (auto simp: ref_ok_def canon_def)

lemma step_canon:
  assumes "step_ins M (in_op i) (in_dtype i) e x y W = Some (r, W')" "ins_ok M ty i" "machine_ok M" "in_dst i = Some d"
  shows "canon (ty d) r = r"
proof (cases "is_icmp (in_op i)")
  case True
  then show ?thesis using assms(1) alu_not_cmp [of "in_op i"] by (auto simp: step_ins_def split: if_splits)
next
  case False
  then have d: "ty d \<or> \<not> mt_wide (in_dtype i)" using assms(2,4) by (auto simp: ins_ok_def)
  have "canon (mt_wide (in_dtype i)) r = r"
    using assms(1) False assms(3) [unfolded machine_ok_def, rule_format, of "in_op i" "in_dtype i" e x y]
    by (auto simp: step_ins_def split: if_splits dest: mir_alu_canon)
  then show ?thesis using d by (cases "ty d") (auto simp: canon_def)
qed

lemma env_ok_set: "env_ok ty env \<Longrightarrow> (\<And>d. dst = Some d \<Longrightarrow> canon (ty d) r = r) \<Longrightarrow> env_ok ty (set_dst dst r env)"
  by (auto simp: env_ok_def set_dst_def split: option.split)

lemma dsts_Cons: "dsts (i # is) = (case in_dst i of None \<Rightarrow> dsts is | Some d \<Rightarrow> insert d (dsts is))"
  by (auto simp: dsts_def split: option.split)

lemma sim_D: "sim M fn b Y tab D env env' \<Longrightarrow> D' = D \<Longrightarrow> sim M fn b Y tab D' env env'"
  by simp

lemma loop_ok:
  assumes "exec_ins M is (env, W) = Some (e2, W2)" "sim M fn b Y tab (dsts is) env env'" "env_ok ty env" "ssa_ok is"
    "\<forall>i \<in> set is. ins_ok M ty i \<and> (\<forall>v. uses_val i v \<longrightarrow> v \<in> Y)" "machine_ok M" "\<forall>v. \<not> slots v"
  shows "\<exists>out tab' n e2'. msimp_loop F aggressive fn slots b tab [] is = Some (out, tab', n) \<and>
    exec_ins M out (env', W) = Some (e2', W2) \<and> sim M fn b Y tab' {} e2 e2' \<and> dsts out \<subseteq> dsts is"
  using assms(1-5)
proof (induction "is" arbitrary: env env' W tab)
  case Nil
  then show ?case by (simp add: dsts_def)
next
  case (Cons i "is")
  define a0 a1 where "a0 = map_resolve tab (in_src0 i)" and "a1 = map_resolve tab (in_src1 i)"
  note sim = Cons.prems(2)
  have ok: "ins_ok M ty i" and ssa: "ssa_ok is" using Cons.prems(4,5) by simp_all
  have ev: "eval_ref M env' a0 = eval_ref M env (in_src0 i)" "eval_ref M env' a1 = eval_ref M env (in_src1 i)"
    unfolding a0_def a1_def by (rule sim_resolve(1) [OF sim]; use Cons.prems(4,5) in \<open>auto simp: uses_val_def\<close>)+
  obtain r W' where rW: "step_ins M (in_op i) (in_dtype i) (in_extra i) (eval_ref M env' a0) (eval_ref M env' a1) W = Some (r, W')"
    and rest: "exec_ins M is (set_dst (in_dst i) r env, W') = Some (e2, W2)"
    using Cons.prems(1) by (auto simp: ev split: option.splits)
  have fl: "not_float a0" "not_float a1"
    using ok sim_resolve(2) [OF sim] by (simp_all add: ins_ok_def a0_def a1_def)
  have src1: "a1 = MREF_NONE" if "in_src1 i = MREF_NONE" using that by (simp add: a1_def map_resolve_def)
  have a0: "a0 \<noteq> MREF_NONE" if "in_src0 i \<noteq> MREF_NONE"
    using that sim_Some(1) [OF sim] by (cases "in_src0 i") (auto simp: a0_def map_resolve_def split: option.split)
  have ops: "a0 \<noteq> MREF_NONE \<and> canon (mt_wide (in_dtype i)) (eval_ref M env' a0) = eval_ref M env' a0 \<and>
      canon (mt_wide (in_dtype i)) (eval_ref M env' a1) = eval_ref M env' a1" if "is_alu (in_op i)"
    using that a0 ok [unfolded ins_ok_def] ref_ok_canon [where M = M, OF _ Cons.prems(3)] by (auto simp: ev)
  obtain act where act: "msimp_ins F aggressive fn slots b [] i a0 a1 = Some ([], act)" "action_ok M env' i a0 W (r, W') act"
      "\<And>q d. act = Replace q \<Longrightarrow> in_dst i = Some d \<Longrightarrow> \<not> used_outside fn d b"
    using msimp_ins_ok [OF rW ok fl src1 ops assms(7), of F aggressive fn b] by blast
  have env: "env_ok ty (set_dst (in_dst i) r env)"
    by (rule env_ok_set [OF Cons.prems(3)]) (rule step_canon [OF rW ok assms(6)])
  note IH = Cons.IH [OF rest _ env ssa]
  have okis: "\<forall>i \<in> set is. ins_ok M ty i \<and> (\<forall>v. uses_val i v \<longrightarrow> v \<in> Y)" using Cons.prems(5) by simp
  have fresh: "dsts (i # is) - {d} = dsts is" "d \<in> dsts (i # is)" if "in_dst i = Some d" for d
    using that Cons.prems(4) by (auto simp: dsts_Cons)
  show ?case
  proof (cases act)
    case (Replace q)
    then obtain d where d: "in_dst i = Some d" and q: "r = eval_ref M env' q" "W' = W" "q \<noteq> MREF_NONE" "not_float q"
        "\<And>u. ref_val q = Some u \<Longrightarrow> ref_val a0 = Some u"
      using act(2) by (auto simp: action_ok_def)
    have fresh_q: "\<forall>u. ref_val q = Some u \<longrightarrow> u \<notin> dsts (i # is)"
    proof (intro allI impI)
      fix u
      assume "ref_val q = Some u"
      then have u: "ref_val a0 = Some u" by (rule q(5))
      then obtain v where v: "ref_val (in_src0 i) = Some v" by (cases "in_src0 i") (auto simp: a0_def map_resolve_def)
      then have "v \<notin> dsts (i # is)" using Cons.prems(4) by (auto simp: uses_val_def)
      then show "u \<notin> dsts (i # is)" using sim_resolve(3) [OF sim v _ u [unfolded a0_def]] by simp
    qed
    have "sim M fn b Y (map_set tab d q) (dsts is) (set_dst (in_dst i) r env) env'"
      using sim_replace [OF sim fresh(2) [OF d] act(3) [OF Replace d] q(3,4) q(1) [symmetric] fresh_q]
      by (simp add: fresh(1) [OF d] set_dst_def d)
    from IH [OF this okis] obtain out tab' n e2' where
      "msimp_loop F aggressive fn slots b (map_set tab d q) [] is = Some (out, tab', n)" "exec_ins M out (env', W) = Some (e2', W2)"
      "sim M fn b Y tab' {} e2 e2'" "dsts out \<subseteq> dsts is" by (auto simp: q(2))
    then show ?thesis using act(1) Replace d by (auto simp: a0_def a1_def dsts_Cons)
  next
    case (Keep j)
    then have j: "step_ins M (in_op j) (in_dtype j) (in_extra j) (eval_ref M env' (in_src0 j)) (eval_ref M env' (in_src1 j)) W = Some (r, W')"
        "in_dst j = in_dst i"
      using act(2) by (auto simp: action_ok_def)
    have "sim M fn b Y tab (dsts is) (set_dst (in_dst i) r env) (set_dst (in_dst i) r env')"
    proof (cases "in_dst i")
      case None
      then show ?thesis using sim by (simp add: set_dst_def dsts_Cons)
    next
      case (Some d)
      then show ?thesis using sim_keep [OF sim fresh(2) [OF Some], of r] by (simp add: set_dst_def fresh(1) [OF Some])
    qed
    from IH [OF this okis] obtain out tab' n e2' where
      out: "msimp_loop F aggressive fn slots b tab [] is = Some (out, tab', n)" "exec_ins M out (set_dst (in_dst i) r env', W') = Some (e2', W2)"
      "sim M fn b Y tab' {} e2 e2'" "dsts out \<subseteq> dsts is" by auto
    have "exec_ins M (j # out) (env', W) = Some (e2', W2)" using j out(2) by simp
    moreover have "dsts (j # out) \<subseteq> dsts (i # is)" using out(4) j(2) by (auto simp: dsts_Cons split: option.split)
    ultimately show ?thesis using out(1,3) act(1) Keep by (auto simp: a0_def a1_def)
  qed
qed

lemma exec_frame: "exec_ins M is s = Some s' \<Longrightarrow> v \<notin> dsts is \<Longrightarrow> fst s' v = fst s v"
proof (induction M "is" s rule: exec_ins.induct)
  case (2 M i "is" env W)
  then show ?case by (auto simp: dsts_Cons set_dst_def split: option.splits)
qed simp

definition blk_uses :: "mblk \<Rightarrow> nat \<Rightarrow> bool" where
  "blk_uses b v \<longleftrightarrow> (\<exists>i \<in> set (blk_ins b). uses_val i v) \<or> ref_val (in_src0 (blk_term b)) = Some v"

lemma msimp_block_sim:
  assumes "exec_ins M (blk_ins b) (env, W) = Some (e2, W2)" "env_ok ty env" "ssa_ok (blk_ins b)" "list_all (ins_ok M ty) (blk_ins b)"
    "machine_ok M" "\<forall>v. \<not> alloca_slots fn v" "\<And>v. v \<in> Y \<Longrightarrow> v \<notin> dsts (blk_ins b) \<Longrightarrow> env' v = env v"
    "\<And>v. blk_uses b v \<Longrightarrow> v \<in> Y"
  shows "\<exists>b' n e2'. msimp_block F aggressive fn (alloca_slots fn) b = Some (b', n) \<and>
    exec_ins M (blk_ins b') (env', W) = Some (e2', W2) \<and>
    (\<forall>v \<in> Y. used_outside fn v (blk_id b) \<or> v \<notin> dsts (blk_ins b) \<longrightarrow> e2' v = e2 v) \<and>
    eval_ref M e2' (in_src0 (blk_term b')) = eval_ref M e2 (in_src0 (blk_term b))"
proof -
  have "sim M fn (blk_id b) Y map_empty (dsts (blk_ins b)) env env'"
    by (rule simI) (use assms(7) in \<open>simp_all add: map_empty_def map_get_empty [unfolded map_empty_def]\<close>)
  moreover have "\<forall>i \<in> set (blk_ins b). ins_ok M ty i \<and> (\<forall>v. uses_val i v \<longrightarrow> v \<in> Y)"
    using assms(4,8) by (auto simp: list_all_iff blk_uses_def)
  ultimately obtain out tab n e2' where
    out: "msimp_loop F aggressive fn (alloca_slots fn) (blk_id b) map_empty [] (blk_ins b) = Some (out, tab, n)"
      "exec_ins M out (env', W) = Some (e2', W2)" and sim: "sim M fn (blk_id b) Y tab {} e2 e2'" and sub: "dsts out \<subseteq> dsts (blk_ins b)"
    using loop_ok [OF assms(1) _ assms(2,3) _ assms(5,6)] by blast
  have "e2' v = e2 v" if "used_outside fn v (blk_id b)" "v \<in> Y" for v
    using sim_None [OF sim, of v] sim_Some(5) [OF sim, of v] that by (cases "map_get tab v") auto
  moreover have "e2' v = e2 v" if "v \<notin> dsts (blk_ins b)" "v \<in> Y" for v
    using exec_frame [OF assms(1) that(1)] exec_frame [OF out(2), of v] that sub assms(7) by auto
  moreover have "eval_ref M e2' (map_resolve tab (in_src0 (blk_term b))) = eval_ref M e2 (in_src0 (blk_term b))"
    by (rule sim_resolve(1) [OF sim]) (use assms(8) in \<open>auto simp: blk_uses_def\<close>)
  ultimately show ?thesis using out by (auto simp: msimp_block_def)
qed

text \<open>
  Block simplification is correct: if a block in SSA form, without floating point and in a function
  without stack slots, runs from an environment of well-typed values, then the simplifier returns a
  block, the new block also runs, leaves the machine in the same state, gives every value that is used
  outside the block or not defined in it the same contents, and its terminator tests the same value.
\<close>

theorem msimp_block_correct:
  assumes "exec_ins M (blk_ins b) (env, W) = Some (e2, W2)" "env_ok ty env" "ssa_ok (blk_ins b)" "list_all (ins_ok M ty) (blk_ins b)"
    "machine_ok M" "\<forall>v. \<not> alloca_slots fn v"
  shows "\<exists>b' n e2'. msimp_block F aggressive fn (alloca_slots fn) b = Some (b', n) \<and>
    exec_ins M (blk_ins b') (env, W) = Some (e2', W2) \<and>
    (\<forall>v. used_outside fn v (blk_id b) \<or> v \<notin> dsts (blk_ins b) \<longrightarrow> e2' v = e2 v) \<and>
    eval_ref M e2' (in_src0 (blk_term b')) = eval_ref M e2 (in_src0 (blk_term b))"
  using msimp_block_sim [OF assms, of UNIV env F aggressive] by auto

text \<open>A block that multiplies its input by 8 and adds 3 + 4.\<close>

definition ex_ins :: "mop \<Rightarrow> nat \<Rightarrow> mref \<Rightarrow> mref \<Rightarrow> mins" where
  "ex_ins op d a b = \<lparr>in_op = op, in_dtype = MT_I32, in_dst = Some d, in_src0 = a, in_src1 = b, in_extra = 0, in_blk = 0\<rparr>"

definition ex_block :: mblk where
  "ex_block =
     \<lparr>blk_id = 0, blk_phi = [],
      blk_ins =
        [ex_ins MOP_MUL 1 (MREF_VAL 0) (MREF_CON (MC_INT MT_I32 8)),
         ex_ins MOP_ADD 2 (MREF_CON (MC_INT MT_I32 3)) (MREF_CON (MC_INT MT_I32 4)),
         ex_ins MOP_ADD 3 (MREF_VAL 1) (MREF_VAL 2)],
      blk_term = (ex_ins MOP_RET 0 (MREF_VAL 3) MREF_NONE)\<lparr>in_dst := None\<rparr>, blk_s1 = None, blk_s2 = None\<rparr>"

definition ex_fn :: mfn where
  "ex_fn = \<lparr>fn_val = replicate 4 \<lparr>val_kind = MV_TEMP, val_type = MT_I32, val_def = True, val_defblk = Some 0\<rparr>, fn_link = [ex_block]\<rparr>"

definition ex_machine :: "unit machine" where
  "ex_machine = \<lparr>mc_ext = (\<lambda>_ _ _ _ _ _. None), mc_con = (\<lambda>_. 0)\<rparr>"

lemma msimp_block_correct_witness:
  "\<forall>F. \<exists>b' n e2'. msimp_block F True ex_fn (alloca_slots ex_fn) ex_block = Some (b', n) \<and>
     exec_ins ex_machine (blk_ins b') (\<lambda>_. 5, ()) = Some (e2', ()) \<and> eval_ref ex_machine e2' (in_src0 (blk_term b')) = 47"
proof
  fix F
  have sc: "scast (5 :: u32) = (5 :: u64)" "scast (3 :: u32) = (3 :: u64)" "scast (4 :: u32) = (4 :: u64)" "scast (8 :: u32) = (8 :: u64)"
    by simp_all
  have run: "exec_ins ex_machine (blk_ins ex_block) (\<lambda>_. 5, ()) = Some ((\<lambda>_. 5)(1 := 40, 2 := 7, 3 := 47), ())"
    by (simp add: ex_block_def ex_ins_def step_ins_def is_alu_iff mt_float_def mt_wide_def mir_alu_def set_dst_def)
  have ty: "env_ok (\<lambda>_. False) (\<lambda>_. 5)" by (simp add: env_ok_def canon_def)
  have ssa: "ssa_ok (blk_ins ex_block)" by (auto simp: ex_block_def ex_ins_def uses_val_def dsts_def)
  have ok: "list_all (ins_ok ex_machine (\<lambda>_. False)) (blk_ins ex_block)"
    by (simp add: ex_block_def ex_ins_def ins_ok_def is_alu_iff is_icmp_iff mt_float_def mt_wide_def ref_ok_def canon_def not_float_def)
  have mach: "machine_ok ex_machine" by (simp add: machine_ok_def ex_machine_def)
  have slots: "\<forall>v. \<not> alloca_slots ex_fn v" by (simp add: alloca_slots_def ex_fn_def ex_block_def ex_ins_def)
  obtain b' n e2' where r: "msimp_block F True ex_fn (alloca_slots ex_fn) ex_block = Some (b', n)"
      "exec_ins ex_machine (blk_ins b') (\<lambda>_. 5, ()) = Some (e2', ())"
      "eval_ref ex_machine e2' (in_src0 (blk_term b')) = eval_ref ex_machine ((\<lambda>_. 5)(1 := 40, 2 := 7, 3 := 47)) (in_src0 (blk_term ex_block))"
    using msimp_block_correct [OF run ty ssa ok mach slots, of F True] by blast
  then show "\<exists>b' n e2'. msimp_block F True ex_fn (alloca_slots ex_fn) ex_block = Some (b', n) \<and>
     exec_ins ex_machine (blk_ins b') (\<lambda>_. 5, ()) = Some (e2', ()) \<and> eval_ref ex_machine e2' (in_src0 (blk_term b')) = 47"
    by (intro exI conjI) (assumption, assumption, simp add: ex_block_def ex_ins_def)
qed

end
