(* ===== verification/Mir_Run.thy ===== *)
theory Mir_Run
  imports Msimp_Correct
begin

text \<open>
  Whole functions of the medium IR: execution from block to block, and what a pass that rewrites blocks
  has to guarantee so that every run of the function ends with the same result. If-conversion of
  constant branches (\<^verbatim>\<open>mifconv\<close> of \<^verbatim>\<open>mcc/src/mir/passes.c\<close>) is the first such pass.
\<close>

section \<open>Execution\<close>

definition find_blk :: "mfn \<Rightarrow> nat \<Rightarrow> mblk option" where
  "find_blk fn n = find (\<lambda>b. blk_id b = n) (fn_link fn)"

text \<open>The argument of a phi for the predecessor \<open>p\<close>; all phis of a block read their arguments at once.\<close>

definition phi_pick :: "nat \<Rightarrow> mphi \<Rightarrow> nat option" where
  "phi_pick p ph = (case map_of (zip (phi_blk ph) (phi_arg ph)) p of Some a \<Rightarrow> a | None \<Rightarrow> None)"

definition enter_blk :: "nat \<Rightarrow> mblk \<Rightarrow> (nat \<Rightarrow> u64) \<Rightarrow> nat \<Rightarrow> u64" where
  "enter_blk p b env =
     (\<lambda>v. case find (\<lambda>ph. phi_dst ph = v) (blk_phi b) of
        None \<Rightarrow> env v
      | Some ph \<Rightarrow> (case phi_pick p ph of Some u \<Rightarrow> env u | None \<Rightarrow> 0))"

definition term_next :: "'w machine \<Rightarrow> (nat \<Rightarrow> u64) \<Rightarrow> mblk \<Rightarrow> nat option" where
  "term_next M env b =
     (if in_op (blk_term b) = MOP_JMP then blk_s1 b
      else if in_op (blk_term b) = MOP_JNZ then (if eval_ref M env (in_src0 (blk_term b)) \<noteq> 0 then blk_s1 b else blk_s2 b)
      else None)"

text \<open>\<open>mrun M fn p n env W r W'\<close>: entered from \<open>p\<close>, block \<open>n\<close> leads to a return of \<open>r\<close> in the state \<open>W'\<close>.\<close>

inductive mrun :: "'w machine \<Rightarrow> mfn \<Rightarrow> nat \<Rightarrow> nat \<Rightarrow> (nat \<Rightarrow> u64) \<Rightarrow> 'w \<Rightarrow> u64 \<Rightarrow> 'w \<Rightarrow> bool" for M fn where
  run_ret:
    "find_blk fn n = Some b \<Longrightarrow> exec_ins M (blk_ins b) (enter_blk p b env, W) = Some (e2, W2) \<Longrightarrow>
     in_op (blk_term b) = MOP_RET \<Longrightarrow> mrun M fn p n env W (eval_ref M e2 (in_src0 (blk_term b))) W2"
| run_jump:
    "find_blk fn n = Some b \<Longrightarrow> exec_ins M (blk_ins b) (enter_blk p b env, W) = Some (e2, W2) \<Longrightarrow>
     term_next M e2 b = Some m \<Longrightarrow> mrun M fn n m e2 W2 r W3 \<Longrightarrow> mrun M fn p n env W r W3"

inductive_cases mrunE: "mrun M fn p n env W r W'"

lemma term_next_ret: "in_op (blk_term b) = MOP_RET \<Longrightarrow> term_next M env b = None"
  by (simp add: term_next_def)

lemma mrun_deterministic:
  assumes "mrun M fn p n env W r W1" "mrun M fn p n env W s W2"
  shows "r = s \<and> W1 = W2"
  using assms
proof (induction arbitrary: s W2 rule: mrun.induct)
  case (run_ret n b p env W e2 W')
  from run_ret.prems show ?case by (cases rule: mrunE) (use run_ret in \<open>auto simp: term_next_ret\<close>)
next
  case (run_jump n b p env W e2 W' m r W3)
  from run_jump.prems show ?case
  proof (rule mrunE, goal_cases)
    case 1
    then show ?case using run_jump.hyps by (auto simp: term_next_ret)
  next
    case (2 b' e2' W2' m')
    then have "m' = m" "e2' = e2" "W2' = W'" using run_jump.hyps by auto
    then show ?case using run_jump.IH 2 by blast
  qed
qed

section \<open>Passes\<close>

definition agree :: "(nat \<Rightarrow> bool) \<Rightarrow> (nat \<Rightarrow> u64) \<Rightarrow> (nat \<Rightarrow> u64) \<Rightarrow> bool" where
  "agree X env env' \<longleftrightarrow> (\<forall>v. X v \<longrightarrow> env' v = env v)"

lemma agreeD: "agree X env env' \<Longrightarrow> X v \<Longrightarrow> env' v = env v"
  by (simp add: agree_def)

lemma phi_pick_arg: "phi_pick p ph = Some u \<Longrightarrow> Some u \<in> set (phi_arg ph)"
  by (auto simp: phi_pick_def split: option.splits dest!: map_of_SomeD set_zip_rightD)

lemma enter_agree:
  assumes "agree X env env'" "\<And>ph u. ph \<in> set (blk_phi b) \<Longrightarrow> Some u \<in> set (phi_arg ph) \<Longrightarrow> X u" "blk_phi b' = blk_phi b"
  shows "agree X (enter_blk p b env) (enter_blk p b' env')"
  unfolding agree_def
proof (intro allI impI)
  fix v
  assume v: "X v"
  show "enter_blk p b' env' v = enter_blk p b env v"
  proof (cases "find (\<lambda>ph. phi_dst ph = v) (blk_phi b)")
    case None
    then show ?thesis using v assms(1,3) by (simp add: enter_blk_def agree_def)
  next
    case (Some ph)
    then have ph: "ph \<in> set (blk_phi b)" by (auto simp: find_Some_iff in_set_conv_nth)
    have "env' u = env u" if "phi_pick p ph = Some u" for u
      using assms(1,2) ph phi_pick_arg [OF that] by (simp add: agree_def)
    then show ?thesis using Some assms(3) by (simp add: enter_blk_def split: option.split)
  qed
qed

text \<open>\<open>b'\<close> simulates \<open>b\<close> on the values in \<open>X\<close>, from environments in \<open>I\<close>.\<close>

definition blk_sim :: "'w machine \<Rightarrow> (nat \<Rightarrow> bool) \<Rightarrow> ((nat \<Rightarrow> u64) \<Rightarrow> bool) \<Rightarrow> mblk \<Rightarrow> mblk \<Rightarrow> bool" where
  "blk_sim M X I b b' \<longleftrightarrow>
     blk_phi b' = blk_phi b \<and>
     (\<forall>env env' W e2 W2. agree X env env' \<longrightarrow> I env \<longrightarrow> exec_ins M (blk_ins b) (env, W) = Some (e2, W2) \<longrightarrow>
        (\<exists>e2'. exec_ins M (blk_ins b') (env', W) = Some (e2', W2) \<and> agree X e2 e2' \<and>
           (in_op (blk_term b) = MOP_RET \<longrightarrow>
              in_op (blk_term b') = MOP_RET \<and> eval_ref M e2' (in_src0 (blk_term b')) = eval_ref M e2 (in_src0 (blk_term b))) \<and>
           (\<forall>m. term_next M e2 b = Some m \<longrightarrow> term_next M e2' b' = Some m)))"

text \<open>
  A pass: it rewrites the functions in \<open>ok\<close> so that every block simulates the old one on the observed
  values, among which are the arguments of the phis; \<open>inv\<close> is an invariant of the original function.
\<close>

locale mir_pass =
  fixes M :: "'w machine" and ok :: "mfn \<Rightarrow> bool" and pass :: "mfn \<Rightarrow> mfn option"
    and obs :: "mfn \<Rightarrow> nat \<Rightarrow> bool" and inv :: "(nat \<Rightarrow> u64) \<Rightarrow> bool"
  assumes block: "ok fn \<Longrightarrow> pass fn = Some fn' \<Longrightarrow> find_blk fn n = Some b \<Longrightarrow>
      \<exists>b'. find_blk fn' n = Some b' \<and> blk_sim M (obs fn) inv b b'"
    and phis: "ok fn \<Longrightarrow> find_blk fn n = Some b \<Longrightarrow> ph \<in> set (blk_phi b) \<Longrightarrow> Some u \<in> set (phi_arg ph) \<Longrightarrow> obs fn u"
    and enter: "ok fn \<Longrightarrow> find_blk fn n = Some b \<Longrightarrow> inv env \<Longrightarrow> inv (enter_blk p b env)"
    and keeps: "ok fn \<Longrightarrow> find_blk fn n = Some b \<Longrightarrow> inv env \<Longrightarrow> exec_ins M (blk_ins b) (env, W) = Some (e2, W2) \<Longrightarrow> inv e2"
begin

lemma run_agree:
  assumes "mrun M fn p n env W r W2" "ok fn" "pass fn = Some fn'" "agree (obs fn) env env'" "inv env"
  shows "mrun M fn' p n env' W r W2"
  using assms(1,4,5)
proof (induction arbitrary: env' rule: mrun.induct)
  case (run_ret n b p env W e2 W2)
  from block [OF assms(2,3) run_ret.hyps(1)] obtain b' where
    b': "find_blk fn' n = Some b'" "blk_sim M (obs fn) inv b b'" by blast
  then have "agree (obs fn) (enter_blk p b env) (enter_blk p b' env')"
    using enter_agree [OF run_ret.prems(1)] phis [OF assms(2) run_ret.hyps(1)] by (auto simp: blk_sim_def)
  with b'(2) run_ret.hyps(2,3) enter [OF assms(2) run_ret.hyps(1) run_ret.prems(2)] obtain e2' where
    "exec_ins M (blk_ins b') (enter_blk p b' env', W) = Some (e2', W2)" "in_op (blk_term b') = MOP_RET"
    "eval_ref M e2' (in_src0 (blk_term b')) = eval_ref M e2 (in_src0 (blk_term b))"
    unfolding blk_sim_def by blast
  then show ?case using mrun.run_ret [OF b'(1)] by metis
next
  case (run_jump n b p env W e2 W2 m r W3)
  from block [OF assms(2,3) run_jump.hyps(1)] obtain b' where
    b': "find_blk fn' n = Some b'" "blk_sim M (obs fn) inv b b'" by blast
  note ent = enter [OF assms(2) run_jump.hyps(1) run_jump.prems(2)]
  have "agree (obs fn) (enter_blk p b env) (enter_blk p b' env')"
    using b'(2) enter_agree [OF run_jump.prems(1)] phis [OF assms(2) run_jump.hyps(1)] by (auto simp: blk_sim_def)
  with b'(2) run_jump.hyps(2,3) ent obtain e2' where
    e2': "exec_ins M (blk_ins b') (enter_blk p b' env', W) = Some (e2', W2)" "agree (obs fn) e2 e2'" "term_next M e2' b' = Some m"
    unfolding blk_sim_def by blast
  have "mrun M fn' n m e2' W2 r W3"
    by (rule run_jump.IH [OF e2'(2) keeps [OF assms(2) run_jump.hyps(1) ent run_jump.hyps(2)]])
  then show ?case using mrun.run_jump [OF b'(1) e2'(1,3)] by simp
qed

lemma run_preserved:
  "mrun M fn p n env W r W2 \<Longrightarrow> ok fn \<Longrightarrow> pass fn = Some fn' \<Longrightarrow> inv env \<Longrightarrow> mrun M fn' p n env W r W2"
  by (rule run_agree) (simp_all add: agree_def)

end

text \<open>A pass that maps the blocks.\<close>

lemma find_blk_map:
  assumes "fn_link fn' = map f (fn_link fn)" "\<And>b. blk_id (f b) = blk_id b" "find_blk fn n = Some b"
  shows "find_blk fn' n = Some (f b)"
proof -
  have "find (\<lambda>b. blk_id b = n) bs = Some b \<Longrightarrow> find (\<lambda>b. blk_id b = n) (map f bs) = Some (f b)" for bs
    by (induction bs) (auto simp: assms(2) split: if_splits)
  then show ?thesis using assms(1,3) by (simp add: find_blk_def)
qed

lemma find_blk_mem: "find_blk fn n = Some b \<Longrightarrow> b \<in> set (fn_link fn) \<and> blk_id b = n"
  by (auto simp: find_blk_def find_Some_iff in_set_conv_nth)

section \<open>Constant branches\<close>

definition mifconv_block :: "mblk \<Rightarrow> mblk \<times> nat" where
  "mifconv_block b =
     (if in_op (blk_term b) \<noteq> MOP_JNZ then (b, 0)
      else case ref_con (in_src0 (blk_term b)) of
          Some (MC_INT t i) \<Rightarrow>
            (b\<lparr>blk_term := (blk_term b)\<lparr>in_op := MOP_JMP, in_src0 := MREF_NONE\<rparr>,
               blk_s1 := if i \<noteq> 0 then blk_s1 b else blk_s2 b, blk_s2 := None\<rparr>, 1)
        | _ \<Rightarrow> (b, 0))"

definition mifconv :: "mfn \<Rightarrow> mfn \<times> nat" where
  "mifconv fn = (fn\<lparr>fn_link := map (fst \<circ> mifconv_block) (fn_link fn)\<rparr>, sum_list (map (snd \<circ> mifconv_block) (fn_link fn)))"

lemma mifconv_block_cases:
  "fst (mifconv_block b) = b \<or>
   (\<exists>t i. in_op (blk_term b) = MOP_JNZ \<and> in_src0 (blk_term b) = MREF_CON (MC_INT t i) \<and>
      fst (mifconv_block b) = b\<lparr>blk_term := (blk_term b)\<lparr>in_op := MOP_JMP, in_src0 := MREF_NONE\<rparr>,
               blk_s1 := if i \<noteq> 0 then blk_s1 b else blk_s2 b, blk_s2 := None\<rparr>)"
  by (cases "in_src0 (blk_term b)") (auto simp: mifconv_block_def split: mconst.split)

lemma agree_all [simp]: "agree (\<lambda>_. True) env env' \<longleftrightarrow> env' = env"
  by (auto simp: agree_def)

interpretation ifconv: mir_pass M "\<lambda>_. True" "\<lambda>fn. Some (fst (mifconv fn))" "\<lambda>_ _. True" "\<lambda>_. True"
proof
  fix fn fn' :: mfn and n b
  assume fn': "Some (fst (mifconv fn)) = Some fn'" and b: "find_blk fn n = Some b"
  have "blk_id (fst (mifconv_block b)) = blk_id b" for b using mifconv_block_cases [of b] by auto
  then have "find_blk fn' n = Some (fst (mifconv_block b))"
    using find_blk_map [of fn' "fst \<circ> mifconv_block" fn n b] fn' b by (auto simp: mifconv_def)
  moreover have "blk_sim M (\<lambda>_. True) (\<lambda>_. True) b (fst (mifconv_block b))"
    using mifconv_block_cases [of b] by (auto simp: blk_sim_def term_next_def)
  ultimately show "\<exists>b'. find_blk fn' n = Some b' \<and> blk_sim M (\<lambda>_. True) (\<lambda>_. True) b b'" by blast
qed auto

end
