(* ===== verification/Mfold_Run.thy ===== *)
theory Mfold_Run
  imports Mir_Run
begin

text \<open>
  The folding pass on whole functions (\<^verbatim>\<open>mfold\<close> of \<^verbatim>\<open>mcc/src/mir/mfold.c\<close>): every run of an integer
  function in SSA form without stack slots ends with the same result after the pass.
\<close>

section \<open>Well-formed functions\<close>

text \<open>The values that are read in another block than the one that defines them.\<close>

definition phi_uses :: "mblk \<Rightarrow> nat \<Rightarrow> bool" where
  "phi_uses b v \<longleftrightarrow> (\<exists>ph \<in> set (blk_phi b). Some v \<in> set (phi_arg ph))"

definition live_across :: "mfn \<Rightarrow> nat \<Rightarrow> bool" where
  "live_across fn v \<longleftrightarrow> (\<exists>b \<in> set (fn_link fn). v \<notin> dsts (blk_ins b) \<and> blk_uses b v \<or> phi_uses b v)"

definition blk_ok :: "'w machine \<Rightarrow> (nat \<Rightarrow> bool) \<Rightarrow> mfn \<Rightarrow> mblk \<Rightarrow> bool" where
  "blk_ok M ty fn b \<longleftrightarrow>
     ssa_ok (blk_ins b) \<and> list_all (ins_ok M ty) (blk_ins b) \<and> list_all (\<lambda>i. in_blk i = blk_id b) (blk_ins b) \<and>
     in_blk (blk_term b) = blk_id b \<and> (\<forall>v \<in> dsts (blk_ins b). is_temp fn v) \<and>
     list_all (\<lambda>ph. list_all (\<lambda>a. case a of Some u \<Rightarrow> ty (phi_dst ph) \<or> \<not> ty u | None \<Rightarrow> True) (phi_arg ph)) (blk_phi b)"

definition fn_ok :: "'w machine \<Rightarrow> (nat \<Rightarrow> bool) \<Rightarrow> mfn \<Rightarrow> bool" where
  "fn_ok M ty fn \<longleftrightarrow>
     machine_ok M \<and> distinct (map blk_id (fn_link fn)) \<and> list_all (blk_ok M ty fn) (fn_link fn) \<and> (\<forall>v. \<not> alloca_slots fn v)"

lemma fn_ok_blk: "fn_ok M ty fn \<Longrightarrow> find_blk fn n = Some b \<Longrightarrow> blk_ok M ty fn b"
  using find_blk_mem by (fastforce simp: fn_ok_def list_all_iff)

section \<open>Use chains\<close>

lemma mark_use_mem: "u \<in> set (mark_use v n r) \<longleftrightarrow> ref_val r = Some v \<and> u = Use_ins n"
  by (auto simp: mark_use_def)

lemma blk_uses_block:
  assumes "blk_uses b v" "list_all (\<lambda>i. in_blk i = blk_id b) (blk_ins b)" "in_blk (blk_term b) = blk_id b"
  shows "Use_ins (blk_id b) \<in> set (build_uses_block v b)"
proof -
  consider i where "i \<in> set (blk_ins b)" "uses_val i v" | "ref_val (in_src0 (blk_term b)) = Some v"
    using assms(1) by (auto simp: blk_uses_def)
  then show ?thesis
  proof cases
    case (1 i)
    then have "Use_ins (blk_id b) \<in> set (mark_use v (in_blk i) (in_src0 i) @ mark_use v (in_blk i) (in_src1 i))"
      using assms(2) by (auto simp: list_all_iff mark_use_mem uses_val_def)
    then show ?thesis using 1(1) by (auto simp: build_uses_block_def)
  next
    case 2
    then show ?thesis using assms(3) by (simp add: build_uses_block_def mark_use_mem)
  qed
qed

lemma phi_uses_block: "phi_uses b v \<Longrightarrow> Use_phi \<in> set (build_uses_block v b)"
  by (fastforce simp: phi_uses_def build_uses_block_def)

lemma live_used_outside:
  assumes ok: "fn_ok M ty fn" and b: "b \<in> set (fn_link fn)" and v: "v \<in> dsts (blk_ins b)" "live_across fn v"
  shows "used_outside fn v (blk_id b)"
proof -
  have blk: "blk_ok M ty fn c" if "c \<in> set (fn_link fn)" for c using ok that by (auto simp: fn_ok_def list_all_iff)
  have temp: "is_temp fn v" using blk [OF b] v(1) by (simp add: blk_ok_def)
  obtain c where c: "c \<in> set (fn_link fn)" "v \<notin> dsts (blk_ins c) \<and> blk_uses c v \<or> phi_uses c v"
    using v(2) by (auto simp: live_across_def)
  have "\<exists>u \<in> set (build_uses_block v c). case u of Use_phi \<Rightarrow> True | Use_ins n \<Rightarrow> n \<noteq> blk_id b"
  proof (cases "phi_uses c v")
    case True
    then show ?thesis using phi_uses_block by force
  next
    case False
    then have "v \<notin> dsts (blk_ins c)" "blk_uses c v" using c(2) by auto
    then have "c \<noteq> b" using v(1) by auto
    then have "blk_id c \<noteq> blk_id b" using ok c(1) b by (auto simp: fn_ok_def distinct_map inj_on_def)
    moreover have "Use_ins (blk_id c) \<in> set (build_uses_block v c)"
      using blk_uses_block [OF \<open>blk_uses c v\<close>] blk [OF c(1)] by (simp add: blk_ok_def)
    ultimately show ?thesis by force
  qed
  then show ?thesis using c(1) temp by (auto simp: used_outside_def build_uses_def list_ex_iff)
qed

section \<open>The pass\<close>

lemma mfold_blocks_find:
  assumes "mfold_blocks F aggressive fn bs = Some (bs', r)" "find (\<lambda>b. blk_id b = n) bs = Some b"
  shows "\<exists>b' k. msimp_block F aggressive fn (alloca_slots fn) b = Some (b', k) \<and> find (\<lambda>b. blk_id b = n) bs' = Some b'"
  using assms
proof (induction bs arbitrary: bs' r)
  case (Cons c bs)
  obtain c' k bs2 s where c': "msimp_block F aggressive fn (alloca_slots fn) c = Some (c', k)"
      "mfold_blocks F aggressive fn bs = Some (bs2, s)" "bs' = c' # bs2"
    using Cons.prems(1) by (auto split: option.splits)
  have "blk_id c' = blk_id c" using c'(1) by (auto simp: msimp_block_def split: option.splits)
  then show ?case using Cons.IH [OF c'(2)] Cons.prems(2) c' by (auto split: if_splits)
qed simp

lemma env_ok_exec:
  "exec_ins M is (env, W) = Some (e2, W2) \<Longrightarrow> env_ok ty env \<Longrightarrow> machine_ok M \<Longrightarrow> list_all (ins_ok M ty) is \<Longrightarrow> env_ok ty e2"
proof (induction "is" arbitrary: env W)
  case (Cons i "is")
  obtain r W' where r: "step_ins M (in_op i) (in_dtype i) (in_extra i) (eval_ref M env (in_src0 i)) (eval_ref M env (in_src1 i)) W = Some (r, W')"
      "exec_ins M is (set_dst (in_dst i) r env, W') = Some (e2, W2)"
    using Cons.prems(1) by (auto split: option.splits)
  have "env_ok ty (set_dst (in_dst i) r env)"
    by (rule env_ok_set [OF Cons.prems(2)]) (rule step_canon [OF r(1) _ Cons.prems(3)], use Cons.prems(4) in auto)
  then show ?case using Cons.IH [OF r(2)] Cons.prems by simp
qed simp

lemma env_ok_enter:
  assumes "env_ok ty env" "blk_ok M ty fn b"
  shows "env_ok ty (enter_blk p b env)"
  unfolding env_ok_def
proof
  fix v
  show "canon (ty v) (enter_blk p b env v) = enter_blk p b env v"
  proof (cases "find (\<lambda>ph. phi_dst ph = v) (blk_phi b)")
    case None
    then show ?thesis using assms(1) by (simp add: enter_blk_def env_ok_def)
  next
    case (Some ph)
    then have ph: "ph \<in> set (blk_phi b)" "phi_dst ph = v" by (auto simp: find_Some_iff in_set_conv_nth)
    have "canon (ty v) (env u) = env u" if "phi_pick p ph = Some u" for u
    proof -
      have "ty v \<or> \<not> ty u" using assms(2) ph phi_pick_arg [OF that] by (fastforce simp: blk_ok_def list_all_iff)
      moreover have "canon (ty u) (env u) = env u" using assms(1) by (simp add: env_ok_def)
      ultimately show ?thesis by (cases "ty v") (auto simp: canon_def)
    qed
    then show ?thesis using Some by (auto simp: enter_blk_def canon_def split: option.split)
  qed
qed

interpretation fold_pass: mir_pass M "fn_ok M ty" "\<lambda>fn. map_option fst (mfold F aggressive fn)" live_across "env_ok ty"
  for M :: "'w machine" and ty F aggressive
proof
  fix fn fn' :: mfn and n b
  assume ok: "fn_ok M ty fn" and fn': "map_option fst (mfold F aggressive fn) = Some fn'" and b: "find_blk fn n = Some b"
  obtain bs' r where "mfold_blocks F aggressive fn (fn_link fn) = Some (bs', r)" "fn' = fn\<lparr>fn_link := bs'\<rparr>"
    using fn' by (auto simp: mfold_def)
  then obtain b' k where b': "msimp_block F aggressive fn (alloca_slots fn) b = Some (b', k)" "find_blk fn' n = Some b'"
    using mfold_blocks_find [of F aggressive fn "fn_link fn" bs' r n b] b by (auto simp: find_blk_def)
  have mem: "b \<in> set (fn_link fn)" using find_blk_mem [OF b] by simp
  have blk: "blk_ok M ty fn b" by (rule fn_ok_blk [OF ok b])
  have same: "blk_phi b' = blk_phi b" "in_op (blk_term b') = in_op (blk_term b)" "blk_s1 b' = blk_s1 b" "blk_s2 b' = blk_s2 b"
    using b'(1) by (auto simp: msimp_block_def split: option.splits)
  define Y where "Y = {v. live_across fn v} \<union> dsts (blk_ins b)"
  have "blk_sim M (live_across fn) (env_ok ty) b b'"
    unfolding blk_sim_def
  proof (intro conjI allI impI)
    fix env env' W e2 W2
    assume ag: "agree (live_across fn) env env'" and env: "env_ok ty env" and run: "exec_ins M (blk_ins b) (env, W) = Some (e2, W2)"
    have Y: "env' v = env v" if "v \<in> Y" "v \<notin> dsts (blk_ins b)" for v using ag that by (auto simp: Y_def agree_def)
    have uses: "v \<in> Y" if "blk_uses b v" for v using mem that by (auto simp: Y_def live_across_def)
    have c: "ssa_ok (blk_ins b)" "list_all (ins_ok M ty) (blk_ins b)" "machine_ok M" "\<forall>v. \<not> alloca_slots fn v"
      using ok blk by (simp_all add: fn_ok_def blk_ok_def)
    have "\<exists>c' m e2'. msimp_block F aggressive fn (alloca_slots fn) b = Some (c', m) \<and>
        exec_ins M (blk_ins c') (env', W) = Some (e2', W2) \<and>
        (\<forall>v \<in> Y. used_outside fn v (blk_id b) \<or> v \<notin> dsts (blk_ins b) \<longrightarrow> e2' v = e2 v) \<and>
        eval_ref M e2' (in_src0 (blk_term c')) = eval_ref M e2 (in_src0 (blk_term b))"
      by (rule msimp_block_sim [OF run env c]) (erule (1) Y | erule uses)+
    then obtain c' m e2' where c': "msimp_block F aggressive fn (alloca_slots fn) b = Some (c', m)"
      and r: "exec_ins M (blk_ins c') (env', W) = Some (e2', W2)"
        "\<forall>v \<in> Y. used_outside fn v (blk_id b) \<or> v \<notin> dsts (blk_ins b) \<longrightarrow> e2' v = e2 v"
        "eval_ref M e2' (in_src0 (blk_term c')) = eval_ref M e2 (in_src0 (blk_term b))"
      by (elim exE conjE) (rule that)
    have "c' = b'" using c' b'(1) by simp
    note e2' = r [unfolded this]
    have "agree (live_across fn) e2 e2'"
      using e2'(2) live_used_outside [OF ok mem] by (auto simp: agree_def Y_def)
    then show "\<exists>e2'. exec_ins M (blk_ins b') (env', W) = Some (e2', W2) \<and> agree (live_across fn) e2 e2' \<and>
        (in_op (blk_term b) = MOP_RET \<longrightarrow>
           in_op (blk_term b') = MOP_RET \<and> eval_ref M e2' (in_src0 (blk_term b')) = eval_ref M e2 (in_src0 (blk_term b))) \<and>
        (\<forall>m. term_next M e2 b = Some m \<longrightarrow> term_next M e2' b' = Some m)"
      using e2' same by (auto simp: term_next_def split: if_splits)
  qed (rule same(1))
  then show "\<exists>b'. find_blk fn' n = Some b' \<and> blk_sim M (live_across fn) (env_ok ty) b b'" using b'(2) by blast
next
  fix fn n b ph u
  assume "find_blk fn n = Some b" "ph \<in> set (blk_phi b)" "Some u \<in> set (phi_arg ph)"
  then show "live_across fn u" using find_blk_mem by (fastforce simp: live_across_def phi_uses_def)
next
  fix fn n b env p
  assume "fn_ok M ty fn" "find_blk fn n = Some b" "env_ok ty env"
  then show "env_ok ty (enter_blk p b env)" using fn_ok_blk env_ok_enter by blast
next
  fix fn n b env W e2 W2
  assume ok: "fn_ok M ty fn" and b: "find_blk fn n = Some b" and env: "env_ok ty env"
    and run: "exec_ins M (blk_ins b) (env, W) = Some (e2, W2)"
  have "machine_ok M" "list_all (ins_ok M ty) (blk_ins b)"
    using ok fn_ok_blk [OF ok b] by (simp_all add: fn_ok_def blk_ok_def)
  then show "env_ok ty e2" by (rule env_ok_exec [OF run env])
qed

text \<open>The folder stops only at a division.\<close>

definition no_division :: "mfn \<Rightarrow> bool" where
  "no_division fn \<longleftrightarrow> list_all (\<lambda>b. list_all (\<lambda>i. in_op i \<notin> {MOP_DIV, MOP_UDIV, MOP_REM, MOP_UREM}) (blk_ins b)) (fn_link fn)"

lemma mfold_const_defined: "op \<notin> {MOP_DIV, MOP_UDIV, MOP_REM, MOP_UREM} \<Longrightarrow> mfold_const F op w cl cr \<noteq> Fold_undefined"
  by (auto simp: mfold_const_def mfold_int_def mfold_result_def mfold_icmp_def mfold_fcmp_def Let_def
    split: mconst.splits if_splits)

lemma if_neq: "a \<noteq> u \<Longrightarrow> b \<noteq> u \<Longrightarrow> (if c then a else b) \<noteq> u"
  by simp

lemma msimp_fold_defined:
  assumes "in_op i \<notin> {MOP_DIV, MOP_UDIV, MOP_REM, MOP_UREM}"
  shows "msimp_fold F fn b i a0 a1 \<noteq> Fold_undefined"
proof (cases "in_dst i")
  case d: (Some d)
  show ?thesis
  proof (cases "ref_con a0")
    case cl: (Some cl)
    have single: "(case q of Folded (MC_FLT t x) \<Rightarrow> if c then Folded (MC_FLT MT_F32 (fp_single F x)) else q | _ \<Rightarrow> q) \<noteq> Fold_undefined"
      if "q \<noteq> Fold_undefined" for q c
      using that by (simp split: fold_result.split mconst.split)
    have con: "(case r of Some cr \<Rightarrow> mfold_const F (in_op i) w cl cr | None \<Rightarrow> Not_foldable) \<noteq> Fold_undefined" for r w
      using mfold_const_defined [OF assms] by (simp split: option.split)
    have neg: "mfold_const F MOP_NEG w cl cr \<noteq> Fold_undefined" for w cr by (rule mfold_const_defined) simp
    show ?thesis
      unfolding msimp_fold_def Let_def d cl prod.case option.case
      by (intro if_neq single con neg mfold_const_defined [OF assms]) simp
  qed (simp add: msimp_fold_def d)
qed (simp add: msimp_fold_def)

lemma msimp_loop_defined:
  "list_all (\<lambda>i. in_op i \<notin> {MOP_DIV, MOP_UDIV, MOP_REM, MOP_UREM}) is \<Longrightarrow> msimp_loop F aggressive fn slots b tab mc is \<noteq> None"
proof (induction "is" arbitrary: tab mc)
  case (Cons i "is")
  define a0 a1 where "a0 = map_resolve tab (in_src0 i)" and "a1 = map_resolve tab (in_src1 i)"
  have "msimp_fold F fn b i a0 a1 \<noteq> Fold_undefined" by (rule msimp_fold_defined) (use Cons.prems in auto)
  then have "msimp_ins F aggressive fn slots b mc i a0 a1 \<noteq> None"
    by (cases "msimp_fold F fn b i a0 a1"; cases "msimp_mem fn slots b mc i a0 a1") (simp_all add: msimp_ins_def)
  then obtain mc' act where "msimp_ins F aggressive fn slots b mc i a0 a1 = Some (mc', act)" by auto
  moreover have "msimp_loop F aggressive fn slots b tab' mc' is \<noteq> None" for tab' mc'
    by (rule Cons.IH) (use Cons.prems in simp)
  ultimately show ?case by (cases act) (auto simp: a0_def a1_def)
qed simp

lemma mfold_blocks_defined:
  "list_all (\<lambda>b. list_all (\<lambda>i. in_op i \<notin> {MOP_DIV, MOP_UDIV, MOP_REM, MOP_UREM}) (blk_ins b)) bs \<Longrightarrow> mfold_blocks F aggressive fn bs \<noteq> None"
proof (induction bs)
  case (Cons b bs)
  have "msimp_loop F aggressive fn (alloca_slots fn) (blk_id b) map_empty [] (blk_ins b) \<noteq> None"
    by (rule msimp_loop_defined) (use Cons.prems in simp)
  then show ?case using Cons by (auto simp: msimp_block_def)
qed simp

text \<open>
  C7. The folding pass preserves the program: every run of a well-formed integer function (SSA form,
  typed, no stack slots) that returns still returns the same value in the same state after folding,
  at every level, and the pass itself can only stop at a division.
\<close>

theorem mfold_correct:
  assumes "fn_ok M ty fn" "env_ok ty env" "mrun M fn p n env W r W2"
  shows "case mfold F aggressive fn of Some (fn', k) \<Rightarrow> mrun M fn' p n env W r W2 | None \<Rightarrow> \<not> no_division fn"
proof (cases "mfold F aggressive fn")
  case None
  then show ?thesis using mfold_blocks_defined [of "fn_link fn" F aggressive fn] by (auto simp: mfold_def no_division_def)
next
  case (Some x)
  then have "map_option fst (mfold F aggressive fn) = Some (fst x)" by simp
  from fold_pass.run_preserved [OF assms(3,1) this assms(2)] show ?thesis by (simp add: Some split_beta)
qed

lemma mfold_correct_witness:
  "\<forall>F. case mfold F True ex_fn of Some (fn', k) \<Rightarrow> mrun ex_machine fn' 0 0 (\<lambda>_. 5) () 47 () | None \<Rightarrow> False"
proof
  fix F
  have sc: "scast (5 :: u32) = (5 :: u64)" "scast (3 :: u32) = (3 :: u64)" "scast (4 :: u32) = (4 :: u64)" "scast (8 :: u32) = (8 :: u64)"
    by simp_all
  have link: "fn_link ex_fn = [ex_block]" "blk_phi ex_block = []" "in_blk (blk_term ex_block) = 0" "blk_id ex_block = 0"
    by (simp_all add: ex_fn_def ex_block_def ex_ins_def)
  have ssa: "ssa_ok (blk_ins ex_block)" by (auto simp: ex_block_def ex_ins_def uses_val_def dsts_def)
  have ins: "list_all (ins_ok ex_machine (\<lambda>_. False)) (blk_ins ex_block)"
    by (simp add: ex_block_def ex_ins_def ins_ok_def is_alu_iff is_icmp_iff mt_float_def mt_wide_def ref_ok_def canon_def not_float_def)
  have rest: "list_all (\<lambda>i. in_blk i = 0) (blk_ins ex_block)" "\<forall>v \<in> dsts (blk_ins ex_block). is_temp ex_fn v"
    by (auto simp: ex_block_def ex_ins_def dsts_def is_temp_def ex_fn_def numeral_3_eq_3 nth_Cons')
  have ok: "fn_ok ex_machine (\<lambda>_. False) ex_fn"
    using ssa ins rest
    by (simp add: fn_ok_def blk_ok_def link machine_ok_def alloca_slots_def) (simp add: ex_machine_def ex_block_def ex_ins_def)
  have env: "env_ok (\<lambda>_. False) (\<lambda>_. 5)" by (simp add: env_ok_def canon_def)
  have run: "exec_ins ex_machine (blk_ins ex_block) (\<lambda>_. 5, ()) = Some ((\<lambda>_. 5)(1 := 40, 2 := 7, 3 := 47), ())"
    by (simp add: ex_block_def ex_ins_def step_ins_def is_alu_iff mt_float_def mt_wide_def mir_alu_def set_dst_def)
  have "find_blk ex_fn 0 = Some ex_block" by (simp add: find_blk_def link)
  from run_ret [OF this, of ex_machine 0 "\<lambda>_. 5" "()"] run
  have "mrun ex_machine ex_fn 0 0 (\<lambda>_. 5) () 47 ()"
    by (simp add: enter_blk_def link) (simp add: ex_block_def ex_ins_def)
  from mfold_correct [OF ok env this, of F True] show "case mfold F True ex_fn of Some (fn', k) \<Rightarrow> mrun ex_machine fn' 0 0 (\<lambda>_. 5) () 47 () | None \<Rightarrow> False"
    by (auto split: option.splits) (simp add: no_division_def link, simp add: ex_block_def ex_ins_def)
qed

end
