(* ===== verification/Mslot.thy ===== *)
theory Mslot
  imports Mfold_Run
begin

text \<open>
  Constants in stack slots: the folder forgets the sign of a 32-bit constant that goes through a slot, so
  the pass is wrong on functions with stack slots, and the condition of \<open>mfold_correct\<close> is needed.
\<close>

text \<open>The function that stores -1 in a local variable and tests whether the variable is negative.\<close>

definition slot_block :: mblk where
  "slot_block =
     \<lparr>blk_id = 0, blk_phi = [],
      blk_ins =
        [ex_ins MOP_ALLOCA 1 (MREF_CON (MC_INT MT_I32 4)) MREF_NONE,
         (ex_ins MOP_STORE 0 (MREF_CON (MC_INT MT_I32 (- 1))) (MREF_VAL 1))\<lparr>in_dst := None\<rparr>,
         ex_ins MOP_LOAD 2 (MREF_VAL 1) MREF_NONE,
         ex_ins MOP_CSLT 3 (MREF_VAL 2) (MREF_CON (MC_INT MT_I32 0))],
      blk_term = (ex_ins MOP_RET 0 (MREF_VAL 3) MREF_NONE)\<lparr>in_dst := None\<rparr>, blk_s1 = None, blk_s2 = None\<rparr>"

definition slot_fn :: mfn where
  "slot_fn =
     \<lparr>fn_val = replicate 4 \<lparr>val_kind = MV_TEMP, val_type = MT_I32, val_def = True, val_defblk = Some 0\<rparr>, fn_link = [slot_block]\<rparr>"

text \<open>A machine with one memory cell, at address 16.\<close>

definition slot_machine :: "u64 machine" where
  "slot_machine =
     \<lparr>mc_ext = (\<lambda>op dt e x y m.
        if op = MOP_ALLOCA then Some (16, m)
        else if op = MOP_STORE \<and> y = 16 then Some (0, x)
        else if op = MOP_LOAD \<and> x = 16 then Some (m, m)
        else None),
      mc_con = (\<lambda>_. 0)\<rparr>"

definition slot_folded :: mblk where
  "slot_folded = slot_block\<lparr>blk_ins := take 2 (blk_ins slot_block), blk_term := (blk_term slot_block)\<lparr>in_src0 := MREF_CON (MC_INT MT_I32 0)\<rparr>\<rparr>"

lemma slot_uses: "\<not> used_outside slot_fn 1 0" "\<not> used_outside slot_fn 2 0" "\<not> used_outside slot_fn 3 0"
  by (simp_all add: used_outside_def build_uses_def build_uses_block_def mark_use_def slot_fn_def slot_block_def ex_ins_def)

lemma slot_temp: "is_temp slot_fn 1" "alloca_slots slot_fn 1"
  by (simp_all add: is_temp_def alloca_slots_def slot_fn_def slot_block_def ex_ins_def)

lemma slot_ins:
  shows "msimp_ins F True slot_fn (alloca_slots slot_fn) 0 [] (ex_ins MOP_ALLOCA 1 (MREF_CON (MC_INT MT_I32 4)) MREF_NONE)
      (MREF_CON (MC_INT MT_I32 4)) MREF_NONE = Some ([], Keep (ex_ins MOP_ALLOCA 1 (MREF_CON (MC_INT MT_I32 4)) MREF_NONE))"
    and "msimp_ins F True slot_fn (alloca_slots slot_fn) 0 [] ((ex_ins MOP_STORE 0 (MREF_CON (MC_INT MT_I32 (- 1))) (MREF_VAL 1))\<lparr>in_dst := None\<rparr>)
      (MREF_CON (MC_INT MT_I32 (- 1))) (MREF_VAL 1) =
      Some ([(1, MC_INT MT_I32 (- 1), MT_I32)], Keep ((ex_ins MOP_STORE 0 (MREF_CON (MC_INT MT_I32 (- 1))) (MREF_VAL 1))\<lparr>in_dst := None\<rparr>))"
    and "msimp_ins F True slot_fn (alloca_slots slot_fn) 0 [(1, MC_INT MT_I32 (- 1), MT_I32)] (ex_ins MOP_LOAD 2 (MREF_VAL 1) MREF_NONE)
      (MREF_VAL 1) MREF_NONE = Some ([(1, MC_INT MT_I32 (- 1), MT_I32)], Replace (MREF_CON (MC_INT MT_I32 4294967295)))"
    and "msimp_ins F True slot_fn (alloca_slots slot_fn) 0 mc (ex_ins MOP_CSLT 3 (MREF_VAL 2) (MREF_CON (MC_INT MT_I32 0)))
      (MREF_CON (MC_INT MT_I32 4294967295)) (MREF_CON (MC_INT MT_I32 0)) = Some (mc, Replace (MREF_CON (MC_INT MT_I32 0)))"
proof -
  have con: "memc_const MT_I32 (MC_INT MT_I32 (- 1)) = MREF_CON (MC_INT MT_I32 4294967295)" by (simp add: memc_const_def)
  have cmp: "mfold_const F MOP_CSLT False (MC_INT MT_I32 4294967295) (MC_INT MT_I32 0) = Folded (MC_INT MT_I32 0)"
    using mfold_const_int(2) [of MOP_CSLT F False MT_I32 4294967295 MT_I32 0] by (simp add: is_icmp_iff word_sless_alt)
  note d = ex_ins_def keep_def msimp_ins_def msimp_fold_def msimp_mem_def Let_def slot_addr_def
  show "msimp_ins F True slot_fn (alloca_slots slot_fn) 0 [] (ex_ins MOP_ALLOCA 1 (MREF_CON (MC_INT MT_I32 4)) MREF_NONE)
      (MREF_CON (MC_INT MT_I32 4)) MREF_NONE = Some ([], Keep (ex_ins MOP_ALLOCA 1 (MREF_CON (MC_INT MT_I32 4)) MREF_NONE))"
    using slot_uses(1) by (simp add: d defined_outside_def msimp_alg_def less_mop_def)
  show "msimp_ins F True slot_fn (alloca_slots slot_fn) 0 [] ((ex_ins MOP_STORE 0 (MREF_CON (MC_INT MT_I32 (- 1))) (MREF_VAL 1))\<lparr>in_dst := None\<rparr>)
      (MREF_CON (MC_INT MT_I32 (- 1))) (MREF_VAL 1) =
      Some ([(1, MC_INT MT_I32 (- 1), MT_I32)], Keep ((ex_ins MOP_STORE 0 (MREF_CON (MC_INT MT_I32 (- 1))) (MREF_VAL 1))\<lparr>in_dst := None\<rparr>))"
    using slot_temp by (simp add: d memc_set_def)
  show "msimp_ins F True slot_fn (alloca_slots slot_fn) 0 [(1, MC_INT MT_I32 (- 1), MT_I32)] (ex_ins MOP_LOAD 2 (MREF_VAL 1) MREF_NONE)
      (MREF_VAL 1) MREF_NONE = Some ([(1, MC_INT MT_I32 (- 1), MT_I32)], Replace (MREF_CON (MC_INT MT_I32 4294967295)))"
    using slot_temp(1) slot_uses(2) con by (simp add: d)
  show "msimp_ins F True slot_fn (alloca_slots slot_fn) 0 mc (ex_ins MOP_CSLT 3 (MREF_VAL 2) (MREF_CON (MC_INT MT_I32 0)))
      (MREF_CON (MC_INT MT_I32 4294967295)) (MREF_CON (MC_INT MT_I32 0)) = Some (mc, Replace (MREF_CON (MC_INT MT_I32 0)))"
    using slot_uses(3) cmp by (simp add: d less_mop_def mt_wide_def)
qed

lemma mfold_slot: "mfold F True slot_fn = Some (slot_fn\<lparr>fn_link := [slot_folded]\<rparr>, 2)"
proof -
  have res: "map_resolve tab (MREF_CON c) = MREF_CON c" "map_resolve tab MREF_NONE = MREF_NONE"
    "map_resolve map_empty (MREF_VAL 1) = MREF_VAL 1" for tab c
    by (simp_all add: map_resolve_def)
  have len: "length map_empty = 32" "length (map_set map_empty 2 r) = 32" for r by (simp_all add: map_empty_def)
  have res2: "map_resolve (map_set map_empty 2 (MREF_CON c)) (MREF_VAL 2) = MREF_CON c"
    "map_resolve (map_set (map_set map_empty 2 (MREF_CON c)) 3 (MREF_CON c2)) (MREF_VAL 3) = MREF_CON c2" for c c2
    by (simp_all add: map_resolve_def map_get_set len)
  have src: "in_dst (ex_ins op v a b) = Some v" "in_src0 (ex_ins op v a b) = a" "in_src1 (ex_ins op v a b) = b" for op v a b
    by (simp_all add: ex_ins_def)
  have blk: "blk_id slot_block = 0" "fn_link slot_fn = [slot_block]" "in_src0 (blk_term slot_block) = MREF_VAL 3"
    by (simp_all add: slot_block_def slot_fn_def ex_ins_def)
  have ins: "blk_ins slot_block =
      [ex_ins MOP_ALLOCA 1 (MREF_CON (MC_INT MT_I32 4)) MREF_NONE,
       (ex_ins MOP_STORE 0 (MREF_CON (MC_INT MT_I32 (- 1))) (MREF_VAL 1))\<lparr>in_dst := None\<rparr>,
       ex_ins MOP_LOAD 2 (MREF_VAL 1) MREF_NONE,
       ex_ins MOP_CSLT 3 (MREF_VAL 2) (MREF_CON (MC_INT MT_I32 0))]" by (simp add: slot_block_def)
  have "msimp_loop F True slot_fn (alloca_slots slot_fn) 0 map_empty [] (blk_ins slot_block) =
      Some (take 2 (blk_ins slot_block), map_set (map_set map_empty 2 (MREF_CON (MC_INT MT_I32 4294967295))) 3 (MREF_CON (MC_INT MT_I32 0)), 2)"
  proof -
    have two: "take 2 (blk_ins slot_block) =
        [ex_ins MOP_ALLOCA 1 (MREF_CON (MC_INT MT_I32 4)) MREF_NONE,
         (ex_ins MOP_STORE 0 (MREF_CON (MC_INT MT_I32 (- 1))) (MREF_VAL 1))\<lparr>in_dst := None\<rparr>]" by (simp add: ins)
    have "(2 :: nat) = Suc (Suc 0)" by simp
    then show ?thesis unfolding two by (simp add: ins src res res2 slot_ins del: One_nat_def)
  qed
  then show ?thesis by (simp add: mfold_def msimp_block_def blk res2 slot_folded_def)
qed

text \<open>
  Folding forgets signs: a 32-bit constant that is stored in a local variable and read back is zero
  extended, so a function that stores -1 in a variable and asks whether it is negative answers yes
  before the pass and no after it.
\<close>

theorem mfold_slot_sign:
  "mrun slot_machine slot_fn 0 0 env m 1 (- 1) \<and>
   (\<exists>fn' k. mfold F True slot_fn = Some (fn', k) \<and> mrun slot_machine fn' 0 0 env m 0 (- 1))"
proof
  have ops: "\<not> is_alu MOP_ALLOCA" "\<not> is_alu MOP_STORE" "\<not> is_alu MOP_LOAD" "\<not> is_alu MOP_CSLT"
    "\<not> is_icmp MOP_ALLOCA" "\<not> is_icmp MOP_STORE" "\<not> is_icmp MOP_LOAD" "is_icmp MOP_CSLT"
    by (simp_all add: is_alu_iff is_icmp_iff)
  have neg: "(- 1 :: u64) <s 0" by (simp add: word_sless_alt)
  have phi: "blk_phi slot_block = []" "blk_phi slot_folded = []" "in_op (blk_term slot_block) = MOP_RET" "in_op (blk_term slot_folded) = MOP_RET"
    "in_src0 (blk_term slot_block) = MREF_VAL 3" "in_src0 (blk_term slot_folded) = MREF_CON (MC_INT MT_I32 0)"
    by (simp_all add: slot_folded_def slot_block_def ex_ins_def)
  have "find_blk slot_fn 0 = Some slot_block" by (simp add: find_blk_def slot_fn_def slot_block_def)
  moreover have "exec_ins slot_machine (blk_ins slot_block) (env, m) = Some (env(1 := 16, 2 := - 1, 3 := 1), - 1)"
    by (simp add: slot_block_def ex_ins_def step_ins_def ops neg slot_machine_def set_dst_def)
  ultimately show "mrun slot_machine slot_fn 0 0 env m 1 (- 1)"
    using run_ret [of slot_fn 0 slot_block slot_machine 0 env m] by (fastforce simp: phi enter_blk_def)
  let ?fn = "slot_fn\<lparr>fn_link := [slot_folded]\<rparr>"
  have "find_blk ?fn 0 = Some slot_folded" by (simp add: find_blk_def slot_folded_def slot_block_def)
  moreover have "exec_ins slot_machine (blk_ins slot_folded) (env, m) = Some (env(1 := 16), - 1)"
    by (simp add: slot_folded_def slot_block_def ex_ins_def step_ins_def ops slot_machine_def set_dst_def)
  ultimately have "mrun slot_machine ?fn 0 0 env m 0 (- 1)"
    using run_ret [of ?fn 0 slot_folded slot_machine 0 env m] by (fastforce simp: phi enter_blk_def)
  then show "\<exists>fn' k. mfold F True slot_fn = Some (fn', k) \<and> mrun slot_machine fn' 0 0 env m 0 (- 1)"
    using mfold_slot by blast
qed

end
