(* ===== verification/Msdiv.thy ===== *)
theory Msdiv
  imports Mir_Run
begin

text \<open>
  Signed division by powers of two (\<^verbatim>\<open>msdiv_pow2\<close> of \<^verbatim>\<open>mcc/src/mir/mfold.c\<close>): a quotient becomes a shift of
  the dividend corrected by its sign, a remainder the difference to the multiple below.
\<close>

section \<open>The arithmetic\<close>

lemma sign_word: "signed_drop_bit (LENGTH('a) - 1) x = (if sint x < 0 then - 1 else 0)" for x :: "'a::len word"
proof (rule bit_word_eqI)
  fix n
  assume "n < LENGTH('a)"
  then show "bit (signed_drop_bit (LENGTH('a) - 1) x) n \<longleftrightarrow> bit (if sint x < 0 then - 1 else 0 :: 'a word) n"
    by (cases n) (auto simp: bit_signed_drop_bit_iff simp flip: bit_last_iff)
qed

lemma shift_div:
  fixes x :: "'a::len word"
  assumes "Suc k < LENGTH('a)"
  shows "signed_drop_bit k (x + (signed_drop_bit (LENGTH('a) - 1) x AND (push_bit k 1 - 1))) = word_of_int (sint x sdiv 2 ^ k)"
proof -
  let ?m = "push_bit k 1 - 1 :: 'a word"
  have lt: "(2 :: int) ^ k \<le> 2 ^ (LENGTH('a) - 1)" using assms by (intro power_increasing) simp_all
  have m: "?m = word_of_int (2 ^ k - 1)" by simp
  have fits: "sint (word_of_int z :: 'a word) = z" if "- (2 ^ (LENGTH('a) - 1)) \<le> z" "z < 2 ^ (LENGTH('a) - 1)" for z
    unfolding sint_sbintrunc' using that by (rule signed_take_bit_int_eq_self)
  have "sint (signed_drop_bit k (x + (signed_drop_bit (LENGTH('a) - 1) x AND ?m))) = sint x sdiv 2 ^ k"
  proof (cases "0 \<le> sint x")
    case True
    then have "signed_drop_bit (LENGTH('a) - 1) x = 0" by (simp only: sign_word) simp
    moreover have "sint x sdiv 2 ^ k = sint x div 2 ^ k"
      using True by (cases "sint x = 0") (simp_all add: signed_divide_int_def)
    ultimately show ?thesis by (simp add: sint_signed_drop_bit_eq drop_bit_eq_div)
  next
    case False
    then have a: "signed_drop_bit (LENGTH('a) - 1) x AND ?m = ?m" by (simp only: sign_word) simp
    have "x + ?m = word_of_int (sint x + (2 ^ k - 1))" by (simp add: m)
    moreover have "- (2 ^ (LENGTH('a) - 1)) \<le> sint x + (2 ^ k - 1)" "sint x + (2 ^ k - 1) < 2 ^ (LENGTH('a) - 1)"
    proof -
      have "(0 :: int) < 2 ^ k" by simp
      then show "- (2 ^ (LENGTH('a) - 1)) \<le> sint x + (2 ^ k - 1)" "sint x + (2 ^ k - 1) < 2 ^ (LENGTH('a) - 1)"
        using sint_ge [of x] False lt by linarith+
    qed
    ultimately have s: "sint (x + ?m) = sint x + (2 ^ k - 1)" by (simp only: fits)
    have "sint x sdiv 2 ^ k = - ((- sint x) div 2 ^ k)" using False by (simp add: signed_divide_int_def)
    also have "\<dots> = (sint x + (2 ^ k - 1)) div 2 ^ k"
    proof -
      define s where "s = - sint x"
      define q r where "q = s div 2 ^ k" and "r = s mod 2 ^ k"
      have s: "s = 2 ^ k * q + r" and r: "0 \<le> r" "r < 2 ^ k" by (simp_all add: q_def r_def)
      have "(2 ^ k - 1 - s) div 2 ^ k = - q"
        by (rule int_div_pos_eq [of _ _ _ "2 ^ k - 1 - r"]) (use r in \<open>simp_all add: s\<close>)
      then have "(2 ^ k - 1 - s) div 2 ^ k = - (s div 2 ^ k)" by (simp only: q_def)
      then show ?thesis by (simp add: s_def algebra_simps)
    qed
    finally show ?thesis by (simp only: a sint_signed_drop_bit_eq drop_bit_eq_div s)
  qed
  then have "word_of_int (sint (signed_drop_bit k (x + (signed_drop_bit (LENGTH('a) - 1) x AND ?m)))) = (word_of_int (sint x sdiv 2 ^ k) :: 'a word)"
    by (rule arg_cong)
  then show ?thesis by simp
qed

lemma sint_pow2:
  assumes "Suc k < LENGTH('a)"
  shows "sint (push_bit k 1 :: 'a::len word) = 2 ^ k"
proof -
  have "(2 :: int) ^ k < 2 ^ (LENGTH('a) - 1)" using assms by (intro power_strict_increasing) simp_all
  then have "signed_take_bit (LENGTH('a) - 1) (2 ^ k :: int) = 2 ^ k"
    by (intro signed_take_bit_int_eq_self) (auto intro: order_trans [of _ 0])
  moreover have "push_bit k 1 = (word_of_int (2 ^ k) :: 'a word)" by simp
  ultimately show ?thesis by (simp only: sint_sbintrunc')
qed

lemma alu_msdiv:
  fixes x :: "'a::len word"
  assumes k: "Suc k < LENGTH('a)"
  defines "q \<equiv> signed_drop_bit k (x + (signed_drop_bit (LENGTH('a) - 1) x AND (push_bit k 1 - 1)))"
  shows "alu MOP_DIV x (push_bit k 1) = Some q" "alu MOP_REM x (push_bit k 1) = Some (x - push_bit k q)"
proof -
  note v = sint_pow2 [OF k]
  have "push_bit k 1 \<noteq> (0 :: 'a word)" using v by (metis power_eq_0_iff signed_0 zero_neq_numeral)
  moreover have "push_bit k 1 \<noteq> (- 1 :: 'a word)"
  proof
    assume "push_bit k 1 = (- 1 :: 'a word)"
    then have "(2 :: int) ^ k = - 1" using v by (simp only: sint_n1)
    moreover have "(0 :: int) < 2 ^ k" by simp
    ultimately show False by linarith
  qed
  ultimately have ok: "\<not> (push_bit k 1 = (0 :: 'a word) \<or> div_overflow x (push_bit k 1))" by (simp add: div_overflow_def)
  have q: "q = word_of_int (sint x sdiv 2 ^ k)" unfolding q_def by (rule shift_div [OF k])
  then show "alu MOP_DIV x (push_bit k 1) = Some q" using ok by (simp only: alu.simps v if_False)
  have "x - push_bit k q = word_of_int (sint x - 2 ^ k * (sint x sdiv 2 ^ k))"
    by (simp add: q push_bit_eq_mult mult.commute)
  also have "sint x - 2 ^ k * (sint x sdiv 2 ^ k) = sint x smod 2 ^ k"
    by (rule minus_mult_sdiv_eq_smod)
  finally show "alu MOP_REM x (push_bit k 1) = Some (x - push_bit k q)" using ok by (simp only: alu.simps v if_False)
qed

lemma msdiv_values:
  assumes "is_pow2 v" "canon w v = v"
  obtains t1 t2 t3 q p r where
    "mir_alu MOP_SAR w x (if w then 63 else 31) = Some t1" "mir_alu MOP_AND w t1 (v - 1) = Some t2" "mir_alu MOP_ADD w x t2 = Some t3"
    "mir_alu MOP_SAR w t3 (word_of_nat (log2_loop v)) = Some q" "mir_alu MOP_DIV w x v = Some q"
    "mir_alu MOP_SHL w q (word_of_nat (log2_loop v)) = Some p" "mir_alu MOP_SUB w x p = Some r" "mir_alu MOP_REM w x v = Some r"
proof -
  obtain k where k: "k < (if w then 63 else 31)" "v = push_bit k 1" "log2_loop v = k" "(ucast v :: u32) = push_bit k 1"
    using assms by (rule pow2_width)
  then have k64: "k < 64" by (auto split: if_splits)
  show ?thesis
  proof (cases w)
    case True
    then have k': "Suc k < LENGTH(64)" using k(1) by simp
    have n: "unat (word_of_nat k :: u64) mod LENGTH(64) = k" using k64 by (simp add: unat_of_nat take_bit_nat_eq_self)
    have s: "unat (63 :: u64) mod LENGTH(64) = LENGTH(64) - 1" by simp
    note alu = alu_msdiv [OF k', of x]
    show ?thesis
      by (rule that; (simp only: mir_alu_def True if_True alu.simps(1,2,9,12,14) n s k(3))?) (simp_all only: k(2) alu)
  next
    case False
    then have k': "Suc k < LENGTH(32)" using k(1) by simp
    have n: "unat (ucast (word_of_nat k :: u64) :: u32) mod LENGTH(32) = k"
      using k' by (simp add: unsigned_ucast_eq unat_of_nat take_bit_nat_eq_self)
    have s: "unat (ucast (31 :: u64) :: u32) mod LENGTH(32) = LENGTH(32) - 1" by simp
    have one: "(ucast (v - 1) :: u32) = push_bit k 1 - 1" using ucast_arith(2) [of v 1] by (simp only: k(4)) simp
    note alu = alu_msdiv [OF k', of "ucast x"]
    define t1 where "t1 = signed_drop_bit (LENGTH(32) - 1) (ucast x :: u32)"
    define q where "q = signed_drop_bit k (ucast x + (t1 AND (push_bit k 1 - 1)))"
    show ?thesis
    proof (rule that [of "scast t1" "scast (t1 AND (push_bit k 1 - 1))" "scast (ucast x + (t1 AND (push_bit k 1 - 1)))" "scast q"
          "scast (push_bit k q)" "scast (ucast x - push_bit k q)"])
    qed (simp_all only: mir_alu_def False if_False alu.simps(1,2,9,12,14) n s k(3,4) one ucast_scast_32 option.map alu t1_def q_def)
  qed
qed

section \<open>The pass\<close>

definition msdiv_emit :: "nat \<Rightarrow> mop \<Rightarrow> mtype \<Rightarrow> nat \<Rightarrow> mref \<Rightarrow> mref \<Rightarrow> mins" where
  "msdiv_emit b op dt dst a0 a1 =
     \<lparr>in_op = op, in_dtype = dt, in_dst = Some dst, in_src0 = a0, in_src1 = a1, in_extra = 0, in_blk = b\<rparr>"

text \<open>The divisor, when the instruction is to be expanded.\<close>

definition msdiv_divisor :: "mins \<Rightarrow> u64 option" where
  "msdiv_divisor i =
     (if in_dst i \<noteq> None \<and> (in_op i = MOP_DIV \<or> in_op i = MOP_REM) then
        (case int_con (in_src1 i) of
           Some v \<Rightarrow> if is_pow2 v \<and> 1 < v then Some v else None
         | None \<Rightarrow> None)
      else None)"

text \<open>The code for a division in block \<open>b\<close>; \<open>n\<close> is the number of the next new value.\<close>

definition msdiv_expand :: "nat \<Rightarrow> nat \<Rightarrow> mins \<Rightarrow> u64 \<Rightarrow> mins list" where
  "msdiv_expand b n i v =
     (let dt = in_dtype i; d = the (in_dst i); a0 = in_src0 i;
          bits = MREF_CON (MC_INT MT_I32 (if dt = MT_I64 then 63 else 31));
          sh = MREF_CON (MC_INT MT_I32 (word_of_nat (log2_loop v)))
      in
      [msdiv_emit b MOP_SAR dt n a0 bits,
       msdiv_emit b MOP_AND dt (n + 1) (MREF_VAL n) (MREF_CON (MC_INT dt (v - 1))),
       msdiv_emit b MOP_ADD dt (n + 2) a0 (MREF_VAL (n + 1))] @
      (if in_op i = MOP_REM then
         [msdiv_emit b MOP_SAR dt (n + 3) (MREF_VAL (n + 2)) sh,
          msdiv_emit b MOP_SHL dt (n + 3) (MREF_VAL (n + 3)) sh,
          msdiv_emit b MOP_SUB dt d a0 (MREF_VAL (n + 3))]
       else [msdiv_emit b MOP_SAR dt d (MREF_VAL (n + 2)) sh]))"

definition msdiv_vals :: "nat \<Rightarrow> mins \<Rightarrow> mval list" where
  "msdiv_vals b i =
     replicate (if in_op i = MOP_REM then 4 else 3) \<lparr>val_kind = MV_TEMP, val_type = in_dtype i, val_def = True, val_defblk = Some b\<rparr>"

text \<open>The output buffer has room for \<open>cap\<close> instructions; None is a write behind its end.\<close>

fun msdiv_loop :: "nat \<Rightarrow> nat \<Rightarrow> mval list \<Rightarrow> mins list \<Rightarrow> mins list \<Rightarrow> (mval list \<times> mins list \<times> bool) option" where
  "msdiv_loop cap b vals out [] = Some (vals, out, False)"
| "msdiv_loop cap b vals out (i # is) =
     (case msdiv_divisor i of
        None \<Rightarrow> if length out < cap then msdiv_loop cap b vals (out @ [i]) is else None
      | Some v \<Rightarrow>
          let new = msdiv_expand b (length vals) i v in
          if length out + length new \<le> cap
          then map_option (\<lambda>(vals, out, _). (vals, out, True)) (msdiv_loop cap b (vals @ msdiv_vals b i) (out @ new) is)
          else None)"

definition msdiv_pow2_block :: "mval list \<Rightarrow> mblk \<Rightarrow> (mval list \<times> mblk \<times> bool) option" where
  "msdiv_pow2_block vals b =
     (case msdiv_loop (length (blk_ins b) + 16) (blk_id b) vals [] (blk_ins b) of
        None \<Rightarrow> None
      | Some (vals', out, changed) \<Rightarrow> Some (vals', if changed then b\<lparr>blk_ins := out\<rparr> else b, changed))"

fun msdiv_blocks :: "mval list \<Rightarrow> mblk list \<Rightarrow> (mval list \<times> mblk list \<times> nat) option" where
  "msdiv_blocks vals [] = Some (vals, [], 0)"
| "msdiv_blocks vals (b # bs) =
     (case msdiv_pow2_block vals b of
        None \<Rightarrow> None
      | Some (vals, b', changed) \<Rightarrow>
          map_option (\<lambda>(vals, bs', r). (vals, b' # bs', (if changed then 1 else 0) + r)) (msdiv_blocks vals bs))"

definition msdiv_pow2 :: "mfn \<Rightarrow> (mfn \<times> nat) option" where
  "msdiv_pow2 fn = map_option (\<lambda>(vals, bs, r). (fn\<lparr>fn_val := vals, fn_link := bs\<rparr>, r)) (msdiv_blocks (fn_val fn) (fn_link fn))"

section \<open>The buffer\<close>

definition msdiv_growth :: "mins list \<Rightarrow> nat" where
  "msdiv_growth is =
     3 * length (filter (\<lambda>i. msdiv_divisor i \<noteq> None \<and> in_op i = MOP_DIV) is) +
     5 * length (filter (\<lambda>i. msdiv_divisor i \<noteq> None \<and> in_op i = MOP_REM) is)"

lemma msdiv_divisor_op: "msdiv_divisor i = Some v \<Longrightarrow> in_op i = MOP_DIV \<or> in_op i = MOP_REM"
  by (simp add: msdiv_divisor_def split: if_splits)

lemma msdiv_loop_room:
  "msdiv_loop cap b vals out is = None \<longleftrightarrow> is \<noteq> [] \<and> cap < length out + length is + msdiv_growth is"
proof (induction cap b vals out "is" rule: msdiv_loop.induct)
  case (2 cap b vals out i "is")
  show ?case
  proof (cases "msdiv_divisor i")
    case None
    then show ?thesis using 2(1) by (cases "is") (auto simp: msdiv_growth_def)
  next
    case (Some v)
    let ?new = "msdiv_expand b (length vals) i v"
    have len: "length ?new = (if in_op i = MOP_REM then 6 else 4)" by (simp add: msdiv_expand_def Let_def)
    have g: "1 + msdiv_growth (i # is) = length ?new + msdiv_growth is"
      using msdiv_divisor_op [OF Some] Some by (auto simp: msdiv_growth_def len)
    have IH: "length out + length ?new \<le> cap \<Longrightarrow>
        msdiv_loop cap b (vals @ msdiv_vals b i) (out @ ?new) is = None \<longleftrightarrow>
        is \<noteq> [] \<and> cap < length (out @ ?new) + length is + msdiv_growth is"
      by (rule 2(2) [OF Some refl])
    define m where "m = msdiv_growth (i # is)"
    have g0: "msdiv_growth [] = 0" by (simp add: msdiv_growth_def)
    have eq: "msdiv_loop cap b vals out (i # is) = None \<longleftrightarrow>
        \<not> length out + length ?new \<le> cap \<or> is \<noteq> [] \<and> cap < length out + length ?new + length is + msdiv_growth is"
      using IH Some by (simp add: Let_def)
    show ?thesis
      unfolding eq m_def [symmetric] using g [folded m_def] g0 by (cases "is = []") auto
  qed
qed simp

lemma msdiv_pow2_block_None: "msdiv_pow2_block vals b = None \<longleftrightarrow> 16 < msdiv_growth (blk_ins b)"
proof -
  have "msdiv_pow2_block vals b = None \<longleftrightarrow> msdiv_loop (length (blk_ins b) + 16) (blk_id b) vals [] (blk_ins b) = None"
    unfolding msdiv_pow2_block_def by (simp split: option.split)
  moreover have "blk_ins b = [] \<Longrightarrow> msdiv_growth (blk_ins b) = 0" by (simp add: msdiv_growth_def)
  ultimately show ?thesis unfolding msdiv_loop_room by auto
qed

text \<open>
  C38. The buffer of the expansion has 16 spare places for the whole block, but a division takes 3 and a
  remainder 5 of them: the pass writes behind the end of the heap block exactly for the blocks that
  need more, and a block of six divisions by two is one of them.
\<close>

theorem msdiv_pow2_overflow:
  "(msdiv_pow2_block vals b = None \<longleftrightarrow> 16 < msdiv_growth (blk_ins b)) \<and>
   msdiv_pow2_block vals (ex_block\<lparr>blk_ins := replicate 6 (ex_ins MOP_DIV 1 (MREF_VAL 0) (MREF_CON (MC_INT MT_I32 2)))\<rparr>) = None"
  by (simp only: msdiv_pow2_block_None simp_thms)
    (simp add: msdiv_growth_def msdiv_divisor_def ex_ins_def int_con_def is_pow2_def word_sless_alt numeral_eq_Suc)

section \<open>Correctness\<close>

definition ref_below :: "nat \<Rightarrow> mref \<Rightarrow> bool" where
  "ref_below N r = (case ref_val r of Some v \<Rightarrow> v < N | None \<Rightarrow> True)"

text \<open>All values are in the value table; divisions are integer divisions with a divisor of their width.\<close>

definition msdiv_ins_ok :: "nat \<Rightarrow> mins \<Rightarrow> bool" where
  "msdiv_ins_ok N i \<longleftrightarrow>
     ref_below N (in_src0 i) \<and> ref_below N (in_src1 i) \<and>
     (in_op i = MOP_DIV \<or> in_op i = MOP_REM \<longrightarrow>
        in_dtype i \<notin> {MT_F32, MT_F64, MT_PTR} \<and>
        (case int_con (in_src1 i) of Some v \<Rightarrow> canon (mt_wide (in_dtype i)) v = v | None \<Rightarrow> True)) \<and>
     (case in_dst i of Some d \<Rightarrow> d < N | None \<Rightarrow> True)"

definition msdiv_ok :: "mfn \<Rightarrow> bool" where
  "msdiv_ok fn \<longleftrightarrow>
     (let N = length (fn_val fn) in
      list_all (\<lambda>b. list_all (msdiv_ins_ok N) (blk_ins b) \<and> ref_below N (in_src0 (blk_term b)) \<and>
        list_all (\<lambda>ph. list_all (\<lambda>a. case a of Some u \<Rightarrow> u < N | None \<Rightarrow> True) (phi_arg ph)) (blk_phi b)) (fn_link fn))"

lemma below_eval: "agree (\<lambda>v. v < N) env env' \<Longrightarrow> ref_below N r \<Longrightarrow> eval_ref M env' r = eval_ref M env r"
  by (cases r) (auto simp: ref_below_def agree_def)

lemma eval_set_above: "ref_below N r \<Longrightarrow> N \<le> n \<Longrightarrow> eval_ref M (env(n := x)) r = eval_ref M env r"
  by (cases r) (auto simp: ref_below_def)

lemma step_emit:
  "is_alu op \<Longrightarrow> \<not> mt_float dt \<Longrightarrow> mir_alu op (mt_wide dt) (eval_ref M env a0) (eval_ref M env a1) = Some r \<Longrightarrow>
     exec_ins M (msdiv_emit b op dt d a0 a1 # is) (env, W) = exec_ins M is (env(d := r), W)"
  by (simp add: msdiv_emit_def step_alu set_dst_def)

lemma expand_exec:
  assumes div: "msdiv_divisor i = Some v" and d: "in_dst i = Some d" and ok: "msdiv_ins_ok N i" and n: "N \<le> n"
    and step: "step_ins M (in_op i) (in_dtype i) e (eval_ref M env (in_src0 i)) v W = Some (r, W')"
  shows "W' = W \<and> (\<exists>env'. exec_ins M (msdiv_expand b n i v) (env, W) = Some (env', W) \<and> env' d = r \<and> (\<forall>u < N. u \<noteq> d \<longrightarrow> env' u = env u))"
proof -
  define dt w x k where "dt = in_dtype i" and "w = mt_wide dt" and "x = eval_ref M env (in_src0 i)" and "k = log2_loop v"
  have op: "in_op i = MOP_DIV \<or> in_op i = MOP_REM" by (rule msdiv_divisor_op [OF div])
  have con: "is_pow2 v" "int_con (in_src1 i) = Some v" using div by (auto simp: msdiv_divisor_def split: if_splits option.splits)
  have dt: "dt \<notin> {MT_F32, MT_F64, MT_PTR}" and cv: "canon w v = v" and a0: "ref_below N (in_src0 i)" and "d < N"
    using ok op con(2) d by (auto simp: msdiv_ins_ok_def dt_def w_def)
  have fl: "\<not> mt_float dt" and bits: "(if dt = MT_I64 then 63 else 31) = (if w then 63 else 31 :: u64)"
    using dt by (auto simp: mt_float_def w_def mt_wide_def)
  obtain t1 t2 t3 q p s where t:
    "mir_alu MOP_SAR w x (if w then 63 else 31) = Some t1" "mir_alu MOP_AND w t1 (v - 1) = Some t2" "mir_alu MOP_ADD w x t2 = Some t3"
    "mir_alu MOP_SAR w t3 (word_of_nat k) = Some q" "mir_alu MOP_DIV w x v = Some q"
    "mir_alu MOP_SHL w q (word_of_nat k) = Some p" "mir_alu MOP_SUB w x p = Some s" "mir_alu MOP_REM w x v = Some s"
    using msdiv_values [OF con(1) cv, of x] unfolding k_def by metis
  have x1: "eval_ref M (env(n := y)) (in_src0 i) = x" "eval_ref M (env(n := y, n + 1 := z)) (in_src0 i) = x"
    "eval_ref M (env(n := y, n + 1 := z, n + 2 := z2)) (in_src0 i) = x"
    "eval_ref M (env(n := y, n + 1 := z, n + 2 := z2, n + 3 := z3)) (in_src0 i) = x" for y z z2 z3
    using n by (simp_all add: eval_set_above [OF a0] x_def)
  have alu: "is_alu MOP_SAR" "is_alu MOP_AND" "is_alu MOP_ADD" "is_alu MOP_SHL" "is_alu MOP_SUB" "is_alu MOP_DIV" "is_alu MOP_REM"
    by (simp_all add: is_alu_iff)
  have "in_dst i \<noteq> None" "the (in_dst i) = d" using d by simp_all
  note emit = step_emit [OF _ fl, folded w_def]
  note ev = eval_ref.simps eval_con.simps fun_upd_same
  have start: "exec_ins M (msdiv_expand b n i v) (env, W) =
      exec_ins M
        (if in_op i = MOP_REM then
           [msdiv_emit b MOP_SAR dt (n + 3) (MREF_VAL (n + 2)) (MREF_CON (MC_INT MT_I32 (word_of_nat k))),
            msdiv_emit b MOP_SHL dt (n + 3) (MREF_VAL (n + 3)) (MREF_CON (MC_INT MT_I32 (word_of_nat k))),
            msdiv_emit b MOP_SUB dt d (in_src0 i) (MREF_VAL (n + 3))]
         else [msdiv_emit b MOP_SAR dt d (MREF_VAL (n + 2)) (MREF_CON (MC_INT MT_I32 (word_of_nat k)))])
        (env(n := t1, n + 1 := t2, n + 2 := t3), W)"
    unfolding msdiv_expand_def Let_def dt_def [symmetric] k_def [symmetric] bits append.simps \<open>the (in_dst i) = d\<close>
    by (simp only: emit [OF alu(1)] emit [OF alu(2)] emit [OF alu(3)] ev x1 x_def [symmetric] t(1,2,3))
  show ?thesis
    using op
  proof
    assume DIV: "in_op i = MOP_DIV"
    then have no: "(in_op i = MOP_REM) = False" by simp
    have "rW = (q, W)" if "step_ins M (in_op i) (in_dtype i) e x v W = Some rW" for rW
      using that t(5) unfolding DIV dt_def [symmetric] step_alu [OF alu(6) fl] w_def [symmetric] by simp
    then have r: "r = q" "W' = W" using step unfolding x_def by auto
    have "exec_ins M (msdiv_expand b n i v) (env, W) = Some (env(n := t1, n + 1 := t2, n + 2 := t3, d := q), W)"
      unfolding start no if_False by (simp only: emit [OF alu(1)] ev t(4) exec_ins.simps(1))
    with r n \<open>d < N\<close> show ?thesis
      by (intro conjI exI [of _ "env(n := t1, n + 1 := t2, n + 2 := t3, d := q)"]) auto
  next
    assume REM: "in_op i = MOP_REM"
    have "rW = (s, W)" if "step_ins M (in_op i) (in_dtype i) e x v W = Some rW" for rW
      using that t(8) unfolding REM dt_def [symmetric] step_alu [OF alu(7) fl] w_def [symmetric] by simp
    then have r: "r = s" "W' = W" using step unfolding x_def by auto
    have "exec_ins M (msdiv_expand b n i v) (env, W) =
        Some (env(n := t1, n + 1 := t2, n + 2 := t3, n + 3 := p, d := s), W)"
      unfolding start if_P [OF REM]
      by (simp only: emit [OF alu(1)] emit [OF alu(4)] emit [OF alu(5)] ev x1 fun_upd_upd t(4,6,7) exec_ins.simps(1))
    with r n \<open>d < N\<close> show ?thesis
      by (intro conjI exI [of _ "env(n := t1, n + 1 := t2, n + 2 := t3, n + 3 := p, d := s)"]) auto
  qed
qed

lemma msdiv_loop_sim:
  assumes "msdiv_loop cap b vals out is = Some (vals', out', ch)" "N \<le> length vals" "list_all (msdiv_ins_ok N) is"
  shows "\<exists>ys. out' = out @ ys \<and> (\<not> ch \<longrightarrow> ys = is) \<and> N \<le> length vals' \<and>
    (\<forall>env env' W e2 W2. agree (\<lambda>v. v < N) env env' \<longrightarrow> exec_ins M is (env, W) = Some (e2, W2) \<longrightarrow>
       (\<exists>e2'. exec_ins M ys (env', W) = Some (e2', W2) \<and> agree (\<lambda>v. v < N) e2 e2'))"
  using assms
proof (induction "is" arbitrary: vals out vals' out' ch)
  case Nil
  then show ?case by auto
next
  case (Cons i "is")
  have ok: "msdiv_ins_ok N i" "list_all (msdiv_ins_ok N) is" using Cons.prems(3) by simp_all
  show ?case
  proof (cases "msdiv_divisor i")
    case None
    then have "msdiv_loop cap b vals (out @ [i]) is = Some (vals', out', ch)"
      using Cons.prems(1) by (auto split: if_splits)
    from Cons.IH [OF this Cons.prems(2) ok(2)] obtain ys where
      ys: "out' = out @ i # ys" "\<not> ch \<longrightarrow> ys = is" "N \<le> length vals'"
      and sim: "\<And>env env' W e2 W2. agree (\<lambda>v. v < N) env env' \<Longrightarrow> exec_ins M is (env, W) = Some (e2, W2) \<Longrightarrow>
         \<exists>e2'. exec_ins M ys (env', W) = Some (e2', W2) \<and> agree (\<lambda>v. v < N) e2 e2'"
      by auto
    have "\<exists>e2'. exec_ins M (i # ys) (env', W) = Some (e2', W2) \<and> agree (\<lambda>v. v < N) e2 e2'"
      if ag: "agree (\<lambda>v. v < N) env env'" and run: "exec_ins M (i # is) (env, W) = Some (e2, W2)" for env env' W e2 W2
    proof -
      have ev: "eval_ref M env' (in_src0 i) = eval_ref M env (in_src0 i)" "eval_ref M env' (in_src1 i) = eval_ref M env (in_src1 i)"
        using ok(1) by (auto simp: msdiv_ins_ok_def intro: below_eval [OF ag])
      obtain r W' where r: "step_ins M (in_op i) (in_dtype i) (in_extra i) (eval_ref M env (in_src0 i)) (eval_ref M env (in_src1 i)) W = Some (r, W')"
          "exec_ins M is (set_dst (in_dst i) r env, W') = Some (e2, W2)"
        using run by (auto split: option.splits)
      have "agree (\<lambda>v. v < N) (set_dst (in_dst i) r env) (set_dst (in_dst i) r env')"
        using ag by (auto simp: agree_def set_dst_def split: option.split)
      from sim [OF this r(2)] show ?thesis using r(1) ev by auto
    qed
    then show ?thesis using ys by blast
  next
    case (Some v)
    let ?new = "msdiv_expand b (length vals) i v"
    obtain ch' where "msdiv_loop cap b (vals @ msdiv_vals b i) (out @ ?new) is = Some (vals', out', ch')" and ch: ch
      using Cons.prems(1) Some by (auto simp: Let_def split: if_splits)
    from Cons.IH [OF this(1) _ ok(2)] Cons.prems(2) obtain ys where
      ys: "out' = out @ ?new @ ys" "N \<le> length vals'"
      and sim: "\<And>env env' W e2 W2. agree (\<lambda>v. v < N) env env' \<Longrightarrow> exec_ins M is (env, W) = Some (e2, W2) \<Longrightarrow>
         \<exists>e2'. exec_ins M ys (env', W) = Some (e2', W2) \<and> agree (\<lambda>v. v < N) e2 e2'"
      by auto
    obtain d where d: "in_dst i = Some d" using Some by (auto simp: msdiv_divisor_def split: if_splits)
    have v: "eval_ref M env (in_src1 i) = v" for env
      using Some by (auto simp: msdiv_divisor_def int_con_eval split: if_splits option.splits)
    have "\<exists>e2'. exec_ins M (?new @ ys) (env', W) = Some (e2', W2) \<and> agree (\<lambda>v. v < N) e2 e2'"
      if ag: "agree (\<lambda>v. v < N) env env'" and run: "exec_ins M (i # is) (env, W) = Some (e2, W2)" for env env' W e2 W2
    proof -
      obtain r W' where r: "step_ins M (in_op i) (in_dtype i) (in_extra i) (eval_ref M env (in_src0 i)) v W = Some (r, W')"
          "exec_ins M is (env(d := r), W') = Some (e2, W2)"
        using run by (auto simp: v d set_dst_def split: option.splits)
      have "eval_ref M env' (in_src0 i) = eval_ref M env (in_src0 i)"
        using ok(1) by (auto simp: msdiv_ins_ok_def intro: below_eval [OF ag])
      then have "step_ins M (in_op i) (in_dtype i) (in_extra i) (eval_ref M env' (in_src0 i)) v W = Some (r, W')" using r(1) by simp
      from expand_exec [OF Some d ok(1) Cons.prems(2) this, of b] obtain env2 where
        W': "W' = W" and e: "exec_ins M ?new (env', W) = Some (env2, W)" "env2 d = r" "\<forall>u < N. u \<noteq> d \<longrightarrow> env2 u = env' u" by blast
      have "agree (\<lambda>v. v < N) (env(d := r)) env2" using ag e(2,3) by (auto simp: agree_def)
      from sim [OF this r(2)] show ?thesis using e(1) W' by (auto simp: exec_ins_append)
    qed
    then show ?thesis using ys ch by (intro exI [of _ "?new @ ys"]) auto
  qed
qed

definition msdiv_pair :: "nat \<Rightarrow> 'w machine \<Rightarrow> mblk \<Rightarrow> mblk \<Rightarrow> bool" where
  "msdiv_pair N M b b' \<longleftrightarrow> blk_id b' = blk_id b \<and> blk_sim M (\<lambda>v. v < N) (\<lambda>_. True) b b'"

lemma msdiv_block_sim:
  assumes "msdiv_pow2_block vals b = Some (vals', b', ch)" "N \<le> length vals" "list_all (msdiv_ins_ok N) (blk_ins b)"
    "ref_below N (in_src0 (blk_term b))"
  shows "N \<le> length vals' \<and> msdiv_pair N M b b'"
proof -
  obtain out where l: "msdiv_loop (length (blk_ins b) + 16) (blk_id b) vals [] (blk_ins b) = Some (vals', out, ch)"
    and b': "b' = (if ch then b\<lparr>blk_ins := out\<rparr> else b)"
    using assms(1) by (auto simp: msdiv_pow2_block_def split: option.splits)
  from msdiv_loop_sim [OF l assms(2,3), of M] have "blk_ins b' = out" and N: "N \<le> length vals'"
    and sim: "\<And>env env' W e2 W2. agree (\<lambda>v. v < N) env env' \<Longrightarrow> exec_ins M (blk_ins b) (env, W) = Some (e2, W2) \<Longrightarrow>
       \<exists>e2'. exec_ins M out (env', W) = Some (e2', W2) \<and> agree (\<lambda>v. v < N) e2 e2'"
    using b' by auto
  have same: "blk_id b' = blk_id b" "blk_phi b' = blk_phi b" "blk_term b' = blk_term b" "blk_s1 b' = blk_s1 b" "blk_s2 b' = blk_s2 b"
    using b' by auto
  have tsame: "agree (\<lambda>v. v < N) e2 e2' \<Longrightarrow> eval_ref M e2' (in_src0 (blk_term b)) = eval_ref M e2 (in_src0 (blk_term b))" for e2 e2'
    by (erule below_eval) (rule assms(4))
  have "blk_sim M (\<lambda>v. v < N) (\<lambda>_. True) b b'"
    unfolding blk_sim_def \<open>blk_ins b' = out\<close>
  proof (intro conjI allI impI)
    fix env env' W e2 W2
    assume "agree (\<lambda>v. v < N) env env'" "exec_ins M (blk_ins b) (env, W) = Some (e2, W2)"
    from sim [OF this] obtain e2' where e2': "exec_ins M out (env', W) = Some (e2', W2)" "agree (\<lambda>v. v < N) e2 e2'" by blast
    show "\<exists>e2'. exec_ins M out (env', W) = Some (e2', W2) \<and> agree (\<lambda>v. v < N) e2 e2' \<and>
        (in_op (blk_term b) = MOP_RET \<longrightarrow>
           in_op (blk_term b') = MOP_RET \<and> eval_ref M e2' (in_src0 (blk_term b')) = eval_ref M e2 (in_src0 (blk_term b))) \<and>
        (\<forall>m. term_next M e2 b = Some m \<longrightarrow> term_next M e2' b' = Some m)"
      using e2' tsame [OF e2'(2)] by (intro exI [of _ e2']) (simp add: same term_next_def)
  qed (rule same)
  then show ?thesis using N same(1) by (simp add: msdiv_pair_def)
qed

lemma msdiv_blocks_sim:
  assumes "msdiv_blocks vals bs = Some (vals', bs', r)" "N \<le> length vals"
    "list_all (\<lambda>b. list_all (msdiv_ins_ok N) (blk_ins b) \<and> ref_below N (in_src0 (blk_term b))) bs" "find (\<lambda>b. blk_id b = n) bs = Some b"
  shows "\<exists>b'. find (\<lambda>b. blk_id b = n) bs' = Some b' \<and> msdiv_pair N M b b'"
  using assms
proof (induction bs arbitrary: vals vals' bs' r)
  case (Cons c bs)
  obtain vals2 c' ch bs2 r2 where c: "msdiv_pow2_block vals c = Some (vals2, c', ch)" "msdiv_blocks vals2 bs = Some (vals', bs2, r2)" "bs' = c' # bs2"
    using Cons.prems(1) by (auto split: option.splits)
  have "N \<le> length vals2 \<and> msdiv_pair N M c c'" by (rule msdiv_block_sim [OF c(1) Cons.prems(2)]) (use Cons.prems(3) in auto)
  then show ?case using Cons.IH [OF c(2)] Cons.prems(3,4) c(3) by (auto simp: msdiv_pair_def split: if_splits)
qed simp

interpretation sdiv: mir_pass M msdiv_ok "\<lambda>fn. map_option fst (msdiv_pow2 fn)" "\<lambda>fn v. v < length (fn_val fn)" "\<lambda>_. True"
  for M :: "'w machine"
proof
  fix fn fn' :: mfn and n b
  assume ok: "msdiv_ok fn" and fn': "map_option fst (msdiv_pow2 fn) = Some fn'" and b: "find_blk fn n = Some b"
  obtain vals bs r where r: "msdiv_blocks (fn_val fn) (fn_link fn) = Some (vals, bs, r)" "fn_link fn' = bs"
    using fn' by (auto simp: msdiv_pow2_def)
  have "list_all (\<lambda>b. list_all (msdiv_ins_ok (length (fn_val fn))) (blk_ins b) \<and> ref_below (length (fn_val fn)) (in_src0 (blk_term b))) (fn_link fn)"
    using ok by (simp add: msdiv_ok_def Let_def list_all_iff)
  from msdiv_blocks_sim [OF r(1) order_refl this b [unfolded find_blk_def], of M]
  show "\<exists>b'. find_blk fn' n = Some b' \<and> blk_sim M (\<lambda>v. v < length (fn_val fn)) (\<lambda>_. True) b b'"
    by (auto simp: find_blk_def r(2) msdiv_pair_def)
next
  fix fn n b ph u
  assume "msdiv_ok fn" "find_blk fn n = Some b" "ph \<in> set (blk_phi b)" "Some u \<in> set (phi_arg ph)"
  then show "u < length (fn_val fn)" using find_blk_mem by (fastforce simp: msdiv_ok_def Let_def list_all_iff)
qed auto


definition sdiv_block :: mblk where
  "sdiv_block =
     \<lparr>blk_id = 0, blk_phi = [], blk_ins = [ex_ins MOP_DIV 1 (MREF_VAL 0) (MREF_CON (MC_INT MT_I32 8))],
      blk_term = (ex_ins MOP_RET 0 (MREF_VAL 1) MREF_NONE)\<lparr>in_dst := None\<rparr>, blk_s1 = None, blk_s2 = None\<rparr>"

definition sdiv_fn :: mfn where
  "sdiv_fn =
     \<lparr>fn_val = replicate 2 \<lparr>val_kind = MV_TEMP, val_type = MT_I32, val_def = True, val_defblk = Some 0\<rparr>, fn_link = [sdiv_block]\<rparr>"


end
