(* ===== verification/Mdce.thy ===== *)
theory Mdce
  imports Mir_Run
begin

text \<open>
  Dead code elimination on the medium IR (\<^verbatim>\<open>mcc/src/mir/mdce.c\<close>): an instruction whose result has no use is
  dropped unless its opcode is in a list of side effects, block by block, until nothing changes.
\<close>

section \<open>The pass\<close>

definition nuse :: "mfn \<Rightarrow> nat \<Rightarrow> nat" where
  "nuse fn v = length (build_uses fn v)"

definition has_side_effect :: "mop \<Rightarrow> bool" where
  "has_side_effect op \<longleftrightarrow>
     op = MOP_STORE \<or> op = MOP_CALL \<or> op = MOP_ALLOCA \<or> op = MOP_VASTART \<or> op = MOP_SALLOC \<or> op = MOP_PAR"

definition dead_ins :: "mfn \<Rightarrow> mins \<Rightarrow> bool" where
  "dead_ins fn i \<longleftrightarrow> (case in_dst i of None \<Rightarrow> False | Some d \<Rightarrow> nuse fn d = 0 \<and> \<not> has_side_effect (in_op i) \<and> is_temp fn d)"

definition mdce_block :: "mfn \<Rightarrow> mblk \<Rightarrow> mblk \<times> nat" where
  "mdce_block fn b =
     (b\<lparr>blk_ins := filter (\<lambda>i. \<not> dead_ins fn i) (blk_ins b)\<rparr>, length (filter (dead_ins fn) (blk_ins b)))"

definition mdce_round :: "mfn \<Rightarrow> mfn \<times> nat" where
  "mdce_round fn =
     (fn\<lparr>fn_link := map (fst \<circ> mdce_block fn) (fn_link fn)\<rparr>, sum_list (map (snd \<circ> mdce_block fn) (fn_link fn)))"

definition fn_size :: "mfn \<Rightarrow> nat" where
  "fn_size fn = sum_list (map (length \<circ> blk_ins) (fn_link fn))"

lemma mdce_round_size: "fn_size (fst (mdce_round fn)) + snd (mdce_round fn) = fn_size fn"
proof -
  have "sum_list (map (\<lambda>b. length (filter (\<lambda>i. \<not> dead_ins fn i) (blk_ins b))) bs) + sum_list (map (\<lambda>b. length (filter (dead_ins fn) (blk_ins b))) bs) =
      sum_list (map (\<lambda>b. length (blk_ins b)) bs)" for bs
  proof (induction bs)
    case (Cons b bs)
    then show ?case using sum_length_filter_compl [of "dead_ins fn" "blk_ins b"] by simp
  qed simp
  then show ?thesis by (simp add: fn_size_def mdce_round_def mdce_block_def o_def)
qed

function mdce :: "mfn \<Rightarrow> mfn \<times> nat" where
  "mdce fn =
     (case mdce_round fn of (fn', round) \<Rightarrow>
        if round = 0 then (fn', 0) else (case mdce fn' of (fn2, r) \<Rightarrow> (fn2, round + r)))"
  by pat_completeness auto

termination
proof (relation "measure fn_size")
  fix fn fn' and round :: nat
  assume "(fn', round) = mdce_round fn" "round \<noteq> 0"
  then show "(fn', fn) \<in> measure fn_size" using mdce_round_size [of fn] by (cases "mdce_round fn") auto
qed simp

declare mdce.simps [simp del]

section \<open>One round\<close>

definition observed :: "mfn \<Rightarrow> nat \<Rightarrow> bool" where
  "observed fn v \<longleftrightarrow> is_temp fn v \<longrightarrow> nuse fn v \<noteq> 0"

text \<open>What a dropped instruction may do to the rest of the machine: nothing.\<close>

definition pure_ins :: "'w machine \<Rightarrow> mins \<Rightarrow> bool" where
  "pure_ins M i \<longleftrightarrow>
     (\<forall>x y W r W'. step_ins M (in_op i) (in_dtype i) (in_extra i) x y W = Some (r, W') \<longrightarrow> W' = W)"

definition mdce_ok :: "'w machine \<Rightarrow> mfn \<Rightarrow> bool" where
  "mdce_ok M fn \<longleftrightarrow>
     list_all (\<lambda>b. list_all (\<lambda>i. in_dst i = None \<or> has_side_effect (in_op i) \<or> pure_ins M i) (blk_ins b)) (fn_link fn)"

lemma observed_use:
  assumes "b \<in> set (fn_link fn)" "u \<in> set (build_uses_block v b)"
  shows "observed fn v"
proof -
  have "is_temp fn v \<longrightarrow> u \<in> set (build_uses fn v)" using assms by (auto simp: build_uses_def)
  then have "is_temp fn v \<longrightarrow> build_uses fn v \<noteq> []" by auto
  then show ?thesis by (simp add: observed_def nuse_def)
qed

lemma observed_operands:
  assumes "b \<in> set (fn_link fn)" "i \<in> set (blk_ins b)" "ref_val (in_src0 i) = Some v \<or> ref_val (in_src1 i) = Some v"
  shows "observed fn v"
proof (rule observed_use [OF assms(1)])
  show "Use_ins (in_blk i) \<in> set (build_uses_block v b)" using assms(2,3) by (auto simp: build_uses_block_def mark_use_def)
qed

lemma observed_term:
  assumes "b \<in> set (fn_link fn)" "ref_val (in_src0 (blk_term b)) = Some v"
  shows "observed fn v"
proof (rule observed_use [OF assms(1)])
  show "Use_ins (in_blk (blk_term b)) \<in> set (build_uses_block v b)" using assms(2) by (auto simp: build_uses_block_def mark_use_def)
qed

lemma observed_phi:
  assumes "b \<in> set (fn_link fn)" "ph \<in> set (blk_phi b)" "Some v \<in> set (phi_arg ph)"
  shows "observed fn v"
proof (rule observed_use [OF assms(1)])
  show "Use_phi \<in> set (build_uses_block v b)" using assms(2,3) by (fastforce simp: build_uses_block_def)
qed

lemma eval_agree: "agree X env env' \<Longrightarrow> (\<And>v. ref_val r = Some v \<Longrightarrow> X v) \<Longrightarrow> eval_ref M env' r = eval_ref M env r"
  by (cases r) (auto simp: agree_def)

lemma exec_dead:
  assumes "exec_ins M is (env, W) = Some (e2, W2)" "agree (observed fn) env env'"
    "\<forall>i \<in> set is. (\<forall>v. ref_val (in_src0 i) = Some v \<or> ref_val (in_src1 i) = Some v \<longrightarrow> observed fn v) \<and>
       (in_dst i = None \<or> has_side_effect (in_op i) \<or> pure_ins M i)"
  shows "\<exists>e2'. exec_ins M (filter (\<lambda>i. \<not> dead_ins fn i) is) (env', W) = Some (e2', W2) \<and> agree (observed fn) e2 e2'"
  using assms
proof (induction "is" arbitrary: env env' W)
  case (Cons i "is")
  obtain r W' where r: "step_ins M (in_op i) (in_dtype i) (in_extra i) (eval_ref M env (in_src0 i)) (eval_ref M env (in_src1 i)) W = Some (r, W')"
      "exec_ins M is (set_dst (in_dst i) r env, W') = Some (e2, W2)"
    using Cons.prems(1) by (auto split: option.splits)
  have ev: "eval_ref M env' (in_src0 i) = eval_ref M env (in_src0 i)" "eval_ref M env' (in_src1 i) = eval_ref M env (in_src1 i)"
    using Cons.prems(3) by (auto intro: eval_agree [OF Cons.prems(2)])
  have rest: "\<forall>i \<in> set is. (\<forall>v. ref_val (in_src0 i) = Some v \<or> ref_val (in_src1 i) = Some v \<longrightarrow> observed fn v) \<and>
       (in_dst i = None \<or> has_side_effect (in_op i) \<or> pure_ins M i)" using Cons.prems(3) by simp
  show ?case
  proof (cases "dead_ins fn i")
    case True
    then obtain d where d: "in_dst i = Some d" "\<not> observed fn d" "\<not> has_side_effect (in_op i)"
      by (auto simp: dead_ins_def observed_def split: option.splits)
    then have "pure_ins M i" using Cons.prems(3) by simp
    then have "W' = W" using r(1) by (auto simp: pure_ins_def)
    moreover have "agree (observed fn) (set_dst (in_dst i) r env) env'"
      using Cons.prems(2) d by (auto simp: agree_def set_dst_def)
    ultimately show ?thesis using Cons.IH [OF r(2) _ rest] True by auto
  next
    case False
    have "agree (observed fn) (set_dst (in_dst i) r env) (set_dst (in_dst i) r env')"
      using Cons.prems(2) by (auto simp: agree_def set_dst_def split: option.split)
    from Cons.IH [OF r(2) this rest] show ?thesis using False r(1) ev by auto
  qed
qed simp

interpretation dce_round: mir_pass M "mdce_ok M" "\<lambda>fn. Some (fst (mdce_round fn))" observed "\<lambda>_. True"
  for M :: "'w machine"
proof
  fix fn fn' :: mfn and n b
  assume ok: "mdce_ok M fn" and fn': "Some (fst (mdce_round fn)) = Some fn'" and b: "find_blk fn n = Some b"
  have mem: "b \<in> set (fn_link fn)" using find_blk_mem [OF b] by simp
  let ?b = "fst (mdce_block fn b)"
  have "find_blk fn' n = Some ?b"
    using find_blk_map [of fn' "fst \<circ> mdce_block fn" fn n b] fn' b by (auto simp: mdce_round_def mdce_block_def)
  moreover have "blk_sim M (observed fn) (\<lambda>_. True) b ?b"
    unfolding blk_sim_def
  proof (intro conjI allI impI)
    fix env env' W e2 W2
    assume ag: "agree (observed fn) env env'" and run: "exec_ins M (blk_ins b) (env, W) = Some (e2, W2)"
    have pure: "in_dst i = None \<or> has_side_effect (in_op i) \<or> pure_ins M i" if "i \<in> set (blk_ins b)" for i
      using ok mem that by (simp add: mdce_ok_def list_all_iff)
    obtain e2' where e2': "exec_ins M (blk_ins ?b) (env', W) = Some (e2', W2)" "agree (observed fn) e2 e2'"
      using exec_dead [OF run ag] observed_operands [OF mem] pure by (auto simp: mdce_block_def)
    have "eval_ref M e2' (in_src0 (blk_term b)) = eval_ref M e2 (in_src0 (blk_term b))"
      by (rule eval_agree [OF e2'(2)]) (rule observed_term [OF mem])
    then show "\<exists>e2'. exec_ins M (blk_ins ?b) (env', W) = Some (e2', W2) \<and> agree (observed fn) e2 e2' \<and>
        (in_op (blk_term b) = MOP_RET \<longrightarrow>
           in_op (blk_term ?b) = MOP_RET \<and> eval_ref M e2' (in_src0 (blk_term ?b)) = eval_ref M e2 (in_src0 (blk_term b))) \<and>
        (\<forall>m. term_next M e2 b = Some m \<longrightarrow> term_next M e2' ?b = Some m)"
      using e2' by (auto simp: mdce_block_def term_next_def)
  qed (simp add: mdce_block_def)
  ultimately show "\<exists>b'. find_blk fn' n = Some b' \<and> blk_sim M (observed fn) (\<lambda>_. True) b b'" by blast
next
  fix fn n b ph u
  assume "find_blk fn n = Some b" "ph \<in> set (blk_phi b)" "Some u \<in> set (phi_arg ph)"
  then show "observed fn u" using find_blk_mem observed_phi by blast
qed auto

section \<open>The whole pass\<close>

lemma mdce_round_ok: "mdce_ok M fn \<Longrightarrow> mdce_ok M (fst (mdce_round fn))"
  by (auto simp: mdce_ok_def mdce_round_def mdce_block_def list_all_iff)

lemma mdce_round_id:
  assumes "snd (mdce_round fn) = 0"
  shows "fst (mdce_round fn) = fn" "b \<in> set (fn_link fn) \<Longrightarrow> i \<in> set (blk_ins b) \<Longrightarrow> \<not> dead_ins fn i"
proof -
  have none: "\<not> dead_ins fn i" if "b \<in> set (fn_link fn)" "i \<in> set (blk_ins b)" for b i
    using assms that by (auto simp: mdce_round_def mdce_block_def filter_empty_conv)
  then show "b \<in> set (fn_link fn) \<Longrightarrow> i \<in> set (blk_ins b) \<Longrightarrow> \<not> dead_ins fn i" by blast
  have "fst (mdce_block fn b) = b" if "b \<in> set (fn_link fn)" for b
    using none [OF that] by (simp add: mdce_block_def cong: filter_cong)
  then have "map (fst \<circ> mdce_block fn) (fn_link fn) = fn_link fn" by (simp add: map_idI)
  then show "fst (mdce_round fn) = fn" by (simp add: mdce_round_def)
qed

text \<open>
  C8. Dead code elimination preserves the program and finishes its work: if the instructions with a result
  that the pass does not protect leave the rest of the machine alone, then every run that returns still
  returns the same value in the same state, and no instruction is left that the pass would drop.
\<close>

theorem mdce_correct:
  assumes "mdce_ok M fn" "mrun M fn p n env W r W2"
  shows "mrun M (fst (mdce fn)) p n env W r W2 \<and>
    list_all (\<lambda>b. list_all (\<lambda>i. \<not> dead_ins (fst (mdce fn)) i) (blk_ins b)) (fn_link (fst (mdce fn)))"
  using assms
proof (induction fn rule: mdce.induct)
  case (1 fn)
  obtain fn' k where round: "mdce_round fn = (fn', k)" by (cases "mdce_round fn")
  show ?case
  proof (cases "k = 0")
    case True
    then have "fst (mdce fn) = fn" "snd (mdce_round fn) = 0" using mdce_round_id(1) [of fn] by (simp_all add: mdce.simps [of fn] round)
    then show ?thesis using 1(3) mdce_round_id(2) [of fn] by (simp add: list_all_iff)
  next
    case False
    have "mrun M fn' p n env W r W2" using dce_round.run_preserved [OF 1(3,2)] round by simp
    moreover have "mdce_ok M fn'" using mdce_round_ok [OF 1(2)] round by simp
    moreover have "fst (mdce fn) = fst (mdce fn')" using False by (simp add: mdce.simps [of fn] round split_beta)
    ultimately show ?thesis using 1(1) [OF round [symmetric] False] by simp
  qed
qed

definition dce_fn :: mfn where
  "dce_fn =
     \<lparr>fn_val = replicate 3 \<lparr>val_kind = MV_TEMP, val_type = MT_I32, val_def = True, val_defblk = Some 0\<rparr>,
      fn_link = [\<lparr>blk_id = 0, blk_phi = [],
        blk_ins = [ex_ins MOP_MUL 1 (MREF_VAL 0) (MREF_CON (MC_INT MT_I32 8)), ex_ins MOP_ADD 2 (MREF_VAL 1) (MREF_VAL 0)],
        blk_term = (ex_ins MOP_RET 0 (MREF_VAL 1) MREF_NONE)\<lparr>in_dst := None\<rparr>, blk_s1 = None, blk_s2 = None\<rparr>]\<rparr>"

lemma mdce_correct_witness: "mrun ex_machine (fst (mdce dce_fn)) 0 0 (\<lambda>_. 5) () 40 ()"
proof -
  have sc: "scast (40 :: u32) = (40 :: u64)" by simp
  have ok: "mdce_ok ex_machine dce_fn"
    by (simp add: mdce_ok_def dce_fn_def ex_ins_def pure_ins_def step_ins_def is_alu_iff mt_float_def)
  have run: "exec_ins ex_machine (blk_ins (hd (fn_link dce_fn))) (\<lambda>_. 5, ()) = Some ((\<lambda>_. 5)(1 := 40, 2 := 45), ())"
    by (simp add: dce_fn_def ex_ins_def step_ins_def is_alu_iff mt_float_def mt_wide_def mir_alu_def set_dst_def)
  have "find_blk dce_fn 0 = Some (hd (fn_link dce_fn))" by (simp add: find_blk_def dce_fn_def)
  from run_ret [OF this, of ex_machine 0 "\<lambda>_. 5" "()"] run
  have "mrun ex_machine dce_fn 0 0 (\<lambda>_. 5) () 40 ()"
    by (simp add: enter_blk_def dce_fn_def ex_ins_def)
  from mdce_correct [OF ok this] show ?thesis ..
qed

section \<open>Instructions the list of side effects forgets\<close>

text \<open>Two arguments are fetched, the first is not used, the second is returned.\<close>

definition va_fn :: mfn where
  "va_fn =
     \<lparr>fn_val = replicate 3 \<lparr>val_kind = MV_TEMP, val_type = MT_I32, val_def = True, val_defblk = Some 0\<rparr>,
      fn_link = [\<lparr>blk_id = 0, blk_phi = [],
        blk_ins = [ex_ins MOP_VAARG 1 (MREF_VAL 0) MREF_NONE, ex_ins MOP_VAARG 2 (MREF_VAL 0) MREF_NONE],
        blk_term = (ex_ins MOP_RET 0 (MREF_VAL 2) MREF_NONE)\<lparr>in_dst := None\<rparr>, blk_s1 = None, blk_s2 = None\<rparr>]\<rparr>"

text \<open>The state is the list of the variable arguments that are left.\<close>

definition va_machine :: "u64 list machine" where
  "va_machine =
     \<lparr>mc_ext = (\<lambda>op dt e x y args. if op = MOP_VAARG \<and> args \<noteq> [] then Some (hd args, tl args) else None), mc_con = (\<lambda>_. 0)\<rparr>"

lemma mdce_va_fn: "fn_link (fst (mdce va_fn)) = [(hd (fn_link va_fn))\<lparr>blk_ins := [ex_ins MOP_VAARG 2 (MREF_VAL 0) MREF_NONE]\<rparr>]"
  by (simp add: mdce.simps mdce_round_def mdce_block_def dead_ins_def nuse_def va_fn_def ex_ins_def has_side_effect_def
    build_uses_def build_uses_block_def mark_use_def is_temp_def nth_Cons')

text \<open>
  Dead code elimination drops a \<^verbatim>\<open>va_arg\<close> whose value is not used, although it advances the argument
  list: a function that skips its first variable argument and returns the second one returns the first.
\<close>

theorem mdce_drops_va_arg:
  "mrun va_machine va_fn 0 0 env [a, b] b [] \<and> mrun va_machine (fst (mdce va_fn)) 0 0 env [a, b] a [b]"
proof
  have "find_blk va_fn 0 = Some (hd (fn_link va_fn))" by (simp add: find_blk_def va_fn_def)
  from run_ret [OF this, of va_machine 0 env "[a, b]"]
  show "mrun va_machine va_fn 0 0 env [a, b] b []"
    by (simp add: enter_blk_def va_fn_def ex_ins_def step_ins_def is_alu_iff is_icmp_iff va_machine_def set_dst_def)
  have "find_blk (fst (mdce va_fn)) 0 = Some (hd (fn_link (fst (mdce va_fn))))" 
    by (simp add: find_blk_def mdce_va_fn) (simp add: va_fn_def)
  from run_ret [OF this, of va_machine 0 env "[a, b]"]
  show "mrun va_machine (fst (mdce va_fn)) 0 0 env [a, b] a [b]"
    unfolding mdce_va_fn
    by (simp add: enter_blk_def va_fn_def ex_ins_def step_ins_def is_alu_iff is_icmp_iff va_machine_def set_dst_def)
qed

end
