(* ===== verification/Mcombine.thy ===== *)
theory Mcombine
  imports Mdce
begin

text \<open>
  Instruction combining on the medium IR (\<^verbatim>\<open>mcc/src/mir/combine.c\<close>): two adjacent instructions of the same
  operation with constants are to become one. The pass always terminates; what it computes is wrong.
  None means that the C code overflows a signed integer.
\<close>

section \<open>The pass\<close>

definition combine_pure :: "mop \<Rightarrow> bool" where
  "combine_pure op \<longleftrightarrow>
     op \<in> {MOP_ADD, MOP_SUB, MOP_MUL, MOP_DIV, MOP_UDIV, MOP_REM, MOP_UREM, MOP_NEG, MOP_AND, MOP_OR, MOP_XOR, MOP_SHL, MOP_SHR,
       MOP_SAR, MOP_CEQ, MOP_CNE, MOP_CSLT, MOP_CSLE, MOP_CSGT, MOP_CSGE, MOP_CULT, MOP_CULE, MOP_CUGT, MOP_CUGE, MOP_CFEQ, MOP_CFNE,
       MOP_CFLT, MOP_CFLE, MOP_CFGT, MOP_CFGE, MOP_SEXT, MOP_ZEXT, MOP_TRUNC, MOP_CAST, MOP_F2I, MOP_I2F, MOP_UI2F, MOP_FEXT,
       MOP_FTRUNC, MOP_COPY}"

definition combine_commutative :: "mop \<Rightarrow> bool" where
  "combine_commutative op \<longleftrightarrow> op \<in> {MOP_ADD, MOP_MUL, MOP_AND, MOP_OR, MOP_XOR, MOP_CEQ, MOP_CNE}"

definition combine_shift :: "mop \<Rightarrow> bool" where
  "combine_shift op \<longleftrightarrow> op = MOP_SHL \<or> op = MOP_SHR \<or> op = MOP_SAR"

definition combine_single_use :: "mfn \<Rightarrow> mins \<Rightarrow> mins \<Rightarrow> bool" where
  "combine_single_use fn d u \<longleftrightarrow>
     (case in_dst d of
        None \<Rightarrow> False
      | Some v \<Rightarrow>
          is_temp fn v \<and> nuse fn v = 1 \<and> (ref_val (in_src0 u) = Some v \<or> ref_val (in_src1 u) = Some v) \<and> in_blk d = in_blk u)"

definition fits_i64 :: "int \<Rightarrow> u64 option" where
  "fits_i64 z = (if - (2 ^ 63) \<le> z \<and> z < 2 ^ 63 then Some (word_of_int z) else None)"

datatype pair_result = No_change | Combined mins mins | Pair_undefined

text \<open>The combined constant: of a commutative operation, of a shift.\<close>

definition combine_const :: "mop \<Rightarrow> u64 \<Rightarrow> u64 \<Rightarrow> u64 option" where
  "combine_const op c1 c2 =
     (if op = MOP_ADD then fits_i64 (sint c1 + sint c2)
      else if op = MOP_MUL then fits_i64 (sint c1 * sint c2)
      else if op = MOP_AND then Some (c1 AND c2)
      else if op = MOP_OR then Some (c1 OR c2)
      else Some (c1 XOR c2))"

definition combine_rewrite :: "nat \<Rightarrow> mins \<Rightarrow> mins \<Rightarrow> mref \<Rightarrow> u64 \<Rightarrow> pair_result" where
  "combine_rewrite tmp d u other1 combined =
     (let new_other = MREF_CON (MC_INT (case ref_con other1 of Some c \<Rightarrow> con_type c | None \<Rightarrow> MT_I32) combined) in
      Combined
        (if ref_val (in_src0 d) = Some tmp then d\<lparr>in_src0 := new_other\<rparr> else d\<lparr>in_src1 := new_other\<rparr>)
        (u\<lparr>in_op := MOP_COPY, in_src0 := MREF_VAL tmp, in_src1 := MREF_NONE\<rparr>))"

definition combine_pair :: "nat \<Rightarrow> mins \<Rightarrow> mins \<Rightarrow> pair_result" where
  "combine_pair tmp d u =
     (if \<not> combine_pure (in_op d) \<or> \<not> combine_pure (in_op u) then No_change
      else if ref_val (in_src0 u) \<noteq> Some tmp \<and> ref_val (in_src1 u) \<noteq> Some tmp then No_change
      else
        let other1 = (if ref_val (in_src0 d) = Some tmp then in_src1 d else in_src0 d);
            other2 = (if ref_val (in_src0 u) = Some tmp then in_src1 u else in_src0 u)
        in
        if in_op d = in_op u \<and> combine_commutative (in_op d) then
          (case (int_con other1, int_con other2) of
             (Some c1, Some c2) \<Rightarrow>
               if in_op d = MOP_CEQ \<or> in_op d = MOP_CNE then No_change
               else (case combine_const (in_op d) c1 c2 of
                   None \<Rightarrow> Pair_undefined
                 | Some c \<Rightarrow> combine_rewrite tmp d u other1 c)
           | _ \<Rightarrow> No_change)
        else if in_op d = in_op u \<and> combine_shift (in_op d) then
          (case (int_con other1, int_con other2) of
             (Some c1, Some c2) \<Rightarrow>
               (case fits_i64 (sint c1 + sint c2) of
                  None \<Rightarrow> Pair_undefined
                | Some c \<Rightarrow> if (if in_dtype d = MT_I64 then 63 else 31) <s c then No_change else combine_rewrite tmp d u other1 c)
           | _ \<Rightarrow> No_change)
        else No_change)"

fun combine_sweep :: "mfn \<Rightarrow> mins \<Rightarrow> mins list \<Rightarrow> (mins list \<times> nat) option" where
  "combine_sweep fn d [] = Some ([d], 0)"
| "combine_sweep fn d (u # is) =
     (case (in_dst d, in_dst u) of
        (Some tmp, Some r) \<Rightarrow>
          if is_temp fn tmp \<and> is_temp fn r \<and> combine_single_use fn d u then
            (case combine_pair tmp d u of
               No_change \<Rightarrow> map_option (\<lambda>(out, n). (d # out, n)) (combine_sweep fn u is)
             | Combined d' u' \<Rightarrow> map_option (\<lambda>(out, n). (d' # out, Suc n)) (combine_sweep fn u' is)
             | Pair_undefined \<Rightarrow> None)
          else map_option (\<lambda>(out, n). (d # out, n)) (combine_sweep fn u is)
      | _ \<Rightarrow> map_option (\<lambda>(out, n). (d # out, n)) (combine_sweep fn u is))"

fun mcombine_blocks :: "mfn \<Rightarrow> mblk list \<Rightarrow> (mblk list \<times> nat) option" where
  "mcombine_blocks fn [] = Some ([], 0)"
| "mcombine_blocks fn (b # bs) =
     (case (case blk_ins b of [] \<Rightarrow> Some ([], 0) | d # is \<Rightarrow> combine_sweep fn d is, mcombine_blocks fn bs) of
        (Some (out, n), Some (bs', m)) \<Rightarrow> Some (b\<lparr>blk_ins := out\<rparr> # bs', n + m)
      | _ \<Rightarrow> None)"

definition mcombine_round :: "mfn \<Rightarrow> (mfn \<times> nat) option" where
  "mcombine_round fn = map_option (\<lambda>(bs, n). (fn\<lparr>fn_link := bs\<rparr>, n)) (mcombine_blocks fn (fn_link fn))"

section \<open>Termination\<close>

definition work :: "mins list \<Rightarrow> nat" where
  "work is = length (filter (\<lambda>i. in_op i \<noteq> MOP_COPY) is)"

lemma combine_pair_work:
  assumes "combine_pair tmp d u = Combined d' u'"
  shows "in_op u \<noteq> MOP_COPY" "in_op u' = MOP_COPY" "in_op d' = in_op d"
proof -
  have c: "in_op d = in_op u" "combine_commutative (in_op d) \<or> combine_shift (in_op d)"
    using assms by (auto simp: combine_pair_def Let_def split: if_splits)
  show "in_op u \<noteq> MOP_COPY" using c by (auto simp: combine_commutative_def combine_shift_def)
  show "in_op u' = MOP_COPY" "in_op d' = in_op d"
    using assms by (auto simp: combine_pair_def combine_rewrite_def Let_def split: if_splits option.splits)
qed

lemma combine_sweep_work: "combine_sweep fn d is = Some (out, n) \<Longrightarrow> work out + n = work (d # is)"
proof (induction "is" arbitrary: d out n)
  case (Cons u "is")
  consider out2 where "combine_sweep fn u is = Some (out2, n)" "out = d # out2"
    | tmp d' u' out2 m where "combine_pair tmp d u = Combined d' u'" "combine_sweep fn u' is = Some (out2, m)" "out = d' # out2" "n = Suc m"
    using Cons.prems by (auto split: option.splits if_splits pair_result.splits)
  then show ?case
  proof cases
    case (1 out2)
    then show ?thesis using Cons.IH [OF 1(1)] by (simp add: work_def)
  next
    case (2 tmp d' u' out2 m)
    then show ?thesis using Cons.IH [OF 2(2)] combine_pair_work [OF 2(1)] by (simp add: work_def)
  qed
qed (simp add: work_def)

lemma mcombine_blocks_work:
  "mcombine_blocks fn bs = Some (bs', n) \<Longrightarrow> sum_list (map (work \<circ> blk_ins) bs') + n = sum_list (map (work \<circ> blk_ins) bs)"
proof (induction bs arbitrary: bs' n)
  case (Cons b bs)
  obtain out k bs2 m where c: "(case blk_ins b of [] \<Rightarrow> Some ([], 0) | d # is \<Rightarrow> combine_sweep fn d is) = Some (out, k)"
      "mcombine_blocks fn bs = Some (bs2, m)" "bs' = b\<lparr>blk_ins := out\<rparr> # bs2" "n = k + m"
    using Cons.prems by (auto split: option.splits)
  have "work out + k = work (blk_ins b)" using c(1) combine_sweep_work by (cases "blk_ins b") auto
  then show ?case using Cons.IH [OF c(2)] c(3,4) by simp
qed simp

lemma mcombine_round_work:
  "mcombine_round fn = Some (fn', n) \<Longrightarrow> sum_list (map (work \<circ> blk_ins) (fn_link fn')) + n = sum_list (map (work \<circ> blk_ins) (fn_link fn))"
  using mcombine_blocks_work by (fastforce simp: mcombine_round_def)

function mcombine :: "mfn \<Rightarrow> (mfn \<times> nat) option" where
  "mcombine fn =
     (case mcombine_round fn of
        None \<Rightarrow> None
      | Some (fn', n) \<Rightarrow> if n = 0 then Some (fn', 0) else map_option (\<lambda>(f, k). (f, n + k)) (mcombine fn'))"
  by pat_completeness auto

termination
proof (relation "measure (\<lambda>fn. sum_list (map (work \<circ> blk_ins) (fn_link fn)))")
  fix fn fn' x and n :: nat
  assume "mcombine_round fn = Some x" "(fn', n) = x" "n \<noteq> 0"
  then show "(fn', fn) \<in> measure (\<lambda>fn. sum_list (map (work \<circ> blk_ins) (fn_link fn)))"
    using mcombine_round_work [of fn fn' n] by auto
qed simp

declare mcombine.simps [simp del]

section \<open>What it computes\<close>

text \<open>In SSA form a combined pair starts from a constant, and the other operand of the first instruction is lost.\<close>

lemma combine_pair_operands:
  assumes "combine_pair tmp d u = Combined d' u'" "ref_val (in_src0 d) \<noteq> Some tmp"
  shows "\<exists>c1 c. int_con (in_src0 d) = Some c1 \<and> d' = d\<lparr>in_src1 := MREF_CON (MC_INT (con_type (the (ref_con (in_src0 d)))) c)\<rparr>"
  using assms
  by (auto simp: combine_pair_def combine_rewrite_def Let_def int_con_def split: if_splits option.splits)

text \<open>The function \<open>(3 + x) + 5\<close>, and a machine whose copies copy.\<close>

definition comb_block :: mblk where
  "comb_block =
     \<lparr>blk_id = 0, blk_phi = [],
      blk_ins = [ex_ins MOP_ADD 1 (MREF_CON (MC_INT MT_I32 3)) (MREF_VAL 0), ex_ins MOP_ADD 2 (MREF_VAL 1) (MREF_CON (MC_INT MT_I32 5))],
      blk_term = (ex_ins MOP_RET 0 (MREF_VAL 2) MREF_NONE)\<lparr>in_dst := None\<rparr>, blk_s1 = None, blk_s2 = None\<rparr>"

definition comb_fn :: mfn where
  "comb_fn =
     \<lparr>fn_val = replicate 3 \<lparr>val_kind = MV_TEMP, val_type = MT_I32, val_def = True, val_defblk = Some 0\<rparr>, fn_link = [comb_block]\<rparr>"

definition copy_machine :: "unit machine" where
  "copy_machine = \<lparr>mc_ext = (\<lambda>op dt e x y W. if op = MOP_COPY then Some (x, W) else None), mc_con = (\<lambda>_. 0)\<rparr>"

definition comb_ins :: "mins list" where
  "comb_ins =
     [ex_ins MOP_ADD 1 (MREF_CON (MC_INT MT_I32 3)) (MREF_CON (MC_INT MT_I32 8)), ex_ins MOP_COPY 2 (MREF_VAL 1) MREF_NONE]"

lemma nuse_comb: "nuse (comb_fn\<lparr>fn_link := [comb_block\<lparr>blk_ins := is\<rparr>]\<rparr>) 1 =
    length (filter (\<lambda>i. ref_val (in_src0 i) = Some 1) is) + length (filter (\<lambda>i. ref_val (in_src1 i) = Some 1) is)"
proof -
  have "length (concat (map (\<lambda>i. mark_use 1 (in_blk i) (in_src0 i) @ mark_use 1 (in_blk i) (in_src1 i)) is)) =
      length (filter (\<lambda>i. ref_val (in_src0 i) = Some 1) is) + length (filter (\<lambda>i. ref_val (in_src1 i) = Some 1) is)"
    by (induction "is") (simp_all add: mark_use_def)
  then show ?thesis
    by (simp add: nuse_def build_uses_def is_temp_def comb_fn_def build_uses_block_def comb_block_def ex_ins_def mark_use_def)
qed

lemma mcombine_round_comb:
  "mcombine_round comb_fn = Some (comb_fn\<lparr>fn_link := [comb_block\<lparr>blk_ins := comb_ins\<rparr>]\<rparr>, 1)"
  "mcombine_round (comb_fn\<lparr>fn_link := [comb_block\<lparr>blk_ins := comb_ins\<rparr>]\<rparr>) = Some (comb_fn\<lparr>fn_link := [comb_block\<lparr>blk_ins := comb_ins\<rparr>]\<rparr>, 0)"
proof -
  have temp: "is_temp comb_fn 1" "is_temp comb_fn 2" "is_temp (comb_fn\<lparr>fn_link := bs\<rparr>) v = is_temp comb_fn v" for bs v
    by (simp_all add: is_temp_def comb_fn_def)
  have same: "comb_fn\<lparr>fn_link := [comb_block\<lparr>blk_ins := blk_ins comb_block\<rparr>]\<rparr> = comb_fn" by (simp add: comb_fn_def comb_block_def)
  have n: "nuse comb_fn 1 = 1" using nuse_comb [of "blk_ins comb_block"] unfolding same by (simp add: comb_block_def ex_ins_def)
  have pair: "combine_pair 1 (ex_ins MOP_ADD 1 (MREF_CON (MC_INT MT_I32 3)) (MREF_VAL 0)) (ex_ins MOP_ADD 2 (MREF_VAL 1) (MREF_CON (MC_INT MT_I32 5))) =
      Combined (ex_ins MOP_ADD 1 (MREF_CON (MC_INT MT_I32 3)) (MREF_CON (MC_INT MT_I32 8))) (ex_ins MOP_COPY 2 (MREF_VAL 1) MREF_NONE)"
    by (simp add: combine_pair_def combine_pure_def combine_commutative_def ex_ins_def int_con_def combine_const_def fits_i64_def
      combine_rewrite_def)
  have none: "combine_pair 1 (ex_ins MOP_ADD 1 (MREF_CON (MC_INT MT_I32 3)) (MREF_CON (MC_INT MT_I32 8))) (ex_ins MOP_COPY 2 (MREF_VAL 1) MREF_NONE) =
      No_change"
    by (simp add: combine_pair_def combine_pure_def ex_ins_def)
  have link: "fn_link comb_fn = [comb_block]" "blk_ins comb_block =
      [ex_ins MOP_ADD 1 (MREF_CON (MC_INT MT_I32 3)) (MREF_VAL 0), ex_ins MOP_ADD 2 (MREF_VAL 1) (MREF_CON (MC_INT MT_I32 5))]"
    by (simp_all add: comb_fn_def comb_block_def)
  have d: "in_dst (ex_ins op v a b) = Some v" "in_src0 (ex_ins op v a b) = a" "in_src1 (ex_ins op v a b) = b" "in_blk (ex_ins op v a b) = 0"
    for op v a b by (simp_all add: ex_ins_def)
  show "mcombine_round comb_fn = Some (comb_fn\<lparr>fn_link := [comb_block\<lparr>blk_ins := comb_ins\<rparr>]\<rparr>, 1)"
    using n temp(1,2) pair by (simp add: mcombine_round_def link d combine_single_use_def comb_ins_def)
  show "mcombine_round (comb_fn\<lparr>fn_link := [comb_block\<lparr>blk_ins := comb_ins\<rparr>]\<rparr>) = Some (comb_fn\<lparr>fn_link := [comb_block\<lparr>blk_ins := comb_ins\<rparr>]\<rparr>, 0)"
    using none by (simp add: mcombine_round_def comb_ins_def d)
qed

text \<open>
  C39. Combining loses an operand: where it rewrites a pair in SSA form, the first instruction is left with
  two constants, so the function \<open>(3 + x) + 5\<close> returns 11 for every \<open>x\<close> after the pass.
\<close>

theorem mcombine_drops_operand:
  "mrun copy_machine comb_fn 0 0 (\<lambda>_. x) () (canon False (x + 8)) () \<and>
   (\<exists>fn' k. mcombine comb_fn = Some (fn', k) \<and> mrun copy_machine fn' 0 0 (\<lambda>_. x) () 11 ())"
proof
  have sc: "scast (11 :: u32) = (11 :: u64)" by simp
  have "find_blk comb_fn 0 = Some comb_block" by (simp add: find_blk_def comb_fn_def comb_block_def)
  moreover have "exec_ins copy_machine (blk_ins comb_block) (\<lambda>_. x, ()) = Some ((\<lambda>_. x)(1 := scast (3 + ucast x :: u32), 2 := canon False (x + 8)), ())"
  proof -
    have "3 + ucast x + 5 = (ucast (x + 8) :: u32)" by (simp add: ucast_arith(1) [of x 8])
    then have "scast (3 + ucast x + 5 :: u32) = canon False (x + 8)"  by (simp only: canon_def if_False)
    then have add: "mir_alu MOP_ADD False 3 x = Some (scast (3 + ucast x :: u32))"
      "mir_alu MOP_ADD False (scast (3 + ucast x :: u32)) 5 = Some (canon False (x + 8))"
      by (simp_all add: mir_alu_def)
    have "is_alu MOP_ADD" "\<not> mt_float MT_I32" "mt_wide MT_I32 = False" by (simp_all add: is_alu_iff mt_float_def mt_wide_def)
    then show ?thesis by (simp add: comb_block_def ex_ins_def step_ins_def add set_dst_def)
  qed
  moreover have "in_op (blk_term comb_block) = MOP_RET" "in_src0 (blk_term comb_block) = MREF_VAL 2" "blk_phi comb_block = []"
    by (simp_all add: comb_block_def ex_ins_def)
  ultimately show "mrun copy_machine comb_fn 0 0 (\<lambda>_. x) () (canon False (x + 8)) ()"
    using run_ret [of comb_fn 0 comb_block copy_machine 0 "\<lambda>_. x" "()"] by (fastforce simp: enter_blk_def)
  let ?fn = "comb_fn\<lparr>fn_link := [comb_block\<lparr>blk_ins := comb_ins\<rparr>]\<rparr>"
  have "mcombine ?fn = Some (?fn, 0)" by (simp add: mcombine.simps [of ?fn] mcombine_round_comb(2))
  then have "mcombine comb_fn = Some (?fn, 1)" by (simp add: mcombine.simps [of comb_fn] mcombine_round_comb(1))
  moreover have "find_blk ?fn 0 = Some (comb_block\<lparr>blk_ins := comb_ins\<rparr>)" by (simp add: find_blk_def comb_block_def)
  from run_ret [OF this, of copy_machine 0 "\<lambda>_. x" "()"]
  have "mrun copy_machine ?fn 0 0 (\<lambda>_. x) () 11 ()"
    by (simp add: enter_blk_def comb_block_def comb_ins_def ex_ins_def step_ins_def is_alu_iff is_icmp_iff mt_float_def mt_wide_def mir_alu_def
      set_dst_def copy_machine_def)
  ultimately show "\<exists>fn' k. mcombine comb_fn = Some (fn', k) \<and> mrun copy_machine fn' 0 0 (\<lambda>_. x) () 11 ()" by blast
qed

end
