(* ===== verification/Spec2Isabelle.thy ===== *)
theory Spec2Isabelle
  imports Lz77 Checksum Huffman_Roundtrip Deflate_Stored Deflate_Safety Combo Gzip Container_Limits Zip_Archive
    Chacha Sha512 Ed25519 Mxa_Limits Libgcc_Bits Malloc_Safety
    Libc_Sort Libc_Convert Libc_String
    Mslot Msdiv Mcombine
begin

text \<open>
  A verification library for \<^bold>\<open>MeuOS-Kit\<close>: a compiler (\<^verbatim>\<open>mcc\<close>), a toolchain, a C library (\<^verbatim>\<open>meuos-libc\<close>),
  a shell, utilities and \<^verbatim>\<open>meuos-compress\<close>, the compression library that packs system images. The library
  covers three of the projects under \<^verbatim>\<open>src/projects\<close>: all of \<^verbatim>\<open>meuos-compress\<close> but its command line tool, the
  computing core of \<^verbatim>\<open>meuos-libc\<close>, and the folding passes of the optimiser of \<^verbatim>\<open>mcc\<close>. Every routine below is a
  C function, translated line by line into an executable definition of the same name.

  \<^bold>\<open>The parts and how they interact.\<close> In \<^verbatim>\<open>meuos-compress\<close> the codecs (\<^verbatim>\<open>codec/mz_lz77.c\<close>, \<^verbatim>\<open>mz_huf.c\<close>,
  \<^verbatim>\<open>mz_ans.c\<close>, \<^verbatim>\<open>mz_deflate.c\<close>, \<^verbatim>\<open>mz_solid.c\<close>) map buffers to buffers. \<^verbatim>\<open>mz_combo.c\<close> chains LZ77 with an entropy
  coder, \<^verbatim>\<open>mz_main.c\<close> selects a codec, \<^verbatim>\<open>mz_msys.c\<close> adapts both to fixed buffers. The containers use the codecs:
  \<^verbatim>\<open>mz_gzip.c\<close> frames a DEFLATE stream, \<^verbatim>\<open>mz_zip.c\<close> reads PKZIP archives, \<^verbatim>\<open>mz_core.c\<close> writes and reads MZ2
  archives, \<^verbatim>\<open>mxa_core.c\<close> signed and encrypted MxA archives, with the checksums of \<^verbatim>\<open>mz_hash.c\<close>, the cipher and
  hash of \<^verbatim>\<open>crypt/mz_crypt.c\<close> and signatures through \<^verbatim>\<open>crypt/mz_ed25519.c\<close>. In \<^verbatim>\<open>meuos-libc\<close> the allocator stands on
  \<^verbatim>\<open>sbrk\<close> and uses \<^verbatim>\<open>memcpy\<close> and \<^verbatim>\<open>memset\<close>; the routines of \<^verbatim>\<open>libgcc_meuos\<close> are what compiled code calls for wide
  integers. In \<^verbatim>\<open>mcc\<close> each pass rewrites the medium IR of a function (\<^verbatim>\<open>mir.h\<close>) in place.

  \<^bold>\<open>Theories and code: meuos-compress.\<close>
  \<^item> \<open>Prelude\<close>, \<open>Bytes\<close>, \<open>Window\<close>, \<open>Codec_Spec\<close>: machine types, error codes and the return convention of
    \<^verbatim>\<open>mz.h\<close>; the little and big endian fields; copying from a window; the contract of a codec.
  \<^item> \<open>Lz77\<close>: compressor (hash chains, lazy matching, levels) and decompressor, round trip and bounds.
  \<^item> \<open>Huf_Heap\<close>, \<open>Bitstream\<close>, \<open>Prefix_Code\<close>, \<open>Huffman\<close>, \<open>Huffman_Tree\<close>, \<open>Huffman_Code\<close>, \<open>Huffman_Trie\<close>,
    \<open>Huffman_Decode\<close>, \<open>Huffman_Roundtrip\<close>: the priority queue, bit writer and reader, canonical codes,
    the definitions of \<^verbatim>\<open>mz_huf.c\<close>, then tree, codes, decoding tables and round trip.
  \<^item> \<open>Deflate\<close>, \<open>Deflate_Huffman\<close>, \<open>Deflate_Stored\<close>, \<open>Deflate_Safety\<close>: inflate and the stored-block
    compressor; canonical decoding, round trip, and where the C code leaves defined behaviour.
  \<^item> \<open>Ans\<close>, \<open>Ans_Spread\<close>, \<open>Ans_Codec\<close>: the tANS coder, its symbol spread, what holds of it and what not.
  \<^item> \<open>Combo\<close>: \<^verbatim>\<open>mz_combo.c\<close>, \<^verbatim>\<open>mz_main.c\<close> and \<^verbatim>\<open>mz_msys.c\<close>. \<open>Gzip\<close>: the gzip frame.
  \<^item> \<open>Solid\<close>, \<open>Core\<close>, \<open>Container\<close>, \<open>Container_Limits\<close>: solid streams and the MZ2 container, its
    refinement of a list of files, its limits and error paths.
  \<^item> \<open>Mxa_Core\<close>, \<open>Mxa\<close>, \<open>Mxa_Limits\<close>: the MxA container, its refinement of the same specification, and the
    archives its reader does not survive.
  \<^item> \<open>Zip\<close>, \<open>Zip_Archive\<close>: the PKZIP reader and its correctness on the format of APPNOTE.
  \<^item> \<open>Checksum\<close>: CRC-32 and Adler-32. \<open>Chacha\<close>, \<open>Sha512\<close>: the cipher and the hash. \<open>Field25519\<close>,
    \<open>Field_Bytes\<close>, \<open>Ed25519\<close>: arithmetic modulo \<open>2 ^ 255 - 19\<close>, field elements as bytes, points of the curve.
    \<open>Ed_Sign\<close>: the binding to libsodium, whose functions are parameters.

  \<^bold>\<open>Theories and code: meuos-libc.\<close>
  \<^item> \<open>Libgcc\<close>, \<open>Libgcc_Bits\<close>: \<^verbatim>\<open>libgcc_meuos/div.c\<close>, \<^verbatim>\<open>mul.c\<close> and \<^verbatim>\<open>bit.c\<close>.
  \<^item> \<open>Malloc\<close>, \<open>Malloc_Safety\<close>: \<^verbatim>\<open>stdlib/malloc.c\<close> on \<^verbatim>\<open>syscall/brk.c\<close>. The heap is a record of the memory, the
    break and the list of blocks; what the kernel grants is a parameter.
  \<^item> \<open>Libc_Sort\<close>: \<^verbatim>\<open>stdlib/search.c\<close>. \<open>Libc_Convert\<close>: the number parsers of \<^verbatim>\<open>stdlib/convert.c\<close>. \<open>Libc_String\<close>:
    \<^verbatim>\<open>memmove\<close> on the memory, and the searching and splitting of strings in \<^verbatim>\<open>string/memory.c\<close>,
    \<^verbatim>\<open>compare.c\<close> and \<^verbatim>\<open>token.c\<close>.

  \<^bold>\<open>Theories and code: the optimiser of mcc.\<close>
  \<^item> \<open>Mir\<close>, \<open>Mir_Run\<close>: the data of \<^verbatim>\<open>mir.h\<close>, the meaning of an instruction, execution from block to block, and
    \<open>mir_pass\<close>, the contract of a pass, with the conditional branches of \<^verbatim>\<open>mir/passes.c\<close> as its first instance.
  \<^item> \<open>Mfold\<close>, \<open>Msimp\<close>, \<open>Msimp_Correct\<close>, \<open>Mfold_Run\<close>, \<open>Mslot\<close>: constant folding and algebraic simplification
    (\<^verbatim>\<open>mir/mfold.c\<close>) on constants, on blocks and on functions, and their limit at stack slots.
  \<^item> \<open>Msdiv\<close>: division by powers of two. \<open>Mdce\<close>: dead code (\<^verbatim>\<open>mir/mdce.c\<close>). \<open>Mcombine\<close>: \<^verbatim>\<open>mir/combine.c\<close>.

  \<^bold>\<open>Interfaces.\<close> \<open>byte_codec\<close> (LZ77 and DEFLATE), \<open>priority_queue\<close> (the Huffman heap), \<open>bit_source\<close> (the bit
  reader), \<open>history\<close> (the ring of LZ77 and the output of inflate), \<open>archive_writer\<close> and \<open>archive_store\<close> (MZ2
  and MxA), \<open>stream_hash\<close> (SHA-512), \<open>restoring_division\<close> (64 and 128 bits), \<open>compare_laws\<close> (what \<^verbatim>\<open>qsort\<close> asks of
  the comparison; \<^verbatim>\<open>memcmp\<close> has it) and \<open>mir_pass\<close> (folding, dead code, branches and division).

  \<^bold>\<open>Conventions.\<close> A buffer and its length are one byte list; a pointer that may be null is an option. The
  functions of \<^verbatim>\<open>meuos-compress\<close> return \<open>mz_ret\<close>, the \<^verbatim>\<open>int\<close> and the buffer delivered, or a sum type whose left
  side is the error. \<^verbatim>\<open>malloc\<close> is an argument there, \<open>allocator\<close>. An access outside a buffer is an outcome of its
  own where the code can make one (\<open>Undefined\<close> in \<open>Deflate\<close>, None in \<open>Zip\<close>, \<open>Mxa_Core\<close>, \<open>Libc_Convert\<close> and in
  the compressor of \<open>Deflate\<close>). \<^verbatim>\<open>size_t\<close> is a natural number, so the theorems on sizes speak of inputs far
  below \<open>2 ^ 63\<close>; fixed-width fields are words, and the sizes of the allocator are words of 64 bits. Limbs
  of field elements are integers and are shown to fit. A C string is the list of its bytes before the
  terminator; where aliasing matters, memory is a map from addresses to bytes.

  \<^bold>\<open>What the theorems show.\<close> Round trips (LZ77, Huffman, stored DEFLATE, gzip, the pipeline, ChaCha20, field
  elements), equivalence with reference definitions (the checksums, canonical Huffman decoding, wide
  division and multiplication, folded constants), refinement of abstract specifications (an archive is
  the list of its files, SHA-512 is the hash of the concatenation, the allocator is the map of live
  pointers, an optimised function computes what the original computes), invariants of every reachable
  heap, bounds on every buffer, termination on hostile input, sorting and searching, and error paths.
  Where the code does not do what it means to, a theorem says exactly what it does instead.

  \<^bold>\<open>Loops and bounds.\<close> Every loop of the code is a terminating function on the input that remains or on
  a counter of the code. Two recursions of the Huffman coder, down the code tree, carry a bound that is
  always enough: the number of nodes, since children have smaller indices, and the number of bits left. The one loop that can run forever, in \<^verbatim>\<open>mz_chacha20\<close>, is a partial
  function, and \<open>chacha20_terminates_iff\<close> says when it returns. Runs of functions of the medium IR, which
  may loop, are a step relation: the passes keep every run that returns.

  \<^bold>\<open>Not modelled.\<close> In \<^verbatim>\<open>meuos-compress\<close> the tool \<^verbatim>\<open>mxa_cli.c\<close> (file system access) and the freeing of memory. In
  \<^verbatim>\<open>mcc\<close> the -Ofast folding, the pass driver, the other passes over the medium IR (value numbering, \<^verbatim>\<open>mem2reg\<close>,
  copies, load forwarding), and the front and back ends. In \<^verbatim>\<open>meuos-libc\<close> floating point conversion and
  formatting, regular expressions, locales, streams and threads, and the wrappers of system calls. The
  linker, assembler and archiver, the build driver, the shell, the utilities, \<^verbatim>\<open>msys\<close>, the terminal library
  and the build tools are left out: they are mostly file, process and terminal access.
\<close>

end
